(* ===== verification/Prelude.thy ===== *)
theory Prelude
  imports "HOL-Library.Word" "HOL-Library.Multiset"
begin

text \<open>
  Shared vocabulary of the development: the machine types of the C++ code, the exceptions of
  the standard library that the code throws, the Linux error numbers it names, and the list
  and word facts that several components use.
\<close>

unbundle bit_operations_syntax

section \<open>Machine types\<close>

type_synonym byte = "8 word"
type_synonym u64 = "64 word"
type_synonym size_t = "64 word"

text \<open>The largest value of an unsigned 64-bit type (\<open>std::numeric_limits<...>::max()\<close>).\<close>

abbreviation (input) u64_max :: u64 where
  "u64_max \<equiv> - 1"

section \<open>Exceptions and error numbers\<close>

text \<open>
  The exception types of the standard library that the code throws, each with the message the
  code gives it (a \<open>std::system_error\<close> also carries its error number). \<open>User_exception\<close> stands
  for whatever a user-defined stage throws.
\<close>

datatype exn =
    Invalid_argument string
  | Length_error string
  | Overflow_error string
  | Logic_error string
  | Runtime_error string
  | System_error int string
  | User_exception nat

type_synonym 'a res = "exn + 'a"

abbreviation (input) EINTR :: int where "EINTR \<equiv> 4"
abbreviation (input) EIO :: int where "EIO \<equiv> 5"
abbreviation (input) EAGAIN :: int where "EAGAIN \<equiv> 11"
abbreviation (input) ENOENT :: int where "ENOENT \<equiv> 2"
abbreviation (input) EINVAL :: int where "EINVAL \<equiv> 22"
abbreviation (input) ENOSYS :: int where "ENOSYS \<equiv> 38"
abbreviation (input) ECANCELED :: int where "ECANCELED \<equiv> 125"

section \<open>Memory and file images\<close>

text \<open>
  Bytes stored from the start of a buffer: the rest of the buffer keeps its contents, and nothing
  is stored past its end.
\<close>

definition store_prefix :: "'a list \<Rightarrow> 'a list \<Rightarrow> 'a list" where
  "store_prefix new old = take (length old) new @ drop (length new) old"

lemma length_store_prefix [simp]: "length (store_prefix new old) = length old"
  by (simp add: store_prefix_def)

lemma take_store_prefix:
  "n \<le> length new \<Longrightarrow> n \<le> length old \<Longrightarrow> take n (store_prefix new old) = take n new"
  by (simp add: store_prefix_def min_def)

text \<open>
  The image of a regular file after bytes are written at an offset: a gap before the offset reads
  as zeros (POSIX \<open>pwrite\<close>).
\<close>

definition write_image :: "byte list \<Rightarrow> nat \<Rightarrow> byte list \<Rightarrow> byte list" where
  "write_image file off bytes =
     (if bytes = [] then file
      else take off file @ replicate (off - length file) 0 @ bytes @ drop (off + length bytes) file)"

lemma write_image_Nil [simp]: "write_image file off [] = file"
  by (simp add: write_image_def)

lemma write_image_append:
  "write_image (write_image file off xs) (off + length xs) ys = write_image file off (xs @ ys)"
proof (cases "ys = [] \<or> xs = []")
  case True
  then show ?thesis by auto
next
  case False
  let ?h = "take off file @ replicate (off - length file) 0"
  have h: "length ?h = off" by simp
  have w: "write_image file off xs = ?h @ xs @ drop (off + length xs) file"
    using False by (simp add: write_image_def)
  have len: "length (write_image file off xs) = off + length xs + length (drop (off + length xs) file)"
    using h by (simp add: w)
  have "take (off + length xs) (write_image file off xs) = ?h @ xs"
    using h unfolding w by (simp only: append_assoc [symmetric] take_append length_append) simp
  moreover have "drop (off + length xs + length ys) (write_image file off xs)
      = drop (off + length xs + length ys) file"
    using h unfolding w
    by (simp only: append_assoc [symmetric] drop_append length_append) (simp add: add.commute add.left_commute)
  moreover have "replicate (off + length xs - length (write_image file off xs)) (0::byte) = []"
    using len by simp
  ultimately show ?thesis
    using False by (simp add: write_image_def add.assoc)
qed

lemma write_image_at_end: "write_image file (length file) bytes = file @ bytes"
  by (simp add: write_image_def)

section \<open>Words\<close>

lemma unat_minus_one_word: "(x::'a::len word) \<noteq> 0 \<Longrightarrow> unat (x - 1) = unat x - 1"
  by (metis One_nat_def Suc_pred unat_gt_0 unat_minus_one)

text \<open>A sum of two 64-bit values fits exactly when the right one is at most \<open>max - left\<close>.\<close>

lemma u64_add_fits: "\<not> u64_max - a < b \<longleftrightarrow> unat a + unat b < 2 ^ 64" for a b :: u64
proof -
  have "unat (u64_max - a) = 2 ^ 64 - 1 - unat a"
    using unsigned_less [of a, where 'a=nat] by (simp add: unat_sub_if' unsigned_minus_1_eq_mask mask_eq_exp_minus_1)
  moreover have "unat a < 2 ^ 64" and "unat b < 2 ^ 64"
    using unsigned_less [of a, where 'a=nat] unsigned_less [of b, where 'a=nat] by simp_all
  ultimately show ?thesis
    by (auto simp: word_less_nat_alt)
qed

lemma unat_add_fits: "unat a + unat b < 2 ^ 64 \<Longrightarrow> unat (a + b) = unat a + unat b" for a b :: u64
  by (simp add: unat_word_ariths)

text \<open>The bit trick for powers of two, first on natural numbers.\<close>

lemma and_pred_even: "(2 * m) AND (2 * m - 1) = 2 * (m AND (m - 1))" if "0 < m" for m :: nat
proof -
  have "odd (2 * m - 1)" and "(2 * m - 1) div 2 = m - 1" using that by auto
  then show ?thesis by (subst and_rec) simp
qed

lemma and_pred_odd: "(2 * m + 1) AND (2 * m) = 2 * m" for m :: nat
  by (subst and_rec) simp

lemma and_pred_zero_iff: "0 < n \<Longrightarrow> n AND (n - 1) = 0 \<longleftrightarrow> (\<exists>k. n = 2 ^ k)" for n :: nat
proof (induction n rule: less_induct)
  case (less n)
  show ?case
  proof (cases "even n")
    case True
    then obtain m where m: "n = 2 * m" by blast
    with less.prems have "0 < m" and "m < n" by auto
    from less.IH [OF \<open>m < n\<close> \<open>0 < m\<close>]
    have IH: "m AND (m - 1) = 0 \<longleftrightarrow> (\<exists>k. m = 2 ^ k)" .
    have "n AND (n - 1) = 2 * (m AND (m - 1))"
      using and_pred_even [OF \<open>0 < m\<close>] by (simp add: m)
    moreover have "(\<exists>k. n = 2 ^ k) \<longleftrightarrow> (\<exists>k. m = 2 ^ k)"
    proof
      assume "\<exists>k. n = 2 ^ k"
      then obtain k where k: "n = 2 ^ k" ..
      with True less.prems have "k \<noteq> 0" by (cases k) auto
      with k m have "m = 2 ^ (k - 1)" by (cases k) auto
      then show "\<exists>k. m = 2 ^ k" ..
    next
      assume "\<exists>k. m = 2 ^ k"
      then obtain k where "m = 2 ^ k" ..
      with m have "n = 2 ^ Suc k" by simp
      then show "\<exists>k. n = 2 ^ k" by blast
    qed
    ultimately show ?thesis using IH by simp
  next
    case False
    then obtain m where m: "n = 2 * m + 1" using oddE by blast
    have "n AND (n - 1) = 2 * m" using and_pred_odd [of m] by (simp add: m)
    moreover have "(\<exists>k. n = 2 ^ k) \<longleftrightarrow> m = 0"
    proof
      assume "\<exists>k. n = 2 ^ k"
      then obtain k where k: "n = 2 ^ k" ..
      with False have "k = 0" by (cases k) auto
      with k m show "m = 0" by simp
    next
      assume "m = 0"
      with m have "n = 2 ^ 0" by simp
      then show "\<exists>k. n = 2 ^ k" ..
    qed
    ultimately show ?thesis by simp
  qed
qed

section \<open>Decimal numerals\<close>

text \<open>\<open>std::to_string\<close> of an unsigned value.\<close>

definition digit :: "nat \<Rightarrow> char" where
  "digit d = char_of (48 + d)"

fun decimal :: "nat \<Rightarrow> string" where
  "decimal n = (if n < 10 then [digit n] else decimal (n div 10) @ [digit (n mod 10)])"

declare decimal.simps [simp del]

text \<open>Reading a numeral back, most significant digit first.\<close>

definition read_decimal :: "string \<Rightarrow> nat" where
  "read_decimal cs = fold (\<lambda>c n. 10 * n + (of_char c - 48)) cs 0"

lemma of_char_digit: "d < 10 \<Longrightarrow> of_char (digit d) = (48 + d :: nat)"
  by (simp add: digit_def)

lemma read_decimal_decimal: "read_decimal (decimal n) = n"
proof (induction n rule: decimal.induct)
  case (1 n)
  then show ?case
    by (subst decimal.simps) (auto simp: read_decimal_def of_char_digit)
qed

lemma decimal_inject [simp]: "decimal m = decimal n \<longleftrightarrow> m = n"
  by (metis read_decimal_decimal)

lemma decimal_not_Nil [simp]: "decimal n \<noteq> []"
  by (subst decimal.simps) simp

lemma decimal_digits: "c \<in> set (decimal n) \<Longrightarrow> \<exists>d < 10. c = digit d"
proof (induction n rule: decimal.induct)
  case (1 n)
  show ?case
  proof (cases "n < 10")
    case True
    with 1(2) show ?thesis by (subst (asm) decimal.simps) auto
  next
    case False
    with 1(2) have "c \<in> set (decimal (n div 10)) \<or> c = digit (n mod 10)"
      by (subst (asm) decimal.simps) auto
    moreover have "n mod 10 < 10" by simp
    ultimately show ?thesis using 1(1) [OF False] by blast
  qed
qed

lemma decimal_no_dot: "CHR ''.'' \<notin> set (decimal n)"
proof
  assume "CHR ''.'' \<in> set (decimal n)"
  then obtain d where "d < 10" "CHR ''.'' = digit d" using decimal_digits by blast
  then have "(of_char (CHR ''.'') :: nat) = 48 + d" by (metis of_char_digit)
  then show False by simp
qed

end
