(* ===== verification/Pipeline_Config.thy ===== *)
theory Pipeline_Config
  imports Prelude
begin

text \<open>
  The pipeline configuration of \<open>include/config/pipeline_config.h\<close> and
  \<open>src/config/pipeline_config.cpp\<close>: the record of sizes, its validation (every check in the
  code's order, with the exception it throws) and the size of the buffer pool.
\<close>

record pipeline_config =
  block_size :: size_t
  max_inflight_buffers :: size_t
  queue_depth :: size_t
  buffer_alignment :: size_t

text \<open>The default member initialisers of the struct.\<close>

definition default_config :: pipeline_config where
  "default_config = \<lparr>block_size = 1024 * 1024, max_inflight_buffers = 8,
     queue_depth = 4, buffer_alignment = 4096\<rparr>"

text \<open>\<open>sizeof(void*)\<close> on the 64-bit Linux targets of the code.\<close>

abbreviation (input) sizeof_pointer :: size_t where
  "sizeof_pointer \<equiv> 8"

definition is_power_of_two :: "size_t \<Rightarrow> bool" where
  "is_power_of_two value \<longleftrightarrow> value \<noteq> 0 \<and> value AND (value - 1) = 0"

definition validate :: "pipeline_config \<Rightarrow> unit res" where
  "validate c =
     (if block_size c = 0 then
        Inl (Invalid_argument ''block_size must be greater than zero'')
      else if max_inflight_buffers c = 0 then
        Inl (Invalid_argument ''max_inflight_buffers must be greater than zero'')
      else if queue_depth c = 0 then
        Inl (Invalid_argument ''queue_depth must be greater than zero'')
      else if \<not> is_power_of_two (buffer_alignment c) \<or>
              buffer_alignment c mod sizeof_pointer \<noteq> 0 then
        Inl (Invalid_argument
          ''buffer_alignment must be a power of two and a multiple of sizeof(void*)'')
      else if block_size c mod buffer_alignment c \<noteq> 0 then
        Inl (Invalid_argument ''block_size must be a multiple of buffer_alignment'')
      else if u64_max div max_inflight_buffers c < block_size c then
        Inl (Overflow_error ''block_size * max_inflight_buffers exceeds size_t'')
      else Inr ())"

definition buffer_pool_bytes :: "pipeline_config \<Rightarrow> size_t res" where
  "buffer_pool_bytes c =
     (case validate c of
        Inl e \<Rightarrow> Inl e
      | Inr _ \<Rightarrow> Inr (block_size c * max_inflight_buffers c))"

text \<open>What a valid configuration means, in natural numbers.\<close>

definition config_ok :: "pipeline_config \<Rightarrow> bool" where
  "config_ok c \<longleftrightarrow>
     0 < unat (block_size c) \<and> 0 < unat (max_inflight_buffers c) \<and> 0 < unat (queue_depth c) \<and>
     (\<exists>k. unat (buffer_alignment c) = 2 ^ k \<and> 3 \<le> k) \<and>
     unat (buffer_alignment c) dvd unat (block_size c) \<and>
     unat (block_size c) * unat (max_inflight_buffers c) < 2 ^ 64"

section \<open>Lemmas\<close>

lemma is_power_of_two_iff: "is_power_of_two v \<longleftrightarrow> (\<exists>k. unat v = 2 ^ k)"
proof (cases "v = 0")
  case True
  then show ?thesis by (simp add: is_power_of_two_def)
next
  case False
  have "v AND (v - 1) = 0 \<longleftrightarrow> unat v AND unat (v - 1) = 0"
    by (metis unat_eq_zero unsigned_and_eq)
  also have "\<dots> \<longleftrightarrow> unat v AND (unat v - 1) = 0"
    by (simp add: unat_minus_one_word [OF False])
  also have "\<dots> \<longleftrightarrow> (\<exists>k. unat v = 2 ^ k)"
    by (rule and_pred_zero_iff) (use False in \<open>simp add: unat_gt_0\<close>)
  finally show ?thesis using False by (simp add: is_power_of_two_def)
qed

lemma word_mod_zero_iff: "a mod b = 0 \<longleftrightarrow> unat b dvd unat a" for a b :: "64 word"
  by (metis dvd_eq_mod_eq_0 unat_eq_zero unat_mod)

lemma div_bound_iff:
  fixes b m :: u64
  assumes "m \<noteq> 0"
  shows "\<not> u64_max div m < b \<longleftrightarrow> unat b * unat m < 2 ^ 64"
proof -
  have m: "0 < unat m" using assms by (simp add: unat_gt_0)
  have "\<not> u64_max div m < b \<longleftrightarrow> unat b \<le> (2 ^ 64 - 1) div unat m"
    by (simp add: word_less_nat_alt unat_div not_less unsigned_minus_1_eq_mask mask_eq_exp_minus_1)
  also have "\<dots> \<longleftrightarrow> unat b * unat m \<le> 2 ^ 64 - 1"
    using m by (simp add: less_eq_div_iff_mult_less_eq)
  also have "\<dots> \<longleftrightarrow> unat b * unat m < 2 ^ 64"
    by auto
  finally show ?thesis .
qed

lemma multiple_of_eight_power: "(8::nat) dvd 2 ^ k \<longleftrightarrow> 3 \<le> k"
  using power_dvd_imp_le [of "2::nat" 3 k] le_imp_power_dvd [of 3 k "2::nat"] by auto

lemma validate_iff: "validate c = Inr () \<longleftrightarrow> config_ok c"
proof -
  have al: "is_power_of_two (buffer_alignment c) \<and> buffer_alignment c mod sizeof_pointer = 0 \<longleftrightarrow>
      (\<exists>k. unat (buffer_alignment c) = 2 ^ k \<and> 3 \<le> k)"
    using multiple_of_eight_power by (auto simp: is_power_of_two_iff word_mod_zero_iff)
  have "validate c = Inr () \<longleftrightarrow>
      block_size c \<noteq> 0 \<and> max_inflight_buffers c \<noteq> 0 \<and> queue_depth c \<noteq> 0 \<and>
      (is_power_of_two (buffer_alignment c) \<and> buffer_alignment c mod sizeof_pointer = 0) \<and>
      block_size c mod buffer_alignment c = 0 \<and>
      \<not> u64_max div max_inflight_buffers c < block_size c"
    by (simp add: validate_def) metis
  also have "\<dots> \<longleftrightarrow> config_ok c"
    unfolding al unfolding word_mod_zero_iff
    using div_bound_iff [of "max_inflight_buffers c" "block_size c"]
    by (auto simp: config_ok_def unat_gt_0)
  finally show ?thesis .
qed

lemma buffer_pool_bytes_Inr:
  assumes "buffer_pool_bytes c = Inr n"
  shows "unat n = unat (block_size c) * unat (max_inflight_buffers c)"
proof -
  from assms have "validate c = Inr ()" and n: "n = block_size c * max_inflight_buffers c"
    by (auto simp: buffer_pool_bytes_def split: sum.splits)
  then have "config_ok c" by (simp add: validate_iff)
  then show ?thesis by (simp add: n config_ok_def unat_word_ariths)
qed

section \<open>Properties\<close>

text \<open>
  Validation accepts exactly the meaningful configurations. Its word-level checks (the bit
  trick for powers of two, the remainders, the overflow test by division) accept a configuration
  exactly when its sizes are positive, its alignment is a power of two of at least
  \<open>sizeof(void*)\<close> that divides the block size, and the pool's total size fits in \<open>size_t\<close>; and
  \<open>buffer_pool_bytes\<close> then returns that total exactly, with no wrap-around.
\<close>

theorem config_validation_exact:
  "(validate c = Inr () \<longleftrightarrow> config_ok c) \<and>
   (buffer_pool_bytes c = Inr n \<longleftrightarrow>
      config_ok c \<and> unat n = unat (block_size c) * unat (max_inflight_buffers c))"
proof
  show "validate c = Inr () \<longleftrightarrow> config_ok c" by (rule validate_iff)
  have v: "(\<exists>e. validate c = Inl e) \<longleftrightarrow> \<not> config_ok c"
    by (metis Inl_Inr_False old.unit.exhaust sum.exhaust_sel sum.collapse(1) validate_iff)
  show "buffer_pool_bytes c = Inr n \<longleftrightarrow>
      config_ok c \<and> unat n = unat (block_size c) * unat (max_inflight_buffers c)"
  proof (cases "config_ok c")
    case False
    with v show ?thesis by (auto simp: buffer_pool_bytes_def)
  next
    case True
    then have b: "buffer_pool_bytes c = Inr (block_size c * max_inflight_buffers c)"
      using validate_iff [of c] by (simp add: buffer_pool_bytes_def)
    from buffer_pool_bytes_Inr [OF this] True b show ?thesis by (auto intro: word_unat_eq_iff [THEN iffD2])
  qed
qed

end
