(* ===== verification/Metrics.thy ===== *)
theory Metrics
  imports Prelude
begin

text \<open>
  The metric objects of \<open>include/metrics\<close> and \<open>src/metrics\<close>: \<open>Counter\<close>, \<open>Gauge\<close> with its
  lifetime maximum, \<open>Histogram\<close> with exclusive buckets, and the \<open>ScopedTimer\<close> that observes a
  duration when its scope ends. Relaxed atomic operations are single steps. The
  compare-and-exchange loop behind \<open>high_watermark\<close> is also modelled step by step, for any number
  of concurrent updaters.
\<close>

section \<open>Counter\<close>

record counter =
  counter_value :: u64

definition counter_new :: counter where
  "counter_new = \<lparr>counter_value = 0\<rparr>"

definition counter_increment :: "u64 \<Rightarrow> counter \<Rightarrow> counter" where
  "counter_increment amount c = c\<lparr>counter_value := counter_value c + amount\<rparr>"

section \<open>Gauge\<close>

text \<open>\<open>std::int64_t\<close>, read by \<open>sint\<close>.\<close>

type_synonym gauge_value_t = "64 word"

record gauge =
  gauge_value :: gauge_value_t
  gauge_high :: gauge_value_t

definition gauge_new :: gauge where
  "gauge_new = \<lparr>gauge_value = 0, gauge_high = 0\<rparr>"

definition int64_max :: gauge_value_t where
  "int64_max = 2 ^ 63 - 1"

definition update_high_watermark :: "gauge_value_t \<Rightarrow> gauge \<Rightarrow> gauge" where
  "update_high_watermark candidate g =
     (if sint candidate > sint (gauge_high g) then g\<lparr>gauge_high := candidate\<rparr> else g)"

definition gauge_set :: "gauge_value_t \<Rightarrow> gauge \<Rightarrow> gauge" where
  "gauge_set new_value g = update_high_watermark new_value (g\<lparr>gauge_value := new_value\<rparr>)"

definition gauge_increment :: "gauge \<Rightarrow> gauge" where
  "gauge_increment g =
     (let previous = gauge_value g; g' = g\<lparr>gauge_value := previous + 1\<rparr> in
      if previous = int64_max then update_high_watermark previous g'
      else update_high_watermark (previous + 1) g')"

definition gauge_decrement :: "gauge \<Rightarrow> gauge" where
  "gauge_decrement g = g\<lparr>gauge_value := gauge_value g - 1\<rparr>"

subsection \<open>The compare-and-exchange loop\<close>

text \<open>
  One updater of \<open>high_watermark_\<close>: it loads the shared value, then compares and exchanges until
  its candidate is stored or no longer larger. \<open>compare_exchange_weak\<close> may fail spuriously; on
  failure it reloads \<open>observed\<close>.
\<close>

datatype cas_pc =
    Cas_load gauge_value_t
  | Cas_loop gauge_value_t gauge_value_t
  | Cas_done gauge_value_t

fun cas_step :: "bool \<Rightarrow> gauge_value_t \<Rightarrow> cas_pc \<Rightarrow> gauge_value_t \<times> cas_pc" where
  "cas_step spurious shared (Cas_load candidate) = (shared, Cas_loop shared candidate)"
| "cas_step spurious shared (Cas_loop observed candidate) =
     (if sint candidate > sint observed then
        if shared = observed \<and> \<not> spurious then (candidate, Cas_done candidate)
        else (shared, Cas_loop shared candidate)
      else (shared, Cas_done candidate))"
| "cas_step spurious shared (Cas_done candidate) = (shared, Cas_done candidate)"

inductive cas_run :: "gauge_value_t \<times> cas_pc list \<Rightarrow> gauge_value_t \<times> cas_pc list \<Rightarrow> bool" where
  cas_refl: "cas_run s s"
| cas_trans: "cas_run s (shared, pcs) \<Longrightarrow> i < length pcs \<Longrightarrow>
     cas_step spurious shared (pcs ! i) = (shared', pc') \<Longrightarrow>
     cas_run s (shared', pcs[i := pc'])"

fun cas_candidate :: "cas_pc \<Rightarrow> gauge_value_t" where
  "cas_candidate (Cas_load c) = c"
| "cas_candidate (Cas_loop _ c) = c"
| "cas_candidate (Cas_done c) = c"

definition cas_finished :: "cas_pc \<Rightarrow> bool" where
  "cas_finished pc \<longleftrightarrow> (case pc of Cas_done _ \<Rightarrow> True | _ \<Rightarrow> False)"

section \<open>Histogram\<close>

abbreviation (input) kMaxFiniteBuckets :: nat where "kMaxFiniteBuckets \<equiv> 32"
abbreviation (input) kMaxBucketCount :: nat where "kMaxBucketCount \<equiv> kMaxFiniteBuckets + 1"

record histogram =
  h_upper_bounds :: "u64 list"
  h_finite_bucket_count :: nat
  h_bucket_counts :: "u64 list"
  h_sample_count :: u64
  h_sample_sum :: u64

definition histogram_new :: "u64 list \<Rightarrow> histogram res" where
  "histogram_new bounds =
     (if bounds = [] then
        Inl (Invalid_argument ''Histogram requires at least one finite bucket'')
      else if kMaxFiniteBuckets < length bounds then
        Inl (Invalid_argument ''Histogram finite bucket count exceeds the fixed limit'')
      else if list_ex (\<lambda>index. bounds ! index \<le> bounds ! (index - 1)) [1..<length bounds] then
        Inl (Invalid_argument ''Histogram upper bounds must be strictly increasing'')
      else Inr \<lparr>h_upper_bounds = bounds @ replicate (kMaxFiniteBuckets - length bounds) 0,
                h_finite_bucket_count = length bounds,
                h_bucket_counts = replicate kMaxBucketCount 0,
                h_sample_count = 0, h_sample_sum = 0\<rparr>)"

definition upper_bounds :: "histogram \<Rightarrow> u64 list" where
  "upper_bounds h = take (h_finite_bucket_count h) (h_upper_bounds h)"

text \<open>
  \<open>std::lower_bound\<close>: the index of the first element that is not less than the value (the list is
  partitioned by the comparison, as it is sorted).
\<close>

definition lower_bound :: "u64 list \<Rightarrow> u64 \<Rightarrow> nat" where
  "lower_bound bounds sample = length (takeWhile (\<lambda>b. b < sample) bounds)"

definition observe :: "u64 \<Rightarrow> histogram \<Rightarrow> histogram" where
  "observe sample h =
     (let bucket_index = lower_bound (upper_bounds h) sample in
      h\<lparr>h_bucket_counts := (h_bucket_counts h)[bucket_index := h_bucket_counts h ! bucket_index + 1],
        h_sample_sum := h_sample_sum h + sample,
        h_sample_count := h_sample_count h + 1\<rparr>)"

record histogram_snapshot =
  hs_sample_count :: u64
  hs_sample_sum :: u64
  hs_bucket_count :: nat
  hs_bucket_counts :: "u64 list"

definition histogram_snapshot_of :: "histogram \<Rightarrow> histogram_snapshot" where
  "histogram_snapshot_of h =
     (let n = h_finite_bucket_count h + 1 in
      \<lparr>hs_sample_count = h_sample_count h, hs_sample_sum = h_sample_sum h,
       hs_bucket_count = n,
       hs_bucket_counts = take n (h_bucket_counts h) @ replicate (kMaxBucketCount - n) 0\<rparr>)"

section \<open>ScopedTimer\<close>

text \<open>
  The destructor converts the elapsed steady-clock nanoseconds (a signed count) to a sample and
  observes it. The clock is the environment's, so the elapsed time is an argument.
\<close>

definition timer_sample :: "int \<Rightarrow> u64" where
  "timer_sample elapsed = (if elapsed > 0 then word_of_int elapsed else 0)"

definition scoped_timer_end :: "int \<Rightarrow> histogram \<Rightarrow> histogram" where
  "scoped_timer_end elapsed h = observe (timer_sample elapsed) h"

section \<open>Lemmas\<close>

lemma update_high_watermark_sint:
  "sint (gauge_high (update_high_watermark c g)) = max (sint c) (sint (gauge_high g))"
  by (simp add: update_high_watermark_def)

lemma update_high_watermark_value [simp]:
  "gauge_value (update_high_watermark c g) = gauge_value g"
  by (simp add: update_high_watermark_def)

lemma gauge_decrement_sel [simp]:
  "gauge_value (gauge_decrement g) = gauge_value g - 1"
  "gauge_high (gauge_decrement g) = gauge_high g"
  by (simp_all add: gauge_decrement_def)

lemma gauge_increment_value [simp]: "gauge_value (gauge_increment g) = gauge_value g + 1"
  by (simp add: gauge_increment_def Let_def)

lemma gauge_set_value [simp]: "gauge_value (gauge_set v g) = v"
  by (simp add: gauge_set_def)

text \<open>A gauge that counts a quantity below \<open>2 ^ 63\<close> reads as that natural number.\<close>

lemma sint_of_nat_small: "n < 2 ^ 63 \<Longrightarrow> sint (of_nat n :: 64 word) = int n"
  by (simp add: signed_of_nat signed_take_bit_int_eq_self)

lemma of_nat_neq_int64_max: "n < 2 ^ 63 - 1 \<Longrightarrow> (of_nat n :: 64 word) \<noteq> int64_max"
proof
  assume n: "n < 2 ^ 63 - 1" and eq: "(of_nat n :: 64 word) = int64_max"
  have "unat (of_nat n :: 64 word) = n" using n by (simp add: unat_of_nat)
  moreover have "unat int64_max = 2 ^ 63 - 1" by (simp add: int64_max_def)
  ultimately show False using n eq by simp
qed

text \<open>The watermark of a gauge whose value counts up and down as a natural number.\<close>

definition gauge_counts :: "nat \<Rightarrow> nat \<Rightarrow> gauge \<Rightarrow> bool" where
  "gauge_counts n m g \<longleftrightarrow> n \<le> m \<and> m < 2 ^ 63 \<and> gauge_value g = of_nat n \<and> gauge_high g = of_nat m"

lemma gauge_counts_new: "gauge_counts 0 0 gauge_new"
  by (simp add: gauge_counts_def gauge_new_def)

lemma gauge_counts_value: "gauge_counts n m g \<Longrightarrow> sint (gauge_value g) = int n"
  by (simp add: gauge_counts_def sint_of_nat_small)

lemma gauge_counts_high: "gauge_counts n m g \<Longrightarrow> sint (gauge_high g) = int m"
  by (simp add: gauge_counts_def sint_of_nat_small)

lemma gauge_counts_increment:
  assumes "gauge_counts n m g" and "n + 1 < 2 ^ 63"
  shows "gauge_counts (n + 1) (max (n + 1) m) (gauge_increment g)"
proof -
  have v: "gauge_value g = of_nat n" and h: "gauge_high g = of_nat m" and m: "m < 2 ^ 63" "n \<le> m"
    using assms(1) by (simp_all add: gauge_counts_def)
  have "gauge_value g \<noteq> int64_max"
    using of_nat_neq_int64_max [of n] assms(2) by (simp add: v)
  then have inc: "gauge_increment g =
      update_high_watermark (of_nat (n + 1)) (g\<lparr>gauge_value := of_nat (n + 1)\<rparr>)"
    by (simp add: gauge_increment_def Let_def v add.commute)
  have s: "sint (of_nat (n + 1) :: 64 word) = int (n + 1)" "sint (gauge_high g) = int m"
    using sint_of_nat_small [of "n + 1"] sint_of_nat_small [of m] assms(2) m by (simp_all add: h)
  show ?thesis
  proof (cases "m < n + 1")
    case True
    with m have "max (n + 1) m = n + 1" by simp
    with True s show ?thesis
      using assms(2) by (simp add: inc update_high_watermark_def gauge_counts_def)
  next
    case False
    with m have "max (n + 1) m = m" by simp
    with False s m h show ?thesis
      by (simp add: inc update_high_watermark_def gauge_counts_def)
  qed
qed

lemma gauge_counts_decrement:
  "gauge_counts (n + 1) m g \<Longrightarrow> gauge_counts n m (gauge_decrement g)"
  by (simp add: gauge_counts_def)

lemma gauge_counts_zero:
  assumes "gauge_counts n m g"
  shows "gauge_counts 0 m (gauge_set 0 g)"
proof -
  have "sint (gauge_high g) = int m" using assms by (rule gauge_counts_high)
  then show ?thesis
    using assms by (simp add: gauge_set_def update_high_watermark_def gauge_counts_def)
qed

subsection \<open>Concurrent watermark updates\<close>

fun cas_pc_ok :: "gauge_value_t \<Rightarrow> cas_pc \<Rightarrow> bool" where
  "cas_pc_ok shared (Cas_load c) = True"
| "cas_pc_ok shared (Cas_loop obs c) = (sint obs \<le> sint shared)"
| "cas_pc_ok shared (Cas_done c) = (sint c \<le> sint shared)"

fun cas_inv :: "gauge_value_t \<Rightarrow> gauge_value_t list \<Rightarrow> gauge_value_t \<times> cas_pc list \<Rightarrow> bool" where
  "cas_inv h0 cs (shared, pcs) =
     (map cas_candidate pcs = cs \<and> shared \<in> insert h0 (set cs) \<and> sint h0 \<le> sint shared \<and>
      (\<forall>pc \<in> set pcs. cas_pc_ok shared pc))"

lemma cas_pc_ok_mono: "cas_pc_ok sh pc \<Longrightarrow> sint sh \<le> sint sh' \<Longrightarrow> cas_pc_ok sh' pc"
  by (cases pc) auto

lemma cas_step_props:
  assumes "cas_step sp shared pc = (shared', pc')" and "cas_pc_ok shared pc"
  shows "cas_candidate pc' = cas_candidate pc"
    and "shared' = shared \<or> shared' = cas_candidate pc"
    and "sint shared \<le> sint shared'"
    and "cas_pc_ok shared' pc'"
  using assms by (cases pc; auto split: if_splits)+

lemma cas_run_inv: "cas_run s t \<Longrightarrow> cas_inv h0 cs s \<Longrightarrow> cas_inv h0 cs t"
proof (induction rule: cas_run.induct)
  case (cas_refl s)
  then show ?case .
next
  case (cas_trans s shared pcs i sp shared' pc')
  then have inv: "cas_inv h0 cs (shared, pcs)" by blast
  have mem: "pcs ! i \<in> set pcs" using cas_trans.hyps(2) by simp
  then have "cas_pc_ok shared (pcs ! i)" using inv by simp
  note step = cas_step_props [OF cas_trans.hyps(3) this]
  have cand: "map cas_candidate (pcs[i := pc']) = cs"
    using inv step(1) cas_trans.hyps(2) by (simp add: map_update flip: nth_map)
  have "cas_candidate (pcs ! i) \<in> set cs"
    using inv mem by auto
  then have sh: "shared' \<in> insert h0 (set cs)" using step(2) inv by auto
  have "\<forall>pc \<in> set (pcs[i := pc']). cas_pc_ok shared' pc"
  proof
    fix pc assume "pc \<in> set (pcs[i := pc'])"
    then have "pc = pc' \<or> pc \<in> set pcs" using set_update_subset_insert by fastforce
    then show "cas_pc_ok shared' pc"
      using step(3,4) inv cas_pc_ok_mono by auto
  qed
  with cand sh step(3) inv show ?case by simp
qed

lemma cas_run_max:
  assumes "cas_run (h0, map Cas_load cs) (h, pcs)" and "list_all cas_finished pcs"
  shows "sint h = Max (insert (sint h0) (sint ` set cs))"
proof -
  have "cas_inv h0 cs (h0, map Cas_load cs)"
    by (auto simp: comp_def)
  with assms(1) have inv: "cas_inv h0 cs (h, pcs)" by (blast intro: cas_run_inv)
  have up: "sint c \<le> sint h" if "c \<in> set cs" for c
  proof -
    have "set cs = cas_candidate ` set pcs" using inv by auto
    with that obtain pc where pc: "pc \<in> set pcs" "c = cas_candidate pc" by auto
    with assms(2) have "pc = Cas_done c"
      by (cases pc) (auto simp: list_all_iff cas_finished_def)
    with inv pc(1) show ?thesis by force
  qed
  have "sint h \<in> insert (sint h0) (sint ` set cs)" using inv by auto
  moreover have "x \<le> sint h" if "x \<in> insert (sint h0) (sint ` set cs)" for x
    using that up inv by auto
  ultimately show ?thesis by (intro Max_eqI [symmetric]) auto
qed

subsection \<open>Histograms\<close>

definition histogram_wf :: "histogram \<Rightarrow> bool" where
  "histogram_wf h \<longleftrightarrow>
     length (h_upper_bounds h) = kMaxFiniteBuckets \<and>
     length (h_bucket_counts h) = kMaxBucketCount \<and>
     0 < h_finite_bucket_count h \<and> h_finite_bucket_count h \<le> kMaxFiniteBuckets \<and>
     sorted_wrt (<) (upper_bounds h) \<and>
     (\<forall>i. h_finite_bucket_count h < i \<longrightarrow> i < kMaxBucketCount \<longrightarrow> h_bucket_counts h ! i = 0) \<and>
     sum_list (h_bucket_counts h) = h_sample_count h"

lemma length_upper_bounds: "histogram_wf h \<Longrightarrow> length (upper_bounds h) = h_finite_bucket_count h"
  by (simp add: histogram_wf_def upper_bounds_def)

lemma lower_bound_le: "lower_bound bounds s \<le> length bounds"
  by (simp add: lower_bound_def length_takeWhile_le)

lemma lower_bound_below: "i < lower_bound bounds s \<Longrightarrow> bounds ! i < s"
  unfolding lower_bound_def
  by (metis (no_types, lifting) length_takeWhile_le less_le_trans nth_mem set_takeWhileD takeWhile_nth)

lemma lower_bound_above:
  assumes "sorted_wrt (<) bounds" and "lower_bound bounds s \<le> i" and "i < length bounds"
  shows "s \<le> bounds ! i"
proof -
  let ?k = "lower_bound bounds s"
  have k: "?k < length bounds" using assms(2,3) by simp
  then have s: "s \<le> bounds ! ?k"
    using nth_length_takeWhile [of "\<lambda>b. b < s" bounds] by (simp add: lower_bound_def not_less)
  show ?thesis
  proof (cases "i = ?k")
    case True
    with s show ?thesis by simp
  next
    case False
    with assms(2) have "?k < i" by simp
    with assms(1,3) have "bounds ! ?k < bounds ! i" by (auto intro: sorted_wrt_nth_less)
    with s show ?thesis by simp
  qed
qed

lemma adjacent_sorted:
  fixes xs :: "'a::linorder list"
  shows "sorted_wrt (<) xs \<longleftrightarrow> (\<forall>i. 1 \<le> i \<longrightarrow> i < length xs \<longrightarrow> xs ! (i - 1) < xs ! i)"
proof
  assume "sorted_wrt (<) xs"
  then show "\<forall>i. 1 \<le> i \<longrightarrow> i < length xs \<longrightarrow> xs ! (i - 1) < xs ! i"
    by (auto intro: sorted_wrt_nth_less)
next
  assume adj: "\<forall>i. 1 \<le> i \<longrightarrow> i < length xs \<longrightarrow> xs ! (i - 1) < xs ! i"
  have "Suc i < length xs \<Longrightarrow> xs ! i < xs ! Suc i" for i
    using adj [rule_format, of "Suc i"] by simp
  then show "sorted_wrt (<) xs"
    by (subst sorted_wrt_iff_nth_Suc_transp) auto
qed

lemma histogram_new_checks:
  "(\<exists>h. histogram_new bounds = Inr h) \<longleftrightarrow>
     bounds \<noteq> [] \<and> length bounds \<le> kMaxFiniteBuckets \<and> sorted_wrt (<) bounds"
  by (auto simp: histogram_new_def adjacent_sorted list_ex_iff not_le Suc_le_eq)

lemma sum_list_replicate_zero: "sum_list (replicate n (0::64 word)) = 0"
  by (induction n) auto

lemma histogram_new_wf:
  assumes "histogram_new bounds = Inr h"
  shows "histogram_wf h" and "upper_bounds h = bounds"
proof -
  have ok: "bounds \<noteq> []" "length bounds \<le> kMaxFiniteBuckets" "sorted_wrt (<) bounds"
    using assms histogram_new_checks [of bounds] by auto
  have h: "h = \<lparr>h_upper_bounds = bounds @ replicate (kMaxFiniteBuckets - length bounds) 0,
      h_finite_bucket_count = length bounds, h_bucket_counts = replicate kMaxBucketCount 0,
      h_sample_count = 0, h_sample_sum = 0\<rparr>"
    using assms by (simp add: histogram_new_def split: if_splits)
  show ub: "upper_bounds h = bounds" by (simp add: h upper_bounds_def)
  have "sum_list (h_bucket_counts h) = 0"
    unfolding h histogram.simps by (rule sum_list_replicate_zero)
  then show "histogram_wf h"
    using ok ub by (auto simp: histogram_wf_def h simp del: replicate.simps)
qed

lemma sum_list_bump:
  fixes xs :: "64 word list"
  shows "i < length xs \<Longrightarrow> sum_list (xs[i := xs ! i + 1]) = sum_list xs + 1"
  by (induction xs arbitrary: i) (auto split: nat.splits simp: add.assoc)

lemma observe_sel [simp]:
  "h_upper_bounds (observe s h) = h_upper_bounds h"
  "h_finite_bucket_count (observe s h) = h_finite_bucket_count h"
  "h_sample_count (observe s h) = h_sample_count h + 1"
  "h_sample_sum (observe s h) = h_sample_sum h + s"
  "upper_bounds (observe s h) = upper_bounds h"
  by (simp_all add: observe_def Let_def upper_bounds_def)

lemma observe_wf:
  assumes wf: "histogram_wf h"
  shows "histogram_wf (observe s h)"
proof -
  let ?b = "lower_bound (upper_bounds h) s"
  have b: "?b \<le> h_finite_bucket_count h"
    using lower_bound_le [of "upper_bounds h" s] by (simp add: length_upper_bounds [OF wf])
  with wf have lt: "?b < length (h_bucket_counts h)" by (simp add: histogram_wf_def)
  have counts: "h_bucket_counts (observe s h)
      = (h_bucket_counts h)[?b := h_bucket_counts h ! ?b + 1]"
    by (simp add: observe_def Let_def)
  have "sum_list (h_bucket_counts (observe s h)) = h_sample_count (observe s h)"
    using sum_list_bump [OF lt] wf by (simp add: counts histogram_wf_def)
  then show ?thesis
    using wf b by (simp add: histogram_wf_def counts nth_list_update)
qed

lemma scoped_timer_end_wf: "histogram_wf h \<Longrightarrow> histogram_wf (scoped_timer_end t h)"
  by (simp add: scoped_timer_end_def observe_wf)

section \<open>Properties\<close>

text \<open>
  A histogram is built exactly from a non-empty, strictly increasing list of at most 32
  bounds; then it is well formed, keeps those bounds and has recorded nothing.
\<close>

theorem histogram_new_correct:
  "(case histogram_new bounds of
      Inr h \<Rightarrow> bounds \<noteq> [] \<and> length bounds \<le> kMaxFiniteBuckets \<and> sorted_wrt (<) bounds \<and>
              histogram_wf h \<and> upper_bounds h = bounds \<and> h_sample_count h = 0
    | Inl e \<Rightarrow> \<not> (bounds \<noteq> [] \<and> length bounds \<le> kMaxFiniteBuckets \<and> sorted_wrt (<) bounds))"
proof (cases "histogram_new bounds")
  case (Inl e)
  then show ?thesis using histogram_new_checks [of bounds] by simp
next
  case (Inr h)
  then have "h_sample_count h = 0" by (auto simp: histogram_new_def split: if_splits)
  with Inr show ?thesis
    using histogram_new_checks [of bounds] histogram_new_wf [OF Inr] by simp
qed

text \<open>
  Observing a sample adds one to exactly one bucket, the one whose bounds enclose the sample
  (bounds below are smaller, its own bound and later ones are not; the last bucket takes the
  overflow), adds the sample to the sum, and keeps the histogram well formed, so that the bucket
  counts always add up to the sample count.
\<close>

theorem observe_correct:
  assumes "histogram_wf h"
  shows "\<exists>b \<le> h_finite_bucket_count h.
     h_bucket_counts (observe s h) = (h_bucket_counts h)[b := h_bucket_counts h ! b + 1] \<and>
     (\<forall>i < b. upper_bounds h ! i < s) \<and>
     (\<forall>i. b \<le> i \<longrightarrow> i < h_finite_bucket_count h \<longrightarrow> s \<le> upper_bounds h ! i) \<and>
     h_sample_sum (observe s h) = h_sample_sum h + s \<and> histogram_wf (observe s h)"
proof (intro exI conjI)
  let ?b = "lower_bound (upper_bounds h) s"
  show "?b \<le> h_finite_bucket_count h"
    using lower_bound_le [of "upper_bounds h" s] by (simp add: length_upper_bounds [OF assms])
  show "h_bucket_counts (observe s h) = (h_bucket_counts h)[?b := h_bucket_counts h ! ?b + 1]"
    by (simp add: observe_def Let_def)
  show "\<forall>i < ?b. upper_bounds h ! i < s" by (simp add: lower_bound_below)
  show "\<forall>i. ?b \<le> i \<longrightarrow> i < h_finite_bucket_count h \<longrightarrow> s \<le> upper_bounds h ! i"
    using assms lower_bound_above [of "upper_bounds h" s]
    by (simp add: length_upper_bounds) (simp add: histogram_wf_def)
qed (simp_all add: observe_wf [OF assms])

definition example_histogram :: histogram where
  "example_histogram = \<lparr>h_upper_bounds = [10, 20] @ replicate 30 0, h_finite_bucket_count = 2,
     h_bucket_counts = replicate 33 0, h_sample_count = 0, h_sample_sum = 0\<rparr>"

lemma example_histogram_new: "histogram_new [10, 20] = Inr example_histogram"
  by (simp add: histogram_new_def example_histogram_def upt_rec)

theorem observe_correct_witness:
  "histogram_wf example_histogram \<and> (\<exists>b \<le> h_finite_bucket_count example_histogram.
     h_bucket_counts (observe 15 example_histogram)
       = (h_bucket_counts example_histogram)[b := h_bucket_counts example_histogram ! b + 1])"
  using observe_correct [OF histogram_new_wf(1) [OF example_histogram_new], of 15]
    histogram_new_wf(1) [OF example_histogram_new] by blast

text \<open>
  However the compare-and-exchange loops of any number of concurrent watermark updates
  interleave, and however often the weak exchange fails spuriously, once all of them have
  finished the shared watermark is the maximum of its old value and all candidates.
\<close>

theorem watermark_is_maximum:
  assumes "cas_run (h0, map Cas_load cs) (h, pcs)" and "list_all cas_finished pcs"
  shows "sint h = Max (insert (sint h0) (sint ` set cs))"
  using assms by (rule cas_run_max)

theorem watermark_is_maximum_witness:
  "\<exists>h pcs. cas_run (1, map Cas_load [5, 3]) (h, pcs) \<and> list_all cas_finished pcs \<and> sint h = 5"
proof -
  note step = cas_run.cas_trans
  let ?p0 = "[Cas_load 5, Cas_load 3]"
  have "cas_run (1, ?p0) (1, ?p0)" by (rule cas_run.cas_refl)
  then have "cas_run (1, ?p0) (1, [Cas_load 5, Cas_loop 1 3])"
    by (drule_tac step [where i = 1 and spurious = False]) auto
  then have "cas_run (1, ?p0) (1, [Cas_loop 1 5, Cas_loop 1 3])"
    by (drule_tac step [where i = 0 and spurious = False]) auto
  then have "cas_run (1, ?p0) (5, [Cas_done 5, Cas_loop 1 3])"
    by (drule_tac step [where i = 0 and spurious = False]) auto
  then have "cas_run (1, ?p0) (5, [Cas_done 5, Cas_loop 5 3])"
    by (drule_tac step [where i = 1 and spurious = False]) auto
  then have run: "cas_run (1, map Cas_load [5, 3]) (5, [Cas_done 5, Cas_done 3])"
    by (drule_tac step [where i = 1 and spurious = False]) auto
  have fin: "list_all cas_finished [Cas_done 5, Cas_done 3]"
    by (simp add: cas_finished_def)
  have "sint (5 :: gauge_value_t) = 5" by simp
  with watermark_is_maximum [OF run fin] run fin show ?thesis by blast
qed

end
