(* ===== verification/Metrics_Registry.thy ===== *)
theory Metrics_Registry
  imports Metrics
begin

text \<open>
  \<open>MetricsRegistry\<close> of \<open>include/metrics/metrics_registry.h\<close> and
  \<open>src/metrics/metrics_registry.cpp\<close>: three vectors of named metrics, name validation,
  registration, lookup and snapshots. A metric is owned by a \<open>unique_ptr\<close> in its vector's entry
  and entries are only appended, so a reference returned by \<open>add_*\<close> is modelled as the entry's
  position, and lookup returns such a position or \<open>None\<close> for the null pointer.
\<close>

section \<open>State and operations\<close>

abbreviation (input) kMaxMetricCount :: nat where "kMaxMetricCount \<equiv> 64"
abbreviation (input) kMaxMetricNameLength :: nat where "kMaxMetricNameLength \<equiv> 128"

record metrics_registry =
  counters :: "(string \<times> counter) list"
  gauges :: "(string \<times> gauge) list"
  histograms :: "(string \<times> histogram) list"

definition registry_new :: metrics_registry where
  "registry_new = \<lparr>counters = [], gauges = [], histograms = []\<rparr>"

definition registry_size :: "metrics_registry \<Rightarrow> nat" where
  "registry_size r = length (counters r) + length (gauges r) + length (histograms r)"

text \<open>The linear searches of \<open>find_*\<close> and of \<open>contains_name\<close>.\<close>

fun find_entry :: "string \<Rightarrow> (string \<times> 'm) list \<Rightarrow> nat option" where
  "find_entry name [] = None"
| "find_entry name ((entry_name, metric) # rest) =
     (if entry_name = name then Some 0 else map_option Suc (find_entry name rest))"

definition find_counter :: "string \<Rightarrow> metrics_registry \<Rightarrow> nat option" where
  "find_counter name r = find_entry name (counters r)"

definition find_gauge :: "string \<Rightarrow> metrics_registry \<Rightarrow> nat option" where
  "find_gauge name r = find_entry name (gauges r)"

definition find_histogram :: "string \<Rightarrow> metrics_registry \<Rightarrow> nat option" where
  "find_histogram name r = find_entry name (histograms r)"

definition contains_name :: "string \<Rightarrow> metrics_registry \<Rightarrow> bool" where
  "contains_name name r \<longleftrightarrow>
     (if find_entry name (counters r) \<noteq> None then True
      else if find_entry name (gauges r) \<noteq> None then True
      else if find_entry name (histograms r) \<noteq> None then True
      else False)"

definition validate_new_name :: "string \<Rightarrow> metrics_registry \<Rightarrow> unit res" where
  "validate_new_name name r =
     (if name = [] then Inl (Invalid_argument ''metric name must not be empty'')
      else if kMaxMetricNameLength < length name then
        Inl (Length_error ''metric name exceeds the fixed length limit'')
      else if contains_name name r then
        Inl (Invalid_argument ''metric name is already registered'')
      else if kMaxMetricCount \<le> registry_size r then
        Inl (Length_error ''metrics registry is full'')
      else Inr ())"

definition add_counter :: "string \<Rightarrow> metrics_registry \<Rightarrow> (nat \<times> metrics_registry) res" where
  "add_counter name r =
     (case validate_new_name name r of Inl e \<Rightarrow> Inl e
      | Inr _ \<Rightarrow> Inr (length (counters r), r\<lparr>counters := counters r @ [(name, counter_new)]\<rparr>))"

definition add_gauge :: "string \<Rightarrow> metrics_registry \<Rightarrow> (nat \<times> metrics_registry) res" where
  "add_gauge name r =
     (case validate_new_name name r of Inl e \<Rightarrow> Inl e
      | Inr _ \<Rightarrow> Inr (length (gauges r), r\<lparr>gauges := gauges r @ [(name, gauge_new)]\<rparr>))"

definition add_histogram ::
  "u64 list \<Rightarrow> string \<Rightarrow> metrics_registry \<Rightarrow> (nat \<times> metrics_registry) res" where
  "add_histogram bounds name r =
     (case validate_new_name name r of Inl e \<Rightarrow> Inl e
      | Inr _ \<Rightarrow>
         (case histogram_new bounds of Inl e \<Rightarrow> Inl e
          | Inr h \<Rightarrow> Inr (length (histograms r), r\<lparr>histograms := histograms r @ [(name, h)]\<rparr>)))"

text \<open>Updates through the references.\<close>

definition update_entry :: "nat \<Rightarrow> ('m \<Rightarrow> 'm) \<Rightarrow> (string \<times> 'm) list \<Rightarrow> (string \<times> 'm) list" where
  "update_entry i f entries = entries[i := (fst (entries ! i), f (snd (entries ! i)))]"

definition histogram_at :: "nat \<Rightarrow> (histogram \<Rightarrow> histogram) \<Rightarrow> metrics_registry \<Rightarrow> metrics_registry" where
  "histogram_at i f r = r\<lparr>histograms := update_entry i f (histograms r)\<rparr>"

record registry_snapshot =
  snap_counters :: "(string \<times> u64) list"
  snap_gauges :: "(string \<times> gauge_value_t \<times> gauge_value_t) list"
  snap_histograms :: "(string \<times> nat \<times> u64 list \<times> histogram_snapshot) list"

text \<open>
  \<open>upper_bounds\<close> of a histogram snapshot is a fixed array of 32 values whose unused tail is zero.
\<close>

definition snapshot :: "metrics_registry \<Rightarrow> registry_snapshot" where
  "snapshot r =
     \<lparr>snap_counters = map (\<lambda>(n, c). (n, counter_value c)) (counters r),
      snap_gauges = map (\<lambda>(n, g). (n, gauge_value g, gauge_high g)) (gauges r),
      snap_histograms = map (\<lambda>(n, h).
         (n, length (upper_bounds h),
          upper_bounds h @ replicate (kMaxFiniteBuckets - length (upper_bounds h)) 0,
          histogram_snapshot_of h)) (histograms r)\<rparr>"

section \<open>Invariant\<close>

definition registry_names :: "metrics_registry \<Rightarrow> string list" where
  "registry_names r = map fst (counters r) @ map fst (gauges r) @ map fst (histograms r)"

definition registry_ok :: "metrics_registry \<Rightarrow> bool" where
  "registry_ok r \<longleftrightarrow>
     distinct (registry_names r) \<and>
     (\<forall>n \<in> set (registry_names r). n \<noteq> [] \<and> length n \<le> kMaxMetricNameLength) \<and>
     registry_size r \<le> kMaxMetricCount \<and>
     (\<forall>(n, h) \<in> set (histograms r). histogram_wf h)"

lemma find_entry_None: "find_entry name es = None \<longleftrightarrow> name \<notin> fst ` set es"
  by (induction name es rule: find_entry.induct) auto

lemma find_entry_append:
  "find_entry name (es @ [(n, m)]) =
     (case find_entry name es of Some i \<Rightarrow> Some i
      | None \<Rightarrow> if n = name then Some (length es) else None)"
  by (induction name es rule: find_entry.induct) (simp_all split: option.split)

lemma find_entry_Some:
  "find_entry name es = Some i \<Longrightarrow> i < length es \<and> fst (es ! i) = name"
  by (induction name es arbitrary: i rule: find_entry.induct) (auto split: if_splits)

lemma find_entry_mem: "find_entry name es = Some i \<Longrightarrow> name \<in> fst ` set es"
  using find_entry_None [of name es] by fastforce

lemma find_entry_distinct:
  "distinct (map fst es) \<Longrightarrow> i < length es \<Longrightarrow> find_entry (fst (es ! i)) es = Some i"
proof (induction es arbitrary: i)
  case (Cons e es)
  show ?case
  proof (cases i)
    case 0
    then show ?thesis by (cases e) simp
  next
    case (Suc j)
    with Cons.prems have "fst (es ! j) \<in> fst ` set es" and "j < length es" by auto
    with Cons Suc show ?thesis by (cases e) auto
  qed
qed simp

lemma contains_name_iff: "contains_name name r \<longleftrightarrow> name \<in> set (registry_names r)"
  by (simp add: contains_name_def registry_names_def find_entry_None)

lemma registry_size_names: "registry_size r = length (registry_names r)"
  by (simp add: registry_size_def registry_names_def)

lemma validate_new_name_iff:
  "validate_new_name name r = Inr () \<longleftrightarrow>
     name \<noteq> [] \<and> length name \<le> kMaxMetricNameLength \<and> name \<notin> set (registry_names r) \<and>
     registry_size r < kMaxMetricCount"
  by (auto simp: validate_new_name_def contains_name_iff)

lemma registry_new_ok: "registry_ok registry_new"
  by (simp add: registry_ok_def registry_new_def registry_names_def registry_size_def)

section \<open>The interface of one kind of metric\<close>

text \<open>
  What a caller of \<open>add_*\<close> and \<open>find_*\<close> relies on, for one kind of metric: a successful
  registration makes the name findable at the returned position, leaves every other lookup of
  that kind alone and keeps the registry's invariant. \<open>keep\<close> is the same registry with the
  other kinds' registrations, which must not move this kind's entries.
\<close>

locale metric_kind =
  fixes add :: "string \<Rightarrow> metrics_registry \<Rightarrow> (nat \<times> metrics_registry) res"
    and lookup :: "string \<Rightarrow> metrics_registry \<Rightarrow> nat option"
  assumes add_validates: "add name r = Inr (i, r') \<Longrightarrow> validate_new_name name r = Inr ()"
    and add_names: "add name r = Inr (i, r') \<Longrightarrow>
          set (registry_names r') = insert name (set (registry_names r)) \<and>
          registry_size r' = registry_size r + 1"
    and add_lookup: "add name r = Inr (i, r') \<Longrightarrow>
          lookup m r' = (case lookup m r of Some j \<Rightarrow> Some j
                         | None \<Rightarrow> if m = name then Some i else None)"
    and lookup_names: "lookup m r = Some j \<Longrightarrow> m \<in> set (registry_names r)"
    and add_ok: "registry_ok r \<Longrightarrow> add name r = Inr (i, r') \<Longrightarrow> registry_ok r'"
begin

lemma lookup_added: "add name r = Inr (i, r') \<Longrightarrow> lookup name r' = Some i"
  using add_validates [of name r i r'] lookup_names [of name r]
  by (auto simp: add_lookup validate_new_name_iff split: option.splits)

lemma lookup_other: "add name r = Inr (i, r') \<Longrightarrow> m \<noteq> name \<Longrightarrow> lookup m r' = lookup m r"
  by (simp add: add_lookup split: option.splits)

text \<open>A reference handed out earlier still names its metric after later registrations.\<close>

lemma lookup_stable: "lookup m r = Some j \<Longrightarrow> add name r = Inr (i, r') \<Longrightarrow> lookup m r' = Some j"
  by (simp add: add_lookup)

lemma add_twice_fails: "add name r = Inr (i, r') \<Longrightarrow> \<exists>e. validate_new_name name r' = Inl e"
  using add_names [of name r i r'] validate_new_name_iff [of name r']
  by (cases "validate_new_name name r'") auto

end

lemma registry_ok_extend:
  assumes ok: "registry_ok r" and v: "validate_new_name name r = Inr ()"
    and names: "mset (registry_names r') = add_mset name (mset (registry_names r))"
    and wf: "\<And>n h. (n, h) \<in> set (histograms r') \<Longrightarrow> histogram_wf h"
  shows "registry_ok r'"
proof -
  have m: "mset (registry_names r') = mset (name # registry_names r)" by (simp add: names)
  then have "distinct (registry_names r') = distinct (name # registry_names r)"
    by (rule mset_eq_imp_distinct_iff)
  moreover have "set (registry_names r') = insert name (set (registry_names r))"
    using mset_eq_setD [OF m] by simp
  moreover have "registry_size r' = Suc (registry_size r)"
    using mset_eq_length [OF m] by (simp add: registry_size_names)
  ultimately show ?thesis
    using ok v wf unfolding registry_ok_def validate_new_name_iff by auto
qed

lemma add_counter_Inr:
  assumes "add_counter name r = Inr (i, r')"
  shows "validate_new_name name r = Inr ()" and "i = length (counters r)"
    and "r' = r\<lparr>counters := counters r @ [(name, counter_new)]\<rparr>"
  using assms by (auto simp: add_counter_def split: sum.splits)

lemma add_gauge_Inr:
  assumes "add_gauge name r = Inr (i, r')"
  shows "validate_new_name name r = Inr ()" and "i = length (gauges r)"
    and "r' = r\<lparr>gauges := gauges r @ [(name, gauge_new)]\<rparr>"
  using assms by (auto simp: add_gauge_def split: sum.splits)

lemma add_histogram_Inr:
  assumes "add_histogram bounds name r = Inr (i, r')"
  shows "validate_new_name name r = Inr ()" and "i = length (histograms r)"
    and "\<exists>h. histogram_new bounds = Inr h \<and> r' = r\<lparr>histograms := histograms r @ [(name, h)]\<rparr>"
  using assms by (auto simp: add_histogram_def split: sum.splits)

lemmas names_simps = registry_names_def registry_size_def

interpretation counter_kind: metric_kind add_counter find_counter
proof unfold_locales
  fix name r i r' assume add: "add_counter name r = Inr (i, r')"
  note [simp] = add_counter_Inr [OF add]
  show "validate_new_name name r = Inr ()" by simp
  show "set (registry_names r') = insert name (set (registry_names r)) \<and>
      registry_size r' = registry_size r + 1" by (simp add: names_simps)
  show "find_counter m r' = (case find_counter m r of Some j \<Rightarrow> Some j
      | None \<Rightarrow> if m = name then Some i else None)" for m
    by (simp add: find_counter_def find_entry_append split: option.split)
  show "registry_ok r'" if ok: "registry_ok r"
    by (rule registry_ok_extend [OF ok, of name]) (use ok in \<open>auto simp: names_simps registry_ok_def\<close>)
next
  show "find_counter m r = Some j \<Longrightarrow> m \<in> set (registry_names r)" for m r j
    by (auto simp: find_counter_def registry_names_def dest: find_entry_mem)
qed

interpretation gauge_kind: metric_kind add_gauge find_gauge
proof unfold_locales
  fix name r i r' assume add: "add_gauge name r = Inr (i, r')"
  note [simp] = add_gauge_Inr [OF add]
  show "validate_new_name name r = Inr ()" by simp
  show "set (registry_names r') = insert name (set (registry_names r)) \<and>
      registry_size r' = registry_size r + 1" by (simp add: names_simps)
  show "find_gauge m r' = (case find_gauge m r of Some j \<Rightarrow> Some j
      | None \<Rightarrow> if m = name then Some i else None)" for m
    by (simp add: find_gauge_def find_entry_append split: option.split)
  show "registry_ok r'" if ok: "registry_ok r"
    by (rule registry_ok_extend [OF ok, of name]) (use ok in \<open>auto simp: names_simps registry_ok_def\<close>)
next
  show "find_gauge m r = Some j \<Longrightarrow> m \<in> set (registry_names r)" for m r j
    by (auto simp: find_gauge_def registry_names_def dest: find_entry_mem)
qed

interpretation histogram_kind: metric_kind "add_histogram bounds" find_histogram
  for bounds
proof unfold_locales
  fix name r i r' assume add: "add_histogram bounds name r = Inr (i, r')"
  note [simp] = add_histogram_Inr(1,2) [OF add]
  obtain h where h: "histogram_new bounds = Inr h"
    and [simp]: "r' = r\<lparr>histograms := histograms r @ [(name, h)]\<rparr>"
    using add_histogram_Inr(3) [OF add] by blast
  show "validate_new_name name r = Inr ()" by simp
  show "set (registry_names r') = insert name (set (registry_names r)) \<and>
      registry_size r' = registry_size r + 1" by (simp add: names_simps)
  show "find_histogram m r' = (case find_histogram m r of Some j \<Rightarrow> Some j
      | None \<Rightarrow> if m = name then Some i else None)" for m
    by (simp add: find_histogram_def find_entry_append split: option.split)
  show "registry_ok r'" if ok: "registry_ok r"
    by (rule registry_ok_extend [OF ok, of name])
      (use ok histogram_new_wf(1) [OF h] in \<open>auto simp: names_simps registry_ok_def\<close>)
next
  show "find_histogram m r = Some j \<Longrightarrow> m \<in> set (registry_names r)" for m r j
    by (auto simp: find_histogram_def registry_names_def dest: find_entry_mem)
qed

lemma add_counter_fails_iff:
  "(\<exists>e. add_counter name r = Inl e) \<longleftrightarrow> validate_new_name name r \<noteq> Inr ()"
  by (cases "validate_new_name name r") (auto simp: add_counter_def)

lemma add_gauge_fails_iff:
  "(\<exists>e. add_gauge name r = Inl e) \<longleftrightarrow> validate_new_name name r \<noteq> Inr ()"
  by (cases "validate_new_name name r") (auto simp: add_gauge_def)

section \<open>Properties\<close>

text \<open>
  Registration in a registry whose invariant holds keeps the invariant (names unique across
  all three kinds, between 1 and 128 characters, at most 64 metrics), makes exactly the new name
  findable at the returned reference, leaves the other kinds alone, and a second registration of
  the name, of either kind, is refused.
\<close>

theorem add_counter_correct:
  assumes "registry_ok r" and "add_counter name r = Inr (i, r')"
  shows "registry_ok r' \<and> registry_size r' = registry_size r + 1 \<and>
     (\<forall>m. find_counter m r' = (if m = name then Some i else find_counter m r)) \<and>
     gauges r' = gauges r \<and> histograms r' = histograms r \<and>
     (\<exists>e. add_counter name r' = Inl e) \<and> (\<exists>e. add_gauge name r' = Inl e)"
proof -
  obtain e where "validate_new_name name r' = Inl e"
    using counter_kind.add_twice_fails [OF assms(2)] ..
  then show ?thesis
    using counter_kind.add_ok [OF assms] counter_kind.add_names [OF assms(2)]
      counter_kind.lookup_added [OF assms(2)] counter_kind.lookup_other [OF assms(2)]
    by (auto simp: add_counter_fails_iff add_gauge_fails_iff add_counter_Inr(3) [OF assms(2)])
qed

theorem add_counter_correct_witness:
  "\<exists>r'. add_counter ''a'' registry_new = Inr (0, r') \<and> registry_ok r' \<and>
     find_counter ''a'' r' = Some 0 \<and> find_counter ''b'' r' = None"
proof -
  let ?r = "registry_new\<lparr>counters := [(''a'', counter_new)]\<rparr>"
  have add: "add_counter ''a'' registry_new = Inr (0, ?r)"
    by (simp add: add_counter_def validate_new_name_def contains_name_def registry_new_def
        registry_size_def)
  have "find_counter ''b'' registry_new = None"
    by (simp add: find_counter_def registry_new_def)
  with add_counter_correct [OF registry_new_ok add] add show ?thesis by auto
qed

end
