(* ===== verification/Fd_Guard.thy ===== *)
theory Fd_Guard
  imports Prelude
begin

text \<open>
  \<open>FdGuard\<close> of \<open>include/util/fd_guard.h\<close> and \<open>src/util/fd_guard.cpp\<close>: the owner of one file
  descriptor, movable but not copyable. Guards are objects in a store (object identity matters for
  the self-assignment test of the move assignment), next to the process's open descriptors and a
  log of the calls of \<open>close\<close>, each with whether the descriptor was open when it was closed.
\<close>

section \<open>State and operations\<close>

record fd_world =
  guards :: "nat \<rightharpoonup> int"
  open_fds :: "int set"
  close_log :: "(int \<times> bool) list"

text \<open>The system call: closing a descriptor that is not open is the error to rule out.\<close>

definition sys_close :: "int \<Rightarrow> fd_world \<Rightarrow> fd_world" where
  "sys_close fd w = w\<lparr>open_fds := open_fds w - {fd},
     close_log := close_log w @ [(fd, fd \<in> open_fds w)]\<rparr>"

definition guard_fd :: "nat \<Rightarrow> fd_world \<Rightarrow> int" where
  "guard_fd g w = (case guards w g of Some fd \<Rightarrow> fd | None \<Rightarrow> - 1)"

definition set_guard :: "nat \<Rightarrow> int \<Rightarrow> fd_world \<Rightarrow> fd_world" where
  "set_guard g fd w = w\<lparr>guards := (guards w)(g \<mapsto> fd)\<rparr>"

definition guard_default :: "nat \<Rightarrow> fd_world \<Rightarrow> fd_world" where
  "guard_default g w = set_guard g (- 1) w"

definition guard_construct :: "nat \<Rightarrow> int \<Rightarrow> fd_world \<Rightarrow> fd_world" where
  "guard_construct g fd w = set_guard g fd w"

definition guard_destroy :: "nat \<Rightarrow> fd_world \<Rightarrow> fd_world" where
  "guard_destroy g w =
     (let fd = guard_fd g w; w' = (if fd \<ge> 0 then sys_close fd w else w) in
      w'\<lparr>guards := (guards w')(g := None)\<rparr>)"

definition guard_move_construct :: "nat \<Rightarrow> nat \<Rightarrow> fd_world \<Rightarrow> fd_world" where
  "guard_move_construct g other w = set_guard other (- 1) (set_guard g (guard_fd other w) w)"

definition guard_move_assign :: "nat \<Rightarrow> nat \<Rightarrow> fd_world \<Rightarrow> fd_world" where
  "guard_move_assign g other w =
     (if other \<noteq> g then
        let w1 = (if guard_fd g w \<ge> 0 then sys_close (guard_fd g w) w else w);
            w2 = set_guard g (guard_fd other w1) w1
        in set_guard other (- 1) w2
      else w)"

definition guard_get :: "nat \<Rightarrow> fd_world \<Rightarrow> int" where
  "guard_get g w = guard_fd g w"

definition guard_valid :: "nat \<Rightarrow> fd_world \<Rightarrow> bool" where
  "guard_valid g w \<longleftrightarrow> guard_fd g w \<ge> 0"

section \<open>Programs that own descriptors through guards\<close>

text \<open>
  A step of a program that handles descriptors only through guards: it wraps a descriptor it has
  just opened (or the failure value \<open>-1\<close>), default-constructs, moves and destroys guards. New
  guards are new objects; the operands of a move are live objects, possibly the same one.
\<close>

inductive guard_step :: "fd_world \<Rightarrow> fd_world \<Rightarrow> bool" where
  step_open: "guards w g = None \<Longrightarrow> fd \<ge> 0 \<Longrightarrow> fd \<notin> open_fds w \<Longrightarrow>
     guard_step w (guard_construct g fd (w\<lparr>open_fds := insert fd (open_fds w)\<rparr>))"
| step_failed: "guards w g = None \<Longrightarrow> fd < 0 \<Longrightarrow> guard_step w (guard_construct g fd w)"
| step_default: "guards w g = None \<Longrightarrow> guard_step w (guard_default g w)"
| step_move: "guards w g = None \<Longrightarrow> guards w other \<noteq> None \<Longrightarrow>
     guard_step w (guard_move_construct g other w)"
| step_assign: "guards w g \<noteq> None \<Longrightarrow> guards w other \<noteq> None \<Longrightarrow>
     guard_step w (guard_move_assign g other w)"
| step_destroy: "guards w g \<noteq> None \<Longrightarrow> guard_step w (guard_destroy g w)"

definition fd_world_init :: fd_world where
  "fd_world_init = \<lparr>guards = Map.empty, open_fds = {}, close_log = []\<rparr>"

inductive guard_reachable :: "fd_world \<Rightarrow> bool" where
  reach_init: "guard_reachable fd_world_init"
| reach_step: "guard_reachable w \<Longrightarrow> guard_step w w' \<Longrightarrow> guard_reachable w'"

text \<open>
  Ownership: the open descriptors are exactly those held by live guards, no two guards hold the
  same one, and every call of \<open>close\<close> so far was of an open descriptor.
\<close>

definition owned :: "(nat \<rightharpoonup> int) \<Rightarrow> int \<Rightarrow> bool" where
  "owned m fd \<longleftrightarrow> (\<exists>g. m g = Some fd)"

definition fd_inv :: "fd_world \<Rightarrow> bool" where
  "fd_inv w \<longleftrightarrow>
     (\<forall>fd. fd \<in> open_fds w \<longleftrightarrow> fd \<ge> 0 \<and> owned (guards w) fd) \<and>
     (\<forall>g h fd. guards w g = Some fd \<longrightarrow> guards w h = Some fd \<longrightarrow> fd \<ge> 0 \<longrightarrow> g = h) \<and>
     list_all snd (close_log w)"

lemma owned_upd: "m g \<noteq> Some fd \<Longrightarrow> owned (m(g \<mapsto> x)) fd \<longleftrightarrow> x = fd \<or> owned m fd"
  unfolding owned_def by (metis fun_upd_apply option.inject)

lemma owned_upd_same: "m g = Some fd \<Longrightarrow> x \<noteq> fd \<Longrightarrow>
    owned (m(g \<mapsto> x)) fd \<longleftrightarrow> (\<exists>h. h \<noteq> g \<and> m h = Some fd)"
  unfolding owned_def by (metis fun_upd_apply option.inject)

lemma owned_del: "m g \<noteq> Some fd \<Longrightarrow> owned (m(g := None)) fd \<longleftrightarrow> owned m fd"
  unfolding owned_def by (metis fun_upd_apply option.distinct(1))

lemmas guard_op_defs = guard_default_def guard_construct_def guard_destroy_def
  guard_move_construct_def guard_move_assign_def set_guard_def sys_close_def guard_fd_def Let_def

lemma fd_inv_owned: "fd_inv w \<Longrightarrow> guards w g = Some fd \<Longrightarrow> fd \<ge> 0 \<Longrightarrow> fd \<in> open_fds w"
  by (auto simp: fd_inv_def owned_def)

lemma fd_inv_unique:
  "fd_inv w \<Longrightarrow> guards w g = Some fd \<Longrightarrow> guards w h = Some fd \<Longrightarrow> fd \<ge> 0 \<Longrightarrow> g = h"
  unfolding fd_inv_def by blast

lemma fd_inv_log: "fd_inv w \<Longrightarrow> list_all snd (close_log w)"
  by (simp add: fd_inv_def)

lemma fd_inv_open: "fd_inv w \<Longrightarrow> fd \<in> open_fds w \<longleftrightarrow> fd \<ge> 0 \<and> owned (guards w) fd"
  by (simp add: fd_inv_def)

lemma fd_invI:
  assumes "\<And>fd. fd \<in> open_fds w \<longleftrightarrow> fd \<ge> 0 \<and> owned (guards w) fd"
    and "\<And>g h fd. guards w g = Some fd \<Longrightarrow> guards w h = Some fd \<Longrightarrow> fd \<ge> 0 \<Longrightarrow> g = h"
    and "list_all snd (close_log w)"
  shows "fd_inv w"
  using assms unfolding fd_inv_def by blast

lemma fd_inv_set_log: "fd_inv w \<Longrightarrow> list_all snd l \<Longrightarrow> fd_inv (w\<lparr>close_log := l\<rparr>)"
  unfolding fd_inv_def by simp

text \<open>Putting a descriptor nobody owns (or no descriptor) into a guard that owns none.\<close>

lemma fd_inv_put:
  assumes inv: "fd_inv w" and g: "guards w g = None \<or> (\<exists>x. guards w g = Some x \<and> x < 0)"
    and new: "fd \<ge> 0 \<Longrightarrow> fd \<notin> open_fds w"
  shows "fd_inv (set_guard g fd (w\<lparr>open_fds := (if fd \<ge> 0 then insert fd (open_fds w) else open_fds w)\<rparr>))"
proof (rule fd_invI, goal_cases)
  case (1 y)
  have "y \<ge> 0 \<Longrightarrow> guards w g \<noteq> Some y" using g by auto
  then show ?case
    using fd_inv_open [OF inv, of y] by (auto simp: set_guard_def owned_upd)
next
  case (2 a b y)
  have "fd \<ge> 0 \<Longrightarrow> guards w h \<noteq> Some fd" for h using new fd_inv_owned [OF inv] by blast
  with 2 show ?case
    using fd_inv_unique [OF inv, of a y b] by (auto simp: set_guard_def split: if_splits)
next
  case 3
  show ?case using fd_inv_log [OF inv] by (simp add: set_guard_def)
qed

text \<open>Taking the descriptor out of a guard.\<close>

lemma fd_inv_take:
  assumes inv: "fd_inv w" and g: "guards w g = Some fd"
  shows "fd_inv (set_guard g (- 1) (w\<lparr>open_fds := open_fds w - {fd}\<rparr>))"
proof (rule fd_invI, goal_cases)
  case (1 y)
  show ?case
  proof (cases "y = fd")
    case True
    have "\<not> (\<exists>h. h \<noteq> g \<and> guards w h = Some fd)" if "fd \<ge> 0"
      using fd_inv_unique [OF inv g _ that] by blast
    with True g show ?thesis
      using owned_upd_same [of "guards w" g fd "- 1"] by (auto simp: set_guard_def)
  next
    case False
    with g have "guards w g \<noteq> Some y" by simp
    with False show ?thesis
      using fd_inv_open [OF inv, of y] by (auto simp: set_guard_def owned_upd)
  qed
next
  case (2 a b y)
  then show ?case
    using fd_inv_unique [OF inv, of a y b] by (auto simp: set_guard_def split: if_splits)
next
  case 3
  show ?case using fd_inv_log [OF inv] by (simp add: set_guard_def)
qed

lemma fd_inv_close:
  assumes "fd_inv w" and "guards w g = Some fd" and "fd \<ge> 0"
  shows "fd_inv (set_guard g (- 1) (sys_close fd w))"
proof -
  have "fd_inv (set_guard g (- 1) (w\<lparr>open_fds := open_fds w - {fd}\<rparr>))"
    using assms(1,2) by (rule fd_inv_take)
  moreover have "list_all snd (close_log w @ [(fd, fd \<in> open_fds w)])"
    using fd_inv_log [OF assms(1)] fd_inv_owned [OF assms] by simp
  ultimately have "fd_inv ((set_guard g (- 1) (w\<lparr>open_fds := open_fds w - {fd}\<rparr>))
      \<lparr>close_log := close_log w @ [(fd, fd \<in> open_fds w)]\<rparr>)"
    by (rule fd_inv_set_log)
  moreover have "(set_guard g (- 1) (w\<lparr>open_fds := open_fds w - {fd}\<rparr>))
      \<lparr>close_log := close_log w @ [(fd, fd \<in> open_fds w)]\<rparr> = set_guard g (- 1) (sys_close fd w)"
    by (simp add: set_guard_def sys_close_def)
  ultimately show ?thesis by (simp only:)
qed

lemma fd_inv_remove:
  assumes inv: "fd_inv w" and g: "guards w g = Some fd" "fd < 0"
  shows "fd_inv (w\<lparr>guards := (guards w)(g := None)\<rparr>)"
proof (rule fd_invI, goal_cases)
  case (1 y)
  have "y \<ge> 0 \<Longrightarrow> guards w g \<noteq> Some y" using g by auto
  then show ?case using fd_inv_open [OF inv, of y] by (auto simp: owned_del)
next
  case (2 a b y)
  then show ?case using fd_inv_unique [OF inv, of a y b] by (auto split: if_splits)
next
  case 3
  show ?case using fd_inv_log [OF inv] by simp
qed

text \<open>Moving the descriptor from one guard to another that owns none.\<close>

lemma fd_inv_transfer:
  assumes "fd_inv w" and "guards w h = Some fd" and "g \<noteq> h"
    and "guards w g = None \<or> (\<exists>x. guards w g = Some x \<and> x < 0)"
  shows "fd_inv (set_guard h (- 1) (set_guard g fd w))"
proof -
  let ?w = "set_guard h (- 1) (w\<lparr>open_fds := open_fds w - {fd}\<rparr>)"
  have "fd_inv ?w" using assms(1,2) by (rule fd_inv_take)
  moreover have "guards ?w g = None \<or> (\<exists>x. guards ?w g = Some x \<and> x < 0)"
    using assms(3,4) by (simp add: set_guard_def)
  ultimately have i: "fd_inv (set_guard g fd
      (?w\<lparr>open_fds := (if fd \<ge> 0 then insert fd (open_fds ?w) else open_fds ?w)\<rparr>))"
    by (rule fd_inv_put) (simp add: set_guard_def)
  have "fd \<ge> 0 \<Longrightarrow> insert fd (open_fds w - {fd}) = open_fds w"
    using fd_inv_owned [OF assms(1,2)] by auto
  moreover have "fd < 0 \<Longrightarrow> open_fds w - {fd} = open_fds w"
    using fd_inv_open [OF assms(1), of fd] by auto
  ultimately have "set_guard g fd
      (?w\<lparr>open_fds := (if fd \<ge> 0 then insert fd (open_fds ?w) else open_fds ?w)\<rparr>)
      = set_guard h (- 1) (set_guard g fd w)"
    using fun_upd_twist [OF assms(3) [symmetric], of "guards w"]
    by (cases "fd \<ge> 0") (simp_all add: set_guard_def)
  with i show ?thesis by simp
qed

lemma guard_step_inv: "guard_step w w' \<Longrightarrow> fd_inv w \<Longrightarrow> fd_inv w'"
proof (induction rule: guard_step.induct)
  case (step_open w g fd)
  then show ?case using fd_inv_put [of w g fd] by (simp add: guard_construct_def)
next
  case (step_failed w g fd)
  then show ?case using fd_inv_put [of w g fd] by (simp add: guard_construct_def)
next
  case (step_default w g)
  then show ?case using fd_inv_put [of w g "- 1"] by (simp add: guard_default_def)
next
  case (step_move w g other)
  then obtain fd where "guards w other = Some fd" by blast
  with step_move show ?case
    using fd_inv_transfer [of w other fd g]
    by (cases "g = other") (simp_all add: guard_move_construct_def guard_fd_def)
next
  case (step_assign w g other)
  then obtain fd x where o: "guards w other = Some fd" and g: "guards w g = Some x" by blast
  show ?case
  proof (cases "other = g")
    case True
    with step_assign.prems show ?thesis by (simp add: guard_move_assign_def)
  next
    case False
    let ?w1 = "if x \<ge> 0 then sys_close x w else w"
    let ?w2 = "set_guard g (- 1) ?w1"
    have "fd_inv ?w2"
    proof (cases "x \<ge> 0")
      case True
      then show ?thesis using fd_inv_close [OF step_assign.prems g True] by simp
    next
      case False
      then show ?thesis using fd_inv_put [OF step_assign.prems, of g "- 1"] g by simp
    qed
    moreover have "guards ?w2 other = Some fd"
      using o False by (simp add: set_guard_def sys_close_def)
    ultimately have "fd_inv (set_guard other (- 1) (set_guard g fd ?w2))"
      by (rule fd_inv_transfer) (use False in \<open>simp_all add: set_guard_def\<close>)
    moreover have "set_guard other (- 1) (set_guard g fd ?w2) = guard_move_assign g other w"
      using o g False by (simp add: guard_op_defs)
    ultimately show ?thesis by simp
  qed
next
  case (step_destroy w g)
  then obtain fd where g: "guards w g = Some fd" by blast
  show ?case
  proof (cases "fd \<ge> 0")
    case True
    let ?w = "set_guard g (- 1) (sys_close fd w)"
    have "fd_inv ?w" using step_destroy.prems g True by (rule fd_inv_close)
    then have "fd_inv (?w\<lparr>guards := (guards ?w)(g := None)\<rparr>)"
      by (rule fd_inv_remove [where fd = "- 1"]) (simp_all add: set_guard_def)
    moreover have "?w\<lparr>guards := (guards ?w)(g := None)\<rparr> = guard_destroy g w"
      using g True by (simp add: guard_op_defs)
    ultimately show ?thesis by simp
  next
    case False
    then have "fd_inv (w\<lparr>guards := (guards w)(g := None)\<rparr>)"
      using step_destroy.prems g by (intro fd_inv_remove) auto
    with g False show ?thesis by (simp add: guard_op_defs)
  qed
qed

lemma guard_reachable_inv: "guard_reachable w \<Longrightarrow> fd_inv w"
proof (induction rule: guard_reachable.induct)
  case reach_init
  show ?case by (simp add: fd_inv_def fd_world_init_def owned_def)
next
  case (reach_step w w')
  then show ?case by (blast intro: guard_step_inv)
qed

section \<open>Properties\<close>

text \<open>
  A program that handles descriptors only through guards never closes a descriptor twice
  (every \<open>close\<close> is of an open descriptor), never leaks one (every open descriptor is held by a
  live guard, so none is open once all guards are gone), and never holds one in two guards.
\<close>

theorem fd_guard_ownership:
  assumes "guard_reachable w"
  shows "list_all snd (close_log w) \<and>
    (\<forall>fd. fd \<in> open_fds w \<longleftrightarrow> fd \<ge> 0 \<and> (\<exists>!g. guards w g = Some fd)) \<and>
    (guards w = Map.empty \<longrightarrow> open_fds w = {})"
proof -
  have inv: "fd_inv w" using assms by (rule guard_reachable_inv)
  then have "list_all snd (close_log w)" by (rule fd_inv_log)
  moreover have "fd \<in> open_fds w \<longleftrightarrow> fd \<ge> 0 \<and> (\<exists>!g. guards w g = Some fd)" for fd
    using fd_inv_unique [OF inv] by (auto simp: fd_inv_open [OF inv] owned_def)
  moreover have "guards w = Map.empty \<longrightarrow> open_fds w = {}"
    using fd_inv_open [OF inv] by (auto simp: owned_def)
  ultimately show ?thesis by blast
qed

theorem fd_guard_ownership_witness:
  "\<exists>w. guard_reachable w \<and> open_fds w = {} \<and> guards w = Map.empty \<and> close_log w = [(7, True)] \<and>
     list_all snd (close_log w)"
proof -
  let ?w1 = "guard_construct 0 7 (fd_world_init\<lparr>open_fds := insert 7 (open_fds fd_world_init)\<rparr>)"
  let ?w2 = "guard_move_construct 1 0 ?w1"
  let ?w3 = "guard_destroy 0 ?w2"
  let ?w4 = "guard_destroy 1 ?w3"
  note reach = guard_reachable.reach_step
  have "guard_reachable ?w1"
    by (rule reach [OF guard_reachable.reach_init], rule guard_step.step_open)
      (simp_all add: fd_world_init_def)
  then have "guard_reachable ?w2"
    by (rule reach, intro guard_step.step_move) (simp_all add: guard_op_defs fd_world_init_def)
  then have "guard_reachable ?w3"
    by (rule reach, intro guard_step.step_destroy) (simp_all add: guard_op_defs fd_world_init_def)
  then have w4: "guard_reachable ?w4"
    by (rule reach, intro guard_step.step_destroy) (simp_all add: guard_op_defs fd_world_init_def)
  moreover have g: "guards ?w4 = Map.empty" and "close_log ?w4 = [(7, True)]"
    by (simp_all add: guard_op_defs fd_world_init_def)
  ultimately show ?thesis
    using fd_guard_ownership [OF w4] by blast
qed

end
