(* ===== verification/File_IO.thy ===== *)
theory File_IO
  imports Prelude
begin

text \<open>
  The file input/output helpers of \<open>include/util/file_io.h\<close>,
  \<open>include/util/detail/file_io_operations.h\<close> and \<open>src/util/file_io.cpp\<close>. The operating system is
  a parameter: the four function pointers of \<open>FileIOOperations\<close> act on a world of any type \<open>'w\<close>.
  A negative result with its \<open>errno\<close> is \<open>Sys_failed errno\<close>, any other result is \<open>Sys_ok n\<close>; a
  successful read yields the bytes it stored, so that its result is their number. The retry loops
  on \<open>EINTR\<close> need not end, so the functions return an option: \<open>None\<close> is "does not return".
\<close>

section \<open>System calls and results\<close>

datatype syscall_result = Sys_failed int | Sys_ok nat
datatype syscall_read = Read_failed int | Read_bytes "byte list"

record 'w file_io_operations =
  op_open_read_only :: "string \<Rightarrow> 'w \<Rightarrow> syscall_result \<times> 'w"
  op_read_at :: "int \<Rightarrow> nat \<Rightarrow> u64 \<Rightarrow> 'w \<Rightarrow> syscall_read \<times> 'w"
  op_write_at :: "int \<Rightarrow> byte list \<Rightarrow> u64 \<Rightarrow> 'w \<Rightarrow> syscall_result \<times> 'w"
  op_fsync :: "int \<Rightarrow> 'w \<Rightarrow> syscall_result \<times> 'w"

text \<open>The POSIX calls behind the production operations; \<open>off_t\<close> is signed.\<close>

record 'w posix_calls =
  posix_open :: "string \<Rightarrow> int \<Rightarrow> 'w \<Rightarrow> syscall_result \<times> 'w"
  posix_pread :: "int \<Rightarrow> nat \<Rightarrow> int \<Rightarrow> 'w \<Rightarrow> syscall_read \<times> 'w"
  posix_pwrite :: "int \<Rightarrow> byte list \<Rightarrow> int \<Rightarrow> 'w \<Rightarrow> syscall_result \<times> 'w"
  posix_fsync :: "int \<Rightarrow> 'w \<Rightarrow> syscall_result \<times> 'w"

abbreviation (input) O_RDONLY :: int where "O_RDONLY \<equiv> 0"

definition system_open_read_only ::
  "'w posix_calls \<Rightarrow> string \<Rightarrow> 'w \<Rightarrow> syscall_result \<times> 'w" where
  "system_open_read_only sys path = posix_open sys path O_RDONLY"

definition system_read_at ::
  "'w posix_calls \<Rightarrow> int \<Rightarrow> nat \<Rightarrow> u64 \<Rightarrow> 'w \<Rightarrow> syscall_read \<times> 'w" where
  "system_read_at sys fd byte_count offset = posix_pread sys fd byte_count (sint offset)"

definition system_write_at ::
  "'w posix_calls \<Rightarrow> int \<Rightarrow> byte list \<Rightarrow> u64 \<Rightarrow> 'w \<Rightarrow> syscall_result \<times> 'w" where
  "system_write_at sys fd bytes offset = posix_pwrite sys fd bytes (sint offset)"

definition system_fsync :: "'w posix_calls \<Rightarrow> int \<Rightarrow> 'w \<Rightarrow> syscall_result \<times> 'w" where
  "system_fsync sys fd = posix_fsync sys fd"

definition system_file_io_operations :: "'w posix_calls \<Rightarrow> 'w file_io_operations" where
  "system_file_io_operations sys =
     \<lparr>op_open_read_only = system_open_read_only sys, op_read_at = system_read_at sys,
      op_write_at = system_write_at sys, op_fsync = system_fsync sys\<rparr>"

text \<open>
  Results. An \<open>OpenFileResult\<close> holds its \<open>FdGuard\<close> as the descriptor it owns (\<open>-1\<close> for the empty
  guard); a \<open>ReadAtResult\<close> comes with the bytes stored in the caller's buffer.
\<close>

record open_file_result =
  of_fd :: int
  of_error_number :: int

record read_at_result =
  bytes_read :: nat
  ra_error_number :: int

record write_at_result =
  bytes_written :: nat
  wa_error_number :: int

record fsync_result =
  fs_error_number :: int

section \<open>Operations\<close>

definition open_read_only_with ::
  "string \<Rightarrow> 'w file_io_operations \<Rightarrow> 'w \<Rightarrow> open_file_result \<times> 'w" where
  "open_read_only_with path ops w =
     (case op_open_read_only ops path w of
        (Sys_failed error_number, w') \<Rightarrow> (\<lparr>of_fd = - 1, of_error_number = error_number\<rparr>, w')
      | (Sys_ok fd, w') \<Rightarrow> (\<lparr>of_fd = int fd, of_error_number = 0\<rparr>, w'))"

text \<open>\<open>while (bytes_read < 0 && errno == EINTR)\<close>.\<close>

partial_function (option) retry_read ::
  "'w file_io_operations \<Rightarrow> int \<Rightarrow> nat \<Rightarrow> u64 \<Rightarrow> 'w \<Rightarrow> (syscall_read \<times> 'w) option" where
  "retry_read ops fd byte_count offset w =
     (case op_read_at ops fd byte_count offset w of (r, w') \<Rightarrow>
        if r = Read_failed EINTR then retry_read ops fd byte_count offset w' else Some (r, w'))"

definition read_at_with ::
  "int \<Rightarrow> nat \<Rightarrow> u64 \<Rightarrow> 'w file_io_operations \<Rightarrow> 'w \<Rightarrow>
     ((read_at_result \<times> byte list) \<times> 'w) option" where
  "read_at_with fd byte_count offset ops w =
     (case retry_read ops fd byte_count offset w of
        None \<Rightarrow> None
      | Some (Read_failed error_number, w') \<Rightarrow>
          Some ((\<lparr>bytes_read = 0, ra_error_number = error_number\<rparr>, []), w')
      | Some (Read_bytes stored, w') \<Rightarrow>
          Some ((\<lparr>bytes_read = length stored, ra_error_number = 0\<rparr>, stored), w'))"

partial_function (option) retry_write ::
  "'w file_io_operations \<Rightarrow> int \<Rightarrow> byte list \<Rightarrow> u64 \<Rightarrow> 'w \<Rightarrow> (syscall_result \<times> 'w) option" where
  "retry_write ops fd bytes offset w =
     (case op_write_at ops fd bytes offset w of (r, w') \<Rightarrow>
        if r = Sys_failed EINTR then retry_write ops fd bytes offset w' else Some (r, w'))"

partial_function (option) write_loop ::
  "'w file_io_operations \<Rightarrow> int \<Rightarrow> byte list \<Rightarrow> u64 \<Rightarrow> nat \<Rightarrow> 'w \<Rightarrow>
     (write_at_result \<times> 'w) option" where
  "write_loop ops fd bytes offset written_count w =
     (if written_count < length bytes then
        (case retry_write ops fd (drop written_count bytes) (offset + of_nat written_count) w of
           None \<Rightarrow> None
         | Some (r, w') \<Rightarrow>
             (case r of
                Sys_failed error_number \<Rightarrow>
                  Some (\<lparr>bytes_written = written_count, wa_error_number = error_number\<rparr>, w')
              | Sys_ok n \<Rightarrow>
                  if n = 0 then Some (\<lparr>bytes_written = written_count, wa_error_number = EIO\<rparr>, w')
                  else write_loop ops fd bytes offset (written_count + n) w'))
      else Some (\<lparr>bytes_written = written_count, wa_error_number = 0\<rparr>, w))"

definition write_all_at_with ::
  "int \<Rightarrow> byte list \<Rightarrow> u64 \<Rightarrow> 'w file_io_operations \<Rightarrow> 'w \<Rightarrow> (write_at_result \<times> 'w) option" where
  "write_all_at_with fd bytes offset ops w = write_loop ops fd bytes offset 0 w"

partial_function (option) retry_fsync ::
  "'w file_io_operations \<Rightarrow> int \<Rightarrow> 'w \<Rightarrow> (syscall_result \<times> 'w) option" where
  "retry_fsync ops fd w =
     (case op_fsync ops fd w of (r, w') \<Rightarrow>
        if r = Sys_failed EINTR then retry_fsync ops fd w' else Some (r, w'))"

definition fsync_fd_with ::
  "int \<Rightarrow> 'w file_io_operations \<Rightarrow> 'w \<Rightarrow> (fsync_result \<times> 'w) option" where
  "fsync_fd_with fd ops w =
     (case retry_fsync ops fd w of
        None \<Rightarrow> None
      | Some (Sys_failed error_number, w') \<Rightarrow> Some (\<lparr>fs_error_number = error_number\<rparr>, w')
      | Some (Sys_ok _, w') \<Rightarrow> Some (\<lparr>fs_error_number = 0\<rparr>, w'))"

text \<open>The public functions use the production operations.\<close>

definition open_read_only :: "'w posix_calls \<Rightarrow> string \<Rightarrow> 'w \<Rightarrow> open_file_result \<times> 'w" where
  "open_read_only sys path = open_read_only_with path (system_file_io_operations sys)"

definition read_at ::
  "'w posix_calls \<Rightarrow> int \<Rightarrow> nat \<Rightarrow> u64 \<Rightarrow> 'w \<Rightarrow> ((read_at_result \<times> byte list) \<times> 'w) option" where
  "read_at sys fd byte_count offset = read_at_with fd byte_count offset (system_file_io_operations sys)"

definition write_all_at ::
  "'w posix_calls \<Rightarrow> int \<Rightarrow> byte list \<Rightarrow> u64 \<Rightarrow> 'w \<Rightarrow> (write_at_result \<times> 'w) option" where
  "write_all_at sys fd bytes offset = write_all_at_with fd bytes offset (system_file_io_operations sys)"

definition fsync_fd :: "'w posix_calls \<Rightarrow> int \<Rightarrow> 'w \<Rightarrow> (fsync_result \<times> 'w) option" where
  "fsync_fd sys fd = fsync_fd_with fd (system_file_io_operations sys)"

declare retry_read.simps [code] retry_write.simps [code] write_loop.simps [code] retry_fsync.simps [code]

section \<open>What the operating system promises\<close>

text \<open>
  A world has only finitely many interruptions in store: a measure that every \<open>EINTR\<close> answer
  decreases and no other answer increases.
\<close>

definition interrupts_bounded :: "'w file_io_operations \<Rightarrow> ('w \<Rightarrow> nat) \<Rightarrow> bool" where
  "interrupts_bounded ops m \<longleftrightarrow>
     (\<forall>fd n off w r w'. op_read_at ops fd n off w = (r, w') \<longrightarrow>
        m w' \<le> m w \<and> (r = Read_failed EINTR \<longrightarrow> m w' < m w)) \<and>
     (\<forall>fd bytes off w r w'. op_write_at ops fd bytes off w = (r, w') \<longrightarrow>
        m w' \<le> m w \<and> (r = Sys_failed EINTR \<longrightarrow> m w' < m w)) \<and>
     (\<forall>fd w r w'. op_fsync ops fd w = (r, w') \<longrightarrow>
        m w' \<le> m w \<and> (r = Sys_failed EINTR \<longrightarrow> m w' < m w))"

text \<open>
  \<open>pwrite\<close> on the regular file behind \<open>fd\<close>: it stores a prefix of the bytes at the offset, or
  fails with a non-zero error number and stores nothing.
\<close>

fun pwrite_effect ::
  "('w \<Rightarrow> byte list) \<Rightarrow> byte list \<Rightarrow> u64 \<Rightarrow> 'w \<Rightarrow> syscall_result \<Rightarrow> 'w \<Rightarrow> bool" where
  "pwrite_effect contents bytes off w (Sys_ok n) w' =
     (n \<le> length bytes \<and> contents w' = write_image (contents w) (unat off) (take n bytes))"
| "pwrite_effect contents bytes off w (Sys_failed e) w' = (e \<noteq> 0 \<and> contents w' = contents w)"

definition pwrite_contract ::
  "'w file_io_operations \<Rightarrow> int \<Rightarrow> ('w \<Rightarrow> byte list) \<Rightarrow> bool" where
  "pwrite_contract ops fd contents \<longleftrightarrow>
     (\<forall>bytes off w r w'. op_write_at ops fd bytes off w = (r, w') \<longrightarrow>
        pwrite_effect contents bytes off w r w')"

section \<open>Lemmas\<close>

text \<open>Worlds reached by interrupted attempts only.\<close>

inductive interrupted_reads ::
  "'w file_io_operations \<Rightarrow> int \<Rightarrow> nat \<Rightarrow> u64 \<Rightarrow> 'w \<Rightarrow> 'w \<Rightarrow> bool"
  for ops fd n off where
  ir_refl: "interrupted_reads ops fd n off w w"
| ir_step: "op_read_at ops fd n off w = (Read_failed EINTR, w') \<Longrightarrow>
     interrupted_reads ops fd n off w' w'' \<Longrightarrow> interrupted_reads ops fd n off w w''"

lemma retry_read_sound:
  assumes "retry_read ops fd n off w = Some (r, w')"
  shows "r \<noteq> Read_failed EINTR \<and>
    (\<exists>v. interrupted_reads ops fd n off w v \<and> op_read_at ops fd n off v = (r, w'))"
proof -
  let ?Q = "\<lambda>ops fd n off w rw. fst rw \<noteq> Read_failed EINTR \<and>
    (\<exists>v. interrupted_reads ops fd n off w v \<and> op_read_at ops fd n off v = rw)"
  have "?Q ops fd n off w (r, w')"
  proof (rule retry_read.raw_induct [where P = ?Q, OF _ assms])
    fix f :: "'a file_io_operations \<Rightarrow> int \<Rightarrow> nat \<Rightarrow> u64 \<Rightarrow> 'a \<Rightarrow> (syscall_read \<times> 'a) option"
    fix ops fd n off w rw
    assume IH: "\<And>ops fd n off w rw. f ops fd n off w = Some rw \<Longrightarrow> ?Q ops fd n off w rw"
      and eq: "(case op_read_at ops fd n off w of (r, w') \<Rightarrow>
        if r = Read_failed EINTR then f ops fd n off w' else Some (r, w')) = Some rw"
    obtain r1 w1 where op: "op_read_at ops fd n off w = (r1, w1)" by (meson surj_pair)
    show "?Q ops fd n off w rw"
    proof (cases "r1 = Read_failed EINTR")
      case True
      with eq op have "f ops fd n off w1 = Some rw" by simp
      then have "?Q ops fd n off w1 rw" by (rule IH)
      then show ?thesis using op True interrupted_reads.ir_step by metis
    next
      case False
      with eq op have "rw = (r1, w1)" by simp
      with False op show ?thesis by (auto intro: interrupted_reads.ir_refl)
    qed
  qed
  then show ?thesis by simp
qed

lemma retry_read_complete:
  assumes "interrupted_reads ops fd n off w v" and "op_read_at ops fd n off v = (r, w')"
    and "r \<noteq> Read_failed EINTR"
  shows "retry_read ops fd n off w = Some (r, w')"
  using assms
  by (induction rule: interrupted_reads.induct) (simp_all add: retry_read.simps)

lemma retry_read_returns:
  assumes "interrupts_bounded ops m"
  shows "\<exists>r w'. retry_read ops fd n off w = Some (r, w') \<and> r \<noteq> Read_failed EINTR \<and> m w' \<le> m w"
proof (induction "m w" arbitrary: w rule: less_induct)
  case less
  obtain r w' where op: "op_read_at ops fd n off w = (r, w')" by (meson surj_pair)
  with assms have le: "m w' \<le> m w" by (simp add: interrupts_bounded_def)
  show ?case
  proof (cases "r = Read_failed EINTR")
    case True
    with assms op have "m w' < m w" by (simp add: interrupts_bounded_def)
    from less [OF this] le op True show ?thesis
      by (subst retry_read.simps) (auto intro: order_trans)
  next
    case False
    with op le show ?thesis by (subst retry_read.simps) simp
  qed
qed

lemma retry_write_returns:
  assumes "interrupts_bounded ops m"
  shows "\<exists>r w'. retry_write ops fd bytes off w = Some (r, w') \<and> m w' \<le> m w"
proof (induction "m w" arbitrary: w rule: less_induct)
  case less
  obtain r w' where op: "op_write_at ops fd bytes off w = (r, w')" by (meson surj_pair)
  with assms have le: "m w' \<le> m w" by (simp add: interrupts_bounded_def)
  show ?case
  proof (cases "r = Sys_failed EINTR")
    case True
    with assms op have "m w' < m w" by (simp add: interrupts_bounded_def)
    from less [OF this] le op True show ?thesis
      by (subst retry_write.simps) (auto intro: order_trans)
  next
    case False
    with op le show ?thesis by (subst retry_write.simps) simp
  qed
qed

lemma retry_write_contract:
  assumes c: "pwrite_contract ops fd contents" and r: "retry_write ops fd bytes off w = Some (r, w')"
  shows "pwrite_effect contents bytes off w r w' \<and> r \<noteq> Sys_failed EINTR"
proof -
  let ?Q = "\<lambda>ops fd bytes off w rw. pwrite_contract ops fd contents \<longrightarrow>
    pwrite_effect contents bytes off w (fst rw) (snd rw) \<and> fst rw \<noteq> Sys_failed EINTR"
  have "?Q ops fd bytes off w (r, w')"
  proof (rule retry_write.raw_induct [where P = ?Q, OF _ r])
    fix f :: "'a file_io_operations \<Rightarrow> int \<Rightarrow> byte list \<Rightarrow> u64 \<Rightarrow> 'a \<Rightarrow> (syscall_result \<times> 'a) option"
    fix ops fd bytes off w rw
    assume IH: "\<And>ops fd bytes off w rw. f ops fd bytes off w = Some rw \<Longrightarrow> ?Q ops fd bytes off w rw"
      and eq: "(case op_write_at ops fd bytes off w of (r, w') \<Rightarrow>
        if r = Sys_failed EINTR then f ops fd bytes off w' else Some (r, w')) = Some rw"
    obtain r1 w1 where op: "op_write_at ops fd bytes off w = (r1, w1)" by (meson surj_pair)
    show "?Q ops fd bytes off w rw"
    proof (cases "r1 = Sys_failed EINTR")
      case True
      with op eq have "f ops fd bytes off w1 = Some rw" by simp
      then have "?Q ops fd bytes off w1 rw" by (rule IH)
      moreover have "pwrite_contract ops fd contents \<Longrightarrow> contents w1 = contents w"
        using op True unfolding pwrite_contract_def by fastforce
      ultimately show ?thesis by (cases "fst rw") auto
    next
      case False
      with op eq have "rw = (r1, w1)" by simp
      with False op show ?thesis unfolding pwrite_contract_def by auto
    qed
  qed
  with c show ?thesis by simp
qed

text \<open>The writing loop: it returns, and reports exactly the prefix it stored.\<close>

lemma write_loop_correct:
  assumes c: "pwrite_contract ops fd contents" and b: "interrupts_bounded ops m"
    and fits: "unat off + length bytes < 2 ^ 64" and "k \<le> length bytes"
    and "contents w = write_image img0 (unat off) (take k bytes)"
  shows "\<exists>res w'. write_loop ops fd bytes off k w = Some (res, w') \<and>
    bytes_written res \<le> length bytes \<and>
    contents w' = write_image img0 (unat off) (take (bytes_written res) bytes) \<and>
    (wa_error_number res = 0 \<longleftrightarrow> bytes_written res = length bytes) \<and>
    wa_error_number res \<noteq> EINTR"
  using assms(4,5)
proof (induction "length bytes - k" arbitrary: k w rule: less_induct)
  case less
  show ?case
  proof (cases "k < length bytes")
    case False
    with less.prems show ?thesis by (subst write_loop.simps) simp
  next
    case True
    have kb: "unat (of_nat k :: u64) = k" using fits True by (simp add: unat_of_nat)
    have off: "unat (off + of_nat k) = unat off + k"
      using fits True kb by (subst unat_add_fits) auto
    obtain r w' where r: "retry_write ops fd (drop k bytes) (off + of_nat k) w = Some (r, w')"
      using retry_write_returns [OF b] by blast
    note contract = retry_write_contract [OF c r]
    show ?thesis
    proof (cases r)
      case (Sys_failed e)
      with contract r True less.prems show ?thesis by (subst write_loop.simps) auto
    next
      case (Sys_ok n)
      show ?thesis
      proof (cases "n = 0")
        case True
        with contract r Sys_ok \<open>k < length bytes\<close> less.prems show ?thesis
          by (subst write_loop.simps) auto
      next
        case False
        have n: "k + n \<le> length bytes" using contract Sys_ok True by auto
        have "contents w' = write_image (write_image img0 (unat off) (take k bytes))
            (unat off + length (take k bytes)) (take n (drop k bytes))"
          using contract Sys_ok less.prems True off by simp
        also have "\<dots> = write_image img0 (unat off) (take (k + n) bytes)"
          unfolding write_image_append by (simp add: take_add)
        finally have "contents w' = write_image img0 (unat off) (take (k + n) bytes)" .
        moreover have "length bytes - (k + n) < length bytes - k" using False True by simp
        ultimately obtain res w'' where "write_loop ops fd bytes off (k + n) w' = Some (res, w'') \<and>
            bytes_written res \<le> length bytes \<and>
            contents w'' = write_image img0 (unat off) (take (bytes_written res) bytes) \<and>
            (wa_error_number res = 0 \<longleftrightarrow> bytes_written res = length bytes) \<and>
            wa_error_number res \<noteq> EINTR"
          using less.hyps n by blast
        then show ?thesis using r Sys_ok False True by (subst write_loop.simps) simp
      qed
    qed
  qed
qed

section \<open>A scripted operating system\<close>

text \<open>
  A concrete instance for the hypotheses above: one regular file, and a script of answers to give
  before the calls succeed in full (the shape of the injected operations of the repository's
  error-path tests).
\<close>

datatype scripted = Fail int | Short nat

type_synonym script_world = "byte list \<times> scripted list"

definition read_slice :: "byte list \<Rightarrow> nat \<Rightarrow> nat \<Rightarrow> byte list" where
  "read_slice file off n = take n (drop off file)"

fun script_read :: "int \<Rightarrow> nat \<Rightarrow> u64 \<Rightarrow> script_world \<Rightarrow> syscall_read \<times> script_world" where
  "script_read fd n off (file, []) = (Read_bytes (read_slice file (unat off) n), (file, []))"
| "script_read fd n off (file, Fail e # acts) = (Read_failed e, (file, acts))"
| "script_read fd n off (file, Short k # acts) =
     (Read_bytes (read_slice file (unat off) (min k n)), (file, acts))"

fun script_write :: "int \<Rightarrow> byte list \<Rightarrow> u64 \<Rightarrow> script_world \<Rightarrow> syscall_result \<times> script_world" where
  "script_write fd bytes off (file, []) =
     (Sys_ok (length bytes), (write_image file (unat off) bytes, []))"
| "script_write fd bytes off (file, Fail e # acts) =
     (Sys_failed (if e = 0 then EIO else e), (file, acts))"
| "script_write fd bytes off (file, Short k # acts) =
     (let n = min k (length bytes) in
      (Sys_ok n, (write_image file (unat off) (take n bytes), acts)))"

fun script_fsync :: "int \<Rightarrow> script_world \<Rightarrow> syscall_result \<times> script_world" where
  "script_fsync fd (file, []) = (Sys_ok 0, (file, []))"
| "script_fsync fd (file, Fail e # acts) = (Sys_failed e, (file, acts))"
| "script_fsync fd (file, Short k # acts) = (Sys_ok 0, (file, acts))"

definition script_ops :: "script_world file_io_operations" where
  "script_ops = \<lparr>op_open_read_only = (\<lambda>path w. (Sys_ok 3, w)), op_read_at = script_read,
     op_write_at = script_write, op_fsync = script_fsync\<rparr>"

lemma script_pwrite_contract: "pwrite_contract script_ops fd fst"
  unfolding pwrite_contract_def
proof (intro allI impI)
  fix bytes off w r w'
  assume "op_write_at script_ops fd bytes off w = (r, w')"
  then have "script_write fd bytes off w = (r, w')" by (simp add: script_ops_def)
  then show "pwrite_effect fst bytes off w r w'"
    by (cases "(fd, bytes, off, w)" rule: script_write.cases) (auto simp: Let_def)
qed

lemma script_interrupts: "interrupts_bounded script_ops (length \<circ> snd)"
  unfolding interrupts_bounded_def
proof (intro conjI allI impI)
  fix fd n off w r w'
  assume "op_read_at script_ops fd n off w = (r, w')"
  then have "script_read fd n off w = (r, w')" by (simp add: script_ops_def)
  then show "(length \<circ> snd) w' \<le> (length \<circ> snd) w"
    and "r = Read_failed EINTR \<Longrightarrow> (length \<circ> snd) w' < (length \<circ> snd) w"
    by (cases "(fd, n, off, w)" rule: script_read.cases; auto)+
next
  fix fd bytes off w r w'
  assume "op_write_at script_ops fd bytes off w = (r, w')"
  then have "script_write fd bytes off w = (r, w')" by (simp add: script_ops_def)
  then show "(length \<circ> snd) w' \<le> (length \<circ> snd) w"
    and "r = Sys_failed EINTR \<Longrightarrow> (length \<circ> snd) w' < (length \<circ> snd) w"
    by (cases "(fd, bytes, off, w)" rule: script_write.cases; auto simp: Let_def)+
next
  fix fd w r w'
  assume "op_fsync script_ops fd w = (r, w')"
  then have "script_fsync fd w = (r, w')" by (simp add: script_ops_def)
  then show "(length \<circ> snd) w' \<le> (length \<circ> snd) w"
    and "r = Sys_failed EINTR \<Longrightarrow> (length \<circ> snd) w' < (length \<circ> snd) w"
    by (cases "(fd, w)" rule: script_fsync.cases; auto)+
qed

section \<open>Properties\<close>

text \<open>
  C38: With an operating system that keeps the \<open>pwrite\<close> contract and interrupts finitely often,
  \<open>write_all_at\<close> returns; through any mix of interruptions and short writes the file then holds
  exactly the reported prefix of the bytes at the given offset, the prefix is everything exactly
  when no error is reported, and \<open>EINTR\<close> is never reported.
\<close>

theorem write_all_at_correct:
  assumes "pwrite_contract ops fd contents" and "interrupts_bounded ops m"
    and "unat off + length bytes < 2 ^ 64"
  shows "\<exists>res w'. write_all_at_with fd bytes off ops w = Some (res, w') \<and>
    bytes_written res \<le> length bytes \<and>
    contents w' = write_image (contents w) (unat off) (take (bytes_written res) bytes) \<and>
    (wa_error_number res = 0 \<longleftrightarrow> bytes_written res = length bytes) \<and>
    wa_error_number res \<noteq> EINTR"
  unfolding write_all_at_with_def
  by (rule write_loop_correct [OF assms]) simp_all

theorem write_all_at_correct_witness:
  "\<exists>res w'. write_all_at_with 3 [10, 20, 30] 1 script_ops ([7], [Fail EINTR, Short 2]) = Some (res, w') \<and>
    fst w' = [7, 10, 20, 30] \<and> bytes_written res = 3"
proof -
  have run: "write_all_at_with 3 [10, 20, 30] 1 script_ops ([7], [Fail EINTR, Short 2]) =
      Some (\<lparr>bytes_written = 3, wa_error_number = 0\<rparr>, ([7, 10, 20, 30], []))"
    by (simp add: write_all_at_with_def write_loop.simps retry_write.simps script_ops_def Let_def
        write_image_def)
  have "unat (1 :: u64) + length [10, 20, 30 :: byte] < 2 ^ 64" by simp
  from write_all_at_correct [OF script_pwrite_contract [of 3] script_interrupts this,
      of "([7], [Fail EINTR, Short 2])"] run
  show ?thesis by simp
qed

text \<open>
  \<open>read_at\<close> is transparent to interruptions: it returns a result exactly when, after some number
  of interrupted attempts, an attempt answers with something other than \<open>EINTR\<close>, and then it
  reports that answer (the stored bytes with their number, or zero bytes with the error number).
\<close>

theorem read_at_transparent:
  "read_at_with fd n off ops w = Some ((res, stored), w') \<longleftrightarrow>
     (\<exists>v r. interrupted_reads ops fd n off w v \<and> op_read_at ops fd n off v = (r, w') \<and>
        (case r of
           Read_failed e \<Rightarrow> e \<noteq> EINTR \<and> res = \<lparr>bytes_read = 0, ra_error_number = e\<rparr> \<and> stored = []
         | Read_bytes bs \<Rightarrow> res = \<lparr>bytes_read = length bs, ra_error_number = 0\<rparr> \<and> stored = bs))"
  (is "?lhs \<longleftrightarrow> (\<exists>v r. ?run v r)")
proof
  assume ?lhs
  then obtain r where r: "retry_read ops fd n off w = Some (r, w')"
    and res: "(res, stored) = (case r of
        Read_failed e \<Rightarrow> (\<lparr>bytes_read = 0, ra_error_number = e\<rparr>, [])
      | Read_bytes bs \<Rightarrow> (\<lparr>bytes_read = length bs, ra_error_number = 0\<rparr>, bs))"
    by (auto simp: read_at_with_def split: option.splits prod.splits syscall_read.splits)
  from retry_read_sound [OF r] res show "\<exists>v r. ?run v r"
    by (cases r) auto
next
  assume "\<exists>v r. ?run v r"
  then obtain v r where run: "?run v r" by blast
  then have "r \<noteq> Read_failed EINTR" by (cases r) auto
  with run have "retry_read ops fd n off w = Some (r, w')"
    by (intro retry_read_complete) auto
  with run show ?lhs by (cases r) (auto simp: read_at_with_def)
qed

end
