(* ===== verification/Aligned_Buffer.thy ===== *)
theory Aligned_Buffer
  imports Pipeline_Config
begin

text \<open>
  \<open>AlignedBuffer\<close> of \<open>include/buffer/aligned_buffer.h\<close> and \<open>src/buffer/aligned_buffer.cpp\<close>: one
  block of aligned memory, owned, movable. The C allocator is a parameter that acts on a heap of
  any type \<open>'m\<close>: \<open>posix_memalign\<close> answers with an error number, an address and the memory's
  initial contents. A moved-from buffer has the null address 0, no bytes and size 0.
\<close>

record 'm allocator =
  memalign :: "size_t \<Rightarrow> size_t \<Rightarrow> 'm \<Rightarrow> (int \<times> nat \<times> byte list) \<times> 'm"
  free_memory :: "nat \<Rightarrow> 'm \<Rightarrow> 'm"

record aligned_buffer =
  ab_data :: nat
  ab_bytes :: "byte list"
  ab_size :: size_t
  ab_alignment :: size_t

definition null_buffer :: aligned_buffer where
  "null_buffer = \<lparr>ab_data = 0, ab_bytes = [], ab_size = 0, ab_alignment = 0\<rparr>"

definition buffer_is_power_of_two :: "size_t \<Rightarrow> bool" where
  "buffer_is_power_of_two value \<longleftrightarrow> value \<noteq> 0 \<and> value AND (value - 1) = 0"

definition validate_allocation :: "size_t \<Rightarrow> size_t \<Rightarrow> unit res" where
  "validate_allocation size_arg alignment =
     (if size_arg = 0 then
        Inl (Invalid_argument ''aligned buffer size must be greater than zero'')
      else if \<not> buffer_is_power_of_two alignment \<or> alignment mod sizeof_pointer \<noteq> 0 then
        Inl (Invalid_argument
          ''aligned buffer alignment must be a power of two and a multiple of sizeof(void*)'')
      else if size_arg mod alignment \<noteq> 0 then
        Inl (Invalid_argument ''aligned buffer size must be a multiple of alignment'')
      else Inr ())"

definition aligned_buffer_new ::
  "'m allocator \<Rightarrow> size_t \<Rightarrow> size_t \<Rightarrow> 'm \<Rightarrow> aligned_buffer res \<times> 'm" where
  "aligned_buffer_new al size_arg alignment m =
     (case validate_allocation size_arg alignment of
        Inl e \<Rightarrow> (Inl e, m)
      | Inr _ \<Rightarrow>
          (case memalign al alignment size_arg m of ((error_number, allocation, contents), m') \<Rightarrow>
             if error_number \<noteq> 0 then (Inl (System_error error_number ''posix_memalign''), m')
             else (Inr \<lparr>ab_data = allocation, ab_bytes = contents, ab_size = size_arg,
                        ab_alignment = alignment\<rparr>, m')))"

text \<open>\<open>free(nullptr)\<close> does nothing.\<close>

definition aligned_buffer_destroy :: "'m allocator \<Rightarrow> aligned_buffer \<Rightarrow> 'm \<Rightarrow> 'm" where
  "aligned_buffer_destroy al b m = (if ab_data b = 0 then m else free_memory al (ab_data b) m)"

definition aligned_buffer_move_construct :: "aligned_buffer \<Rightarrow> aligned_buffer \<times> aligned_buffer" where
  "aligned_buffer_move_construct other = (other, null_buffer)"

text \<open>The first argument is \<open>this == &other\<close>.\<close>

definition aligned_buffer_move_assign ::
  "'m allocator \<Rightarrow> bool \<Rightarrow> aligned_buffer \<Rightarrow> aligned_buffer \<Rightarrow> 'm \<Rightarrow>
     (aligned_buffer \<times> aligned_buffer) \<times> 'm" where
  "aligned_buffer_move_assign al same this_buffer other m =
     (if same then ((this_buffer, other), m)
      else ((other, null_buffer), aligned_buffer_destroy al this_buffer m))"

text \<open>The documented behaviour of \<open>posix_memalign\<close>.\<close>

definition memalign_contract :: "'m allocator \<Rightarrow> bool" where
  "memalign_contract al \<longleftrightarrow>
     (\<forall>alignment size_arg m e a bs m'. memalign al alignment size_arg m = ((e, a, bs), m') \<longrightarrow>
        e = 0 \<longrightarrow> a \<noteq> 0 \<and> unat alignment dvd a \<and> length bs = unat size_arg)"

definition buffer_wf :: "aligned_buffer \<Rightarrow> bool" where
  "buffer_wf b \<longleftrightarrow> length (ab_bytes b) = unat (ab_size b) \<and> 0 < unat (ab_size b) \<and>
     ab_data b \<noteq> 0 \<and> unat (ab_alignment b) dvd ab_data b \<and> unat (ab_alignment b) dvd unat (ab_size b)"

lemma buffer_is_power_of_two_eq: "buffer_is_power_of_two = is_power_of_two"
  by (simp add: fun_eq_iff buffer_is_power_of_two_def is_power_of_two_def)

lemma validate_allocation_config:
  "validate c = Inr () \<Longrightarrow> validate_allocation (block_size c) (buffer_alignment c) = Inr ()"
  by (simp add: validate_def validate_allocation_def buffer_is_power_of_two_eq split: if_splits)

lemma aligned_buffer_new_wf:
  assumes "memalign_contract al" and "aligned_buffer_new al n a m = (Inr b, m')"
  shows "buffer_wf b \<and> ab_size b = n \<and> ab_alignment b = a"
proof -
  obtain e p bs m1 where call: "memalign al a n m = ((e, p, bs), m1)" by (metis prod.exhaust)
  from assms(2) call have v: "validate_allocation n a = Inr ()" and e: "e = 0"
    and b: "b = \<lparr>ab_data = p, ab_bytes = bs, ab_size = n, ab_alignment = a\<rparr>"
    by (auto simp: aligned_buffer_new_def split: sum.splits if_splits)
  from assms(1) call e have "p \<noteq> 0 \<and> unat a dvd p \<and> length bs = unat n"
    unfolding memalign_contract_def by blast
  moreover have "n \<noteq> 0" and "n mod a = 0"
    using v by (auto simp: validate_allocation_def split: if_splits)
  ultimately show ?thesis by (simp add: b buffer_wf_def unat_gt_0 word_mod_zero_iff)
qed

end
