(* ===== verification/Buffer_Pool.thy ===== *)
theory Buffer_Pool
  imports Aligned_Buffer Metrics
begin

text \<open>
  \<open>AlignedBufferPool\<close> and \<open>BufferHandle\<close> (\<open>include/buffer\<close>, \<open>src/buffer\<close>). The pool's vectors are
  lists whose end is the vector's back; each critical section of the pool's mutex is one
  operation. \<open>acquire\<close> waits while no index is available: the model's \<open>pool_acquire\<close> is \<open>None\<close> in
  that case. The in-flight \<open>Gauge\<close> is dedicated to the pool (its constructor insists on a fresh
  one), so the pool holds it. The pool's \<open>assert\<close>s are facts proved of reachable states.
\<close>

section \<open>State and operations\<close>

record buffer_handle =
  bh_pool :: bool
  bh_index :: nat

record buffer_pool =
  buffers :: "aligned_buffer list"
  available_indices :: "nat list"
  in_use :: "byte list"
  inflight_metric :: "gauge option"

fun build_buffers ::
  "'m allocator \<Rightarrow> nat \<Rightarrow> size_t \<Rightarrow> size_t \<Rightarrow> 'm \<Rightarrow> aligned_buffer list res \<times> 'm" where
  "build_buffers al 0 n a m = (Inr [], m)"
| "build_buffers al (Suc k) n a m =
     (case aligned_buffer_new al n a m of
        (Inl e, m') \<Rightarrow> (Inl e, m')
      | (Inr b, m') \<Rightarrow>
          (case build_buffers al k n a m' of
             (Inl e, m'') \<Rightarrow> (Inl e, aligned_buffer_destroy al b m'')
           | (Inr bs, m'') \<Rightarrow> (Inr (b # bs), m'')))"

definition pool_new :: "'m allocator \<Rightarrow> pipeline_config \<Rightarrow> 'm \<Rightarrow> buffer_pool res \<times> 'm" where
  "pool_new al config m =
     (case validate config of
        Inl e \<Rightarrow> (Inl e, m)
      | Inr _ \<Rightarrow>
          let n = unat (max_inflight_buffers config) in
          (case build_buffers al n (block_size config) (buffer_alignment config) m of
             (Inl e, m') \<Rightarrow> (Inl e, m')
           | (Inr bs, m') \<Rightarrow>
               (Inr \<lparr>buffers = bs, available_indices = map (\<lambda>index. index - 1) (rev [1..<n + 1]),
                     in_use = replicate n 0, inflight_metric = None\<rparr>, m')))"

definition pool_destroy :: "'m allocator \<Rightarrow> buffer_pool \<Rightarrow> 'm \<Rightarrow> 'm" where
  "pool_destroy al p m = fold (aligned_buffer_destroy al) (buffers p) m"

definition pool_new_observed ::
  "'m allocator \<Rightarrow> pipeline_config \<Rightarrow> gauge \<Rightarrow> 'm \<Rightarrow> buffer_pool res \<times> 'm" where
  "pool_new_observed al config inflight_buffers m =
     (case pool_new al config m of
        (Inl e, m') \<Rightarrow> (Inl e, m')
      | (Inr p, m') \<Rightarrow>
          if gauge_value inflight_buffers \<noteq> 0 \<or> gauge_high inflight_buffers \<noteq> 0 then
            (Inl (Invalid_argument
               ''buffer-pool inflight Gauge must be dedicated and start at zero''),
             pool_destroy al p m')
          else (Inr (p\<lparr>inflight_metric := Some inflight_buffers\<rparr>), m'))"

definition take_available_locked :: "buffer_pool \<Rightarrow> buffer_handle \<times> buffer_pool" where
  "take_available_locked p =
     (let index = last (available_indices p) in
      (\<lparr>bh_pool = True, bh_index = index\<rparr>,
       p\<lparr>available_indices := butlast (available_indices p),
         in_use := (in_use p)[index := 1],
         inflight_metric := map_option gauge_increment (inflight_metric p)\<rparr>))"

definition try_acquire :: "buffer_pool \<Rightarrow> buffer_handle option \<times> buffer_pool" where
  "try_acquire p =
     (if available_indices p = [] then (None, p)
      else case take_available_locked p of (h, p') \<Rightarrow> (Some h, p'))"

definition pool_acquire :: "buffer_pool \<Rightarrow> (buffer_handle \<times> buffer_pool) option" where
  "pool_acquire p =
     (if available_indices p = [] then None else Some (take_available_locked p))"

definition pool_capacity :: "buffer_pool \<Rightarrow> nat" where
  "pool_capacity p = length (buffers p)"

definition pool_available :: "buffer_pool \<Rightarrow> nat" where
  "pool_available p = length (available_indices p)"

definition buffer_at :: "nat \<Rightarrow> buffer_pool \<Rightarrow> aligned_buffer" where
  "buffer_at index p = buffers p ! index"

definition pool_release :: "nat \<Rightarrow> buffer_pool \<Rightarrow> buffer_pool" where
  "pool_release index p =
     p\<lparr>in_use := (in_use p)[index := 0],
       available_indices := available_indices p @ [index],
       inflight_metric := map_option gauge_decrement (inflight_metric p)\<rparr>"

text \<open>\<open>BufferHandle\<close>: the pool pointer is null or the pool.\<close>

definition null_handle :: buffer_handle where
  "null_handle = \<lparr>bh_pool = False, bh_index = 0\<rparr>"

definition handle_valid :: "buffer_handle \<Rightarrow> bool" where
  "handle_valid h \<longleftrightarrow> bh_pool h"

definition handle_release :: "buffer_handle \<Rightarrow> buffer_pool \<Rightarrow> buffer_handle \<times> buffer_pool" where
  "handle_release h p =
     (null_handle, if bh_pool h then pool_release (bh_index h) p else p)"

definition handle_destroy :: "buffer_handle \<Rightarrow> buffer_pool \<Rightarrow> buffer_pool" where
  "handle_destroy h p = snd (handle_release h p)"

definition handle_move_construct :: "buffer_handle \<Rightarrow> buffer_handle \<times> buffer_handle" where
  "handle_move_construct other = (other, null_handle)"

definition handle_move_assign ::
  "bool \<Rightarrow> buffer_handle \<Rightarrow> buffer_handle \<Rightarrow> buffer_pool \<Rightarrow>
     (buffer_handle \<times> buffer_handle) \<times> buffer_pool" where
  "handle_move_assign same h other p =
     (if same then ((h, other), p)
      else case handle_release h p of (_, p') \<Rightarrow> ((other, null_handle), p'))"

definition handle_data :: "buffer_handle \<Rightarrow> buffer_pool \<Rightarrow> nat" where
  "handle_data h p = (if handle_valid h then ab_data (buffer_at (bh_index h) p) else 0)"

definition handle_size :: "buffer_handle \<Rightarrow> buffer_pool \<Rightarrow> size_t" where
  "handle_size h p = (if handle_valid h then ab_size (buffer_at (bh_index h) p) else 0)"

definition handle_alignment :: "buffer_handle \<Rightarrow> buffer_pool \<Rightarrow> size_t" where
  "handle_alignment h p = (if handle_valid h then ab_alignment (buffer_at (bh_index h) p) else 0)"

definition handle_bytes :: "buffer_handle \<Rightarrow> buffer_pool \<Rightarrow> byte list" where
  "handle_bytes h p = (if handle_valid h then ab_bytes (buffer_at (bh_index h) p) else [])"

text \<open>A store through the mutable span that \<open>bytes()\<close> returns.\<close>

definition handle_store :: "buffer_handle \<Rightarrow> byte list \<Rightarrow> buffer_pool \<Rightarrow> buffer_pool" where
  "handle_store h bs p =
     (if handle_valid h then
        let b = buffer_at (bh_index h) p in
        p\<lparr>buffers := (buffers p)[bh_index h := b\<lparr>ab_bytes := store_prefix bs (ab_bytes b)\<rparr>]\<rparr>
      else p)"

section \<open>Leases\<close>

definition leased :: "buffer_pool \<Rightarrow> nat set" where
  "leased p = {i. i < length (in_use p) \<and> in_use p ! i = 1}"

definition pool_metric_ok :: "buffer_pool \<Rightarrow> bool" where
  "pool_metric_ok p \<longleftrightarrow>
     (case inflight_metric p of None \<Rightarrow> True
      | Some g \<Rightarrow> (\<exists>m \<le> pool_capacity p. gauge_counts (card (leased p)) m g))"

text \<open>
  The in-use flags are 0 or 1, the available indices are exactly those whose flag is 0, each
  once, and the gauge counts the leased buffers.
\<close>

definition pool_inv :: "buffer_pool \<Rightarrow> bool" where
  "pool_inv p \<longleftrightarrow>
     length (in_use p) = pool_capacity p \<and> pool_capacity p < 2 ^ 62 \<and>
     (\<forall>i < length (in_use p). in_use p ! i = 0 \<or> in_use p ! i = 1) \<and>
     distinct (available_indices p) \<and>
     set (available_indices p) = {i. i < length (in_use p) \<and> in_use p ! i = 0} \<and>
     pool_metric_ok p"

lemma pool_metric_okI:
  assumes "inflight_metric p = Some g" and "gauge_counts (card (leased p)) m g"
    and "m \<le> pool_capacity p"
  shows "pool_metric_ok p"
  using assms by (auto simp: pool_metric_ok_def)

lemma finite_leased [simp]: "finite (leased p)"
  by (simp add: leased_def)

lemma pool_inv_partition:
  assumes "pool_inv p"
  shows "leased p \<union> set (available_indices p) = {..<pool_capacity p}"
    and "leased p \<inter> set (available_indices p) = {}"
    and "card (leased p) + pool_available p = pool_capacity p"
proof -
  show u: "leased p \<union> set (available_indices p) = {..<pool_capacity p}"
    using assms by (auto simp: pool_inv_def leased_def)
  show d: "leased p \<inter> set (available_indices p) = {}"
    using assms by (auto simp: pool_inv_def leased_def)
  have "card (leased p) + card (set (available_indices p)) = card {..<pool_capacity p}"
    using card_Un_disjoint [OF finite_leased _ d] u by simp
  moreover have "card (set (available_indices p)) = pool_available p"
    unfolding pool_available_def using assms by (intro distinct_card) (simp add: pool_inv_def)
  ultimately show "card (leased p) + pool_available p = pool_capacity p" by simp
qed

lemma leased_card_le: "pool_inv p \<Longrightarrow> card (leased p) \<le> pool_capacity p"
  using pool_inv_partition(3) [of p] by simp

lemma leased_set_flag:
  "i < length (in_use p) \<Longrightarrow> leased (p\<lparr>in_use := (in_use p)[i := 1]\<rparr>) = insert i (leased p)"
  by (auto simp: leased_def nth_list_update)

lemma leased_clear_flag:
  "i < length (in_use p) \<Longrightarrow> leased (p\<lparr>in_use := (in_use p)[i := 0]\<rparr>) = leased p - {i}"
  by (auto simp: leased_def nth_list_update)

lemma pool_acquire_Some:
  assumes inv: "pool_inv p" and acq: "pool_acquire p = Some (h, p')"
  shows "pool_inv p'" and "handle_valid h" and "bh_index h \<notin> leased p"
    and "bh_index h < pool_capacity p"
    and "leased p' = insert (bh_index h) (leased p)" and "buffers p' = buffers p"
proof -
  let ?i = "last (available_indices p)" and ?n = "length (in_use p)"
  from acq have ne: "available_indices p \<noteq> []"
    and h: "h = \<lparr>bh_pool = True, bh_index = ?i\<rparr>"
    and p': "p' = p\<lparr>available_indices := butlast (available_indices p),
        in_use := (in_use p)[?i := 1],
        inflight_metric := map_option gauge_increment (inflight_metric p)\<rparr>"
    by (auto simp: pool_acquire_def take_available_locked_def Let_def split: if_splits)
  have "?i \<in> set (available_indices p)" using ne by simp
  then have i: "?i < ?n" "in_use p ! ?i = 0" using inv by (auto simp: pool_inv_def)
  show "handle_valid h" by (simp add: h handle_valid_def)
  show nl: "bh_index h \<notin> leased p" using i by (simp add: h leased_def)
  show "bh_index h < pool_capacity p" using i inv by (simp add: h pool_inv_def)
  have "leased p' = leased (p\<lparr>in_use := (in_use p)[?i := 1]\<rparr>)"
    by (simp add: p' leased_def)
  then show l: "leased p' = insert (bh_index h) (leased p)"
    using leased_set_flag [OF i(1)] by (simp add: h)
  show b: "buffers p' = buffers p" by (simp add: p')
  have split: "available_indices p = butlast (available_indices p) @ [?i]" using ne by simp
  have dist: "distinct (butlast (available_indices p) @ [?i])"
    using inv split by (simp add: pool_inv_def)
  have set: "set (butlast (available_indices p)) = set (available_indices p) - {?i}"
    using dist by (subst (2) split) auto
  have avail: "set (available_indices p') = {j. j < length (in_use p') \<and> in_use p' ! j = 0}"
    using inv i by (auto simp: p' set pool_inv_def nth_list_update)
  have metric: "pool_metric_ok p'"
  proof (cases "inflight_metric p")
    case None
    then show ?thesis by (simp add: pool_metric_ok_def p')
  next
    case (Some g)
    with inv obtain m where m: "m \<le> pool_capacity p" "gauge_counts (card (leased p)) m g"
      by (auto simp: pool_inv_def pool_metric_ok_def)
    have "0 < pool_available p" using ne by (simp add: pool_available_def)
    then have le: "card (leased p) + 1 \<le> pool_capacity p"
      using pool_inv_partition(3) [OF inv] by simp
    have "card (leased p') = card (leased p) + 1" using l nl by simp
    moreover have "gauge_counts (card (leased p) + 1) (max (card (leased p) + 1) m)
        (gauge_increment g)"
      using m(2) by (rule gauge_counts_increment) (use le inv in \<open>simp add: pool_inv_def\<close>)
    moreover have "max (card (leased p) + 1) m \<le> pool_capacity p'"
      using le m(1) b by (simp add: pool_capacity_def)
    moreover have "inflight_metric p' = Some (gauge_increment g)" using Some by (simp add: p')
    ultimately show ?thesis
      using pool_metric_okI [of p' "gauge_increment g" "max (card (leased p) + 1) m"] by simp
  qed
  show "pool_inv p'"
    using inv avail metric dist i
    by (auto simp: pool_inv_def p' pool_capacity_def nth_list_update)
qed

lemma pool_acquire_None: "pool_inv p \<Longrightarrow> pool_acquire p = None \<longleftrightarrow> card (leased p) = pool_capacity p"
  using pool_inv_partition(3) [of p] by (auto simp: pool_acquire_def pool_available_def)

lemma pool_release_inv:
  assumes inv: "pool_inv p" and i: "i \<in> leased p"
  shows "pool_inv (pool_release i p)" and "leased (pool_release i p) = leased p - {i}"
proof -
  let ?p = "pool_release i p"
  have lt: "i < length (in_use p)" "in_use p ! i = 1" using i by (auto simp: leased_def)
  have "leased ?p = leased (p\<lparr>in_use := (in_use p)[i := 0]\<rparr>)"
    by (simp add: pool_release_def leased_def)
  then show l: "leased ?p = leased p - {i}" using leased_clear_flag [OF lt(1)] by simp
  have metric: "pool_metric_ok ?p"
  proof (cases "inflight_metric p")
    case None
    then show ?thesis by (simp add: pool_metric_ok_def pool_release_def)
  next
    case (Some g)
    with inv obtain m where m: "m \<le> pool_capacity p" "gauge_counts (card (leased p)) m g"
      by (auto simp: pool_inv_def pool_metric_ok_def)
    have "card (leased p) = card (leased ?p) + 1"
      using card_Suc_Diff1 [OF finite_leased i] unfolding l by simp
    with m(2) have "gauge_counts (card (leased ?p)) m (gauge_decrement g)"
      by (simp add: gauge_counts_decrement)
    with m(1) Some show ?thesis
      by (auto simp: pool_metric_ok_def pool_release_def pool_capacity_def)
  qed
  have "i \<notin> set (available_indices p)" using pool_inv_partition(2) [OF inv] i by blast
  moreover have "set (available_indices ?p) = {j. j < length (in_use ?p) \<and> in_use ?p ! j = 0}"
    using inv lt by (auto simp: pool_release_def pool_inv_def nth_list_update)
  ultimately show "pool_inv ?p"
    using inv metric lt
    by (auto simp: pool_inv_def pool_release_def pool_capacity_def nth_list_update)
qed

lemma pool_release_sel [simp]: "buffers (pool_release i p) = buffers p"
  by (simp add: pool_release_def)

lemma handle_store_sel [simp]:
  "in_use (handle_store h bs p) = in_use p"
  "available_indices (handle_store h bs p) = available_indices p"
  "inflight_metric (handle_store h bs p) = inflight_metric p"
  "length (buffers (handle_store h bs p)) = length (buffers p)"
  by (cases "handle_valid h"; simp add: handle_store_def Let_def)+

lemma handle_store_leased [simp]: "leased (handle_store h bs p) = leased p"
  by (simp add: leased_def)

lemma handle_store_capacity [simp]: "pool_capacity (handle_store h bs p) = pool_capacity p"
  by (simp add: pool_capacity_def)

lemma handle_store_inv [simp]: "pool_inv (handle_store h bs p) = pool_inv p"
  by (cases "inflight_metric p"; simp add: pool_inv_def pool_metric_ok_def)

lemma pool_release_capacity [simp]: "pool_capacity (pool_release i p) = pool_capacity p"
  by (simp add: pool_capacity_def)

subsection \<open>The constructor\<close>

lemma build_buffers_wf:
  assumes "memalign_contract al"
  shows "build_buffers al n size_arg a m = (Inr bs, m') \<Longrightarrow>
     length bs = n \<and> (\<forall>b \<in> set bs. buffer_wf b \<and> ab_size b = size_arg \<and> ab_alignment b = a)"
proof (induction n arbitrary: m bs m')
  case 0
  then show ?case by simp
next
  case (Suc n)
  from Suc.prems obtain b m1 bs' m2 where b: "aligned_buffer_new al size_arg a m = (Inr b, m1)"
    and rest: "build_buffers al n size_arg a m1 = (Inr bs', m2)" and bs: "bs = b # bs'"
    by (auto split: prod.splits sum.splits)
  from aligned_buffer_new_wf [OF assms b] Suc.IH [OF rest] show ?case by (auto simp: bs)
qed

lemma pool_new_Inr:
  assumes "memalign_contract al" and "pool_new al c m = (Inr p, m')"
  shows "config_ok c" and "pool_inv p" and "pool_capacity p = unat (max_inflight_buffers c)"
    and "leased p = {}" and "inflight_metric p = None"
    and "\<forall>b \<in> set (buffers p). buffer_wf b \<and> ab_size b = block_size c \<and>
           ab_alignment b = buffer_alignment c"
    and "available_indices p = rev [0..<pool_capacity p]"
proof -
  let ?n = "unat (max_inflight_buffers c)"
  from assms(2) obtain bs where v: "validate c = Inr ()"
    and build: "build_buffers al ?n (block_size c) (buffer_alignment c) m = (Inr bs, m')"
    and p: "p = \<lparr>buffers = bs, available_indices = map (\<lambda>index. index - 1) (rev [1..<?n + 1]),
                 in_use = replicate ?n 0, inflight_metric = None\<rparr>"
    by (auto simp: pool_new_def Let_def split: sum.splits prod.splits)
  show ok: "config_ok c" using v by (simp add: validate_iff)
  note bs = build_buffers_wf [OF assms(1) build]
  show cap: "pool_capacity p = ?n" using bs by (simp add: p pool_capacity_def)
  show "leased p = {}" by (auto simp: p leased_def)
  show "inflight_metric p = None" by (simp add: p)
  show "\<forall>b \<in> set (buffers p). buffer_wf b \<and> ab_size b = block_size c \<and>
           ab_alignment b = buffer_alignment c"
    using bs by (simp add: p)
  have "map (\<lambda>index. index - 1) [1..<?n + 1] = [0..<?n]"
    by (rule nth_equalityI) (simp_all del: upt_Suc)
  then have av: "available_indices p = rev [0..<?n]" by (simp add: p flip: rev_map)
  then show "available_indices p = rev [0..<pool_capacity p]" by (simp add: cap)
  obtain k where k: "unat (buffer_alignment c) = 2 ^ k" "3 \<le> k"
    using ok by (auto simp: config_ok_def)
  then have "(2::nat) ^ 3 \<le> unat (buffer_alignment c)"
    using power_increasing [of 3 k "2::nat"] by simp
  moreover have "unat (buffer_alignment c) \<le> unat (block_size c)"
    using ok by (auto simp: config_ok_def intro: dvd_imp_le)
  ultimately have "8 \<le> unat (block_size c)" by simp
  then have "8 * ?n \<le> unat (block_size c) * ?n" by (rule mult_le_mono1)
  also have "\<dots> < 2 ^ 64" using ok by (simp add: config_ok_def)
  finally have "?n < 2 ^ 62" by simp
  then show "pool_inv p"
    using cap av by (auto simp: pool_inv_def pool_metric_ok_def p)
qed

lemma pool_new_observed_Inr:
  assumes "memalign_contract al" and "pool_new_observed al c g m = (Inr p, m')"
  shows "config_ok c" and "pool_inv p" and "pool_capacity p = unat (max_inflight_buffers c)"
    and "leased p = {}" and "inflight_metric p = Some g" and "g = gauge_new"
    and "\<forall>b \<in> set (buffers p). buffer_wf b \<and> ab_size b = block_size c \<and>
           ab_alignment b = buffer_alignment c"
    and "available_indices p = rev [0..<pool_capacity p]"
proof -
  from assms(2) obtain q where q: "pool_new al c m = (Inr q, m')"
    and p: "p = q\<lparr>inflight_metric := Some g\<rparr>"
    and g: "gauge_value g = 0" "gauge_high g = 0"
    by (auto simp: pool_new_observed_def split: sum.splits prod.splits if_splits)
  note facts = pool_new_Inr [OF assms(1) q]
  show gn: "g = gauge_new" using g by (simp add: gauge_new_def)
  show "config_ok c" by (rule facts)
  show cap: "pool_capacity p = unat (max_inflight_buffers c)"
    using facts(3) by (simp add: p pool_capacity_def)
  show l: "leased p = {}" using facts(4) by (simp add: p leased_def)
  show "inflight_metric p = Some g" by (simp add: p)
  show "\<forall>b \<in> set (buffers p). buffer_wf b \<and> ab_size b = block_size c \<and>
           ab_alignment b = buffer_alignment c" using facts(6) by (simp add: p)
  show "available_indices p = rev [0..<pool_capacity p]"
    using facts(7) by (simp add: p pool_capacity_def)
  have "pool_metric_ok p"
    by (rule pool_metric_okI [of _ g 0]) (simp_all add: l, simp_all add: p gn gauge_counts_new)
  then show "pool_inv p" using facts(2) by (simp add: pool_inv_def p pool_capacity_def)
qed

section \<open>The lease interface\<close>

text \<open>
  What the pool promises to its users: a new lease is fresh, a released one is free again, and an
  acquisition waits only while every buffer is leased. A schedule interleaves the acquisitions
  and releases of several owners, each releasing only what it holds.
\<close>

datatype lease_op =
    Lease_acquire nat
  | Lease_release nat nat

fun lease_step ::
  "('s \<Rightarrow> (nat \<times> 's) option) \<Rightarrow> (nat \<Rightarrow> 's \<Rightarrow> 's) \<Rightarrow> lease_op \<Rightarrow>
     's \<times> (nat \<Rightarrow> nat set) \<Rightarrow> ('s \<times> (nat \<Rightarrow> nat set)) option" where
  "lease_step acq rel (Lease_acquire k) (s, held) =
     (case acq s of None \<Rightarrow> None | Some (i, s') \<Rightarrow> Some (s', held(k := insert i (held k))))"
| "lease_step acq rel (Lease_release k i) (s, held) =
     (if i \<in> held k then Some (rel i s, held(k := held k - {i})) else None)"

fun lease_run ::
  "('s \<Rightarrow> (nat \<times> 's) option) \<Rightarrow> (nat \<Rightarrow> 's \<Rightarrow> 's) \<Rightarrow> lease_op list \<Rightarrow>
     's \<times> (nat \<Rightarrow> nat set) \<Rightarrow> ('s \<times> (nat \<Rightarrow> nat set)) option" where
  "lease_run acq rel [] c = Some c"
| "lease_run acq rel (op # ops) c =
     (case lease_step acq rel op c of None \<Rightarrow> None | Some c' \<Rightarrow> lease_run acq rel ops c')"

locale lease_pool =
  fixes acq :: "'s \<Rightarrow> (nat \<times> 's) option"
    and rel :: "nat \<Rightarrow> 's \<Rightarrow> 's"
    and leases :: "'s \<Rightarrow> nat set"
    and cap :: "'s \<Rightarrow> nat"
    and ok :: "'s \<Rightarrow> bool"
  assumes acq_fresh: "ok s \<Longrightarrow> acq s = Some (i, s') \<Longrightarrow>
      ok s' \<and> i \<notin> leases s \<and> leases s' = insert i (leases s) \<and> cap s' = cap s"
    and acq_waits: "ok s \<Longrightarrow> acq s = None \<longleftrightarrow> card (leases s) = cap s"
    and rel_frees: "ok s \<Longrightarrow> i \<in> leases s \<Longrightarrow>
      ok (rel i s) \<and> leases (rel i s) = leases s - {i} \<and> cap (rel i s) = cap s"
    and leases_bounded: "ok s \<Longrightarrow> finite (leases s) \<and> card (leases s) \<le> cap s"
begin

definition owners_ok :: "'s \<times> (nat \<Rightarrow> nat set) \<Rightarrow> bool" where
  "owners_ok c \<longleftrightarrow> (case c of (s, held) \<Rightarrow>
     ok s \<and> (\<Union>k. held k) = leases s \<and> (\<forall>j k. j \<noteq> k \<longrightarrow> held j \<inter> held k = {}))"

lemma step_owners_ok:
  assumes "owners_ok c" and "lease_step acq rel op c = Some c'"
  shows "owners_ok c' \<and> cap (fst c') = cap (fst c)"
proof -
  obtain s held where c: "c = (s, held)" by (cases c)
  from assms(1) have s: "ok s" and u: "(\<Union>k. held k) = leases s"
    and d: "\<And>j k. j \<noteq> k \<Longrightarrow> held j \<inter> held k = {}"
    by (auto simp: owners_ok_def c)
  show ?thesis
  proof (cases op)
    case (Lease_acquire k)
    with assms(2) obtain i s' where a: "acq s = Some (i, s')"
      and c': "c' = (s', held(k := insert i (held k)))"
      by (auto simp: c split: option.splits)
    note f = acq_fresh [OF s a]
    have "(\<Union>j. (held(k := insert i (held k))) j) = insert i (\<Union>j. held j)"
      by (auto split: if_splits)
    moreover have "i \<notin> held j" for j using f u by blast
    ultimately show ?thesis using f u d by (auto simp: owners_ok_def c c')
  next
    case (Lease_release k i)
    with assms(2) have i: "i \<in> held k" and c': "c' = (rel i s, held(k := held k - {i}))"
      by (auto simp: c split: if_splits)
    have "i \<in> leases s" using i u by blast
    note f = rel_frees [OF s this]
    have "i \<notin> held j" if "j \<noteq> k" for j using d [OF that] i by blast
    then have eq: "(held(k := held k - {i})) j = held j - {i}" for j by (cases "j = k") auto
    then have "(\<Union>j. (held(k := held k - {i})) j) = leases (rel i s)"
      unfolding eq using f u by auto
    moreover have "(held(k := held k - {i})) a \<inter> (held(k := held k - {i})) b = {}" if "a \<noteq> b" for a b
      unfolding eq using d [OF that] by blast
    ultimately show ?thesis using f unfolding owners_ok_def c c' by simp
  qed
qed

lemma run_owners_ok:
  "owners_ok c \<Longrightarrow> lease_run acq rel ops c = Some c' \<Longrightarrow> owners_ok c' \<and> cap (fst c') = cap (fst c)"
proof (induction ops arbitrary: c)
  case Nil
  then show ?case by simp
next
  case (Cons op ops)
  then obtain c1 where "lease_step acq rel op c = Some c1" "lease_run acq rel ops c1 = Some c'"
    by (auto split: option.splits)
  with step_owners_ok [OF Cons.prems(1)] Cons.IH show ?case by metis
qed

lemma exclusive:
  assumes "ok s" and "leases s = {}"
    and "lease_run acq rel ops (s, \<lambda>_. {}) = Some (s', held)"
  shows "(\<forall>j k. j \<noteq> k \<longrightarrow> held j \<inter> held k = {}) \<and> (\<Union>k. held k) = leases s' \<and>
         card (leases s') \<le> cap s \<and> (acq s' = None \<longleftrightarrow> card (leases s') = cap s)"
proof -
  have "owners_ok (s, \<lambda>_. {})" using assms(1,2) by (simp add: owners_ok_def)
  note run = run_owners_ok [OF this assms(3)]
  then have "ok s'" and cap: "cap s' = cap s" by (simp_all add: owners_ok_def)
  from acq_waits [OF \<open>ok s'\<close>] leases_bounded [OF \<open>ok s'\<close>] run show ?thesis
    by (simp add: owners_ok_def cap)
qed

end

definition acquire_index :: "buffer_pool \<Rightarrow> (nat \<times> buffer_pool) option" where
  "acquire_index p = (case pool_acquire p of None \<Rightarrow> None | Some (h, p') \<Rightarrow> Some (bh_index h, p'))"

interpretation bp: lease_pool acquire_index pool_release leased pool_capacity pool_inv
proof unfold_locales
  fix p i p'
  assume inv: "pool_inv p" and "acquire_index p = Some (i, p')"
  then obtain h where h: "pool_acquire p = Some (h, p')" "i = bh_index h"
    by (auto simp: acquire_index_def split: option.splits)
  show "pool_inv p' \<and> i \<notin> leased p \<and> leased p' = insert i (leased p) \<and>
        pool_capacity p' = pool_capacity p"
    using pool_acquire_Some [OF inv h(1)] h(2) by (simp add: pool_capacity_def)
next
  fix p :: buffer_pool
  assume "pool_inv p"
  then show "acquire_index p = None \<longleftrightarrow> card (leased p) = pool_capacity p"
    using pool_acquire_None [of p] by (auto simp: acquire_index_def split: option.splits)
qed (simp_all add: pool_release_inv leased_card_le)

section \<open>Properties\<close>

text \<open>
  C37: The buffers are leased exclusively and in bounded number. Take a pool that its constructor
  built for a configuration, and any interleaving of acquisitions and releases by any number of
  owners, each releasing only its own handles. Then no buffer is held by two owners, the held
  buffers are exactly those the pool has marked, there are never more than
  \<open>max_inflight_buffers\<close> of them, and the next \<open>acquire\<close> waits exactly when all are leased.
\<close>

theorem pool_leases_exclusive:
  assumes "memalign_contract al" and "pool_new_observed al config gauge_new m = (Inr p, m')"
    and "lease_run acquire_index pool_release ops (p, \<lambda>_. {}) = Some (p', held)"
  shows "(\<forall>j k. j \<noteq> k \<longrightarrow> held j \<inter> held k = {}) \<and> (\<Union>k. held k) = leased p' \<and>
         card (leased p') \<le> unat (max_inflight_buffers config) \<and>
         (pool_acquire p' = None \<longleftrightarrow> card (leased p') = unat (max_inflight_buffers config))"
proof -
  note n = pool_new_observed_Inr [OF assms(1,2)]
  have "acquire_index p' = None \<longleftrightarrow> pool_acquire p' = None"
    by (auto simp: acquire_index_def split: option.splits)
  with bp.exclusive [OF n(2,4) assms(3)] n(3) show ?thesis by simp
qed

text \<open>An allocator that hands out fresh zeroed memory at multiples of the alignment.\<close>

definition bump_allocator :: "nat allocator" where
  "bump_allocator = \<lparr>memalign = (\<lambda>al n m. if al = 0 then ((EINVAL, 0, []), m)
                        else ((0, unat al * (m + 1), replicate (unat n) 0), m + 1)),
                     free_memory = (\<lambda>a m. m)\<rparr>"

definition small_config :: pipeline_config where
  "small_config = \<lparr>block_size = 8, max_inflight_buffers = 2, queue_depth = 1, buffer_alignment = 8\<rparr>"

lemma bump_allocator_contract: "memalign_contract bump_allocator"
  by (auto simp: memalign_contract_def bump_allocator_def unat_gt_0 split: if_splits)

definition small_pool :: buffer_pool where
  "small_pool = \<lparr>buffers = map (\<lambda>i. \<lparr>ab_data = 8 * i, ab_bytes = replicate 8 0, ab_size = 8,
                    ab_alignment = 8\<rparr>) [1, 2],
     available_indices = [1, 0], in_use = [0, 0], inflight_metric = Some gauge_new\<rparr>"

lemma small_pool_new: "pool_new_observed bump_allocator small_config gauge_new 0 = (Inr small_pool, 2)"
  by code_simp

theorem pool_leases_exclusive_witness:
  "\<exists>p' held. lease_run acquire_index pool_release [Lease_acquire 0, Lease_acquire 1, Lease_release 0 0]
       (small_pool, \<lambda>_. {}) = Some (p', held) \<and> held 0 \<inter> held 1 = {} \<and> card (leased p') \<le> 2"
proof -
  let ?ops = "[Lease_acquire 0, Lease_acquire 1, Lease_release 0 0]"
  obtain p' held where run: "lease_run acquire_index pool_release ?ops (small_pool, \<lambda>_. {}) = Some (p', held)"
    by (simp add: acquire_index_def pool_acquire_def take_available_locked_def small_pool_def Let_def)
  from pool_leases_exclusive [OF bump_allocator_contract small_pool_new run] run show ?thesis
    by (auto simp: small_config_def)
qed

end
