(* ===== verification/Work_Item.thy ===== *)
theory Work_Item
  imports Buffer_Pool
begin

text \<open>
  \<open>BlockWorkItem\<close> (\<open>include/pipeline/block_work_item.h\<close>, \<open>src/pipeline/block_work_item.cpp\<close>): one
  exclusive buffer lease with the block's index, file offset and number of valid bytes. A
  constructor that throws destroys the handle it was given, and so returns the lease.
\<close>

section \<open>Operations\<close>

record block_work_item =
  wi_block_index :: u64
  wi_file_offset :: u64
  wi_valid_bytes :: size_t
  wi_buffer :: buffer_handle

definition work_item_new ::
  "u64 \<Rightarrow> u64 \<Rightarrow> size_t \<Rightarrow> buffer_handle \<Rightarrow> buffer_pool \<Rightarrow> block_work_item res \<times> buffer_pool" where
  "work_item_new block_index file_offset valid_bytes h p =
     (if \<not> handle_valid h then
        (Inl (Invalid_argument ''BlockWorkItem requires a valid BufferHandle''), handle_destroy h p)
      else if valid_bytes = 0 then
        (Inl (Invalid_argument ''BlockWorkItem valid_bytes must be greater than zero''),
         handle_destroy h p)
      else if handle_size h p < valid_bytes then
        (Inl (Invalid_argument ''BlockWorkItem valid_bytes exceeds buffer capacity''),
         handle_destroy h p)
      else
        (Inr \<lparr>wi_block_index = block_index, wi_file_offset = file_offset,
              wi_valid_bytes = valid_bytes, wi_buffer = h\<rparr>, p))"

definition null_work_item :: block_work_item where
  "null_work_item = \<lparr>wi_block_index = 0, wi_file_offset = 0, wi_valid_bytes = 0,
                     wi_buffer = null_handle\<rparr>"

definition work_item_move_construct :: "block_work_item \<Rightarrow> block_work_item \<times> block_work_item" where
  "work_item_move_construct other =
     (case handle_move_construct (wi_buffer other) of (h, h') \<Rightarrow>
        (other\<lparr>wi_buffer := h\<rparr>, null_work_item\<lparr>wi_buffer := h'\<rparr>))"

definition work_item_move_assign ::
  "bool \<Rightarrow> block_work_item \<Rightarrow> block_work_item \<Rightarrow> buffer_pool \<Rightarrow>
     (block_work_item \<times> block_work_item) \<times> buffer_pool" where
  "work_item_move_assign same item other p =
     (if same then ((item, other), p)
      else case handle_move_assign False (wi_buffer item) (wi_buffer other) p of ((h, h'), p') \<Rightarrow>
        ((other\<lparr>wi_buffer := h\<rparr>, null_work_item\<lparr>wi_buffer := h'\<rparr>), p'))"

definition work_item_destroy :: "block_work_item \<Rightarrow> buffer_pool \<Rightarrow> buffer_pool" where
  "work_item_destroy item p = handle_destroy (wi_buffer item) p"

definition work_item_valid :: "block_work_item \<Rightarrow> bool" where
  "work_item_valid item \<longleftrightarrow> handle_valid (wi_buffer item)"

definition work_item_capacity :: "block_work_item \<Rightarrow> buffer_pool \<Rightarrow> size_t" where
  "work_item_capacity item p = handle_size (wi_buffer item) p"

definition valid_data :: "block_work_item \<Rightarrow> buffer_pool \<Rightarrow> byte list" where
  "valid_data item p = take (unat (wi_valid_bytes item)) (handle_bytes (wi_buffer item) p)"

text \<open>Stores through the mutable span: only the first \<open>valid_bytes\<close> bytes can be reached.\<close>

definition store_valid_data :: "block_work_item \<Rightarrow> byte list \<Rightarrow> buffer_pool \<Rightarrow> buffer_pool" where
  "store_valid_data item bs p =
     handle_store (wi_buffer item) (take (unat (wi_valid_bytes item)) bs) p"

section \<open>Lemmas\<close>

definition pool_buffers_ok :: "buffer_pool \<Rightarrow> bool" where
  "pool_buffers_ok p \<longleftrightarrow> (\<forall>b \<in> set (buffers p). buffer_wf b)"

definition work_item_ok :: "block_work_item \<Rightarrow> buffer_pool \<Rightarrow> bool" where
  "work_item_ok item p \<longleftrightarrow>
     handle_valid (wi_buffer item) \<and> bh_index (wi_buffer item) < pool_capacity p \<and>
     0 < unat (wi_valid_bytes item) \<and>
     unat (wi_valid_bytes item) \<le> unat (handle_size (wi_buffer item) p)"

lemma work_item_new_Inr:
  assumes "work_item_new i off n h p = (Inr item, p')"
  shows "p' = p" and "item = \<lparr>wi_block_index = i, wi_file_offset = off, wi_valid_bytes = n, wi_buffer = h\<rparr>"
    and "handle_valid h" and "0 < unat n" and "unat n \<le> unat (handle_size h p)"
  using assms by (auto simp: work_item_new_def unat_gt_0 word_less_nat_alt split: if_splits)

lemma work_item_new_Inl:
  "work_item_new i off n h p = (Inl e, p') \<Longrightarrow> p' = handle_destroy h p"
  by (auto simp: work_item_new_def split: if_splits)

lemma work_item_new_ok:
  "handle_valid h \<Longrightarrow> 0 < unat n \<Longrightarrow> unat n \<le> unat (handle_size h p) \<Longrightarrow>
   work_item_new i off n h p =
     (Inr \<lparr>wi_block_index = i, wi_file_offset = off, wi_valid_bytes = n, wi_buffer = h\<rparr>, p)"
  by (auto simp: work_item_new_def word_less_nat_alt unat_gt_0)

lemma handle_bytes_length:
  "pool_buffers_ok p \<Longrightarrow> bh_index h < pool_capacity p \<Longrightarrow>
   length (handle_bytes h p) = unat (handle_size h p)"
  by (auto simp: handle_bytes_def handle_size_def pool_buffers_ok_def buffer_at_def buffer_wf_def
      pool_capacity_def)

lemma length_valid_data:
  "pool_buffers_ok p \<Longrightarrow> work_item_ok item p \<Longrightarrow> length (valid_data item p) = unat (wi_valid_bytes item)"
  using handle_bytes_length [of p "wi_buffer item"] by (simp add: valid_data_def work_item_ok_def)

lemma handle_size_store [simp]:
  "handle_size h (handle_store h' bs p) = handle_size h p"
proof (cases "handle_valid h' \<and> bh_index h' < length (buffers p)")
  case True
  then show ?thesis
    by (cases "bh_index h = bh_index h'")
      (auto simp: handle_size_def handle_store_def buffer_at_def Let_def)
next
  case False
  then show ?thesis
    by (auto simp: handle_size_def handle_store_def buffer_at_def Let_def list_update_beyond)
qed

lemma handle_bytes_store_same:
  "handle_valid h \<Longrightarrow> bh_index h < pool_capacity p \<Longrightarrow>
   handle_bytes h (handle_store h bs p) = store_prefix bs (handle_bytes h p)"
  by (simp add: handle_bytes_def handle_store_def Let_def buffer_at_def pool_capacity_def)

lemma handle_bytes_store_other:
  "bh_index h \<noteq> bh_index h' \<Longrightarrow> handle_bytes h (handle_store h' bs p) = handle_bytes h p"
  by (simp add: handle_bytes_def handle_store_def Let_def buffer_at_def)

lemma pool_buffers_ok_store [intro]:
  assumes "pool_buffers_ok p"
  shows "pool_buffers_ok (handle_store h bs p)"
proof (cases "handle_valid h \<and> bh_index h < length (buffers p)")
  case True
  then have "buffer_wf (buffers p ! bh_index h)" using assms by (simp add: pool_buffers_ok_def)
  with True assms show ?thesis
    using set_update_subset_insert [of "buffers p" "bh_index h"]
    by (fastforce simp: pool_buffers_ok_def handle_store_def Let_def buffer_at_def buffer_wf_def)
next
  case False
  with assms show ?thesis
    by (auto simp: pool_buffers_ok_def handle_store_def Let_def list_update_beyond)
qed

lemma work_item_ok_store [simp]: "work_item_ok item (handle_store h bs p) = work_item_ok item p"
  by (simp add: work_item_ok_def)

lemma valid_data_store_same:
  assumes "pool_buffers_ok p" and "work_item_ok item p" and "length bs = unat (wi_valid_bytes item)"
  shows "valid_data item (store_valid_data item bs p) = bs"
proof -
  have "handle_valid (wi_buffer item)" and "bh_index (wi_buffer item) < pool_capacity p"
    and "length bs \<le> length (handle_bytes (wi_buffer item) p)"
    using assms handle_bytes_length [of p "wi_buffer item"] by (simp_all add: work_item_ok_def)
  then show ?thesis
    using assms(3)
    by (simp add: valid_data_def store_valid_data_def handle_bytes_store_same take_store_prefix)
qed

lemma valid_data_store_other:
  "bh_index (wi_buffer item) \<noteq> bh_index (wi_buffer item') \<Longrightarrow>
   valid_data item (store_valid_data item' bs p) = valid_data item p"
  by (simp add: valid_data_def store_valid_data_def handle_bytes_store_other)

lemma work_item_destroy_ok:
  "work_item_ok item p \<Longrightarrow> work_item_destroy item p = pool_release (bh_index (wi_buffer item)) p"
  by (simp add: work_item_destroy_def handle_destroy_def handle_release_def work_item_ok_def
      handle_valid_def)

lemma work_item_destroy_null [simp]: "work_item_destroy null_work_item p = p"
  by (simp add: work_item_destroy_def handle_destroy_def handle_release_def null_work_item_def
      null_handle_def)

lemma work_item_move_null:
  "work_item_move_construct item = (item, null_work_item)"
  by (simp add: work_item_move_construct_def handle_move_construct_def null_work_item_def)

section \<open>Properties\<close>

text \<open>
  A work item owns its lease from construction to destruction, errors included. Given a
  handle just acquired from the pool: if the constructor accepts, the pool is unchanged, the item
  is well formed (its valid bytes are a non-empty prefix of its buffer, and \<open>valid_data\<close> has
  exactly that length), and destroying it returns the lease; if it rejects, the lease has already
  been returned. Either way the pool's invariant holds at the end and no lease leaks.
\<close>

theorem work_item_owns_lease:
  assumes "pool_inv p" and "pool_buffers_ok p" and "pool_acquire p = Some (h, q)"
    and "work_item_new i off n h q = (r, q')"
  shows "(case r of
            Inl _ \<Rightarrow> (n = 0 \<or> handle_size h q < n) \<and> pool_inv q' \<and> leased q' = leased p
          | Inr item \<Rightarrow>
              q' = q \<and> work_item_ok item q \<and> length (valid_data item q) = unat n \<and>
              pool_inv (work_item_destroy item q) \<and> leased (work_item_destroy item q) = leased p)"
proof -
  note a = pool_acquire_Some [OF assms(1,3)]
  have rel: "pool_inv (pool_release (bh_index h) q) \<and> leased (pool_release (bh_index h) q) = leased p"
    using pool_release_inv [OF a(1), of "bh_index h"] a(3,5) by simp
  have dest: "handle_destroy h q = pool_release (bh_index h) q"
    using a(2) by (simp add: handle_destroy_def handle_release_def handle_valid_def)
  show ?thesis
  proof (cases r)
    case (Inl e)
    with assms(4) a(2) have "n = 0 \<or> handle_size h q < n"
      by (auto simp: work_item_new_def split: if_splits)
    with Inl work_item_new_Inl [OF assms(4) [unfolded Inl]] rel dest show ?thesis by simp
  next
    case (Inr item)
    note w = work_item_new_Inr [OF assms(4) [unfolded Inr]]
    have ok: "work_item_ok item q"
      using w a(2,4,6) by (simp add: work_item_ok_def pool_capacity_def)
    have "pool_buffers_ok q" using assms(2) a(6) by (simp add: pool_buffers_ok_def)
    with Inr w ok rel work_item_destroy_ok [OF ok] length_valid_data [OF _ ok] show ?thesis by simp
  qed
qed

theorem work_item_owns_lease_witness:
  "case work_item_new 0 0 5 \<lparr>bh_pool = True, bh_index = 0\<rparr>
          (snd (the (pool_acquire small_pool))) of
     (Inr item, q) \<Rightarrow> leased (work_item_destroy item q) = leased small_pool
   | (Inl _, _) \<Rightarrow> False"
proof -
  let ?q = "snd (the (pool_acquire small_pool))" and ?h = "\<lparr>bh_pool = True, bh_index = 0\<rparr>"
  let ?item = "\<lparr>wi_block_index = 0, wi_file_offset = 0, wi_valid_bytes = 5, wi_buffer = ?h\<rparr>"
  have inv: "pool_inv small_pool"
    by (rule pool_new_observed_Inr(2) [OF bump_allocator_contract small_pool_new])
  have bufs: "pool_buffers_ok small_pool"
    using pool_new_observed_Inr(7) [OF bump_allocator_contract small_pool_new]
    by (simp add: pool_buffers_ok_def)
  have acq: "pool_acquire small_pool = Some (?h, ?q)"
    by (simp add: pool_acquire_def take_available_locked_def small_pool_def Let_def)
  have new: "work_item_new 0 0 5 ?h ?q = (Inr ?item, ?q)" by code_simp
  from work_item_owns_lease [OF inv bufs acq new] show ?thesis unfolding new by simp
qed

end
