(* ===== verification/Spsc_Queue.thy ===== *)
theory Spsc_Queue
  imports Metrics
begin

text \<open>
  \<open>SPSCQueue<T>\<close> of \<open>include/pipeline/spsc_queue.h\<close>: a bounded ring buffer with normal close and
  failure. Each critical section of its mutex is one operation. \<open>push\<close> and \<open>pop\<close> wait on a
  condition variable: the model's result is then \<open>Push_waits\<close> or \<open>Pop_waits\<close>, and the queue does
  not change. The queue's \<open>assert\<close>s are facts of its invariant. Values that a failure discards are
  returned, in slot order, to the model's caller, who destroys them; likewise a value that \<open>push\<close>
  does not take is destroyed by the caller of the model.
\<close>

section \<open>State and operations\<close>

datatype queue_state = Queue_open | Queue_closed | Queue_failed

record 'a spsc_queue =
  q_slots :: "'a option list"
  q_head :: nat
  q_tail :: nat
  q_size :: nat
  q_state :: queue_state
  q_failure :: "exn option"
  q_depth_metric :: "gauge option"

datatype push_result = Push_waits | Push_throws exn | Push_rejected | Push_ok

datatype 'a pop_result = Pop_waits | Pop_throws exn | Pop_end | Pop_value 'a

text \<open>
  \<open>std::vector\<close> refuses a size above \<open>max_size()\<close>, which is \<open>PTRDIFF_MAX / sizeof(slot)\<close>. Indices
  then stay below \<open>2 ^ 63\<close>, so natural numbers represent them and \<open>index + 1\<close> does not wrap.
\<close>

definition spsc_new :: "nat \<Rightarrow> size_t \<Rightarrow> 'a spsc_queue res" where
  "spsc_new sizeof_slot capacity =
     (if (2 ^ 63 - 1) div sizeof_slot < unat capacity then
        Inl (Length_error ''cannot create std::vector larger than max_size()'')
      else if capacity = 0 then
        Inl (Invalid_argument ''SPSCQueue capacity must be greater than zero'')
      else Inr \<lparr>q_slots = replicate (unat capacity) None, q_head = 0, q_tail = 0, q_size = 0,
                q_state = Queue_open, q_failure = None, q_depth_metric = None\<rparr>)"

definition spsc_new_observed :: "nat \<Rightarrow> size_t \<Rightarrow> gauge \<Rightarrow> 'a spsc_queue res" where
  "spsc_new_observed sizeof_slot capacity depth =
     (case spsc_new sizeof_slot capacity of
        Inl e \<Rightarrow> Inl e
      | Inr q \<Rightarrow>
          if gauge_value depth \<noteq> 0 \<or> gauge_high depth \<noteq> 0 then
            Inl (Invalid_argument ''SPSCQueue depth Gauge must be dedicated and start at zero'')
          else Inr (q\<lparr>q_depth_metric := Some depth\<rparr>))"

definition spsc_capacity :: "'a spsc_queue \<Rightarrow> nat" where
  "spsc_capacity q = length (q_slots q)"

definition spsc_size :: "'a spsc_queue \<Rightarrow> nat" where
  "spsc_size q = q_size q"

definition spsc_closed :: "'a spsc_queue \<Rightarrow> bool" where
  "spsc_closed q \<longleftrightarrow> q_state q \<noteq> Queue_open"

definition spsc_failed :: "'a spsc_queue \<Rightarrow> bool" where
  "spsc_failed q \<longleftrightarrow> q_state q = Queue_failed"

definition next_index :: "nat \<Rightarrow> 'a spsc_queue \<Rightarrow> nat" where
  "next_index index q = (index + 1) mod length (q_slots q)"

definition spsc_push :: "'a \<Rightarrow> 'a spsc_queue \<Rightarrow> push_result \<times> 'a spsc_queue" where
  "spsc_push value q =
     (if \<not> (q_state q \<noteq> Queue_open \<or> q_size q < length (q_slots q)) then (Push_waits, q)
      else if q_state q = Queue_failed then (Push_throws (the (q_failure q)), q)
      else if q_state q = Queue_closed then (Push_rejected, q)
      else (Push_ok, q\<lparr>q_slots := (q_slots q)[q_tail q := Some value],
                       q_tail := next_index (q_tail q) q,
                       q_size := q_size q + 1,
                       q_depth_metric := map_option gauge_increment (q_depth_metric q)\<rparr>))"

definition spsc_pop :: "'a spsc_queue \<Rightarrow> 'a pop_result \<times> 'a spsc_queue" where
  "spsc_pop q =
     (if \<not> (q_state q \<noteq> Queue_open \<or> 0 < q_size q) then (Pop_waits, q)
      else if q_state q = Queue_failed then (Pop_throws (the (q_failure q)), q)
      else if q_size q = 0 then (Pop_end, q)
      else (Pop_value (the (q_slots q ! q_head q)),
            q\<lparr>q_slots := (q_slots q)[q_head q := None],
              q_head := next_index (q_head q) q,
              q_size := q_size q - 1,
              q_depth_metric := map_option gauge_decrement (q_depth_metric q)\<rparr>))"

definition spsc_close :: "'a spsc_queue \<Rightarrow> 'a spsc_queue" where
  "spsc_close q = (if q_state q = Queue_open then q\<lparr>q_state := Queue_closed\<rparr> else q)"

definition queued_slots :: "'a spsc_queue \<Rightarrow> 'a list" where
  "queued_slots q = concat (map (\<lambda>s. case s of None \<Rightarrow> [] | Some v \<Rightarrow> [v]) (q_slots q))"

definition discard_queued_values_locked :: "'a spsc_queue \<Rightarrow> 'a spsc_queue" where
  "discard_queued_values_locked q =
     q\<lparr>q_slots := map (\<lambda>_. None) (q_slots q), q_head := 0, q_tail := 0, q_size := 0,
       q_depth_metric := map_option (gauge_set 0) (q_depth_metric q)\<rparr>"

definition spsc_fail :: "exn option \<Rightarrow> 'a spsc_queue \<Rightarrow> 'a list res \<times> 'a spsc_queue" where
  "spsc_fail failure q =
     (case failure of
        None \<Rightarrow> (Inl (Invalid_argument ''SPSCQueue failure requires a non-null exception''), q)
      | Some e \<Rightarrow>
          if q_state q = Queue_failed then (Inr [], q)
          else (Inr (queued_slots q),
                discard_queued_values_locked (q\<lparr>q_state := Queue_failed, q_failure := Some e\<rparr>)))"

text \<open>The destructor leaves the borrowed gauge at zero, and destroys what is still queued.\<close>

definition spsc_destroy :: "'a spsc_queue \<Rightarrow> gauge option \<times> 'a list" where
  "spsc_destroy q = (map_option (gauge_set 0) (q_depth_metric q), queued_slots q)"

section \<open>Invariant and abstraction\<close>

definition ring_pos :: "'a spsc_queue \<Rightarrow> nat \<Rightarrow> nat" where
  "ring_pos q i = (q_head q + i) mod length (q_slots q)"

text \<open>The queued values, oldest first.\<close>

definition contents :: "'a spsc_queue \<Rightarrow> 'a list" where
  "contents q = map (\<lambda>i. the (q_slots q ! ring_pos q i)) [0..<q_size q]"

definition queue_metric_ok :: "'a spsc_queue \<Rightarrow> bool" where
  "queue_metric_ok q \<longleftrightarrow>
     (case q_depth_metric q of None \<Rightarrow> True
      | Some g \<Rightarrow> (\<exists>m \<le> spsc_capacity q. gauge_counts (q_size q) m g))"

definition ring_inv :: "'a spsc_queue \<Rightarrow> bool" where
  "ring_inv q \<longleftrightarrow>
     0 < spsc_capacity q \<and> spsc_capacity q < 2 ^ 62 \<and>
     q_head q < spsc_capacity q \<and> q_tail q = ring_pos q (q_size q) \<and>
     q_size q \<le> spsc_capacity q \<and>
     (\<forall>i < spsc_capacity q. q_slots q ! ring_pos q i \<noteq> None \<longleftrightarrow> i < q_size q) \<and>
     (q_state q = Queue_failed \<longleftrightarrow> q_failure q \<noteq> None) \<and>
     (q_state q = Queue_failed \<longrightarrow> q_size q = 0) \<and>
     queue_metric_ok q"

lemma length_contents [simp]: "length (contents q) = q_size q"
  by (simp add: contents_def)

lemma contents_empty_iff: "contents q = [] \<longleftrightarrow> q_size q = 0"
  by (simp add: contents_def)

lemma queue_metric_okI:
  assumes "q_depth_metric q = Some g" and "gauge_counts (q_size q) m g" and "m \<le> spsc_capacity q"
  shows "queue_metric_ok q"
  using assms by (auto simp: queue_metric_ok_def)

lemma queue_metric_okE:
  assumes "queue_metric_ok q" and "q_depth_metric q = Some g"
  obtains m where "m \<le> spsc_capacity q" and "gauge_counts (q_size q) m g"
  using assms by (auto simp: queue_metric_ok_def)

lemma ring_pos_less: "ring_inv q \<Longrightarrow> ring_pos q i < spsc_capacity q"
  by (simp add: ring_inv_def ring_pos_def spsc_capacity_def)

lemma mod_add_inj:
  fixes h i j n :: nat
  assumes "(h + i) mod n = (h + j) mod n" and "i < n" and "j < n"
  shows "i = j"
proof -
  have le: "j = i" if "(h + i) mod n = (h + j) mod n" "i < n" "j < n" "i \<le> j" for i j
  proof -
    have "n dvd (h + j) - (h + i)" using that(1,4) by (metis mod_eq_dvd_iff_nat add_le_cancel_left)
    then have "n dvd j - i" by simp
    moreover have "j - i < n" using that(3) by simp
    ultimately have "\<not> 0 < j - i" using nat_dvd_not_less by blast
    with that(4) show ?thesis by simp
  qed
  show ?thesis
  proof (cases "i \<le> j")
    case True
    with le [OF assms] show ?thesis by simp
  next
    case False
    with le [OF assms(1) [symmetric] assms(3) assms(2)] show ?thesis by simp
  qed
qed

lemma ring_pos_inj:
  "ring_pos q i = ring_pos q j \<Longrightarrow> i < spsc_capacity q \<Longrightarrow> j < spsc_capacity q \<Longrightarrow> i = j"
  unfolding ring_pos_def spsc_capacity_def by (rule mod_add_inj)

lemma ring_pos_wrap: "ring_inv q \<Longrightarrow> ring_pos q (spsc_capacity q) = q_head q"
  by (simp add: ring_inv_def ring_pos_def spsc_capacity_def)

lemma ring_pos_0: "ring_inv q \<Longrightarrow> ring_pos q 0 = q_head q"
  by (simp add: ring_inv_def ring_pos_def spsc_capacity_def)

lemma next_ring_pos: "next_index (ring_pos q i) q = ring_pos q (Suc i)"
  by (simp add: next_index_def ring_pos_def mod_Suc_eq)

lemma ring_head_tail:
  assumes "ring_inv q"
  shows "q_head q = ring_pos q 0" and "q_tail q = ring_pos q (q_size q)"
  using assms ring_pos_0 [OF assms] by (simp_all add: ring_inv_def)

subsection \<open>Push\<close>

lemma spsc_push_cases:
  assumes "ring_inv q"
  shows "spsc_push v q =
    (if q_state q = Queue_failed then (Push_throws (the (q_failure q)), q)
     else if q_state q = Queue_closed then (Push_rejected, q)
     else if q_size q = spsc_capacity q then (Push_waits, q)
     else (Push_ok, snd (spsc_push v q)))"
  using assms by (cases "q_state q") (auto simp: spsc_push_def ring_inv_def spsc_capacity_def)

lemma spsc_push_other:
  "spsc_push v q = (r, q') \<Longrightarrow> r \<noteq> Push_ok \<Longrightarrow> q' = q"
  by (auto simp: spsc_push_def split: if_splits)

lemma spsc_pop_other:
  "spsc_pop q = (r, q') \<Longrightarrow> \<nexists>v. r = Pop_value v \<Longrightarrow> q' = q"
  by (auto simp: spsc_pop_def split: if_splits)

lemma spsc_push_ok:
  assumes inv: "ring_inv q" and push: "spsc_push v q = (Push_ok, q')"
  shows "ring_inv q'" and "contents q' = contents q @ [v]" and "q_state q = Queue_open"
    and "q_state q' = Queue_open" and "q_size q < spsc_capacity q"
    and "spsc_capacity q' = spsc_capacity q" and "q_failure q' = q_failure q"
proof -
  let ?n = "spsc_capacity q"
  from push show st: "q_state q = Queue_open" and st': "q_state q' = Queue_open"
    by (cases "q_state q"; auto simp: spsc_push_def split: if_splits)+
  with push show lt: "q_size q < ?n" by (auto simp: spsc_push_def spsc_capacity_def split: if_splits)
  have q': "q' = q\<lparr>q_slots := (q_slots q)[q_tail q := Some v], q_tail := next_index (q_tail q) q,
      q_size := q_size q + 1, q_depth_metric := map_option gauge_increment (q_depth_metric q)\<rparr>"
    using push st lt by (auto simp: spsc_push_def spsc_capacity_def)
  show cap: "spsc_capacity q' = ?n" by (simp add: q' spsc_capacity_def)
  show "q_failure q' = q_failure q" by (simp add: q')
  have pos: "ring_pos q' i = ring_pos q i" for i by (simp add: q' ring_pos_def)
  note tail = ring_head_tail(2) [OF inv]
  have slot: "q_slots q' ! ring_pos q i = (if i = q_size q then Some v else q_slots q ! ring_pos q i)"
    if "i < ?n" for i
    using ring_pos_less [OF inv] ring_pos_inj [OF _ that lt]
    by (auto simp: q' tail nth_list_update spsc_capacity_def)
  have "q_size q' = Suc (q_size q)" by (simp add: q')
  then have "contents q' = map (\<lambda>i. the (q_slots q' ! ring_pos q i)) [0..<q_size q] @
      [the (q_slots q' ! ring_pos q (q_size q))]"
    by (simp add: contents_def pos)
  also have "\<dots> = contents q @ [v]"
    using lt by (simp add: contents_def slot)
  finally show "contents q' = contents q @ [v]" .
  have metric: "queue_metric_ok q'"
  proof (cases "q_depth_metric q")
    case None
    then show ?thesis by (simp add: queue_metric_ok_def q')
  next
    case (Some g)
    obtain m where m: "m \<le> ?n" "gauge_counts (q_size q) m g"
      using inv Some by (auto simp: ring_inv_def elim: queue_metric_okE)
    have "gauge_counts (q_size q + 1) (max (q_size q + 1) m) (gauge_increment g)"
      using m(2) by (rule gauge_counts_increment) (use lt inv in \<open>simp add: ring_inv_def\<close>)
    moreover have "q_size q' = q_size q + 1" "q_depth_metric q' = Some (gauge_increment g)"
      using Some by (simp_all add: q')
    ultimately show ?thesis
      using lt m(1) cap
      by (intro queue_metric_okI [of q' "gauge_increment g" "max (q_size q + 1) m"]) auto
  qed
  have slots: "\<forall>i < ?n. q_slots q' ! ring_pos q i \<noteq> None \<longleftrightarrow> i < q_size q'"
    using inv slot by (auto simp: ring_inv_def) (auto simp: q')
  have "q_tail q' = ring_pos q' (q_size q')"
    using next_ring_pos [of q "q_size q"] by (simp add: pos tail) (simp add: q' tail)
  then show "ring_inv q'"
    using inv lt slots metric st st' unfolding ring_inv_def cap pos by (simp add: q')
qed

subsection \<open>Pop\<close>

lemma spsc_pop_cases:
  assumes "ring_inv q"
  shows "spsc_pop q =
    (if q_state q = Queue_failed then (Pop_throws (the (q_failure q)), q)
     else case contents q of
       [] \<Rightarrow> (if q_state q = Queue_closed then Pop_end else Pop_waits, q)
     | v # _ \<Rightarrow> (Pop_value v, snd (spsc_pop q)))"
proof (cases "q_size q")
  case 0
  then have "contents q = []" by (simp add: contents_empty_iff)
  with 0 show ?thesis by (cases "q_state q") (auto simp: spsc_pop_def)
next
  case (Suc n)
  then have "contents q = the (q_slots q ! q_head q) # map (\<lambda>i. the (q_slots q ! ring_pos q i)) [1..<Suc n]"
    using ring_pos_0 [OF assms] by (simp add: contents_def upt_rec)
  with Suc show ?thesis by (simp add: spsc_pop_def)
qed

lemma spsc_pop_value:
  assumes inv: "ring_inv q" and pop: "spsc_pop q = (Pop_value v, q')"
  shows "ring_inv q'" and "contents q = v # contents q'" and "q_state q' = q_state q"
    and "q_state q \<noteq> Queue_failed"
    and "spsc_capacity q' = spsc_capacity q" and "q_failure q' = q_failure q"
proof -
  let ?n = "spsc_capacity q"
  from pop have st: "q_state q \<noteq> Queue_failed" and pos0: "0 < q_size q"
    and v: "v = the (q_slots q ! q_head q)"
    and q': "q' = q\<lparr>q_slots := (q_slots q)[q_head q := None], q_head := next_index (q_head q) q,
      q_size := q_size q - 1, q_depth_metric := map_option gauge_decrement (q_depth_metric q)\<rparr>"
    by (auto simp: spsc_pop_def split: if_splits)
  show "q_state q \<noteq> Queue_failed" by (rule st)
  show st': "q_state q' = q_state q" by (simp add: q')
  show cap: "spsc_capacity q' = ?n" by (simp add: q' spsc_capacity_def)
  show "q_failure q' = q_failure q" by (simp add: q')
  have n: "0 < ?n" "q_size q \<le> ?n" using inv by (simp_all add: ring_inv_def)
  note head = ring_head_tail(1) [OF inv]
  have pos: "ring_pos q' i = ring_pos q (Suc i)" for i
    using mod_add_left_eq [of "q_head q + 1" "length (q_slots q)" i]
    by (simp add: q' ring_pos_def next_index_def)
  have slot: "q_slots q' ! ring_pos q (Suc i) = (if Suc i = ?n then None else q_slots q ! ring_pos q (Suc i))"
    if "i < ?n" for i
  proof (cases "Suc i = ?n")
    case True
    then have "ring_pos q (Suc i) = q_head q" using ring_pos_wrap [OF inv] by simp
    then show ?thesis using True ring_pos_less [OF inv, of "Suc i"] by (simp add: q' spsc_capacity_def)
  next
    case False
    with that have "Suc i < ?n" by simp
    then have "ring_pos q (Suc i) \<noteq> q_head q"
      using ring_pos_inj [of q "Suc i" 0] n by (auto simp: head)
    then show ?thesis using False by (simp add: q')
  qed
  have "contents q' = map (\<lambda>i. the (q_slots q' ! ring_pos q (Suc i))) [0..<q_size q - 1]"
    unfolding contents_def pos by (simp add: q')
  also have "\<dots> = map (\<lambda>i. the (q_slots q ! ring_pos q (Suc i))) [0..<q_size q - 1]"
    using n by (intro map_cong) (auto simp: slot)
  finally have "contents q' = map (\<lambda>i. the (q_slots q ! ring_pos q (Suc i))) [0..<q_size q - 1]" .
  moreover have "contents q = v # map (\<lambda>i. the (q_slots q ! ring_pos q i)) [1..<q_size q]"
    using pos0 ring_pos_0 [OF inv] by (simp add: contents_def upt_rec v)
  moreover have "map (\<lambda>i. the (q_slots q ! ring_pos q i)) [1..<q_size q]
      = map (\<lambda>i. the (q_slots q ! ring_pos q (Suc i))) [0..<q_size q - 1]"
    by (rule nth_equalityI) simp_all
  ultimately show "contents q = v # contents q'" by simp
  have metric: "queue_metric_ok q'"
  proof (cases "q_depth_metric q")
    case None
    then show ?thesis by (simp add: queue_metric_ok_def q')
  next
    case (Some g)
    obtain m where m: "m \<le> ?n" "gauge_counts (q_size q) m g"
      using inv Some by (auto simp: ring_inv_def elim: queue_metric_okE)
    then have "gauge_counts (q_size q - 1) m (gauge_decrement g)"
      using gauge_counts_decrement [of "q_size q - 1" m g] pos0 by simp
    moreover have "q_size q' = q_size q - 1" "q_depth_metric q' = Some (gauge_decrement g)"
      using Some by (simp_all add: q')
    ultimately show ?thesis
      using m(1) cap by (intro queue_metric_okI [of q' "gauge_decrement g"]) auto
  qed
  have old: "\<And>i. i < ?n \<Longrightarrow> q_slots q ! ring_pos q i \<noteq> None \<longleftrightarrow> i < q_size q"
    using inv by (simp add: ring_inv_def)
  have slots: "q_slots q' ! ring_pos q (Suc i) \<noteq> None \<longleftrightarrow> i < q_size q'" if "i < ?n" for i
    using slot [OF that] old [of "Suc i"] that n by (auto simp: q')
  have "q_tail q' = ring_pos q' (q_size q')"
    using ring_head_tail(2) [OF inv] pos0 unfolding pos by (simp add: q')
  moreover have "q_head q' < ?n" using n by (simp add: q' next_index_def spsc_capacity_def)
  ultimately show "ring_inv q'"
    using inv slots metric st st' n unfolding ring_inv_def cap pos by (simp add: q')
qed

subsection \<open>Construction, close and failure\<close>

lemma spsc_new_Inr:
  assumes "spsc_new z c = Inr q" and "2 \<le> z"
  shows "ring_inv q" and "contents q = []" and "q_state q = Queue_open"
    and "spsc_capacity q = unat c" and "q_depth_metric q = None" and "q_failure q = None"
    and "0 < unat c"
proof -
  from assms(1) have q: "q = \<lparr>q_slots = replicate (unat c) None, q_head = 0, q_tail = 0, q_size = 0,
                q_state = Queue_open, q_failure = None, q_depth_metric = None\<rparr>"
    and c: "c \<noteq> 0" and le: "unat c \<le> (2 ^ 63 - 1) div z"
    by (auto simp: spsc_new_def split: if_splits)
  show pos: "0 < unat c" using c by (simp add: unat_gt_0)
  have "(2 ^ 63 - 1) div z \<le> (2 ^ 63 - 1) div (2::nat)" using assms(2) by (rule div_le_mono2 [rotated]) simp
  with le have "unat c < 2 ^ 62" by simp
  with pos show "ring_inv q"
    by (simp add: ring_inv_def q spsc_capacity_def ring_pos_def queue_metric_ok_def)
  show "contents q = []" "q_state q = Queue_open" "spsc_capacity q = unat c"
    "q_depth_metric q = None" "q_failure q = None"
    by (simp_all add: q contents_def spsc_capacity_def)
qed

lemma spsc_new_observed_Inr:
  assumes "spsc_new_observed z c g = Inr q" and "2 \<le> z"
  shows "ring_inv q" and "contents q = []" and "q_state q = Queue_open"
    and "spsc_capacity q = unat c" and "q_depth_metric q = Some g" and "q_failure q = None"
    and "g = gauge_new" and "0 < unat c"
proof -
  from assms(1) obtain q0 where q0: "spsc_new z c = Inr q0" and q: "q = q0\<lparr>q_depth_metric := Some g\<rparr>"
    and g: "gauge_value g = 0" "gauge_high g = 0"
    by (auto simp: spsc_new_observed_def split: sum.splits if_splits)
  note new = spsc_new_Inr [OF q0 assms(2)]
  show gn: "g = gauge_new" using g by (simp add: gauge_new_def)
  have size: "q_size q0 = 0" using new(2) by (simp add: contents_empty_iff)
  have "queue_metric_ok q"
    by (rule queue_metric_okI [of q g 0]) (simp_all add: q size gn gauge_counts_new)
  with new(1) show "ring_inv q"
    by (simp add: ring_inv_def q spsc_capacity_def ring_pos_def)
  show "contents q = []" using size by (simp add: contents_empty_iff q)
  show "q_state q = Queue_open" "spsc_capacity q = unat c"
    "q_depth_metric q = Some g" "q_failure q = None" "0 < unat c"
    using new by (simp_all add: q spsc_capacity_def)
qed

lemma queue_metric_ok_state [simp]: "queue_metric_ok (q\<lparr>q_state := st\<rparr>) = queue_metric_ok q"
  by (cases "q_depth_metric q") (simp_all add: queue_metric_ok_def spsc_capacity_def)

lemma spsc_close_inv:
  assumes "ring_inv q"
  shows "ring_inv (spsc_close q)" and "contents (spsc_close q) = contents q"
    and "spsc_capacity (spsc_close q) = spsc_capacity q"
    and "q_state (spsc_close q) = (if q_state q = Queue_open then Queue_closed else q_state q)"
    and "q_failure (spsc_close q) = q_failure q"
  using assms
  by (cases "q_state q";
      simp add: spsc_close_def ring_inv_def contents_def ring_pos_def spsc_capacity_def)+

lemma spsc_fail_again:
  "q_state q = Queue_failed \<Longrightarrow> spsc_fail (Some e) q = (Inr [], q)"
  by (simp add: spsc_fail_def)

lemma mset_ring:
  assumes "ring_inv q"
  shows "mset (q_slots q) = image_mset (\<lambda>i. q_slots q ! ring_pos q i) (mset_set {..<spsc_capacity q})"
proof -
  let ?n = "spsc_capacity q"
  have inj: "inj_on (ring_pos q) {..<?n}" by (auto simp: inj_on_def intro: ring_pos_inj)
  have "ring_pos q ` {..<?n} = {..<?n}"
  proof (rule card_subset_eq)
    show "ring_pos q ` {..<?n} \<subseteq> {..<?n}" using ring_pos_less [OF assms] by auto
    show "card (ring_pos q ` {..<?n}) = card {..<?n}" using inj by (rule card_image)
  qed simp
  then have "image_mset (ring_pos q) (mset_set {..<?n}) = mset_set {..<?n}"
    using inj by (simp add: image_mset_mset_set)
  then have "image_mset (nth (q_slots q)) (mset_set {..<?n}) =
      image_mset (nth (q_slots q)) (image_mset (ring_pos q) (mset_set {..<?n}))" by simp
  moreover have "image_mset (nth (q_slots q)) (mset_set {..<?n}) = mset (map (nth (q_slots q)) [0..<?n])"
    by (simp add: atLeast0LessThan)
  ultimately show ?thesis by (simp add: spsc_capacity_def map_nth multiset.map_comp comp_def)
qed

lemma mset_queued_slots:
  assumes "ring_inv q"
  shows "mset (queued_slots q) = mset (contents q)"
proof -
  let ?n = "spsc_capacity q"
  have flat: "mset (concat (map (\<lambda>s. case s of None \<Rightarrow> [] | Some v \<Rightarrow> [v]) xs)) =
      image_mset the (filter_mset (\<lambda>s. s \<noteq> None) (mset xs))" for xs :: "'a option list"
    by (induction xs) (auto split: option.splits)
  have "mset (queued_slots q) = image_mset the (filter_mset (\<lambda>s. s \<noteq> None) (mset (q_slots q)))"
    unfolding queued_slots_def by (rule flat)
  also have "\<dots> = image_mset (\<lambda>i. the (q_slots q ! ring_pos q i))
      (filter_mset (\<lambda>i. q_slots q ! ring_pos q i \<noteq> None) (mset_set {..<?n}))"
    unfolding mset_ring [OF assms] by (simp add: filter_mset_image_mset multiset.map_comp comp_def)
  also have "filter_mset (\<lambda>i. q_slots q ! ring_pos q i \<noteq> None) (mset_set {..<?n}) =
      mset_set {i. i < ?n \<and> i < q_size q}"
    using assms by (subst filter_mset_mset_set) (auto simp: ring_inv_def intro!: arg_cong [of _ _ mset_set])
  also have "{i. i < ?n \<and> i < q_size q} = {0..<q_size q}"
    using assms by (auto simp: ring_inv_def)
  finally show ?thesis by (simp add: contents_def)
qed

lemma spsc_fail_first:
  assumes inv: "ring_inv q" and st: "q_state q \<noteq> Queue_failed"
    and f: "spsc_fail (Some e) q = (r, q')"
  shows "ring_inv q'" and "contents q' = []" and "q_state q' = Queue_failed"
    and "q_failure q' = Some e" and "spsc_capacity q' = spsc_capacity q"
    and "r = Inr (queued_slots q)" and "mset (queued_slots q) = mset (contents q)"
proof -
  from f st have r: "r = Inr (queued_slots q)"
    and q': "q' = q\<lparr>q_state := Queue_failed, q_failure := Some e,
      q_slots := map (\<lambda>_. None) (q_slots q), q_head := 0, q_tail := 0, q_size := 0,
      q_depth_metric := map_option (gauge_set 0) (q_depth_metric q)\<rparr>"
    by (auto simp: spsc_fail_def discard_queued_values_locked_def)
  show "r = Inr (queued_slots q)" by (rule r)
  show "mset (queued_slots q) = mset (contents q)" using inv by (rule mset_queued_slots)
  show "contents q' = []" "q_state q' = Queue_failed" "q_failure q' = Some e"
    by (simp_all add: q' contents_def)
  show cap: "spsc_capacity q' = spsc_capacity q" by (simp add: q' spsc_capacity_def)
  have pos: "0 < spsc_capacity q" using inv by (simp add: ring_inv_def)
  have "q_slots q' ! ring_pos q' i = None" for i
    using pos by (simp add: q' ring_pos_def spsc_capacity_def)
  moreover have "queue_metric_ok q'"
  proof (cases "q_depth_metric q")
    case None
    then show ?thesis by (simp add: queue_metric_ok_def q')
  next
    case (Some g)
    obtain m where m: "m \<le> spsc_capacity q" "gauge_counts (q_size q) m g"
      using inv Some by (auto simp: ring_inv_def elim: queue_metric_okE)
    show ?thesis
      by (rule queue_metric_okI [of q' "gauge_set 0 g" m])
        (use Some m gauge_counts_zero [OF m(2)] cap in \<open>simp_all add: q'\<close>)
  qed
  ultimately show "ring_inv q'"
    using inv pos unfolding ring_inv_def cap by (simp add: q' ring_pos_def)
qed

lemma spsc_fail_inv:
  assumes "ring_inv q" and "spsc_fail f q = (r, q')"
  shows "ring_inv q' \<and> spsc_capacity q' = spsc_capacity q"
proof (cases f)
  case None
  with assms show ?thesis by (simp add: spsc_fail_def)
next
  case (Some e)
  show ?thesis
  proof (cases "q_state q = Queue_failed")
    case True
    with assms Some show ?thesis by (simp add: spsc_fail_def)
  next
    case False
    with spsc_fail_first [OF assms(1) False, of e r q'] assms(2) Some show ?thesis by simp
  qed
qed

section \<open>The channel interface\<close>

text \<open>
  What the pipeline's threads rely on. The laws are stated over the abstract channel: its items
  (oldest first), its phase and its recorded failure.
\<close>

fun push_law :: "push_result \<Rightarrow> queue_state \<Rightarrow> exn option \<Rightarrow> 'a list \<Rightarrow> nat \<Rightarrow> bool" where
  "push_law Push_waits st f xs n = (st = Queue_open \<and> length xs = n)"
| "push_law (Push_throws e) st f xs n = (st = Queue_failed \<and> f = Some e)"
| "push_law Push_rejected st f xs n = (st = Queue_closed)"
| "push_law Push_ok st f xs n = (st = Queue_open \<and> length xs < n)"

fun pop_law :: "'a pop_result \<Rightarrow> queue_state \<Rightarrow> exn option \<Rightarrow> 'a list \<Rightarrow> 'a list \<Rightarrow> bool" where
  "pop_law Pop_waits st f xs ys = (st = Queue_open \<and> xs = [] \<and> ys = [])"
| "pop_law (Pop_throws e) st f xs ys = (st = Queue_failed \<and> f = Some e \<and> ys = xs)"
| "pop_law Pop_end st f xs ys = (st = Queue_closed \<and> xs = [] \<and> ys = [])"
| "pop_law (Pop_value v) st f xs ys = (st \<noteq> Queue_failed \<and> xs = v # ys)"

datatype 'a channel_op =
    Chan_push 'a
  | Chan_pop
  | Chan_close
  | Chan_fail exn

fun channel_step ::
  "('a \<Rightarrow> 'q \<Rightarrow> push_result \<times> 'q) \<Rightarrow> ('q \<Rightarrow> 'a pop_result \<times> 'q) \<Rightarrow> ('q \<Rightarrow> 'q) \<Rightarrow>
   (exn option \<Rightarrow> 'q \<Rightarrow> 'a list res \<times> 'q) \<Rightarrow> 'a channel_op \<Rightarrow>
   'q \<times> 'a list \<times> 'a list \<Rightarrow> 'q \<times> 'a list \<times> 'a list" where
  "channel_step push pop close fail (Chan_push v) (q, sent, received) =
     (case push v q of (r, q') \<Rightarrow> (q', if r = Push_ok then sent @ [v] else sent, received))"
| "channel_step push pop close fail Chan_pop (q, sent, received) =
     (case pop q of (r, q') \<Rightarrow>
        (q', sent, case r of Pop_value v \<Rightarrow> received @ [v] | _ \<Rightarrow> received))"
| "channel_step push pop close fail Chan_close (q, sent, received) = (close q, sent, received)"
| "channel_step push pop close fail (Chan_fail e) (q, sent, received) =
     (snd (fail (Some e) q), sent, received)"

fun first_failure :: "'a channel_op list \<Rightarrow> exn option" where
  "first_failure [] = None"
| "first_failure (Chan_fail e # ops) = Some e"
| "first_failure (_ # ops) = first_failure ops"

locale bounded_channel =
  fixes push :: "'a \<Rightarrow> 'q \<Rightarrow> push_result \<times> 'q"
    and pop :: "'q \<Rightarrow> 'a pop_result \<times> 'q"
    and close :: "'q \<Rightarrow> 'q"
    and fail :: "exn option \<Rightarrow> 'q \<Rightarrow> 'a list res \<times> 'q"
    and items :: "'q \<Rightarrow> 'a list"
    and phase :: "'q \<Rightarrow> queue_state"
    and reason :: "'q \<Rightarrow> exn option"
    and cap :: "'q \<Rightarrow> nat"
    and ok :: "'q \<Rightarrow> bool"
  assumes push_ok: "ok q \<Longrightarrow> push v q = (r, q') \<Longrightarrow>
      ok q' \<and> phase q' = phase q \<and> reason q' = reason q \<and> cap q' = cap q \<and>
      push_law r (phase q) (reason q) (items q) (cap q) \<and>
      items q' = (if r = Push_ok then items q @ [v] else items q)"
    and pop_ok: "ok q \<Longrightarrow> pop q = (r', q') \<Longrightarrow>
      ok q' \<and> phase q' = phase q \<and> reason q' = reason q \<and> cap q' = cap q \<and>
      pop_law r' (phase q) (reason q) (items q) (items q')"
    and close_ok: "ok q \<Longrightarrow>
      ok (close q) \<and> items (close q) = items q \<and> reason (close q) = reason q \<and>
      cap (close q) = cap q \<and>
      phase (close q) = (if phase q = Queue_open then Queue_closed else phase q)"
    and fail_ok: "ok q \<Longrightarrow>
      ok (snd (fail (Some e) q)) \<and> cap (snd (fail (Some e) q)) = cap q \<and>
      phase (snd (fail (Some e) q)) = Queue_failed \<and>
      reason (snd (fail (Some e) q)) = (if phase q = Queue_failed then reason q else Some e) \<and>
      items (snd (fail (Some e) q)) = []"
    and bounded: "ok q \<Longrightarrow> length (items q) \<le> cap q"
    and reasoned: "ok q \<Longrightarrow> phase q = Queue_failed \<longleftrightarrow> reason q \<noteq> None"
begin

definition delivery_ok :: "'q \<times> 'a list \<times> 'a list \<Rightarrow> bool" where
  "delivery_ok c \<longleftrightarrow> (case c of (q, sent, received) \<Rightarrow>
     ok q \<and> (if phase q = Queue_failed then \<exists>lost. sent = received @ lost
             else sent = received @ items q))"

lemma step_delivery_ok:
  assumes "delivery_ok c"
  shows "delivery_ok (channel_step push pop close fail op c)"
    and "cap (fst (channel_step push pop close fail op c)) = cap (fst c)"
    and "reason (fst (channel_step push pop close fail op c)) =
      (if reason (fst c) = None then first_failure [op] else reason (fst c))"
proof -
  obtain q sent received where c: "c = (q, sent, received)" by (cases c)
  have q: "ok q" using assms by (simp add: delivery_ok_def c)
  have d: "if phase q = Queue_failed then \<exists>lost. sent = received @ lost else sent = received @ items q"
    using assms by (simp add: delivery_ok_def c)
  have "delivery_ok (channel_step push pop close fail op c) \<and>
    cap (fst (channel_step push pop close fail op c)) = cap (fst c) \<and>
    reason (fst (channel_step push pop close fail op c)) =
      (if reason (fst c) = None then first_failure [op] else reason (fst c))"
  proof (cases op)
    case (Chan_push v)
    obtain r q' where r: "push v q = (r, q')" by (cases "push v q")
    from push_ok [OF q r] d show ?thesis
      by (cases r) (auto simp: Chan_push c r delivery_ok_def split: if_splits)
  next
    case Chan_pop
    obtain r q' where r: "pop q = (r, q')" by (cases "pop q")
    from pop_ok [OF q r] d show ?thesis
      by (cases r) (auto simp: Chan_pop c r delivery_ok_def split: if_splits)
  next
    case Chan_close
    from close_ok [OF q] d show ?thesis
      by (auto simp: Chan_close c delivery_ok_def split: if_splits)
  next
    case (Chan_fail e)
    from fail_ok [OF q, of e] d reasoned [OF q] show ?thesis
      by (auto simp: Chan_fail c delivery_ok_def split: if_splits)
  qed
  then show "delivery_ok (channel_step push pop close fail op c)"
    and "cap (fst (channel_step push pop close fail op c)) = cap (fst c)"
    and "reason (fst (channel_step push pop close fail op c)) =
      (if reason (fst c) = None then first_failure [op] else reason (fst c))"
    by blast+
qed

lemma first_failure_Cons:
  "first_failure (op # ops) = (case first_failure [op] of None \<Rightarrow> first_failure ops | Some e \<Rightarrow> Some e)"
  by (cases op) auto

lemma run_delivery_ok:
  "delivery_ok c \<Longrightarrow>
   delivery_ok (fold (channel_step push pop close fail) ops c) \<and>
   cap (fst (fold (channel_step push pop close fail) ops c)) = cap (fst c) \<and>
   reason (fst (fold (channel_step push pop close fail) ops c)) =
     (if reason (fst c) = None then first_failure ops else reason (fst c))"
proof (induction ops arbitrary: c)
  case Nil
  then show ?case by simp
next
  case (Cons op ops)
  note step = step_delivery_ok [OF Cons.prems, of op]
  from Cons.IH [OF step(1)] step(2,3) show ?case
    by (cases "first_failure [op]") (auto simp: first_failure_Cons [of op ops])
qed

lemma fifo:
  assumes "ok q0" and "items q0 = []" and "phase q0 = Queue_open"
    and run: "fold (channel_step push pop close fail) ops (q0, [], []) = (q, sent, received)"
  shows "length (items q) \<le> cap q0 \<and> (\<exists>rest. sent = received @ rest) \<and>
    (first_failure ops = None \<longrightarrow> sent = received @ items q) \<and>
    reason q = first_failure ops \<and>
    (fst (pop q) = Pop_end \<longrightarrow> received = sent) \<and>
    (fst (push v q) = Push_waits \<longleftrightarrow> phase q = Queue_open \<and> length (items q) = cap q0)"
proof -
  have r0: "reason q0 = None" using reasoned [OF assms(1)] assms(3) by simp
  have "delivery_ok (q0, [], [])" using assms by (simp add: delivery_ok_def)
  from run_delivery_ok [OF this, of ops] r0
  have q: "ok q" and cap: "cap q = cap q0" and reason: "reason q = first_failure ops"
    and d: "if phase q = Queue_failed then \<exists>lost. sent = received @ lost else sent = received @ items q"
    by (auto simp: run delivery_ok_def)
  obtain r q' where pop: "pop q = (r, q')" by (cases "pop q")
  have "received = sent" if "r = Pop_end"
    using pop_ok [OF q pop] that d by simp
  moreover obtain rp qp where push: "push v q = (rp, qp)" by (cases "push v q")
  have "rp = Push_waits \<longleftrightarrow> phase q = Queue_open \<and> length (items q) = cap q0"
    using push_ok [OF q push] cap by (cases rp) auto
  ultimately show ?thesis
    using bounded [OF q] cap reason d reasoned [OF q] pop push by (auto split: if_splits)
qed

end

interpretation ring: bounded_channel spsc_push spsc_pop spsc_close spsc_fail contents q_state
  q_failure spsc_capacity ring_inv
proof unfold_locales
  fix q q' :: "'a spsc_queue" and v r
  assume inv: "ring_inv q" and p: "spsc_push v q = (r, q')"
  show "ring_inv q' \<and> q_state q' = q_state q \<and> q_failure q' = q_failure q \<and>
      spsc_capacity q' = spsc_capacity q \<and>
      push_law r (q_state q) (q_failure q) (contents q) (spsc_capacity q) \<and>
      contents q' = (if r = Push_ok then contents q @ [v] else contents q)"
  proof (cases "r = Push_ok")
    case True
    with spsc_push_ok [OF inv] p show ?thesis by simp
  next
    case False
    have "push_law r (q_state q) (q_failure q) (contents q) (spsc_capacity q)"
      using p False inv
      by (cases "q_state q") (auto simp: spsc_push_def ring_inv_def spsc_capacity_def split: if_splits)
    with spsc_push_other [OF p False] inv False show ?thesis by simp
  qed
next
  fix q q' :: "'a spsc_queue" and r
  assume inv: "ring_inv q" and p: "spsc_pop q = (r, q')"
  show "ring_inv q' \<and> q_state q' = q_state q \<and> q_failure q' = q_failure q \<and>
      spsc_capacity q' = spsc_capacity q \<and>
      pop_law r (q_state q) (q_failure q) (contents q) (contents q')"
  proof (cases "\<exists>v. r = Pop_value v")
    case True
    with spsc_pop_value [OF inv] p show ?thesis by auto
  next
    case False
    have "pop_law r (q_state q) (q_failure q) (contents q) (contents q)"
      using p False inv
      by (cases "q_state q") (auto simp: spsc_pop_def ring_inv_def contents_empty_iff split: if_splits)
    with spsc_pop_other [OF p False] inv show ?thesis by simp
  qed
next
  fix q :: "'a spsc_queue"
  assume "ring_inv q"
  with spsc_close_inv [OF this]
  show "ring_inv (spsc_close q) \<and> contents (spsc_close q) = contents q \<and>
      q_failure (spsc_close q) = q_failure q \<and> spsc_capacity (spsc_close q) = spsc_capacity q \<and>
      q_state (spsc_close q) = (if q_state q = Queue_open then Queue_closed else q_state q)"
    by simp
next
  fix q :: "'a spsc_queue" and e
  assume inv: "ring_inv q"
  show "ring_inv (snd (spsc_fail (Some e) q)) \<and>
      spsc_capacity (snd (spsc_fail (Some e) q)) = spsc_capacity q \<and>
      q_state (snd (spsc_fail (Some e) q)) = Queue_failed \<and>
      q_failure (snd (spsc_fail (Some e) q)) = (if q_state q = Queue_failed then q_failure q else Some e) \<and>
      contents (snd (spsc_fail (Some e) q)) = []"
  proof (cases "q_state q = Queue_failed")
    case True
    with inv show ?thesis by (simp add: spsc_fail_again contents_empty_iff ring_inv_def)
  next
    case False
    with spsc_fail_first [OF inv False] show ?thesis by (metis surjective_pairing)
  qed
qed (simp_all add: ring_inv_def)

section \<open>Properties\<close>

text \<open>
  C36: The ring buffer is a bounded first-in first-out channel with close and failure. After any
  sequence of pushes, pops, closes and failures, in any interleaving of the two sides, on a queue
  its constructor built: at most \<open>capacity\<close> values are queued; what was popped is a prefix of what
  was pushed, and without a failure the queue holds exactly the rest, in order; the recorded
  failure is the first one; \<open>pop\<close> reports the end of the stream only when every pushed value was
  delivered; and \<open>push\<close> waits exactly while the queue is open and full.
\<close>

theorem spsc_queue_fifo:
  assumes "spsc_new_observed z capacity depth = Inr q0" and "2 \<le> z"
    and "fold (channel_step spsc_push spsc_pop spsc_close spsc_fail) ops (q0, [], []) = (q, sent, received)"
  shows "length (contents q) \<le> unat capacity \<and> (\<exists>rest. sent = received @ rest) \<and>
    (first_failure ops = None \<longrightarrow> sent = received @ contents q) \<and>
    q_failure q = first_failure ops \<and>
    (fst (spsc_pop q) = Pop_end \<longrightarrow> received = sent) \<and>
    (fst (spsc_push v q) = Push_waits \<longleftrightarrow>
       q_state q = Queue_open \<and> length (contents q) = unat capacity)"
  using ring.fifo [OF spsc_new_observed_Inr(1,2,3) [OF assms(1,2)] assms(3)]
    spsc_new_observed_Inr(4) [OF assms(1,2)] by simp

definition full_queue :: "nat spsc_queue" where
  "full_queue = \<lparr>q_slots = replicate 2 None, q_head = 0, q_tail = 0, q_size = 0, q_state = Queue_open,
     q_failure = None, q_depth_metric = Some gauge_new\<rparr>"

theorem spsc_queue_fifo_witness:
  "\<exists>q. fold (channel_step spsc_push spsc_pop spsc_close spsc_fail)
      [Chan_push 1, Chan_push 2, Chan_push 3, Chan_pop, Chan_push 4, Chan_pop, Chan_close]
      (full_queue, [], []) = (q, [1, 2, 4], [1, 2]) \<and> [1, 2, 4] = [1, 2] @ contents q"
proof -
  let ?ops = "[Chan_push 1, Chan_push 2, Chan_push 3, Chan_pop, Chan_push 4, Chan_pop, Chan_close]"
  let ?run = "fold (channel_step spsc_push spsc_pop spsc_close spsc_fail) ?ops (full_queue, [], [])"
  have new: "spsc_new_observed 2 2 gauge_new = Inr full_queue"
    by (simp add: spsc_new_observed_def spsc_new_def full_queue_def gauge_new_def)
  have "snd ?run = ([1, 2, 4], [1, 2])" by code_simp
  then have run: "?run = (fst ?run, [1, 2, 4], [1, 2])" by (metis prod.collapse)
  have none: "first_failure ?ops = None" by simp
  note fifo = spsc_queue_fifo [OF new order_refl run, of 0]
  have "[1, 2, 4] = [1, 2] @ contents (fst ?run)"
    by (rule mp [OF conjunct1 [OF conjunct2 [OF conjunct2 [OF fifo]]] none])
  with run show ?thesis by (intro exI [of _ "fst ?run"] conjI)
qed

end
