(* ===== verification/Stages.thy ===== *)
theory Stages
  imports Prelude
begin

text \<open>
  The block transformations of \<open>include/pipeline/stage.h\<close>, \<open>include/pipeline/builtin_stages.h\<close> and
  \<open>src/pipeline/builtin_stages.cpp\<close>. A stage object is one of the built-in stages or a
  user-defined one, whose virtual functions are a parameter (a record over the user's object
  type). \<open>process\<close> receives a span: it may change bytes but not the block's length, which the
  model enforces by storing a user stage's result into the old block. \<open>unsigned int\<close> is a 32-bit
  word.
\<close>

section \<open>Stage objects\<close>

datatype 'u stage =
    NoOpStage
  | ByteIncrementStage
  | NormalizeStage
  | ChecksumStage u64
  | UserStage 'u

text \<open>The virtual functions of user-defined stages.\<close>

record 'u user_stages =
  user_name :: "'u \<Rightarrow> string"
  user_process :: "'u \<Rightarrow> byte list \<Rightarrow> exn option \<times> 'u \<times> byte list"

fun stage_name :: "'u user_stages \<Rightarrow> 'u stage \<Rightarrow> string" where
  "stage_name us NoOpStage = ''noop''"
| "stage_name us ByteIncrementStage = ''byte_increment''"
| "stage_name us NormalizeStage = ''normalize''"
| "stage_name us (ChecksumStage _) = ''checksum''"
| "stage_name us (UserStage u) = user_name us u"

section \<open>Block transformations\<close>

type_synonym uint = "32 word"

definition byte_increment :: "byte list \<Rightarrow> byte list" where
  "byte_increment block = map (\<lambda>value. let numeric = ucast value :: uint in ucast (numeric + 1)) block"

text \<open>One iteration of the loop that finds the extremes.\<close>

definition minmax_step :: "byte \<Rightarrow> uint \<times> uint \<Rightarrow> uint \<times> uint" where
  "minmax_step value mm =
     (case mm of (minimum, maximum) \<Rightarrow>
        let numeric = ucast value :: uint in
        (if numeric < minimum then numeric else minimum,
         if numeric > maximum then numeric else maximum))"

definition normalize :: "byte list \<Rightarrow> byte list" where
  "normalize block =
     (if block = [] then block
      else
        let front = ucast (hd block) :: uint;
            (minimum, maximum) = fold minmax_step block (front, front) in
        if minimum = maximum then map (\<lambda>_. 0) block
        else
          let range = maximum - minimum in
          map (\<lambda>value.
            let numeric = ucast value :: uint; normalized = ((numeric - minimum) * 255) div range in
            ucast normalized) block)"

definition kOffsetBasis :: u64 where "kOffsetBasis = 14695981039346656037"
definition kPrime :: u64 where "kPrime = 1099511628211"

definition checksum_step :: "byte \<Rightarrow> u64 \<Rightarrow> u64" where
  "checksum_step value checksum = (checksum XOR ucast (ucast value :: uint)) * kPrime"

definition block_checksum :: "byte list \<Rightarrow> u64" where
  "block_checksum block = fold checksum_step block kOffsetBasis"

fun stage_process ::
  "'u user_stages \<Rightarrow> 'u stage \<Rightarrow> byte list \<Rightarrow> exn option \<times> 'u stage \<times> byte list" where
  "stage_process us NoOpStage block = (None, NoOpStage, block)"
| "stage_process us ByteIncrementStage block = (None, ByteIncrementStage, byte_increment block)"
| "stage_process us NormalizeStage block = (None, NormalizeStage, normalize block)"
| "stage_process us (ChecksumStage last_checksum) block =
     (None, ChecksumStage (block_checksum block), block)"
| "stage_process us (UserStage u) block =
     (case user_process us u block of (e, u', bs) \<Rightarrow> (e, UserStage u', store_prefix bs block))"

definition new_checksum_stage :: "'u stage" where
  "new_checksum_stage = ChecksumStage kOffsetBasis"

section \<open>Lemmas\<close>

lemma length_byte_increment [simp]: "length (byte_increment block) = length block"
  by (simp add: byte_increment_def)

lemma unat_uint_byte [simp]: "unat (ucast v :: uint) = unat v" for v :: byte
proof -
  have "unat v < 256" using unsigned_less [of v, where 'a = nat] by simp
  then show ?thesis by (simp add: unsigned_ucast_eq take_bit_eq_mod)
qed

lemma unat_byte_uint: "unat (ucast x :: byte) = unat x mod 256" for x :: uint
  by (simp add: unsigned_ucast_eq take_bit_eq_mod)

lemma unat_byte_less: "unat v < 256" for v :: byte
  using unsigned_less [of v, where 'a = nat] by simp

lemma byte_increment_map: "byte_increment block = map (\<lambda>v. v + 1) block"
proof -
  have "ucast (ucast v + 1 :: uint) = v + 1" for v :: byte
    using unat_byte_less [of v] by (simp add: word_unat_eq_iff unat_byte_uint unat_word_ariths)
  then show ?thesis by (simp add: byte_increment_def Let_def)
qed

subsection \<open>Normalization\<close>

text \<open>The extremes as natural numbers.\<close>

definition low :: "byte list \<Rightarrow> nat" where "low block = Min (unat ` set block)"
definition high :: "byte list \<Rightarrow> nat" where "high block = Max (unat ` set block)"

lemma fold_minmax:
  assumes "fold minmax_step vs (a, b) = (m, M)"
  shows "unat m = Min (insert (unat a) (unat ` set vs)) \<and> unat M = Max (insert (unat b) (unat ` set vs))"
  using assms
proof (induction vs arbitrary: a b)
  case Nil
  then show ?case by simp
next
  case (Cons v vs)
  let ?a = "if (ucast v :: uint) < a then ucast v else a" and ?b = "if b < (ucast v :: uint) then ucast v else b"
  have "minmax_step v (a, b) = (?a, ?b)" by (simp add: minmax_step_def Let_def)
  then have "fold minmax_step vs (?a, ?b) = (m, M)"
    using Cons.prems by (simp only: fold_simps)
  note IH = Cons.IH [OF this]
  have a: "unat ?a = min (unat v) (unat a)" and b: "unat ?b = max (unat v) (unat b)"
    by (auto simp: word_less_nat_alt)
  have "Min (insert (unat ?a) (unat ` set vs)) = Min (insert (unat a) (unat ` set (v # vs)))"
    unfolding a by (cases "set vs = {}") (simp_all add: min.left_commute min.commute)
  moreover have "Max (insert (unat ?b) (unat ` set vs)) = Max (insert (unat b) (unat ` set (v # vs)))"
    unfolding b by (cases "set vs = {}") (simp_all add: max.left_commute max.commute)
  ultimately show ?case using IH by simp
qed

lemma fold_minmax_block:
  assumes "block \<noteq> []" and "fold minmax_step block (ucast (hd block), ucast (hd block)) = (m, M)"
  shows "unat m = low block" and "unat M = high block"
proof -
  have "hd block \<in> set block" using assms(1) by simp
  then have "insert (unat (hd block)) (unat ` set block) = unat ` set block" by blast
  with fold_minmax [OF assms(2)] show "unat m = low block" "unat M = high block"
    by (simp_all add: low_def high_def)
qed

lemma low_le: "v \<in> set block \<Longrightarrow> low block \<le> unat v"
  by (simp add: low_def)

lemma high_ge: "v \<in> set block \<Longrightarrow> unat v \<le> high block"
  by (simp add: high_def)

lemma low_in:
  assumes "block \<noteq> []"
  shows "\<exists>v \<in> set block. unat v = low block"
proof -
  have "low block \<in> unat ` set block" unfolding low_def using assms by (intro Min_in) simp_all
  then show ?thesis by (metis imageE)
qed

lemma high_in:
  assumes "block \<noteq> []"
  shows "\<exists>v \<in> set block. unat v = high block"
proof -
  have "high block \<in> unat ` set block" unfolding high_def using assms by (intro Max_in) simp_all
  then show ?thesis by (metis imageE)
qed

lemma high_less: "block \<noteq> [] \<Longrightarrow> high block < 256"
  using high_in [of block] unat_byte_less by metis

text \<open>The value the loop stores for one byte, over the natural numbers.\<close>

definition scaled :: "nat \<Rightarrow> nat \<Rightarrow> nat \<Rightarrow> nat" where
  "scaled lo hi v = (if lo = hi then 0 else (v - lo) * 255 div (hi - lo))"

lemma scaled_le: "v \<le> hi \<Longrightarrow> scaled lo hi v \<le> 255"
proof (cases "lo < hi")
  case True
  assume "v \<le> hi"
  then have "(v - lo) * 255 \<le> (hi - lo) * 255" by simp
  then have "(v - lo) * 255 div (hi - lo) \<le> (hi - lo) * 255 div (hi - lo)" by (rule div_le_mono)
  with True show ?thesis by (simp add: scaled_def)
qed (auto simp: scaled_def)

lemma normalize_map:
  "normalize block = map (\<lambda>v. word_of_nat (scaled (low block) (high block) (unat v))) block"
proof (cases "block = []")
  case True
  then show ?thesis by (simp add: normalize_def)
next
  case False
  obtain m M where mm: "fold minmax_step block (ucast (hd block), ucast (hd block)) = (m, M)"
    by (cases "fold minmax_step block (ucast (hd block), ucast (hd block))")
  note lh = fold_minmax_block [OF False mm]
  have eq: "m = M \<longleftrightarrow> low block = high block" by (simp add: word_unat_eq_iff lh)
  have val: "ucast ((ucast v - m) * 255 div (M - m)) = (word_of_nat (scaled (low block) (high block) (unat v)) :: byte)"
    if v: "v \<in> set block" and ne: "low block \<noteq> high block" for v
  proof -
    have b: "low block \<le> unat v" "unat v \<le> high block" "high block < 256"
      using low_le [OF v] high_ge [OF v] high_less [OF False] by auto
    have d: "unat (ucast v - m :: uint) = unat v - low block"
      using b by (simp add: unat_sub_if' lh)
    have r: "unat (M - m) = high block - low block"
      using b by (simp add: unat_sub_if' lh)
    have "(unat v - low block) * 255 < 2 ^ 32" using b by simp
    then have "unat ((ucast v - m) * 255 :: uint) = (unat v - low block) * 255"
      by (subst unat_word_ariths(2)) (simp add: d)
    then have "unat ((ucast v - m) * 255 div (M - m)) = scaled (low block) (high block) (unat v)"
      using ne by (simp add: unat_div r scaled_def)
    then show ?thesis
      by (simp add: word_unat_eq_iff unat_byte_uint unat_of_nat)
  qed
  show ?thesis
  proof (cases "m = M")
    case True
    then show ?thesis using False eq by (simp add: normalize_def mm scaled_def)
  next
    case ne: False
    then have "normalize block = map (\<lambda>v. ucast ((ucast v - m) * 255 div (M - m))) block"
      using False by (simp add: normalize_def mm Let_def)
    with val ne eq show ?thesis by simp
  qed
qed

lemma length_normalize [simp]: "length (normalize block) = length block"
  by (simp add: normalize_map)

lemma stage_process_length:
  "stage_process us s block = (e, s', out) \<Longrightarrow> length out = length block"
  by (cases s) (auto split: prod.splits)

lemma scaled_mono: "u \<le> v \<Longrightarrow> scaled lo hi u \<le> scaled lo hi v"
  by (auto simp: scaled_def intro!: div_le_mono)

lemma unat_scaled:
  "v \<in> set block \<Longrightarrow>
   unat (word_of_nat (scaled (low block) (high block) (unat v)) :: byte) =
     scaled (low block) (high block) (unat v)"
  using scaled_le [of "unat v" "high block" "low block"] high_ge [of v block] by (simp add: unat_of_nat)

subsection \<open>Checksums\<close>

lemma mult_prime_inject: "a * kPrime = b * kPrime \<longleftrightarrow> a = b" for a b :: u64
proof
  assume eq: "a * kPrime = b * kPrime"
  have inv: "kPrime * 14886173955864302971 = 1" by (simp add: kPrime_def)
  have "a * (kPrime * 14886173955864302971) = b * (kPrime * 14886173955864302971)"
    using eq by (simp flip: mult.assoc)
  then show "a = b" by (simp only: inv mult_1_right)
qed simp

lemma xor_inject: "a XOR c = b XOR c \<longleftrightarrow> a = b" for a b c :: u64
proof
  assume "a XOR c = b XOR c"
  then have "(a XOR c) XOR c = (b XOR c) XOR c" by simp
  then show "a = b" by (simp add: xor.assoc)
qed simp

lemma checksum_step_inject: "checksum_step v a = checksum_step v b \<longleftrightarrow> a = b"
  by (simp add: checksum_step_def mult_prime_inject xor_inject)

lemma unat_u64_uint: "unat (ucast x :: u64) = unat x" for x :: uint
proof -
  have "unat (ucast x :: u64) = take_bit 64 (unat x)" by (simp only: unsigned_ucast_eq) simp
  moreover have "unat x < 2 ^ 64" using unsigned_less [of x, where 'a = nat] by simp
  ultimately show ?thesis by (simp add: take_bit_nat_eq_self)
qed

lemma u64_of_byte_inject:
  "(ucast (ucast v :: uint) :: u64) = ucast (ucast w :: uint) \<longleftrightarrow> v = w" for v w :: byte
proof
  assume "(ucast (ucast v :: uint) :: u64) = ucast (ucast w :: uint)"
  then have "unat (ucast (ucast v :: uint) :: u64) = unat (ucast (ucast w :: uint) :: u64)"
    by (simp only:)
  then have "unat v = unat w" by (simp only: unat_u64_uint unat_uint_byte)
  then show "v = w" by (simp add: word_unat_eq_iff)
qed simp

lemma checksum_step_byte_inject: "checksum_step v a = checksum_step w a \<longleftrightarrow> v = w"
  unfolding checksum_step_def mult_prime_inject xor.commute [of a] xor_inject
  by (rule u64_of_byte_inject)

lemma fold_checksum_inject: "fold checksum_step vs a = fold checksum_step vs b \<longleftrightarrow> a = b"
  by (induction vs arbitrary: a b) (simp_all add: checksum_step_inject)

section \<open>Block-wise processing\<close>

text \<open>
  A file is processed block by block. A transformation that maps concatenations to concatenations
  does not depend on where the block boundaries lie.
\<close>

locale block_independent =
  fixes transform :: "byte list \<Rightarrow> byte list"
  assumes transform_append: "transform (xs @ ys) = transform xs @ transform ys"
    and transform_length: "length (transform xs) = length xs"
begin

lemma transform_Nil: "transform [] = []"
  using transform_length [of "[]"] by simp

lemma blocks: "concat (map transform blocks) = transform (concat blocks)"
  by (induction blocks) (simp_all add: transform_append transform_Nil)

lemma any_partition:
  "concat blocks = concat blocks' \<Longrightarrow> concat (map transform blocks) = concat (map transform blocks')"
  by (simp add: blocks)

end

interpretation increment: block_independent byte_increment
  by unfold_locales (simp_all add: byte_increment_map)

interpretation noop: block_independent "\<lambda>block. block"
  by unfold_locales simp_all

section \<open>Properties\<close>

text \<open>
  \<open>ByteIncrementStage\<close> adds one to every byte modulo 256, keeps the length, can be undone, and
  gives the same file whatever the block boundaries: processing any partition of a file block by
  block equals incrementing the whole file.
\<close>

theorem byte_increment_correct:
  "byte_increment block = map (\<lambda>v. v + 1) block \<and>
   map (\<lambda>v. v - 1) (byte_increment block) = block \<and>
   concat (map byte_increment blocks) = map (\<lambda>v. v + 1) (concat blocks)"
  using increment.blocks [of blocks] by (simp add: byte_increment_map comp_def)

text \<open>
  \<open>NormalizeStage\<close> rescales a block to the full byte range without overflow: in a block that
  is not constant the smallest byte becomes 0 and the largest 255, every byte \<open>v\<close> becomes
  \<open>(v - min) * 255 / (max - min)\<close> exactly, and the order of bytes is kept; a constant block
  becomes all zeros.
\<close>

theorem normalize_correct:
  assumes "i < length block"
  shows "unat (normalize block ! i) = scaled (low block) (high block) (unat (block ! i)) \<and>
    (low block \<noteq> high block \<longrightarrow>
       (unat (block ! i) = low block \<longrightarrow> normalize block ! i = 0) \<and>
       (unat (block ! i) = high block \<longrightarrow> normalize block ! i = 255)) \<and>
    (\<forall>j < length block. block ! i \<le> block ! j \<longrightarrow> normalize block ! i \<le> normalize block ! j) \<and>
    (low block = high block \<longrightarrow> normalize block = replicate (length block) 0)"
proof -
  have u: "unat (normalize block ! k) = scaled (low block) (high block) (unat (block ! k))"
    if "k < length block" for k
    using that unat_scaled [of "block ! k" block] by (simp add: normalize_map)
  have "block \<noteq> []" using assms by auto
  then have le: "low block \<le> high block" using low_le high_in by metis
  have "scaled (low block) (high block) (high block) = 255" if "low block \<noteq> high block"
    using that le by (simp add: scaled_def)
  moreover have "scaled (low block) (high block) (low block) = 0" by (simp add: scaled_def)
  moreover have "\<forall>j < length block. block ! i \<le> block ! j \<longrightarrow> normalize block ! i \<le> normalize block ! j"
    using u assms scaled_mono by (simp add: word_le_nat_alt)
  moreover have "normalize block = replicate (length block) 0" if "low block = high block"
    using that by (simp add: normalize_map scaled_def map_replicate_const)
  ultimately show ?thesis using u [OF assms] by (auto simp: word_unat_eq_iff)
qed

theorem normalize_correct_witness:
  "unat (normalize [10, 20, 30] ! 1) = 127 \<and> normalize [10, 20, 30] = [0, 127, 255 :: byte]"
proof -
  have "low [10, 20, 30] = 10" "high [10, 20, 30] = 30" by (simp_all add: low_def high_def)
  then have "unat (normalize [10, 20, 30] ! 1) = 127"
    using normalize_correct [of 1 "[10, 20, 30]"] by (simp add: scaled_def)
  moreover have "normalize [10, 20, 30] = [0, 127, 255 :: byte]" by code_simp
  ultimately show ?thesis by simp
qed

text \<open>
  \<open>ChecksumStage\<close> leaves the block unchanged, its stored value depends on the last block
  alone, and it detects every corruption of a single byte: two blocks that differ in exactly one
  byte have different checksums.
\<close>

theorem checksum_detects_corruption:
  assumes "v \<noteq> w"
  shows "stage_process us (ChecksumStage old) (xs @ v # ys) = (e, ChecksumStage c, out) \<Longrightarrow>
     e = None \<and> out = xs @ v # ys \<and>
     stage_process us (ChecksumStage old') (xs @ w # ys) \<noteq> (e', ChecksumStage c, out')"
  using assms by (auto simp: block_checksum_def fold_checksum_inject checksum_step_byte_inject)

theorem checksum_detects_corruption_witness:
  "block_checksum [97, 98, 99] = 16654208175385433931 \<and>
   block_checksum [97, 98, 99] \<noteq> block_checksum [97, 0, 99]"
proof -
  have c: "block_checksum [97, 98, 99] = 16654208175385433931" by code_simp
  have p: "stage_process us (ChecksumStage 0) ([97] @ 98 # [99]) =
      (None, ChecksumStage (block_checksum [97, 98, 99]), [97, 98, 99])" for us :: "nat user_stages"
    by simp
  have "(98::byte) \<noteq> 0" by simp
  from checksum_detects_corruption [OF this p] c show ?thesis by auto
qed

end
