(* ===== verification/Pipelines.thy ===== *)
theory Pipelines
  imports Stages Metrics_Registry
begin

text \<open>
  \<open>Pipeline\<close> (\<open>include/pipeline/pipeline.h\<close>, \<open>src/pipeline/pipeline.cpp\<close>): stages run in
  registration order over a block, with an optional latency histogram for each. The registry is
  borrowed, so the operations take and return it; a stage's histogram is a position in it. The
  clock belongs to the environment: \<open>elapsed k\<close> is the duration measured around stage \<open>k\<close>.
\<close>

section \<open>State and operations\<close>

record 'u stage_entry =
  se_stage :: "'u stage"
  se_latency :: "nat option"

record 'u pipeline =
  pl_metrics :: bool
  pl_stages :: "'u stage_entry list"

definition kStageLatencyUpperBoundsNs :: "u64 list" where
  "kStageLatencyUpperBoundsNs =
     [1000, 10000, 100000, 1000000, 10000000, 100000000, 1000000000]"

definition make_stage_latency_metric_name :: "nat \<Rightarrow> string \<Rightarrow> string" where
  "make_stage_latency_metric_name stage_index stage_nm =
     ''stage.'' @ decimal stage_index @ ''.'' @ stage_nm @ ''.latency_ns''"

definition pipeline_new :: "'u pipeline" where
  "pipeline_new = \<lparr>pl_metrics = False, pl_stages = []\<rparr>"

definition pipeline_new_observed :: "'u pipeline" where
  "pipeline_new_observed = \<lparr>pl_metrics = True, pl_stages = []\<rparr>"

definition add_stage ::
  "'u user_stages \<Rightarrow> 'u stage option \<Rightarrow> 'u pipeline \<Rightarrow> metrics_registry \<Rightarrow>
     unit res \<times> 'u pipeline \<times> metrics_registry" where
  "add_stage us stage_ptr pl r =
     (case stage_ptr of
        None \<Rightarrow> (Inl (Invalid_argument ''pipeline stage must not be null''), pl, r)
      | Some s \<Rightarrow>
          if \<not> pl_metrics pl then
            (Inr (), pl\<lparr>pl_stages := pl_stages pl @ [\<lparr>se_stage = s, se_latency = None\<rparr>]\<rparr>, r)
          else
            let metric_name = make_stage_latency_metric_name (length (pl_stages pl)) (stage_name us s);
                pushed = pl_stages pl @ [\<lparr>se_stage = s, se_latency = None\<rparr>] in
            (case add_histogram kStageLatencyUpperBoundsNs metric_name r of
               Inl e \<Rightarrow> (Inl e, pl\<lparr>pl_stages := butlast pushed\<rparr>, r)
             | Inr (latency, r') \<Rightarrow>
                 (Inr (), pl\<lparr>pl_stages := butlast pushed @ [last pushed\<lparr>se_latency := Some latency\<rparr>]\<rparr>,
                  r')))"

fun process_entries ::
  "'u user_stages \<Rightarrow> (nat \<Rightarrow> int) \<Rightarrow> nat \<Rightarrow> 'u stage_entry list \<Rightarrow> metrics_registry \<Rightarrow> byte list \<Rightarrow>
     exn option \<times> 'u stage_entry list \<times> metrics_registry \<times> byte list" where
  "process_entries us elapsed k [] r block = (None, [], r, block)"
| "process_entries us elapsed k (entry # rest) r block =
     (case stage_process us (se_stage entry) block of (err, s', out) \<Rightarrow>
        let entry' = entry\<lparr>se_stage := s'\<rparr>;
            r' = (case se_latency entry of None \<Rightarrow> r
                  | Some latency \<Rightarrow> histogram_at latency (scoped_timer_end (elapsed k)) r) in
        (case err of
           Some e \<Rightarrow> (Some e, entry' # rest, r', out)
         | None \<Rightarrow>
             (case process_entries us elapsed (Suc k) rest r' out of (err', rest', r'', out') \<Rightarrow>
                (err', entry' # rest', r'', out'))))"

definition pipeline_process ::
  "'u user_stages \<Rightarrow> (nat \<Rightarrow> int) \<Rightarrow> 'u pipeline \<Rightarrow> metrics_registry \<Rightarrow> byte list \<Rightarrow>
     exn option \<times> 'u pipeline \<times> metrics_registry \<times> byte list" where
  "pipeline_process us elapsed pl r block =
     (case process_entries us elapsed 0 (pl_stages pl) r block of (err, entries, r', out) \<Rightarrow>
        (err, pl\<lparr>pl_stages := entries\<rparr>, r', out))"

definition stage_count :: "'u pipeline \<Rightarrow> nat" where
  "stage_count pl = length (pl_stages pl)"

section \<open>Specification\<close>

text \<open>
  The stages alone: run them in order, stop at the first that throws. \<open>started\<close> counts the stages
  that run, the throwing one included.
\<close>

fun run_stages ::
  "'u user_stages \<Rightarrow> 'u stage list \<Rightarrow> byte list \<Rightarrow> exn option \<times> 'u stage list \<times> byte list" where
  "run_stages us [] block = (None, [], block)"
| "run_stages us (s # ss) block =
     (case stage_process us s block of
        (Some e, s', out) \<Rightarrow> (Some e, s' # ss, out)
      | (None, s', out) \<Rightarrow>
          (case run_stages us ss out of (err, ss', out') \<Rightarrow> (err, s' # ss', out')))"

fun started :: "'u user_stages \<Rightarrow> 'u stage list \<Rightarrow> byte list \<Rightarrow> nat" where
  "started us [] block = 0"
| "started us (s # ss) block =
     (case stage_process us s block of
        (Some e, s', out) \<Rightarrow> 1
      | (None, s', out) \<Rightarrow> Suc (started us ss out))"

definition hist_samples :: "nat \<Rightarrow> metrics_registry \<Rightarrow> u64" where
  "hist_samples i r = h_sample_count (snd (histograms r ! i))"

definition pipeline_ok :: "'u pipeline \<Rightarrow> metrics_registry \<Rightarrow> bool" where
  "pipeline_ok pl r \<longleftrightarrow>
     (if pl_metrics pl then
        \<exists>is. map se_latency (pl_stages pl) = map Some is \<and> distinct is \<and>
             (\<forall>i \<in> set is. i < length (histograms r))
      else \<forall>entry \<in> set (pl_stages pl). se_latency entry = None)"

section \<open>Lemmas\<close>

lemma run_stages_length: "run_stages us ss block = (err, ss', out) \<Longrightarrow> length out = length block"
proof (induction ss arbitrary: block ss')
  case (Cons s ss)
  obtain e s1 b1 where p: "stage_process us s block = (e, s1, b1)" by (metis prod.exhaust)
  with Cons show ?case
    by (auto split: option.splits prod.splits dest!: stage_process_length)
qed simp

lemma run_stages_count: "run_stages us ss block = (err, ss', out) \<Longrightarrow> length ss' = length ss"
proof (induction ss arbitrary: block ss')
  case (Cons s ss)
  then show ?case by (auto split: option.splits prod.splits)
qed simp

lemma started_le: "started us ss block \<le> length ss"
  by (induction ss arbitrary: block) (auto split: option.splits prod.splits)

lemma started_all:
  "run_stages us ss block = (None, ss', out) \<Longrightarrow> started us ss block = length ss"
proof (induction ss arbitrary: block ss')
  case (Cons s ss)
  then show ?case by (auto split: option.splits prod.splits)
qed simp

lemma update_entry_sel [simp]:
  "length (update_entry i f es) = length es" "map fst (update_entry i f es) = map fst es"
  by (simp_all add: update_entry_def map_update list_update_id list_update_same_conv) (metis list_update_id map_update)

lemma histogram_at_sel [simp]:
  "length (histograms (histogram_at i f r)) = length (histograms r)"
  "counters (histogram_at i f r) = counters r" "gauges (histogram_at i f r) = gauges r"
  "registry_names (histogram_at i f r) = registry_names r"
  by (simp_all add: histogram_at_def registry_names_def)

lemma hist_samples_at:
  "i < length (histograms r) \<Longrightarrow>
   hist_samples j (histogram_at i (scoped_timer_end t) r) = hist_samples j r + (if i = j then 1 else 0)"
  by (cases "i = j") (simp_all add: hist_samples_def histogram_at_def update_entry_def scoped_timer_end_def)

lemma histogram_at_ok:
  assumes "registry_ok r" and "\<And>h. histogram_wf h \<Longrightarrow> histogram_wf (f h)"
  shows "registry_ok (histogram_at i f r)"
proof (cases "i < length (histograms r)")
  case False
  then have "histogram_at i f r = r" by (simp add: histogram_at_def update_entry_def list_update_beyond)
  with assms show ?thesis by simp
next
  case True
  then have "histogram_wf (snd (histograms r ! i))"
    using assms(1) nth_mem [OF True] by (cases "histograms r ! i") (auto simp: registry_ok_def)
  then have "\<forall>(n, h) \<in> set (histograms (histogram_at i f r)). histogram_wf h"
    using assms set_update_subset_insert [of "histograms r" i]
    by (fastforce simp: histogram_at_def update_entry_def registry_ok_def)
  then show ?thesis using assms(1) by (simp add: registry_ok_def registry_size_names)
qed

lemma process_entries_spec:
  assumes "process_entries us elapsed k es r block = (err, es', r', out)"
    and "\<forall>entry \<in> set es. \<forall>i. se_latency entry = Some i \<longrightarrow> i < length (histograms r)"
  shows "(err, map se_stage es', out) = run_stages us (map se_stage es) block \<and>
    map se_latency es' = map se_latency es \<and>
    length (histograms r') = length (histograms r) \<and> registry_names r' = registry_names r \<and>
    (registry_ok r \<longrightarrow> registry_ok r') \<and>
    (\<forall>i. hist_samples i r' = hist_samples i r +
       of_nat (count_list (take (started us (map se_stage es) block) (map se_latency es)) (Some i)))"
  using assms
proof (induction es arbitrary: k r block err es' r' out)
  case Nil
  then show ?case by simp
next
  case (Cons entry rest)
  obtain e s1 b1 where p: "stage_process us (se_stage entry) block = (e, s1, b1)"
    by (metis prod.exhaust)
  define r1 where "r1 = (case se_latency entry of None \<Rightarrow> r
      | Some latency \<Rightarrow> histogram_at latency (scoped_timer_end (elapsed k)) r)"
  have r1: "length (histograms r1) = length (histograms r)" "registry_names r1 = registry_names r"
    "registry_ok r \<longrightarrow> registry_ok r1"
    by (auto simp: r1_def histogram_at_ok scoped_timer_end_wf split: option.split)
  have samples: "hist_samples i r1 = hist_samples i r + (if se_latency entry = Some i then 1 else 0)" for i
    using Cons.prems(2) by (auto simp: r1_def hist_samples_at split: option.split)
  show ?case
  proof (cases e)
    case (Some x)
    with Cons.prems(1) p have res: "err = Some x" "es' = entry\<lparr>se_stage := s1\<rparr> # rest" "r' = r1" "out = b1"
      by (auto simp: r1_def Let_def)
    with Some p r1 samples show ?thesis by simp
  next
    case None
    obtain err2 es2 r2 b2 where q: "process_entries us elapsed (Suc k) rest r1 b1 = (err2, es2, r2, b2)"
      by (metis prod.exhaust)
    have "\<forall>entry \<in> set rest. \<forall>i. se_latency entry = Some i \<longrightarrow> i < length (histograms r1)"
      using Cons.prems(2) by (simp add: r1)
    with Cons.IH [OF q]
    have IH: "(err2, map se_stage es2, b2) = run_stages us (map se_stage rest) b1 \<and>
      map se_latency es2 = map se_latency rest \<and>
      length (histograms r2) = length (histograms r1) \<and> registry_names r2 = registry_names r1 \<and>
      (registry_ok r1 \<longrightarrow> registry_ok r2) \<and>
      (\<forall>i. hist_samples i r2 = hist_samples i r1 +
        of_nat (count_list (take (started us (map se_stage rest) b1) (map se_latency rest)) (Some i)))"
      by blast
    have res: "err = err2" "es' = entry\<lparr>se_stage := s1\<rparr> # es2" "r' = r2" "out = b2"
      using Cons.prems(1) p None q by (simp_all add: r1_def [symmetric] Let_def)
    show ?thesis
      using IH p None r1 by (auto simp: res samples split: prod.splits)
  qed
qed

lemma count_list_distinct: "distinct xs \<Longrightarrow> count_list xs x = (if x \<in> set xs then 1 else 0)"
  by (induction xs) auto

lemma count_list_take_distinct:
  assumes "distinct xs" and "k < length xs"
  shows "count_list (take n xs) (xs ! k) = (if k < n then 1 else 0)"
proof -
  have "xs ! k \<in> set (take n xs) \<longleftrightarrow> k < n"
  proof
    assume "xs ! k \<in> set (take n xs)"
    then obtain j where "j < length (take n xs)" "take n xs ! j = xs ! k"
      by (metis in_set_conv_nth)
    then have "j < n" "j < length xs" "xs ! j = xs ! k" by simp_all
    then show "k < n" using assms nth_eq_iff_index_eq by blast
  next
    assume "k < n"
    with assms(2) show "xs ! k \<in> set (take n xs)"
      by (metis in_set_conv_nth length_take min_less_iff_conj nth_take)
  qed
  moreover have "distinct (take n xs)" using assms(1) by simp
  ultimately show ?thesis by (simp add: count_list_distinct)
qed

lemma pipeline_ok_latency:
  assumes "pipeline_ok pl r" and "entry \<in> set (pl_stages pl)" and "se_latency entry = Some i"
  shows "pl_metrics pl \<and> i < length (histograms r)"
proof (cases "pl_metrics pl")
  case True
  with assms(1) obtain js where js: "map se_latency (pl_stages pl) = map Some js"
    "\<forall>i \<in> set js. i < length (histograms r)" by (auto simp: pipeline_ok_def)
  have "Some i \<in> set (map se_latency (pl_stages pl))" using assms(2,3) by force
  then have "i \<in> set js" by (auto simp: js(1))
  with js True show ?thesis by blast
next
  case False
  with assms show ?thesis by (auto simp: pipeline_ok_def)
qed

lemma pipeline_ok_distinct:
  assumes "pipeline_ok pl r" and "pl_metrics pl"
  shows "distinct (map se_latency (pl_stages pl))"
proof -
  obtain js where js: "map se_latency (pl_stages pl) = map Some js" "distinct js"
    using assms by (auto simp: pipeline_ok_def)
  show ?thesis unfolding js(1) using js(2) by (simp add: distinct_map)
qed

lemma pipeline_process_run:
  assumes "pipeline_ok pl r" and "pipeline_process us elapsed pl r block = (err, pl', r', out)"
  shows "(err, map se_stage (pl_stages pl'), out) = run_stages us (map se_stage (pl_stages pl)) block"
    and "pipeline_ok pl' r'" and "pl_metrics pl' = pl_metrics pl"
    and "map se_latency (pl_stages pl') = map se_latency (pl_stages pl)"
    and "registry_ok r \<longrightarrow> registry_ok r'"
    and "length (histograms r') = length (histograms r)" and "registry_names r' = registry_names r"
    and "\<forall>i. hist_samples i r' = hist_samples i r +
       of_nat (count_list (take (started us (map se_stage (pl_stages pl)) block)
                  (map se_latency (pl_stages pl))) (Some i))"
proof -
  obtain es where p: "process_entries us elapsed 0 (pl_stages pl) r block = (err, es, r', out)"
    and pl': "pl' = pl\<lparr>pl_stages := es\<rparr>"
    using assms(2) by (auto simp: pipeline_process_def split: prod.splits)
  have "\<forall>entry \<in> set (pl_stages pl). \<forall>i. se_latency entry = Some i \<longrightarrow> i < length (histograms r)"
    using pipeline_ok_latency [OF assms(1)] by blast
  note spec = process_entries_spec [OF p this]
  show run: "(err, map se_stage (pl_stages pl'), out) = run_stages us (map se_stage (pl_stages pl)) block"
    and lat: "map se_latency (pl_stages pl') = map se_latency (pl_stages pl)"
    and "registry_ok r \<longrightarrow> registry_ok r'" and len: "length (histograms r') = length (histograms r)"
    and "registry_names r' = registry_names r"
    and "\<forall>i. hist_samples i r' = hist_samples i r +
       of_nat (count_list (take (started us (map se_stage (pl_stages pl)) block)
                  (map se_latency (pl_stages pl))) (Some i))"
    using spec by (simp_all add: pl')
  show met: "pl_metrics pl' = pl_metrics pl" by (simp add: pl')
  have "(\<forall>e \<in> set (pl_stages pl'). se_latency e = None) \<longleftrightarrow> (\<forall>e \<in> set (pl_stages pl). se_latency e = None)"
    using arg_cong [OF lat, of set] by (metis (no_types, lifting) imageE image_eqI list.set_map)
  then show "pipeline_ok pl' r'"
    using assms(1) unfolding pipeline_ok_def met lat len by simp
qed

subsection \<open>Adding stages\<close>

lemma stage_metric_name_inject:
  "make_stage_latency_metric_name i n = make_stage_latency_metric_name j m \<longleftrightarrow> i = j \<and> n = m"
proof
  assume "make_stage_latency_metric_name i n = make_stage_latency_metric_name j m"
  then have eq: "decimal i @ CHR ''.'' # n @ ''.latency_ns'' = decimal j @ CHR ''.'' # m @ ''.latency_ns''"
    by (simp add: make_stage_latency_metric_name_def)
  have pre: "takeWhile (\<lambda>c. c \<noteq> CHR ''.'') (decimal k @ CHR ''.'' # rest) = decimal k" for k rest
    using decimal_no_dot [of k] by (subst takeWhile_append2) auto
  have "decimal i = decimal j" using arg_cong [OF eq, of "takeWhile (\<lambda>c. c \<noteq> CHR ''.'')"] by (simp only: pre)
  with eq show "i = j \<and> n = m" by simp
qed simp

lemma latency_bounds_ok: "\<exists>h. histogram_new kStageLatencyUpperBoundsNs = Inr h"
  unfolding histogram_new_checks by (simp add: kStageLatencyUpperBoundsNs_def)

lemma add_stage_Inr:
  assumes "pipeline_ok pl r" and "registry_ok r" and "add_stage us (Some s) pl r = (Inr u, pl', r')"
  shows "pipeline_ok pl' r' \<and> registry_ok r' \<and> pl_metrics pl' = pl_metrics pl \<and>
    map se_stage (pl_stages pl') = map se_stage (pl_stages pl) @ [s] \<and>
    (pl_metrics pl \<longrightarrow> registry_size r' = registry_size r + 1 \<and>
       set (registry_names r') = insert (make_stage_latency_metric_name (stage_count pl) (stage_name us s))
         (set (registry_names r)) \<and>
       find_histogram (make_stage_latency_metric_name (stage_count pl) (stage_name us s)) r'
         = se_latency (last (pl_stages pl'))) \<and>
    (\<not> pl_metrics pl \<longrightarrow> r' = r)"
proof (cases "pl_metrics pl")
  case False
  with assms show ?thesis by (auto simp: add_stage_def pipeline_ok_def)
next
  case True
  let ?name = "make_stage_latency_metric_name (stage_count pl) (stage_name us s)"
  from True assms(3) obtain i where add: "add_histogram kStageLatencyUpperBoundsNs ?name r = Inr (i, r')"
    and pl': "pl' = pl\<lparr>pl_stages := pl_stages pl @ [\<lparr>se_stage = s, se_latency = Some i\<rparr>]\<rparr>"
    by (auto simp: add_stage_def Let_def stage_count_def split: sum.splits prod.splits)
  obtain h where i: "i = length (histograms r)" and r': "r' = r\<lparr>histograms := histograms r @ [(?name, h)]\<rparr>"
    using add_histogram_Inr(2,3) [OF add] by blast
  obtain js where js: "map se_latency (pl_stages pl) = map Some js" "distinct js"
    "\<forall>i \<in> set js. i < length (histograms r)"
    using assms(1) True by (auto simp: pipeline_ok_def)
  have "map se_latency (pl_stages pl') = map Some (js @ [i])" by (simp add: pl' js(1))
  moreover have "distinct (js @ [i])" using js by (auto simp: i)
  moreover have "\<forall>j \<in> set (js @ [i]). j < length (histograms r')" using js by (auto simp: i r')
  moreover have "pl_metrics pl'" using True by (simp add: pl')
  ultimately have "pipeline_ok pl' r'" unfolding pipeline_ok_def by metis
  then show ?thesis
    using True histogram_kind.add_ok [OF assms(2) add] histogram_kind.add_names [OF add]
      histogram_kind.lookup_added [OF add] by (simp add: pl')
qed

lemma add_stage_Inl:
  assumes "add_stage us stage_ptr pl r = (Inl e, pl', r')"
  shows "pl' = pl \<and> r' = r"
  using assms by (auto simp: add_stage_def Let_def split: option.splits if_splits sum.splits prod.splits)

lemma add_stage_succeeds_iff:
  "fst (add_stage us (Some s) pl r) = Inr () \<longleftrightarrow>
     \<not> pl_metrics pl \<or>
     validate_new_name (make_stage_latency_metric_name (stage_count pl) (stage_name us s)) r = Inr ()"
  using latency_bounds_ok
  by (auto simp: add_stage_def Let_def add_histogram_def stage_count_def split: sum.splits)

fun add_stages ::
  "'u user_stages \<Rightarrow> 'u stage list \<Rightarrow> 'u pipeline \<Rightarrow> metrics_registry \<Rightarrow>
     unit res \<times> 'u pipeline \<times> metrics_registry" where
  "add_stages us [] pl r = (Inr (), pl, r)"
| "add_stages us (s # ss) pl r =
     (case add_stage us (Some s) pl r of
        (Inl e, pl', r') \<Rightarrow> (Inl e, pl', r')
      | (Inr _, pl', r') \<Rightarrow> add_stages us ss pl' r')"

lemma decimal_two_digits: "n < 100 \<Longrightarrow> length (decimal n) \<le> 2"
  by (subst decimal.simps, subst decimal.simps) auto

lemma add_stages_fresh:
  assumes "pipeline_ok pl r" and "registry_ok r" and "pl_metrics pl"
    and "registry_size r = stage_count pl" and "stage_count pl + length ss \<le> kMaxMetricCount"
    and "\<forall>s \<in> set ss. length (stage_name us s) \<le> 108"
    and "\<forall>n \<in> set (registry_names r). \<exists>i m. n = make_stage_latency_metric_name i m \<and> i < stage_count pl"
  shows "\<exists>pl' r'. add_stages us ss pl r = (Inr (), pl', r') \<and> pipeline_ok pl' r' \<and> registry_ok r' \<and>
    map se_stage (pl_stages pl') = map se_stage (pl_stages pl) @ ss \<and> pl_metrics pl'"
  using assms
proof (induction ss arbitrary: pl r)
  case Nil
  then show ?case by simp
next
  case (Cons s ss)
  let ?name = "make_stage_latency_metric_name (stage_count pl) (stage_name us s)"
  have lt: "stage_count pl < 64" using Cons.prems(5) by simp
  then have "length (decimal (stage_count pl)) \<le> 2" by (intro decimal_two_digits) simp
  then have "length ?name \<le> 128"
    using Cons.prems(6) by (simp add: make_stage_latency_metric_name_def)
  moreover have "?name \<notin> set (registry_names r)"
    using Cons.prems(7) by (auto simp: stage_metric_name_inject)
  moreover have "?name \<noteq> []" by (simp add: make_stage_latency_metric_name_def)
  ultimately have "validate_new_name ?name r = Inr ()"
    using Cons.prems(4) lt by (simp add: validate_new_name_iff)
  then obtain pl1 r1 where add: "add_stage us (Some s) pl r = (Inr (), pl1, r1)"
    using add_stage_succeeds_iff [of us s pl r] by (metis prod.collapse)
  note step = add_stage_Inr [OF Cons.prems(1,2) add]
  have count: "stage_count pl1 = stage_count pl + 1"
    using step arg_cong [of _ _ length] unfolding stage_count_def by (metis length_append_singleton length_map Suc_eq_plus1)
  have "\<forall>n \<in> set (registry_names r1). \<exists>i m. n = make_stage_latency_metric_name i m \<and> i < stage_count pl1"
  proof
    fix n assume "n \<in> set (registry_names r1)"
    then have "n = ?name \<or> n \<in> set (registry_names r)" using step Cons.prems(3) by simp
    then show "\<exists>i m. n = make_stage_latency_metric_name i m \<and> i < stage_count pl1"
      using Cons.prems(7) count by (metis less_Suc_eq Suc_eq_plus1)
  qed
  with Cons.IH [of pl1 r1] step Cons.prems(3,4,5,6) count add show ?case by auto
qed

section \<open>Properties\<close>

text \<open>
  C40: \<open>Pipeline::process\<close> runs the stages in registration order, each on the block the previous one
  left, stops at the first exception and passes it on, and never changes the block's length.
  Instrumentation does not change any of this, and records exactly one latency sample for every
  stage that ran, the throwing one included, and none for the others.
\<close>

theorem pipeline_process_correct:
  assumes "pipeline_ok pl r" and "pipeline_process us elapsed pl r block = (err, pl', r', out)"
  shows "(err, map se_stage (pl_stages pl'), out) = run_stages us (map se_stage (pl_stages pl)) block \<and>
    length out = length block \<and> pipeline_ok pl' r' \<and>
    (\<forall>k < stage_count pl. \<forall>i. se_latency (pl_stages pl ! k) = Some i \<longrightarrow>
       hist_samples i r' = hist_samples i r +
         (if k < started us (map se_stage (pl_stages pl)) block then 1 else 0))"
proof -
  note run = pipeline_process_run [OF assms]
  have "hist_samples i r' = hist_samples i r +
         (if k < started us (map se_stage (pl_stages pl)) block then 1 else 0)"
    if k: "k < stage_count pl" and i: "se_latency (pl_stages pl ! k) = Some i" for k i
  proof -
    have mem: "pl_stages pl ! k \<in> set (pl_stages pl)" using k by (simp add: stage_count_def)
    have "distinct (map se_latency (pl_stages pl))"
      using pipeline_ok_latency [OF assms(1) mem i] by (intro pipeline_ok_distinct [OF assms(1)]) simp
    moreover have "map se_latency (pl_stages pl) ! k = Some i" using k i by (simp add: stage_count_def)
    ultimately have "count_list (take n (map se_latency (pl_stages pl))) (Some i) = (if k < n then 1 else 0)" for n
      using count_list_take_distinct [of "map se_latency (pl_stages pl)" k n] k by (simp add: stage_count_def)
    with run(8) show ?thesis by simp
  qed
  with run(1,2) run_stages_length [OF run(1) [symmetric]] show ?thesis by blast
qed

text \<open>A user stage that overwrites the first byte and throws.\<close>

definition throwing_stages :: "nat user_stages" where
  "throwing_stages = \<lparr>user_name = (\<lambda>_. ''thrower''),
     user_process = (\<lambda>u block. (Some (User_exception u), u, [255]))\<rparr>"

definition example_pipeline :: "nat pipeline" where
  "example_pipeline = fst (snd (add_stages throwing_stages
     [ByteIncrementStage, UserStage 3, NoOpStage] pipeline_new_observed registry_new))"

definition example_registry :: metrics_registry where
  "example_registry = snd (snd (add_stages throwing_stages
     [ByteIncrementStage, UserStage 3, NoOpStage] (pipeline_new_observed :: nat pipeline) registry_new))"

lemma example_pipeline_ok:
  "pipeline_ok example_pipeline example_registry" "registry_ok example_registry"
  "map se_stage (pl_stages example_pipeline) = [ByteIncrementStage, UserStage 3, NoOpStage]"
proof -
  have fresh: "pipeline_ok (pipeline_new_observed :: nat pipeline) registry_new"
    by (simp add: pipeline_ok_def pipeline_new_observed_def)
  have x: "\<exists>pl' r'. add_stages throwing_stages [ByteIncrementStage, UserStage 3, NoOpStage]
      pipeline_new_observed registry_new = (Inr (), pl', r') \<and> pipeline_ok pl' r' \<and> registry_ok r' \<and>
      map se_stage (pl_stages pl') = map se_stage (pl_stages (pipeline_new_observed :: nat pipeline)) @
        [ByteIncrementStage, UserStage 3, NoOpStage] \<and> pl_metrics pl'"
    by (rule add_stages_fresh [OF fresh registry_new_ok])
      (simp_all add: pipeline_new_observed_def stage_count_def registry_size_def registry_new_def
        registry_names_def throwing_stages_def)
  show "pipeline_ok example_pipeline example_registry" "registry_ok example_registry"
    "map se_stage (pl_stages example_pipeline) = [ByteIncrementStage, UserStage 3, NoOpStage]"
    using x by (auto simp: example_pipeline_def example_registry_def pipeline_new_observed_def)
qed

theorem pipeline_process_correct_witness:
  "case pipeline_process throwing_stages (\<lambda>_. 5) example_pipeline example_registry [1, 2] of
     (err, pl', r', out) \<Rightarrow>
       err = Some (User_exception 3) \<and> out = [255, 3] \<and> pipeline_ok pl' r'"
proof -
  let ?p = "pipeline_process throwing_stages (\<lambda>_. 5) example_pipeline example_registry [1, 2]"
  obtain err pl' r' out where p: "?p = (err, pl', r', out)" by (metis prod.exhaust)
  from pipeline_process_correct [OF example_pipeline_ok(1) p] example_pipeline_ok(3)
  have "(err, map se_stage (pl_stages pl'), out) =
      run_stages throwing_stages [ByteIncrementStage, UserStage 3, NoOpStage] [1, 2]"
    and "pipeline_ok pl' r'" by simp_all
  then show ?thesis
    unfolding p by (simp add: byte_increment_map throwing_stages_def store_prefix_def)
qed

text \<open>
  \<open>add_stage\<close> has the strong exception guarantee and never fails for want of a fresh name. When
  it throws (a null stage, or a metric that cannot be registered) the pipeline and the registry
  are as before; when it succeeds the stage is appended and, if instrumented, its own histogram is
  findable under \<open>stage.<index>.<name>.latency_ns\<close>. The only reasons to refuse a stage are a name
  that is too long or already used by someone else, and a full registry.
\<close>

theorem add_stage_strong_guarantee:
  assumes "pipeline_ok pl r" and "registry_ok r" and "add_stage us (Some s) pl r = (res, pl', r')"
  shows "case res of
      Inl e \<Rightarrow> pl' = pl \<and> r' = r \<and> pl_metrics pl \<and>
        (let name = make_stage_latency_metric_name (stage_count pl) (stage_name us s) in
         kMaxMetricNameLength < length name \<or> name \<in> set (registry_names r) \<or>
         registry_size r = kMaxMetricCount)
    | Inr _ \<Rightarrow> pipeline_ok pl' r' \<and> registry_ok r' \<and>
        map se_stage (pl_stages pl') = map se_stage (pl_stages pl) @ [s] \<and>
        (pl_metrics pl \<longrightarrow>
           find_histogram (make_stage_latency_metric_name (stage_count pl) (stage_name us s)) r'
             = se_latency (last (pl_stages pl')))"
proof (cases res)
  case (Inr u)
  with add_stage_Inr [OF assms(1,2) assms(3) [unfolded Inr]] show ?thesis by simp
next
  case (Inl e)
  let ?name = "make_stage_latency_metric_name (stage_count pl) (stage_name us s)"
  have m: "pl_metrics pl" and v: "validate_new_name ?name r \<noteq> Inr ()"
    using add_stage_succeeds_iff [of us s pl r] assms(3) Inl by auto
  have "?name \<noteq> []" by (simp add: make_stage_latency_metric_name_def)
  moreover have "registry_size r \<le> kMaxMetricCount" using assms(2) by (simp add: registry_ok_def)
  ultimately have "kMaxMetricNameLength < length ?name \<or> ?name \<in> set (registry_names r) \<or>
         registry_size r = kMaxMetricCount"
    using v unfolding validate_new_name_iff by linarith
  with Inl m add_stage_Inl [OF assms(3) [unfolded Inl]] show ?thesis by (simp add: Let_def)
qed

theorem add_stage_strong_guarantee_witness:
  "case add_stage throwing_stages (Some NoOpStage) example_pipeline example_registry of
     (Inr _, pl', r') \<Rightarrow> pipeline_ok pl' r' \<and> stage_count pl' = 4
   | (Inl _, _, _) \<Rightarrow> False"
proof -
  let ?a = "add_stage throwing_stages (Some NoOpStage) example_pipeline example_registry"
  have "fst ?a = Inr ()" by code_simp
  then obtain pl' r' where a: "?a = (Inr (), pl', r')" by (metis prod.collapse)
  from add_stage_strong_guarantee [OF example_pipeline_ok(1,2) a]
  have ok: "pipeline_ok pl' r'"
    and m: "map se_stage (pl_stages pl') = [ByteIncrementStage, UserStage 3, NoOpStage, NoOpStage]"
    by (simp_all add: example_pipeline_ok(3))
  have "stage_count pl' = 4" using arg_cong [OF m, of length] by (simp add: stage_count_def)
  with ok show ?thesis unfolding a by simp
qed

end
