(* ===== verification/Coroutines.thy ===== *)
theory Coroutines
  imports Prelude
begin

text \<open>
  The coroutine layer: \<open>Task<T>\<close> (\<open>include/coroutine/task.h\<close>) and \<open>CompletionRequest\<close>
  (\<open>include/coroutine/completion_request.h\<close>). A coroutine's frame is suspended at a point of any
  type \<open>'s\<close> or at its final suspension; its body is a parameter that runs from one suspension to
  the next over a world \<open>'w\<close>, and may not return (\<open>None\<close>).
\<close>

section \<open>Tasks\<close>

datatype 's frame = Frame_at 's | Frame_final

datatype ('s, 'v) co_step = Co_suspend 's | Co_return 'v | Co_throw exn

type_synonym ('s, 'v, 'w) co_body = "'s \<Rightarrow> 'w \<Rightarrow> (('s, 'v) co_step \<times> 'w) option"

record ('s, 'v) coroutine =
  co_frame :: "'s frame"
  co_value :: "'v option"
  co_exception :: "exn option"

record ('s, 'v) task =
  task_handle :: "('s, 'v) coroutine option"
  task_started :: bool

text \<open>\<open>get_return_object\<close> with \<open>initial_suspend\<close>: the coroutine is suspended before its body.\<close>

definition task_new :: "'s \<Rightarrow> ('s, 'v) task" where
  "task_new s =
     \<lparr>task_handle = Some \<lparr>co_frame = Frame_at s, co_value = None, co_exception = None\<rparr>,
      task_started = False\<rparr>"

text \<open>
  \<open>handle.resume()\<close> with \<open>return_value\<close> and \<open>unhandled_exception\<close>. Resuming at the final
  suspension is undefined in C++; \<open>start\<close> never does it, and the model leaves the frame there.
\<close>

fun co_resume ::
  "('s, 'v, 'w) co_body \<Rightarrow> ('s, 'v) coroutine \<Rightarrow> 'w \<Rightarrow> (('s, 'v) coroutine \<times> 'w) option" where
  "co_resume body c w =
     (case co_frame c of
        Frame_final \<Rightarrow> Some (c, w)
      | Frame_at s \<Rightarrow>
          (case body s w of
             None \<Rightarrow> None
           | Some (Co_suspend s', w') \<Rightarrow> Some (c\<lparr>co_frame := Frame_at s'\<rparr>, w')
           | Some (Co_return v, w') \<Rightarrow> Some (c\<lparr>co_frame := Frame_final, co_value := Some v\<rparr>, w')
           | Some (Co_throw e, w') \<Rightarrow> Some (c\<lparr>co_frame := Frame_final, co_exception := Some e\<rparr>, w')))"

definition task_valid :: "('s, 'v) task \<Rightarrow> bool" where
  "task_valid t \<longleftrightarrow> task_handle t \<noteq> None"

definition task_done :: "('s, 'v) task \<Rightarrow> bool" where
  "task_done t \<longleftrightarrow> (case task_handle t of None \<Rightarrow> False | Some c \<Rightarrow> co_frame c = Frame_final)"

definition task_start ::
  "('s, 'v, 'w) co_body \<Rightarrow> ('s, 'v) task \<Rightarrow> 'w \<Rightarrow> (unit res \<times> ('s, 'v) task \<times> 'w) option" where
  "task_start body t w =
     (case task_handle t of
        None \<Rightarrow> Some (Inl (Logic_error ''cannot start an invalid Task''), t, w)
      | Some c \<Rightarrow>
          if task_started t then Some (Inl (Logic_error ''Task has already been started''), t, w)
          else
            (case co_resume body c w of
               None \<Rightarrow> None
             | Some (c', w') \<Rightarrow> Some (Inr (), \<lparr>task_handle = Some c', task_started = True\<rparr>, w')))"

definition task_result :: "('s, 'v) task \<Rightarrow> 'v res \<times> ('s, 'v) task" where
  "task_result t =
     (case task_handle t of
        None \<Rightarrow> (Inl (Logic_error ''cannot get a result from an invalid Task''), t)
      | Some c \<Rightarrow>
          if \<not> task_started t then
            (Inl (Logic_error ''cannot get a result before Task is started''), t)
          else if co_frame c \<noteq> Frame_final then
            (Inl (Logic_error ''cannot get a result before Task completes''), t)
          else
            (case co_exception c of
               Some e \<Rightarrow> (Inl e, t)
             | None \<Rightarrow>
                 (case co_value c of
                    None \<Rightarrow> (Inl (Logic_error ''Task result has already been consumed''), t)
                  | Some v \<Rightarrow> (Inr v, t\<lparr>task_handle := Some (c\<lparr>co_value := None\<rparr>)\<rparr>))))"

definition null_task :: "('s, 'v) task" where
  "null_task = \<lparr>task_handle = None, task_started = False\<rparr>"

definition task_move_construct :: "('s, 'v) task \<Rightarrow> ('s, 'v) task \<times> ('s, 'v) task" where
  "task_move_construct other = (other, null_task)"

text \<open>The old frame is destroyed by the assignment (and by \<open>~Task\<close>): it disappears.\<close>

definition task_move_assign ::
  "bool \<Rightarrow> ('s, 'v) task \<Rightarrow> ('s, 'v) task \<Rightarrow> ('s, 'v) task \<times> ('s, 'v) task" where
  "task_move_assign same t other = (if same then (t, other) else (other, null_task))"

section \<open>Completion requests\<close>

text \<open>
  \<open>'k\<close> is a coroutine handle; whether it is at its final suspension is a parameter. \<open>complete\<close>
  hands back the continuation it resumes, which is its last action.
\<close>

record 'k completion_request =
  cr_continuation :: "'k option"
  cr_result :: int
  cr_completed :: bool

definition completion_request_new :: "'k completion_request" where
  "completion_request_new = \<lparr>cr_continuation = None, cr_result = 0, cr_completed = False\<rparr>"

definition set_continuation ::
  "'k option \<Rightarrow> 'k completion_request \<Rightarrow> unit res \<times> 'k completion_request" where
  "set_continuation continuation c =
     (if continuation = None then
        (Inl (Logic_error ''cannot store an empty continuation''), c)
      else if cr_completed c then
        (Inl (Logic_error ''cannot attach a continuation after completion''), c)
      else if cr_continuation c \<noteq> None then
        (Inl (Logic_error ''CompletionRequest already has a continuation''), c)
      else (Inr (), c\<lparr>cr_continuation := continuation\<rparr>))"

definition has_continuation :: "'k completion_request \<Rightarrow> bool" where
  "has_continuation c \<longleftrightarrow> cr_continuation c \<noteq> None"

definition completion_result :: "'k completion_request \<Rightarrow> int res" where
  "completion_result c =
     (if \<not> cr_completed c then Inl (Logic_error ''completion result is not available'')
      else Inr (cr_result c))"

definition complete_request ::
  "('k \<Rightarrow> bool) \<Rightarrow> int \<Rightarrow> 'k completion_request \<Rightarrow> 'k res \<times> 'k completion_request" where
  "complete_request is_done r c =
     (if cr_completed c then
        (Inl (Logic_error ''CompletionRequest was completed more than once''), c)
      else
        (case cr_continuation c of
           None \<Rightarrow> (Inl (Logic_error ''cannot complete a request without a continuation''), c)
         | Some k \<Rightarrow>
             if is_done k then
               (Inl (Logic_error ''cannot resume an already completed coroutine''), c)
             else (Inr k, \<lparr>cr_continuation = None, cr_result = r, cr_completed = True\<rparr>)))"

section \<open>Protocols\<close>

text \<open>Any sequence of calls on one request, with the log of resumed continuations.\<close>

datatype 'k request_op = Req_attach "'k option" | Req_complete int

fun request_step ::
  "('k \<Rightarrow> bool) \<Rightarrow> 'k request_op \<Rightarrow> 'k completion_request \<times> ('k \<times> int) list \<Rightarrow>
     'k completion_request \<times> ('k \<times> int) list" where
  "request_step is_done (Req_attach k) (c, resumed) = (snd (set_continuation k c), resumed)"
| "request_step is_done (Req_complete r) (c, resumed) =
     (case complete_request is_done r c of
        (Inl _, c') \<Rightarrow> (c', resumed)
      | (Inr k, c') \<Rightarrow> (c', resumed @ [(k, r)]))"

definition request_inv :: "'k completion_request \<times> ('k \<times> int) list \<Rightarrow> bool" where
  "request_inv s \<longleftrightarrow> (case s of (c, resumed) \<Rightarrow>
     if cr_completed c then cr_continuation c = None \<and> (\<exists>k. resumed = [(k, cr_result c)])
     else resumed = [])"

lemma request_step_inv: "request_inv s \<Longrightarrow> request_inv (request_step is_done op s)"
  by (cases "(is_done, op, s)" rule: request_step.cases)
    (auto simp: request_inv_def set_continuation_def complete_request_def split: option.splits)

lemma request_run_inv: "request_inv s \<Longrightarrow> request_inv (fold (request_step is_done) ops s)"
  by (induction ops arbitrary: s) (simp_all add: request_step_inv)

lemma request_new_inv: "request_inv (completion_request_new, [])"
  by (simp add: request_inv_def completion_request_new_def)

section \<open>Properties\<close>

text \<open>
  A completion request resumes at most one continuation, once. Whatever sequence of
  \<open>set_continuation\<close> and \<open>complete\<close> calls is made on a new request, at most one continuation was
  resumed; one was exactly if the request is completed, and then \<open>completion_result\<close> is the
  result it was resumed with and every further \<open>complete\<close> is refused.
\<close>

theorem request_resumes_once:
  assumes "fold (request_step is_done) ops (completion_request_new, []) = (c, resumed)"
  shows "length resumed \<le> 1 \<and>
    (cr_completed c \<longleftrightarrow> resumed \<noteq> []) \<and>
    (\<forall>k r. resumed = [(k, r)] \<longrightarrow>
       completion_result c = Inr r \<and> (\<forall>r'. \<exists>e. complete_request is_done r' c = (Inl e, c)))"
proof -
  have "request_inv (c, resumed)"
    using request_run_inv [OF request_new_inv, of is_done ops] by (simp add: assms)
  then show ?thesis
    by (auto simp: request_inv_def completion_result_def complete_request_def split: if_splits)
qed

theorem request_resumes_once_witness:
  "\<exists>c. fold (request_step (\<lambda>k. False))
      [Req_complete 1, Req_attach (Some (7::nat)), Req_complete 5, Req_complete 6]
      (completion_request_new, []) = (c, [(7, 5)]) \<and> completion_result c = Inr 5"
proof -
  let ?ops = "[Req_complete 1, Req_attach (Some (7::nat)), Req_complete 5, Req_complete 6]"
  let ?c = "\<lparr>cr_continuation = None, cr_result = 5, cr_completed = True\<rparr> :: nat completion_request"
  have run: "fold (request_step (\<lambda>k. False)) ?ops (completion_request_new, []) = (?c, [(7, 5)])"
    by (simp add: complete_request_def set_continuation_def completion_request_new_def)
  from request_resumes_once [OF run] run show ?thesis by blast
qed

text \<open>
  A task runs its coroutine and hands out its result at most once. Starting a new task whose
  body completes leaves it done; \<open>result\<close> then yields the returned value or rethrows the stored
  exception; after a value was taken, \<open>result\<close> is refused, and so is a second \<open>start\<close>, neither
  changing anything.
\<close>

theorem task_single_use:
  assumes "task_start body (task_new s) w = Some (u, t, w')" and "task_done t"
  shows "u = Inr () \<and> task_start body t w'' = Some (Inl (Logic_error ''Task has already been started''), t, w'') \<and>
    (\<forall>v. body s w = Some (Co_return v, w') \<longrightarrow>
       (\<exists>t'. task_result t = (Inr v, t') \<and>
          task_result t' = (Inl (Logic_error ''Task result has already been consumed''), t') \<and>
          task_start body t' w'' = Some (Inl (Logic_error ''Task has already been started''), t', w''))) \<and>
    (\<forall>e. body s w = Some (Co_throw e, w') \<longrightarrow> task_result t = (Inl e, t))"
  using assms
  by (auto simp: task_start_def task_new_def task_done_def task_result_def
      split: option.splits co_step.splits)

theorem task_single_use_witness:
  "\<exists>t t'. task_start (\<lambda>s w. Some (Co_return (s + 1), w)) (task_new (4::nat)) () = Some (Inr (), t, ()) \<and>
     task_result t = (Inr 5, t') \<and>
     task_result t' = (Inl (Logic_error ''Task result has already been consumed''), t')"
proof -
  let ?body = "\<lambda>s w. Some (Co_return (s + 1), w) :: ((nat, nat) co_step \<times> unit) option"
  let ?t = "\<lparr>task_handle = Some \<lparr>co_frame = Frame_final, co_value = Some 5, co_exception = None\<rparr>,
      task_started = True\<rparr>"
  have run: "task_start ?body (task_new 4) () = Some (Inr (), ?t, ())"
    by (simp add: task_start_def task_new_def)
  have "task_done ?t" by (simp add: task_done_def)
  from task_single_use [OF run this] run show ?thesis by auto
qed

end
