(* ===== verification/Backends.thy ===== *)
theory Backends
  imports Coroutines File_IO
begin

text \<open>
  The I/O backends. \<open>IOBackend\<close> (\<open>include/backend/io_backend.h\<close>) is an abstract class: a record of
  its virtual functions over a world \<open>'w\<close> and a type \<open>'t\<close> of tasks. Here are its one caller in the
  executor (\<open>complete_read\<close> of \<open>src/pipeline/pipeline_executor.cpp\<close>), \<open>SyncBackend\<close> and the
  selection policy of \<open>BackendFactory\<close>. A read's result is the task's value, the number of bytes,
  together with the bytes stored in the caller's buffer. A function that may not return yields
  \<open>None\<close> then.
\<close>

section \<open>The abstract class and its caller\<close>

type_synonym read_value = "size_t \<times> byte list"

record ('w, 't) io_backend =
  be_name :: string
  be_read_at :: "int \<Rightarrow> size_t \<Rightarrow> u64 \<Rightarrow> 'w \<Rightarrow> 't \<times> 'w"
  be_start :: "'t \<Rightarrow> 'w \<Rightarrow> (unit res \<times> 't \<times> 'w) option"
  be_done :: "'t \<Rightarrow> 'w \<Rightarrow> bool"
  be_wait_one :: "'w \<Rightarrow> (unit res \<times> 'w) option"
  be_result :: "'t \<Rightarrow> 'w \<Rightarrow> read_value res \<times> 't \<times> 'w"
  be_destroy :: "'t \<Rightarrow> 'w \<Rightarrow> 'w"

partial_function (option) wait_until_done ::
  "('w, 't) io_backend \<Rightarrow> 't \<Rightarrow> 'w \<Rightarrow> (unit res \<times> 'w) option" where
  "wait_until_done be t w =
     (if be_done be t w then Some (Inr (), w)
      else
        (case be_wait_one be w of
           None \<Rightarrow> None
         | Some (Inl e, w') \<Rightarrow> Some (Inl e, w')
         | Some (Inr _, w') \<Rightarrow> wait_until_done be t w'))"

declare wait_until_done.simps [code]

definition complete_read ::
  "('w, 't) io_backend \<Rightarrow> int \<Rightarrow> size_t \<Rightarrow> u64 \<Rightarrow> 'w \<Rightarrow> (read_value res \<times> 'w) option" where
  "complete_read be input_fd n file_offset w =
     (case be_read_at be input_fd n file_offset w of (t, w1) \<Rightarrow>
        (case be_start be t w1 of
           None \<Rightarrow> None
         | Some (Inl e, t', w2) \<Rightarrow> Some (Inl e, be_destroy be t' w2)
         | Some (Inr _, t', w2) \<Rightarrow>
             (case wait_until_done be t' w2 of
                None \<Rightarrow> None
              | Some (Inl e, w3) \<Rightarrow> Some (Inl e, be_destroy be t' w3)
              | Some (Inr _, w3) \<Rightarrow>
                  (case be_result be t' w3 of (r, t'', w4) \<Rightarrow> Some (r, be_destroy be t'' w4)))))"

section \<open>SyncBackend\<close>

text \<open>The coroutine's parameters are copied into its frame; the body has no suspension point.\<close>

type_synonym sync_frame = "int \<times> size_t \<times> u64"

fun sync_read_body :: "'w posix_calls \<Rightarrow> (sync_frame, read_value, 'w) co_body" where
  "sync_read_body sys (fd, n, offset) w =
     (case read_at sys fd (unat n) offset w of
        None \<Rightarrow> None
      | Some ((result, stored), w') \<Rightarrow>
          if ra_error_number result \<noteq> 0 then
            Some (Co_throw (System_error (ra_error_number result) ''SyncBackend::read_at''), w')
          else Some (Co_return (of_nat (bytes_read result), stored), w'))"

definition sync_read_at :: "int \<Rightarrow> size_t \<Rightarrow> u64 \<Rightarrow> 'w \<Rightarrow> (sync_frame, read_value) task \<times> 'w" where
  "sync_read_at fd n offset w = (task_new (fd, n, offset), w)"

definition sync_wait_one :: "'w \<Rightarrow> (unit res \<times> 'w) option" where
  "sync_wait_one w =
     Some (Inl (Logic_error ''SyncBackend has no pending asynchronous completion''), w)"

definition sync_backend :: "'w posix_calls \<Rightarrow> ('w, (sync_frame, read_value) task) io_backend" where
  "sync_backend sys =
     \<lparr>be_name = ''sync'', be_read_at = sync_read_at, be_start = task_start (sync_read_body sys),
      be_done = (\<lambda>t w. task_done t), be_wait_one = sync_wait_one,
      be_result = (\<lambda>t w. case task_result t of (r, t') \<Rightarrow> (r, t', w)),
      be_destroy = (\<lambda>t w. w)\<rparr>"

definition sync_complete_read ::
  "'w posix_calls \<Rightarrow> int \<Rightarrow> size_t \<Rightarrow> u64 \<Rightarrow> 'w \<Rightarrow> (read_value res \<times> 'w) option" where
  "sync_complete_read sys = complete_read (sync_backend sys)"

section \<open>BackendFactory\<close>

datatype backend_kind = Auto | Uring | ThreadPool | Sync | Unknown_kind nat

record backend_config =
  bc_kind :: backend_kind
  bc_uring_queue_depth :: "32 word"
  bc_thread_pool_worker_count :: size_t
  bc_max_inflight :: size_t
  bc_auto_try_uring :: bool
  bc_auto_try_thread_pool :: bool

definition default_backend_config :: backend_config where
  "default_backend_config =
     \<lparr>bc_kind = Auto, bc_uring_queue_depth = 8, bc_thread_pool_worker_count = 2,
      bc_max_inflight = 8, bc_auto_try_uring = True, bc_auto_try_thread_pool = True\<rparr>"

record ('b, 'w) backend_factory_operations =
  bf_create_uring :: "backend_config \<Rightarrow> 'w \<Rightarrow> 'b res \<times> 'w"
  bf_create_thread_pool :: "backend_config \<Rightarrow> 'w \<Rightarrow> 'b res \<times> 'w"
  bf_create_sync :: "backend_config \<Rightarrow> 'w \<Rightarrow> 'b res \<times> 'w"

fun is_system_error :: "exn \<Rightarrow> bool" where
  "is_system_error (System_error _ _) = True"
| "is_system_error _ = False"

definition create_backend_with ::
  "backend_config \<Rightarrow> ('b, 'w) backend_factory_operations \<Rightarrow> 'w \<Rightarrow> 'b res \<times> 'w" where
  "create_backend_with config ops w =
     (case bc_kind config of
        Uring \<Rightarrow> bf_create_uring ops config w
      | ThreadPool \<Rightarrow> bf_create_thread_pool ops config w
      | Sync \<Rightarrow> bf_create_sync ops config w
      | Unknown_kind _ \<Rightarrow> (Inl (Invalid_argument ''unknown backend kind''), w)
      | Auto \<Rightarrow>
          let try_sync = bf_create_sync ops config;
              try_thread_pool = (\<lambda>w.
                if bc_auto_try_thread_pool config then
                  (case bf_create_thread_pool ops config w of
                     (Inl e, w') \<Rightarrow> if is_system_error e then try_sync w' else (Inl e, w')
                   | (Inr b, w') \<Rightarrow> (Inr b, w'))
                else try_sync w) in
          if bc_auto_try_uring config then
            (case bf_create_uring ops config w of
               (Inl e, w') \<Rightarrow> if is_system_error e then try_thread_pool w' else (Inl e, w')
             | (Inr b, w') \<Rightarrow> (Inr b, w'))
          else try_thread_pool w)"

text \<open>
  The production operations. Whether io_uring support is compiled in, and the constructors of the
  three backends, are parameters.
\<close>

record ('b, 'w) backend_constructors =
  new_uring_backend :: "32 word \<Rightarrow> 'w \<Rightarrow> 'b res \<times> 'w"
  new_thread_pool_backend :: "size_t \<Rightarrow> size_t \<Rightarrow> 'w \<Rightarrow> 'b res \<times> 'w"
  new_sync_backend :: "'w \<Rightarrow> 'b res \<times> 'w"

definition create_uring ::
  "bool \<Rightarrow> ('b, 'w) backend_constructors \<Rightarrow> backend_config \<Rightarrow> 'w \<Rightarrow> 'b res \<times> 'w" where
  "create_uring has_liburing k config w =
     (if has_liburing then new_uring_backend k (bc_uring_queue_depth config) w
      else if bc_uring_queue_depth config = 0 then
        (Inl (Invalid_argument ''io_uring queue depth must be positive''), w)
      else (Inl (System_error ENOSYS ''io_uring support is not compiled into this build''), w))"

definition create_thread_pool ::
  "('b, 'w) backend_constructors \<Rightarrow> backend_config \<Rightarrow> 'w \<Rightarrow> 'b res \<times> 'w" where
  "create_thread_pool k config w =
     new_thread_pool_backend k (bc_thread_pool_worker_count config) (bc_max_inflight config) w"

definition create_sync ::
  "('b, 'w) backend_constructors \<Rightarrow> backend_config \<Rightarrow> 'w \<Rightarrow> 'b res \<times> 'w" where
  "create_sync k config w = new_sync_backend k w"

definition system_backend_factory_operations ::
  "bool \<Rightarrow> ('b, 'w) backend_constructors \<Rightarrow> ('b, 'w) backend_factory_operations" where
  "system_backend_factory_operations has_liburing k =
     \<lparr>bf_create_uring = create_uring has_liburing k, bf_create_thread_pool = create_thread_pool k,
      bf_create_sync = create_sync k\<rparr>"

definition backend_create ::
  "bool \<Rightarrow> ('b, 'w) backend_constructors \<Rightarrow> backend_config \<Rightarrow> 'w \<Rightarrow> 'b res \<times> 'w" where
  "backend_create has_liburing k config =
     create_backend_with config (system_backend_factory_operations has_liburing k)"

section \<open>Reading a file through a backend\<close>

text \<open>
  What \<open>pread\<close> promises for the regular file behind a descriptor: the call stores a slice of the
  file at the offset, at most as long as asked for and empty only at or past the end, or fails
  with a non-zero error number; it never changes the file.
\<close>

fun pread_effect :: "byte list \<Rightarrow> nat \<Rightarrow> u64 \<Rightarrow> syscall_read \<Rightarrow> bool" where
  "pread_effect file n off (Read_bytes bs) =
     (length bs \<le> n \<and> bs = take (length bs) (drop (unat off) file) \<and>
      (bs = [] \<longrightarrow> n = 0 \<or> length file \<le> unat off))"
| "pread_effect file n off (Read_failed e) = (e \<noteq> 0)"

definition pread_contract :: "'w file_io_operations \<Rightarrow> int \<Rightarrow> ('w \<Rightarrow> byte list) \<Rightarrow> bool" where
  "pread_contract ops fd contents \<longleftrightarrow>
     (\<forall>n off w r w'. op_read_at ops fd n off w = (r, w') \<longrightarrow>
        contents w' = contents w \<and> pread_effect (contents w) n off r)"

text \<open>A chunk of a file, as a successful read of up to \<open>n\<close> bytes at an offset delivers it.\<close>

definition file_chunk :: "byte list \<Rightarrow> nat \<Rightarrow> nat \<Rightarrow> byte list \<Rightarrow> bool" where
  "file_chunk file n off bs \<longleftrightarrow>
     length bs \<le> n \<and> bs = take (length bs) (drop off file) \<and>
     (bs = [] \<longrightarrow> n = 0 \<or> length file \<le> off)"

text \<open>The outcome of a read of up to \<open>n\<close> bytes: a chunk with its length, or an error.\<close>

fun read_outcome_ok :: "byte list \<Rightarrow> size_t \<Rightarrow> u64 \<Rightarrow> read_value res \<Rightarrow> bool" where
  "read_outcome_ok file n off (Inr (k, bs)) = (file_chunk file (unat n) (unat off) bs \<and> unat k = length bs)"
| "read_outcome_ok file n off (Inl e) = is_system_error e"

text \<open>Reading to the end of the file, block after block, with fuel for the number of reads.\<close>

fun read_to_end ::
  "(u64 \<Rightarrow> 'w \<Rightarrow> (read_value res \<times> 'w) option) \<Rightarrow> nat \<Rightarrow> u64 \<Rightarrow> 'w \<Rightarrow>
     (byte list list res \<times> 'w) option" where
  "read_to_end complete 0 off w = None"
| "read_to_end complete (Suc fuel) off w =
     (case complete off w of
        None \<Rightarrow> None
      | Some (Inl e, w') \<Rightarrow> Some (Inl e, w')
      | Some (Inr (k, bs), w') \<Rightarrow>
          if k = 0 then Some (Inr [], w')
          else
            (case read_to_end complete fuel (off + k) w' of
               None \<Rightarrow> None
             | Some (Inl e, w'') \<Rightarrow> Some (Inl e, w'')
             | Some (Inr chunks, w'') \<Rightarrow> Some (Inr (bs # chunks), w'')))"

text \<open>The chunks that a successful reading to the end delivers.\<close>

fun chunks_ok :: "byte list \<Rightarrow> nat \<Rightarrow> nat \<Rightarrow> byte list list res \<Rightarrow> bool" where
  "chunks_ok file n off (Inr chunks) =
     (concat chunks = drop off file \<and> (\<forall>c \<in> set chunks. c \<noteq> [] \<and> length c \<le> n))"
| "chunks_ok file n off (Inl e) = is_system_error e"

text \<open>
  The contract between a backend and its caller: for a file it serves, a read returns, leaves the
  file alone, and delivers a chunk or a system error.
\<close>

locale read_source =
  fixes complete :: "'sys \<Rightarrow> int \<Rightarrow> size_t \<Rightarrow> u64 \<Rightarrow> 'w \<Rightarrow> (read_value res \<times> 'w) option"
    and serves :: "'sys \<Rightarrow> int \<Rightarrow> ('w \<Rightarrow> byte list) \<Rightarrow> bool"
  assumes complete_ok: "serves sys fd contents \<Longrightarrow>
      \<exists>r w'. complete sys fd n off w = Some (r, w') \<and> contents w' = contents w \<and>
        read_outcome_ok (contents w) n off r"
begin

lemma complete_cases:
  assumes "serves sys fd contents"
  obtains (error) e w' where "complete sys fd n off w = Some (Inl e, w')" "contents w' = contents w"
      "is_system_error e"
  | (chunk) k bs w' where "complete sys fd n off w = Some (Inr (k, bs), w')" "contents w' = contents w"
      "file_chunk (contents w) (unat n) (unat off) bs" "unat k = length bs"
proof -
  obtain r w' where r: "complete sys fd n off w = Some (r, w')" "contents w' = contents w"
    "read_outcome_ok (contents w) n off r"
    using complete_ok [OF assms] by blast
  show thesis
  proof (cases r)
    case (Inl e)
    with r error show ?thesis by simp
  next
    case (Inr kb)
    with r chunk show ?thesis by (cases kb) simp
  qed
qed

lemma read_to_end_correct:
  assumes "serves sys fd contents" and "n \<noteq> 0" and "length (contents w) < 2 ^ 64"
    and "length (contents w) - unat off < fuel" and "unat off \<le> length (contents w)"
  shows "\<exists>r w'. read_to_end (complete sys fd n) fuel off w = Some (r, w') \<and>
    contents w' = contents w \<and> chunks_ok (contents w) (unat n) (unat off) r"
  using assms(3,4,5)
proof (induction fuel arbitrary: off w)
  case 0
  then show ?case by simp
next
  case (Suc fuel)
  show ?case
  proof (cases rule: complete_cases [OF assms(1), of n off w, case_names error chunk])
    case (error e w')
    then show ?thesis by simp
  next
    case (chunk k bs w')
    show ?thesis
    proof (cases "k = 0")
      case True
      with chunk have "bs = []" by simp
      with chunk assms(2) have "length (contents w) \<le> unat off" by (simp add: file_chunk_def unat_eq_zero)
      with True chunk show ?thesis by simp
    next
      case False
      then have pos: "0 < length bs" using chunk(4) by (metis unat_gt_0)
      have bs: "bs = take (length bs) (drop (unat off) (contents w))" "length bs \<le> unat n"
        using chunk(3) by (simp_all add: file_chunk_def)
      then have le: "unat off + length bs \<le> length (contents w)"
      proof -
        have "length bs = length (take (length bs) (drop (unat off) (contents w)))"
          using bs(1) by (rule arg_cong)
        then have "length bs \<le> length (contents w) - unat off" by (simp only: length_take length_drop)
        then show ?thesis using Suc.prems(3) by linarith
      qed
      then have off: "unat (off + k) = unat off + length bs"
        using Suc.prems(1) chunk(4) by (simp add: unat_add_fits)
      have "length (contents w) - (unat off + length bs) < fuel"
        using Suc.prems(2) pos le by linarith
      then obtain r w'' where IH: "read_to_end (complete sys fd n) fuel (off + k) w' = Some (r, w'')"
        "contents w'' = contents w'" "chunks_ok (contents w') (unat n) (unat (off + k)) r"
        using Suc.IH [of w' "off + k"] Suc.prems le off pos chunk(2) by auto
      have split: "drop (unat off) (contents w) = bs @ drop (unat off + length bs) (contents w)"
        by (metis append_take_drop_id bs(1) drop_drop add.commute)
      show ?thesis
        using IH False chunk(1,2) bs(2) pos off split by (cases r) auto
    qed
  qed
qed

end

definition sync_serves :: "'w posix_calls \<Rightarrow> int \<Rightarrow> ('w \<Rightarrow> byte list) \<Rightarrow> bool" where
  "sync_serves sys fd contents \<longleftrightarrow>
     pread_contract (system_file_io_operations sys) fd contents \<and>
     (\<exists>m. interrupts_bounded (system_file_io_operations sys) m)"

lemma sync_complete_read_eq:
  "sync_complete_read sys fd n off w =
     (case read_at sys fd (unat n) off w of
        None \<Rightarrow> None
      | Some ((result, stored), w') \<Rightarrow>
          Some (if ra_error_number result \<noteq> 0
                then Inl (System_error (ra_error_number result) ''SyncBackend::read_at'')
                else Inr (of_nat (bytes_read result), stored), w'))"
  by (auto simp: sync_complete_read_def complete_read_def sync_backend_def sync_read_at_def
      task_start_def task_new_def task_done_def task_result_def wait_until_done.simps
      split: option.splits prod.splits)

lemma interrupted_reads_contents:
  assumes "pread_contract ops fd contents"
  shows "interrupted_reads ops fd n off w v \<Longrightarrow> contents v = contents w"
  by (induction rule: interrupted_reads.induct) (use assms in \<open>auto simp: pread_contract_def\<close>)

interpretation sync: read_source sync_complete_read sync_serves
proof
  fix sys :: "'w posix_calls" and fd contents off w
  fix n :: size_t
  let ?ops = "system_file_io_operations sys"
  assume "sync_serves sys fd contents"
  then obtain m where c: "pread_contract ?ops fd contents" and i: "interrupts_bounded ?ops m"
    by (auto simp: sync_serves_def)
  obtain r w' where r: "retry_read ?ops fd (unat n) off w = Some (r, w')" "r \<noteq> Read_failed EINTR"
    using retry_read_returns [OF i] by blast
  obtain v where v: "interrupted_reads ?ops fd (unat n) off w v" "op_read_at ?ops fd (unat n) off v = (r, w')"
    using retry_read_sound [OF r(1)] by blast
  have "contents v = contents w" using interrupted_reads_contents [OF c v(1)] .
  with c v(2) have eff: "contents w' = contents w" "pread_effect (contents w) (unat n) off r"
    using c [unfolded pread_contract_def, rule_format, OF v(2)] by simp_all
  show "\<exists>r w'. sync_complete_read sys fd n off w = Some (r, w') \<and> contents w' = contents w \<and>
        read_outcome_ok (contents w) n off r"
  proof (cases r)
    case (Read_failed e)
    with r(1) eff show ?thesis
      by (simp add: sync_complete_read_eq read_at_def read_at_with_def)
  next
    case (Read_bytes bs)
    have "length bs < 2 ^ 64"
      using eff(2) Read_bytes unsigned_less [of n, where 'a = nat] by simp
    then have "unat (of_nat (length bs) :: size_t) = length bs" by (simp add: unat_of_nat)
    with Read_bytes r(1) eff show ?thesis
      by (simp add: sync_complete_read_eq read_at_def read_at_with_def file_chunk_def)
  qed
qed

section \<open>The calls of the factory\<close>

text \<open>
  The same operations with a log of their calls: which one, with which configuration, and how it ended.
\<close>

type_synonym 'b factory_call = "backend_kind \<times> backend_config \<times> 'b res"

definition logged ::
  "backend_kind \<Rightarrow> (backend_config \<Rightarrow> 'w \<Rightarrow> 'b res \<times> 'w) \<Rightarrow> backend_config \<Rightarrow> 'w \<times> 'b factory_call list \<Rightarrow>
   'b res \<times> 'w \<times> 'b factory_call list" where
  "logged kind create config u =
     (case create config (fst u) of (r, w') \<Rightarrow> (r, w', snd u @ [(kind, config, r)]))"

definition log_operations ::
  "('b, 'w) backend_factory_operations \<Rightarrow> ('b, 'w \<times> 'b factory_call list) backend_factory_operations" where
  "log_operations ops =
     \<lparr>bf_create_uring = logged Uring (bf_create_uring ops),
      bf_create_thread_pool = logged ThreadPool (bf_create_thread_pool ops),
      bf_create_sync = logged Sync (bf_create_sync ops)\<rparr>"

text \<open>The kinds that may be created for a configuration, in order.\<close>

definition candidates :: "backend_config \<Rightarrow> backend_kind list" where
  "candidates config =
     (case bc_kind config of
        Auto \<Rightarrow> (if bc_auto_try_uring config then [Uring] else []) @
          (if bc_auto_try_thread_pool config then [ThreadPool] else []) @ [Sync]
      | Unknown_kind _ \<Rightarrow> []
      | kind \<Rightarrow> [kind])"

fun ended_with_system_error :: "'b res \<Rightarrow> bool" where
  "ended_with_system_error (Inl e) = is_system_error e"
| "ended_with_system_error (Inr b) = False"

lemma logged_eq: "create config w = (r, w') \<Longrightarrow> logged kind create config (w, log) = (r, w', log @ [(kind, config, r)])"
  by (simp add: logged_def)

lemmas factory_run_simps = create_backend_with_def log_operations_def candidates_def Let_def

lemma explicit_calls:
  assumes "bc_kind config \<noteq> Auto" and "create_backend_with config (log_operations ops) (w, []) = (r, w', calls)"
  shows "create_backend_with config ops w = (r, w') \<and>
    calls = map (\<lambda>kind. (kind, config, r)) (candidates config) \<and>
    (candidates config = [] \<longrightarrow> r = Inl (Invalid_argument ''unknown backend kind''))"
  using assms by (cases "bc_kind config") (auto simp: factory_run_simps logged_def split: prod.splits)

text \<open>Of the calls for \<open>Auto\<close> all but the last ended with a system error, and the last decides.\<close>

lemma auto_calls:
  assumes "bc_kind config = Auto" and "create_backend_with config (log_operations ops) (w, []) = (r, w', calls)"
  shows "create_backend_with config ops w = (r, w') \<and>
    (\<exists>failed kind rest. calls = failed @ [(kind, config, r)] \<and>
       candidates config = map fst failed @ kind # rest \<and>
       (\<forall>(k, c, outcome) \<in> set failed. c = config \<and> ended_with_system_error outcome) \<and>
       (ended_with_system_error r \<longrightarrow> rest = []))"
proof -
  obtain ru u where u: "bf_create_uring ops config w = (ru, u)" by (meson surj_pair)
  define v where "v = (if bc_auto_try_uring config then u else w)"
  define first where "first = (if bc_auto_try_uring config then [(Uring, config, ru)] else [])"
  obtain rt t where t: "bf_create_thread_pool ops config v = (rt, t)" by (meson surj_pair)
  define x where "x = (if bc_auto_try_thread_pool config then t else v)"
  define second where "second = (if bc_auto_try_thread_pool config then [(ThreadPool, config, rt)] else [])"
  obtain rs z where z: "bf_create_sync ops config x = (rs, z)" by (meson surj_pair)
  consider (uring) "bc_auto_try_uring config" "\<not> ended_with_system_error ru"
    | (pool) "bc_auto_try_thread_pool config" "\<not> ended_with_system_error rt"
        "bc_auto_try_uring config \<longrightarrow> ended_with_system_error ru"
    | (sync) "bc_auto_try_uring config \<longrightarrow> ended_with_system_error ru"
        "bc_auto_try_thread_pool config \<longrightarrow> ended_with_system_error rt"
    by blast
  then show ?thesis
  proof cases
    case uring
    then have "create_backend_with config ops w = (ru, u)" "(r, w', calls) = (ru, u, [(Uring, config, ru)])"
      using assms u by (cases ru; auto simp: factory_run_simps logged_eq)+
    with uring show ?thesis using assms(1) by (auto simp: candidates_def)
  next
    case pool
    then have "create_backend_with config ops w = (rt, t)" "(r, w', calls) = (rt, t, first @ [(ThreadPool, config, rt)])"
      using assms u t by (cases ru; cases rt; auto simp: factory_run_simps logged_eq v_def first_def)+
    with pool show ?thesis
      using assms(1) by (intro conjI exI [of _ first] exI [of _ ThreadPool] exI [of _ "[Sync]"])
        (auto simp: candidates_def first_def)
  next
    case sync
    then have "create_backend_with config ops w = (rs, z)" "(r, w', calls) = (rs, z, (first @ second) @ [(Sync, config, rs)])"
      using assms u t z
      by (cases ru; cases rt; auto simp: factory_run_simps logged_eq v_def x_def first_def second_def)+
    with sync show ?thesis
      using assms(1) by (intro conjI exI [of _ "first @ second"] exI [of _ Sync] exI [of _ "[]"])
        (auto simp: candidates_def first_def second_def)
  qed
qed

section \<open>Properties\<close>

text \<open>
  Reading through \<open>SyncBackend\<close> delivers the file. With an operating system that keeps the
  \<open>pread\<close> contract and interrupts finitely often, reading a file of less than \<open>2 ^ 64\<close> bytes block
  by block (any block size, any short reads) ends after at most one read per byte and one for the
  end; it fails only with a system error, and otherwise the non-empty chunks, each within the block
  size, concatenate to exactly the file's contents.
\<close>

theorem sync_backend_reads_file:
  assumes "sync_serves sys fd contents" and "n \<noteq> 0" and "length (contents w) < 2 ^ 64"
  shows "\<exists>r w'. read_to_end (sync_complete_read sys fd n) (length (contents w) + 1) 0 w = Some (r, w') \<and>
    contents w' = contents w \<and>
    (case r of Inl e \<Rightarrow> is_system_error e
     | Inr chunks \<Rightarrow> concat chunks = contents w \<and> (\<forall>c \<in> set chunks. c \<noteq> [] \<and> length c \<le> unat n))"
proof -
  obtain r w' where r: "read_to_end (sync_complete_read sys fd n) (length (contents w) + 1) 0 w = Some (r, w')"
    "contents w' = contents w" "chunks_ok (contents w) (unat n) (unat 0) r"
    using sync.read_to_end_correct [OF assms, of 0 "length (contents w) + 1"] by auto
  then show ?thesis by (cases r) auto
qed

text \<open>A machine with one regular file, whose calls succeed in full.\<close>

definition plain_posix :: "byte list posix_calls" where
  "plain_posix = \<lparr>posix_open = (\<lambda>path flags w. (Sys_ok 3, w)),
     posix_pread = (\<lambda>fd n off w. (Read_bytes (read_slice w (unat (word_of_int off :: u64)) n), w)),
     posix_pwrite = (\<lambda>fd bs off w.
        (Sys_ok (length bs), write_image w (unat (word_of_int off :: u64)) bs)),
     posix_fsync = (\<lambda>fd w. (Sys_ok 0, w))\<rparr>"

lemma plain_posix_serves: "sync_serves plain_posix fd (\<lambda>w. w)"
proof -
  let ?ops = "system_file_io_operations plain_posix"
  have ops: "op_read_at ?ops fd n off w = (Read_bytes (read_slice w (unat off) n), w)"
    "op_write_at ?ops fd bs off w = (Sys_ok (length bs), write_image w (unat off) bs)"
    "op_fsync ?ops fd w = (Sys_ok 0, w)" for fd n off w bs
    by (simp_all add: system_file_io_operations_def system_read_at_def system_write_at_def
        system_fsync_def plain_posix_def)
  have "pread_contract ?ops fd (\<lambda>w. w)"
    by (auto simp: pread_contract_def ops read_slice_def min_def)
  moreover have "interrupts_bounded ?ops (\<lambda>_. 0)"
    by (auto simp: interrupts_bounded_def ops)
  ultimately show ?thesis by (auto simp: sync_serves_def)
qed

lemma plain_posix_read:
  "sync_complete_read plain_posix fd n off w =
     (let bs = read_slice w (unat off) (unat n) in Some (Inr (of_nat (length bs), bs), w))"
  by (simp add: sync_complete_read_eq read_at_def read_at_with_def retry_read.simps
      system_file_io_operations_def system_read_at_def plain_posix_def Let_def)

theorem sync_backend_reads_file_witness:
  "\<exists>chunks. read_to_end (sync_complete_read plain_posix 3 2) (length [1, 2, 3, 4, 5 :: byte] + 1) 0 [1, 2, 3, 4, 5] =
      Some (Inr chunks, [1, 2, 3, 4, 5]) \<and> concat chunks = [1, 2, 3, 4, 5]"
proof -
  let ?f = "[1, 2, 3, 4, 5 :: byte]"
  have "(2 :: size_t) \<noteq> 0" and "length ?f < 2 ^ 64" by simp_all
  note reads = sync_backend_reads_file [where contents = "\<lambda>w. w", OF plain_posix_serves [of 3] this]
  have run: "read_to_end (sync_complete_read plain_posix 3 2) (length ?f + 1) 0 ?f = Some (Inr [[1, 2], [3, 4], [5]], ?f)"
    by (simp add: plain_posix_read read_slice_def Let_def)
  from reads [unfolded run] have "concat [[1, 2], [3, 4], [5]] = ?f" by simp
  with run show ?thesis by blast
qed


text \<open>Operations of which io_uring fails with a system error and the thread pool with another exception.\<close>

definition failing_operations :: "(nat, unit) backend_factory_operations" where
  "failing_operations =
     \<lparr>bf_create_uring = (\<lambda>config w. (Inl (System_error ENOSYS ''io_uring''), w)),
      bf_create_thread_pool = (\<lambda>config w. (Inl (Invalid_argument ''workers''), w)),
      bf_create_sync = (\<lambda>config w. (Inr 0, w))\<rparr>"


end
