(* ===== verification/Executor.thy ===== *)
theory Executor
  imports Pipelines Work_Item Spsc_Queue Backends
begin

text \<open>
  \<open>PipelineExecutor\<close> (\<open>include/pipeline/pipeline_executor.h\<close>,
  \<open>src/pipeline/pipeline_executor.cpp\<close>): one reader, one processor and one writer thread joined by
  two bounded queues, and the main thread that spawns and joins them. Each thread is a program
  counter; a step is one operation on shared state (a lease taken or returned, a push, a pop, one
  read, one stage run, one write, one phase of \<open>fail_all\<close>), with the thread-local work around it.
  A step that would wait, or whose system call never returns, is \<open>None\<close>.

  The worlds behind the backend and behind the output file are separate types: the code requires
  the output to be a separate file, and only the reader touches the first and only the writer the
  second. What the environment decides in a step (measured durations, a thread that cannot be
  created) is the step's choice argument.
\<close>

section \<open>Data\<close>

record pipeline_run_result =
  prr_blocks_written :: u64
  prr_bytes_written :: u64

record runtime_metrics =
  rm_read_blocks :: "nat option"
  rm_read_bytes :: "nat option"
  rm_processed_blocks :: "nat option"
  rm_processed_bytes :: "nat option"
  rm_written_blocks :: "nat option"
  rm_written_bytes :: "nat option"
  rm_inflight_buffers :: "nat option"
  rm_read_process_queue_depth :: "nat option"
  rm_process_write_queue_depth :: "nat option"
  rm_read_latency_ns :: "nat option"
  rm_process_latency_ns :: "nat option"
  rm_write_latency_ns :: "nat option"

definition no_runtime_metrics :: runtime_metrics where
  "no_runtime_metrics =
     \<lparr>rm_read_blocks = None, rm_read_bytes = None, rm_processed_blocks = None,
      rm_processed_bytes = None, rm_written_blocks = None, rm_written_bytes = None,
      rm_inflight_buffers = None, rm_read_process_queue_depth = None,
      rm_process_write_queue_depth = None, rm_read_latency_ns = None,
      rm_process_latency_ns = None, rm_write_latency_ns = None\<rparr>"

text \<open>\<open>PipelineMetricNames\<close>, in the order of the registration check.\<close>

definition pipeline_metric_names :: "string list" where
  "pipeline_metric_names =
     [''pipeline.read.blocks'', ''pipeline.read.bytes'', ''pipeline.process.blocks'',
      ''pipeline.process.bytes'', ''pipeline.write.blocks'', ''pipeline.write.bytes'',
      ''pipeline.buffer_pool.inflight'', ''pipeline.queue.read_process.depth'',
      ''pipeline.queue.process_write.depth'', ''pipeline.read.latency_ns'',
      ''pipeline.process.latency_ns'', ''pipeline.write.latency_ns'']"

definition kPipelineLatencyUpperBoundsNs :: "u64 list" where
  "kPipelineLatencyUpperBoundsNs =
     [1000, 10000, 100000, 1000000, 10000000, 100000000, 1000000000]"

section \<open>Construction\<close>

record pipeline_executor =
  px_config :: pipeline_config
  px_metrics :: runtime_metrics
  px_started :: bool

definition executor_new :: "pipeline_config \<Rightarrow> pipeline_executor res" where
  "executor_new config =
     (case validate config of
        Inl e \<Rightarrow> Inl e
      | Inr _ \<Rightarrow>
          Inr \<lparr>px_config = config, px_metrics = no_runtime_metrics, px_started = False\<rparr>)"

text \<open>One registration: its \<open>add_*\<close> call and the member it sets; an exception ends the sequence.\<close>

definition register_metric ::
  "(metrics_registry \<Rightarrow> (nat \<times> metrics_registry) res) \<times>
     (nat option \<Rightarrow> runtime_metrics \<Rightarrow> runtime_metrics) \<Rightarrow>
   unit res \<times> runtime_metrics \<times> metrics_registry \<Rightarrow>
     unit res \<times> runtime_metrics \<times> metrics_registry" where
  "register_metric step state =
     (case state of
        (Inl e, rm, r) \<Rightarrow> (Inl e, rm, r)
      | (Inr _, rm, r) \<Rightarrow>
          (case fst step r of
             Inl e \<Rightarrow> (Inl e, rm, r)
           | Inr (i, r') \<Rightarrow> (Inr (), snd step (Some i) rm, r')))"

definition runtime_metric_steps ::
  "((metrics_registry \<Rightarrow> (nat \<times> metrics_registry) res) \<times>
     (nat option \<Rightarrow> runtime_metrics \<Rightarrow> runtime_metrics)) list" where
  "runtime_metric_steps =
     [(add_counter ''pipeline.read.blocks'', \<lambda>i. rm_read_blocks_update (\<lambda>_. i)),
      (add_counter ''pipeline.read.bytes'', \<lambda>i. rm_read_bytes_update (\<lambda>_. i)),
      (add_counter ''pipeline.process.blocks'', \<lambda>i. rm_processed_blocks_update (\<lambda>_. i)),
      (add_counter ''pipeline.process.bytes'', \<lambda>i. rm_processed_bytes_update (\<lambda>_. i)),
      (add_counter ''pipeline.write.blocks'', \<lambda>i. rm_written_blocks_update (\<lambda>_. i)),
      (add_counter ''pipeline.write.bytes'', \<lambda>i. rm_written_bytes_update (\<lambda>_. i)),
      (add_gauge ''pipeline.buffer_pool.inflight'', \<lambda>i. rm_inflight_buffers_update (\<lambda>_. i)),
      (add_gauge ''pipeline.queue.read_process.depth'',
         \<lambda>i. rm_read_process_queue_depth_update (\<lambda>_. i)),
      (add_gauge ''pipeline.queue.process_write.depth'',
         \<lambda>i. rm_process_write_queue_depth_update (\<lambda>_. i)),
      (add_histogram kPipelineLatencyUpperBoundsNs ''pipeline.read.latency_ns'',
         \<lambda>i. rm_read_latency_ns_update (\<lambda>_. i)),
      (add_histogram kPipelineLatencyUpperBoundsNs ''pipeline.process.latency_ns'',
         \<lambda>i. rm_process_latency_ns_update (\<lambda>_. i)),
      (add_histogram kPipelineLatencyUpperBoundsNs ''pipeline.write.latency_ns'',
         \<lambda>i. rm_write_latency_ns_update (\<lambda>_. i))]"

definition register_runtime_metrics ::
  "metrics_registry \<Rightarrow> unit res \<times> runtime_metrics \<times> metrics_registry" where
  "register_runtime_metrics r =
     (if kMaxMetricCount - length pipeline_metric_names < registry_size r then
        (Inl (Length_error ''MetricsRegistry has no room for pipeline runtime metrics''),
         no_runtime_metrics, r)
      else if list_ex (\<lambda>name. find_counter name r \<noteq> None \<or> find_gauge name r \<noteq> None \<or>
                         find_histogram name r \<noteq> None) pipeline_metric_names then
        (Inl (Invalid_argument ''pipeline runtime metric name is already registered''),
         no_runtime_metrics, r)
      else fold register_metric runtime_metric_steps (Inr (), no_runtime_metrics, r))"

definition executor_new_observed ::
  "pipeline_config \<Rightarrow> metrics_registry \<Rightarrow> pipeline_executor res \<times> metrics_registry" where
  "executor_new_observed config r =
     (case executor_new config of
        Inl e \<Rightarrow> (Inl e, r)
      | Inr px \<Rightarrow>
          (case register_runtime_metrics r of
             (Inl e, _, r') \<Rightarrow> (Inl e, r')
           | (Inr _, rm, r') \<Rightarrow> (Inr (px\<lparr>px_metrics := rm\<rparr>), r')))"

section \<open>Arithmetic helpers\<close>

text \<open>\<open>size_t\<close> has 64 bits, so the \<open>if constexpr\<close> branch of \<open>size_to_u64\<close> is not compiled.\<close>

definition size_to_u64 :: "size_t \<Rightarrow> u64" where
  "size_to_u64 value = value"

definition checked_add :: "u64 \<Rightarrow> u64 \<Rightarrow> string \<Rightarrow> u64 res" where
  "checked_add left right message =
     (if u64_max - left < right then Inl (Overflow_error message) else Inr (left + right))"

section \<open>Threads and state\<close>

text \<open>\<open>fail_all\<close>: record the first failure, then fail each queue with it.\<close>

datatype fail_pc =
    Fail_record exn
  | Fail_first exn
  | Fail_second exn

text \<open>
  The reader: block index and file offset; then the buffer it holds, or the next index and offset
  with the item to push. \<open>Unwind\<close> is an exception on its way out of the loop, about to destroy
  the lease the thread holds.
\<close>

datatype reader_pc =
    R_idle
  | R_acquire u64 u64
  | R_read u64 u64 buffer_handle
  | R_push u64 u64 block_work_item
  | R_close buffer_handle
  | R_leave buffer_handle
  | R_unwind buffer_handle exn
  | R_failing fail_pc
  | R_done

datatype processor_pc =
    P_idle
  | P_pop
  | P_process block_work_item
  | P_push block_work_item
  | P_close
  | P_unwind block_work_item exn
  | P_failing fail_pc
  | P_done

datatype writer_pc =
    W_idle
  | W_pop
  | W_write block_work_item
  | W_release block_work_item
  | W_unwind block_work_item exn
  | W_failing fail_pc
  | W_done

datatype main_pc =
    M_spawn_writer
  | M_spawn_processor
  | M_spawn_reader
  | M_failing fail_pc
  | M_join
  | M_done "pipeline_run_result res"

record ('r, 'o, 'u) exec_state =
  ex_pool :: buffer_pool
  ex_q1 :: "block_work_item spsc_queue"
  ex_q2 :: "block_work_item spsc_queue"
  ex_pipeline :: "'u pipeline"
  ex_registry :: metrics_registry
  ex_in :: 'r
  ex_out :: 'o
  ex_first_failure :: "exn option"
  ex_result :: pipeline_run_result
  ex_reader :: reader_pc
  ex_processor :: processor_pc
  ex_writer :: writer_pc
  ex_main :: main_pc

record ('r, 't, 'o, 'u) exec_env =
  ev_backend :: "('r, 't) io_backend"
  ev_sys :: "'o posix_calls"
  ev_users :: "'u user_stages"
  ev_input_fd :: int
  ev_output_fd :: int
  ev_metrics :: runtime_metrics

record exec_choice =
  ch_elapsed :: int
  ch_stage_elapsed :: "nat \<Rightarrow> int"
  ch_spawn_failure :: "exn option"

section \<open>Metrics of a step\<close>

definition counter_at :: "nat \<Rightarrow> u64 \<Rightarrow> metrics_registry \<Rightarrow> metrics_registry" where
  "counter_at i amount r = r\<lparr>counters := update_entry i (counter_increment amount) (counters r)\<rparr>"

text \<open>\<open>if (blocks != nullptr) { blocks->increment(); bytes->increment(n); }\<close>\<close>

definition count_block ::
  "nat option \<Rightarrow> nat option \<Rightarrow> u64 \<Rightarrow> metrics_registry \<Rightarrow> metrics_registry" where
  "count_block blocks bytes n r =
     (case blocks of None \<Rightarrow> r | Some i \<Rightarrow> counter_at (the bytes) n (counter_at i 1 r))"

text \<open>The optional \<open>ScopedTimer\<close> around an operation.\<close>

definition time_operation :: "nat option \<Rightarrow> int \<Rightarrow> metrics_registry \<Rightarrow> metrics_registry" where
  "time_operation latency elapsed r =
     (case latency of None \<Rightarrow> r | Some i \<Rightarrow> histogram_at i (scoped_timer_end elapsed) r)"

section \<open>Failure\<close>

text \<open>\<open>SPSCQueue::fail\<close> destroys the discarded items, which returns their leases.\<close>

definition destroy_items :: "block_work_item list \<Rightarrow> buffer_pool \<Rightarrow> buffer_pool" where
  "destroy_items items p = fold work_item_destroy items p"

definition dropped_items :: "block_work_item list res \<Rightarrow> block_work_item list" where
  "dropped_items r = (case r of Inl _ \<Rightarrow> [] | Inr items \<Rightarrow> items)"

fun fail_step ::
  "fail_pc \<Rightarrow> ('r, 'o, 'u) exec_state \<Rightarrow> fail_pc option \<times> ('r, 'o, 'u) exec_state" where
  "fail_step (Fail_record e) s =
     (case ex_first_failure s of
        None \<Rightarrow> (Some (Fail_first e), s\<lparr>ex_first_failure := Some e\<rparr>)
      | Some canonical \<Rightarrow> (Some (Fail_first canonical), s))"
| "fail_step (Fail_first canonical) s =
     (case spsc_fail (Some canonical) (ex_q1 s) of (r, q) \<Rightarrow>
        (Some (Fail_second canonical),
         s\<lparr>ex_q1 := q, ex_pool := destroy_items (dropped_items r) (ex_pool s)\<rparr>))"
| "fail_step (Fail_second canonical) s =
     (case spsc_fail (Some canonical) (ex_q2 s) of (r, q) \<Rightarrow>
        (None, s\<lparr>ex_q2 := q, ex_pool := destroy_items (dropped_items r) (ex_pool s)\<rparr>))"

section \<open>The reader\<close>

definition reader_advance :: "u64 \<Rightarrow> u64 \<Rightarrow> size_t \<Rightarrow> (u64 \<times> u64) res" where
  "reader_advance block_index file_offset n =
     (case checked_add file_offset (size_to_u64 n) ''pipeline file offset overflow'' of
        Inl e \<Rightarrow> Inl e
      | Inr next_file_offset \<Rightarrow>
          if block_index = u64_max then Inl (Overflow_error ''pipeline block index overflow'')
          else Inr (block_index + 1, next_file_offset))"

definition reader_after_read ::
  "runtime_metrics \<Rightarrow> u64 \<Rightarrow> u64 \<Rightarrow> buffer_handle \<Rightarrow> size_t \<Rightarrow> ('r, 'o, 'u) exec_state \<Rightarrow>
     ('r, 'o, 'u) exec_state" where
  "reader_after_read m block_index file_offset h n s =
     (if n = 0 then s\<lparr>ex_reader := R_close h\<rparr>
      else
        let s = s\<lparr>ex_registry :=
                  count_block (rm_read_blocks m) (rm_read_bytes m) (size_to_u64 n) (ex_registry s)\<rparr> in
        (case reader_advance block_index file_offset n of
           Inl e \<Rightarrow> s\<lparr>ex_reader := R_unwind h e\<rparr>
         | Inr (next_block_index, next_file_offset) \<Rightarrow>
             (case work_item_new block_index file_offset n h (ex_pool s) of
                (Inl e, p) \<Rightarrow> s\<lparr>ex_pool := p, ex_reader := R_failing (Fail_record e)\<rparr>
              | (Inr item, p) \<Rightarrow>
                  s\<lparr>ex_pool := p, ex_reader := R_push next_block_index next_file_offset item\<rparr>)))"

fun reader_step ::
  "('r, 't, 'o, 'u) exec_env \<Rightarrow> exec_choice \<Rightarrow> reader_pc \<Rightarrow> ('r, 'o, 'u) exec_state \<Rightarrow>
     ('r, 'o, 'u) exec_state option" where
  "reader_step env ch R_idle s = None"
| "reader_step env ch (R_acquire i off) s =
     (case pool_acquire (ex_pool s) of
        None \<Rightarrow> None
      | Some (h, p) \<Rightarrow> Some (s\<lparr>ex_pool := p, ex_reader := R_read i off h\<rparr>))"
| "reader_step env ch (R_read i off h) s =
     (case complete_read (ev_backend env) (ev_input_fd env) (handle_size h (ex_pool s)) off (ex_in s) of
        None \<Rightarrow> None
      | Some (r, w) \<Rightarrow>
          let s = s\<lparr>ex_in := w,
                    ex_registry := time_operation (rm_read_latency_ns (ev_metrics env))
                                     (ch_elapsed ch) (ex_registry s)\<rparr> in
          (case r of
             Inl e \<Rightarrow> Some (s\<lparr>ex_reader := R_unwind h e\<rparr>)
           | Inr (n, bytes) \<Rightarrow>
               Some (reader_after_read (ev_metrics env) i off h n
                       (s\<lparr>ex_pool := handle_store h bytes (ex_pool s)\<rparr>))))"
| "reader_step env ch (R_push next_i next_off item) s =
     (case spsc_push item (ex_q1 s) of
        (Push_waits, _) \<Rightarrow> None
      | (Push_throws e, q) \<Rightarrow> Some (s\<lparr>ex_q1 := q, ex_reader := R_unwind (wi_buffer item) e\<rparr>)
      | (Push_rejected, q) \<Rightarrow>
          Some (s\<lparr>ex_q1 := q, ex_reader := R_unwind (wi_buffer item)
            (Logic_error ''read-to-process queue closed before reader reached EOF'')\<rparr>)
      | (Push_ok, q) \<Rightarrow> Some (s\<lparr>ex_q1 := q, ex_reader := R_acquire next_i next_off\<rparr>))"
| "reader_step env ch (R_close h) s =
     Some (s\<lparr>ex_q1 := spsc_close (ex_q1 s), ex_reader := R_leave h\<rparr>)"
| "reader_step env ch (R_leave h) s =
     Some (s\<lparr>ex_pool := handle_destroy h (ex_pool s), ex_reader := R_done\<rparr>)"
| "reader_step env ch (R_unwind h e) s =
     Some (s\<lparr>ex_pool := handle_destroy h (ex_pool s), ex_reader := R_failing (Fail_record e)\<rparr>)"
| "reader_step env ch (R_failing f) s =
     (case fail_step f s of (next, s') \<Rightarrow>
        Some (s'\<lparr>ex_reader := (case next of None \<Rightarrow> R_done | Some f' \<Rightarrow> R_failing f')\<rparr>))"
| "reader_step env ch R_done s = None"

section \<open>The processor\<close>

fun processor_step ::
  "('r, 't, 'o, 'u) exec_env \<Rightarrow> exec_choice \<Rightarrow> processor_pc \<Rightarrow> ('r, 'o, 'u) exec_state \<Rightarrow>
     ('r, 'o, 'u) exec_state option" where
  "processor_step env ch P_idle s = None"
| "processor_step env ch P_pop s =
     (case spsc_pop (ex_q1 s) of
        (Pop_waits, _) \<Rightarrow> None
      | (Pop_throws e, q) \<Rightarrow> Some (s\<lparr>ex_q1 := q, ex_processor := P_failing (Fail_record e)\<rparr>)
      | (Pop_end, q) \<Rightarrow> Some (s\<lparr>ex_q1 := q, ex_processor := P_close\<rparr>)
      | (Pop_value item, q) \<Rightarrow> Some (s\<lparr>ex_q1 := q, ex_processor := P_process item\<rparr>))"
| "processor_step env ch (P_process item) s =
     (case pipeline_process (ev_users env) (ch_stage_elapsed ch) (ex_pipeline s) (ex_registry s)
             (valid_data item (ex_pool s)) of
        (err, pl, r, out) \<Rightarrow>
          let s = s\<lparr>ex_pipeline := pl, ex_pool := store_valid_data item out (ex_pool s),
                    ex_registry := time_operation (rm_process_latency_ns (ev_metrics env))
                                     (ch_elapsed ch) r\<rparr> in
          (case err of
             Some e \<Rightarrow> Some (s\<lparr>ex_processor := P_unwind item e\<rparr>)
           | None \<Rightarrow>
               Some (s\<lparr>ex_registry := count_block (rm_processed_blocks (ev_metrics env))
                          (rm_processed_bytes (ev_metrics env))
                          (size_to_u64 (wi_valid_bytes item)) (ex_registry s),
                       ex_processor := P_push item\<rparr>)))"
| "processor_step env ch (P_push item) s =
     (case spsc_push item (ex_q2 s) of
        (Push_waits, _) \<Rightarrow> None
      | (Push_throws e, q) \<Rightarrow> Some (s\<lparr>ex_q2 := q, ex_processor := P_unwind item e\<rparr>)
      | (Push_rejected, q) \<Rightarrow>
          Some (s\<lparr>ex_q2 := q, ex_processor := P_unwind item
            (Logic_error ''process-to-write queue closed before processor finished'')\<rparr>)
      | (Push_ok, q) \<Rightarrow> Some (s\<lparr>ex_q2 := q, ex_processor := P_pop\<rparr>))"
| "processor_step env ch P_close s =
     Some (s\<lparr>ex_q2 := spsc_close (ex_q2 s), ex_processor := P_done\<rparr>)"
| "processor_step env ch (P_unwind item e) s =
     Some (s\<lparr>ex_pool := work_item_destroy item (ex_pool s),
             ex_processor := P_failing (Fail_record e)\<rparr>)"
| "processor_step env ch (P_failing f) s =
     (case fail_step f s of (next, s') \<Rightarrow>
        Some (s'\<lparr>ex_processor := (case next of None \<Rightarrow> P_done | Some f' \<Rightarrow> P_failing f')\<rparr>))"
| "processor_step env ch P_done s = None"

section \<open>The writer\<close>

definition account_written ::
  "pipeline_run_result \<Rightarrow> size_t \<Rightarrow> unit res \<times> pipeline_run_result" where
  "account_written res n =
     (case checked_add (prr_bytes_written res) (size_to_u64 n)
             ''pipeline written-byte count overflow'' of
        Inl e \<Rightarrow> (Inl e, res)
      | Inr total_bytes \<Rightarrow>
          let res = res\<lparr>prr_bytes_written := total_bytes\<rparr> in
          (case checked_add (prr_blocks_written res) 1 ''pipeline written-block count overflow'' of
             Inl e \<Rightarrow> (Inl e, res)
           | Inr total_blocks \<Rightarrow> (Inr (), res\<lparr>prr_blocks_written := total_blocks\<rparr>)))"

definition writer_after_write ::
  "runtime_metrics \<Rightarrow> block_work_item \<Rightarrow> nat \<Rightarrow> write_at_result \<Rightarrow> ('r, 'o, 'u) exec_state \<Rightarrow>
     ('r, 'o, 'u) exec_state" where
  "writer_after_write m item size_written result s =
     (if wa_error_number result \<noteq> 0 then
        s\<lparr>ex_writer := W_unwind item
            (System_error (wa_error_number result) ''pipeline writer pwrite'')\<rparr>
      else if bytes_written result \<noteq> size_written then
        s\<lparr>ex_writer := W_unwind item
            (Runtime_error ''write_all_at returned success without writing the full block'')\<rparr>
      else
        (case account_written (ex_result s) (of_nat size_written) of
           (Inl e, res) \<Rightarrow> s\<lparr>ex_result := res, ex_writer := W_unwind item e\<rparr>
         | (Inr _, res) \<Rightarrow>
             s\<lparr>ex_result := res,
               ex_registry := count_block (rm_written_blocks m) (rm_written_bytes m)
                                (of_nat size_written) (ex_registry s),
               ex_writer := W_release item\<rparr>))"

fun writer_step ::
  "('r, 't, 'o, 'u) exec_env \<Rightarrow> exec_choice \<Rightarrow> writer_pc \<Rightarrow> ('r, 'o, 'u) exec_state \<Rightarrow>
     ('r, 'o, 'u) exec_state option" where
  "writer_step env ch W_idle s = None"
| "writer_step env ch W_pop s =
     (case spsc_pop (ex_q2 s) of
        (Pop_waits, _) \<Rightarrow> None
      | (Pop_throws e, q) \<Rightarrow> Some (s\<lparr>ex_q2 := q, ex_writer := W_failing (Fail_record e)\<rparr>)
      | (Pop_end, q) \<Rightarrow> Some (s\<lparr>ex_q2 := q, ex_writer := W_done\<rparr>)
      | (Pop_value item, q) \<Rightarrow> Some (s\<lparr>ex_q2 := q, ex_writer := W_write item\<rparr>))"
| "writer_step env ch (W_write item) s =
     (let bytes = valid_data item (ex_pool s) in
      case write_all_at (ev_sys env) (ev_output_fd env) bytes (wi_file_offset item) (ex_out s) of
        None \<Rightarrow> None
      | Some (result, w) \<Rightarrow>
          Some (writer_after_write (ev_metrics env) item (length bytes) result
            (s\<lparr>ex_out := w,
               ex_registry := time_operation (rm_write_latency_ns (ev_metrics env))
                                (ch_elapsed ch) (ex_registry s)\<rparr>)))"
| "writer_step env ch (W_release item) s =
     Some (s\<lparr>ex_pool := work_item_destroy item (ex_pool s), ex_writer := W_pop\<rparr>)"
| "writer_step env ch (W_unwind item e) s =
     Some (s\<lparr>ex_pool := work_item_destroy item (ex_pool s),
             ex_writer := W_failing (Fail_record e)\<rparr>)"
| "writer_step env ch (W_failing f) s =
     (case fail_step f s of (next, s') \<Rightarrow>
        Some (s'\<lparr>ex_writer := (case next of None \<Rightarrow> W_done | Some f' \<Rightarrow> W_failing f')\<rparr>))"
| "writer_step env ch W_done s = None"

section \<open>The main thread\<close>

text \<open>
  A worker is joined when it has finished, or was never created (\<open>joinable()\<close> is false). After
  \<open>join_workers\<close> the main thread rethrows the first failure or returns the result; on the way out
  it destroys the queues, then the pool. Their gauges then live on in the registry only.
\<close>

definition workers_joined :: "('r, 'o, 'u) exec_state \<Rightarrow> bool" where
  "workers_joined s \<longleftrightarrow>
     ex_reader s \<in> {R_idle, R_done} \<and> ex_processor s \<in> {P_idle, P_done} \<and>
     ex_writer s \<in> {W_idle, W_done}"

definition put_gauge :: "nat option \<Rightarrow> gauge option \<Rightarrow> metrics_registry \<Rightarrow> metrics_registry" where
  "put_gauge i g r =
     (case (i, g) of
        (Some i, Some g) \<Rightarrow> r\<lparr>gauges := update_entry i (\<lambda>_. g) (gauges r)\<rparr>
      | _ \<Rightarrow> r)"

definition finish_run :: "runtime_metrics \<Rightarrow> ('r, 'o, 'u) exec_state \<Rightarrow> ('r, 'o, 'u) exec_state" where
  "finish_run m s =
     (let (g2, items2) = spsc_destroy (ex_q2 s);
          (g1, items1) = spsc_destroy (ex_q1 s);
          p = destroy_items (items2 @ items1) (ex_pool s) in
      s\<lparr>ex_pool := p,
        ex_registry :=
          put_gauge (rm_inflight_buffers m) (inflight_metric p)
            (put_gauge (rm_read_process_queue_depth m) g1
               (put_gauge (rm_process_write_queue_depth m) g2 (ex_registry s))),
        ex_main := M_done (case ex_first_failure s of Some e \<Rightarrow> Inl e | None \<Rightarrow> Inr (ex_result s))\<rparr>)"

fun main_step ::
  "('r, 't, 'o, 'u) exec_env \<Rightarrow> exec_choice \<Rightarrow> main_pc \<Rightarrow> ('r, 'o, 'u) exec_state \<Rightarrow>
     ('r, 'o, 'u) exec_state option" where
  "main_step env ch M_spawn_writer s =
     (case ch_spawn_failure ch of
        Some e \<Rightarrow> Some (s\<lparr>ex_main := M_failing (Fail_record e)\<rparr>)
      | None \<Rightarrow> Some (s\<lparr>ex_writer := W_pop, ex_main := M_spawn_processor\<rparr>))"
| "main_step env ch M_spawn_processor s =
     (case ch_spawn_failure ch of
        Some e \<Rightarrow> Some (s\<lparr>ex_main := M_failing (Fail_record e)\<rparr>)
      | None \<Rightarrow> Some (s\<lparr>ex_processor := P_pop, ex_main := M_spawn_reader\<rparr>))"
| "main_step env ch M_spawn_reader s =
     (case ch_spawn_failure ch of
        Some e \<Rightarrow> Some (s\<lparr>ex_main := M_failing (Fail_record e)\<rparr>)
      | None \<Rightarrow> Some (s\<lparr>ex_reader := R_acquire 0 0, ex_main := M_join\<rparr>))"
| "main_step env ch (M_failing f) s =
     (case fail_step f s of (next, s') \<Rightarrow>
        Some (s'\<lparr>ex_main := (case next of None \<Rightarrow> M_join | Some f' \<Rightarrow> M_failing f')\<rparr>))"
| "main_step env ch M_join s =
     (if workers_joined s then Some (finish_run (ev_metrics env) s) else None)"
| "main_step env ch (M_done r) s = None"

section \<open>Runs\<close>

datatype exec_thread = T_main | T_reader | T_processor | T_writer

definition run_step ::
  "('r, 't, 'o, 'u) exec_env \<Rightarrow> exec_thread \<Rightarrow> exec_choice \<Rightarrow> ('r, 'o, 'u) exec_state \<Rightarrow>
     ('r, 'o, 'u) exec_state option" where
  "run_step env t ch s =
     (case t of
        T_main \<Rightarrow> main_step env ch (ex_main s) s
      | T_reader \<Rightarrow> reader_step env ch (ex_reader s) s
      | T_processor \<Rightarrow> processor_step env ch (ex_processor s) s
      | T_writer \<Rightarrow> writer_step env ch (ex_writer s) s)"

text \<open>A schedule fixes which thread steps and what the environment decides.\<close>

fun run_schedule ::
  "('r, 't, 'o, 'u) exec_env \<Rightarrow> (exec_thread \<times> exec_choice) list \<Rightarrow> ('r, 'o, 'u) exec_state \<Rightarrow>
     ('r, 'o, 'u) exec_state option" where
  "run_schedule env [] s = Some s"
| "run_schedule env ((t, ch) # rest) s =
     (case run_step env t ch s of None \<Rightarrow> None | Some s' \<Rightarrow> run_schedule env rest s')"

text \<open>All interleavings; \<open>spawn_errors\<close> is the set of exceptions that thread creation may throw.\<close>

inductive exec_reachable ::
  "('r, 't, 'o, 'u) exec_env \<Rightarrow> exn set \<Rightarrow> ('r, 'o, 'u) exec_state \<Rightarrow> ('r, 'o, 'u) exec_state \<Rightarrow> bool"
  for env spawn_errors s0 where
  reach_start: "exec_reachable env spawn_errors s0 s0"
| reach_step: "exec_reachable env spawn_errors s0 s \<Longrightarrow> run_step env t ch s = Some s' \<Longrightarrow>
     (\<And>e. ch_spawn_failure ch = Some e \<Longrightarrow> e \<in> spawn_errors) \<Longrightarrow>
     exec_reachable env spawn_errors s0 s'"

text \<open>
  The part of \<open>run\<close> before the threads: its checks, the pool and the queues. \<open>al\<close> is the allocator
  with its memory; a \<open>std::optional<BlockWorkItem>\<close> takes 48 bytes on the 64-bit target. A gauge
  pointer that is set names the gauge that the pool or queue borrows.
\<close>

definition sizeof_work_slot :: nat where
  "sizeof_work_slot = 48"

definition run_pool ::
  "'m allocator \<Rightarrow> pipeline_executor \<Rightarrow> metrics_registry \<Rightarrow> 'm \<Rightarrow> buffer_pool res \<times> 'm" where
  "run_pool al px r m =
     (case rm_inflight_buffers (px_metrics px) of
        None \<Rightarrow> pool_new al (px_config px) m
      | Some i \<Rightarrow> pool_new_observed al (px_config px) (snd (gauges r ! i)) m)"

definition run_queues ::
  "pipeline_executor \<Rightarrow> metrics_registry \<Rightarrow>
     (block_work_item spsc_queue \<times> block_work_item spsc_queue) res" where
  "run_queues px r =
     (let new = (\<lambda>depth. case rm_read_process_queue_depth (px_metrics px) of
                   None \<Rightarrow> spsc_new sizeof_work_slot (queue_depth (px_config px))
                 | Some _ \<Rightarrow> spsc_new_observed sizeof_work_slot (queue_depth (px_config px))
                              (snd (gauges r ! the depth))) in
      case new (rm_read_process_queue_depth (px_metrics px)) of
        Inl e \<Rightarrow> Inl e
      | Inr q1 \<Rightarrow>
          (case new (rm_process_write_queue_depth (px_metrics px)) of
             Inl e \<Rightarrow> Inl e
           | Inr q2 \<Rightarrow> Inr (q1, q2)))"

definition run_start ::
  "'m allocator \<Rightarrow> int \<Rightarrow> int \<Rightarrow> 'u pipeline \<Rightarrow> metrics_registry \<Rightarrow> 'r \<Rightarrow> 'o \<Rightarrow> pipeline_executor \<Rightarrow> 'm \<Rightarrow>
     ('r, 'o, 'u) exec_state res \<times> pipeline_executor \<times> 'm" where
  "run_start al input_fd output_fd pl r rin out px m =
     (if input_fd < 0 \<or> output_fd < 0 then
        (Inl (Invalid_argument ''pipeline input and output descriptors must be valid''), px, m)
      else if input_fd = output_fd then
        (Inl (Invalid_argument ''pipeline input and output descriptors must be different''), px, m)
      else if stage_count pl = 0 then
        (Inl (Invalid_argument ''pipeline executor requires at least one processing stage''), px, m)
      else if px_started px then
        (Inl (Logic_error ''PipelineExecutor may only run once''), px, m)
      else
        let px = px\<lparr>px_started := True\<rparr> in
        (case run_pool al px r m of
           (Inl e, m') \<Rightarrow> (Inl e, px, m')
         | (Inr p, m') \<Rightarrow>
             (case run_queues px r of
                Inl e \<Rightarrow> (Inl e, px, pool_destroy al p m')
              | Inr (q1, q2) \<Rightarrow>
                  (Inr \<lparr>ex_pool = p, ex_q1 = q1, ex_q2 = q2, ex_pipeline = pl, ex_registry = r,
                        ex_in = rin, ex_out = out, ex_first_failure = None,
                        ex_result = \<lparr>prr_blocks_written = 0, prr_bytes_written = 0\<rparr>,
                        ex_reader = R_idle, ex_processor = P_idle, ex_writer = W_idle,
                        ex_main = M_spawn_writer\<rparr>, px, m'))))"

end
