(* ===== verification/Executor_Resources.thy ===== *)
theory Executor_Resources
  imports Executor
begin

text \<open>
  What the threads of the executor hold: every leased buffer has exactly one holder (the reader,
  the first queue, the processor, the second queue or the writer), in every interleaving. The
  invariant is proved step by step and thread by thread.
\<close>

section \<open>Leases held by a multiset of handles\<close>

definition sizes :: "buffer_pool \<Rightarrow> size_t list" where
  "sizes p = map ab_size (buffers p)"

definition leases_ok :: "buffer_pool \<Rightarrow> buffer_handle multiset \<Rightarrow> bool" where
  "leases_ok p M \<longleftrightarrow> pool_inv p \<and> pool_buffers_ok p \<and> (\<forall>h \<in># M. handle_valid h) \<and>
     image_mset bh_index M = mset_set (leased p)"

lemma sizes_release [simp]: "sizes (pool_release i p) = sizes p"
  by (simp add: sizes_def)

lemma sizes_destroy [simp]: "sizes (handle_destroy h p) = sizes p"
  by (simp add: handle_destroy_def handle_release_def)

lemma sizes_item_destroy [simp]: "sizes (work_item_destroy item p) = sizes p"
  by (simp add: work_item_destroy_def)

lemma sizes_destroy_items [simp]: "sizes (destroy_items items p) = sizes p"
  by (induction items arbitrary: p) (simp_all add: destroy_items_def)

lemma sizes_store [simp]: "sizes (handle_store h bs p) = sizes p"
proof (cases "handle_valid h \<and> bh_index h < length (buffers p)")
  case True
  then show ?thesis
    by (simp add: sizes_def handle_store_def Let_def map_update buffer_at_def)
      (metis list_update_id map_update)
next
  case False
  then show ?thesis by (auto simp: sizes_def handle_store_def Let_def list_update_beyond)
qed

lemma sizes_store_item [simp]: "sizes (store_valid_data item bs p) = sizes p"
  by (simp add: store_valid_data_def)

lemma sizes_acquire: "pool_acquire p = Some (h, p') \<Longrightarrow> sizes p' = sizes p"
  by (auto simp: pool_acquire_def take_available_locked_def Let_def sizes_def split: if_splits)

lemma sizes_capacity: "pool_capacity p = length (sizes p)"
  by (simp add: sizes_def pool_capacity_def)

lemma sizes_handle: "handle_valid h \<Longrightarrow> bh_index h < length (sizes p) \<Longrightarrow> handle_size h p = sizes p ! bh_index h"
  by (simp add: sizes_def handle_size_def buffer_at_def)

lemma leases_ok_acquire:
  assumes "leases_ok p M" and "pool_acquire p = Some (h, p')"
  shows "leases_ok p' (add_mset h M)" and "handle_valid h" and "bh_index h < length (sizes p)"
proof -
  have inv: "pool_inv p" using assms(1) by (simp add: leases_ok_def)
  note a = pool_acquire_Some [OF inv assms(2)]
  show "handle_valid h" by (rule a)
  show "bh_index h < length (sizes p)" using a(4) by (simp add: sizes_capacity)
  show "leases_ok p' (add_mset h M)"
    using assms(1) a by (simp add: leases_ok_def pool_buffers_ok_def)
qed

lemma leases_ok_waits:
  assumes "leases_ok p M"
  shows "pool_acquire p = None \<longleftrightarrow> size M = length (sizes p)"
proof -
  have "size M = size (image_mset bh_index M)" by simp
  also have "\<dots> = card (leased p)" using assms by (simp add: leases_ok_def)
  finally show ?thesis
    using pool_acquire_None [of p] assms by (simp add: leases_ok_def sizes_capacity)
qed

lemma leases_ok_bound: "leases_ok p M \<Longrightarrow> size M \<le> length (sizes p)"
proof -
  assume a: "leases_ok p M"
  have "size M = size (image_mset bh_index M)" by simp
  also have "\<dots> = card (leased p)" using a by (simp add: leases_ok_def)
  also have "\<dots> \<le> pool_capacity p" using a by (intro leased_card_le) (simp add: leases_ok_def)
  finally show ?thesis by (simp add: sizes_capacity)
qed

lemma leases_ok_distinct: "leases_ok p M \<Longrightarrow> count (image_mset bh_index M) i \<le> 1"
  by (simp add: leases_ok_def count_mset_set')

lemma leases_ok_destroy:
  assumes "leases_ok p (add_mset h M)"
  shows "leases_ok (handle_destroy h p) M"
proof -
  have h: "handle_valid h" and ms: "add_mset (bh_index h) (image_mset bh_index M) = mset_set (leased p)"
    using assms by (simp_all add: leases_ok_def)
  have "bh_index h \<in># mset_set (leased p)" unfolding ms [symmetric] by simp
  then have i: "bh_index h \<in> leased p" by simp
  have d: "handle_destroy h p = pool_release (bh_index h) p"
    using h by (simp add: handle_destroy_def handle_release_def handle_valid_def)
  have "mset_set (leased p - {bh_index h}) = mset_set (leased p) - {#bh_index h#}"
    using i by (simp add: mset_set_Diff)
  also have "\<dots> = image_mset bh_index M" unfolding ms [symmetric] by simp
  finally show ?thesis
    using assms pool_release_inv [OF _ i] by (simp add: leases_ok_def d pool_buffers_ok_def)
qed

lemma leases_ok_destroy_item:
  "leases_ok p (add_mset (wi_buffer item) M) \<Longrightarrow> leases_ok (work_item_destroy item p) M"
  by (simp add: work_item_destroy_def leases_ok_destroy)

lemma leases_ok_destroy_items:
  "leases_ok p (image_mset wi_buffer (mset items) + M) \<Longrightarrow> leases_ok (destroy_items items p) M"
proof (induction items arbitrary: p)
  case Nil
  then show ?case by (simp add: destroy_items_def)
next
  case (Cons item items)
  then have "leases_ok (work_item_destroy item p) (image_mset wi_buffer (mset items) + M)"
    by (intro leases_ok_destroy_item) simp
  with Cons.IH show ?case by (simp add: destroy_items_def)
qed

lemma leases_ok_store [intro]: "leases_ok p M \<Longrightarrow> leases_ok (handle_store h bs p) M"
  by (simp add: leases_ok_def pool_buffers_ok_store)

lemma leases_ok_store_item [intro]: "leases_ok p M \<Longrightarrow> leases_ok (store_valid_data item bs p) M"
  by (simp add: store_valid_data_def leases_ok_store)

section \<open>The holders\<close>

fun reader_handles :: "reader_pc \<Rightarrow> buffer_handle multiset" where
  "reader_handles (R_read _ _ h) = {#h#}"
| "reader_handles (R_push _ _ item) = {#wi_buffer item#}"
| "reader_handles (R_close h) = {#h#}"
| "reader_handles (R_leave h) = {#h#}"
| "reader_handles (R_unwind h _) = {#h#}"
| "reader_handles _ = {#}"

fun reader_items :: "reader_pc \<Rightarrow> block_work_item multiset" where
  "reader_items (R_push _ _ item) = {#item#}"
| "reader_items _ = {#}"

fun processor_items :: "processor_pc \<Rightarrow> block_work_item multiset" where
  "processor_items (P_process item) = {#item#}"
| "processor_items (P_push item) = {#item#}"
| "processor_items (P_unwind item _) = {#item#}"
| "processor_items _ = {#}"

fun writer_items :: "writer_pc \<Rightarrow> block_work_item multiset" where
  "writer_items (W_write item) = {#item#}"
| "writer_items (W_release item) = {#item#}"
| "writer_items (W_unwind item _) = {#item#}"
| "writer_items _ = {#}"

definition downstream_items :: "('r, 'o, 'u) exec_state \<Rightarrow> block_work_item multiset" where
  "downstream_items s =
     mset (contents (ex_q1 s)) + processor_items (ex_processor s) +
     mset (contents (ex_q2 s)) + writer_items (ex_writer s)"

definition held :: "('r, 'o, 'u) exec_state \<Rightarrow> buffer_handle multiset" where
  "held s = reader_handles (ex_reader s) + image_mset wi_buffer (downstream_items s)"

text \<open>A work item is well formed for a pool whose buffers have the given sizes.\<close>

definition item_fits :: "size_t list \<Rightarrow> block_work_item \<Rightarrow> bool" where
  "item_fits sz item \<longleftrightarrow>
     handle_valid (wi_buffer item) \<and> bh_index (wi_buffer item) < length sz \<and>
     0 < unat (wi_valid_bytes item) \<and>
     unat (wi_valid_bytes item) \<le> unat (sz ! bh_index (wi_buffer item))"

lemma item_fits_ok: "item_fits (sizes p) item = work_item_ok item p"
  by (auto simp: item_fits_def work_item_ok_def sizes_capacity sizes_handle)

definition handle_fits :: "size_t list \<Rightarrow> buffer_handle \<Rightarrow> bool" where
  "handle_fits sz h \<longleftrightarrow> handle_valid h \<and> bh_index h < length sz"

definition resources_ok :: "size_t list \<Rightarrow> ('r, 'o, 'u) exec_state \<Rightarrow> bool" where
  "resources_ok sz s \<longleftrightarrow>
     leases_ok (ex_pool s) (held s) \<and> sizes (ex_pool s) = sz \<and>
     ring_inv (ex_q1 s) \<and> ring_inv (ex_q2 s) \<and>
     (\<forall>h \<in># reader_handles (ex_reader s). handle_fits sz h) \<and>
     (\<forall>item \<in># reader_items (ex_reader s) + downstream_items s. item_fits sz item)"

section \<open>Queue operations\<close>

lemma spsc_fail_drop:
  assumes inv: "ring_inv q" and f: "spsc_fail (Some c) q = (r, q')"
  shows "ring_inv q'" and "contents q' = []" and "q_state q' = Queue_failed"
    and "mset (dropped_items r) = mset (contents q)"
    and "q_failure q' = (if q_state q = Queue_failed then q_failure q else Some c)"
    and "spsc_capacity q' = spsc_capacity q"
proof -
  have "ring_inv q' \<and> contents q' = [] \<and> q_state q' = Queue_failed \<and>
    mset (dropped_items r) = mset (contents q) \<and>
    q_failure q' = (if q_state q = Queue_failed then q_failure q else Some c) \<and>
    spsc_capacity q' = spsc_capacity q"
  proof (cases "q_state q = Queue_failed")
    case True
    then have "contents q = []" using inv by (simp add: ring_inv_def contents_empty_iff)
    with True f inv show ?thesis by (auto simp: spsc_fail_again dropped_items_def)
  next
    case False
    with spsc_fail_first [OF inv False f] show ?thesis by (simp add: dropped_items_def)
  qed
  then show "ring_inv q'" and "contents q' = []" and "q_state q' = Queue_failed"
    and "mset (dropped_items r) = mset (contents q)"
    and "q_failure q' = (if q_state q = Queue_failed then q_failure q else Some c)"
    and "spsc_capacity q' = spsc_capacity q"
    by blast+
qed

section \<open>Preservation\<close>

lemmas resource_simps = resources_ok_def held_def downstream_items_def

lemma fail_step_resources:
  assumes ok: "resources_ok sz s" and step: "fail_step f s = (nxt, s')"
  shows "resources_ok sz s'" and "ex_reader s' = ex_reader s" and "ex_processor s' = ex_processor s"
    and "ex_writer s' = ex_writer s" and "ex_main s' = ex_main s"
proof -
  show pcs: "ex_reader s' = ex_reader s" "ex_processor s' = ex_processor s"
    "ex_writer s' = ex_writer s" "ex_main s' = ex_main s"
    using step by (cases f; auto split: option.splits prod.splits)+
  show "resources_ok sz s'"
  proof (cases f)
    case (Fail_record e)
    with ok step show ?thesis by (auto simp: resource_simps split: option.splits)
  next
    case (Fail_first c)
    obtain r q where f: "spsc_fail (Some c) (ex_q1 s) = (r, q)" by (cases "spsc_fail (Some c) (ex_q1 s)")
    have q: "ring_inv (ex_q1 s)" using ok by (simp add: resources_ok_def)
    note drop = spsc_fail_drop [OF q f]
    have s': "s' = s\<lparr>ex_q1 := q, ex_pool := destroy_items (dropped_items r) (ex_pool s)\<rparr>"
      using step f Fail_first by simp
    have "leases_ok (destroy_items (dropped_items r) (ex_pool s)) (held s')"
      by (rule leases_ok_destroy_items)
        (use ok drop in \<open>simp add: resource_simps s' union_assoc union_lcomm\<close>)
    with ok drop show ?thesis by (auto simp: resource_simps s')
  next
    case (Fail_second c)
    obtain r q where f: "spsc_fail (Some c) (ex_q2 s) = (r, q)" by (cases "spsc_fail (Some c) (ex_q2 s)")
    have q: "ring_inv (ex_q2 s)" using ok by (simp add: resources_ok_def)
    note drop = spsc_fail_drop [OF q f]
    have s': "s' = s\<lparr>ex_q2 := q, ex_pool := destroy_items (dropped_items r) (ex_pool s)\<rparr>"
      using step f Fail_second by simp
    have "leases_ok (destroy_items (dropped_items r) (ex_pool s)) (held s')"
      by (rule leases_ok_destroy_items)
        (use ok drop in \<open>simp add: resource_simps s' union_assoc union_lcomm\<close>)
    with ok drop show ?thesis by (auto simp: resource_simps s')
  qed
qed

lemma resources_ok_registry [simp]:
  "resources_ok sz (s\<lparr>ex_registry := r\<rparr>) = resources_ok sz s"
  by (simp add: resource_simps)

lemma reader_after_read_resources:
  assumes ok: "resources_ok sz s" and pc: "reader_handles (ex_reader s) = {#h#}"
    and items: "reader_items (ex_reader s) = {#}"
  shows "resources_ok sz (reader_after_read m i off h n s)"
proof (cases "n = 0")
  case True
  with ok pc items show ?thesis by (simp add: reader_after_read_def resource_simps)
next
  case False
  define t where "t = s\<lparr>ex_registry := count_block (rm_read_blocks m) (rm_read_bytes m) (size_to_u64 n) (ex_registry s)\<rparr>"
  have okt: "resources_ok sz t" using ok by (simp add: t_def)
  show ?thesis
  proof (cases "reader_advance i off n")
    case (Inl e)
    with False ok pc items show ?thesis by (simp add: reader_after_read_def resource_simps)
  next
    case (Inr io)
    obtain i' off' where io: "io = (i', off')" by (cases io)
    obtain r p where new: "work_item_new i off n h (ex_pool s) = (r, p)"
      by (cases "work_item_new i off n h (ex_pool s)")
    show ?thesis
    proof (cases r)
      case (Inl e)
      then have p: "p = handle_destroy h (ex_pool s)" using new by (simp add: work_item_new_Inl)
      have "reader_after_read m i off h n s = t\<lparr>ex_pool := p, ex_reader := R_failing (Fail_record e)\<rparr>"
        using False Inr io new Inl by (simp add: reader_after_read_def t_def)
      moreover have "leases_ok p (image_mset wi_buffer (downstream_items s))"
        unfolding p by (rule leases_ok_destroy) (use ok pc in \<open>simp add: resources_ok_def held_def\<close>)
      ultimately show ?thesis
        using ok items by (simp add: resource_simps t_def p)
    next
      case (Inr item)
      note w = work_item_new_Inr [OF new [unfolded Inr]]
      have "reader_after_read m i off h n s = t\<lparr>ex_reader := R_push i' off' item\<rparr>"
        using False \<open>reader_advance i off n = Inr io\<close> io new Inr w(1)
        by (simp add: reader_after_read_def t_def)
      moreover have "item_fits sz item"
        using ok pc w sizes_handle [of h "ex_pool s"]
        by (auto simp: item_fits_def resources_ok_def handle_fits_def)
      ultimately show ?thesis
        using ok pc items w by (simp add: resource_simps t_def handle_fits_def)
    qed
  qed
qed

lemma item_fits_handle: "item_fits sz item \<Longrightarrow> handle_fits sz (wi_buffer item)"
  by (simp add: item_fits_def handle_fits_def)

lemma reader_step_resources:
  assumes ok: "resources_ok sz s" and step: "reader_step env ch (ex_reader s) s = Some s'"
  shows "resources_ok sz s'"
proof (cases "ex_reader s")
  case R_idle
  with step show ?thesis by simp
next
  case R_done
  with step show ?thesis by simp
next
  case (R_acquire i off)
  with step obtain h p where a: "pool_acquire (ex_pool s) = Some (h, p)"
    and s': "s' = s\<lparr>ex_pool := p, ex_reader := R_read i off h\<rparr>"
    by (auto split: option.splits)
  have l: "leases_ok (ex_pool s) (held s)" using ok by (simp add: resources_ok_def)
  from leases_ok_acquire [OF l a] sizes_acquire [OF a] ok R_acquire show ?thesis
    by (auto simp: resource_simps s' handle_fits_def)
next
  case (R_read i off h)
  with step obtain r w where c: "complete_read (ev_backend env) (ev_input_fd env)
      (handle_size h (ex_pool s)) off (ex_in s) = Some (r, w)"
    by (auto split: option.splits)
  define t where "t = s\<lparr>ex_in := w, ex_registry := time_operation (rm_read_latency_ns (ev_metrics env))
      (ch_elapsed ch) (ex_registry s)\<rparr>"
  show ?thesis
  proof (cases r)
    case (Inl e)
    with step R_read c have "s' = t\<lparr>ex_reader := R_unwind h e\<rparr>" by (simp add: t_def)
    with ok R_read show ?thesis by (simp add: resource_simps t_def)
  next
    case (Inr nb)
    obtain n bytes where nb: "nb = (n, bytes)" by (cases nb)
    have s': "s' = reader_after_read (ev_metrics env) i off h n
        (t\<lparr>ex_pool := handle_store h bytes (ex_pool t)\<rparr>)"
      using step R_read c Inr nb by (simp add: t_def Let_def)
    have "resources_ok sz (t\<lparr>ex_pool := handle_store h bytes (ex_pool t)\<rparr>)"
      using ok by (auto simp: resource_simps t_def)
    then show ?thesis unfolding s'
      by (rule reader_after_read_resources) (simp_all add: t_def R_read)
  qed
next
  case (R_push i off item)
  obtain r q where p: "spsc_push item (ex_q1 s) = (r, q)" by (cases "spsc_push item (ex_q1 s)")
  have inv: "ring_inv (ex_q1 s)" using ok by (simp add: resources_ok_def)
  note push = ring.push_ok [OF inv p]
  have fit: "item_fits sz item" using ok R_push by (simp add: resources_ok_def)
  show ?thesis
    using step ok push fit R_push p item_fits_handle [OF fit]
    by (cases r) (auto simp: resource_simps)
next
  case (R_close h)
  have inv: "ring_inv (ex_q1 s)" using ok by (simp add: resources_ok_def)
  with step ok R_close spsc_close_inv [OF inv] show ?thesis by (auto simp: resource_simps)
next
  case (R_leave h)
  have "leases_ok (ex_pool s) (add_mset h (image_mset wi_buffer (downstream_items s)))"
    using ok R_leave by (simp add: resources_ok_def held_def)
  from leases_ok_destroy [OF this] step ok R_leave show ?thesis by (auto simp: resource_simps)
next
  case (R_unwind h e)
  have "leases_ok (ex_pool s) (add_mset h (image_mset wi_buffer (downstream_items s)))"
    using ok R_unwind by (simp add: resources_ok_def held_def)
  from leases_ok_destroy [OF this] step ok R_unwind show ?thesis by (auto simp: resource_simps)
next
  case (R_failing f)
  obtain nxt t where f: "fail_step f s = (nxt, t)" by (cases "fail_step f s")
  note fs = fail_step_resources [OF ok f]
  have s': "s' = t\<lparr>ex_reader := (case nxt of None \<Rightarrow> R_done | Some f' \<Rightarrow> R_failing f')\<rparr>"
    using step R_failing f by simp
  show ?thesis using fs R_failing by (cases nxt) (simp_all add: resource_simps s')
qed

lemma processor_step_resources:
  assumes ok: "resources_ok sz s" and step: "processor_step env ch (ex_processor s) s = Some s'"
  shows "resources_ok sz s'"
proof (cases "ex_processor s")
  case P_idle
  with step show ?thesis by simp
next
  case P_done
  with step show ?thesis by simp
next
  case P_pop
  obtain r q where p: "spsc_pop (ex_q1 s) = (r, q)" by (cases "spsc_pop (ex_q1 s)")
  have inv: "ring_inv (ex_q1 s)" using ok by (simp add: resources_ok_def)
  note pop = ring.pop_ok [OF inv p]
  show ?thesis using step ok pop P_pop p by (cases r) (auto simp: resource_simps)
next
  case (P_process item)
  obtain err pl r out where run: "pipeline_process (ev_users env) (ch_stage_elapsed ch) (ex_pipeline s)
      (ex_registry s) (valid_data item (ex_pool s)) = (err, pl, r, out)"
    by (metis prod.exhaust)
  with step ok P_process show ?thesis
    by (cases err) (auto simp: resource_simps Let_def)
next
  case (P_push item)
  obtain r q where p: "spsc_push item (ex_q2 s) = (r, q)" by (cases "spsc_push item (ex_q2 s)")
  have inv: "ring_inv (ex_q2 s)" using ok by (simp add: resources_ok_def)
  note push = ring.push_ok [OF inv p]
  show ?thesis
    using step ok push P_push p by (cases r) (auto simp: resource_simps)
next
  case P_close
  have inv: "ring_inv (ex_q2 s)" using ok by (simp add: resources_ok_def)
  with step ok P_close spsc_close_inv [OF inv] show ?thesis by (auto simp: resource_simps)
next
  case (P_unwind item e)
  let ?M = "reader_handles (ex_reader s) + image_mset wi_buffer (mset (contents (ex_q1 s)) +
      mset (contents (ex_q2 s)) + writer_items (ex_writer s))"
  have "leases_ok (ex_pool s) (add_mset (wi_buffer item) ?M)"
    using ok P_unwind by (simp add: resource_simps)
  from leases_ok_destroy_item [OF this] step ok P_unwind show ?thesis by (auto simp: resource_simps)
next
  case (P_failing f)
  obtain nxt t where f: "fail_step f s = (nxt, t)" by (cases "fail_step f s")
  note fs = fail_step_resources [OF ok f]
  have s': "s' = t\<lparr>ex_processor := (case nxt of None \<Rightarrow> P_done | Some f' \<Rightarrow> P_failing f')\<rparr>"
    using step P_failing f by simp
  show ?thesis using fs P_failing by (cases nxt) (simp_all add: resource_simps s')
qed

lemma writer_after_write_sel [simp]:
  "ex_pool (writer_after_write m item n res s) = ex_pool s"
  "ex_q1 (writer_after_write m item n res s) = ex_q1 s"
  "ex_q2 (writer_after_write m item n res s) = ex_q2 s"
  "ex_reader (writer_after_write m item n res s) = ex_reader s"
  "ex_processor (writer_after_write m item n res s) = ex_processor s"
  "ex_main (writer_after_write m item n res s) = ex_main s"
  "ex_first_failure (writer_after_write m item n res s) = ex_first_failure s"
  "ex_in (writer_after_write m item n res s) = ex_in s"
  "ex_out (writer_after_write m item n res s) = ex_out s"
  "ex_pipeline (writer_after_write m item n res s) = ex_pipeline s"
  "writer_items (ex_writer (writer_after_write m item n res s)) = {#item#}"
  by (simp_all add: writer_after_write_def split: prod.split sum.split)

lemma writer_step_resources:
  assumes ok: "resources_ok sz s" and step: "writer_step env ch (ex_writer s) s = Some s'"
  shows "resources_ok sz s'"
proof (cases "ex_writer s")
  case W_idle
  with step show ?thesis by simp
next
  case W_done
  with step show ?thesis by simp
next
  case W_pop
  obtain r q where p: "spsc_pop (ex_q2 s) = (r, q)" by (cases "spsc_pop (ex_q2 s)")
  have inv: "ring_inv (ex_q2 s)" using ok by (simp add: resources_ok_def)
  note pop = ring.pop_ok [OF inv p]
  show ?thesis using step ok pop W_pop p by (cases r) (auto simp: resource_simps)
next
  case (W_write item)
  with step ok show ?thesis by (auto simp: resource_simps Let_def split: option.splits)
next
  case (W_release item)
  let ?M = "reader_handles (ex_reader s) + image_mset wi_buffer (mset (contents (ex_q1 s)) +
      processor_items (ex_processor s) + mset (contents (ex_q2 s)))"
  have "leases_ok (ex_pool s) (add_mset (wi_buffer item) ?M)"
    using ok W_release by (simp add: resource_simps)
  from leases_ok_destroy_item [OF this] step ok W_release show ?thesis by (auto simp: resource_simps)
next
  case (W_unwind item e)
  let ?M = "reader_handles (ex_reader s) + image_mset wi_buffer (mset (contents (ex_q1 s)) +
      processor_items (ex_processor s) + mset (contents (ex_q2 s)))"
  have "leases_ok (ex_pool s) (add_mset (wi_buffer item) ?M)"
    using ok W_unwind by (simp add: resource_simps)
  from leases_ok_destroy_item [OF this] step ok W_unwind show ?thesis by (auto simp: resource_simps)
next
  case (W_failing f)
  obtain nxt t where f: "fail_step f s = (nxt, t)" by (cases "fail_step f s")
  note fs = fail_step_resources [OF ok f]
  have s': "s' = t\<lparr>ex_writer := (case nxt of None \<Rightarrow> W_done | Some f' \<Rightarrow> W_failing f')\<rparr>"
    using step W_failing f by simp
  show ?thesis using fs W_failing by (cases nxt) (simp_all add: resource_simps s')
qed

text \<open>Threads that the main thread has not created yet are idle.\<close>

fun spawning_ok :: "main_pc \<Rightarrow> reader_pc \<Rightarrow> processor_pc \<Rightarrow> writer_pc \<Rightarrow> bool" where
  "spawning_ok M_spawn_writer r p w = (r = R_idle \<and> p = P_idle \<and> w = W_idle)"
| "spawning_ok M_spawn_processor r p w = (r = R_idle \<and> p = P_idle \<and> w \<noteq> W_idle)"
| "spawning_ok M_spawn_reader r p w = (r = R_idle \<and> p \<noteq> P_idle \<and> w \<noteq> W_idle)"
| "spawning_ok _ r p w = True"

lemma queued_slots_empty: "ring_inv q \<Longrightarrow> contents q = [] \<Longrightarrow> queued_slots q = []"
  using mset_queued_slots [of q] by simp

lemma finish_run_pool:
  assumes "ring_inv (ex_q1 s)" and "ring_inv (ex_q2 s)" and "contents (ex_q1 s) = []"
    and "contents (ex_q2 s) = []"
  shows "ex_pool (finish_run m s) = ex_pool s" and "ex_q1 (finish_run m s) = ex_q1 s"
    and "ex_q2 (finish_run m s) = ex_q2 s" and "ex_reader (finish_run m s) = ex_reader s"
    and "ex_processor (finish_run m s) = ex_processor s" and "ex_writer (finish_run m s) = ex_writer s"
    and "ex_first_failure (finish_run m s) = ex_first_failure s"
    and "ex_in (finish_run m s) = ex_in s" and "ex_out (finish_run m s) = ex_out s"
    and "ex_pipeline (finish_run m s) = ex_pipeline s" and "ex_result (finish_run m s) = ex_result s"
    and "ex_main (finish_run m s) =
      M_done (case ex_first_failure s of Some e \<Rightarrow> Inl e | None \<Rightarrow> Inr (ex_result s))"
  using queued_slots_empty [OF assms(1,3)] queued_slots_empty [OF assms(2,4)]
  by (simp_all add: finish_run_def spsc_destroy_def destroy_items_def)

lemma main_step_resources:
  assumes ok: "resources_ok sz s" and step: "main_step env ch (ex_main s) s = Some s'"
    and spawn: "spawning_ok (ex_main s) (ex_reader s) (ex_processor s) (ex_writer s)"
    and drained: "workers_joined s \<Longrightarrow> ex_main s = M_join \<Longrightarrow>
      contents (ex_q1 s) = [] \<and> contents (ex_q2 s) = []"
  shows "resources_ok sz s'"
proof (cases "ex_main s")
  case M_spawn_writer
  with step spawn ok show ?thesis by (auto simp: resource_simps split: option.splits)
next
  case M_spawn_processor
  with step spawn ok show ?thesis by (auto simp: resource_simps split: option.splits)
next
  case M_spawn_reader
  with step spawn ok show ?thesis by (auto simp: resource_simps split: option.splits)
next
  case (M_failing f)
  obtain nxt t where f: "fail_step f s = (nxt, t)" by (cases "fail_step f s")
  note fs = fail_step_resources [OF ok f]
  have s': "s' = t\<lparr>ex_main := (case nxt of None \<Rightarrow> M_join | Some f' \<Rightarrow> M_failing f')\<rparr>"
    using step M_failing f by simp
  show ?thesis using fs by (simp add: resource_simps s')
next
  case M_join
  with step have j: "workers_joined s" and s': "s' = finish_run (ev_metrics env) s"
    by (auto split: if_splits)
  have q: "ring_inv (ex_q1 s)" "ring_inv (ex_q2 s)" using ok by (simp_all add: resources_ok_def)
  have e: "contents (ex_q1 s) = []" "contents (ex_q2 s) = []" using drained [OF j M_join] by simp_all
  show ?thesis using ok by (simp add: resource_simps s' finish_run_pool [OF q e])
next
  case (M_done r)
  with step show ?thesis by simp
qed

lemma fail_step_main: "fail_step f s = (nxt, s') \<Longrightarrow> ex_main s' = ex_main s"
  by (cases f) (auto split: option.splits prod.splits)

end
