(* ===== verification/Executor_Control.thy ===== *)
theory Executor_Control
  imports Executor_Resources
begin

text \<open>
  How the threads of the executor follow each other: who closed or failed which queue, which
  failure is recorded, and what a thread may conclude when it has finished. The facts are stated
  over the control part of a state alone (the queues' states, whether they are empty, the recorded
  failures and the program counters). With the resources they give freedom from deadlock.
\<close>

section \<open>The control invariant\<close>

fun reader_fails :: "reader_pc \<Rightarrow> fail_pc list" where
  "reader_fails (R_failing f) = [f]"
| "reader_fails _ = []"

fun processor_fails :: "processor_pc \<Rightarrow> fail_pc list" where
  "processor_fails (P_failing f) = [f]"
| "processor_fails _ = []"

fun writer_fails :: "writer_pc \<Rightarrow> fail_pc list" where
  "writer_fails (W_failing f) = [f]"
| "writer_fails _ = []"

fun main_fails :: "main_pc \<Rightarrow> fail_pc list" where
  "main_fails (M_failing f) = [f]"
| "main_fails _ = []"

fun fail_active :: "fail_pc \<Rightarrow> bool" where
  "fail_active (Fail_record _) = False"
| "fail_active _ = True"

fun fail_pc_ok :: "exn option \<Rightarrow> queue_state \<Rightarrow> fail_pc \<Rightarrow> bool" where
  "fail_pc_ok ff st1 (Fail_record _) = True"
| "fail_pc_ok ff st1 (Fail_first c) = (ff = Some c)"
| "fail_pc_ok ff st1 (Fail_second c) = (ff = Some c \<and> st1 = Queue_failed)"

fun reader_left :: "reader_pc \<Rightarrow> bool" where
  "reader_left (R_leave _) = True"
| "reader_left R_done = True"
| "reader_left _ = False"

fun processor_left :: "processor_pc \<Rightarrow> bool" where
  "processor_left P_close = True"
| "processor_left P_done = True"
| "processor_left _ = False"

definition joined :: "reader_pc \<Rightarrow> processor_pc \<Rightarrow> writer_pc \<Rightarrow> bool" where
  "joined r p w \<longleftrightarrow> r \<in> {R_idle, R_done} \<and> p \<in> {P_idle, P_done} \<and> w \<in> {W_idle, W_done}"

text \<open>
  The failure part: the queues' states and recorded failures, the first failure, and the phases of
  \<open>fail_all\<close> that are running.
\<close>

definition failure_ctl ::
  "queue_state \<Rightarrow> exn option \<Rightarrow> queue_state \<Rightarrow> exn option \<Rightarrow> exn option \<Rightarrow> fail_pc set \<Rightarrow> bool" where
  "failure_ctl st1 f1 st2 f2 ff F \<longleftrightarrow>
     (\<forall>c. f1 = Some c \<longrightarrow> ff = Some c) \<and> (\<forall>c. f2 = Some c \<longrightarrow> ff = Some c) \<and>
     (st1 = Queue_failed \<longleftrightarrow> f1 \<noteq> None) \<and> (st2 = Queue_failed \<longleftrightarrow> f2 \<noteq> None) \<and>
     (\<forall>f \<in> F. fail_pc_ok ff st1 f) \<and>
     (st2 = Queue_failed \<longrightarrow> st1 = Queue_failed) \<and>
     (ff \<noteq> None \<longrightarrow> st2 = Queue_failed \<or> (\<exists>f \<in> F. fail_active f))"

text \<open>
  The hand-over part. Arguments: state and emptiness of each queue, the first failure, the result
  so far, and the four program counters.
\<close>

definition handover_ctl ::
  "queue_state \<Rightarrow> bool \<Rightarrow> queue_state \<Rightarrow> bool \<Rightarrow> exn option \<Rightarrow> pipeline_run_result \<Rightarrow>
   reader_pc \<Rightarrow> processor_pc \<Rightarrow> writer_pc \<Rightarrow> main_pc \<Rightarrow> bool" where
  "handover_ctl st1 empty1 st2 empty2 ff res r p w m \<longleftrightarrow>
     (reader_left r \<longrightarrow> st1 \<noteq> Queue_open) \<and>
     (st1 = Queue_closed \<longrightarrow> reader_left r) \<and>
     (processor_left p \<longrightarrow> st1 \<noteq> Queue_open \<and> (ff \<noteq> None \<or> st1 = Queue_closed \<and> empty1)) \<and>
     (p = P_done \<longrightarrow> st2 \<noteq> Queue_open) \<and>
     (st2 = Queue_closed \<longrightarrow> p = P_done) \<and>
     (w = W_done \<longrightarrow> st2 \<noteq> Queue_open \<and> (ff \<noteq> None \<or> st2 = Queue_closed \<and> empty2)) \<and>
     spawning_ok m r p w \<and>
     (m = M_join \<longrightarrow> ff \<noteq> None \<or> r \<noteq> R_idle \<and> p \<noteq> P_idle \<and> w \<noteq> W_idle) \<and>
     (\<forall>x. m = M_done x \<longrightarrow> joined r p w \<and> empty1 \<and> empty2 \<and>
        x = (case ff of Some e \<Rightarrow> Inl e | None \<Rightarrow> Inr res) \<and>
        (ff \<noteq> None \<or> r \<noteq> R_idle \<and> p \<noteq> P_idle \<and> w \<noteq> W_idle))"

definition all_fails :: "('r, 'o, 'u) exec_state \<Rightarrow> fail_pc set" where
  "all_fails s = set (reader_fails (ex_reader s)) \<union> set (processor_fails (ex_processor s)) \<union>
     set (writer_fails (ex_writer s)) \<union> set (main_fails (ex_main s))"

definition control_ok :: "('r, 'o, 'u) exec_state \<Rightarrow> bool" where
  "control_ok s \<longleftrightarrow>
     failure_ctl (q_state (ex_q1 s)) (q_failure (ex_q1 s)) (q_state (ex_q2 s)) (q_failure (ex_q2 s))
       (ex_first_failure s) (all_fails s) \<and>
     handover_ctl (q_state (ex_q1 s)) (contents (ex_q1 s) = []) (q_state (ex_q2 s))
       (contents (ex_q2 s) = []) (ex_first_failure s) (ex_result s) (ex_reader s) (ex_processor s)
       (ex_writer s) (ex_main s)"

lemma workers_joined_eq: "workers_joined s \<longleftrightarrow> joined (ex_reader s) (ex_processor s) (ex_writer s)"
  by (simp add: workers_joined_def joined_def)

lemma joined_no_fails:
  "joined r p w \<Longrightarrow> reader_fails r = [] \<and> processor_fails p = [] \<and> writer_fails w = []"
  by (auto simp: joined_def)

text \<open>Empty queues of the joined workers.\<close>

lemma drained_at_join:
  assumes c: "control_ok s" and q: "ring_inv (ex_q1 s)" "ring_inv (ex_q2 s)"
    and j: "workers_joined s" and m: "ex_main s = M_join"
  shows "contents (ex_q1 s) = [] \<and> contents (ex_q2 s) = []"
proof (cases "ex_first_failure s")
  case None
  with c j m show ?thesis by (auto simp: control_ok_def handover_ctl_def workers_joined_eq joined_def)
next
  case (Some e)
  with c j m have "q_state (ex_q2 s) = Queue_failed" "q_state (ex_q1 s) = Queue_failed"
    using joined_no_fails [of "ex_reader s" "ex_processor s" "ex_writer s"]
    by (auto simp: control_ok_def failure_ctl_def all_fails_def workers_joined_eq)
  with q show ?thesis by (simp add: ring_inv_def contents_empty_iff)
qed

section \<open>Preservation\<close>

lemma failure_ctl_record:
  assumes "failure_ctl st1 f1 st2 f2 ff (insert (Fail_record e) G)"
    and "c = (case ff of None \<Rightarrow> e | Some d \<Rightarrow> d)"
  shows "failure_ctl st1 f1 st2 f2 (Some c) (insert (Fail_first c) G)"
proof -
  have mono: "fail_pc_ok (Some c) st1 f" if "fail_pc_ok ff st1 f" for f
    using that assms(2) by (cases f) auto
  have "\<forall>d. ff = Some d \<longrightarrow> c = d" using assms(2) by simp
  with assms(1) mono show ?thesis unfolding failure_ctl_def by simp
qed

lemma failure_ctl_first:
  assumes "failure_ctl st1 f1 st2 f2 ff (insert (Fail_first c) G)"
  shows "failure_ctl Queue_failed (if st1 = Queue_failed then f1 else Some c) st2 f2 ff
           (insert (Fail_second c) G)"
proof -
  have "fail_pc_ok ff Queue_failed f" if "fail_pc_ok ff st1 f" for f
    using that by (cases f) auto
  with assms show ?thesis by (auto simp: failure_ctl_def)
qed

lemma failure_ctl_second:
  assumes "failure_ctl st1 f1 st2 f2 ff (insert (Fail_second c) G)"
  shows "failure_ctl st1 f1 Queue_failed (if st2 = Queue_failed then f2 else Some c) ff G"
  using assms by (auto simp: failure_ctl_def)

lemma failure_ctl_raise:
  "failure_ctl st1 f1 st2 f2 ff F \<Longrightarrow> failure_ctl st1 f1 st2 f2 ff (insert (Fail_record e) F)"
  by (auto simp: failure_ctl_def)

text \<open>Closing a queue that is not failed.\<close>

lemma failure_ctl_close1:
  "failure_ctl st1 f1 st2 f2 ff F \<Longrightarrow>
   failure_ctl (if st1 = Queue_open then Queue_closed else st1) f1 st2 f2 ff F"
proof -
  have "fail_pc_ok ff (if st1 = Queue_open then Queue_closed else st1) f = fail_pc_ok ff st1 f" for f
    by (cases f) auto
  then show "failure_ctl st1 f1 st2 f2 ff F \<Longrightarrow> ?thesis"
    by (auto simp: failure_ctl_def)
qed

lemma failure_ctl_close2:
  "failure_ctl st1 f1 st2 f2 ff F \<Longrightarrow>
   failure_ctl st1 f1 (if st2 = Queue_open then Queue_closed else st2) f2 ff F"
  by (auto simp: failure_ctl_def)

text \<open>What one phase of \<open>fail_all\<close> does to the control part of a state.\<close>

lemma fail_step_sel:
  assumes "fail_step f s = (nxt, s')"
  shows "ex_reader s' = ex_reader s" "ex_processor s' = ex_processor s" "ex_writer s' = ex_writer s"
    "ex_main s' = ex_main s" "ex_result s' = ex_result s" "ex_in s' = ex_in s" "ex_out s' = ex_out s"
    "ex_pipeline s' = ex_pipeline s" "ex_registry s' = ex_registry s"
  using assms by (cases f; auto split: option.splits prod.splits)+

text \<open>
  The hand-over part only gains from a failure: emptied, failed queues and a recorded failure
  satisfy everything it asks for, except of a main thread that has already returned.
\<close>

lemma fail_step_control:
  assumes q: "ring_inv (ex_q1 s)" "ring_inv (ex_q2 s)" and f: "fail_step f s = (nxt, s')"
    and c: "failure_ctl (q_state (ex_q1 s)) (q_failure (ex_q1 s)) (q_state (ex_q2 s))
              (q_failure (ex_q2 s)) (ex_first_failure s) (insert f G)"
    and h: "handover_ctl (q_state (ex_q1 s)) (contents (ex_q1 s) = []) (q_state (ex_q2 s))
              (contents (ex_q2 s) = []) (ex_first_failure s) res r p w m"
    and m: "\<And>x. m \<noteq> M_done x"
  shows "failure_ctl (q_state (ex_q1 s')) (q_failure (ex_q1 s')) (q_state (ex_q2 s'))
           (q_failure (ex_q2 s')) (ex_first_failure s')
           (case nxt of None \<Rightarrow> G | Some f' \<Rightarrow> insert f' G)"
    and "handover_ctl (q_state (ex_q1 s')) (contents (ex_q1 s') = []) (q_state (ex_q2 s'))
           (contents (ex_q2 s') = []) (ex_first_failure s') res r p w m"
    and "ex_first_failure s' \<noteq> None"
    and "nxt = None \<Longrightarrow> q_state (ex_q1 s') = Queue_failed \<and> q_state (ex_q2 s') = Queue_failed"
proof -
  have "failure_ctl (q_state (ex_q1 s')) (q_failure (ex_q1 s')) (q_state (ex_q2 s'))
           (q_failure (ex_q2 s')) (ex_first_failure s')
           (case nxt of None \<Rightarrow> G | Some f' \<Rightarrow> insert f' G) \<and>
    handover_ctl (q_state (ex_q1 s')) (contents (ex_q1 s') = []) (q_state (ex_q2 s'))
           (contents (ex_q2 s') = []) (ex_first_failure s') res r p w m \<and>
    ex_first_failure s' \<noteq> None \<and>
    (nxt = None \<longrightarrow> q_state (ex_q1 s') = Queue_failed \<and> q_state (ex_q2 s') = Queue_failed)"
  proof (cases f)
    case (Fail_record e)
    let ?d = "case ex_first_failure s of None \<Rightarrow> e | Some d \<Rightarrow> d"
    have s': "nxt = Some (Fail_first ?d)" "ex_first_failure s' = Some ?d" "ex_q1 s' = ex_q1 s"
      "ex_q2 s' = ex_q2 s"
      using f Fail_record by (auto split: option.splits)
    have "failure_ctl (q_state (ex_q1 s)) (q_failure (ex_q1 s)) (q_state (ex_q2 s))
              (q_failure (ex_q2 s)) (Some ?d) (insert (Fail_first ?d) G)"
      using c Fail_record by (intro failure_ctl_record) simp_all
    then show ?thesis using h m by (auto simp: s' handover_ctl_def)
  next
    case (Fail_first e)
    obtain d q1 where d: "spsc_fail (Some e) (ex_q1 s) = (d, q1)" by (cases "spsc_fail (Some e) (ex_q1 s)")
    note drop = spsc_fail_drop [OF q(1) d]
    have s': "nxt = Some (Fail_second e)" "ex_first_failure s' = ex_first_failure s" "ex_q1 s' = q1"
      "ex_q2 s' = ex_q2 s"
      using f Fail_first d by auto
    have "ex_first_failure s = Some e" using c Fail_first by (simp add: failure_ctl_def)
    then show ?thesis
      using failure_ctl_first [of _ _ _ _ _ e G] c h m drop Fail_first
      by (auto simp: s' handover_ctl_def)
  next
    case (Fail_second e)
    obtain d q2 where d: "spsc_fail (Some e) (ex_q2 s) = (d, q2)" by (cases "spsc_fail (Some e) (ex_q2 s)")
    note drop = spsc_fail_drop [OF q(2) d]
    have s': "nxt = None" "ex_first_failure s' = ex_first_failure s" "ex_q1 s' = ex_q1 s"
      "ex_q2 s' = q2"
      using f Fail_second d by auto
    have "ex_first_failure s = Some e" "q_state (ex_q1 s) = Queue_failed"
      using c Fail_second by (simp_all add: failure_ctl_def)
    then show ?thesis
      using failure_ctl_second [of _ _ _ _ _ e G] c h m drop Fail_second
      by (auto simp: s' handover_ctl_def)
  qed
  then show "failure_ctl (q_state (ex_q1 s')) (q_failure (ex_q1 s')) (q_state (ex_q2 s'))
           (q_failure (ex_q2 s')) (ex_first_failure s')
           (case nxt of None \<Rightarrow> G | Some f' \<Rightarrow> insert f' G)"
    and "handover_ctl (q_state (ex_q1 s')) (contents (ex_q1 s') = []) (q_state (ex_q2 s'))
           (contents (ex_q2 s') = []) (ex_first_failure s') res r p w m"
    and "ex_first_failure s' \<noteq> None"
    and "nxt = None \<Longrightarrow> q_state (ex_q1 s') = Queue_failed \<and> q_state (ex_q2 s') = Queue_failed"
    by blast+
qed

text \<open>\<open>control_ok\<close> of a state whose fields are known.\<close>

lemma control_okD:
  assumes "control_ok s"
  shows "failure_ctl (q_state (ex_q1 s)) (q_failure (ex_q1 s)) (q_state (ex_q2 s)) (q_failure (ex_q2 s))
       (ex_first_failure s) (all_fails s)"
    and "handover_ctl (q_state (ex_q1 s)) (contents (ex_q1 s) = []) (q_state (ex_q2 s))
       (contents (ex_q2 s) = []) (ex_first_failure s) (ex_result s) (ex_reader s) (ex_processor s)
       (ex_writer s) (ex_main s)"
  using assms by (simp_all add: control_ok_def)

lemma done_no_fail:
  assumes "control_ok s" and "ex_main s = M_done x"
  shows "reader_fails (ex_reader s) = []" "processor_fails (ex_processor s) = []"
    "writer_fails (ex_writer s) = []"
  using control_okD(2) [OF assms(1)] joined_no_fails assms(2) by (auto simp: handover_ctl_def)

lemma control_spawning:
  "control_ok s \<Longrightarrow> spawning_ok (ex_main s) (ex_reader s) (ex_processor s) (ex_writer s)"
  by (simp add: control_ok_def handover_ctl_def)

text \<open>A step that changes nothing but its thread's program counter, from inside the loop to inside it.\<close>

definition same_control :: "('r, 'o, 'u) exec_state \<Rightarrow> ('r, 'o, 'u) exec_state \<Rightarrow> bool" where
  "same_control s s' \<longleftrightarrow>
     q_state (ex_q1 s') = q_state (ex_q1 s) \<and> q_failure (ex_q1 s') = q_failure (ex_q1 s) \<and>
     q_state (ex_q2 s') = q_state (ex_q2 s) \<and> q_failure (ex_q2 s') = q_failure (ex_q2 s) \<and>
     (q_state (ex_q1 s) \<noteq> Queue_open \<longrightarrow> contents (ex_q1 s) = [] \<longrightarrow> contents (ex_q1 s') = []) \<and>
     (q_state (ex_q2 s) \<noteq> Queue_open \<longrightarrow> contents (ex_q2 s) = [] \<longrightarrow> contents (ex_q2 s') = []) \<and>
     ex_first_failure s' = ex_first_failure s \<and> ex_main s' = ex_main s"

definition raises_only :: "fail_pc list \<Rightarrow> bool" where
  "raises_only fs \<longleftrightarrow> fs = [] \<or> (\<exists>e. fs = [Fail_record e])"

lemma raises_only_simps [simp]: "raises_only []" "raises_only [Fail_record e]"
  by (simp_all add: raises_only_def)

lemma failure_ctl_raises:
  "failure_ctl st1 f1 st2 f2 ff G \<Longrightarrow> raises_only fs \<Longrightarrow> failure_ctl st1 f1 st2 f2 ff (set fs \<union> G)"
  by (auto simp: raises_only_def failure_ctl_raise)

fun reader_running :: "reader_pc \<Rightarrow> bool" where
  "reader_running (R_acquire _ _) = True"
| "reader_running (R_read _ _ _) = True"
| "reader_running (R_push _ _ _) = True"
| "reader_running (R_close _) = True"
| "reader_running (R_unwind _ _) = True"
| "reader_running _ = False"

fun processor_running :: "processor_pc \<Rightarrow> bool" where
  "processor_running P_pop = True"
| "processor_running (P_process _) = True"
| "processor_running (P_push _) = True"
| "processor_running (P_unwind _ _) = True"
| "processor_running _ = False"

fun writer_running :: "writer_pc \<Rightarrow> bool" where
  "writer_running W_pop = True"
| "writer_running (W_write _) = True"
| "writer_running (W_release _) = True"
| "writer_running (W_unwind _ _) = True"
| "writer_running _ = False"

lemma not_joined_main:
  assumes "control_ok s" and "\<not> joined (ex_reader s) (ex_processor s) (ex_writer s)"
  shows "ex_main s \<noteq> M_done x"
proof
  assume "ex_main s = M_done x"
  with control_okD(2) [OF assms(1)] have "joined (ex_reader s) (ex_processor s) (ex_writer s)"
    by (simp add: handover_ctl_def)
  with assms(2) show False ..
qed

lemma running_main:
  assumes "control_ok s"
    and "reader_running (ex_reader s) \<or> processor_running (ex_processor s) \<or> writer_running (ex_writer s)"
  shows "ex_main s \<noteq> M_done x"
proof (rule not_joined_main [OF assms(1)])
  show "\<not> joined (ex_reader s) (ex_processor s) (ex_writer s)"
    using assms(2) by (auto simp: joined_def)
qed

lemma reader_local_control:
  assumes c: "control_ok s" and same: "same_control s s'" and run: "reader_running (ex_reader s)"
    and pcs: "ex_processor s' = ex_processor s" "ex_writer s' = ex_writer s"
    and pc: "reader_running (ex_reader s') \<or> (\<exists>e. ex_reader s' = R_failing (Fail_record e))"
  shows "control_ok s'"
proof -
  note fc = control_okD(1) [OF c] and hc = control_okD(2) [OF c]
  have m: "ex_main s \<noteq> M_done x" for x using running_main [OF c] run by blast
  let ?G = "set (processor_fails (ex_processor s)) \<union> set (writer_fails (ex_writer s)) \<union>
        set (main_fails (ex_main s))"
  have old: "reader_fails (ex_reader s) = []" "\<not> reader_left (ex_reader s)" "ex_reader s \<noteq> R_idle"
    using run by (cases "ex_reader s"; simp)+
  have new: "raises_only (reader_fails (ex_reader s'))" "\<not> reader_left (ex_reader s')" "ex_reader s' \<noteq> R_idle"
    using pc by (cases "ex_reader s'"; auto)+
  have "all_fails s = ?G" "all_fails s' = set (reader_fails (ex_reader s')) \<union> ?G"
    using old same by (simp_all add: all_fails_def pcs same_control_def Un_assoc)
  then have "failure_ctl (q_state (ex_q1 s')) (q_failure (ex_q1 s')) (q_state (ex_q2 s'))
      (q_failure (ex_q2 s')) (ex_first_failure s') (all_fails s')"
    using failure_ctl_raises [OF _ new(1)] fc same by (simp add: same_control_def)
  moreover have "spawning_ok (ex_main s') (ex_reader s') (ex_processor s') (ex_writer s')"
    using control_spawning [OF c] old(3) new(3) same pcs
    by (cases "ex_main s") (simp_all add: same_control_def)
  ultimately show ?thesis
    using hc old new same m pcs by (simp add: control_ok_def handover_ctl_def same_control_def) blast
qed

lemma processor_local_control:
  assumes c: "control_ok s" and same: "same_control s s'" and run: "processor_running (ex_processor s)"
    and pcs: "ex_reader s' = ex_reader s" "ex_writer s' = ex_writer s"
    and pc: "processor_running (ex_processor s') \<or> (\<exists>e. ex_processor s' = P_failing (Fail_record e))"
  shows "control_ok s'"
proof -
  note fc = control_okD(1) [OF c] and hc = control_okD(2) [OF c]
  have m: "ex_main s \<noteq> M_done x" for x using running_main [OF c] run by blast
  let ?G = "set (reader_fails (ex_reader s)) \<union> set (writer_fails (ex_writer s)) \<union>
        set (main_fails (ex_main s))"
  have old: "processor_fails (ex_processor s) = []" "\<not> processor_left (ex_processor s)"
    "ex_processor s \<noteq> P_idle" "ex_processor s \<noteq> P_done"
    using run by (cases "ex_processor s"; simp)+
  have new: "raises_only (processor_fails (ex_processor s'))" "\<not> processor_left (ex_processor s')"
    "ex_processor s' \<noteq> P_idle" "ex_processor s' \<noteq> P_done"
    using pc by (cases "ex_processor s'"; auto)+
  have "all_fails s = ?G" "all_fails s' = set (processor_fails (ex_processor s')) \<union> ?G"
    using old same by (auto simp: all_fails_def pcs same_control_def)
  then have "failure_ctl (q_state (ex_q1 s')) (q_failure (ex_q1 s')) (q_state (ex_q2 s'))
      (q_failure (ex_q2 s')) (ex_first_failure s') (all_fails s')"
    using failure_ctl_raises [OF _ new(1)] fc same by (simp add: same_control_def)
  moreover have "spawning_ok (ex_main s') (ex_reader s') (ex_processor s') (ex_writer s')"
    using control_spawning [OF c] old(3) new(3) same pcs
    by (cases "ex_main s") (simp_all add: same_control_def)
  ultimately show ?thesis
    using hc old new same m pcs by (simp add: control_ok_def handover_ctl_def same_control_def) blast
qed

lemma writer_local_control:
  assumes c: "control_ok s" and same: "same_control s s'" and run: "writer_running (ex_writer s)"
    and pcs: "ex_reader s' = ex_reader s" "ex_processor s' = ex_processor s"
    and pc: "writer_running (ex_writer s') \<or> (\<exists>e. ex_writer s' = W_failing (Fail_record e))"
  shows "control_ok s'"
proof -
  note fc = control_okD(1) [OF c] and hc = control_okD(2) [OF c]
  have m: "ex_main s \<noteq> M_done x" for x using running_main [OF c] run by blast
  let ?G = "set (reader_fails (ex_reader s)) \<union> set (processor_fails (ex_processor s)) \<union>
        set (main_fails (ex_main s))"
  have old: "writer_fails (ex_writer s) = []" "ex_writer s \<noteq> W_idle" "ex_writer s \<noteq> W_done"
    using run by (cases "ex_writer s"; simp)+
  have new: "raises_only (writer_fails (ex_writer s'))" "ex_writer s' \<noteq> W_idle" "ex_writer s' \<noteq> W_done"
    using pc by (cases "ex_writer s'"; auto)+
  have "all_fails s = ?G" "all_fails s' = set (writer_fails (ex_writer s')) \<union> ?G"
    using old same by (auto simp: all_fails_def pcs same_control_def)
  then have "failure_ctl (q_state (ex_q1 s')) (q_failure (ex_q1 s')) (q_state (ex_q2 s'))
      (q_failure (ex_q2 s')) (ex_first_failure s') (all_fails s')"
    using failure_ctl_raises [OF _ new(1)] fc same by (simp add: same_control_def)
  moreover have "spawning_ok (ex_main s') (ex_reader s') (ex_processor s') (ex_writer s')"
    using control_spawning [OF c] old(2) new(2) same pcs
    by (cases "ex_main s") (simp_all add: same_control_def)
  ultimately show ?thesis
    using hc old new same m pcs by (simp add: control_ok_def handover_ctl_def same_control_def) blast
qed

lemma reader_step_control:
  assumes ok: "resources_ok sz s" and c: "control_ok s"
    and step: "reader_step env ch (ex_reader s) s = Some s'"
  shows "control_ok s'"
proof -
  have q: "ring_inv (ex_q1 s)" "ring_inv (ex_q2 s)" using ok by (simp_all add: resources_ok_def)
  note fc = control_okD(1) [OF c] and hc = control_okD(2) [OF c]
  show ?thesis
  proof (cases "ex_reader s")
    case (R_failing f)
    obtain nxt t where f: "fail_step f s = (nxt, t)" by (cases "fail_step f s")
    have s': "s' = t\<lparr>ex_reader := (case nxt of None \<Rightarrow> R_done | Some f' \<Rightarrow> R_failing f')\<rparr>"
      using step R_failing f by simp
    let ?G = "set (processor_fails (ex_processor s)) \<union> set (writer_fails (ex_writer s)) \<union>
        set (main_fails (ex_main s))"
    have F: "all_fails s = insert f ?G" by (auto simp: all_fails_def R_failing)
    have m: "ex_main s \<noteq> M_done x" for x using done_no_fail(1) [OF c, of x] R_failing by auto
    note fs = fail_step_control [OF q f fc [unfolded F] hc m] and sel = fail_step_sel [OF f]
    have "all_fails s' = (case nxt of None \<Rightarrow> ?G | Some f' \<Rightarrow> insert f' ?G)"
      by (cases nxt) (auto simp: all_fails_def s' sel)
    with fs m sel show ?thesis
      by (cases nxt; cases "ex_main s") (auto simp: control_ok_def handover_ctl_def s' R_failing)
  next
    case (R_read i off h)
    then have "same_control s s' \<and> ex_processor s' = ex_processor s \<and> ex_writer s' = ex_writer s \<and>
      (reader_running (ex_reader s') \<or> (\<exists>e. ex_reader s' = R_failing (Fail_record e)))"
      using step by (auto simp: same_control_def reader_after_read_def Let_def
          split: option.splits sum.splits prod.splits if_splits)
    with R_read show ?thesis by (intro reader_local_control [OF c]) auto
  next
    case (R_push i off item)
    obtain r q1 where p: "spsc_push item (ex_q1 s) = (r, q1)" by (cases "spsc_push item (ex_q1 s)")
    have "same_control s s' \<and> ex_processor s' = ex_processor s \<and> ex_writer s' = ex_writer s \<and>
      reader_running (ex_reader s')"
      using ring.push_ok [OF q(1) p] step R_push p by (cases r) (auto simp: same_control_def)
    with R_push show ?thesis by (intro reader_local_control [OF c]) auto
  next
    case (R_acquire i off)
    then have "same_control s s' \<and> ex_processor s' = ex_processor s \<and> ex_writer s' = ex_writer s \<and>
      reader_running (ex_reader s')"
      using step by (auto simp: same_control_def split: option.splits)
    with R_acquire show ?thesis by (intro reader_local_control [OF c]) auto
  next
    case (R_close h)
    have s': "s' = s\<lparr>ex_q1 := spsc_close (ex_q1 s), ex_reader := R_leave h\<rparr>" using step R_close by simp
    note close = spsc_close_inv [OF q(1)]
    have m: "ex_main s \<noteq> M_done x" for x using running_main [OF c] R_close by simp
    have "all_fails s' = all_fails s" by (simp add: all_fails_def s' R_close)
    with failure_ctl_close1 [OF fc] hc R_close close m show ?thesis
      by (cases "ex_main s") (auto simp: control_ok_def handover_ctl_def s')
  next
    case (R_leave h)
    have s': "s' = s\<lparr>ex_pool := handle_destroy h (ex_pool s), ex_reader := R_done\<rparr>"
      using step R_leave by simp
    have m: "ex_main s \<noteq> M_done x" for x
      by (rule not_joined_main [OF c]) (simp add: R_leave joined_def)
    have "all_fails s' = all_fails s" by (simp add: all_fails_def s' R_leave)
    with fc hc R_leave m show ?thesis
      by (cases "ex_main s") (simp_all add: control_ok_def handover_ctl_def s' joined_def)
  next
    case (R_unwind h e)
    then have "same_control s s' \<and> ex_processor s' = ex_processor s \<and> ex_writer s' = ex_writer s \<and>
      ex_reader s' = R_failing (Fail_record e)"
      using step by (auto simp: same_control_def)
    with R_unwind show ?thesis by (intro reader_local_control [OF c]) auto
  qed (use step in simp_all)
qed

lemma processor_step_control:
  assumes ok: "resources_ok sz s" and c: "control_ok s"
    and step: "processor_step env ch (ex_processor s) s = Some s'"
  shows "control_ok s'"
proof -
  have q: "ring_inv (ex_q1 s)" "ring_inv (ex_q2 s)" using ok by (simp_all add: resources_ok_def)
  note fc = control_okD(1) [OF c] and hc = control_okD(2) [OF c]
  show ?thesis
  proof (cases "ex_processor s")
    case (P_failing f)
    obtain nxt t where f: "fail_step f s = (nxt, t)" by (cases "fail_step f s")
    have s': "s' = t\<lparr>ex_processor := (case nxt of None \<Rightarrow> P_done | Some f' \<Rightarrow> P_failing f')\<rparr>"
      using step P_failing f by simp
    let ?G = "set (reader_fails (ex_reader s)) \<union> set (writer_fails (ex_writer s)) \<union>
        set (main_fails (ex_main s))"
    have F: "all_fails s = insert f ?G" by (auto simp: all_fails_def P_failing)
    have m: "ex_main s \<noteq> M_done x" for x using done_no_fail(2) [OF c, of x] P_failing by auto
    note fs = fail_step_control [OF q f fc [unfolded F] hc m] and sel = fail_step_sel [OF f]
    have "all_fails s' = (case nxt of None \<Rightarrow> ?G | Some f' \<Rightarrow> insert f' ?G)"
      by (cases nxt) (auto simp: all_fails_def s' sel)
    with fs m sel show ?thesis
      by (cases nxt; cases "ex_main s") (auto simp: control_ok_def handover_ctl_def s' P_failing)
  next
    case P_pop
    obtain r q1 where p: "spsc_pop (ex_q1 s) = (r, q1)" by (cases "spsc_pop (ex_q1 s)")
    note pop = ring.pop_ok [OF q(1) p]
    show ?thesis
    proof (cases "r = Pop_end")
      case False
      then have "same_control s s' \<and> ex_reader s' = ex_reader s \<and> ex_writer s' = ex_writer s \<and>
        (processor_running (ex_processor s') \<or> (\<exists>e. ex_processor s' = P_failing (Fail_record e)))"
        using pop step P_pop p by (cases r) (auto simp: same_control_def)
      with P_pop show ?thesis by (intro processor_local_control [OF c]) auto
    next
      case True
      have s': "s' = s\<lparr>ex_q1 := q1, ex_processor := P_close\<rparr>" using step P_pop p True by simp
      have m: "ex_main s \<noteq> M_done x" for x using running_main [OF c] P_pop by simp
      have "all_fails s' = all_fails s" by (simp add: all_fails_def s' P_pop)
      with fc hc P_pop m pop True show ?thesis
        by (cases "ex_main s") (auto simp: control_ok_def handover_ctl_def s' joined_def)
    qed
  next
    case (P_process item)
    then have "same_control s s' \<and> ex_reader s' = ex_reader s \<and> ex_writer s' = ex_writer s \<and>
      processor_running (ex_processor s')"
      using step by (auto simp: same_control_def Let_def split: option.splits prod.splits)
    with P_process show ?thesis by (intro processor_local_control [OF c]) auto
  next
    case (P_push item)
    obtain r q2 where p: "spsc_push item (ex_q2 s) = (r, q2)" by (cases "spsc_push item (ex_q2 s)")
    have "same_control s s' \<and> ex_reader s' = ex_reader s \<and> ex_writer s' = ex_writer s \<and>
      processor_running (ex_processor s')"
      using ring.push_ok [OF q(2) p] step P_push p by (cases r) (auto simp: same_control_def)
    with P_push show ?thesis by (intro processor_local_control [OF c]) auto
  next
    case P_close
    have s': "s' = s\<lparr>ex_q2 := spsc_close (ex_q2 s), ex_processor := P_done\<rparr>" using step P_close by simp
    note close = spsc_close_inv [OF q(2)]
    have m: "ex_main s \<noteq> M_done x" for x
      by (rule not_joined_main [OF c]) (simp add: P_close joined_def)
    have "all_fails s' = all_fails s" by (simp add: all_fails_def s' P_close)
    with failure_ctl_close2 [OF fc] hc P_close close m show ?thesis
      by (cases "ex_main s") (auto simp: control_ok_def handover_ctl_def s')
  next
    case (P_unwind item e)
    then have "same_control s s' \<and> ex_reader s' = ex_reader s \<and> ex_writer s' = ex_writer s \<and>
      ex_processor s' = P_failing (Fail_record e)"
      using step by (auto simp: same_control_def)
    with P_unwind show ?thesis by (intro processor_local_control [OF c]) auto
  qed (use step in simp_all)
qed

lemma writer_step_control:
  assumes ok: "resources_ok sz s" and c: "control_ok s"
    and step: "writer_step env ch (ex_writer s) s = Some s'"
  shows "control_ok s'"
proof -
  have q: "ring_inv (ex_q1 s)" "ring_inv (ex_q2 s)" using ok by (simp_all add: resources_ok_def)
  note fc = control_okD(1) [OF c] and hc = control_okD(2) [OF c]
  show ?thesis
  proof (cases "ex_writer s")
    case (W_failing f)
    obtain nxt t where f: "fail_step f s = (nxt, t)" by (cases "fail_step f s")
    have s': "s' = t\<lparr>ex_writer := (case nxt of None \<Rightarrow> W_done | Some f' \<Rightarrow> W_failing f')\<rparr>"
      using step W_failing f by simp
    let ?G = "set (reader_fails (ex_reader s)) \<union> set (processor_fails (ex_processor s)) \<union>
        set (main_fails (ex_main s))"
    have F: "all_fails s = insert f ?G" by (auto simp: all_fails_def W_failing)
    have m: "ex_main s \<noteq> M_done x" for x using done_no_fail(3) [OF c, of x] W_failing by auto
    note fs = fail_step_control [OF q f fc [unfolded F] hc m] and sel = fail_step_sel [OF f]
    have "all_fails s' = (case nxt of None \<Rightarrow> ?G | Some f' \<Rightarrow> insert f' ?G)"
      by (cases nxt) (auto simp: all_fails_def s' sel)
    with fs m sel show ?thesis
      by (cases nxt; cases "ex_main s") (auto simp: control_ok_def handover_ctl_def s' W_failing)
  next
    case W_pop
    obtain r q2 where p: "spsc_pop (ex_q2 s) = (r, q2)" by (cases "spsc_pop (ex_q2 s)")
    note pop = ring.pop_ok [OF q(2) p]
    show ?thesis
    proof (cases "r = Pop_end")
      case False
      then have "same_control s s' \<and> ex_reader s' = ex_reader s \<and> ex_processor s' = ex_processor s \<and>
        (writer_running (ex_writer s') \<or> (\<exists>e. ex_writer s' = W_failing (Fail_record e)))"
        using pop step W_pop p by (cases r) (auto simp: same_control_def)
      with W_pop show ?thesis by (intro writer_local_control [OF c]) auto
    next
      case True
      have s': "s' = s\<lparr>ex_q2 := q2, ex_writer := W_done\<rparr>" using step W_pop p True by simp
      have m: "ex_main s \<noteq> M_done x" for x using running_main [OF c] W_pop by simp
      have "all_fails s' = all_fails s" by (simp add: all_fails_def s' W_pop)
      with fc hc W_pop m pop True show ?thesis
        by (cases "ex_main s") (auto simp: control_ok_def handover_ctl_def s' joined_def)
    qed
  next
    case (W_write item)
    then have "same_control s s' \<and> ex_reader s' = ex_reader s \<and> ex_processor s' = ex_processor s \<and>
      writer_running (ex_writer s')"
      using step by (auto simp: same_control_def Let_def writer_after_write_def
          split: option.splits prod.splits sum.splits)
    with W_write show ?thesis by (intro writer_local_control [OF c]) auto
  next
    case (W_release item)
    then have "same_control s s' \<and> ex_reader s' = ex_reader s \<and> ex_processor s' = ex_processor s \<and>
      writer_running (ex_writer s')"
      using step by (auto simp: same_control_def)
    with W_release show ?thesis by (intro writer_local_control [OF c]) auto
  next
    case (W_unwind item e)
    then have "same_control s s' \<and> ex_reader s' = ex_reader s \<and> ex_processor s' = ex_processor s \<and>
      ex_writer s' = W_failing (Fail_record e)"
      using step by (auto simp: same_control_def)
    with W_unwind show ?thesis by (intro writer_local_control [OF c]) auto
  qed (use step in simp_all)
qed

lemma main_step_control:
  assumes ok: "resources_ok sz s" and c: "control_ok s"
    and step: "main_step env ch (ex_main s) s = Some s'"
  shows "control_ok s'"
proof -
  have q: "ring_inv (ex_q1 s)" "ring_inv (ex_q2 s)" using ok by (simp_all add: resources_ok_def)
  note fc = control_okD(1) [OF c] and hc = control_okD(2) [OF c]
  have spawn_failed: "control_ok s'" if "ex_main s \<in> {M_spawn_writer, M_spawn_processor, M_spawn_reader}"
    and "s' = s\<lparr>ex_main := M_failing (Fail_record e)\<rparr>" for e
  proof -
    have "all_fails s' = insert (Fail_record e) (all_fails s)"
      using that by (auto simp: all_fails_def)
    with fc hc that show ?thesis by (auto simp: control_ok_def handover_ctl_def failure_ctl_raise)
  qed
  show ?thesis
  proof (cases "ex_main s")
    case M_spawn_writer
    show ?thesis
    proof (cases "ch_spawn_failure ch")
      case None
      then have "s' = s\<lparr>ex_writer := W_pop, ex_main := M_spawn_processor\<rparr>"
        using step M_spawn_writer by simp
      with fc hc M_spawn_writer show ?thesis
        by (auto simp: control_ok_def handover_ctl_def all_fails_def)
    next
      case (Some e)
      with step M_spawn_writer show ?thesis by (intro spawn_failed [of e]) simp_all
    qed
  next
    case M_spawn_processor
    show ?thesis
    proof (cases "ch_spawn_failure ch")
      case None
      then have "s' = s\<lparr>ex_processor := P_pop, ex_main := M_spawn_reader\<rparr>"
        using step M_spawn_processor by simp
      with fc hc M_spawn_processor show ?thesis
        by (auto simp: control_ok_def handover_ctl_def all_fails_def)
    next
      case (Some e)
      with step M_spawn_processor show ?thesis by (intro spawn_failed [of e]) simp_all
    qed
  next
    case M_spawn_reader
    show ?thesis
    proof (cases "ch_spawn_failure ch")
      case None
      then have s': "s' = s\<lparr>ex_reader := R_acquire 0 0, ex_main := M_join\<rparr>"
        using step M_spawn_reader by simp
      with fc hc M_spawn_reader show ?thesis
        by (auto simp: control_ok_def handover_ctl_def all_fails_def)
    next
      case (Some e)
      with step M_spawn_reader show ?thesis by (intro spawn_failed [of e]) simp_all
    qed
  next
    case (M_failing f)
    obtain nxt t where f: "fail_step f s = (nxt, t)" by (cases "fail_step f s")
    have s': "s' = t\<lparr>ex_main := (case nxt of None \<Rightarrow> M_join | Some f' \<Rightarrow> M_failing f')\<rparr>"
      using step M_failing f by simp
    let ?G = "set (reader_fails (ex_reader s)) \<union> set (processor_fails (ex_processor s)) \<union>
        set (writer_fails (ex_writer s))"
    have F: "all_fails s = insert f ?G" by (auto simp: all_fails_def M_failing)
    note fs = fail_step_control [OF q f fc [unfolded F] hc] and sel = fail_step_sel [OF f]
    have "all_fails s' = (case nxt of None \<Rightarrow> ?G | Some f' \<Rightarrow> insert f' ?G)"
      by (cases nxt) (auto simp: all_fails_def s' sel)
    with fs sel M_failing show ?thesis
      by (cases nxt) (simp_all add: control_ok_def handover_ctl_def s')
  next
    case M_join
    with step have j: "workers_joined s" and s': "s' = finish_run (ev_metrics env) s"
      by (auto split: if_splits)
    note e = drained_at_join [OF c q j M_join]
    note fin = finish_run_pool [OF q conjunct1 [OF e] conjunct2 [OF e]]
    have "all_fails s' = all_fails s" by (simp add: all_fails_def s' fin M_join)
    with fc hc M_join j e show ?thesis
      by (simp add: control_ok_def handover_ctl_def s' fin workers_joined_eq)
  next
    case (M_done r)
    with step show ?thesis by simp
  qed
qed

section \<open>All reachable states\<close>

definition exec_inv :: "size_t list \<Rightarrow> ('r, 'o, 'u) exec_state \<Rightarrow> bool" where
  "exec_inv sz s \<longleftrightarrow> resources_ok sz s \<and> control_ok s"

lemma run_step_inv:
  assumes inv: "exec_inv sz s" and step: "run_step env t ch s = Some s'"
  shows "exec_inv sz s'"
proof -
  have ok: "resources_ok sz s" and c: "control_ok s" using inv by (simp_all add: exec_inv_def)
  have q: "ring_inv (ex_q1 s)" "ring_inv (ex_q2 s)" using ok by (simp_all add: resources_ok_def)
  show ?thesis
  proof (cases t)
    case T_main
    then have m: "main_step env ch (ex_main s) s = Some s'" using step by (simp add: run_step_def)
    show ?thesis
      using main_step_resources [OF ok m control_spawning [OF c] drained_at_join [OF c q]]
        main_step_control [OF ok c m] by (simp add: exec_inv_def)
  next
    case T_reader
    then have m: "reader_step env ch (ex_reader s) s = Some s'" using step by (simp add: run_step_def)
    show ?thesis
      using reader_step_resources [OF ok m] reader_step_control [OF ok c m] by (simp add: exec_inv_def)
  next
    case T_processor
    then have m: "processor_step env ch (ex_processor s) s = Some s'" using step by (simp add: run_step_def)
    show ?thesis
      using processor_step_resources [OF ok m] processor_step_control [OF ok c m] by (simp add: exec_inv_def)
  next
    case T_writer
    then have m: "writer_step env ch (ex_writer s) s = Some s'" using step by (simp add: run_step_def)
    show ?thesis
      using writer_step_resources [OF ok m] writer_step_control [OF ok c m] by (simp add: exec_inv_def)
  qed
qed

lemma reachable_inv: "exec_reachable env S s0 s \<Longrightarrow> exec_inv sz s0 \<Longrightarrow> exec_inv sz s"
  by (induction rule: exec_reachable.induct) (auto intro: run_step_inv)

section \<open>The initial state\<close>

lemma sizes_replicate:
  "\<forall>b \<in> set (buffers p). ab_size b = n \<Longrightarrow> sizes p = replicate (pool_capacity p) n"
  unfolding sizes_def pool_capacity_def by (metis map_replicate_const map_cong)

lemma run_pool_Inr:
  assumes "memalign_contract al" and "run_pool al px r m = (Inr p, m')"
  shows "config_ok (px_config px)" and "pool_inv p" and "pool_buffers_ok p" and "leased p = {}"
    and "sizes p = replicate (unat (max_inflight_buffers (px_config px))) (block_size (px_config px))"
proof -
  have "config_ok (px_config px) \<and> pool_inv p \<and> leased p = {} \<and>
    pool_capacity p = unat (max_inflight_buffers (px_config px)) \<and>
    (\<forall>b \<in> set (buffers p). buffer_wf b \<and> ab_size b = block_size (px_config px) \<and>
           ab_alignment b = buffer_alignment (px_config px))"
  proof (cases "rm_inflight_buffers (px_metrics px)")
    case None
    with assms(2) have "pool_new al (px_config px) m = (Inr p, m')" by (simp add: run_pool_def)
    from pool_new_Inr [OF assms(1) this] show ?thesis by blast
  next
    case (Some i)
    with assms(2) have "pool_new_observed al (px_config px) (snd (gauges r ! i)) m = (Inr p, m')"
      by (simp add: run_pool_def)
    from pool_new_observed_Inr [OF assms(1) this] show ?thesis by blast
  qed
  with sizes_replicate [of p "block_size (px_config px)"]
  show "config_ok (px_config px)" "pool_inv p" "pool_buffers_ok p" "leased p = {}"
    "sizes p = replicate (unat (max_inflight_buffers (px_config px))) (block_size (px_config px))"
    by (auto simp: pool_buffers_ok_def)
qed

lemma run_queues_Inr:
  assumes "run_queues px r = Inr (q1, q2)"
  shows "ring_inv q1 \<and> contents q1 = [] \<and> q_state q1 = Queue_open \<and> q_failure q1 = None \<and>
      spsc_capacity q1 = unat (queue_depth (px_config px))"
    and "ring_inv q2 \<and> contents q2 = [] \<and> q_state q2 = Queue_open \<and> q_failure q2 = None \<and>
      spsc_capacity q2 = unat (queue_depth (px_config px))"
proof -
  have z: "2 \<le> sizeof_work_slot" by (simp add: sizeof_work_slot_def)
  show "ring_inv q1 \<and> contents q1 = [] \<and> q_state q1 = Queue_open \<and> q_failure q1 = None \<and>
      spsc_capacity q1 = unat (queue_depth (px_config px))"
    "ring_inv q2 \<and> contents q2 = [] \<and> q_state q2 = Queue_open \<and> q_failure q2 = None \<and>
      spsc_capacity q2 = unat (queue_depth (px_config px))"
    using assms spsc_new_Inr [OF _ z] spsc_new_observed_Inr [OF _ z]
    by (auto simp: run_queues_def Let_def split: option.splits sum.splits)
qed

lemma run_start_Inr:
  assumes "run_start al ifd ofd pl r rin out px m = (Inr s, px', m')"
  obtains p q1 q2 where "run_pool al (px\<lparr>px_started := True\<rparr>) r m = (Inr p, m')"
    and "run_queues (px\<lparr>px_started := True\<rparr>) r = Inr (q1, q2)"
    and "s = \<lparr>ex_pool = p, ex_q1 = q1, ex_q2 = q2, ex_pipeline = pl, ex_registry = r,
             ex_in = rin, ex_out = out, ex_first_failure = None,
             ex_result = \<lparr>prr_blocks_written = 0, prr_bytes_written = 0\<rparr>,
             ex_reader = R_idle, ex_processor = P_idle, ex_writer = W_idle, ex_main = M_spawn_writer\<rparr>"
    and "0 \<le> ifd" and "0 \<le> ofd" and "ifd \<noteq> ofd" and "stage_count pl \<noteq> 0" and "\<not> px_started px"
  using assms by (auto simp: run_start_def Let_def split: if_splits sum.splits prod.splits)

lemma run_start_inv:
  assumes "memalign_contract al" and "run_start al ifd ofd pl r rin out px m = (Inr s, px', m')"
  shows "exec_inv (replicate (unat (max_inflight_buffers (px_config px))) (block_size (px_config px))) s"
    and "config_ok (px_config px)"
proof -
  from run_start_Inr [OF assms(2)] obtain p q1 q2
    where pool: "run_pool al (px\<lparr>px_started := True\<rparr>) r m = (Inr p, m')"
    and queues: "run_queues (px\<lparr>px_started := True\<rparr>) r = Inr (q1, q2)"
    and s: "s = \<lparr>ex_pool = p, ex_q1 = q1, ex_q2 = q2, ex_pipeline = pl, ex_registry = r,
             ex_in = rin, ex_out = out, ex_first_failure = None,
             ex_result = \<lparr>prr_blocks_written = 0, prr_bytes_written = 0\<rparr>,
             ex_reader = R_idle, ex_processor = P_idle, ex_writer = W_idle, ex_main = M_spawn_writer\<rparr>"
    by blast
  note p = run_pool_Inr [OF assms(1) pool, simplified] and q = run_queues_Inr [OF queues]
  show "config_ok (px_config px)" by (rule p)
  show "exec_inv (replicate (unat (max_inflight_buffers (px_config px))) (block_size (px_config px))) s"
    using p q
    by (simp add: exec_inv_def resource_simps leases_ok_def control_ok_def failure_ctl_def
        handover_ctl_def all_fails_def s)
qed

section \<open>Freedom from deadlock\<close>

text \<open>Reads and writes return (they may fail, but they do not hang).\<close>

definition calls_return :: "('r, 't, 'o, 'u) exec_env \<Rightarrow> bool" where
  "calls_return env \<longleftrightarrow>
     (\<forall>n off w. complete_read (ev_backend env) (ev_input_fd env) n off w \<noteq> None) \<and>
     (\<forall>bytes off w. write_all_at (ev_sys env) (ev_output_fd env) bytes off w \<noteq> None)"

lemma reader_stuck:
  assumes "ring_inv (ex_q1 s)" and "calls_return env" and "reader_step env ch (ex_reader s) s = None"
  shows "ex_reader s \<in> {R_idle, R_done} \<or>
    (\<exists>i off. ex_reader s = R_acquire i off) \<and> pool_acquire (ex_pool s) = None \<or>
    (\<exists>i off item. ex_reader s = R_push i off item) \<and> q_state (ex_q1 s) = Queue_open \<and>
      contents (ex_q1 s) \<noteq> []"
proof (cases "ex_reader s")
  case (R_push i off item)
  obtain r q1 where p: "spsc_push item (ex_q1 s) = (r, q1)" by (cases "spsc_push item (ex_q1 s)")
  from assms(3) R_push p have "r = Push_waits" by (cases r) simp_all
  with ring.push_ok [OF assms(1) p] have "q_state (ex_q1 s) = Queue_open"
    "length (contents (ex_q1 s)) = spsc_capacity (ex_q1 s)" by simp_all
  moreover have "0 < spsc_capacity (ex_q1 s)" using assms(1) by (simp add: ring_inv_def)
  ultimately have "contents (ex_q1 s) \<noteq> []" "q_state (ex_q1 s) = Queue_open"
    by (metis length_greater_0_conv)+
  with R_push show ?thesis by simp
next
  case (R_read i off h)
  then have "complete_read (ev_backend env) (ev_input_fd env) (handle_size h (ex_pool s)) off (ex_in s) = None"
    using assms(3) by (auto simp: Let_def split: option.splits sum.splits prod.splits)
  then show ?thesis using assms(2) by (simp add: calls_return_def del: not_None_eq)
qed (use assms(3) in \<open>auto split: option.splits prod.splits\<close>)

lemma processor_stuck:
  assumes "ring_inv (ex_q1 s)" and "ring_inv (ex_q2 s)"
    and "processor_step env ch (ex_processor s) s = None"
  shows "ex_processor s \<in> {P_idle, P_done} \<or>
    ex_processor s = P_pop \<and> q_state (ex_q1 s) = Queue_open \<and> contents (ex_q1 s) = [] \<or>
    (\<exists>item. ex_processor s = P_push item) \<and> q_state (ex_q2 s) = Queue_open \<and> contents (ex_q2 s) \<noteq> []"
proof (cases "ex_processor s")
  case P_pop
  obtain r q1 where p: "spsc_pop (ex_q1 s) = (r, q1)" by (cases "spsc_pop (ex_q1 s)")
  from assms(3) P_pop p have "r = Pop_waits" by (cases r) simp_all
  with ring.pop_ok [OF assms(1) p] P_pop show ?thesis by simp
next
  case (P_push item)
  obtain r q2 where p: "spsc_push item (ex_q2 s) = (r, q2)" by (cases "spsc_push item (ex_q2 s)")
  from assms(3) P_push p have "r = Push_waits" by (cases r) simp_all
  with ring.push_ok [OF assms(2) p] have "q_state (ex_q2 s) = Queue_open"
    "length (contents (ex_q2 s)) = spsc_capacity (ex_q2 s)" by simp_all
  moreover have "0 < spsc_capacity (ex_q2 s)" using assms(2) by (simp add: ring_inv_def)
  ultimately have "contents (ex_q2 s) \<noteq> []" "q_state (ex_q2 s) = Queue_open"
    by (metis length_greater_0_conv)+
  with P_push show ?thesis by simp
qed (use assms(3) in \<open>auto simp: Let_def split: option.splits prod.splits\<close>)

lemma writer_stuck:
  assumes "ring_inv (ex_q2 s)" and "calls_return env" and "writer_step env ch (ex_writer s) s = None"
  shows "ex_writer s \<in> {W_idle, W_done} \<or>
    ex_writer s = W_pop \<and> q_state (ex_q2 s) = Queue_open \<and> contents (ex_q2 s) = []"
proof (cases "ex_writer s")
  case W_pop
  obtain r q2 where p: "spsc_pop (ex_q2 s) = (r, q2)" by (cases "spsc_pop (ex_q2 s)")
  from assms(3) W_pop p have "r = Pop_waits" by (cases r) simp_all
  with ring.pop_ok [OF assms(1) p] W_pop show ?thesis by simp
next
  case (W_write item)
  then have "write_all_at (ev_sys env) (ev_output_fd env) (valid_data item (ex_pool s))
      (wi_file_offset item) (ex_out s) = None"
    using assms(3) by (auto simp: Let_def split: option.splits)
  then show ?thesis using assms(2) by (simp add: calls_return_def del: not_None_eq)
qed (use assms(3) in \<open>auto split: option.splits prod.splits\<close>)

lemma main_stuck:
  assumes "main_step env ch (ex_main s) s = None"
  shows "(\<exists>x. ex_main s = M_done x) \<or>
    ex_main s = M_join \<and> \<not> joined (ex_reader s) (ex_processor s) (ex_writer s)"
  using assms
  by (cases "ex_main s") (auto simp: workers_joined_eq split: option.splits prod.splits if_splits)

lemma no_deadlock:
  assumes inv: "exec_inv sz s" and sz: "sz \<noteq> []" and ret: "calls_return env"
    and stuck: "\<forall>t. run_step env t ch s = None"
  shows "\<exists>x. ex_main s = M_done x"
proof (rule ccontr)
  assume nd: "\<nexists>x. ex_main s = M_done x"
  have ok: "resources_ok sz s" and c: "control_ok s" using inv by (simp_all add: exec_inv_def)
  have q: "ring_inv (ex_q1 s)" "ring_inv (ex_q2 s)" and leases: "leases_ok (ex_pool s) (held s)"
    and sizes: "sizes (ex_pool s) = sz"
    using ok by (simp_all add: resources_ok_def)
  note fc = control_okD(1) [OF c] and hc = control_okD(2) [OF c]
  have R: "reader_step env ch (ex_reader s) s = None" and P: "processor_step env ch (ex_processor s) s = None"
    and W: "writer_step env ch (ex_writer s) s = None" and M: "main_step env ch (ex_main s) s = None"
    using stuck [rule_format, of T_reader] stuck [rule_format, of T_processor]
      stuck [rule_format, of T_writer] stuck [rule_format, of T_main]
    by (simp_all add: run_step_def)
  note r = reader_stuck [OF q(1) ret R] and p = processor_stuck [OF q P] and w = writer_stuck [OF q(2) ret W]
  from main_stuck [OF M] nd have m: "ex_main s = M_join"
    and nj: "\<not> joined (ex_reader s) (ex_processor s) (ex_writer s)" by auto
  have nofail: "all_fails s = {}" using r p w m by (auto simp: all_fails_def)
  with fc have ff: "ex_first_failure s \<noteq> None \<Longrightarrow> q_state (ex_q2 s) = Queue_failed"
    by (auto simp: failure_ctl_def)
  have both: "q_state (ex_q2 s) = Queue_failed \<Longrightarrow> q_state (ex_q1 s) = Queue_failed"
    using fc by (simp add: failure_ctl_def)
  have empty: "q_state (ex_q1 s) = Queue_failed \<Longrightarrow> contents (ex_q1 s) = []"
    "q_state (ex_q2 s) = Queue_failed \<Longrightarrow> contents (ex_q2 s) = []"
    using q by (simp_all add: ring_inv_def contents_empty_iff)
  have holds: "held s \<noteq> {#}" if "pool_acquire (ex_pool s) = None"
    using leases_ok_waits [OF leases] that sz sizes by auto
  show False
  proof (cases "ex_first_failure s")
    case (Some e)
    then have failed: "q_state (ex_q2 s) = Queue_failed" "q_state (ex_q1 s) = Queue_failed"
      using ff both by auto
    with r p w have fin: "ex_processor s \<in> {P_idle, P_done}" "ex_writer s \<in> {W_idle, W_done}"
      and r': "ex_reader s \<in> {R_idle, R_done} \<or>
        (\<exists>i off. ex_reader s = R_acquire i off) \<and> pool_acquire (ex_pool s) = None" by auto
    have "held s = {#}" if "ex_reader s = R_acquire i off" for i off
      using that fin empty failed by (auto simp: held_def downstream_items_def)
    with r' holds have "ex_reader s \<in> {R_idle, R_done}" by auto
    with fin nj show False by (simp add: joined_def)
  next
    case None
    with hc m have idle: "ex_reader s \<noteq> R_idle" "ex_processor s \<noteq> P_idle" "ex_writer s \<noteq> W_idle"
      by (simp_all add: handover_ctl_def)
    have nf: "q_state (ex_q1 s) \<noteq> Queue_failed"
      using fc None by (auto simp: failure_ctl_def)
    show False
    proof (cases "ex_writer s = W_done")
      case True
      with hc None have q2: "q_state (ex_q2 s) = Queue_closed" "contents (ex_q2 s) = []"
        by (simp_all add: handover_ctl_def)
      with hc have pd: "ex_processor s = P_done" by (simp add: handover_ctl_def)
      with hc None have q1: "q_state (ex_q1 s) = Queue_closed" by (simp add: handover_ctl_def)
      with hc have "reader_left (ex_reader s)" by (simp add: handover_ctl_def)
      with r have "ex_reader s = R_done" by auto
      with pd True nj show False by (simp add: joined_def)
    next
      case False
      with w idle have wp: "ex_writer s = W_pop" and q2: "q_state (ex_q2 s) = Queue_open" "contents (ex_q2 s) = []"
        by auto
      with hc have "ex_processor s \<noteq> P_done" by (auto simp: handover_ctl_def)
      with p idle q2 have pp: "ex_processor s = P_pop" and q1: "q_state (ex_q1 s) = Queue_open"
        "contents (ex_q1 s) = []" by auto
      with hc have "\<not> reader_left (ex_reader s)" by (auto simp: handover_ctl_def)
      with r idle q1 obtain i off where ra: "ex_reader s = R_acquire i off"
        and none: "pool_acquire (ex_pool s) = None" by auto
      have "held s = {#}" using ra pp wp q1 q2 by (simp add: held_def downstream_items_def)
      with holds [OF none] show False by simp
    qed
  qed
qed

end
