(* ===== verification/Executor_Data.thy ===== *)
theory Executor_Data
  imports Executor_Control
begin

text \<open>
  What the executor computes. Each of its three stages is sequential and owns its part of the
  world, so a run that has not failed is at every moment a prefix of three sequential programs:
  reading blocks, processing the blocks read, writing the blocks processed. The invariant relates
  every item in flight to its block; at the end it gives the result of the sequential program
  \<open>sequential_run\<close>, and for a failed run the origin of the reported exception.
\<close>

section \<open>The sequential programs\<close>

text \<open>A block: its index, its file offset and its bytes.\<close>

type_synonym block = "u64 \<times> u64 \<times> byte list"

record ('r, 't, 'o, 'u) run_input =
  ri_env :: "('r, 't, 'o, 'u) exec_env"
  ri_size :: size_t
  ri_in :: 'r
  ri_out :: 'o
  ri_stages :: "'u stage list"

text \<open>One iteration of reading: end of file, a block with the next index and offset, or an exception.\<close>

datatype 'r block_read =
    Read_eof 'r
  | Read_block u64 u64 "byte list" 'r
  | Read_raises exn 'r

definition read_block ::
  "('r, 't, 'o, 'u) exec_env \<Rightarrow> size_t \<Rightarrow> u64 \<Rightarrow> u64 \<Rightarrow> 'r \<Rightarrow> 'r block_read option" where
  "read_block env n i off w =
     (case complete_read (ev_backend env) (ev_input_fd env) n off w of
        None \<Rightarrow> None
      | Some (Inl e, w') \<Rightarrow> Some (Read_raises e w')
      | Some (Inr (k, bytes), w') \<Rightarrow>
          if k = 0 then Some (Read_eof w')
          else
            (case reader_advance i off k of
               Inl e \<Rightarrow> Some (Read_raises e w')
             | Inr (i', off') \<Rightarrow> Some (Read_block i' off' bytes w')))"

fun read_blocks ::
  "('r, 't, 'o, 'u) run_input \<Rightarrow> nat \<Rightarrow> (block list \<times> u64 \<times> u64 \<times> 'r) option" where
  "read_blocks ri 0 = Some ([], 0, 0, ri_in ri)"
| "read_blocks ri (Suc k) =
     (case read_blocks ri k of
        None \<Rightarrow> None
      | Some (blocks, i, off, w) \<Rightarrow>
          (case read_block (ri_env ri) (ri_size ri) i off w of
             Some (Read_block i' off' bytes w') \<Rightarrow> Some (blocks @ [(i, off, bytes)], i', off', w')
           | _ \<Rightarrow> None))"

fun process_blocks ::
  "'u user_stages \<Rightarrow> 'u stage list \<Rightarrow> byte list list \<Rightarrow> (byte list list \<times> 'u stage list) option" where
  "process_blocks us ss [] = Some ([], ss)"
| "process_blocks us ss (c # cs) =
     (case run_stages us ss c of
        (Some e, ss', out) \<Rightarrow> None
      | (None, ss', out) \<Rightarrow>
          (case process_blocks us ss' cs of
             None \<Rightarrow> None
           | Some (outs, ss'') \<Rightarrow> Some (out # outs, ss'')))"

definition write_block ::
  "('r, 't, 'o, 'u) exec_env \<Rightarrow> u64 \<Rightarrow> byte list \<Rightarrow> 'o \<times> pipeline_run_result \<Rightarrow>
     (unit res \<times> 'o \<times> pipeline_run_result) option" where
  "write_block env off bytes x =
     (case x of (w, res) \<Rightarrow>
        (case write_all_at (ev_sys env) (ev_output_fd env) bytes off w of
           None \<Rightarrow> None
         | Some (result, w') \<Rightarrow>
             Some (if wa_error_number result \<noteq> 0 then
                     (Inl (System_error (wa_error_number result) ''pipeline writer pwrite''), w', res)
                   else if bytes_written result \<noteq> length bytes then
                     (Inl (Runtime_error
                        ''write_all_at returned success without writing the full block''), w', res)
                   else
                     (case account_written res (of_nat (length bytes)) of
                        (r, res') \<Rightarrow> (r, w', res')))))"

fun write_blocks ::
  "('r, 't, 'o, 'u) exec_env \<Rightarrow> block list \<Rightarrow> 'o \<times> pipeline_run_result \<Rightarrow>
     ('o \<times> pipeline_run_result) option" where
  "write_blocks env [] x = Some x"
| "write_blocks env ((i, off, bytes) # blocks) x =
     (case write_block env off bytes x of
        Some (Inr _, y) \<Rightarrow> write_blocks env blocks y
      | _ \<Rightarrow> None)"

definition zero_result :: pipeline_run_result where
  "zero_result = \<lparr>prr_blocks_written = 0, prr_bytes_written = 0\<rparr>"

text \<open>The sequential program: read a block, process it, write it, until the end or an exception.\<close>

fun sequential_run ::
  "('r, 't, 'o, 'u) exec_env \<Rightarrow> size_t \<Rightarrow> nat \<Rightarrow> u64 \<Rightarrow> u64 \<Rightarrow> 'r \<Rightarrow> 'u stage list \<Rightarrow>
   'o \<times> pipeline_run_result \<Rightarrow>
     (pipeline_run_result res \<times> 'r \<times> 'u stage list \<times> 'o) option" where
  "sequential_run env n 0 i off w ss x = None"
| "sequential_run env n (Suc fuel) i off w ss x =
     (case read_block env n i off w of
        None \<Rightarrow> None
      | Some (Read_eof w') \<Rightarrow> Some (Inr (snd x), w', ss, fst x)
      | Some (Read_raises e w') \<Rightarrow> Some (Inl e, w', ss, fst x)
      | Some (Read_block i' off' bytes w') \<Rightarrow>
          (case run_stages (ev_users env) ss bytes of
             (Some e, ss', out) \<Rightarrow> Some (Inl e, w', ss', fst x)
           | (None, ss', out) \<Rightarrow>
               (case write_block env off out x of
                  None \<Rightarrow> None
                | Some (Inl e, y) \<Rightarrow> Some (Inl e, w', ss', fst y)
                | Some (Inr _, y) \<Rightarrow> sequential_run env n fuel i' off' w' ss' y)))"

lemma process_blocks_snoc:
  "process_blocks us ss (cs @ [c]) =
     (case process_blocks us ss cs of
        None \<Rightarrow> None
      | Some (outs, ss') \<Rightarrow>
          (case run_stages us ss' c of
             (Some e, ss'', out) \<Rightarrow> None
           | (None, ss'', out) \<Rightarrow> Some (outs @ [out], ss'')))"
  by (induction cs arbitrary: ss) (auto split: option.splits prod.splits)

lemma process_blocks_length:
  "process_blocks us ss cs = Some (outs, ss') \<Longrightarrow> length outs = length cs"
  by (induction cs arbitrary: ss outs) (auto split: option.splits prod.splits)

lemma write_blocks_snoc:
  "write_blocks env (bs @ [(i, off, bytes)]) x =
     (case write_blocks env bs x of
        None \<Rightarrow> None
      | Some y \<Rightarrow> (case write_block env off bytes y of Some (Inr _, z) \<Rightarrow> Some z | _ \<Rightarrow> None))"
  by (induction bs arbitrary: x) (auto split: option.splits sum.splits prod.splits)

section \<open>Blocks in flight\<close>

definition block_data :: "block \<Rightarrow> byte list" where
  "block_data b = snd (snd b)"

definition outblocks :: "block list \<Rightarrow> byte list list \<Rightarrow> block list" where
  "outblocks rs outs = map2 (\<lambda>b out. (fst b, fst (snd b), out)) rs outs"

definition item_is :: "buffer_pool \<Rightarrow> block_work_item \<Rightarrow> block \<Rightarrow> bool" where
  "item_is p item b \<longleftrightarrow>
     wi_block_index item = fst b \<and> wi_file_offset item = fst (snd b) \<and>
     unat (wi_valid_bytes item) = length (block_data b) \<and> valid_data item p = block_data b"

lemma length_outblocks [simp]: "length (outblocks rs outs) = min (length rs) (length outs)"
  by (simp add: outblocks_def)

lemma outblocks_read: "length outs \<le> length rs \<Longrightarrow> outblocks (rs @ [b]) outs = outblocks rs outs"
  by (auto simp: outblocks_def zip_append1)

lemma nth_outblocks:
  "k < length rs \<Longrightarrow> k < length outs \<Longrightarrow>
   outblocks rs outs ! k = (fst (rs ! k), fst (snd (rs ! k)), outs ! k)"
  by (simp add: outblocks_def)

lemma outblocks_snoc:
  assumes "length outs < length rs"
  shows "outblocks rs (outs @ [out]) =
     outblocks rs outs @ [(fst (rs ! length outs), fst (snd (rs ! length outs)), out)]"
proof (rule nth_equalityI)
  fix k
  assume "k < length (outblocks rs (outs @ [out]))"
  then have "k < length outs \<or> k = length outs"
    by auto
  then show "outblocks rs (outs @ [out]) ! k =
      (outblocks rs outs @ [(fst (rs ! length outs), fst (snd (rs ! length outs)), out)]) ! k"
    using assms by (auto simp: nth_outblocks nth_append)
qed (use assms in simp)

lemma item_is_cong: "buffers p' = buffers p \<Longrightarrow> item_is p' item b = item_is p item b"
  by (simp add: item_is_def valid_data_def handle_bytes_def buffer_at_def)

lemma item_is_store_other:
  "bh_index (wi_buffer item) \<noteq> bh_index h \<Longrightarrow> item_is (handle_store h bs p) item b = item_is p item b"
  by (simp add: item_is_def valid_data_def handle_bytes_store_other)

lemma items_are_store_other:
  "(\<forall>item \<in> set items. bh_index (wi_buffer item) \<noteq> bh_index h) \<Longrightarrow>
   list_all2 (item_is (handle_store h bs p)) items bks = list_all2 (item_is p) items bks"
  by (intro list.rel_cong refl) (auto simp: item_is_store_other)

lemma buffers_handle_destroy [simp]: "buffers (handle_destroy h p) = buffers p"
  by (simp add: handle_destroy_def handle_release_def)

lemma buffers_work_item_destroy [simp]: "buffers (work_item_destroy item p) = buffers p"
  by (simp add: work_item_destroy_def)

lemma buffers_destroy_items [simp]: "buffers (destroy_items items p) = buffers p"
  unfolding destroy_items_def by (induction items arbitrary: p) simp_all

lemma buffers_acquire: "pool_acquire p = Some (h, p') \<Longrightarrow> buffers p' = buffers p"
  by (auto simp: pool_acquire_def take_available_locked_def Let_def split: if_splits)

lemma items_are_cong:
  assumes "buffers p' = buffers p"
  shows "list_all2 (item_is p') items bks = list_all2 (item_is p) items bks"
  by (intro list.rel_cong refl) (rule item_is_cong [OF assms])

lemma process_entries_stages:
  "process_entries us elapsed k entries r block = (err, entries', r', out) \<Longrightarrow>
   run_stages us (map se_stage entries) block = (err, map se_stage entries', out)"
proof (induction entries arbitrary: k r block entries')
  case (Cons entry rest)
  then show ?case
    by (force simp: Let_def split: option.splits prod.splits)
qed simp

lemma pipeline_process_stages:
  "pipeline_process us elapsed pl r block = (err, pl', r', out) \<Longrightarrow>
   run_stages us (map se_stage (pl_stages pl)) block = (err, map se_stage (pl_stages pl'), out)"
  by (auto simp: pipeline_process_def dest!: process_entries_stages split: prod.splits)

section \<open>Where the exceptions come from\<close>

text \<open>The blocks read so far, the processed blocks and the written ones, as prefixes of the programs.\<close>

definition blocks_read ::
  "('r, 't, 'o, 'u) run_input \<Rightarrow> block list \<Rightarrow> u64 \<Rightarrow> u64 \<Rightarrow> 'r \<Rightarrow> bool" where
  "blocks_read ri rs i off w \<longleftrightarrow> read_blocks ri (length rs) = Some (rs, i, off, w)"

definition blocks_processed ::
  "('r, 't, 'o, 'u) run_input \<Rightarrow> block list \<Rightarrow> byte list list \<Rightarrow> 'u stage list \<Rightarrow> bool" where
  "blocks_processed ri rs outs ss \<longleftrightarrow>
     length outs \<le> length rs \<and>
     process_blocks (ev_users (ri_env ri)) (ri_stages ri)
       (map block_data (take (length outs) rs)) = Some (outs, ss)"

definition blocks_written ::
  "('r, 't, 'o, 'u) run_input \<Rightarrow> block list \<Rightarrow> 'o \<times> pipeline_run_result \<Rightarrow> bool" where
  "blocks_written ri bs x \<longleftrightarrow> write_blocks (ri_env ri) bs (ri_out ri, zero_result) = Some x"

definition read_raises :: "('r, 't, 'o, 'u) run_input \<Rightarrow> exn \<Rightarrow> bool" where
  "read_raises ri e \<longleftrightarrow>
     (\<exists>rs i off w w'. blocks_read ri rs i off w \<and>
        read_block (ri_env ri) (ri_size ri) i off w = Some (Read_raises e w'))"

definition process_raises :: "('r, 't, 'o, 'u) run_input \<Rightarrow> exn \<Rightarrow> bool" where
  "process_raises ri e \<longleftrightarrow>
     (\<exists>rs i off w outs ss ss' out. blocks_read ri rs i off w \<and> blocks_processed ri rs outs ss \<and>
        length outs < length rs \<and>
        run_stages (ev_users (ri_env ri)) ss (block_data (rs ! length outs)) = (Some e, ss', out))"

definition write_raises :: "('r, 't, 'o, 'u) run_input \<Rightarrow> exn \<Rightarrow> bool" where
  "write_raises ri e \<longleftrightarrow>
     (\<exists>rs i off w outs ss a x x'. blocks_read ri rs i off w \<and> blocks_processed ri rs outs ss \<and>
        a < length outs \<and> blocks_written ri (take a (outblocks rs outs)) x \<and>
        write_block (ri_env ri) (fst (snd (outblocks rs outs ! a))) (block_data (outblocks rs outs ! a)) x
          = Some (Inl e, x'))"

text \<open>An exception that the sequential program's reads, stages or writes raise for this input.\<close>

definition raised_by_stage :: "('r, 't, 'o, 'u) run_input \<Rightarrow> exn \<Rightarrow> bool" where
  "raised_by_stage ri e \<longleftrightarrow> read_raises ri e \<or> process_raises ri e \<or> write_raises ri e"

lemma blocks_read_snoc:
  "blocks_read ri rs i off w \<Longrightarrow>
   read_block (ri_env ri) (ri_size ri) i off w = Some (Read_block i' off' bytes w') \<Longrightarrow>
   blocks_read ri (rs @ [(i, off, bytes)]) i' off' w'"
  by (simp add: blocks_read_def)

lemma blocks_processed_read: "blocks_processed ri rs outs ss \<Longrightarrow> blocks_processed ri (rs @ [b]) outs ss"
  by (simp add: blocks_processed_def)

lemma blocks_processed_snoc:
  "blocks_processed ri rs outs ss \<Longrightarrow> length outs < length rs \<Longrightarrow>
   run_stages (ev_users (ri_env ri)) ss (block_data (rs ! length outs)) = (None, ss', out) \<Longrightarrow>
   blocks_processed ri rs (outs @ [out]) ss'"
  by (simp add: blocks_processed_def take_Suc_conv_app_nth process_blocks_snoc)

lemma blocks_written_snoc:
  "blocks_written ri bs x \<Longrightarrow>
   write_block (ri_env ri) (fst (snd b)) (block_data b) x = Some (Inr u, y) \<Longrightarrow>
   blocks_written ri (bs @ [b]) y"
  by (cases b) (simp add: blocks_written_def write_blocks_snoc block_data_def)

section \<open>The invariant\<close>

fun reader_pending :: "reader_pc \<Rightarrow> block_work_item list" where
  "reader_pending (R_push _ _ item) = [item]"
| "reader_pending _ = []"

fun processor_in :: "processor_pc \<Rightarrow> block_work_item list" where
  "processor_in (P_process item) = [item]"
| "processor_in _ = []"

fun processor_out :: "processor_pc \<Rightarrow> block_work_item list" where
  "processor_out (P_push item) = [item]"
| "processor_out _ = []"

fun writer_in :: "writer_pc \<Rightarrow> block_work_item list" where
  "writer_in (W_write item) = [item]"
| "writer_in _ = []"

definition reads_ended :: "('r, 't, 'o, 'u) run_input \<Rightarrow> 'r \<Rightarrow> block list \<Rightarrow> bool" where
  "reads_ended ri w rs \<longleftrightarrow>
     (\<exists>i off w0. blocks_read ri rs i off w0 \<and>
        read_block (ri_env ri) (ri_size ri) i off w0 = Some (Read_eof w))"

fun reader_data :: "('r, 't, 'o, 'u) run_input \<Rightarrow> 'r \<Rightarrow> block list \<Rightarrow> reader_pc \<Rightarrow> bool" where
  "reader_data ri w rs R_idle = (rs = [] \<and> w = ri_in ri)"
| "reader_data ri w rs (R_acquire i off) = blocks_read ri rs i off w"
| "reader_data ri w rs (R_read i off h) = blocks_read ri rs i off w"
| "reader_data ri w rs (R_push i off item) = blocks_read ri rs i off w"
| "reader_data ri w rs (R_close h) = reads_ended ri w rs"
| "reader_data ri w rs (R_leave h) = reads_ended ri w rs"
| "reader_data ri w rs R_done = reads_ended ri w rs"
| "reader_data ri w rs (R_unwind h e) = read_raises ri e"
| "reader_data ri w rs (R_failing f) = (\<forall>e. f = Fail_record e \<longrightarrow> read_raises ri e)"

fun processor_live :: "processor_pc \<Rightarrow> bool" where
  "processor_live (P_unwind _ _) = False"
| "processor_live (P_failing _) = False"
| "processor_live _ = True"

fun writer_live :: "writer_pc \<Rightarrow> bool" where
  "writer_live (W_unwind _ _) = False"
| "writer_live (W_failing _) = False"
| "writer_live _ = True"

fun processor_raised :: "processor_pc \<Rightarrow> exn set" where
  "processor_raised (P_unwind _ e) = {e}"
| "processor_raised (P_failing (Fail_record e)) = {e}"
| "processor_raised _ = {}"

fun writer_raised :: "writer_pc \<Rightarrow> exn set" where
  "writer_raised (W_unwind _ e) = {e}"
| "writer_raised (W_failing (Fail_record e)) = {e}"
| "writer_raised _ = {}"

text \<open>
  \<open>rs\<close> are the blocks read, \<open>outs\<close> the results of the first of them that are processed, \<open>a\<close> the
  number of blocks written. A processor or writer on its way out only answers for its exception.
\<close>

definition processor_data ::
  "('r, 't, 'o, 'u) run_input \<Rightarrow> ('r, 'o, 'u) exec_state \<Rightarrow> block list \<Rightarrow> byte list list \<Rightarrow> bool" where
  "processor_data ri s rs outs \<longleftrightarrow>
     (\<forall>e \<in> processor_raised (ex_processor s). process_raises ri e) \<and>
     (processor_live (ex_processor s) \<longrightarrow>
        blocks_processed ri rs outs (map se_stage (pl_stages (ex_pipeline s))) \<and>
        list_all2 (item_is (ex_pool s))
          (processor_in (ex_processor s) @ contents (ex_q1 s) @ reader_pending (ex_reader s))
          (drop (length outs) rs))"

definition writer_data ::
  "('r, 't, 'o, 'u) run_input \<Rightarrow> ('r, 'o, 'u) exec_state \<Rightarrow> block list \<Rightarrow> byte list list \<Rightarrow> nat \<Rightarrow> bool" where
  "writer_data ri s rs outs a \<longleftrightarrow>
     (\<forall>e \<in> writer_raised (ex_writer s). write_raises ri e) \<and>
     (writer_live (ex_writer s) \<longrightarrow>
        blocks_written ri (take a (outblocks rs outs)) (ex_out s, ex_result s) \<and>
        list_all2 (item_is (ex_pool s))
          (writer_in (ex_writer s) @ contents (ex_q2 s) @ processor_out (ex_processor s))
          (drop a (outblocks rs outs)))"

definition data ::
  "('r, 't, 'o, 'u) run_input \<Rightarrow> ('r, 'o, 'u) exec_state \<Rightarrow> block list \<Rightarrow> byte list list \<Rightarrow> nat \<Rightarrow> bool" where
  "data ri s rs outs a \<longleftrightarrow>
     (\<exists>i off w. blocks_read ri rs i off w) \<and> (\<exists>ss. blocks_processed ri rs outs ss) \<and>
     a \<le> length outs \<and> reader_data ri (ex_in s) rs (ex_reader s) \<and>
     processor_data ri s rs outs \<and> writer_data ri s rs outs a"

definition honest_reads :: "('r, 't, 'o, 'u) exec_env \<Rightarrow> size_t \<Rightarrow> bool" where
  "honest_reads env n \<longleftrightarrow>
     (\<forall>off w k bytes w'. complete_read (ev_backend env) (ev_input_fd env) n off w = Some (Inr (k, bytes), w') \<longrightarrow>
        unat k = length bytes \<and> length bytes \<le> unat n)"

section \<open>Buffers of other holders\<close>

lemma held_other:
  assumes ok: "resources_ok sz s" and h: "held s = add_mset h M" and i: "x \<in># M"
  shows "bh_index x \<noteq> bh_index h"
proof
  assume eq: "bh_index x = bh_index h"
  have "leases_ok (ex_pool s) (add_mset h M)" using ok h by (simp add: resources_ok_def)
  then have "count (image_mset bh_index (add_mset h M)) (bh_index h) \<le> 1" by (rule leases_ok_distinct)
  moreover have "bh_index h \<in># image_mset bh_index M" using i eq by (metis image_eqI set_image_mset)
  ultimately show False by (simp add: count_eq_zero_iff)
qed

lemma no_queue_failure:
  assumes "control_ok s" and "ex_first_failure s = None"
  shows "q_state (ex_q1 s) \<noteq> Queue_failed" and "q_state (ex_q2 s) \<noteq> Queue_failed"
  using assms by (auto simp: control_ok_def failure_ctl_def)

section \<open>Preservation: the reader\<close>

lemma read_stored_data:
  assumes ok: "resources_ok sz s" and sz: "sz = replicate N (ri_size ri)"
    and pc: "ex_reader s = R_read i off h"
    and len: "unat k = length bytes" "length bytes \<le> unat (ri_size ri)"
  shows "handle_size h (ex_pool s) = ri_size ri"
    and "item_is (handle_store h bytes (ex_pool s))
           \<lparr>wi_block_index = i, wi_file_offset = off, wi_valid_bytes = k, wi_buffer = h\<rparr> (i, off, bytes)"
    and "item \<in># downstream_items s \<Longrightarrow>
      item_is (handle_store h bytes (ex_pool s)) item b = item_is (ex_pool s) item b"
proof -
  have h: "handle_valid h" "bh_index h < length sz" and sizes: "sizes (ex_pool s) = sz"
    and bufs: "pool_buffers_ok (ex_pool s)"
    using ok pc by (auto simp: resources_ok_def handle_fits_def leases_ok_def)
  show size: "handle_size h (ex_pool s) = ri_size ri"
    using sizes_handle [of h "ex_pool s"] h sizes sz by simp
  have cap: "bh_index h < pool_capacity (ex_pool s)" using h sizes by (simp add: sizes_capacity)
  have "length bytes \<le> length (handle_bytes h (ex_pool s))"
    using handle_bytes_length [OF bufs cap] size len(2) by simp
  then show "item_is (handle_store h bytes (ex_pool s))
           \<lparr>wi_block_index = i, wi_file_offset = off, wi_valid_bytes = k, wi_buffer = h\<rparr> (i, off, bytes)"
    using len h(1) cap
    by (simp add: item_is_def block_data_def valid_data_def handle_bytes_store_same take_store_prefix)
  assume i: "item \<in># downstream_items s"
  have "held s = add_mset h (image_mset wi_buffer (downstream_items s))" using pc by (simp add: held_def)
  from held_other [OF ok this, of "wi_buffer item"] i
  show "item_is (handle_store h bytes (ex_pool s)) item b = item_is (ex_pool s) item b"
    by (simp add: item_is_store_other)
qed

lemma reader_step_data:
  assumes ok: "resources_ok sz s" and c: "control_ok s" and sz: "sz = replicate N (ri_size ri)"
    and honest: "honest_reads (ri_env ri) (ri_size ri)" and ff: "ex_first_failure s = None"
    and d: "data ri s rs outs a" and step: "reader_step (ri_env ri) ch (ex_reader s) s = Some s'"
    and nf: "reader_fails (ex_reader s) = []"
  shows "\<exists>rs'. data ri s' rs' outs a"
proof (cases "ex_reader s")
  case R_idle
  with step show ?thesis by simp
next
  case R_done
  with step show ?thesis by simp
next
  case (R_failing f)
  with nf show ?thesis by simp
next
  case (R_acquire i off)
  with step obtain h p where acq: "pool_acquire (ex_pool s) = Some (h, p)"
    and s': "s' = s\<lparr>ex_pool := p, ex_reader := R_read i off h\<rparr>"
    by (auto split: option.splits)
  from d R_acquire have "data ri s' rs outs a"
    by (simp add: s' data_def processor_data_def writer_data_def items_are_cong [OF buffers_acquire [OF acq]])
  then show ?thesis ..
next
  case (R_close h)
  then have s': "s' = s\<lparr>ex_q1 := spsc_close (ex_q1 s), ex_reader := R_leave h\<rparr>" using step by simp
  have "contents (spsc_close (ex_q1 s)) = contents (ex_q1 s)"
    using ring.close_ok ok by (auto simp: resources_ok_def)
  with d R_close have "data ri s' rs outs a"
    by (simp add: s' data_def processor_data_def writer_data_def)
  then show ?thesis ..
next
  case (R_leave h)
  then have s': "s' = s\<lparr>ex_pool := handle_destroy h (ex_pool s), ex_reader := R_done\<rparr>" using step by simp
  from d R_leave have "data ri s' rs outs a"
    by (simp add: s' data_def processor_data_def writer_data_def items_are_cong [OF buffers_handle_destroy])
  then show ?thesis ..
next
  case (R_unwind h e)
  then have s': "s' = s\<lparr>ex_pool := handle_destroy h (ex_pool s), ex_reader := R_failing (Fail_record e)\<rparr>"
    using step by simp
  from d R_unwind have "data ri s' rs outs a"
    by (simp add: s' data_def processor_data_def writer_data_def items_are_cong [OF buffers_handle_destroy])
  then show ?thesis ..
next
  case (R_push i off item)
  have q: "ring_inv (ex_q1 s)" using ok by (simp add: resources_ok_def)
  obtain r q1 where p: "spsc_push item (ex_q1 s) = (r, q1)" by (cases "spsc_push item (ex_q1 s)")
  note law = ring.push_ok [OF q p]
  have "q_state (ex_q1 s) \<noteq> Queue_closed"
    using control_okD(2) [OF c] R_push by (simp add: handover_ctl_def)
  with no_queue_failure [OF c ff] law step R_push p have "r = Push_ok"
    by (cases r) auto
  with step R_push p law have s': "s' = s\<lparr>ex_q1 := q1, ex_reader := R_acquire i off\<rparr>"
    and "contents q1 = contents (ex_q1 s) @ [item]" by auto
  with d R_push have "data ri s' rs outs a"
    by (simp add: s' data_def processor_data_def writer_data_def)
  then show ?thesis ..
next
  case (R_read i off h)
  let ?n = "ri_size ri" and ?env = "ri_env ri"
  have br: "blocks_read ri rs i off (ex_in s)" using d R_read by (simp add: data_def)
  have size: "handle_size h (ex_pool s) = ?n"
    by (rule read_stored_data(1) [OF ok sz R_read, of 0 "[]"]) simp_all
  from step R_read size obtain r w where
    cr: "complete_read (ev_backend ?env) (ev_input_fd ?env) ?n off (ex_in s) = Some (r, w)"
    by (auto split: option.splits)
  show ?thesis
  proof (cases r)
    case (Inl e)
    then have "read_block ?env ?n i off (ex_in s) = Some (Read_raises e w)"
      using cr by (simp add: read_block_def)
    then have "read_raises ri e" using br unfolding read_raises_def by blast
    moreover have "s' = s\<lparr>ex_in := w,
        ex_registry := time_operation (rm_read_latency_ns (ev_metrics ?env)) (ch_elapsed ch) (ex_registry s),
        ex_reader := R_unwind h e\<rparr>"
      using step R_read size cr Inl by simp
    ultimately have "data ri s' rs outs a"
      using d R_read by (simp add: data_def processor_data_def writer_data_def)
    then show ?thesis ..
  next
    case (Inr kb)
    obtain k bytes where kb: "kb = (k, bytes)" by (cases kb)
    have len: "unat k = length bytes" "length bytes \<le> unat ?n"
      using honest [unfolded honest_reads_def, rule_format] cr Inr kb by blast+
    note rd = read_stored_data [OF ok sz R_read len]
    let ?p = "handle_store h bytes (ex_pool s)"
    have l1: "list_all2 (item_is ?p) (processor_in (ex_processor s) @ contents (ex_q1 s)) bks =
        list_all2 (item_is (ex_pool s)) (processor_in (ex_processor s) @ contents (ex_q1 s)) bks" for bks
      by (intro list.rel_cong refl rd(3)) (cases "ex_processor s"; auto simp: downstream_items_def)
    have l2: "list_all2 (item_is ?p) (writer_in (ex_writer s) @ contents (ex_q2 s) @ processor_out (ex_processor s)) bks =
        list_all2 (item_is (ex_pool s)) (writer_in (ex_writer s) @ contents (ex_q2 s) @ processor_out (ex_processor s)) bks" for bks
      by (intro list.rel_cong refl rd(3)) (cases "ex_processor s"; cases "ex_writer s"; auto simp: downstream_items_def)
    define t where "t = s\<lparr>ex_in := w,
        ex_registry := time_operation (rm_read_latency_ns (ev_metrics ?env)) (ch_elapsed ch) (ex_registry s),
        ex_pool := ?p\<rparr>"
    have s': "s' = reader_after_read (ev_metrics ?env) i off h k t"
      using step R_read size cr Inr kb by (simp add: t_def)
    show ?thesis
    proof (cases "k = 0")
      case True
      then have "read_block ?env ?n i off (ex_in s) = Some (Read_eof w)"
        using cr Inr kb by (simp add: read_block_def)
      then have "reads_ended ri w rs" using br unfolding reads_ended_def by blast
      with d R_read True have "data ri s' rs outs a"
        by (simp add: s' reader_after_read_def t_def data_def processor_data_def writer_data_def l1 l2)
      then show ?thesis ..
    next
      case False
      show ?thesis
      proof (cases "reader_advance i off k")
        case (Inl e)
        then have "read_block ?env ?n i off (ex_in s) = Some (Read_raises e w)"
          using cr Inr kb False by (simp add: read_block_def)
        then have "read_raises ri e" using br unfolding read_raises_def by blast
        with d R_read False Inl have "data ri s' rs outs a"
          by (simp add: s' reader_after_read_def Let_def t_def data_def processor_data_def writer_data_def l1 l2)
        then show ?thesis ..
      next
        case (Inr io)
        obtain i' off' where io: "io = (i', off')" by (cases io)
        have "read_block ?env ?n i off (ex_in s) = Some (Read_block i' off' bytes w)"
          using cr \<open>r = Inr kb\<close> kb False Inr io by (simp add: read_block_def)
        from blocks_read_snoc [OF br this] have br': "blocks_read ri (rs @ [(i, off, bytes)]) i' off' w" .
        let ?item = "\<lparr>wi_block_index = i, wi_file_offset = off, wi_valid_bytes = k, wi_buffer = h\<rparr>"
        have "handle_valid h" using ok R_read by (auto simp: resources_ok_def leases_ok_def held_def)
        moreover have "0 < unat k" using False by (simp add: unat_gt_0)
        ultimately have "work_item_new i off k h ?p = (Inr ?item, ?p)"
          using len rd(1) by (intro work_item_new_ok) simp_all
        then have s'': "s' = t\<lparr>ex_reader := R_push i' off' ?item,
            ex_registry := count_block (rm_read_blocks (ev_metrics ?env)) (rm_read_bytes (ev_metrics ?env))
              (size_to_u64 k) (ex_registry t)\<rparr>"
          using s' False Inr io by (simp add: reader_after_read_def t_def)
        have pd: "list_all2 (item_is ?p) (processor_in (ex_processor s) @ contents (ex_q1 s) @ [?item])
              (drop (length outs) rs @ [(i, off, bytes)])"
          if "list_all2 (item_is ?p) (processor_in (ex_processor s) @ contents (ex_q1 s)) (drop (length outs) rs)"
          using list_all2_appendI [OF that, of "[?item]" "[(i, off, bytes)]"] rd(2) by simp
        have lo: "length outs \<le> length rs" using d by (auto simp: data_def blocks_processed_def)
        have "data ri s' (rs @ [(i, off, bytes)]) outs a"
          using d R_read br' lo pd
          by (auto simp: s'' t_def data_def processor_data_def writer_data_def l1 l2 outblocks_read
              intro: blocks_processed_read)
        then show ?thesis ..
      qed
    qed
  qed
qed

section \<open>Preservation: the processor\<close>

lemma processor_step_data:
  assumes ok: "resources_ok sz s" and c: "control_ok s" and ff: "ex_first_failure s = None"
    and d: "data ri s rs outs a" and step: "processor_step (ri_env ri) ch (ex_processor s) s = Some s'"
    and nf: "processor_fails (ex_processor s) = []"
  shows "\<exists>outs'. data ri s' rs outs' a"
proof (cases "ex_processor s")
  case P_idle
  with step show ?thesis by simp
next
  case P_done
  with step show ?thesis by simp
next
  case (P_failing f)
  with nf show ?thesis by simp
next
  case P_pop
  have q: "ring_inv (ex_q1 s)" using ok by (simp add: resources_ok_def)
  obtain r q1 where p: "spsc_pop (ex_q1 s) = (r, q1)" by (cases "spsc_pop (ex_q1 s)")
  note law = ring.pop_ok [OF q p] and nqf = no_queue_failure [OF c ff]
  show ?thesis
  proof (cases r)
    case (Pop_value item)
    with step P_pop p law have s': "s' = s\<lparr>ex_q1 := q1, ex_processor := P_process item\<rparr>"
      and q1: "contents (ex_q1 s) = item # contents q1" by auto
    from d P_pop q1 have "data ri s' rs outs a"
      by (simp add: s' data_def processor_data_def writer_data_def)
    then show ?thesis ..
  next
    case Pop_waits
    with step P_pop p show ?thesis by simp
  next
    case Pop_end
    with step P_pop p law have s': "s' = s\<lparr>ex_q1 := q1, ex_processor := P_close\<rparr>"
      and q1: "contents (ex_q1 s) = contents q1" by auto
    from d P_pop q1 have "data ri s' rs outs a"
      by (simp add: s' data_def processor_data_def writer_data_def)
    then show ?thesis ..
  next
    case (Pop_throws e)
    with law nqf show ?thesis by simp
  qed
next
  case P_close
  then have s': "s' = s\<lparr>ex_q2 := spsc_close (ex_q2 s), ex_processor := P_done\<rparr>" using step by simp
  have "contents (spsc_close (ex_q2 s)) = contents (ex_q2 s)"
    using ring.close_ok ok by (auto simp: resources_ok_def)
  with d P_close have "data ri s' rs outs a"
    by (simp add: s' data_def processor_data_def writer_data_def)
  then show ?thesis ..
next
  case (P_unwind item e)
  then have s': "s' = s\<lparr>ex_pool := work_item_destroy item (ex_pool s), ex_processor := P_failing (Fail_record e)\<rparr>"
    using step by simp
  from d P_unwind have "data ri s' rs outs a"
    by (simp add: s' data_def processor_data_def writer_data_def items_are_cong [OF buffers_work_item_destroy])
  then show ?thesis ..
next
  case (P_push item)
  have q: "ring_inv (ex_q2 s)" using ok by (simp add: resources_ok_def)
  obtain r q2 where p: "spsc_push item (ex_q2 s) = (r, q2)" by (cases "spsc_push item (ex_q2 s)")
  note law = ring.push_ok [OF q p]
  have "q_state (ex_q2 s) \<noteq> Queue_closed"
    using control_okD(2) [OF c] P_push by (auto simp: handover_ctl_def)
  with no_queue_failure [OF c ff] law step P_push p have "r = Push_ok"
    by (cases r) auto
  with step P_push p law have s': "s' = s\<lparr>ex_q2 := q2, ex_processor := P_pop\<rparr>"
    and "contents q2 = contents (ex_q2 s) @ [item]" by auto
  with d P_push have "data ri s' rs outs a"
    by (simp add: s' data_def processor_data_def writer_data_def)
  then show ?thesis ..
next
  case (P_process item)
  let ?us = "ev_users (ri_env ri)" and ?b = "rs ! length outs"
  have bp: "blocks_processed ri rs outs (map se_stage (pl_stages (ex_pipeline s)))"
    and la: "list_all2 (item_is (ex_pool s)) (item # contents (ex_q1 s) @ reader_pending (ex_reader s))
        (drop (length outs) rs)"
    using d P_process by (simp_all add: data_def processor_data_def)
  from la have lt: "length outs < length rs" by (metis drop_eq_Nil list_all2_Cons1 linorder_not_le neq_Nil_conv)
  then have dr: "drop (length outs) rs = ?b # drop (length outs + 1) rs" by (simp add: Cons_nth_drop_Suc)
  with la have item: "item_is (ex_pool s) item ?b" by simp
  obtain br where br: "\<exists>i off w. blocks_read ri rs i off w" using d by (simp add: data_def)
  obtain err pl r out where pp: "pipeline_process ?us (ch_stage_elapsed ch) (ex_pipeline s) (ex_registry s)
      (valid_data item (ex_pool s)) = (err, pl, r, out)"
    by (metis prod.exhaust)
  have run: "run_stages ?us (map se_stage (pl_stages (ex_pipeline s))) (block_data ?b) =
      (err, map se_stage (pl_stages pl), out)"
    using pipeline_process_stages [OF pp] item by (simp add: item_is_def)
  have fits: "work_item_ok item (ex_pool s)" and bufs: "pool_buffers_ok (ex_pool s)"
    using ok P_process by (auto simp: resources_ok_def downstream_items_def leases_ok_def item_fits_ok [symmetric])
  have len: "length out = unat (wi_valid_bytes item)"
    using run_stages_length [OF run] item by (simp add: item_is_def)
  let ?p = "store_valid_data item out (ex_pool s)"
  have own: "item_is ?p item (fst ?b, fst (snd ?b), out)"
    using item len valid_data_store_same [OF bufs fits len]
    by (simp add: item_is_def block_data_def)
  have held: "held s = add_mset (wi_buffer item) (reader_handles (ex_reader s) +
      image_mset wi_buffer (mset (contents (ex_q1 s)) + mset (contents (ex_q2 s)) + writer_items (ex_writer s)))"
    using P_process by (simp add: held_def downstream_items_def)
  have other: "item_is ?p x b = item_is (ex_pool s) x b"
    if "x \<in> set (contents (ex_q1 s) @ reader_pending (ex_reader s)) \<or>
        x \<in> set (writer_in (ex_writer s) @ contents (ex_q2 s))" for x b
  proof -
    have "wi_buffer x \<in># reader_handles (ex_reader s) +
      image_mset wi_buffer (mset (contents (ex_q1 s)) + mset (contents (ex_q2 s)) + writer_items (ex_writer s))"
      using that by (cases "ex_reader s"; cases "ex_writer s"; auto)
    from held_other [OF ok held this] show ?thesis
      by (simp add: store_valid_data_def item_is_store_other)
  qed
  have l1: "list_all2 (item_is ?p) (contents (ex_q1 s) @ reader_pending (ex_reader s)) bks =
      list_all2 (item_is (ex_pool s)) (contents (ex_q1 s) @ reader_pending (ex_reader s)) bks" for bks
    by (intro list.rel_cong refl other) auto
  have l2: "list_all2 (item_is ?p) (writer_in (ex_writer s) @ contents (ex_q2 s)) bks =
      list_all2 (item_is (ex_pool s)) (writer_in (ex_writer s) @ contents (ex_q2 s)) bks" for bks
    by (intro list.rel_cong refl other) auto
  show ?thesis
  proof (cases err)
    case (Some e)
    have "process_raises ri e"
      using br bp lt run Some unfolding process_raises_def by blast
    with step P_process pp Some d have "data ri s' rs outs a"
      by (auto simp: Let_def data_def processor_data_def writer_data_def l2)
    then show ?thesis ..
  next
    case None
    have bp': "blocks_processed ri rs (outs @ [out]) (map se_stage (pl_stages pl))"
      using blocks_processed_snoc [OF bp lt] run None by simp
    have alen: "a \<le> length (outblocks rs outs)" using d lt by (simp add: data_def)
    have wd: "list_all2 (item_is ?p) (writer_in (ex_writer s) @ contents (ex_q2 s) @ [item])
              (drop a (outblocks rs outs) @ [(fst ?b, fst (snd ?b), out)])"
      if "list_all2 (item_is (ex_pool s)) (writer_in (ex_writer s) @ contents (ex_q2 s)) (drop a (outblocks rs outs))"
      using list_all2_appendI [OF that [folded l2], of "[item]" "[(fst ?b, fst (snd ?b), out)]"] own by simp
    have rd: "list_all2 (item_is ?p) (contents (ex_q1 s) @ reader_pending (ex_reader s)) (drop (Suc (length outs)) rs)"
      using la dr l1 by simp
    have s': "s' = s\<lparr>ex_pipeline := pl, ex_pool := ?p,
        ex_registry := count_block (rm_processed_blocks (ev_metrics (ri_env ri)))
          (rm_processed_bytes (ev_metrics (ri_env ri))) (size_to_u64 (wi_valid_bytes item))
          (time_operation (rm_process_latency_ns (ev_metrics (ri_env ri))) (ch_elapsed ch) r),
        ex_processor := P_push item\<rparr>"
      using step P_process pp None by (simp add: Let_def)
    have "data ri s' rs (outs @ [out]) a"
      using d P_process bp' rd wd alen
      by (auto simp: s' data_def processor_data_def writer_data_def outblocks_snoc [OF lt])
    then show ?thesis ..
  qed
qed

section \<open>Preservation: the writer\<close>

lemma writer_after_write_same:
  "ex_in (writer_after_write m item n result t) = ex_in t"
  "ex_out (writer_after_write m item n result t) = ex_out t"
  "ex_reader (writer_after_write m item n result t) = ex_reader t"
  "ex_processor (writer_after_write m item n result t) = ex_processor t"
  "ex_pool (writer_after_write m item n result t) = ex_pool t"
  "ex_q1 (writer_after_write m item n result t) = ex_q1 t"
  "ex_q2 (writer_after_write m item n result t) = ex_q2 t"
  "ex_pipeline (writer_after_write m item n result t) = ex_pipeline t"
  "ex_first_failure (writer_after_write m item n result t) = ex_first_failure t"
  "ex_main (writer_after_write m item n result t) = ex_main t"
  by (simp_all add: writer_after_write_def split: prod.split sum.split)

lemma writer_after_write_block:
  assumes "write_all_at (ev_sys env) (ev_output_fd env) bytes off w0 = Some (result, w)"
    and "write_block env off bytes (w0, ex_result t) = Some (u, y)"
  shows "ex_writer (writer_after_write m item (length bytes) result t) =
      (case u of Inl e \<Rightarrow> W_unwind item e | Inr _ \<Rightarrow> W_release item)"
    and "fst y = w" and "ex_result (writer_after_write m item (length bytes) result t) = snd y"
  using assms
  by (auto simp: write_block_def writer_after_write_def split: if_splits prod.splits sum.splits)

lemma writer_step_data:
  assumes ok: "resources_ok sz s" and c: "control_ok s" and ff: "ex_first_failure s = None"
    and d: "data ri s rs outs a" and step: "writer_step (ri_env ri) ch (ex_writer s) s = Some s'"
    and nf: "writer_fails (ex_writer s) = []"
  shows "\<exists>a'. data ri s' rs outs a'"
proof (cases "ex_writer s")
  case W_idle
  with step show ?thesis by simp
next
  case W_done
  with step show ?thesis by simp
next
  case (W_failing f)
  with nf show ?thesis by simp
next
  case W_pop
  have q: "ring_inv (ex_q2 s)" using ok by (simp add: resources_ok_def)
  obtain r q2 where p: "spsc_pop (ex_q2 s) = (r, q2)" by (cases "spsc_pop (ex_q2 s)")
  note law = ring.pop_ok [OF q p] and nqf = no_queue_failure [OF c ff]
  show ?thesis
  proof (cases r)
    case (Pop_value item)
    with step W_pop p law have s': "s' = s\<lparr>ex_q2 := q2, ex_writer := W_write item\<rparr>"
      and q2: "contents (ex_q2 s) = item # contents q2" by auto
    from d W_pop q2 have "data ri s' rs outs a"
      by (simp add: s' data_def processor_data_def writer_data_def)
    then show ?thesis ..
  next
    case Pop_waits
    with step W_pop p show ?thesis by simp
  next
    case Pop_end
    with step W_pop p law have s': "s' = s\<lparr>ex_q2 := q2, ex_writer := W_done\<rparr>"
      and q2: "contents (ex_q2 s) = contents q2" by auto
    from d W_pop q2 have "data ri s' rs outs a"
      by (simp add: s' data_def processor_data_def writer_data_def)
    then show ?thesis ..
  next
    case (Pop_throws e)
    with law nqf show ?thesis by simp
  qed
next
  case (W_release item)
  then have s': "s' = s\<lparr>ex_pool := work_item_destroy item (ex_pool s), ex_writer := W_pop\<rparr>"
    using step by simp
  from d W_release have "data ri s' rs outs a"
    by (simp add: s' data_def processor_data_def writer_data_def items_are_cong [OF buffers_work_item_destroy])
  then show ?thesis ..
next
  case (W_unwind item e)
  then have s': "s' = s\<lparr>ex_pool := work_item_destroy item (ex_pool s), ex_writer := W_failing (Fail_record e)\<rparr>"
    using step by simp
  from d W_unwind have "data ri s' rs outs a"
    by (simp add: s' data_def processor_data_def writer_data_def items_are_cong [OF buffers_work_item_destroy])
  then show ?thesis ..
next
  case (W_write item)
  let ?env = "ri_env ri" and ?b = "outblocks rs outs ! a" and ?x = "(ex_out s, ex_result s)"
  have bw: "blocks_written ri (take a (outblocks rs outs)) ?x"
    and la: "list_all2 (item_is (ex_pool s)) (item # contents (ex_q2 s) @ processor_out (ex_processor s))
        (drop a (outblocks rs outs))"
    using d W_write by (simp_all add: data_def writer_data_def)
  from la have lt: "a < length (outblocks rs outs)"
    by (metis drop_eq_Nil list_all2_Cons1 linorder_not_le neq_Nil_conv)
  then have dr: "drop a (outblocks rs outs) = ?b # drop (Suc a) (outblocks rs outs)"
    by (simp add: Cons_nth_drop_Suc)
  with la have item: "item_is (ex_pool s) item ?b"
    and rest: "list_all2 (item_is (ex_pool s)) (contents (ex_q2 s) @ processor_out (ex_processor s))
        (drop (Suc a) (outblocks rs outs))" by simp_all
  obtain result w where wr: "write_all_at (ev_sys ?env) (ev_output_fd ?env) (block_data ?b) (fst (snd ?b)) (ex_out s)
      = Some (result, w)"
    using step W_write item by (auto simp: item_is_def Let_def split: option.splits)
  have "write_block ?env (fst (snd ?b)) (block_data ?b) ?x \<noteq> None"
    using wr by (simp add: write_block_def)
  then obtain u y where wb: "write_block ?env (fst (snd ?b)) (block_data ?b) ?x = Some (u, y)"
    by (metis option.exhaust prod.exhaust)
  define t where "t = s\<lparr>ex_out := w,
      ex_registry := time_operation (rm_write_latency_ns (ev_metrics ?env)) (ch_elapsed ch) (ex_registry s)\<rparr>"
  have s': "s' = writer_after_write (ev_metrics ?env) item (length (block_data ?b)) result t"
    using step W_write wr item by (simp add: t_def item_is_def Let_def)
  have wbt: "write_block ?env (fst (snd ?b)) (block_data ?b) (ex_out s, ex_result t) = Some (u, y)"
    using wb by (simp add: t_def)
  have pc: "ex_writer s' = (case u of Inl e \<Rightarrow> W_unwind item e | Inr _ \<Rightarrow> W_release item)"
      "fst y = w" "ex_result s' = snd y"
    unfolding s' by (rule writer_after_write_block [OF wr wbt])+
  have same: "ex_in s' = ex_in s" "ex_reader s' = ex_reader s" "ex_processor s' = ex_processor s"
      "ex_pool s' = ex_pool s" "ex_q1 s' = ex_q1 s" "ex_q2 s' = ex_q2 s" "ex_pipeline s' = ex_pipeline s"
      "ex_out s' = w"
    unfolding s' by (simp_all add: writer_after_write_same t_def)
  have br: "\<exists>i off w. blocks_read ri rs i off w" and bp: "\<exists>ss. blocks_processed ri rs outs ss"
    and alt: "a < length outs"
    using d lt by (simp_all add: data_def)
  show ?thesis
  proof (cases u)
    case (Inl e)
    have raises: "write_raises ri e"
      using br bp alt bw wb Inl unfolding write_raises_def by blast
    with d have "data ri s' rs outs a"
      by (simp add: data_def processor_data_def writer_data_def pc same Inl)
    then show ?thesis ..
  next
    case (Inr u')
    have "blocks_written ri (take (Suc a) (outblocks rs outs)) (w, snd y)"
      using blocks_written_snoc [OF bw wb [unfolded Inr]] lt pc(2) [symmetric]
      by (simp add: take_Suc_conv_app_nth)
    with d rest alt have "data ri s' rs outs (Suc a)"
      by (simp add: data_def processor_data_def writer_data_def pc(1,3) same Inr)
    then show ?thesis ..
  qed
qed

section \<open>Preservation: failures and the main thread\<close>

lemma fail_step_first_failure:
  "fail_step f s = (nxt, s') \<Longrightarrow> ex_first_failure s = Some e \<Longrightarrow> ex_first_failure s' = Some e"
  by (cases f) (auto split: prod.splits)

lemma fail_step_records:
  assumes "failure_ctl st1 f1 st2 f2 (ex_first_failure s) F" and "f \<in> F"
    and "ex_first_failure s = None" and "fail_step f s = (nxt, s')"
  obtains e where "f = Fail_record e" and "ex_first_failure s' = Some e"
  using assms by (cases f) (auto simp: failure_ctl_def)

lemma reader_after_read_same:
  "ex_main (reader_after_read m i off h n t) = ex_main t"
  "ex_first_failure (reader_after_read m i off h n t) = ex_first_failure t"
  by (simp_all add: reader_after_read_def Let_def split: prod.split sum.split)

lemma reader_step_same:
  assumes "reader_step env ch (ex_reader s) s = Some s'"
  shows "ex_main s' = ex_main s \<and>
    (reader_fails (ex_reader s) = [] \<longrightarrow> ex_first_failure s' = ex_first_failure s)"
  using assms
  by (cases "ex_reader s")
    (auto simp: Let_def reader_after_read_same dest: fail_step_main
      split: option.splits prod.splits sum.splits push_result.splits)

lemma processor_step_same:
  assumes "processor_step env ch (ex_processor s) s = Some s'"
  shows "ex_main s' = ex_main s \<and>
    (processor_fails (ex_processor s) = [] \<longrightarrow> ex_first_failure s' = ex_first_failure s)"
  using assms
  by (cases "ex_processor s")
    (auto simp: Let_def dest: fail_step_main
      split: option.splits prod.splits push_result.splits pop_result.splits)

lemma writer_step_same:
  assumes "writer_step env ch (ex_writer s) s = Some s'"
  shows "ex_main s' = ex_main s \<and>
    (writer_fails (ex_writer s) = [] \<longrightarrow> ex_first_failure s' = ex_first_failure s)"
  using assms
  by (cases "ex_writer s")
    (auto simp: Let_def writer_after_write_same dest: fail_step_main
      split: option.splits prod.splits pop_result.splits)

end
