(* ===== verification/Executor_Output.thy ===== *)
theory Executor_Output
  imports Executor_Data
begin

text \<open>
  The data invariant in every interleaving, and what it says of a finished run: a result that is
  the sequential program's, or an exception that one of its stages, or a thread creation, raised.
\<close>

section \<open>The data invariant of a run\<close>

definition data_ok ::
  "('r, 't, 'o, 'u) run_input \<Rightarrow> exn set \<Rightarrow> ('r, 'o, 'u) exec_state \<Rightarrow> bool" where
  "data_ok ri S s \<longleftrightarrow>
     (ex_first_failure s = None \<longrightarrow> (\<exists>rs outs a. data ri s rs outs a)) \<and>
     (\<forall>e. ex_first_failure s = Some e \<longrightarrow> e \<in> S \<or> raised_by_stage ri e) \<and>
     (\<forall>e. ex_main s = M_failing (Fail_record e) \<longrightarrow> e \<in> S)"

lemma data_ok_failed:
  "ex_first_failure s = Some e \<Longrightarrow> e \<in> S \<or> raised_by_stage ri e \<Longrightarrow>
   (\<And>e. ex_main s = M_failing (Fail_record e) \<Longrightarrow> e \<in> S) \<Longrightarrow> data_ok ri S s"
  by (simp add: data_ok_def)

text \<open>One phase of \<open>fail_all\<close>, run by any thread, from a state whose pending exception is accounted for.\<close>

lemma fail_step_data:
  assumes c: "control_ok s" and f: "f \<in> all_fails s" and d: "data_ok ri S s"
    and step: "fail_step f s = (nxt, t)"
    and pending: "\<And>e. f = Fail_record e \<Longrightarrow> ex_first_failure s = None \<Longrightarrow> e \<in> S \<or> raised_by_stage ri e"
  shows "\<exists>e. ex_first_failure t = Some e \<and> (e \<in> S \<or> raised_by_stage ri e)"
proof (cases "ex_first_failure s")
  case None
  obtain e where "f = Fail_record e" "ex_first_failure t = Some e"
    using fail_step_records [OF control_okD(1) [OF c] f None step] by blast
  with pending None show ?thesis by auto
next
  case (Some e)
  with fail_step_first_failure [OF step Some] d show ?thesis by (auto simp: data_ok_def)
qed

lemma reader_data_ok:
  assumes ok: "resources_ok sz s" and c: "control_ok s" and sz: "sz = replicate N (ri_size ri)"
    and honest: "honest_reads (ri_env ri) (ri_size ri)"
    and d: "data_ok ri S s" and step: "reader_step (ri_env ri) ch (ex_reader s) s = Some s'"
  shows "data_ok ri S s'"
proof (cases "reader_fails (ex_reader s)")
  case Nil
  note same = reader_step_same [OF step]
  show ?thesis
  proof (cases "ex_first_failure s")
    case None
    then obtain rs outs a where "data ri s rs outs a" using d by (auto simp: data_ok_def)
    from reader_step_data [OF ok c sz honest None this step Nil] same Nil d None
    show ?thesis by (auto simp: data_ok_def)
  next
    case (Some e)
    with same Nil d show ?thesis by (auto simp: data_ok_def)
  qed
next
  case (Cons f fs)
  then have pc: "ex_reader s = R_failing f" by (cases "ex_reader s") auto
  obtain nxt t where f: "fail_step f s = (nxt, t)" by (cases "fail_step f s")
  have mem: "f \<in> all_fails s" by (simp add: all_fails_def pc)
  have "e \<in> S \<or> raised_by_stage ri e" if "f = Fail_record e" and "ex_first_failure s = None" for e
    using d pc that by (auto simp: data_ok_def data_def raised_by_stage_def)
  from fail_step_data [OF c mem d f this] obtain e where
    e: "ex_first_failure t = Some e" "e \<in> S \<or> raised_by_stage ri e" by blast
  have "ex_first_failure s' = Some e" using step pc f e by auto
  moreover have "ex_main s' = ex_main s" using reader_step_same [OF step] by blast
  ultimately show ?thesis using e(2) d by (auto intro!: data_ok_failed simp: data_ok_def)
qed

lemma processor_data_ok:
  assumes ok: "resources_ok sz s" and c: "control_ok s"
    and d: "data_ok ri S s" and step: "processor_step (ri_env ri) ch (ex_processor s) s = Some s'"
  shows "data_ok ri S s'"
proof (cases "processor_fails (ex_processor s)")
  case Nil
  note same = processor_step_same [OF step]
  show ?thesis
  proof (cases "ex_first_failure s")
    case None
    then obtain rs outs a where "data ri s rs outs a" using d by (auto simp: data_ok_def)
    from processor_step_data [OF ok c None this step Nil] same Nil d None
    show ?thesis by (auto simp: data_ok_def)
  next
    case (Some e)
    with same Nil d show ?thesis by (auto simp: data_ok_def)
  qed
next
  case (Cons f fs)
  then have pc: "ex_processor s = P_failing f" by (cases "ex_processor s") auto
  obtain nxt t where f: "fail_step f s = (nxt, t)" by (cases "fail_step f s")
  have mem: "f \<in> all_fails s" by (simp add: all_fails_def pc)
  have "e \<in> S \<or> raised_by_stage ri e" if "f = Fail_record e" and "ex_first_failure s = None" for e
    using d pc that by (auto simp: data_ok_def data_def processor_data_def raised_by_stage_def)
  from fail_step_data [OF c mem d f this] obtain e where
    e: "ex_first_failure t = Some e" "e \<in> S \<or> raised_by_stage ri e" by blast
  have "ex_first_failure s' = Some e" using step pc f e by auto
  moreover have "ex_main s' = ex_main s" using processor_step_same [OF step] by blast
  ultimately show ?thesis using e(2) d by (auto intro!: data_ok_failed simp: data_ok_def)
qed

lemma writer_data_ok:
  assumes ok: "resources_ok sz s" and c: "control_ok s"
    and d: "data_ok ri S s" and step: "writer_step (ri_env ri) ch (ex_writer s) s = Some s'"
  shows "data_ok ri S s'"
proof (cases "writer_fails (ex_writer s)")
  case Nil
  note same = writer_step_same [OF step]
  show ?thesis
  proof (cases "ex_first_failure s")
    case None
    then obtain rs outs a where "data ri s rs outs a" using d by (auto simp: data_ok_def)
    from writer_step_data [OF ok c None this step Nil] same Nil d None
    show ?thesis by (auto simp: data_ok_def)
  next
    case (Some e)
    with same Nil d show ?thesis by (auto simp: data_ok_def)
  qed
next
  case (Cons f fs)
  then have pc: "ex_writer s = W_failing f" by (cases "ex_writer s") auto
  obtain nxt t where f: "fail_step f s = (nxt, t)" by (cases "fail_step f s")
  have mem: "f \<in> all_fails s" by (simp add: all_fails_def pc)
  have "e \<in> S \<or> raised_by_stage ri e" if "f = Fail_record e" and "ex_first_failure s = None" for e
    using d pc that by (auto simp: data_ok_def data_def writer_data_def raised_by_stage_def)
  from fail_step_data [OF c mem d f this] obtain e where
    e: "ex_first_failure t = Some e" "e \<in> S \<or> raised_by_stage ri e" by blast
  have "ex_first_failure s' = Some e" using step pc f e by auto
  moreover have "ex_main s' = ex_main s" using writer_step_same [OF step] by blast
  ultimately show ?thesis using e(2) d by (auto intro!: data_ok_failed simp: data_ok_def)
qed

lemma data_spawn:
  "data ri s rs outs a \<Longrightarrow> ex_reader s = R_idle \<Longrightarrow> data ri (s\<lparr>ex_reader := R_acquire 0 0, ex_main := m\<rparr>) rs outs a"
  "data ri s rs outs a \<Longrightarrow> ex_processor s = P_idle \<Longrightarrow> data ri (s\<lparr>ex_processor := P_pop, ex_main := m\<rparr>) rs outs a"
  "data ri s rs outs a \<Longrightarrow> ex_writer s = W_idle \<Longrightarrow> data ri (s\<lparr>ex_writer := W_pop, ex_main := m\<rparr>) rs outs a"
  by (auto simp: data_def processor_data_def writer_data_def blocks_read_def)

lemma data_main: "data ri (s\<lparr>ex_main := m\<rparr>) rs outs a = data ri s rs outs a"
  by (simp add: data_def processor_data_def writer_data_def)

lemma data_ok_spawn:
  assumes d: "data_ok ri S s" and m: "\<And>e. m \<noteq> M_failing (Fail_record e)"
  shows "ex_reader s = R_idle \<Longrightarrow> data_ok ri S (s\<lparr>ex_reader := R_acquire 0 0, ex_main := m\<rparr>)"
    and "ex_processor s = P_idle \<Longrightarrow> data_ok ri S (s\<lparr>ex_processor := P_pop, ex_main := m\<rparr>)"
    and "ex_writer s = W_idle \<Longrightarrow> data_ok ri S (s\<lparr>ex_writer := W_pop, ex_main := m\<rparr>)"
  using d m data_spawn [of ri s] by (simp_all add: data_ok_def) blast+

lemma data_ok_raise: "data_ok ri S s \<Longrightarrow> e \<in> S \<Longrightarrow> data_ok ri S (s\<lparr>ex_main := M_failing (Fail_record e)\<rparr>)"
  by (simp add: data_ok_def data_main)

lemma main_data_ok:
  assumes ok: "resources_ok sz s" and c: "control_ok s"
    and spawn: "\<And>e. ch_spawn_failure ch = Some e \<Longrightarrow> e \<in> S"
    and d: "data_ok ri S s" and step: "main_step env ch (ex_main s) s = Some s'"
  shows "data_ok ri S s'"
proof (cases "ex_main s")
  case M_spawn_writer
  with step control_spawning [OF c] spawn data_ok_raise [OF d] data_ok_spawn(3) [OF d] show ?thesis
    by (cases "ch_spawn_failure ch") auto
next
  case M_spawn_processor
  with step control_spawning [OF c] spawn data_ok_raise [OF d] data_ok_spawn(2) [OF d] show ?thesis
    by (cases "ch_spawn_failure ch") auto
next
  case M_spawn_reader
  with step control_spawning [OF c] spawn data_ok_raise [OF d] data_ok_spawn(1) [OF d] show ?thesis
    by (cases "ch_spawn_failure ch") auto
next
  case (M_failing f)
  obtain nxt t where f: "fail_step f s = (nxt, t)" by (cases "fail_step f s")
  have mem: "f \<in> all_fails s" by (simp add: all_fails_def M_failing)
  have "e \<in> S \<or> raised_by_stage ri e" if "f = Fail_record e" and "ex_first_failure s = None" for e
    using d M_failing that by (auto simp: data_ok_def)
  from fail_step_data [OF c mem d f this] obtain e where
    e: "ex_first_failure t = Some e" "e \<in> S \<or> raised_by_stage ri e" by blast
  have s': "s' = t\<lparr>ex_main := (case nxt of None \<Rightarrow> M_join | Some f' \<Rightarrow> M_failing f')\<rparr>"
    using step M_failing f by simp
  have "nxt \<noteq> Some (Fail_record e')" for e'
    using f by (cases f) (auto split: option.splits prod.splits)
  with e show ?thesis by (intro data_ok_failed [of _ e]) (auto simp: s' split: option.splits)
next
  case M_join
  with step have j: "workers_joined s" and s': "s' = finish_run (ev_metrics env) s"
    by (auto split: if_splits)
  have q: "ring_inv (ex_q1 s)" "ring_inv (ex_q2 s)" using ok by (simp_all add: resources_ok_def)
  note em = drained_at_join [OF c q j M_join]
  note fin = finish_run_pool [OF q conjunct1 [OF em] conjunct2 [OF em]]
  have "data ri (finish_run (ev_metrics env) s) rs outs a = data ri s rs outs a" for rs outs a
    by (simp add: data_def processor_data_def writer_data_def fin)
  with d show ?thesis by (auto simp: data_ok_def s' fin)
next
  case (M_done r)
  with step show ?thesis by simp
qed

lemma run_step_data:
  assumes inv: "exec_inv sz s" and sz: "sz = replicate N (ri_size ri)"
    and honest: "honest_reads (ri_env ri) (ri_size ri)"
    and spawn: "\<And>e. ch_spawn_failure ch = Some e \<Longrightarrow> e \<in> S"
    and d: "data_ok ri S s" and step: "run_step (ri_env ri) t ch s = Some s'"
  shows "data_ok ri S s'"
proof -
  have ok: "resources_ok sz s" and c: "control_ok s" using inv by (simp_all add: exec_inv_def)
  show ?thesis
    using step main_data_ok [OF ok c spawn d] reader_data_ok [OF ok c sz honest d]
      processor_data_ok [OF ok c d] writer_data_ok [OF ok c d]
    by (cases t) (simp_all add: run_step_def)
qed

lemma reachable_data:
  "exec_reachable (ri_env ri) S s0 s \<Longrightarrow> exec_inv sz s0 \<Longrightarrow> sz = replicate N (ri_size ri) \<Longrightarrow>
   honest_reads (ri_env ri) (ri_size ri) \<Longrightarrow> data_ok ri S s0 \<Longrightarrow> data_ok ri S s"
proof (induction rule: exec_reachable.induct)
  case (reach_step s t ch s')
  show ?case
    by (rule run_step_data [OF reachable_inv [OF reach_step.hyps(1) reach_step.prems(1)] reach_step.prems(2,3) _ _ reach_step.hyps(2)])
      (use reach_step in auto)
qed

section \<open>The sequential program\<close>

definition sequential ::
  "('r, 't, 'o, 'u) run_input \<Rightarrow> nat \<Rightarrow>
     (pipeline_run_result res \<times> 'r \<times> 'u stage list \<times> 'o) option" where
  "sequential ri fuel =
     sequential_run (ri_env ri) (ri_size ri) fuel 0 0 (ri_in ri) (ri_stages ri) (ri_out ri, zero_result)"

lemma read_blocks_length: "read_blocks ri k = Some (rs, i, off, w) \<Longrightarrow> length rs = k"
  by (induction k arbitrary: rs i off w) (auto split: option.splits block_read.splits)

lemma blocks_read_snocE:
  assumes "blocks_read ri (rs @ [b]) i' off' w'"
  obtains i off w bytes where "blocks_read ri rs i off w" and "b = (i, off, bytes)"
    and "read_block (ri_env ri) (ri_size ri) i off w = Some (Read_block i' off' bytes w')"
  using assms
  by (auto simp: blocks_read_def dest: read_blocks_length split: option.splits block_read.splits)

lemma blocks_processed_snocE:
  assumes "blocks_processed ri (rs @ [b]) (outs @ [out]) ss'" and "length outs = length rs"
  obtains ss where "blocks_processed ri rs outs ss"
    and "run_stages (ev_users (ri_env ri)) ss (block_data b) = (None, ss', out)"
  using assms
  by (auto simp: blocks_processed_def process_blocks_snoc split: option.splits prod.splits)

lemma blocks_written_snocE:
  assumes "blocks_written ri (bs @ [b]) y"
  obtains x u where "blocks_written ri bs x"
    and "write_block (ri_env ri) (fst (snd b)) (block_data b) x = Some (Inr u, y)"
  using assms
  by (cases b) (auto simp: blocks_written_def write_blocks_snoc block_data_def split: option.splits sum.splits)

lemma sequential_prefix:
  "blocks_read ri rs i off w \<Longrightarrow> blocks_processed ri rs outs ss \<Longrightarrow> length outs = length rs \<Longrightarrow>
   blocks_written ri (outblocks rs outs) x \<Longrightarrow>
   sequential ri (length rs + fuel) = sequential_run (ri_env ri) (ri_size ri) fuel i off w ss x"
proof (induction rs arbitrary: i off w outs ss x fuel rule: rev_induct)
  case Nil
  then show ?case
    by (simp add: blocks_read_def blocks_processed_def blocks_written_def outblocks_def sequential_def)
next
  case (snoc b rs)
  then obtain outs0 out where outs: "outs = outs0 @ [out]" "length outs0 = length rs"
    by (cases outs rule: rev_cases) auto
  from snoc.prems(1) obtain i0 off0 w0 bytes where r: "blocks_read ri rs i0 off0 w0" "b = (i0, off0, bytes)"
    "read_block (ri_env ri) (ri_size ri) i0 off0 w0 = Some (Read_block i off bytes w)"
    by (rule blocks_read_snocE)
  from snoc.prems(2) outs obtain ss0 where p: "blocks_processed ri rs outs0 ss0"
    "run_stages (ev_users (ri_env ri)) ss0 (block_data b) = (None, ss, out)"
    by (auto elim: blocks_processed_snocE)
  have ob: "outblocks (rs @ [b]) outs = outblocks rs outs0 @ [(i0, off0, out)]"
    using outs r(2) by (simp add: outblocks_def)
  from snoc.prems(4) obtain x0 u where wr: "blocks_written ri (outblocks rs outs0) x0"
    "write_block (ri_env ri) off0 out x0 = Some (Inr u, x)"
    unfolding ob by (auto simp: block_data_def elim: blocks_written_snocE)
  have "sequential ri (length rs + Suc fuel) =
      sequential_run (ri_env ri) (ri_size ri) (Suc fuel) i0 off0 w0 ss0 x0"
    by (rule snoc.IH [OF r(1) p(1) outs(2) wr(1)])
  also have "\<dots> = sequential_run (ri_env ri) (ri_size ri) fuel i off w ss x"
    using r p wr by (simp add: block_data_def)
  finally show ?case by simp
qed

text \<open>Blocks read, processed and written to the end: what a successful sequential run consists of.\<close>

definition completed ::
  "('r, 't, 'o, 'u) run_input \<Rightarrow> 'r \<Rightarrow> block list \<Rightarrow> byte list list \<Rightarrow> 'u stage list \<Rightarrow>
     'o \<times> pipeline_run_result \<Rightarrow> bool" where
  "completed ri w rs outs ss x \<longleftrightarrow>
     reads_ended ri w rs \<and> blocks_processed ri rs outs ss \<and> length outs = length rs \<and>
     blocks_written ri (outblocks rs outs) x"

lemma sequential_completed:
  assumes "completed ri w rs outs ss x"
  shows "sequential ri (length rs + Suc fuel) = Some (Inr (snd x), w, ss, fst x)"
proof -
  obtain i off w0 where r: "blocks_read ri rs i off w0"
    "read_block (ri_env ri) (ri_size ri) i off w0 = Some (Read_eof w)"
    using assms by (auto simp: completed_def reads_ended_def)
  have "sequential ri (length rs + Suc fuel) =
      sequential_run (ri_env ri) (ri_size ri) (Suc fuel) i off w0 ss x"
    using assms r(1) by (intro sequential_prefix) (auto simp: completed_def)
  with r(2) show ?thesis by simp
qed

lemma completed_sequential:
  assumes "blocks_read ri rs i off w" and "blocks_processed ri rs outs ss" and "length outs = length rs"
    and "blocks_written ri (outblocks rs outs) x"
    and "sequential_run (ri_env ri) (ri_size ri) fuel i off w ss x = Some (Inr result, w', ss', out')"
  shows "\<exists>rs' outs'. completed ri w' rs' outs' ss' (out', result)"
  using assms
proof (induction fuel arbitrary: rs i off w outs ss x)
  case 0
  then show ?case by simp
next
  case (Suc fuel)
  let ?env = "ri_env ri" and ?n = "ri_size ri"
  from Suc.prems(5) obtain rb where rb: "read_block ?env ?n i off w = Some rb"
    by (auto split: option.splits)
  show ?case
  proof (cases rb)
    case (Read_eof w1)
    with Suc.prems rb have "completed ri w' rs outs ss' (out', result)"
      by (auto simp: completed_def reads_ended_def)
    then show ?thesis by blast
  next
    case (Read_raises e w1)
    with Suc.prems(5) rb show ?thesis by simp
  next
    case (Read_block i1 off1 bytes w1)
    obtain err ss1 out where run: "run_stages (ev_users ?env) ss bytes = (err, ss1, out)"
      by (metis prod.exhaust)
    with Suc.prems(5) rb Read_block have err: "err = None" by (cases err) auto
    obtain u y where wr: "write_block ?env off out x = Some (Inr u, y)"
      and rest: "sequential_run ?env ?n fuel i1 off1 w1 ss1 y = Some (Inr result, w', ss', out')"
      using Suc.prems(5) rb Read_block run err by (auto split: option.splits sum.splits)
    have r: "blocks_read ri (rs @ [(i, off, bytes)]) i1 off1 w1"
      using blocks_read_snoc [OF Suc.prems(1)] rb Read_block by simp
    have p: "blocks_processed ri (rs @ [(i, off, bytes)]) (outs @ [out]) ss1"
      using blocks_processed_snoc [OF blocks_processed_read [OF Suc.prems(2)]] run err Suc.prems(3)
      by (simp add: block_data_def)
    have "outblocks (rs @ [(i, off, bytes)]) (outs @ [out]) = outblocks rs outs @ [(i, off, out)]"
      using Suc.prems(3) by (simp add: outblocks_def)
    moreover have "blocks_written ri (outblocks rs outs @ [(i, off, out)]) y"
      by (rule blocks_written_snoc [OF Suc.prems(4), where u = u]) (simp add: wr block_data_def)
    ultimately show ?thesis using Suc.IH [OF r p] rest Suc.prems(3) by simp
  qed
qed

lemma sequential_success:
  assumes "sequential ri fuel = Some (Inr result, w', ss', out')"
  shows "\<exists>rs outs. completed ri w' rs outs ss' (out', result)"
  using assms completed_sequential [of ri "[]" 0 0 "ri_in ri" "[]" "ri_stages ri" "(ri_out ri, zero_result)" fuel]
  by (simp add: sequential_def blocks_read_def blocks_processed_def blocks_written_def outblocks_def)

section \<open>A sequential program that succeeds raises nothing\<close>

lemma read_blocks_prefix:
  "read_blocks ri (length rs) = Some (rs, i, off, w) \<Longrightarrow> k \<le> length rs \<Longrightarrow>
   \<exists>i' off' w'. read_blocks ri k = Some (take k rs, i', off', w')"
proof (induction rs arbitrary: i off w rule: rev_induct)
  case (snoc b rs)
  show ?case
  proof (cases "k = length (rs @ [b])")
    case True
    with snoc.prems show ?thesis by auto
  next
    case False
    then have k: "k \<le> length rs" using snoc.prems by simp
    have "blocks_read ri (rs @ [b]) i off w" unfolding blocks_read_def by (rule snoc.prems(1))
    then obtain i0 off0 w0 bytes where "blocks_read ri rs i0 off0 w0" by (rule blocks_read_snocE)
    with snoc.IH k show ?thesis by (simp add: blocks_read_def)
  qed
qed simp

lemma blocks_read_end:
  assumes e: "reads_ended ri w R" and b: "blocks_read ri rs i off w0"
  shows "length rs \<le> length R" and "rs = take (length rs) R"
    and "read_block (ri_env ri) (ri_size ri) i off w0 \<noteq> Some (Read_raises ex w1)"
proof -
  from e obtain iR offR wR where R: "read_blocks ri (length R) = Some (R, iR, offR, wR)"
    and eof: "read_block (ri_env ri) (ri_size ri) iR offR wR = Some (Read_eof w)"
    by (auto simp: reads_ended_def blocks_read_def)
  have rs: "read_blocks ri (length rs) = Some (rs, i, off, w0)" using b by (simp add: blocks_read_def)
  have past: "read_blocks ri (Suc (length R)) = None" using R eof by simp
  show le: "length rs \<le> length R"
  proof (rule ccontr)
    assume "\<not> length rs \<le> length R"
    with read_blocks_prefix [OF rs, of "Suc (length R)"] past show False by auto
  qed
  from read_blocks_prefix [OF R le] rs show "rs = take (length rs) R" by auto
  show "read_block (ri_env ri) (ri_size ri) i off w0 \<noteq> Some (Read_raises ex w1)"
  proof (cases "length rs = length R")
    case True
    then have "read_blocks ri (length R) = Some (rs, i, off, w0)" using rs by metis
    with R have "i = iR \<and> off = offR \<and> w0 = wR" by simp
    with eof show ?thesis by simp
  next
    case False
    with le have "Suc (length rs) \<le> length R" by simp
    from read_blocks_prefix [OF R this] have "read_blocks ri (Suc (length rs)) \<noteq> None" by blast
    with rs show ?thesis by auto
  qed
qed

lemma process_blocks_append:
  "process_blocks us ss (cs @ ds) =
     (case process_blocks us ss cs of
        None \<Rightarrow> None
      | Some (outs1, ss1) \<Rightarrow>
          (case process_blocks us ss1 ds of
             None \<Rightarrow> None
           | Some (outs2, ss2) \<Rightarrow> Some (outs1 @ outs2, ss2)))"
  by (induction cs arbitrary: ss) (auto split: option.splits prod.splits)

lemma blocks_processed_end:
  assumes full: "blocks_processed ri R OS SS" and len: "length OS = length R"
    and p: "blocks_processed ri rs outs ss" and rs: "rs = take (length rs) R" "length rs \<le> length R"
  shows "outs = take (length outs) OS"
    and "length outs < length rs \<Longrightarrow>
      run_stages (ev_users (ri_env ri)) ss (block_data (rs ! length outs)) \<noteq> (Some e, ss', out)"
proof -
  let ?k = "length outs" and ?us = "ev_users (ri_env ri)"
  have k: "?k \<le> length rs" using p by (simp add: blocks_processed_def)
  have "take ?k rs = take ?k (take (length rs) R)" by (rule arg_cong [OF rs(1)])
  also have "\<dots> = take ?k R" using k by (simp add: min_absorb1)
  finally have tk: "take ?k rs = take ?k R" .
  have "map block_data (take ?k R) @ map block_data (drop ?k R) = map block_data R"
    by (metis append_take_drop_id map_append)
  moreover have "process_blocks ?us (ri_stages ri) (map block_data R) = Some (OS, SS)"
    using full len by (simp add: blocks_processed_def)
  ultimately have "process_blocks ?us (ri_stages ri) (map block_data (take ?k R) @ map block_data (drop ?k R)) =
      Some (OS, SS)"
    by (simp only:)
  moreover have "process_blocks ?us (ri_stages ri) (map block_data (take ?k R)) = Some (outs, ss)"
    using p tk by (simp add: blocks_processed_def)
  ultimately obtain o2 where o2: "process_blocks ?us ss (map block_data (drop ?k R)) = Some (o2, SS)"
    "OS = outs @ o2"
    by (auto simp: process_blocks_append split: option.splits)
  show "outs = take (length outs) OS" using o2(2) by simp
  assume lt: "?k < length rs"
  have "rs ! ?k = R ! ?k" using arg_cong [OF rs(1), of "\<lambda>l. l ! ?k"] lt by simp
  then have "drop ?k R = rs ! ?k # drop (Suc ?k) R"
    using lt rs(2) by (simp add: Cons_nth_drop_Suc)
  with o2(1) show "run_stages ?us ss (block_data (rs ! ?k)) \<noteq> (Some e, ss', out)"
    by (auto split: option.splits prod.splits)
qed

lemma write_blocks_append:
  "write_blocks env (bs @ cs) x = (case write_blocks env bs x of None \<Rightarrow> None | Some y \<Rightarrow> write_blocks env cs y)"
  by (induction bs arbitrary: x) (auto split: option.splits sum.splits prod.splits)

lemma blocks_written_end:
  assumes full: "blocks_written ri B X" and a: "a < length B" and w: "blocks_written ri (take a B) x"
  shows "write_block (ri_env ri) (fst (snd (B ! a))) (block_data (B ! a)) x \<noteq> Some (Inl e, x')"
proof -
  have "B = take a B @ B ! a # drop (Suc a) B" using a by (simp add: Cons_nth_drop_Suc)
  with full have "write_blocks (ri_env ri) (take a B @ B ! a # drop (Suc a) B) (ri_out ri, zero_result) = Some X"
    by (simp add: blocks_written_def)
  with w show ?thesis
    by (cases "B ! a") (auto simp: blocks_written_def write_blocks_append block_data_def split: option.splits)
qed

lemma outblocks_take: "k \<le> n \<Longrightarrow> outblocks (take n rs) (take k outs) = take k (outblocks rs outs)"
  by (rule nth_equalityI) (auto simp: nth_outblocks)

lemma completed_raises_nothing:
  assumes c: "completed ri w R OS SS X"
  shows "\<not> raised_by_stage ri e"
proof
  have ended: "reads_ended ri w R" and p: "blocks_processed ri R OS SS" and len: "length OS = length R"
    and wr: "blocks_written ri (outblocks R OS) X"
    using c by (simp_all add: completed_def)
  assume "raised_by_stage ri e"
  then consider "read_raises ri e" | "process_raises ri e" | "write_raises ri e"
    by (auto simp: raised_by_stage_def)
  then show False
  proof cases
    case 1
    with blocks_read_end(3) [OF ended] show False by (auto simp: read_raises_def)
  next
    case 2
    then obtain rs i off v outs ss ss' out where r: "blocks_read ri rs i off v"
      and q: "blocks_processed ri rs outs ss" and lt: "length outs < length rs"
      and run: "run_stages (ev_users (ri_env ri)) ss (block_data (rs ! length outs)) = (Some e, ss', out)"
      unfolding process_raises_def by blast
    from blocks_processed_end(2) [OF p len q blocks_read_end(2,1) [OF ended r] lt] run show False by blast
  next
    case 3
    then obtain rs i off v outs ss a x x' where r: "blocks_read ri rs i off v"
      and q: "blocks_processed ri rs outs ss" and lt: "a < length outs"
      and bw: "blocks_written ri (take a (outblocks rs outs)) x"
      and raise: "write_block (ri_env ri) (fst (snd (outblocks rs outs ! a))) (block_data (outblocks rs outs ! a)) x
          = Some (Inl e, x')"
      unfolding write_raises_def by blast
    have rs: "rs = take (length rs) R" "length rs \<le> length R" using blocks_read_end(2,1) [OF ended r] by blast+
    have outs: "outs = take (length outs) OS" using blocks_processed_end(1) [OF p len q rs] .
    have le: "length outs \<le> length rs" using q by (simp add: blocks_processed_def)
    have "outblocks rs outs = outblocks (take (length rs) R) (take (length outs) OS)"
      by (rule arg_cong2 [OF rs(1) outs, where f = outblocks])
    also have "\<dots> = take (length outs) (outblocks R OS)" by (rule outblocks_take [OF le])
    finally have "outblocks rs outs = take (length outs) (outblocks R OS)" .
    with lt have ob: "outblocks rs outs ! a = outblocks R OS ! a" "take a (outblocks rs outs) = take a (outblocks R OS)"
      by simp_all
    have "a < length (outblocks R OS)" using lt le rs(2) len by simp
    from blocks_written_end [OF wr this bw [unfolded ob]] raise show False by (simp add: ob)
  qed
qed

end
