(* ===== verification/Executor_Termination.thy ===== *)
theory Executor_Termination
  imports Executor_Output
begin

text \<open>
  Every run ends. A weight on states pays for each block that can still be read the steps of all
  three threads on it, and for each thread its way out; every step of every thread lowers it. No
  fairness is needed: together with freedom from deadlock, any scheduler reaches the end.
\<close>

section \<open>The weight\<close>

text \<open>\<open>\<mu> w off\<close> bounds how many blocks reading from offset \<open>off\<close> can still deliver.\<close>

definition reads_progress ::
  "('r, 't, 'o, 'u) exec_env \<Rightarrow> size_t \<Rightarrow> ('r \<Rightarrow> u64 \<Rightarrow> nat) \<Rightarrow> bool" where
  "reads_progress env n \<mu> \<longleftrightarrow>
     (\<forall>off w k bytes w'. complete_read (ev_backend env) (ev_input_fd env) n off w = Some (Inr (k, bytes), w') \<longrightarrow>
        k \<noteq> 0 \<longrightarrow> unat off + unat k < 2 ^ 64 \<longrightarrow> \<mu> w' (off + k) < \<mu> w off)"

fun fail_weight :: "fail_pc \<Rightarrow> nat" where
  "fail_weight (Fail_record _) = 4"
| "fail_weight (Fail_first _) = 3"
| "fail_weight (Fail_second _) = 2"

fun reader_weight :: "(u64 \<Rightarrow> nat) \<Rightarrow> reader_pc \<Rightarrow> nat" where
  "reader_weight \<mu> R_idle = 0"
| "reader_weight \<mu> (R_acquire i off) = 12 * \<mu> off + 10"
| "reader_weight \<mu> (R_read i off h) = 12 * \<mu> off + 9"
| "reader_weight \<mu> (R_push i off item) = 12 * \<mu> off + 20"
| "reader_weight \<mu> (R_close h) = 2"
| "reader_weight \<mu> (R_leave h) = 1"
| "reader_weight \<mu> (R_unwind h e) = 5"
| "reader_weight \<mu> (R_failing f) = fail_weight f"
| "reader_weight \<mu> R_done = 0"

fun processor_weight :: "processor_pc \<Rightarrow> nat" where
  "processor_weight P_idle = 0"
| "processor_weight P_pop = 6"
| "processor_weight (P_process item) = 14"
| "processor_weight (P_push item) = 13"
| "processor_weight P_close = 1"
| "processor_weight (P_unwind item e) = 5"
| "processor_weight (P_failing f) = fail_weight f"
| "processor_weight P_done = 0"

fun writer_weight :: "writer_pc \<Rightarrow> nat" where
  "writer_weight W_idle = 0"
| "writer_weight W_pop = 6"
| "writer_weight (W_write item) = 11"
| "writer_weight (W_release item) = 10"
| "writer_weight (W_unwind item e) = 5"
| "writer_weight (W_failing f) = fail_weight f"
| "writer_weight W_done = 0"

fun main_weight :: "(u64 \<Rightarrow> nat) \<Rightarrow> main_pc \<Rightarrow> nat" where
  "main_weight \<mu> M_spawn_writer = 12 * \<mu> 0 + 30"
| "main_weight \<mu> M_spawn_processor = 12 * \<mu> 0 + 20"
| "main_weight \<mu> M_spawn_reader = 12 * \<mu> 0 + 12"
| "main_weight \<mu> (M_failing f) = fail_weight f"
| "main_weight \<mu> M_join = 1"
| "main_weight \<mu> (M_done r) = 0"

definition run_weight :: "('r \<Rightarrow> u64 \<Rightarrow> nat) \<Rightarrow> ('r, 'o, 'u) exec_state \<Rightarrow> nat" where
  "run_weight \<mu> s =
     main_weight (\<mu> (ex_in s)) (ex_main s) + reader_weight (\<mu> (ex_in s)) (ex_reader s) +
     9 * length (contents (ex_q1 s)) + processor_weight (ex_processor s) +
     6 * length (contents (ex_q2 s)) + writer_weight (ex_writer s)"

section \<open>Every step lowers it\<close>

declare length_contents [simp del]

lemma fail_step_weight:
  assumes q: "ring_inv (ex_q1 s)" "ring_inv (ex_q2 s)" and step: "fail_step f s = (nxt, t)"
  shows "(case nxt of None \<Rightarrow> 1 | Some f' \<Rightarrow> fail_weight f') < fail_weight f"
    and "length (contents (ex_q1 t)) \<le> length (contents (ex_q1 s))"
    and "length (contents (ex_q2 t)) \<le> length (contents (ex_q2 s))"
proof -
  show "(case nxt of None \<Rightarrow> 1 | Some f' \<Rightarrow> fail_weight f') < fail_weight f"
    using step by (cases f) (auto split: option.splits prod.splits)
  have "contents (ex_q1 t) \<in> {[], contents (ex_q1 s)}"
    using step spsc_fail_drop(2) [OF q(1)] by (cases f) (auto split: option.splits prod.splits)
  then show "length (contents (ex_q1 t)) \<le> length (contents (ex_q1 s))" by auto
  have "contents (ex_q2 t) \<in> {[], contents (ex_q2 s)}"
    using step spsc_fail_drop(2) [OF q(2)] by (cases f) (auto split: option.splits prod.splits)
  then show "length (contents (ex_q2 t)) \<le> length (contents (ex_q2 s))" by auto
qed

lemma checked_add_Inr:
  "checked_add x y msg = Inr z \<Longrightarrow> unat x + unat y < 2 ^ 64 \<and> z = x + y"
  using u64_add_fits [of x y] by (simp add: checked_add_def split: if_splits)

lemma reader_advance_Inr:
  "reader_advance i off n = Inr (i', off') \<Longrightarrow> unat off + unat n < 2 ^ 64 \<and> off' = off + n"
  by (auto simp: reader_advance_def size_to_u64_def dest!: checked_add_Inr split: sum.splits if_splits)

lemma reader_after_read_weight:
  assumes "n \<noteq> 0 \<Longrightarrow> unat off + unat n < 2 ^ 64 \<Longrightarrow> \<mu> (off + n) < m"
  shows "reader_weight \<mu> (ex_reader (reader_after_read met i off h n s)) < 12 * m + 9"
  using assms reader_advance_Inr [of i off n]
  by (auto simp: reader_after_read_def Let_def split: prod.splits sum.splits)

lemma reader_after_read_others:
  "ex_in (reader_after_read m i off h n s) = ex_in s"
  "ex_q1 (reader_after_read m i off h n s) = ex_q1 s"
  "ex_q2 (reader_after_read m i off h n s) = ex_q2 s"
  "ex_processor (reader_after_read m i off h n s) = ex_processor s"
  "ex_writer (reader_after_read m i off h n s) = ex_writer s"
  by (simp_all add: reader_after_read_def Let_def split: prod.split sum.split)

definition others_same :: "('r, 'o, 'u) exec_state \<Rightarrow> ('r, 'o, 'u) exec_state \<Rightarrow> bool" where
  "others_same s s' \<longleftrightarrow>
     length (contents (ex_q2 s')) \<le> length (contents (ex_q2 s)) \<and>
     ex_processor s' = ex_processor s \<and> ex_writer s' = ex_writer s \<and> ex_main s' = ex_main s"

lemma reader_step_weight:
  assumes ok: "resources_ok sz s" and c: "control_ok s" and sz: "sz = replicate N n"
    and prog: "reads_progress env n \<mu>" and step: "reader_step env ch (ex_reader s) s = Some s'"
  shows "run_weight \<mu> s' < run_weight \<mu> s"
proof -
  have q: "ring_inv (ex_q1 s)" "ring_inv (ex_q2 s)" using ok by (simp_all add: resources_ok_def)
  have "ex_reader s \<noteq> R_idle" using step by auto
  then have m: "main_weight f (ex_main s) = main_weight g (ex_main s)" for f g
    using control_spawning [OF c] by (cases "ex_main s") auto
  have "others_same s s' \<and>
    reader_weight (\<mu> (ex_in s')) (ex_reader s') + 9 * length (contents (ex_q1 s')) <
    reader_weight (\<mu> (ex_in s)) (ex_reader s) + 9 * length (contents (ex_q1 s))"
  proof (cases "ex_reader s")
    case (R_acquire i off)
    with step show ?thesis by (auto simp: others_same_def split: option.splits)
  next
    case (R_read i off h)
    have "handle_valid h" "bh_index h < length sz" "sizes (ex_pool s) = sz"
      using ok R_read by (auto simp: resources_ok_def handle_fits_def)
    then have size: "handle_size h (ex_pool s) = n" using sizes_handle [of h "ex_pool s"] sz by simp
    with step R_read obtain r w where
      cr: "complete_read (ev_backend env) (ev_input_fd env) n off (ex_in s) = Some (r, w)"
      by (auto split: option.splits)
    show ?thesis
    proof (cases r)
      case (Inl e)
      with step R_read size cr show ?thesis by (auto simp: others_same_def)
    next
      case (Inr kb)
      obtain k bytes where kb: "kb = (k, bytes)" by (cases kb)
      have less: "k \<noteq> 0 \<Longrightarrow> unat off + unat k < 2 ^ 64 \<Longrightarrow> \<mu> w (off + k) < \<mu> (ex_in s) off"
        using prog [unfolded reads_progress_def, rule_format] cr Inr kb by blast
      obtain t where s': "s' = reader_after_read (ev_metrics env) i off h k t"
        and t: "ex_in t = w" "ex_q1 t = ex_q1 s" "ex_q2 t = ex_q2 s" "ex_processor t = ex_processor s"
          "ex_writer t = ex_writer s" "ex_main t = ex_main s"
        using step R_read size cr Inr kb by (auto simp: Let_def)
      from reader_after_read_weight [of k off "\<mu> w" "\<mu> (ex_in s) off" "ev_metrics env" i h t, OF less]
      show ?thesis
        by (simp add: s' reader_after_read_others reader_after_read_same others_same_def t R_read)
    qed
  next
    case (R_push i off item)
    obtain r q1 where p: "spsc_push item (ex_q1 s) = (r, q1)" by (cases "spsc_push item (ex_q1 s)")
    from step R_push p ring.push_ok [OF q(1) p] show ?thesis
      by (cases r) (auto simp: others_same_def)
  next
    case (R_close h)
    with step ring.close_ok [OF q(1)] show ?thesis by (auto simp: others_same_def)
  next
    case (R_failing f)
    obtain nxt t where f: "fail_step f s = (nxt, t)" by (cases "fail_step f s")
    have s': "s' = t\<lparr>ex_reader := (case nxt of None \<Rightarrow> R_done | Some f' \<Rightarrow> R_failing f')\<rparr>"
      using step R_failing f by simp
    from fail_step_weight [OF q f] fail_step_sel [OF f] R_failing show ?thesis
      by (cases nxt) (auto simp: others_same_def s')
  qed (use step in \<open>auto simp: others_same_def\<close>)
  with m [of "\<mu> (ex_in s')" "\<mu> (ex_in s)"] show ?thesis
    by (simp add: run_weight_def others_same_def)
qed

lemma processor_step_weight:
  assumes ok: "resources_ok sz s" and step: "processor_step env ch (ex_processor s) s = Some s'"
  shows "run_weight \<mu> s' < run_weight \<mu> s"
proof -
  have q: "ring_inv (ex_q1 s)" "ring_inv (ex_q2 s)" using ok by (simp_all add: resources_ok_def)
  show ?thesis
  proof (cases "ex_processor s")
    case P_pop
    obtain r q1 where p: "spsc_pop (ex_q1 s) = (r, q1)" by (cases "spsc_pop (ex_q1 s)")
    from step P_pop p ring.pop_ok [OF q(1) p] show ?thesis
      by (cases r) (auto simp: run_weight_def)
  next
    case (P_push item)
    obtain r q2 where p: "spsc_push item (ex_q2 s) = (r, q2)" by (cases "spsc_push item (ex_q2 s)")
    from step P_push p ring.push_ok [OF q(2) p] show ?thesis
      by (cases r) (auto simp: run_weight_def)
  next
    case P_close
    with step ring.close_ok [OF q(2)] show ?thesis by (auto simp: run_weight_def)
  next
    case (P_process item)
    with step show ?thesis by (auto simp: run_weight_def Let_def split: prod.splits option.splits)
  next
    case (P_failing f)
    obtain nxt t where f: "fail_step f s = (nxt, t)" by (cases "fail_step f s")
    have s': "s' = t\<lparr>ex_processor := (case nxt of None \<Rightarrow> P_done | Some f' \<Rightarrow> P_failing f')\<rparr>"
      using step P_failing f by simp
    from fail_step_weight [OF q f] fail_step_sel [OF f] P_failing show ?thesis
      by (cases nxt) (simp_all add: run_weight_def s')
  qed (use step in \<open>auto simp: run_weight_def\<close>)
qed

lemma writer_after_write_weight:
  "writer_weight (ex_writer (writer_after_write m item n result t)) < 11"
  by (simp add: writer_after_write_def split: prod.split sum.split)

lemma writer_step_weight:
  assumes ok: "resources_ok sz s" and step: "writer_step env ch (ex_writer s) s = Some s'"
  shows "run_weight \<mu> s' < run_weight \<mu> s"
proof -
  have q: "ring_inv (ex_q1 s)" "ring_inv (ex_q2 s)" using ok by (simp_all add: resources_ok_def)
  show ?thesis
  proof (cases "ex_writer s")
    case W_pop
    obtain r q2 where p: "spsc_pop (ex_q2 s) = (r, q2)" by (cases "spsc_pop (ex_q2 s)")
    from step W_pop p ring.pop_ok [OF q(2) p] show ?thesis
      by (cases r) (auto simp: run_weight_def)
  next
    case (W_write item)
    with step show ?thesis
      by (auto simp: run_weight_def Let_def writer_after_write_same writer_after_write_weight
          split: option.splits)
  next
    case (W_failing f)
    obtain nxt t where f: "fail_step f s = (nxt, t)" by (cases "fail_step f s")
    have s': "s' = t\<lparr>ex_writer := (case nxt of None \<Rightarrow> W_done | Some f' \<Rightarrow> W_failing f')\<rparr>"
      using step W_failing f by simp
    from fail_step_weight [OF q f] fail_step_sel [OF f] W_failing show ?thesis
      by (cases nxt) (simp_all add: run_weight_def s')
  qed (use step in \<open>auto simp: run_weight_def\<close>)
qed

lemma main_step_weight:
  assumes ok: "resources_ok sz s" and c: "control_ok s" and step: "main_step env ch (ex_main s) s = Some s'"
  shows "run_weight \<mu> s' < run_weight \<mu> s"
proof -
  have q: "ring_inv (ex_q1 s)" "ring_inv (ex_q2 s)" using ok by (simp_all add: resources_ok_def)
  note sp = control_spawning [OF c]
  show ?thesis
  proof (cases "ex_main s")
    case (M_failing f)
    obtain nxt t where f: "fail_step f s = (nxt, t)" by (cases "fail_step f s")
    have s': "s' = t\<lparr>ex_main := (case nxt of None \<Rightarrow> M_join | Some f' \<Rightarrow> M_failing f')\<rparr>"
      using step M_failing f by simp
    from fail_step_weight [OF q f] fail_step_sel [OF f] M_failing show ?thesis
      by (cases nxt) (simp_all add: run_weight_def s')
  next
    case M_join
    with step have j: "workers_joined s" and s': "s' = finish_run (ev_metrics env) s"
      by (auto split: if_splits)
    note e = drained_at_join [OF c q j M_join]
    show ?thesis
      by (simp add: run_weight_def s' finish_run_pool [OF q conjunct1 [OF e] conjunct2 [OF e]] M_join)
  qed (use step sp in \<open>auto simp: run_weight_def split: option.splits\<close>)
qed

lemma run_step_weight:
  assumes inv: "exec_inv sz s" and sz: "sz = replicate N n"
    and prog: "reads_progress env n \<mu>" and step: "run_step env t ch s = Some s'"
  shows "run_weight \<mu> s' < run_weight \<mu> s"
proof -
  have ok: "resources_ok sz s" and c: "control_ok s" using inv by (simp_all add: exec_inv_def)
  show ?thesis
    using step main_step_weight [OF ok c] reader_step_weight [OF ok c sz prog]
      processor_step_weight [OF ok] writer_step_weight [OF ok]
    by (cases t) (simp_all add: run_step_def)
qed

lemma run_schedule_weight:
  "run_schedule env sched s = Some s' \<Longrightarrow> exec_inv sz s \<Longrightarrow> sz = replicate N n \<Longrightarrow>
   reads_progress env n \<mu> \<Longrightarrow> length sched + run_weight \<mu> s' \<le> run_weight \<mu> s"
proof (induction sched arbitrary: s)
  case (Cons tc sched)
  obtain t ch where tc: "tc = (t, ch)" by (cases tc)
  with Cons.prems(1) obtain s1 where s1: "run_step env t ch s = Some s1"
    "run_schedule env sched s1 = Some s'" by (auto split: option.splits)
  from run_step_weight [OF Cons.prems(2-4) s1(1)]
    Cons.IH [OF s1(2) run_step_inv [OF Cons.prems(2) s1(1)] Cons.prems(3,4)]
  show ?case by simp
qed simp

end
