(* ===== verification/Executor_Runs.thy ===== *)
theory Executor_Runs
  imports Executor_Termination
begin

text \<open>
  What holds of every reachable and every finished state of a run that \<open>run\<close> started, and a
  complete small run, evaluated, on which the witnesses rest.
\<close>

section \<open>Queue capacities\<close>

definition capacities :: "('r, 'o, 'u) exec_state \<Rightarrow> nat \<times> nat" where
  "capacities s = (spsc_capacity (ex_q1 s), spsc_capacity (ex_q2 s))"

lemma fail_step_capacities:
  "ring_inv (ex_q1 s) \<Longrightarrow> ring_inv (ex_q2 s) \<Longrightarrow> fail_step f s = (nxt, t) \<Longrightarrow> capacities t = capacities s"
  using spsc_fail_drop(6) [of "ex_q1 s"] spsc_fail_drop(6) [of "ex_q2 s"]
  by (cases f) (auto simp: capacities_def split: option.splits prod.splits)

lemma run_step_capacities:
  assumes inv: "exec_inv sz s" and step: "run_step env t ch s = Some s'"
  shows "capacities s' = capacities s"
proof -
  have q: "ring_inv (ex_q1 s)" "ring_inv (ex_q2 s)" using inv by (simp_all add: exec_inv_def resources_ok_def)
  have fs: "\<And>f nxt u. fail_step f s = (nxt, u) \<Longrightarrow> capacities u = capacities s"
    by (rule fail_step_capacities [OF q])
  have push: "spsc_push v (ex_q1 s) = (r, q1) \<Longrightarrow> spsc_capacity q1 = spsc_capacity (ex_q1 s)"
    "spsc_push v (ex_q2 s) = (r, q2) \<Longrightarrow> spsc_capacity q2 = spsc_capacity (ex_q2 s)" for v r q1 q2
    using ring.push_ok [OF q(1), of v r q1] ring.push_ok [OF q(2), of v r q2] by simp_all
  have pop: "spsc_pop (ex_q1 s) = (r, q1) \<Longrightarrow> spsc_capacity q1 = spsc_capacity (ex_q1 s)"
    "spsc_pop (ex_q2 s) = (r, q2) \<Longrightarrow> spsc_capacity q2 = spsc_capacity (ex_q2 s)" for r q1 q2
    using ring.pop_ok [OF q(1), of r q1] ring.pop_ok [OF q(2), of r q2] by simp_all
  have close: "spsc_capacity (spsc_close (ex_q1 s)) = spsc_capacity (ex_q1 s)"
    "spsc_capacity (spsc_close (ex_q2 s)) = spsc_capacity (ex_q2 s)"
    using ring.close_ok [OF q(1)] ring.close_ok [OF q(2)] by simp_all
  show ?thesis
  proof (cases t)
    case T_main
    with step show ?thesis
      by (cases "ex_main s")
        (auto simp: run_step_def capacities_def finish_run_def Let_def dest!: fs
          split: option.splits prod.splits if_splits)
  next
    case T_reader
    with step show ?thesis
      by (cases "ex_reader s")
        (auto simp: run_step_def capacities_def Let_def reader_after_read_others close dest!: fs push
          split: option.splits prod.splits sum.splits push_result.splits)
  next
    case T_processor
    with step show ?thesis
      by (cases "ex_processor s")
        (auto simp: run_step_def capacities_def Let_def close dest!: fs push pop
          split: option.splits prod.splits push_result.splits pop_result.splits)
  next
    case T_writer
    with step show ?thesis
      by (cases "ex_writer s")
        (auto simp: run_step_def capacities_def Let_def writer_after_write_same dest!: fs pop
          split: option.splits prod.splits pop_result.splits)
  qed
qed

lemma reachable_capacities:
  "exec_reachable env S s0 s \<Longrightarrow> exec_inv sz s0 \<Longrightarrow> capacities s = capacities s0"
  by (induction rule: exec_reachable.induct) (auto dest: run_step_capacities [OF reachable_inv])

section \<open>Schedules and reachable states\<close>

lemma run_schedule_reachable:
  "exec_reachable env UNIV s0 s \<Longrightarrow> run_schedule env sched s = Some s' \<Longrightarrow> exec_reachable env UNIV s0 s'"
proof (induction sched arbitrary: s)
  case (Cons tc sched)
  obtain t ch where tc: "tc = (t, ch)" by (cases tc)
  with Cons.prems(2) obtain s1 where s1: "run_step env t ch s = Some s1"
    "run_schedule env sched s1 = Some s'" by (auto split: option.splits)
  with Cons.IH [OF reach_step [OF Cons.prems(1) s1(1)]] show ?case by simp
qed simp

lemma run_schedule_reachable_quiet:
  "exec_reachable env {} s0 s \<Longrightarrow> run_schedule env sched s = Some s' \<Longrightarrow>
   \<forall>(t, ch) \<in> set sched. ch_spawn_failure ch = None \<Longrightarrow> exec_reachable env {} s0 s'"
proof (induction sched arbitrary: s)
  case (Cons tc sched)
  obtain t ch where tc: "tc = (t, ch)" by (cases tc)
  with Cons.prems(2) obtain s1 where s1: "run_step env t ch s = Some s1"
    "run_schedule env sched s1 = Some s'" by (auto split: option.splits)
  with Cons.IH [OF reach_step [OF Cons.prems(1) s1(1)]] Cons.prems(3) tc show ?case by auto
qed simp

section \<open>The input of a run\<close>

definition input_of ::
  "('r, 't, 'o, 'u) exec_env \<Rightarrow> pipeline_executor \<Rightarrow> 'u pipeline \<Rightarrow> 'r \<Rightarrow> 'o \<Rightarrow> ('r, 't, 'o, 'u) run_input" where
  "input_of env px pl rin out =
     \<lparr>ri_env = env, ri_size = block_size (px_config px), ri_in = rin, ri_out = out,
      ri_stages = map se_stage (pl_stages pl)\<rparr>"

lemma run_start_data:
  assumes "run_start al ifd ofd pl r rin out px m = (Inr s, px', m')"
  shows "data_ok (input_of env px pl rin out) S s"
proof -
  from run_start_Inr [OF assms] obtain p q1 q2
    where queues: "run_queues (px\<lparr>px_started := True\<rparr>) r = Inr (q1, q2)"
    and s: "s = \<lparr>ex_pool = p, ex_q1 = q1, ex_q2 = q2, ex_pipeline = pl, ex_registry = r,
             ex_in = rin, ex_out = out, ex_first_failure = None,
             ex_result = \<lparr>prr_blocks_written = 0, prr_bytes_written = 0\<rparr>,
             ex_reader = R_idle, ex_processor = P_idle, ex_writer = W_idle, ex_main = M_spawn_writer\<rparr>"
    by blast
  have "data (input_of env px pl rin out) s [] [] 0"
    using run_queues_Inr [OF queues]
    by (simp add: data_def processor_data_def writer_data_def blocks_read_def blocks_processed_def
        blocks_written_def outblocks_def zero_result_def input_of_def s)
  then show ?thesis unfolding data_ok_def by (simp add: s) blast
qed

lemma run_start_capacities:
  assumes "run_start al ifd ofd pl r rin out px m = (Inr s, px', m')"
  shows "capacities s = (unat (queue_depth (px_config px)), unat (queue_depth (px_config px)))"
  using run_start_Inr [OF assms] run_queues_Inr by (metis (no_types, lifting) capacities_def exec_state.select_convs(2,3)
      pipeline_executor.select_convs(1) pipeline_executor.surjective pipeline_executor.update_convs(3))

text \<open>What a finished run says.\<close>

lemma finished_completed:
  assumes inv: "exec_inv sz s" and d: "data_ok ri S s" and m: "ex_main s = M_done (Inr res)"
  shows "\<exists>rs outs. completed ri (ex_in s) rs outs (map se_stage (pl_stages (ex_pipeline s))) (ex_out s, res)"
proof -
  have c: "control_ok s" using inv by (simp add: exec_inv_def)
  note hc = control_okD(2) [OF c]
  have ff: "ex_first_failure s = None"
  proof (cases "ex_first_failure s")
    case (Some e)
    with hc m show ?thesis by (simp add: handover_ctl_def)
  qed simp
  with hc m have pcs: "ex_reader s = R_done" "ex_processor s = P_done" "ex_writer s = W_done"
    and empty: "contents (ex_q1 s) = []" "contents (ex_q2 s) = []" and res: "res = ex_result s"
    by (auto simp: handover_ctl_def joined_def)
  from d ff obtain rs outs a where "data ri s rs outs a" by (auto simp: data_ok_def)
  then have p: "processor_data ri s rs outs" and w: "writer_data ri s rs outs a"
    and r: "reads_ended ri (ex_in s) rs"
    using pcs by (simp_all add: data_def)
  have fin: "blocks_processed ri rs outs (map se_stage (pl_stages (ex_pipeline s)))" "length rs \<le> length outs"
    using p pcs empty by (simp_all add: processor_data_def)
  have bw: "blocks_written ri (take a (outblocks rs outs)) (ex_out s, ex_result s)"
    using w pcs by (simp add: writer_data_def)
  have all: "length (outblocks rs outs) \<le> a"
    using w pcs empty by (simp add: writer_data_def del: length_outblocks)
  have "length outs = length rs" using fin by (simp add: blocks_processed_def)
  moreover have "take a (outblocks rs outs) = outblocks rs outs" using all by simp
  ultimately have "completed ri (ex_in s) rs outs (map se_stage (pl_stages (ex_pipeline s))) (ex_out s, res)"
    using r fin bw by (simp add: completed_def res)
  then show ?thesis by blast
qed

lemma finished_failed:
  assumes inv: "exec_inv sz s" and d: "data_ok ri S s" and m: "ex_main s = M_done (Inl e)"
  shows "e \<in> S \<or> raised_by_stage ri e"
proof -
  have c: "control_ok s" using inv by (simp add: exec_inv_def)
  with control_okD(2) [OF c] m have "ex_first_failure s = Some e"
    by (auto simp: handover_ctl_def split: option.splits)
  with d show ?thesis by (simp add: data_ok_def)
qed

lemma finished_unused:
  assumes inv: "exec_inv sz s" and m: "ex_main s = M_done res"
  shows "held s = {#}" and "leased (ex_pool s) = {}"
proof -
  have c: "control_ok s" and l: "leases_ok (ex_pool s) (held s)"
    using inv by (simp_all add: exec_inv_def resources_ok_def)
  have "joined (ex_reader s) (ex_processor s) (ex_writer s)" "contents (ex_q1 s) = []" "contents (ex_q2 s) = []"
    using control_okD(2) [OF c] m by (simp_all add: handover_ctl_def)
  then show h: "held s = {#}"
    by (auto simp: joined_def held_def downstream_items_def)
  with l have "mset_set (leased (ex_pool s)) = {#}" by (simp add: leases_ok_def)
  moreover have "finite (leased (ex_pool s))" using l by (simp add: leases_ok_def finite_leased)
  ultimately show "leased (ex_pool s) = {}" by (simp add: mset_set_empty_iff)
qed

lemma first_failure_kept:
  assumes "run_step env t ch s = Some s'" and "ex_first_failure s = Some e"
  shows "ex_first_failure s' = Some e"
proof (cases t)
  case T_main
  with assms show ?thesis
    by (cases "ex_main s")
      (auto simp: run_step_def finish_run_def Let_def dest: fail_step_first_failure
        split: option.splits prod.splits if_splits)
next
  case T_reader
  with assms reader_step_same [of env ch s s'] show ?thesis
    by (cases "ex_reader s")
      (auto simp: run_step_def simp del: reader_step.simps, auto dest: fail_step_first_failure split: prod.splits)
next
  case T_processor
  with assms processor_step_same [of env ch s s'] show ?thesis
    by (cases "ex_processor s")
      (auto simp: run_step_def simp del: processor_step.simps, auto dest: fail_step_first_failure split: prod.splits)
next
  case T_writer
  with assms writer_step_same [of env ch s s'] show ?thesis
    by (cases "ex_writer s")
      (auto simp: run_step_def simp del: writer_step.simps, auto dest: fail_step_first_failure split: prod.splits)
qed

section \<open>A small run\<close>

text \<open>
  Two buffers of eight bytes, queues of depth one, the input \<open>[1, 2, 255]\<close> behind \<open>SyncBackend\<close>
  and an empty output file; each byte is incremented.
\<close>

definition example_env ::
  "(byte list, (sync_frame, read_value) task, byte list, nat) exec_env" where
  "example_env =
     \<lparr>ev_backend = sync_backend plain_posix, ev_sys = plain_posix, ev_users = throwing_stages,
      ev_input_fd = 3, ev_output_fd = 4, ev_metrics = no_runtime_metrics\<rparr>"

definition example_executor :: pipeline_executor where
  "example_executor = \<lparr>px_config = small_config, px_metrics = no_runtime_metrics, px_started = False\<rparr>"

definition increment_pipeline :: "nat pipeline" where
  "increment_pipeline =
     \<lparr>pl_metrics = False, pl_stages = [\<lparr>se_stage = ByteIncrementStage, se_latency = None\<rparr>]\<rparr>"

definition example_pool :: buffer_pool where
  "example_pool = small_pool\<lparr>inflight_metric := None\<rparr>"

definition example_queue :: "block_work_item spsc_queue" where
  "example_queue = \<lparr>q_slots = [None], q_head = 0, q_tail = 0, q_size = 0, q_state = Queue_open,
     q_failure = None, q_depth_metric = None\<rparr>"

definition small_start :: "nat pipeline \<Rightarrow> 'r \<Rightarrow> 'o \<Rightarrow> ('r, 'o, nat) exec_state" where
  "small_start pl rin out =
     \<lparr>ex_pool = example_pool, ex_q1 = example_queue, ex_q2 = example_queue,
      ex_pipeline = pl, ex_registry = registry_new, ex_in = rin, ex_out = out,
      ex_first_failure = None, ex_result = \<lparr>prr_blocks_written = 0, prr_bytes_written = 0\<rparr>,
      ex_reader = R_idle, ex_processor = P_idle, ex_writer = W_idle, ex_main = M_spawn_writer\<rparr>"

definition example_start :: "(byte list, byte list, nat) exec_state" where
  "example_start = small_start increment_pipeline [1, 2, 255] []"

definition quiet :: exec_choice where
  "quiet = \<lparr>ch_elapsed = 0, ch_stage_elapsed = (\<lambda>_. 0), ch_spawn_failure = None\<rparr>"

definition example_schedule :: "(exec_thread \<times> exec_choice) list" where
  "example_schedule = map (\<lambda>t. (t, quiet))
     ([T_main, T_main, T_main] @ [T_reader, T_reader, T_reader] @ [T_reader, T_reader, T_processor, T_reader] @
      [T_processor, T_processor, T_reader, T_writer, T_writer, T_writer] @ [T_processor, T_processor, T_writer, T_main])"

lemma small_run_start:
  assumes "stage_count pl \<noteq> 0"
  shows "run_start bump_allocator 3 4 pl registry_new rin out example_executor 0 =
     (Inr (small_start pl rin out), example_executor\<lparr>px_started := True\<rparr>, 2)"
proof -
  have pool: "pool_new bump_allocator small_config 0 = (Inr example_pool, 2)" by code_simp
  have queue: "spsc_new sizeof_work_slot 1 = Inr example_queue"
    by (simp add: spsc_new_def sizeof_work_slot_def example_queue_def)
  show ?thesis
    using pool queue assms
    by (simp add: run_start_def run_pool_def run_queues_def example_executor_def small_start_def
        no_runtime_metrics_def small_config_def Let_def)
qed

lemma increment_run_start:
  "run_start bump_allocator 3 4 increment_pipeline registry_new rin out example_executor 0 =
     (Inr (small_start increment_pipeline rin out), example_executor\<lparr>px_started := True\<rparr>, 2)"
  by (rule small_run_start) (simp add: increment_pipeline_def stage_count_def)

lemma example_run_start:
  "run_start bump_allocator 3 4 increment_pipeline registry_new [1, 2, 255] [] example_executor 0 =
     (Inr example_start, example_executor\<lparr>px_started := True\<rparr>, 2)"
  unfolding example_start_def by (rule increment_run_start)

lemma example_run_value:
  "map_option (\<lambda>s. (ex_main s, ex_out s, ex_in s)) (run_schedule example_env example_schedule example_start) = 
  Some (M_done (Inr \<lparr>prr_blocks_written = 1, prr_bytes_written = 3\<rparr>), [2,3,0], [1,2,255])"
  by code_simp

definition example_end :: "(byte list, byte list, nat) exec_state" where
  "example_end = the (run_schedule example_env example_schedule example_start)"

lemma example_run:
  "run_schedule example_env example_schedule example_start = Some example_end"
  "ex_main example_end = M_done (Inr \<lparr>prr_blocks_written = 1, prr_bytes_written = 3\<rparr>)"
  "ex_out example_end = [2, 3, 0]"
  using example_run_value by (auto simp: example_end_def)

lemma example_reachable: "exec_reachable example_env {} example_start example_end"
  by (rule run_schedule_reachable_quiet [OF reach_start example_run(1)])
    (auto simp: example_schedule_def quiet_def)

end
