(* ===== verification/Executor_Files.thy ===== *)
theory Executor_Files
  imports Executor_Runs
begin

text \<open>
  Runs over files: with \<open>SyncBackend\<close> reading a regular file and \<open>write_all_at\<close> writing another,
  the hypotheses of the executor's theorems hold, and a completed run has written the processed
  file. The block-independence contract of \<open>Stages\<close> is what makes the block size irrelevant.
\<close>

section \<open>Reading a file meets the executor's hypotheses\<close>

definition reads_file :: "('r, 't, 'o, 'u) exec_env \<Rightarrow> ('r \<Rightarrow> byte list) \<Rightarrow> bool" where
  "reads_file env img \<longleftrightarrow>
     (\<forall>n off w. \<exists>r w'. complete_read (ev_backend env) (ev_input_fd env) n off w = Some (r, w') \<and>
        img w' = img w \<and> read_outcome_ok (img w) n off r)"

lemma sync_reads_file:
  "ev_backend env = sync_backend sys \<Longrightarrow> sync_serves sys (ev_input_fd env) img \<Longrightarrow> reads_file env img"
  using sync.complete_ok unfolding reads_file_def sync_complete_read_def by metis

lemma reads_fileD:
  assumes "reads_file env img"
    and "complete_read (ev_backend env) (ev_input_fd env) n off w = Some (r, w')"
  shows "img w' = img w" and "read_outcome_ok (img w) n off r"
  using assms unfolding reads_file_def by (metis option.inject prod.inject)+

lemma reads_file_honest: "reads_file env img \<Longrightarrow> honest_reads env n"
  unfolding honest_reads_def using reads_fileD(2) by (fastforce simp: file_chunk_def)

lemma chunk_within:
  "file_chunk file n off bs \<Longrightarrow> bs \<noteq> [] \<Longrightarrow> off + length bs \<le> length file"
proof -
  assume a: "file_chunk file n off bs" "bs \<noteq> []"
  then have "length bs = length (take (length bs) (drop off file))"
    unfolding file_chunk_def by (metis)
  with a(2) show ?thesis by (cases "off \<le> length file") (auto simp: min_def split: if_splits)
qed

lemma reads_file_progress:
  assumes "reads_file env img"
  shows "reads_progress env n (\<lambda>w off. length (img w) - unat off)"
  unfolding reads_progress_def
proof (intro allI impI)
  fix off w k bytes w'
  assume r: "complete_read (ev_backend env) (ev_input_fd env) n off w = Some (Inr (k, bytes), w')"
    and k: "k \<noteq> 0" and fits: "unat off + unat k < 2 ^ 64"
  note ok = reads_fileD [OF assms r]
  then have "file_chunk (img w) (unat n) (unat off) bytes" "unat k = length bytes" by simp_all
  moreover have "0 < unat k" using k by (simp add: unat_gt_0)
  ultimately have "unat off + unat k \<le> length (img w)"
    using chunk_within by (metis length_greater_0_conv)
  moreover have "unat (off + k) = unat off + unat k" using fits by (simp add: unat_add_fits)
  ultimately show "length (img w') - unat (off + k) < length (img w) - unat off"
    using ok(1) \<open>0 < unat k\<close> by simp
qed

section \<open>Writing a file\<close>

definition writes_file :: "('r, 't, 'o, 'u) exec_env \<Rightarrow> ('o \<Rightarrow> byte list) \<Rightarrow> bool" where
  "writes_file env img \<longleftrightarrow>
     pwrite_contract (system_file_io_operations (ev_sys env)) (ev_output_fd env) img \<and>
     (\<exists>m. interrupts_bounded (system_file_io_operations (ev_sys env)) m)"

lemma write_block_file:
  assumes "writes_file env img" and "unat off + length bytes < 2 ^ 64"
    and "write_block env off bytes (w, res) = Some (Inr u, (w', res'))"
  shows "img w' = write_image (img w) (unat off) bytes"
    and "account_written res (of_nat (length bytes)) = (Inr u, res')"
proof -
  let ?ops = "system_file_io_operations (ev_sys env)"
  obtain m where m: "interrupts_bounded ?ops m"
    and c: "pwrite_contract ?ops (ev_output_fd env) img"
    using assms(1) by (auto simp: writes_file_def)
  have "\<exists>r v. write_all_at (ev_sys env) (ev_output_fd env) bytes off w = Some (r, v) \<and>
      img v = write_image (img w) (unat off) (take (bytes_written r) bytes)"
    using write_loop_correct [OF c m assms(2), of 0 w "img w"]
    by (auto simp: write_all_at_def write_all_at_with_def)
  then obtain r v where wr: "write_all_at (ev_sys env) (ev_output_fd env) bytes off w = Some (r, v)"
    "img v = write_image (img w) (unat off) (take (bytes_written r) bytes)"
    by blast
  with assms(3) show "img w' = write_image (img w) (unat off) bytes"
    "account_written res (of_nat (length bytes)) = (Inr u, res')"
    by (auto simp: write_block_def split: if_splits prod.splits)
qed

lemma account_written_Inr:
  "account_written res n = (Inr u, res') \<Longrightarrow>
   prr_bytes_written res' = prr_bytes_written res + n \<and>
   prr_blocks_written res' = prr_blocks_written res + 1"
  by (auto simp: account_written_def size_to_u64_def checked_add_def Let_def split: if_splits)

lemma reader_advance_index: "reader_advance i off n = Inr (i', off') \<Longrightarrow> i' = i + 1"
  by (auto simp: reader_advance_def split: sum.splits if_splits)

section \<open>A completed run has processed the file\<close>

text \<open>The stages compute \<open>transform\<close> and keep their state.\<close>

definition stages_compute ::
  "'u user_stages \<Rightarrow> 'u stage list \<Rightarrow> (byte list \<Rightarrow> byte list) \<Rightarrow> bool" where
  "stages_compute us ss transform \<longleftrightarrow> (\<forall>block. run_stages us ss block = (None, ss, transform block))"

context block_independent
begin

lemma processed_prefix:
  assumes rd: "reads_file (ri_env ri) inC" and wr: "writes_file (ri_env ri) outC"
    and st: "stages_compute (ev_users (ri_env ri)) (ri_stages ri) transform"
  shows "blocks_read ri rs i off w \<Longrightarrow> blocks_processed ri rs outs ss \<Longrightarrow> length outs = length rs \<Longrightarrow>
    blocks_written ri (outblocks rs outs) x \<Longrightarrow>
    inC w = inC (ri_in ri) \<and> ss = ri_stages ri \<and> unat off \<le> length (inC w) \<and>
    outC (fst x) = write_image (outC (ri_out ri)) 0 (transform (take (unat off) (inC w))) \<and>
    prr_bytes_written (snd x) = off \<and> prr_blocks_written (snd x) = i"
proof (induction rs arbitrary: i off w outs ss x rule: rev_induct)
  case Nil
  then show ?case
    by (auto simp: blocks_read_def blocks_processed_def blocks_written_def outblocks_def transform_Nil
        zero_result_def)
next
  case (snoc b rs)
  then obtain outs0 out where outs: "outs = outs0 @ [out]" "length outs0 = length rs"
    by (cases outs rule: rev_cases) auto
  from snoc.prems(1) obtain i0 off0 w0 bytes where r: "blocks_read ri rs i0 off0 w0" "b = (i0, off0, bytes)"
    "read_block (ri_env ri) (ri_size ri) i0 off0 w0 = Some (Read_block i off bytes w)"
    by (rule blocks_read_snocE)
  from snoc.prems(2) outs obtain ss0 where p: "blocks_processed ri rs outs0 ss0"
    "run_stages (ev_users (ri_env ri)) ss0 (block_data b) = (None, ss, out)"
    by (auto elim: blocks_processed_snocE)
  have ob: "outblocks (rs @ [b]) outs = outblocks rs outs0 @ [(i0, off0, out)]"
    using outs r(2) by (simp add: outblocks_def)
  from snoc.prems(4) obtain x0 u where wr0: "blocks_written ri (outblocks rs outs0) x0"
    "write_block (ri_env ri) off0 out x0 = Some (Inr u, x)"
    unfolding ob by (auto simp: block_data_def elim: blocks_written_snocE)
  note IH = snoc.IH [OF r(1) p(1) outs(2) wr0(1)]
  from r(3) obtain k where cr: "complete_read (ev_backend (ri_env ri)) (ev_input_fd (ri_env ri)) (ri_size ri) off0 w0
      = Some (Inr (k, bytes), w)" and k: "k \<noteq> 0" and adv: "reader_advance i0 off0 k = Inr (i, off)"
    by (auto simp: read_block_def split: option.splits sum.splits if_splits)
  note ok = reads_fileD [OF rd cr]
  have ch: "file_chunk (inC w0) (unat (ri_size ri)) (unat off0) bytes" and len: "unat k = length bytes"
    using ok(2) by simp_all
  have fits: "unat off0 + unat k < 2 ^ 64" and off: "off = off0 + k" using reader_advance_Inr [OF adv] by auto
  have "0 < unat k" using k by (simp add: unat_gt_0)
  then have le: "unat off0 + length bytes \<le> length (inC w0)" using chunk_within [OF ch] len by auto
  have uoff: "unat off = unat off0 + length bytes" using fits len by (simp add: off unat_add_fits)
  have out: "out = transform bytes" "ss = ri_stages ri"
    using p(2) IH st r(2) by (simp_all add: stages_compute_def block_data_def)
  have "take (unat off) (inC w0) = take (unat off0) (inC w0) @ bytes"
    using ch by (simp add: uoff take_add file_chunk_def)
  then have split: "transform (take (unat off) (inC w0)) = transform (take (unat off0) (inC w0)) @ out"
    by (simp add: transform_append out)
  have "unat off0 + length out < 2 ^ 64" using fits len by (simp add: out transform_length)
  from write_block_file [OF wr this, of "fst x0" "snd x0" u "fst x" "snd x"] wr0(2)
  have wb: "outC (fst x) = write_image (outC (fst x0)) (unat off0) out"
    and acc: "account_written (snd x0) (of_nat (length out)) = (Inr u, snd x)" by simp_all
  have "length (transform (take (unat off0) (inC w0))) = unat off0"
    using le by (simp add: transform_length)
  then have "outC (fst x) = write_image (outC (ri_out ri)) 0 (transform (take (unat off0) (inC w0)) @ out)"
    using wb IH write_image_append [of "outC (ri_out ri)" 0 "transform (take (unat off0) (inC w0))" out]
    by simp
  then have "outC (fst x) = write_image (outC (ri_out ri)) 0 (transform (take (unat off) (inC w0)))"
    by (simp only: split)
  moreover have "of_nat (length out) = k" using len [symmetric] by (simp add: out transform_length)
  ultimately show ?case
    using IH ok(1) out(2) le uoff account_written_Inr [OF acc] off reader_advance_index [OF adv] by simp
qed

lemma completed_file:
  assumes rd: "reads_file (ri_env ri) inC" and wr: "writes_file (ri_env ri) outC"
    and st: "stages_compute (ev_users (ri_env ri)) (ri_stages ri) transform" and n: "ri_size ri \<noteq> 0"
    and c: "completed ri w rs outs ss x"
  shows "inC w = inC (ri_in ri) \<and>
    outC (fst x) = write_image (outC (ri_out ri)) 0 (transform (inC (ri_in ri))) \<and>
    unat (prr_bytes_written (snd x)) = length (inC (ri_in ri))"
proof -
  from c obtain i off w0 where r: "blocks_read ri rs i off w0"
    and eof: "read_block (ri_env ri) (ri_size ri) i off w0 = Some (Read_eof w)"
    by (auto simp: completed_def reads_ended_def)
  have pre: "inC w0 = inC (ri_in ri) \<and> ss = ri_stages ri \<and> unat off \<le> length (inC w0) \<and>
    outC (fst x) = write_image (outC (ri_out ri)) 0 (transform (take (unat off) (inC w0))) \<and>
    prr_bytes_written (snd x) = off \<and> prr_blocks_written (snd x) = i"
    using c by (intro processed_prefix [OF rd wr st r, of outs]) (simp_all add: completed_def)
  from eof obtain bytes where
    cr: "complete_read (ev_backend (ri_env ri)) (ev_input_fd (ri_env ri)) (ri_size ri) off w0 = Some (Inr (0, bytes), w)"
    by (auto simp: read_block_def split: option.splits sum.splits if_splits)
  from reads_fileD [OF rd cr] n have "inC w = inC w0" "length (inC w0) \<le> unat off"
    by (auto simp: file_chunk_def unat_eq_zero)
  with pre show ?thesis by simp
qed

end

text \<open>The increments of a pipeline are block independent, however many there are.\<close>

interpretation increments: block_independent "byte_increment ^^ n" for n :: nat
proof
  fix xs ys :: "byte list"
  show "(byte_increment ^^ n) (xs @ ys) = (byte_increment ^^ n) xs @ (byte_increment ^^ n) ys"
    by (induction n) (simp_all add: increment.transform_append)
  show "length ((byte_increment ^^ n) xs) = length xs"
    by (induction n) simp_all
qed

lemma increments_compute:
  "set ss \<subseteq> {NoOpStage, ByteIncrementStage} \<Longrightarrow>
   stages_compute us ss (byte_increment ^^ count_list ss ByteIncrementStage)"
proof (induction ss)
  case Nil
  then show ?case by (simp add: stages_compute_def)
next
  case (Cons s ss)
  then show ?case by (auto simp: stages_compute_def funpow_swap1)
qed

section \<open>The small run\<close>

lemma example_reads: "reads_file example_env (\<lambda>w. w)"
  by (rule sync_reads_file [of _ plain_posix])
    (simp_all add: example_env_def plain_posix_serves)

lemma plain_ops:
  "op_read_at (system_file_io_operations plain_posix) fd n off w = (Read_bytes (read_slice w (unat off) n), w)"
  "op_write_at (system_file_io_operations plain_posix) fd bs off w =
     (Sys_ok (length bs), write_image w (unat off) bs)"
  "op_fsync (system_file_io_operations plain_posix) fd w = (Sys_ok 0, w)"
  by (simp_all add: system_file_io_operations_def system_read_at_def system_write_at_def
      system_fsync_def plain_posix_def)

lemma example_writes: "writes_file example_env (\<lambda>w. w)"
proof -
  have "interrupts_bounded (system_file_io_operations plain_posix) (\<lambda>_. 0)"
    by (auto simp: interrupts_bounded_def plain_ops)
  then show ?thesis
    by (auto simp: writes_file_def example_env_def pwrite_contract_def plain_ops)
qed

lemma example_calls_return: "calls_return example_env"
proof -
  have "write_all_at plain_posix fd bytes off w \<noteq> None" for fd bytes off w
    by (cases bytes)
      (simp_all add: write_all_at_def write_all_at_with_def write_loop.simps retry_write.simps plain_ops)
  moreover have "complete_read (ev_backend example_env) (ev_input_fd example_env) n off w \<noteq> None" for n off w
    using example_reads unfolding reads_file_def by (metis option.distinct(1))
  ultimately show ?thesis by (simp add: calls_return_def example_env_def)
qed

end
