(* ===== verification/Executor_Properties.thy ===== *)
theory Executor_Properties
  imports Executor_Files
begin

text \<open>
  The properties of the executor, for every interleaving of its threads and every choice of the
  environment, over the invariants and weights of the preceding theories.
\<close>

section \<open>Reachable states of a started run\<close>

lemma run_reachable_inv:
  assumes "memalign_contract al" and "run_start al ifd ofd pl r rin out px m = (Inr s0, px', m')"
    and "exec_reachable env S s0 s"
  shows "exec_inv (replicate (unat (max_inflight_buffers (px_config px))) (block_size (px_config px))) s"
  by (rule reachable_inv [OF assms(3) run_start_inv(1) [OF assms(1,2)]])

lemma run_reachable_data:
  assumes "memalign_contract al" and "run_start al ifd ofd pl r rin out px m = (Inr s0, px', m')"
    and "exec_reachable env S s0 s" and "honest_reads env (block_size (px_config px))"
  shows "data_ok (input_of env px pl rin out) S s"
  by (rule reachable_data [OF _ run_start_inv(1) [OF assms(1,2)] _ _ run_start_data [OF assms(2)]])
    (use assms(3,4) in \<open>simp_all add: input_of_def\<close>)

lemma item_fits_replicate:
  "item_fits (replicate N n) item \<Longrightarrow> 0 < unat (wi_valid_bytes item) \<and> unat (wi_valid_bytes item) \<le> unat n"
  by (auto simp: item_fits_def)

lemma finished_first_failure:
  assumes "exec_inv sz s" and "ex_main s = M_done res"
  shows "res = (case ex_first_failure s of None \<Rightarrow> Inr (ex_result s) | Some e \<Rightarrow> Inl e)"
  using assms by (auto simp: exec_inv_def control_ok_def handover_ctl_def split: option.splits)

lemma failure_reasons:
  assumes "exec_inv sz s"
  shows "q_failure (ex_q1 s) = Some e \<Longrightarrow> ex_first_failure s = Some e"
    and "q_failure (ex_q2 s) = Some e \<Longrightarrow> ex_first_failure s = Some e"
  using assms by (auto simp: exec_inv_def control_ok_def failure_ctl_def)

lemma first_failure_stays:
  "exec_reachable env S s0 s \<Longrightarrow> ex_first_failure s0 = Some e \<Longrightarrow> ex_first_failure s = Some e"
  by (induction rule: exec_reachable.induct) (auto dest: first_failure_kept)

lemma example_inv:
  "memalign_contract bump_allocator" "px_config example_executor = small_config"
  by (simp_all add: bump_allocator_contract example_executor_def)

subsection \<open>A small run that fails\<close>

text \<open>The same run with a stage that throws: the processor fails while the reader goes on.\<close>

definition throwing_pipeline :: "nat pipeline" where
  "throwing_pipeline =
     \<lparr>pl_metrics = False, pl_stages = [\<lparr>se_stage = UserStage 3, se_latency = None\<rparr>]\<rparr>"

definition failing_start :: "(byte list, byte list, nat) exec_state" where
  "failing_start = small_start throwing_pipeline [1, 2, 255] []"

lemma failing_run_start:
  "run_start bump_allocator 3 4 throwing_pipeline registry_new [1, 2, 255] [] example_executor 0 =
     (Inr failing_start, example_executor\<lparr>px_started := True\<rparr>, 2)"
  unfolding failing_start_def
  by (rule small_run_start) (simp add: throwing_pipeline_def stage_count_def)

definition schedule_to_failure :: "(exec_thread \<times> exec_choice) list" where
  "schedule_to_failure = map (\<lambda>t. (t, quiet))
     ([T_main, T_main, T_main] @ [T_reader, T_reader, T_reader] @
      [T_processor, T_processor, T_processor, T_processor])"

definition schedule_after_failure :: "(exec_thread \<times> exec_choice) list" where
  "schedule_after_failure = map (\<lambda>t. (t, quiet))
     ([T_reader, T_processor, T_reader, T_processor, T_reader, T_reader] @
      [T_writer, T_writer, T_writer, T_writer, T_main])"

definition failing_middle :: "(byte list, byte list, nat) exec_state" where
  "failing_middle = the (run_schedule example_env schedule_to_failure failing_start)"

definition failing_end :: "(byte list, byte list, nat) exec_state" where
  "failing_end = the (run_schedule example_env schedule_after_failure failing_middle)"

lemma failing_runs:
  "map_option (\<lambda>s. (ex_first_failure s, map_option (\<lambda>s. ex_main s)
      (run_schedule example_env schedule_after_failure s)))
     (run_schedule example_env schedule_to_failure failing_start) =
   Some (Some (User_exception 3), Some (M_done (Inl (User_exception 3))))"
  by code_simp

lemma failing_run:
  "run_schedule example_env schedule_to_failure failing_start = Some failing_middle"
  "run_schedule example_env schedule_after_failure failing_middle = Some failing_end"
  "ex_first_failure failing_middle = Some (User_exception 3)"
  "ex_main failing_end = M_done (Inl (User_exception 3))"
  using failing_runs by (auto simp: failing_middle_def failing_end_def)

lemma failing_reachable:
  "exec_reachable example_env {} failing_start failing_middle"
  "exec_reachable example_env {} failing_middle failing_end"
  "exec_reachable example_env {} failing_start failing_end"
proof -
  have quiet: "\<forall>(t, ch) \<in> set schedule_to_failure. ch_spawn_failure ch = None"
    "\<forall>(t, ch) \<in> set schedule_after_failure. ch_spawn_failure ch = None"
    by (auto simp: schedule_to_failure_def schedule_after_failure_def quiet_def)
  show m: "exec_reachable example_env {} failing_start failing_middle"
    by (rule run_schedule_reachable_quiet [OF reach_start failing_run(1) quiet(1)])
  show "exec_reachable example_env {} failing_middle failing_end"
    by (rule run_schedule_reachable_quiet [OF reach_start failing_run(2) quiet(2)])
  show "exec_reachable example_env {} failing_start failing_end"
    by (rule run_schedule_reachable_quiet [OF m failing_run(2) quiet(2)])
qed

section \<open>Properties\<close>

text \<open>
  C4: At every moment of every run, each leased buffer has exactly one holder (the reader, a queued
  item, the processor or the writer), never more buffers are out than the configured maximum,
  neither queue exceeds its depth, and every work item carries at least one and at most
  \<open>block_size\<close> valid bytes.
\<close>

theorem executor_exclusive_leases:
  assumes "memalign_contract al" and "run_start al ifd ofd pl r rin out px m = (Inr s0, px', m')"
    and "exec_reachable env S s0 s"
  shows "image_mset bh_index (held s) = mset_set (leased (ex_pool s)) \<and>
    size (held s) \<le> unat (max_inflight_buffers (px_config px)) \<and>
    length (contents (ex_q1 s)) \<le> unat (queue_depth (px_config px)) \<and>
    length (contents (ex_q2 s)) \<le> unat (queue_depth (px_config px)) \<and>
    (\<forall>item \<in># downstream_items s.
       0 < unat (wi_valid_bytes item) \<and> unat (wi_valid_bytes item) \<le> unat (block_size (px_config px)))"
proof -
  let ?sz = "replicate (unat (max_inflight_buffers (px_config px))) (block_size (px_config px))"
  have ok: "resources_ok ?sz s"
    using run_reachable_inv [OF assms] by (simp add: exec_inv_def)
  have l: "leases_ok (ex_pool s) (held s)" and sz: "sizes (ex_pool s) = ?sz"
    and q: "ring_inv (ex_q1 s)" "ring_inv (ex_q2 s)" using ok by (simp_all add: resources_ok_def)
  have "capacities s = (unat (queue_depth (px_config px)), unat (queue_depth (px_config px)))"
    using reachable_capacities [OF assms(3) run_start_inv(1) [OF assms(1,2)]] run_start_capacities [OF assms(2)]
    by simp
  with ring.bounded [OF q(1)] ring.bounded [OF q(2)]
  have "length (contents (ex_q1 s)) \<le> unat (queue_depth (px_config px))"
    "length (contents (ex_q2 s)) \<le> unat (queue_depth (px_config px))" by (simp_all add: capacities_def)
  moreover have "image_mset bh_index (held s) = mset_set (leased (ex_pool s))"
    using l by (simp add: leases_ok_def)
  moreover have "size (held s) \<le> unat (max_inflight_buffers (px_config px))"
    using leases_ok_bound [OF l] by (simp add: sz)
  moreover have "\<forall>item \<in># downstream_items s. item_fits ?sz item"
    using ok by (simp add: resources_ok_def)
  ultimately show ?thesis using item_fits_replicate by blast
qed

theorem executor_exclusive_leases_witness:
  "size (held example_end) \<le> 2 \<and> image_mset bh_index (held example_end) = mset_set (leased (ex_pool example_end))"
  using executor_exclusive_leases [OF example_inv(1) example_run_start example_reachable]
  by (simp add: example_inv(2) small_config_def)

text \<open>
  C3: Every run ends, under every scheduler. If reads and writes return (they may fail) and reading
  makes progress through a finite input, there is a bound on the length of all schedules, and a
  schedule that cannot be continued has reached the end of \<open>run\<close>: no deadlock, no livelock, also
  when threads fail or cannot be created.
\<close>

theorem executor_terminates:
  assumes "memalign_contract al" and "run_start al ifd ofd pl r rin out px m = (Inr s0, px', m')"
    and "calls_return env" and "reads_progress env (block_size (px_config px)) \<mu>"
  shows "\<exists>bound. \<forall>sched s. run_schedule env sched s0 = Some s \<longrightarrow>
    length sched \<le> bound \<and>
    ((\<forall>t. run_step env t ch s = None) \<longrightarrow> (\<exists>res. ex_main s = M_done res))"
proof (intro exI allI impI)
  fix sched s
  assume run: "run_schedule env sched s0 = Some s"
  let ?sz = "replicate (unat (max_inflight_buffers (px_config px))) (block_size (px_config px))"
  note inv0 = run_start_inv(1) [OF assms(1,2)]
  have "length sched \<le> run_weight \<mu> s0"
    using run_schedule_weight [OF run inv0 refl assms(4)] by simp
  moreover have "exec_inv ?sz s"
    by (rule run_reachable_inv [OF assms(1,2) run_schedule_reachable [OF reach_start run]])
  moreover have "?sz \<noteq> []"
    using run_start_inv(2) [OF assms(1,2)] by (simp add: config_ok_def)
  ultimately show "length sched \<le> run_weight \<mu> s0 \<and>
      ((\<forall>t. run_step env t ch s = None) \<longrightarrow> (\<exists>res. ex_main s = M_done res))"
    using no_deadlock assms(3) by blast
qed

theorem executor_terminates_witness:
  "\<exists>bound. length example_schedule \<le> bound \<and>
     (\<forall>sched s. run_schedule example_env sched example_start = Some s \<longrightarrow> length sched \<le> bound)"
  using executor_terminates [OF example_inv(1) example_run_start example_calls_return
      reads_file_progress [OF example_reads], of quiet] example_run(1) by blast

text \<open>
  C8: When \<open>run\<close> has returned or thrown, every lease is back in the pool, both queues are empty and
  all created threads have been joined.
\<close>

theorem executor_releases_everything:
  assumes "memalign_contract al" and "run_start al ifd ofd pl r rin out px m = (Inr s0, px', m')"
    and "exec_reachable env S s0 s" and "ex_main s = M_done res"
  shows "leased (ex_pool s) = {} \<and>
    length (available_indices (ex_pool s)) = unat (max_inflight_buffers (px_config px)) \<and>
    contents (ex_q1 s) = [] \<and> contents (ex_q2 s) = [] \<and> workers_joined s"
proof -
  note inv = run_reachable_inv [OF assms(1-3)]
  have p: "pool_inv (ex_pool s)" and cap: "pool_capacity (ex_pool s) = unat (max_inflight_buffers (px_config px))"
    using inv by (simp_all add: exec_inv_def resources_ok_def leases_ok_def sizes_capacity)
  have "contents (ex_q1 s) = [] \<and> contents (ex_q2 s) = [] \<and> workers_joined s"
    using inv assms(4) by (simp add: exec_inv_def control_ok_def handover_ctl_def workers_joined_eq)
  with finished_unused [OF inv assms(4)] pool_inv_partition(3) [OF p] cap show ?thesis
    by (simp add: pool_available_def)
qed

theorem executor_releases_everything_witness:
  "leased (ex_pool example_end) = {} \<and> length (available_indices (ex_pool example_end)) = 2"
  using executor_releases_everything [OF example_inv(1) example_run_start example_reachable example_run(2)]
  by (simp add: example_inv(2) small_config_def)

text \<open>
  C5: Three threads compute what one would. When a run returns a result, the sequential program
  (read a block, process it, write it, repeat) started on the same input returns that result and
  leaves the same input world, stage states and output world, whatever the interleaving was.
\<close>

theorem executor_refines_sequential:
  assumes "memalign_contract al" and "run_start al ifd ofd pl r rin out px m = (Inr s0, px', m')"
    and "exec_reachable env S s0 s" and "honest_reads env (block_size (px_config px))"
    and "ex_main s = M_done (Inr res)"
  shows "\<exists>fuel. sequential (input_of env px pl rin out) fuel =
    Some (Inr res, ex_in s, map se_stage (pl_stages (ex_pipeline s)), ex_out s)"
proof -
  obtain rs outs where "completed (input_of env px pl rin out) (ex_in s) rs outs
      (map se_stage (pl_stages (ex_pipeline s))) (ex_out s, res)"
    using finished_completed [OF run_reachable_inv [OF assms(1-3)] run_reachable_data [OF assms(1-4)] assms(5)]
    by blast
  from sequential_completed [OF this, of 0] show ?thesis by (intro exI) simp
qed

theorem executor_refines_sequential_witness:
  "\<exists>fuel w ss. sequential (input_of example_env example_executor increment_pipeline [1, 2, 255] []) fuel =
     Some (Inr \<lparr>prr_blocks_written = 1, prr_bytes_written = 3\<rparr>, w, ss, [2, 3, 0])"
  using executor_refines_sequential [OF example_inv(1) example_run_start example_reachable
      reads_file_honest [OF example_reads] example_run(2)] example_run(3) by auto

text \<open>
  C1: The outcome does not depend on the schedule. If the sequential program succeeds and threads
  can be created, then every run that ends returns exactly its result and leaves its output: no
  interleaving makes a run fail, lose a block, or write something else.
\<close>

theorem executor_deterministic:
  assumes "memalign_contract al" and "run_start al ifd ofd pl r rin out px m = (Inr s0, px', m')"
    and "exec_reachable env {} s0 s" and "honest_reads env (block_size (px_config px))"
    and "sequential (input_of env px pl rin out) fuel = Some (Inr expected, w, ss, out')"
    and "ex_main s = M_done res"
  shows "res = Inr expected \<and> ex_out s = out' \<and> ex_in s = w \<and>
    map se_stage (pl_stages (ex_pipeline s)) = ss"
proof -
  let ?ri = "input_of env px pl rin out"
  note inv = run_reachable_inv [OF assms(1-3)] and d = run_reachable_data [OF assms(1-4)]
  obtain rs outs where c: "completed ?ri w rs outs ss (out', expected)"
    using sequential_success [OF assms(5)] by blast
  show ?thesis
  proof (cases res)
    case (Inl e)
    with finished_failed [OF inv d] assms(6) completed_raises_nothing [OF c] show ?thesis by simp
  next
    case (Inr got)
    then obtain rs' outs' where c': "completed ?ri (ex_in s) rs' outs'
        (map se_stage (pl_stages (ex_pipeline s))) (ex_out s, got)"
      using finished_completed [OF inv d] assms(6) by blast
    have "sequential ?ri (length rs + Suc (length rs')) = Some (Inr expected, w, ss, out')"
      using sequential_completed [OF c] by simp
    moreover have "sequential ?ri (length rs' + Suc (length rs)) =
        Some (Inr got, ex_in s, map se_stage (pl_stages (ex_pipeline s)), ex_out s)"
      using sequential_completed [OF c'] by simp
    ultimately show ?thesis by (simp add: add.commute Inr)
  qed
qed

lemma example_sequential:
  "\<exists>w ss. sequential (input_of example_env example_executor increment_pipeline [1, 2, 255] []) 2 =
     Some (Inr \<lparr>prr_blocks_written = 1, prr_bytes_written = 3\<rparr>, w, ss, [2, 3, 0])"
proof -
  have "map_option (\<lambda>x. (fst x, snd (snd (snd x))))
      (sequential (input_of example_env example_executor increment_pipeline [1, 2, 255] []) 2) =
    Some (Inr \<lparr>prr_blocks_written = 1, prr_bytes_written = 3\<rparr>, [2, 3, 0])"
    by code_simp
  then show ?thesis by auto
qed

theorem executor_deterministic_witness:
  "ex_out example_end = [2, 3, 0] \<and> ex_main example_end = M_done (Inr \<lparr>prr_blocks_written = 1, prr_bytes_written = 3\<rparr>)"
proof -
  obtain w ss where seq: "sequential (input_of example_env example_executor increment_pipeline [1, 2, 255] []) 2 =
     Some (Inr \<lparr>prr_blocks_written = 1, prr_bytes_written = 3\<rparr>, w, ss, [2, 3, 0])"
    using example_sequential by blast
  from executor_deterministic [OF example_inv(1) example_run_start example_reachable
      reads_file_honest [OF example_reads] seq example_run(2)] example_run(2)
  show ?thesis by simp
qed

lemma run_copies_file:
  assumes "memalign_contract al" and "run_start al ifd ofd pl r rin out px m = (Inr s0, px', m')"
    and "exec_reachable env S s0 s" and "ex_main s = M_done (Inr res)"
    and "reads_file env inC" and "writes_file env outC"
    and "set (map se_stage (pl_stages pl)) \<subseteq> {NoOpStage, ByteIncrementStage}"
  shows "inC (ex_in s) = inC rin \<and>
    outC (ex_out s) = write_image (outC out) 0
      ((byte_increment ^^ count_list (map se_stage (pl_stages pl)) ByteIncrementStage) (inC rin)) \<and>
    unat (prr_bytes_written res) = length (inC rin)"
proof -
  let ?ri = "input_of env px pl rin out"
  have ri: "ri_env ?ri = env" "ri_in ?ri = rin" "ri_out ?ri = out" "ri_size ?ri = block_size (px_config px)"
    "ri_stages ?ri = map se_stage (pl_stages pl)"
    by (simp_all add: input_of_def)
  have n: "block_size (px_config px) \<noteq> 0"
    using run_start_inv(2) [OF assms(1,2)] by (auto simp: config_ok_def)
  obtain rs outs where c: "completed ?ri (ex_in s) rs outs
      (map se_stage (pl_stages (ex_pipeline s))) (ex_out s, res)"
    using finished_completed [OF run_reachable_inv [OF assms(1-3)]
        run_reachable_data [OF assms(1-3) reads_file_honest [OF assms(5)]] assms(4)] by blast
  have "reads_file (ri_env ?ri) inC" "writes_file (ri_env ?ri) outC" "ri_size ?ri \<noteq> 0"
    using assms(5,6) n by (simp_all add: ri)
  moreover have "stages_compute (ev_users (ri_env ?ri)) (ri_stages ?ri)
      (byte_increment ^^ count_list (map se_stage (pl_stages pl)) ByteIncrementStage)"
    unfolding ri by (rule increments_compute [OF assms(7)])
  ultimately show ?thesis using increments.completed_file [OF _ _ _ _ c] by (simp add: ri)
qed

text \<open>
  The byte count of a result, whatever the stages and the input are: reads that report as many bytes as
  they stored are enough for it to be the length of what a run has written to an empty file.
\<close>

lemma written_length:
  assumes honest: "honest_reads (ri_env ri) (ri_size ri)" and wr: "writes_file (ri_env ri) outC"
    and empty: "outC (ri_out ri) = []"
  shows "blocks_read ri rs i off w \<Longrightarrow> blocks_processed ri rs outs ss \<Longrightarrow> length outs = length rs \<Longrightarrow>
    blocks_written ri (outblocks rs outs) x \<Longrightarrow>
    length (outC (fst x)) = unat off \<and> prr_bytes_written (snd x) = off"
proof (induction rs arbitrary: i off w outs ss x rule: rev_induct)
  case Nil
  then show ?case
    using empty by (auto simp: blocks_read_def blocks_processed_def blocks_written_def outblocks_def zero_result_def)
next
  case (snoc b rs)
  then obtain outs0 out where outs: "outs = outs0 @ [out]" "length outs0 = length rs"
    by (cases outs rule: rev_cases) auto
  from snoc.prems(1) obtain i0 off0 w0 bytes where r: "blocks_read ri rs i0 off0 w0" "b = (i0, off0, bytes)"
    "read_block (ri_env ri) (ri_size ri) i0 off0 w0 = Some (Read_block i off bytes w)"
    by (rule blocks_read_snocE)
  from snoc.prems(2) outs obtain ss0 where p: "blocks_processed ri rs outs0 ss0"
    "run_stages (ev_users (ri_env ri)) ss0 (block_data b) = (None, ss, out)"
    by (auto elim: blocks_processed_snocE)
  have ob: "outblocks (rs @ [b]) outs = outblocks rs outs0 @ [(i0, off0, out)]"
    using outs r(2) by (simp add: outblocks_def)
  from snoc.prems(4) obtain x0 u where x0: "blocks_written ri (outblocks rs outs0) x0"
    "write_block (ri_env ri) off0 out x0 = Some (Inr u, x)"
    unfolding ob by (auto simp: block_data_def elim: blocks_written_snocE)
  note IH = snoc.IH [OF r(1) p(1) outs(2) x0(1)]
  from r(3) obtain k where cr: "complete_read (ev_backend (ri_env ri)) (ev_input_fd (ri_env ri)) (ri_size ri) off0 w0
      = Some (Inr (k, bytes), w)" and adv: "reader_advance i0 off0 k = Inr (i, off)"
    by (auto simp: read_block_def split: option.splits sum.splits if_splits)
  have k: "unat k = length bytes" using honest cr unfolding honest_reads_def by blast
  have fits: "unat off0 + unat k < 2 ^ 64" and off: "off = off0 + k" using reader_advance_Inr [OF adv] by auto
  have len: "length out = unat k" using run_stages_length [OF p(2)] r(2) k by (simp add: block_data_def)
  from write_block_file [OF wr, of off0 out "fst x0" "snd x0" u "fst x" "snd x"] x0(2) fits len
  have "outC (fst x) = write_image (outC (fst x0)) (unat off0) out"
    and acc: "account_written (snd x0) (of_nat (length out)) = (Inr u, snd x)" by simp_all
  then have "outC (fst x) = outC (fst x0) @ out" using IH write_image_at_end by metis
  with IH len fits account_written_Inr [OF acc] show ?case by (simp add: off unat_add_fits)
qed

lemma run_counts_bytes:
  assumes "memalign_contract al" and "run_start al ifd ofd pl r rin out px m = (Inr s0, px', m')"
    and "exec_reachable env S s0 s" and "honest_reads env (block_size (px_config px))"
    and "ex_main s = M_done (Inr res)" and "writes_file env outC" and "outC out = []"
  shows "unat (prr_bytes_written res) = length (outC (ex_out s))"
proof -
  let ?ri = "input_of env px pl rin out"
  have ri: "ri_env ?ri = env" "ri_out ?ri = out" "ri_size ?ri = block_size (px_config px)"
    by (simp_all add: input_of_def)
  obtain rs outs where "completed ?ri (ex_in s) rs outs (map se_stage (pl_stages (ex_pipeline s))) (ex_out s, res)"
    using finished_completed [OF run_reachable_inv [OF assms(1-3)] run_reachable_data [OF assms(1-4)] assms(5)] by blast
  then obtain i off w where "blocks_read ?ri rs i off w"
    and "blocks_processed ?ri rs outs (map se_stage (pl_stages (ex_pipeline s)))" "length outs = length rs"
      "blocks_written ?ri (outblocks rs outs) (ex_out s, res)"
    by (auto simp: completed_def reads_ended_def)
  from written_length [OF _ _ _ this] assms(4,6,7) show ?thesis by (simp add: ri)
qed

text \<open>
  C2: A run over files copies the processed file. With the input behind a backend that serves a
  regular file and the output a regular file that \<open>pwrite\<close> writes, a pipeline of \<open>noop\<close> and
  \<open>byte_increment\<close> stages that returns a result has overwritten the start of the output with the
  input, every byte incremented once per increment stage, for every block size, buffer count,
  queue depth, short read, short write and interleaving; the reported byte count is the length of
  the input, which is unchanged.
\<close>

theorem executor_copies_file:
  assumes "memalign_contract al" and "run_start al ifd ofd pl r rin out px m = (Inr s0, px', m')"
    and "exec_reachable env S s0 s" and "ex_main s = M_done (Inr res)"
    and "reads_file env inC" and "writes_file env outC"
    and "set (map se_stage (pl_stages pl)) \<subseteq> {NoOpStage, ByteIncrementStage}"
  shows "inC (ex_in s) = inC rin \<and>
    outC (ex_out s) = write_image (outC out) 0
      ((byte_increment ^^ count_list (map se_stage (pl_stages pl)) ByteIncrementStage) (inC rin)) \<and>
    unat (prr_bytes_written res) = length (inC rin)"
  by (rule run_copies_file [OF assms])

theorem executor_copies_file_witness:
  "ex_out example_end = write_image [] 0 (byte_increment [1, 2, 255])"
  using executor_copies_file [OF example_inv(1) example_run_start example_reachable example_run(2)
      example_reads example_writes]
  by (simp add: increment_pipeline_def)

text \<open>
  C6: A failed run reports a real cause. The exception that \<open>run\<close> throws was raised by a thread
  creation, or is one that the sequential program's reads, stages or writes raise on this very
  input: it is never an artefact of the shutdown (a push into a queue closed or failed by another
  thread).
\<close>

theorem executor_failure_origin:
  assumes "memalign_contract al" and "run_start al ifd ofd pl r rin out px m = (Inr s0, px', m')"
    and "exec_reachable env S s0 s" and "honest_reads env (block_size (px_config px))"
    and "ex_main s = M_done (Inl e)"
  shows "e \<in> S \<or> raised_by_stage (input_of env px pl rin out) e"
  by (rule finished_failed [OF run_reachable_inv [OF assms(1-3)] run_reachable_data [OF assms(1-4)] assms(5)])

theorem executor_failure_origin_witness:
  "raised_by_stage (input_of example_env example_executor throwing_pipeline [1, 2, 255] []) (User_exception 3)"
  using executor_failure_origin [OF example_inv(1) failing_run_start failing_reachable(3)
      reads_file_honest [OF example_reads] failing_run(4)] by simp

text \<open>
  C7: The first failure wins. Once a thread has recorded an exception, it stays the recorded one
  whatever the other threads do, a queue fails with no other reason, and \<open>run\<close> throws it.
\<close>

theorem executor_first_failure_wins:
  assumes "memalign_contract al" and "run_start al ifd ofd pl r rin out px m = (Inr s0, px', m')"
    and "exec_reachable env S s0 s1" and "ex_first_failure s1 = Some e" and "exec_reachable env S s1 s2"
  shows "ex_first_failure s2 = Some e \<and> q_failure (ex_q1 s2) \<in> {None, Some e} \<and>
    q_failure (ex_q2 s2) \<in> {None, Some e} \<and> (\<forall>res. ex_main s2 = M_done res \<longrightarrow> res = Inl e)"
proof -
  let ?sz = "replicate (unat (max_inflight_buffers (px_config px))) (block_size (px_config px))"
  have inv: "exec_inv ?sz s2" by (rule reachable_inv [OF assms(5) run_reachable_inv [OF assms(1-3)]])
  have ff: "ex_first_failure s2 = Some e" by (rule first_failure_stays [OF assms(5,4)])
  show ?thesis
    using ff failure_reasons [OF inv] finished_first_failure [OF inv]
    by (cases "q_failure (ex_q1 s2)"; cases "q_failure (ex_q2 s2)") auto
qed

theorem executor_first_failure_wins_witness:
  "ex_first_failure failing_end = Some (User_exception 3) \<and>
   q_failure (ex_q1 failing_end) \<in> {None, Some (User_exception 3)}"
  using executor_first_failure_wins [OF example_inv(1) failing_run_start failing_reachable(1)
      failing_run(3) failing_reachable(2)] by blast

end
