(* ===== verification/World_Invariants.thy ===== *)
theory World_Invariants
  imports Backends
begin

text \<open>
  What the retry loops of \<open>File_IO\<close> keep of the operating system's world: an invariant of the single
  calls is one of the loops. Then two files in one world, as the serial programs use them: reading
  one and writing the other.
\<close>

section \<open>Invariants of calls\<close>

definition writes_keep :: "'w file_io_operations \<Rightarrow> int \<Rightarrow> ('w \<Rightarrow> bool) \<Rightarrow> bool" where
  "writes_keep ops fd J \<longleftrightarrow>
     (\<forall>bytes off w r w'. op_write_at ops fd bytes off w = (r, w') \<longrightarrow> J w \<longrightarrow> J w')"

definition fsync_keeps :: "'w file_io_operations \<Rightarrow> int \<Rightarrow> ('w \<Rightarrow> bool) \<Rightarrow> bool" where
  "fsync_keeps ops fd J \<longleftrightarrow> (\<forall>w r w'. op_fsync ops fd w = (r, w') \<longrightarrow> J w \<longrightarrow> J w')"

lemma retry_write_keeps:
  assumes "retry_write ops fd bytes off w = Some (r, w')" and "writes_keep ops fd J" and "J w"
  shows "J w'"
proof -
  let ?Q = "\<lambda>ops fd bytes off w rw. writes_keep ops fd J \<longrightarrow> J w \<longrightarrow> J (snd rw)"
  have "?Q ops fd bytes off w (r, w')"
  proof (rule retry_write.raw_induct [where P = ?Q, OF _ assms(1)])
    fix f :: "'a file_io_operations \<Rightarrow> int \<Rightarrow> byte list \<Rightarrow> u64 \<Rightarrow> 'a \<Rightarrow> (syscall_result \<times> 'a) option"
    fix ops fd bytes off w rw
    assume IH: "\<And>ops fd bytes off w rw. f ops fd bytes off w = Some rw \<Longrightarrow> ?Q ops fd bytes off w rw"
      and eq: "(case op_write_at ops fd bytes off w of (r, w') \<Rightarrow>
        if r = Sys_failed EINTR then f ops fd bytes off w' else Some (r, w')) = Some rw"
    obtain r1 w1 where op: "op_write_at ops fd bytes off w = (r1, w1)" by (meson surj_pair)
    then have keep: "writes_keep ops fd J \<Longrightarrow> J w \<Longrightarrow> J w1" unfolding writes_keep_def by blast
    show "?Q ops fd bytes off w rw"
      using eq op keep IH by (cases "r1 = Sys_failed EINTR") auto
  qed
  with assms show ?thesis by simp
qed

lemma write_loop_keeps:
  assumes "write_loop ops fd bytes off k w = Some (r, w')" and "writes_keep ops fd J" and "J w"
  shows "J w'"
proof -
  let ?Q = "\<lambda>ops fd bytes off k w rw. writes_keep ops fd J \<longrightarrow> J w \<longrightarrow> J (snd rw)"
  have "?Q ops fd bytes off k w (r, w')"
  proof (rule write_loop.raw_induct [where P = ?Q, OF _ assms(1)])
    fix f :: "'a file_io_operations \<Rightarrow> int \<Rightarrow> byte list \<Rightarrow> u64 \<Rightarrow> nat \<Rightarrow> 'a \<Rightarrow> (write_at_result \<times> 'a) option"
    fix ops fd bytes off k w rw
    assume IH: "\<And>ops fd bytes off k w rw. f ops fd bytes off k w = Some rw \<Longrightarrow> ?Q ops fd bytes off k w rw"
      and eq: "(if k < length bytes then
        (case retry_write ops fd (drop k bytes) (off + of_nat k) w of
           None \<Rightarrow> None
         | Some (r, w') \<Rightarrow>
             (case r of
                Sys_failed error_number \<Rightarrow> Some (\<lparr>bytes_written = k, wa_error_number = error_number\<rparr>, w')
              | Sys_ok n \<Rightarrow>
                  if n = 0 then Some (\<lparr>bytes_written = k, wa_error_number = EIO\<rparr>, w')
                  else f ops fd bytes off (k + n) w'))
        else Some (\<lparr>bytes_written = k, wa_error_number = 0\<rparr>, w)) = Some rw"
    show "?Q ops fd bytes off k w rw"
      using eq IH retry_write_keeps [of ops fd "drop k bytes" "off + of_nat k" w _ _ J]
      by (cases rw) (auto split: if_splits option.splits syscall_result.splits)
  qed
  with assms show ?thesis by simp
qed

lemma retry_fsync_returns:
  assumes "interrupts_bounded ops m"
  shows "\<exists>r. retry_fsync ops fd w = Some r"
proof (induction "m w" arbitrary: w rule: less_induct)
  case less
  obtain r w' where op: "op_fsync ops fd w = (r, w')" by (meson surj_pair)
  show ?case
  proof (cases "r = Sys_failed EINTR")
    case True
    with assms op have "m w' < m w" unfolding interrupts_bounded_def by blast
    from less [OF this] op True show ?thesis by (simp add: retry_fsync.simps [of ops fd w])
  qed (use op in \<open>simp add: retry_fsync.simps [of ops fd w]\<close>)
qed

lemma retry_fsync_keeps:
  assumes "retry_fsync ops fd w = Some (r, w')" and "fsync_keeps ops fd J" and "J w"
  shows "J w'"
proof -
  let ?Q = "\<lambda>ops fd w rw. fsync_keeps ops fd J \<longrightarrow> J w \<longrightarrow> J (snd rw)"
  have "?Q ops fd w (r, w')"
  proof (rule retry_fsync.raw_induct [where P = ?Q, OF _ assms(1)])
    fix f :: "'a file_io_operations \<Rightarrow> int \<Rightarrow> 'a \<Rightarrow> (syscall_result \<times> 'a) option"
    fix ops fd w rw
    assume IH: "\<And>ops fd w rw. f ops fd w = Some rw \<Longrightarrow> ?Q ops fd w rw"
      and eq: "(case op_fsync ops fd w of (r, w') \<Rightarrow>
        if r = Sys_failed EINTR then f ops fd w' else Some (r, w')) = Some rw"
    obtain r1 w1 where op: "op_fsync ops fd w = (r1, w1)" by (meson surj_pair)
    then have keep: "fsync_keeps ops fd J \<Longrightarrow> J w \<Longrightarrow> J w1" unfolding fsync_keeps_def by blast
    show "?Q ops fd w rw" using eq op keep IH by (cases "r1 = Sys_failed EINTR") auto
  qed
  with assms show ?thesis by simp
qed

lemma fsync_fd_keeps:
  assumes "fsync_fd sys fd w = Some (r, w')" and "fsync_keeps (system_file_io_operations sys) fd J" and "J w"
  shows "J w'"
  using assms retry_fsync_keeps [of "system_file_io_operations sys" fd w _ _ J]
  by (auto simp: fsync_fd_def fsync_fd_with_def split: option.splits syscall_result.splits)

section \<open>Reading one file and writing another\<close>

text \<open>
  \<open>ifd\<close> is open on a regular file with contents \<open>inC\<close>, \<open>ofd\<close> on another with contents \<open>outC\<close>.
\<close>

definition separate_files ::
  "'w posix_calls \<Rightarrow> int \<Rightarrow> int \<Rightarrow> ('w \<Rightarrow> byte list) \<Rightarrow> ('w \<Rightarrow> byte list) \<Rightarrow> bool" where
  "separate_files sys ifd ofd inC outC \<longleftrightarrow>
     pread_contract (system_file_io_operations sys) ifd inC \<and>
     pwrite_contract (system_file_io_operations sys) ofd outC \<and>
     (\<exists>m. interrupts_bounded (system_file_io_operations sys) m) \<and>
     (\<forall>n off w r w'. op_read_at (system_file_io_operations sys) ifd n off w = (r, w') \<longrightarrow> outC w' = outC w) \<and>
     (\<forall>c. writes_keep (system_file_io_operations sys) ofd (\<lambda>w. inC w = c)) \<and>
     (\<forall>c. fsync_keeps (system_file_io_operations sys) ofd (\<lambda>w. (inC w, outC w) = c))"

lemma interrupted_reads_keep:
  assumes "\<And>n off w r w'. op_read_at ops fd n off w = (r, w') \<Longrightarrow> J w' = J w"
  shows "interrupted_reads ops fd n off w v \<Longrightarrow> J v = J w"
  by (induction rule: interrupted_reads.induct) (auto dest: assms)

lemma read_at_file:
  assumes c: "pread_contract (system_file_io_operations sys) fd inC"
    and "interrupts_bounded (system_file_io_operations sys) m"
  obtains result stored w' where "read_at sys fd n off w = Some ((result, stored), w')"
    and "inC w' = inC w"
    and "\<And>K. (\<And>n off w r w'. op_read_at (system_file_io_operations sys) fd n off w = (r, w') \<Longrightarrow> K w' = K w) \<Longrightarrow>
        K w' = (K w :: 'k)"
    and "ra_error_number result \<noteq> 0 \<or>
      ra_error_number result = 0 \<and> bytes_read result = length stored \<and> file_chunk (inC w) n (unat off) stored"
proof -
  let ?ops = "system_file_io_operations sys"
  obtain r w' where r: "retry_read ?ops fd n off w = Some (r, w')"
    using retry_read_returns [OF assms(2)] by blast
  obtain v where v: "interrupted_reads ?ops fd n off w v" "op_read_at ?ops fd n off v = (r, w')"
    using retry_read_sound [OF r] by blast
  have same: "inC v = inC w" by (rule interrupted_reads_contents [OF c v(1)])
  have eff: "inC w' = inC v" "pread_effect (inC v) n off r"
    using c [unfolded pread_contract_def, rule_format, OF v(2)] by simp_all
  have keep: "K w' = (K w :: 'k)"
    if "\<And>n off w r w'. op_read_at ?ops fd n off w = (r, w') \<Longrightarrow> K w' = K w" for K
    using interrupted_reads_keep [of ?ops fd K, OF that v(1)] that [OF v(2)] by simp
  show thesis
  proof (cases r)
    case (Read_failed e)
    with r eff same keep show ?thesis
      by (intro that [of "\<lparr>bytes_read = 0, ra_error_number = e\<rparr>" "[]" w'])
        (simp_all add: read_at_def read_at_with_def)
  next
    case (Read_bytes bs)
    with r eff same keep show ?thesis
      by (intro that [of "\<lparr>bytes_read = length bs, ra_error_number = 0\<rparr>" bs w'])
        (simp_all add: read_at_def read_at_with_def file_chunk_def)
  qed
qed

lemma write_all_at_file:
  assumes "pwrite_contract (system_file_io_operations sys) fd outC"
    and "interrupts_bounded (system_file_io_operations sys) m" and "unat off + length bytes < 2 ^ 64"
  obtains result w' where "write_all_at sys fd bytes off w = Some (result, w')"
    and "outC w' = write_image (outC w) (unat off) (take (bytes_written result) bytes)"
    and "wa_error_number result = 0 \<longleftrightarrow> bytes_written result = length bytes"
  using write_loop_correct [OF assms, of 0 w "outC w"]
  by (auto simp: write_all_at_def write_all_at_with_def)

lemma separate_read:
  assumes "separate_files sys ifd ofd inC outC"
  obtains result stored w' where "read_at sys ifd n off w = Some ((result, stored), w')"
    and "inC w' = inC w" and "outC w' = outC w"
    and "ra_error_number result \<noteq> 0 \<or>
      ra_error_number result = 0 \<and> bytes_read result = length stored \<and> file_chunk (inC w) n (unat off) stored"
proof -
  let ?ops = "system_file_io_operations sys"
  obtain m where c: "pread_contract ?ops ifd inC" "interrupts_bounded ?ops m"
    and keep: "\<And>n off w r w'. op_read_at ?ops ifd n off w = (r, w') \<Longrightarrow> outC w' = outC w"
    using assms unfolding separate_files_def by blast
  from c show thesis
  proof (rule read_at_file [of sys ifd inC m n off w])
    fix result stored w'
    assume r: "read_at sys ifd n off w = Some ((result, stored), w')" "inC w' = inC w"
      "ra_error_number result \<noteq> 0 \<or> ra_error_number result = 0 \<and> bytes_read result = length stored \<and>
        file_chunk (inC w) n (unat off) stored"
      and K: "\<And>K :: 'a \<Rightarrow> byte list. (\<And>n off w r w'. op_read_at ?ops ifd n off w = (r, w') \<Longrightarrow> K w' = K w) \<Longrightarrow> K w' = K w"
    have "outC w' = outC w" by (rule K) (rule keep)
    with r show thesis by (intro that)
  qed
qed

lemma separate_write:
  assumes "separate_files sys ifd ofd inC outC" and "unat off + length bytes < 2 ^ 64"
  obtains result w' where "write_all_at sys ofd bytes off w = Some (result, w')"
    and "inC w' = inC w" and "outC w' = write_image (outC w) (unat off) (take (bytes_written result) bytes)"
    and "wa_error_number result = 0 \<longleftrightarrow> bytes_written result = length bytes"
proof -
  let ?ops = "system_file_io_operations sys"
  obtain m where c: "pwrite_contract ?ops ofd outC" "interrupts_bounded ?ops m"
    and keep: "writes_keep ?ops ofd (\<lambda>u. inC u = inC w)"
    using assms unfolding separate_files_def by blast
  obtain result w' where r: "write_all_at sys ofd bytes off w = Some (result, w')"
    "outC w' = write_image (outC w) (unat off) (take (bytes_written result) bytes)"
    "wa_error_number result = 0 \<longleftrightarrow> bytes_written result = length bytes"
    by (rule write_all_at_file [OF c assms(2)])
  have "inC w' = inC w"
    using write_loop_keeps [OF _ keep] r(1) by (simp add: write_all_at_def write_all_at_with_def)
  with r show thesis by (intro that)
qed

end
