(* ===== verification/Atomic_Output.thy ===== *)
theory Atomic_Output
  imports Executor_Properties World_Invariants
begin

text \<open>
  Publishing a file (\<open>AtomicOutputFile\<close>, \<open>reject_same_input_and_output\<close> and \<open>run_file\<close> of
  \<open>src/pipeline/pipeline_executor.cpp\<close>): the run writes to a temporary file beside the final path,
  which is fsynced and renamed over it. The file system is a record of calls; what they promise is
  a contract over what a world shows of it.
\<close>

section \<open>Paths\<close>

text \<open>\<open>std::filesystem::path\<close> on POSIX: the parts before and after the last separator.\<close>

definition path_filename :: "string \<Rightarrow> string" where
  "path_filename path = rev (takeWhile (\<lambda>c. c \<noteq> CHR ''/'') (rev path))"

definition path_parent :: "string \<Rightarrow> string" where
  "path_parent path =
     (let directory = rev (dropWhile (\<lambda>c. c \<noteq> CHR ''/'') (rev path));
          stripped = rev (dropWhile (\<lambda>c. c = CHR ''/'') (rev directory)) in
      if stripped = [] then take 1 directory else stripped)"

definition path_append :: "string \<Rightarrow> string \<Rightarrow> string" where
  "path_append parent name =
     (if parent = [] \<or> last parent = CHR ''/'' then parent @ name else parent @ ''/'' @ name)"

definition validate_path :: "string \<Rightarrow> string \<Rightarrow> string \<Rightarrow> unit res" where
  "validate_path path empty_message nul_message =
     (if path = [] then Inl (Invalid_argument empty_message)
      else if CHR 0x00 \<in> set path then Inl (Invalid_argument nul_message)
      else Inr ())"

section \<open>The file-system calls\<close>

text \<open>
  \<open>mkstemp\<close> answers with a descriptor and the completed template, \<open>stat\<close> and \<open>fstat\<close> with device
  and inode; \<open>Inl\<close> is \<open>errno\<close>.
\<close>

record 'w file_system_calls =
  fs_open_directory :: "string \<Rightarrow> 'w \<Rightarrow> syscall_result \<times> 'w"
  fs_mkstemp :: "string \<Rightarrow> 'w \<Rightarrow> (int + nat \<times> string) \<times> 'w"
  fs_unlink :: "string \<Rightarrow> 'w \<Rightarrow> syscall_result \<times> 'w"
  fs_rename :: "string \<Rightarrow> string \<Rightarrow> 'w \<Rightarrow> syscall_result \<times> 'w"
  fs_fstat :: "int \<Rightarrow> 'w \<Rightarrow> (int + nat \<times> nat) \<times> 'w"
  fs_stat :: "string \<Rightarrow> 'w \<Rightarrow> (int + nat \<times> nat) \<times> 'w"
  fs_close :: "int \<Rightarrow> 'w \<Rightarrow> 'w"

section \<open>AtomicOutputFile\<close>

record atomic_output_file =
  ao_final_path :: string
  ao_temporary_path :: string
  ao_fd :: int
  ao_parent_directory_fd :: int
  ao_committed :: bool

definition atomic_output_new ::
  "'w file_system_calls \<Rightarrow> string \<Rightarrow> 'w \<Rightarrow> atomic_output_file res \<times> 'w" where
  "atomic_output_new fs final_path w =
     (case validate_path final_path ''pipeline output path must not be empty''
             ''pipeline output path must not contain a null byte'' of
        Inl e \<Rightarrow> (Inl e, w)
      | Inr _ \<Rightarrow>
          let filename = path_filename final_path in
          if filename = [] \<or> filename = ''.'' \<or> filename = ''..'' then
            (Inl (Invalid_argument ''pipeline output path must name a file''), w)
          else
            let parent = (if path_parent final_path = [] then ''.'' else path_parent final_path) in
            (case fs_open_directory fs parent w of
               (Sys_failed errno, w1) \<Rightarrow> (Inl (System_error errno ''open pipeline output directory''), w1)
             | (Sys_ok parent_fd, w1) \<Rightarrow>
                 (case fs_mkstemp fs (path_append parent (''.'' @ filename @ ''.tmp.XXXXXX'')) w1 of
                    (Inl errno, w2) \<Rightarrow>
                      (Inl (System_error errno ''create pipeline temporary output''),
                       fs_close fs (int parent_fd) w2)
                  | (Inr (fd, temporary_path), w2) \<Rightarrow>
                      (Inr \<lparr>ao_final_path = final_path, ao_temporary_path = temporary_path,
                            ao_fd = int fd, ao_parent_directory_fd = int parent_fd,
                            ao_committed = False\<rparr>, w2))))"

text \<open>The destructor unlinks an unpublished file; then its guards close the descriptors.\<close>

definition atomic_output_destroy :: "'w file_system_calls \<Rightarrow> atomic_output_file \<Rightarrow> 'w \<Rightarrow> 'w" where
  "atomic_output_destroy fs ao w =
     (let w = (if \<not> ao_committed ao \<and> ao_temporary_path ao \<noteq> []
               then snd (fs_unlink fs (ao_temporary_path ao) w) else w) in
      fs_close fs (ao_fd ao) (fs_close fs (ao_parent_directory_fd ao) w))"

definition atomic_output_commit ::
  "'w posix_calls \<Rightarrow> 'w file_system_calls \<Rightarrow> atomic_output_file \<Rightarrow> 'w \<Rightarrow>
     ((unit res \<times> atomic_output_file) \<times> 'w) option" where
  "atomic_output_commit sys fs ao w =
     (if ao_committed ao then
        Some ((Inl (Logic_error ''pipeline output was already committed''), ao), w)
      else
        (case fsync_fd sys (ao_fd ao) w of
           None \<Rightarrow> None
         | Some (result, w1) \<Rightarrow>
             if fs_error_number result \<noteq> 0 then
               Some ((Inl (System_error (fs_error_number result) ''fsync pipeline temporary output''), ao), w1)
             else
               (case fs_rename fs (ao_temporary_path ao) (ao_final_path ao) w1 of
                  (Sys_failed errno, w2) \<Rightarrow>
                    Some ((Inl (System_error errno ''rename pipeline temporary output''), ao), w2)
                | (Sys_ok _, w2) \<Rightarrow>
                    let ao = ao\<lparr>ao_committed := True\<rparr> in
                    (case fsync_fd sys (ao_parent_directory_fd ao) w2 of
                       None \<Rightarrow> None
                     | Some (result, w3) \<Rightarrow>
                         if fs_error_number result \<noteq> 0 then
                           Some ((Inl (System_error (fs_error_number result)
                                    ''fsync pipeline output directory''), ao), w3)
                         else Some ((Inr (), ao), w3)))))"

definition reject_same_input_and_output ::
  "'w file_system_calls \<Rightarrow> int \<Rightarrow> string \<Rightarrow> 'w \<Rightarrow> unit res \<times> 'w" where
  "reject_same_input_and_output fs input_fd final_output_path w =
     (case fs_fstat fs input_fd w of
        (Inl errno, w1) \<Rightarrow> (Inl (System_error errno ''stat pipeline input''), w1)
      | (Inr input_status, w1) \<Rightarrow>
          (case fs_stat fs final_output_path w1 of
             (Inl errno, w2) \<Rightarrow>
               if errno = ENOENT then (Inr (), w2)
               else (Inl (System_error errno ''stat pipeline output''), w2)
           | (Inr output_status, w2) \<Rightarrow>
               if fst input_status = fst output_status \<and> snd input_status = snd output_status then
                 (Inl (Invalid_argument ''pipeline input and final output must be different files''), w2)
               else (Inr (), w2)))"

section \<open>run and run_file\<close>

text \<open>
  What a run borrows: the allocator, the backend with its world, the operating system, the stages
  and the metrics registry. A schedule decides the interleaving; \<open>None\<close> is a schedule that stops
  before the end, or a system call that never returns.
\<close>

record ('m, 'r, 't, 'w, 'u) run_context =
  rc_allocator :: "'m allocator"
  rc_memory :: 'm
  rc_backend :: "('r, 't) io_backend"
  rc_input :: 'r
  rc_sys :: "'w posix_calls"
  rc_users :: "'u user_stages"
  rc_pipeline :: "'u pipeline"
  rc_registry :: metrics_registry
  rc_schedule :: "(exec_thread \<times> exec_choice) list"

definition run_env ::
  "('m, 'r, 't, 'w, 'u) run_context \<Rightarrow> pipeline_executor \<Rightarrow> int \<Rightarrow> int \<Rightarrow> ('r, 't, 'w, 'u) exec_env" where
  "run_env rc px input_fd output_fd =
     \<lparr>ev_backend = rc_backend rc, ev_sys = rc_sys rc, ev_users = rc_users rc,
      ev_input_fd = input_fd, ev_output_fd = output_fd, ev_metrics = px_metrics px\<rparr>"

definition executor_run ::
  "('m, 'r, 't, 'w, 'u) run_context \<Rightarrow> int \<Rightarrow> int \<Rightarrow> pipeline_executor \<Rightarrow> 'w \<Rightarrow>
     (pipeline_run_result res \<times> pipeline_executor \<times> 'w) option" where
  "executor_run rc input_fd output_fd px w =
     (case run_start (rc_allocator rc) input_fd output_fd (rc_pipeline rc) (rc_registry rc)
             (rc_input rc) w px (rc_memory rc) of
        (Inl e, px', _) \<Rightarrow> Some (Inl e, px', w)
      | (Inr s0, px', _) \<Rightarrow>
          (case run_schedule (run_env rc px input_fd output_fd) (rc_schedule rc) s0 of
             None \<Rightarrow> None
           | Some s \<Rightarrow>
               (case ex_main s of
                  M_done result \<Rightarrow> Some (result, px', ex_out s)
                | _ \<Rightarrow> None)))"

definition run_and_commit ::
  "('m, 'r, 't, 'w, 'u) run_context \<Rightarrow> 'w file_system_calls \<Rightarrow> int \<Rightarrow> atomic_output_file \<Rightarrow>
   pipeline_executor \<Rightarrow> 'w \<Rightarrow> (pipeline_run_result res \<times> pipeline_executor \<times> 'w) option" where
  "run_and_commit rc fs input_fd ao px w =
     (case executor_run rc input_fd (ao_fd ao) px w of
        None \<Rightarrow> None
      | Some (Inl e, px', w1) \<Rightarrow> Some (Inl e, px', atomic_output_destroy fs ao w1)
      | Some (Inr result, px', w1) \<Rightarrow>
          (case atomic_output_commit (rc_sys rc) fs ao w1 of
             None \<Rightarrow> None
           | Some ((committed, ao'), w2) \<Rightarrow>
               Some (case committed of Inl e \<Rightarrow> Inl e | Inr _ \<Rightarrow> Inr result, px',
                     atomic_output_destroy fs ao' w2)))"

definition run_file ::
  "('m, 'r, 't, 'w, 'u) run_context \<Rightarrow> 'w file_system_calls \<Rightarrow> string \<Rightarrow> string \<Rightarrow>
   pipeline_executor \<Rightarrow> 'w \<Rightarrow> (pipeline_run_result res \<times> pipeline_executor \<times> 'w) option" where
  "run_file rc fs input_path final_output_path px w =
     (case validate_path input_path ''pipeline input path must not be empty''
             ''pipeline input path must not contain a null byte'' of
        Inl e \<Rightarrow> Some (Inl e, px, w)
      | Inr _ \<Rightarrow>
     (case validate_path final_output_path ''pipeline output path must not be empty''
             ''pipeline output path must not contain a null byte'' of
        Inl e \<Rightarrow> Some (Inl e, px, w)
      | Inr _ \<Rightarrow>
     (case open_read_only (rc_sys rc) input_path w of (input, w1) \<Rightarrow>
        if of_error_number input \<noteq> 0 then
          Some (Inl (System_error (of_error_number input) ''open pipeline input''), px, w1)
        else
          (case reject_same_input_and_output fs (of_fd input) final_output_path w1 of
             (Inl e, w2) \<Rightarrow> Some (Inl e, px, fs_close fs (of_fd input) w2)
           | (Inr _, w2) \<Rightarrow>
               (case atomic_output_new fs final_output_path w2 of
                  (Inl e, w3) \<Rightarrow> Some (Inl e, px, fs_close fs (of_fd input) w3)
                | (Inr ao, w3) \<Rightarrow>
                    (case run_and_commit rc fs (of_fd input) ao px w3 of
                       None \<Rightarrow> None
                     | Some (result, px', w4) \<Rightarrow>
                         Some (result, px', fs_close fs (of_fd input) w4)))))))"

section \<open>What a run keeps of the output world\<close>

lemma reader_after_read_out: "ex_out (reader_after_read m i off h n s) = ex_out s"
  by (simp add: reader_after_read_def Let_def split: prod.split sum.split)

lemma run_step_out:
  assumes "run_step env t ch s = Some s'"
    and "writes_keep (system_file_io_operations (ev_sys env)) (ev_output_fd env) J" and "J (ex_out s)"
  shows "J (ex_out s')"
proof (cases t)
  case T_main
  with assms(1,3) show ?thesis
    by (cases "ex_main s")
      (auto simp: run_step_def finish_run_def Let_def dest: fail_step_sel split: option.splits prod.splits if_splits)
next
  case T_reader
  with assms(1,3) show ?thesis
    by (cases "ex_reader s")
      (auto simp: run_step_def Let_def reader_after_read_out dest: fail_step_sel
        split: option.splits prod.splits sum.splits push_result.splits)
next
  case T_processor
  with assms(1,3) show ?thesis
    by (cases "ex_processor s")
      (auto simp: run_step_def Let_def dest: fail_step_sel
        split: option.splits prod.splits push_result.splits pop_result.splits)
next
  case T_writer
  with assms(1,3) show ?thesis
    by (cases "ex_writer s")
      (auto simp: run_step_def Let_def writer_after_write_same write_all_at_def write_all_at_with_def
        dest: fail_step_sel intro: write_loop_keeps [OF _ assms(2)]
        split: option.splits prod.splits pop_result.splits)
qed

lemma run_schedule_out:
  "run_schedule env sched s = Some s' \<Longrightarrow>
   writes_keep (system_file_io_operations (ev_sys env)) (ev_output_fd env) J \<Longrightarrow> J (ex_out s) \<Longrightarrow> J (ex_out s')"
proof (induction sched arbitrary: s)
  case (Cons tc sched)
  then show ?case
    by (cases tc) (auto split: option.splits intro: run_step_out)
qed simp

lemma reachable_out:
  assumes "exec_reachable env S s0 s"
    and "writes_keep (system_file_io_operations (ev_sys env)) (ev_output_fd env) J" and "J (ex_out s0)"
  shows "J (ex_out s)"
  using assms(1) by induction (auto intro: assms run_step_out)

lemma executor_run_keeps:
  assumes "executor_run rc ifd ofd px w = Some (r, px', w')"
    and "writes_keep (system_file_io_operations (rc_sys rc)) ofd J" and "J w"
  shows "J w'"
proof (cases "run_start (rc_allocator rc) ifd ofd (rc_pipeline rc) (rc_registry rc) (rc_input rc) w px (rc_memory rc)")
  case (fields sr px1 m1)
  show ?thesis
  proof (cases sr)
    case (Inl e)
    with fields assms(1,3) show ?thesis by (simp add: executor_run_def)
  next
    case (Inr s0)
    with fields assms(1) obtain s where s: "run_schedule (run_env rc px ifd ofd) (rc_schedule rc) s0 = Some s"
      "w' = ex_out s"
      by (auto simp: executor_run_def split: option.splits main_pc.splits)
    have "ex_out s0 = w" using run_start_Inr [OF fields [unfolded Inr]] by (metis exec_state.select_convs(7))
    with s run_schedule_out [OF s(1), of J] assms(2,3) show ?thesis by (simp add: run_env_def)
  qed
qed

section \<open>What the file system promises\<close>

text \<open>
  What a world shows: the directory entry that a path names, the contents behind each entry, and
  for an open file its contents and the entry it is linked under. An entry has one name.
\<close>

record ('w, 'k) fs_view =
  fv_key :: "string \<Rightarrow> 'k"
  fv_entries :: "'w \<Rightarrow> 'k \<Rightarrow> byte list option"
  fv_file :: "'w \<Rightarrow> int \<Rightarrow> byte list option"
  fv_entry :: "'w \<Rightarrow> int \<Rightarrow> 'k option"

definition quiet_calls :: "'w posix_calls \<Rightarrow> 'w file_system_calls \<Rightarrow> ('w, 'k) fs_view \<Rightarrow> bool" where
  "quiet_calls sys fs v \<longleftrightarrow>
     (\<forall>path w. fv_entries v (snd (posix_open sys path O_RDONLY w)) = fv_entries v w) \<and>
     (\<forall>path w. fv_entries v (snd (fs_open_directory fs path w)) = fv_entries v w) \<and>
     (\<forall>fd w. fv_entries v (snd (fs_fstat fs fd w)) = fv_entries v w) \<and>
     (\<forall>path w. fv_entries v (snd (fs_stat fs path w)) = fv_entries v w) \<and>
     (\<forall>fd w. fv_entries v (fs_close fs fd w) = fv_entries v w)"

definition mkstemp_contract :: "'w file_system_calls \<Rightarrow> ('w, 'k) fs_view \<Rightarrow> bool" where
  "mkstemp_contract fs v \<longleftrightarrow>
     (\<forall>template w fd p w'. fs_mkstemp fs template w = (Inr (fd, p), w') \<longrightarrow>
        (\<exists>suffix. p = take (length template - 6) template @ suffix \<and> length suffix = 6 \<and>
           CHR ''/'' \<notin> set suffix) \<and>
        fv_entries v w (fv_key v p) = None \<and>
        fv_entries v w' = (fv_entries v w)(fv_key v p \<mapsto> []) \<and>
        fv_file v w' (int fd) = Some [] \<and> fv_entry v w' (int fd) = Some (fv_key v p)) \<and>
     (\<forall>template w e w'. fs_mkstemp fs template w = (Inl e, w') \<longrightarrow> fv_entries v w' = fv_entries v w)"

definition link_contract :: "'w file_system_calls \<Rightarrow> ('w, 'k) fs_view \<Rightarrow> bool" where
  "link_contract fs v \<longleftrightarrow>
     (\<forall>path w r w'. fs_unlink fs path w = (r, w') \<longrightarrow>
        fv_entries v w' = (case r of Sys_ok _ \<Rightarrow> (fv_entries v w)(fv_key v path := None)
                           | Sys_failed _ \<Rightarrow> fv_entries v w)) \<and>
     (\<forall>old new w r w'. fs_rename fs old new w = (r, w') \<longrightarrow>
        fv_entries v w' = (case r of
            Sys_ok _ \<Rightarrow> (fv_entries v w)(fv_key v old := None, fv_key v new := fv_entries v w (fv_key v old))
          | Sys_failed _ \<Rightarrow> fv_entries v w)) \<and>
     (\<forall>a b. fv_key v a = fv_key v b \<longrightarrow> path_filename a = path_filename b)"

definition data_contract :: "'w posix_calls \<Rightarrow> ('w, 'k) fs_view \<Rightarrow> bool" where
  "data_contract sys v \<longleftrightarrow>
     (\<forall>fd bytes off w r w'. op_write_at (system_file_io_operations sys) fd bytes off w = (r, w') \<longrightarrow>
        fv_entry v w' fd = fv_entry v w fd \<and>
        (case r of
           Sys_failed e \<Rightarrow> e \<noteq> 0 \<and> fv_entries v w' = fv_entries v w \<and> fv_file v w' fd = fv_file v w fd
         | Sys_ok n \<Rightarrow>
             n \<le> length bytes \<and>
             (\<exists>c. fv_file v w fd = Some c \<and>
                (let c' = write_image c (unat off) (take n bytes) in
                 fv_file v w' fd = Some c' \<and>
                 fv_entries v w' = (case fv_entry v w fd of None \<Rightarrow> fv_entries v w
                                    | Some k \<Rightarrow> (fv_entries v w)(k \<mapsto> c')))))) \<and>
     (\<forall>fd w r w'. op_fsync (system_file_io_operations sys) fd w = (r, w') \<longrightarrow>
        fv_entries v w' = fv_entries v w \<and> fv_file v w' = fv_file v w \<and> fv_entry v w' = fv_entry v w)"

definition fs_contract :: "'w posix_calls \<Rightarrow> 'w file_system_calls \<Rightarrow> ('w, 'k) fs_view \<Rightarrow> bool" where
  "fs_contract sys fs v \<longleftrightarrow>
     quiet_calls sys fs v \<and> mkstemp_contract fs v \<and> link_contract fs v \<and> data_contract sys v"

lemma data_contract_pwrite:
  "data_contract sys v \<Longrightarrow>
   pwrite_contract (system_file_io_operations sys) fd (\<lambda>w. case fv_file v w fd of None \<Rightarrow> [] | Some c \<Rightarrow> c)"
  unfolding pwrite_contract_def
proof (intro allI impI)
  fix bytes off w r w'
  assume d: "data_contract sys v" and op: "op_write_at (system_file_io_operations sys) fd bytes off w = (r, w')"
  from d [unfolded data_contract_def, THEN conjunct1, rule_format, OF op]
  show "pwrite_effect (\<lambda>w. case fv_file v w fd of None \<Rightarrow> [] | Some c \<Rightarrow> c) bytes off w r w'"
    by (cases r) (auto simp: Let_def)
qed

section \<open>The temporary file\<close>

text \<open>
  The state of the output between its creation and its publication: \<open>t\<close> is the entry of the
  temporary file, \<open>E\<close> are all other entries.
\<close>

definition temporary_open ::
  "('w, 'k) fs_view \<Rightarrow> int \<Rightarrow> 'k \<Rightarrow> ('k \<Rightarrow> byte list option) \<Rightarrow> 'w \<Rightarrow> bool" where
  "temporary_open v fd t E w \<longleftrightarrow>
     fv_entry v w fd = Some t \<and> fv_file v w fd = fv_entries v w t \<and> fv_entries v w t \<noteq> None \<and>
     (\<forall>q. q \<noteq> t \<longrightarrow> fv_entries v w q = E q)"

lemma temporary_writes:
  assumes "data_contract sys v"
  shows "writes_keep (system_file_io_operations sys) fd (temporary_open v fd t E)"
  unfolding writes_keep_def
proof (intro allI impI)
  fix bytes off w r w'
  assume op: "op_write_at (system_file_io_operations sys) fd bytes off w = (r, w')"
    and t: "temporary_open v fd t E w"
  from assms [unfolded data_contract_def, THEN conjunct1, rule_format, OF op] t
  show "temporary_open v fd t E w'"
    by (cases r) (auto simp: temporary_open_def Let_def)
qed

lemma fsync_unchanged:
  assumes "data_contract sys v" and "fsync_fd sys fd w = Some (r, w')"
  shows "fv_entries v w' = fv_entries v w \<and> fv_file v w' = fv_file v w \<and> fv_entry v w' = fv_entry v w"
proof -
  let ?J = "\<lambda>u. fv_entries v u = fv_entries v w \<and> fv_file v u = fv_file v w \<and> fv_entry v u = fv_entry v w"
  have "fsync_keeps (system_file_io_operations sys) fd ?J"
    using assms(1) unfolding fsync_keeps_def data_contract_def by metis
  from fsync_fd_keeps [OF assms(2) this] show ?thesis by simp
qed

lemma path_filename_append:
  "CHR ''/'' \<notin> set name \<Longrightarrow> name \<noteq> [] \<Longrightarrow> path_filename (path_append parent name) = name"
proof -
  assume n: "CHR ''/'' \<notin> set name"
  have tw: "takeWhile (\<lambda>c. c \<noteq> CHR ''/'') (rev name) = rev name"
    using n by (auto simp: takeWhile_eq_all_conv)
  have "takeWhile (\<lambda>c. c \<noteq> CHR ''/'') (rev name @ xs) = rev name" if "xs = [] \<or> hd xs = CHR ''/''" for xs
    using n that by (cases xs) (simp_all add: takeWhile_append tw)
  then show ?thesis
    using n by (cases parent rule: rev_cases) (auto simp: path_filename_def path_append_def tw)
qed

lemma no_separator: "CHR ''/'' \<notin> set (path_filename path)"
  by (auto simp: path_filename_def dest: set_takeWhileD)

lemma atomic_output_new_Inl:
  assumes "quiet_calls sys fs v" and "mkstemp_contract fs v" and "atomic_output_new fs final w = (Inl e, w')"
  shows "fv_entries v w' = fv_entries v w"
proof -
  have od: "fs_open_directory fs p w = (r, u) \<Longrightarrow> fv_entries v u = fv_entries v w" for p r u
    using assms(1) unfolding quiet_calls_def by (metis snd_conv)
  have mk: "fs_mkstemp fs p u = (Inl x, u') \<Longrightarrow> fv_entries v u' = fv_entries v u" for p u x u'
    using assms(2) unfolding mkstemp_contract_def by blast
  show ?thesis
    using assms(3) assms(1) [unfolded quiet_calls_def]
    by (auto simp: atomic_output_new_def Let_def dest!: od mk
        split: sum.splits if_splits prod.splits syscall_result.splits)
qed

lemma atomic_output_new_Inr:
  assumes "quiet_calls sys fs v" and "mkstemp_contract fs v" and "link_contract fs v"
    and "atomic_output_new fs final w = (Inr ao, w')"
  defines "t \<equiv> fv_key v (ao_temporary_path ao)"
  shows "t \<noteq> fv_key v final" and "fv_entries v w t = None" and "temporary_open v (ao_fd ao) t (fv_entries v w) w'"
    and "ao_final_path ao = final" and "\<not> ao_committed ao" and "ao_temporary_path ao \<noteq> []"
    and "fv_file v w' (ao_fd ao) = Some []"
proof -
  let ?name = "path_filename final" and ?parent = "if path_parent final = [] then ''.'' else path_parent final"
  let ?file = "''.'' @ ?name @ ''.tmp.''"
  let ?template = "path_append ?parent (''.'' @ ?name @ ''.tmp.XXXXXX'')"
  from assms(4) obtain u pfd fd p where
    od: "fs_open_directory fs ?parent w = (Sys_ok pfd, u)"
    and mk: "fs_mkstemp fs ?template u = (Inr (fd, p), w')"
    and ao: "ao = \<lparr>ao_final_path = final, ao_temporary_path = p, ao_fd = int fd,
        ao_parent_directory_fd = int pfd, ao_committed = False\<rparr>"
    by (auto simp: atomic_output_new_def Let_def split: sum.splits if_splits prod.splits syscall_result.splits)
  have u: "fv_entries v u = fv_entries v w"
    using assms(1) od unfolding quiet_calls_def by (metis snd_conv)
  from assms(2) [unfolded mkstemp_contract_def, THEN conjunct1, rule_format, OF mk] obtain suffix where
    p: "p = take (length ?template - 6) ?template @ suffix" "length suffix = 6" "CHR ''/'' \<notin> set suffix"
    and fresh: "fv_entries v u (fv_key v p) = None" "fv_entries v w' = (fv_entries v u)(fv_key v p \<mapsto> [])"
    and fd: "fv_file v w' (int fd) = Some []" "fv_entry v w' (int fd) = Some (fv_key v p)" by blast
  have "?template = path_append ?parent ?file @ ''XXXXXX''"
    by (simp add: path_append_def)
  then have "take (length ?template - 6) ?template = path_append ?parent ?file"
    by (simp only: length_append) simp
  then have pp: "p = path_append ?parent (?file @ suffix)"
    using p(1) by (simp add: path_append_def)
  have "CHR ''/'' \<notin> set (?file @ suffix)" using p(3) no_separator [of final] by simp
  then have "path_filename p = ?file @ suffix" unfolding pp by (rule path_filename_append) simp
  then have "length (path_filename p) \<noteq> length ?name" by simp
  then have "path_filename p \<noteq> path_filename final" by metis
  moreover have "fv_key v p = fv_key v final \<Longrightarrow> path_filename p = path_filename final"
    using assms(3) unfolding link_contract_def by blast
  ultimately show "t \<noteq> fv_key v final" by (auto simp: t_def ao)
  show "fv_entries v w t = None" using fresh(1) u by (simp add: t_def ao)
  show "temporary_open v (ao_fd ao) t (fv_entries v w) w'"
    using fresh(2) fd u by (simp add: temporary_open_def t_def ao)
  show "ao_temporary_path ao \<noteq> []" unfolding ao pp by (simp add: path_append_def)
  show "ao_final_path ao = final" "\<not> ao_committed ao" "fv_file v w' (ao_fd ao) = Some []"
    using fd(1) by (simp_all add: ao)
qed

section \<open>Commit and destruction\<close>

text \<open>The output is published: the final entry has the file, the temporary one is gone.\<close>

definition published ::
  "('w, 'k) fs_view \<Rightarrow> 'k \<Rightarrow> 'k \<Rightarrow> ('k \<Rightarrow> byte list option) \<Rightarrow> byte list option \<Rightarrow> 'w \<Rightarrow> bool" where
  "published v k t E c w \<longleftrightarrow>
     fv_entries v w t = None \<and> fv_entries v w k = c \<and> (\<forall>q. q \<noteq> k \<longrightarrow> q \<noteq> t \<longrightarrow> fv_entries v w q = E q)"

abbreviation (input) directory_fsync_error :: "int \<Rightarrow> exn" where
  "directory_fsync_error errno \<equiv> System_error errno ''fsync pipeline output directory''"

lemma commit_outcome:
  assumes data: "data_contract sys v" and link: "link_contract fs v"
    and open_tmp: "temporary_open v (ao_fd ao) t E w" and t: "t = fv_key v (ao_temporary_path ao)"
    and k: "k = fv_key v (ao_final_path ao)" "t \<noteq> k" and nc: "\<not> ao_committed ao"
    and commit: "atomic_output_commit sys fs ao w = Some ((r, ao'), w')"
  shows "(ao' = ao \<and> fv_entries v w' = fv_entries v w \<and> (\<exists>e. r = Inl e)) \<or>
    (ao_committed ao' \<and> ao_temporary_path ao' = ao_temporary_path ao \<and>
     published v k t E (fv_file v w (ao_fd ao)) w' \<and> (r = Inr () \<or> (\<exists>errno. r = Inl (directory_fsync_error errno))))"
proof -
  from commit nc obtain res w1 where f1: "fsync_fd sys (ao_fd ao) w = Some (res, w1)"
    by (auto simp: atomic_output_commit_def split: option.splits)
  note same1 = fsync_unchanged [OF data f1]
  show ?thesis
  proof (cases "fs_error_number res = 0")
    case False
    with commit nc f1 same1 show ?thesis by (auto simp: atomic_output_commit_def)
  next
    case True
    obtain rn w2 where ren: "fs_rename fs (ao_temporary_path ao) (ao_final_path ao) w1 = (rn, w2)"
      by (cases "fs_rename fs (ao_temporary_path ao) (ao_final_path ao) w1")
    have law: "fv_entries v w2 = (case rn of
            Sys_ok _ \<Rightarrow> (fv_entries v w1)(t := None, k := fv_entries v w1 t)
          | Sys_failed _ \<Rightarrow> fv_entries v w1)"
      using link ren unfolding link_contract_def t k(1) by blast
    show ?thesis
    proof (cases rn)
      case (Sys_failed e)
      with commit nc f1 True ren law same1 show ?thesis by (auto simp: atomic_output_commit_def)
    next
      case (Sys_ok n)
      have pub: "published v k t E (fv_file v w (ao_fd ao)) w2"
        using law Sys_ok same1 open_tmp k(2) by (auto simp: published_def temporary_open_def)
      from commit nc f1 True ren Sys_ok obtain res2 where
        f2: "fsync_fd sys (ao_parent_directory_fd ao) w2 = Some (res2, w')"
        by (auto simp: atomic_output_commit_def Let_def split: option.splits if_splits)
      have "published v k t E (fv_file v w (ao_fd ao)) w'"
        using pub fsync_unchanged [OF data f2] by (simp add: published_def)
      with commit nc f1 True ren Sys_ok f2 show ?thesis
        by (auto simp: atomic_output_commit_def Let_def split: if_splits)
    qed
  qed
qed

lemma destroy_committed:
  "quiet_calls sys fs v \<Longrightarrow> ao_committed ao \<Longrightarrow>
   fv_entries v (atomic_output_destroy fs ao w) = fv_entries v w"
  by (simp add: atomic_output_destroy_def quiet_calls_def)

lemma destroy_uncommitted:
  assumes "quiet_calls sys fs v" and "link_contract fs v" and "\<not> ao_committed ao" and "ao_temporary_path ao \<noteq> []"
  shows "fv_entries v (atomic_output_destroy fs ao w) =
    (case fst (fs_unlink fs (ao_temporary_path ao) w) of
       Sys_ok _ \<Rightarrow> (fv_entries v w)(fv_key v (ao_temporary_path ao) := None)
     | Sys_failed _ \<Rightarrow> fv_entries v w)"
proof -
  obtain r u where un: "fs_unlink fs (ao_temporary_path ao) w = (r, u)"
    by (cases "fs_unlink fs (ao_temporary_path ao) w")
  have "fv_entries v u = (case r of Sys_ok _ \<Rightarrow> (fv_entries v w)(fv_key v (ao_temporary_path ao) := None)
     | Sys_failed _ \<Rightarrow> fv_entries v w)"
    using assms(2) un unfolding link_contract_def by blast
  with assms(1,3,4) un show ?thesis by (simp add: atomic_output_destroy_def quiet_calls_def)
qed

text \<open>The outcome of a run with its commit: unpublished with the temporary removed, or published.\<close>

definition withdrawn ::
  "'w file_system_calls \<Rightarrow> ('w, 'k) fs_view \<Rightarrow> 'k \<Rightarrow> ('k \<Rightarrow> byte list option) \<Rightarrow> 'w \<Rightarrow> bool" where
  "withdrawn fs v t E w \<longleftrightarrow>
     (\<forall>q. q \<noteq> t \<longrightarrow> fv_entries v w q = E q) \<and>
     ((\<forall>path u. \<exists>n. fst (fs_unlink fs path u) = Sys_ok n) \<longrightarrow> fv_entries v w t = None)"

lemma withdraw:
  assumes "quiet_calls sys fs v" and "link_contract fs v" and "\<not> ao_committed ao"
    and "ao_temporary_path ao \<noteq> []" and "\<forall>q. q \<noteq> fv_key v (ao_temporary_path ao) \<longrightarrow> fv_entries v w q = E q"
  shows "withdrawn fs v (fv_key v (ao_temporary_path ao)) E (atomic_output_destroy fs ao w)"
  unfolding withdrawn_def destroy_uncommitted [OF assms(1-4)]
proof (intro conjI impI)
  show "\<forall>q. q \<noteq> fv_key v (ao_temporary_path ao) \<longrightarrow>
      (case fst (fs_unlink fs (ao_temporary_path ao) w) of
         Sys_ok _ \<Rightarrow> (fv_entries v w)(fv_key v (ao_temporary_path ao) := None)
       | Sys_failed _ \<Rightarrow> fv_entries v w) q = E q"
    using assms(5) by (cases "fst (fs_unlink fs (ao_temporary_path ao) w)") simp_all
  assume "\<forall>path u. \<exists>n. fst (fs_unlink fs path u) = Sys_ok n"
  then obtain n where "fst (fs_unlink fs (ao_temporary_path ao) w) = Sys_ok n" by blast
  then show "(case fst (fs_unlink fs (ao_temporary_path ao) w) of
         Sys_ok _ \<Rightarrow> (fv_entries v w)(fv_key v (ao_temporary_path ao) := None)
       | Sys_failed _ \<Rightarrow> fv_entries v w) (fv_key v (ao_temporary_path ao)) = None" by simp
qed

lemma run_and_commit_outcome:
  assumes c: "fs_contract (rc_sys rc) fs v"
    and open_tmp: "temporary_open v (ao_fd ao) t E w" and t: "t = fv_key v (ao_temporary_path ao)"
    and k: "k = fv_key v (ao_final_path ao)" "t \<noteq> k" and ao: "\<not> ao_committed ao" "ao_temporary_path ao \<noteq> []"
    and run: "run_and_commit rc fs ifd ao px w = Some (r, px', w')"
  shows "((\<exists>e. r = Inl e) \<and> withdrawn fs v t E w') \<or>
    (\<exists>result w1. executor_run rc ifd (ao_fd ao) px w = Some (Inr result, px', w1) \<and>
       published v k t E (fv_file v w1 (ao_fd ao)) w' \<and>
       (r = Inr result \<or> (\<exists>errno. r = Inl (directory_fsync_error errno))))"
proof -
  have q: "quiet_calls (rc_sys rc) fs v" and l: "link_contract fs v" and d: "data_contract (rc_sys rc) v"
    using c by (simp_all add: fs_contract_def)
  from run obtain r1 px1 w1 where ex: "executor_run rc ifd (ao_fd ao) px w = Some (r1, px1, w1)"
    by (auto simp: run_and_commit_def split: option.splits)
  have open1: "temporary_open v (ao_fd ao) t E w1"
    by (rule executor_run_keeps [OF ex temporary_writes [OF d] open_tmp])
  show ?thesis
  proof (cases r1)
    case (Inl e)
    with run ex have "r = Inl e" "w' = atomic_output_destroy fs ao w1" by (simp_all add: run_and_commit_def)
    with withdraw [OF q l ao] open1 show ?thesis by (auto simp: temporary_open_def t)
  next
    case (Inr result)
    with run ex obtain cr ao' w2 where cm: "atomic_output_commit (rc_sys rc) fs ao w1 = Some ((cr, ao'), w2)"
      and r: "r = (case cr of Inl e \<Rightarrow> Inl e | Inr _ \<Rightarrow> Inr result)" "px' = px1"
      and w': "w' = atomic_output_destroy fs ao' w2"
      by (auto simp: run_and_commit_def split: option.splits)
    from commit_outcome [OF d l open1 t k ao(1) cm] show ?thesis
    proof (elim disjE conjE exE)
      fix e
      assume o: "ao' = ao" "fv_entries v w2 = fv_entries v w1" "cr = Inl e"
      then have "\<forall>q. q \<noteq> fv_key v (ao_temporary_path ao) \<longrightarrow> fv_entries v w2 q = E q"
        using open1 by (simp add: temporary_open_def t)
      from withdraw [OF q l ao this] show ?thesis using o r by (simp add: w' t)
    next
      assume "ao_committed ao'" "published v k t E (fv_file v w1 (ao_fd ao)) w2" "cr = Inr ()"
      then show ?thesis using ex Inr r destroy_committed [OF q, of ao' w2] by (auto simp: w' published_def)
    next
      fix errno
      assume "ao_committed ao'" "published v k t E (fv_file v w1 (ao_fd ao)) w2"
        "cr = Inl (directory_fsync_error errno)"
      then show ?thesis using ex Inr r destroy_committed [OF q, of ao' w2] by (auto simp: w' published_def)
    qed
  qed
qed

lemma quiet_open:
  "quiet_calls sys fs v \<Longrightarrow> open_read_only sys path w = (res, w') \<Longrightarrow> fv_entries v w' = fv_entries v w"
  unfolding quiet_calls_def
  by (auto simp: open_read_only_def open_read_only_with_def system_file_io_operations_def
      system_open_read_only_def split: prod.splits syscall_result.splits) (metis snd_conv)+

lemma quiet_reject:
  "quiet_calls sys fs v \<Longrightarrow> reject_same_input_and_output fs fd path w = (r, w') \<Longrightarrow>
   fv_entries v w' = fv_entries v w"
  unfolding quiet_calls_def
  by (auto simp: reject_same_input_and_output_def split: prod.splits sum.splits if_splits) (metis snd_conv)+

lemma quiet_close: "quiet_calls sys fs v \<Longrightarrow> fv_entries v (fs_close fs fd w) = fv_entries v w"
  by (simp add: quiet_calls_def)

lemma run_file_outcome:
  assumes c: "fs_contract (rc_sys rc) fs v"
    and run: "run_file rc fs input_path final_path px w = Some (r, px', w')"
  shows "((\<exists>e. r = Inl e) \<and> fv_entries v w' = fv_entries v w) \<or>
    (\<exists>t. t \<noteq> fv_key v final_path \<and> fv_entries v w t = None \<and>
       (((\<exists>e. r = Inl e) \<and> withdrawn fs v t (fv_entries v w) w') \<or>
        (\<exists>result (ao :: atomic_output_file) w0 w1.
           executor_run rc (of_fd (fst (open_read_only (rc_sys rc) input_path w))) (ao_fd ao) px w0
             = Some (Inr result, px', w1) \<and>
           fv_file v w0 (ao_fd ao) = Some [] \<and>
           published v (fv_key v final_path) t (fv_entries v w) (fv_file v w1 (ao_fd ao)) w' \<and>
           (r = Inr result \<or> (\<exists>errno. r = Inl (directory_fsync_error errno))))))"
proof -
  have q: "quiet_calls (rc_sys rc) fs v" and l: "link_contract fs v" and m: "mkstemp_contract fs v"
    using c by (simp_all add: fs_contract_def)
  obtain input w1 where op: "open_read_only (rc_sys rc) input_path w = (input, w1)"
    by (cases "open_read_only (rc_sys rc) input_path w")
  note e1 = quiet_open [OF q op] and cl = quiet_close [OF q]
  obtain rj w2 where rj: "reject_same_input_and_output fs (of_fd input) final_path w1 = (rj, w2)"
    by (cases "reject_same_input_and_output fs (of_fd input) final_path w1")
  note e2 = quiet_reject [OF q rj]
  obtain na w3 where na: "atomic_output_new fs final_path w2 = (na, w3)"
    by (cases "atomic_output_new fs final_path w2")
  show ?thesis
  proof (cases "(\<exists>ao. na = Inr ao) \<and> rj = Inr () \<and> of_error_number input = 0 \<and>
      validate_path input_path ''pipeline input path must not be empty''
        ''pipeline input path must not contain a null byte'' = Inr () \<and>
      validate_path final_path ''pipeline output path must not be empty''
        ''pipeline output path must not contain a null byte'' = Inr ()")
    case False
    have "\<And>e. na = Inl e \<Longrightarrow> fv_entries v w3 = fv_entries v w2"
      using atomic_output_new_Inl [OF q m] na by blast
    with run False op rj na e1 e2 have "(\<exists>e. r = Inl e) \<and> fv_entries v w' = fv_entries v w"
      by (auto simp: run_file_def cl split: sum.splits if_splits option.splits)
    then show ?thesis by blast
  next
    case True
    then obtain ao where ao: "na = Inr ao" by blast
    note new = atomic_output_new_Inr [OF q m l na [unfolded ao]]
    from run True op rj na ao obtain w4 where
      rac: "run_and_commit rc fs (of_fd input) ao px w3 = Some (r, px', w4)"
      and w': "w' = fs_close fs (of_fd input) w4"
      by (auto simp: run_file_def split: option.splits)
    let ?t = "fv_key v (ao_temporary_path ao)" and ?k = "fv_key v final_path"
    have E: "fv_entries v w2 = fv_entries v w" using e1 e2 by simp
    have close: "withdrawn fs v t F w4 \<Longrightarrow> withdrawn fs v t F w'"
      "published v k t F x w4 \<Longrightarrow> published v k t F x w'" for t k F x
      by (simp_all add: w' withdrawn_def published_def cl)
    have "?k = fv_key v (ao_final_path ao)" using new(4) by simp
    from run_and_commit_outcome [OF c new(3) [unfolded E] refl this new(1) new(5,6) rac]
    have out: "((\<exists>e. r = Inl e) \<and> withdrawn fs v ?t (fv_entries v w) w') \<or>
        (\<exists>result w1. executor_run rc (of_fd input) (ao_fd ao) px w3 = Some (Inr result, px', w1) \<and>
           published v ?k ?t (fv_entries v w) (fv_file v w1 (ao_fd ao)) w' \<and>
           (r = Inr result \<or> (\<exists>errno. r = Inl (directory_fsync_error errno))))"
      using close by blast
    have fresh: "?t \<noteq> ?k" "fv_entries v w ?t = None" and opened: "fv_file v w3 (ao_fd ao) = Some []"
      using new E by simp_all
    have fd: "of_fd (fst (open_read_only (rc_sys rc) input_path w)) = of_fd input" using op by simp
    from out show ?thesis
    proof
      assume "(\<exists>e. r = Inl e) \<and> withdrawn fs v ?t (fv_entries v w) w'"
      with fresh show ?thesis by blast
    next
      assume "\<exists>result w1. executor_run rc (of_fd input) (ao_fd ao) px w3 = Some (Inr result, px', w1) \<and>
           published v ?k ?t (fv_entries v w) (fv_file v w1 (ao_fd ao)) w' \<and>
           (r = Inr result \<or> (\<exists>errno. r = Inl (directory_fsync_error errno)))"
      then obtain result w1 where o: "executor_run rc (of_fd input) (ao_fd ao) px w3 = Some (Inr result, px', w1)"
        "published v ?k ?t (fv_entries v w) (fv_file v w1 (ao_fd ao)) w'"
        "r = Inr result \<or> (\<exists>errno. r = Inl (directory_fsync_error errno))" by blast
      show ?thesis unfolding fd
        using fresh o opened by blast
    qed
  qed
qed

lemma withdrawn_entries:
  assumes "withdrawn fs v t E w" and "E t = None"
  shows "E q \<noteq> None \<Longrightarrow> fv_entries v w q = E q"
    and "\<forall>path u. \<exists>n. fst (fs_unlink fs path u) = Sys_ok n \<Longrightarrow> fv_entries v w q = E q"
  using assms by (cases "q = t"; simp add: withdrawn_def)+

lemma executor_run_file_open:
  assumes "data_contract (rc_sys rc) v" and "executor_run rc ifd fd px w = Some (r, px', w')"
    and "fv_file v w fd \<noteq> None"
  shows "fv_file v w' fd \<noteq> None"
proof -
  have "writes_keep (system_file_io_operations (rc_sys rc)) fd (\<lambda>u. fv_file v u fd \<noteq> None)"
    unfolding writes_keep_def
  proof (intro allI impI)
    fix bytes off u x u'
    assume op: "op_write_at (system_file_io_operations (rc_sys rc)) fd bytes off u = (x, u')"
      and some: "fv_file v u fd \<noteq> None"
    from assms(1) [unfolded data_contract_def, THEN conjunct1, rule_format, OF op] some
    show "fv_file v u' fd \<noteq> None" by (cases x) (auto simp: Let_def)
  qed
  from executor_run_keeps [OF assms(2) this assms(3)] show ?thesis .
qed

section \<open>A small file system\<close>

text \<open>
  One directory of named files: an open descriptor refers to a name, \<open>mkstemp\<close> fills its template in
  one way only, and the input is served by \<open>SyncBackend\<close> from a world of its own.
\<close>

record disk =
  dk_entries :: "string \<Rightarrow> byte list option"
  dk_open :: "int \<Rightarrow> string option"

definition disk_file :: "disk \<Rightarrow> int \<Rightarrow> byte list option" where
  "disk_file d fd = (case dk_open d fd of None \<Rightarrow> None | Some name \<Rightarrow> dk_entries d name)"

definition disk_view :: "(disk, string) fs_view" where
  "disk_view = \<lparr>fv_key = path_filename, fv_entries = dk_entries, fv_file = disk_file, fv_entry = dk_open\<rparr>"

definition disk_pwrite :: "int \<Rightarrow> byte list \<Rightarrow> int \<Rightarrow> disk \<Rightarrow> syscall_result \<times> disk" where
  "disk_pwrite fd bytes off d =
     (case (dk_open d fd, disk_file d fd) of
        (Some name, Some c) \<Rightarrow>
          if off < 0 then (Sys_failed 22, d)
          else (Sys_ok (length bytes),
                d\<lparr>dk_entries := (dk_entries d)(name \<mapsto> write_image c (nat off) bytes)\<rparr>)
      | _ \<Rightarrow> (Sys_failed 9, d))"

definition disk_posix :: "disk posix_calls" where
  "disk_posix =
     \<lparr>posix_open = (\<lambda>path flags d. case dk_entries d (path_filename path) of
        None \<Rightarrow> (Sys_failed ENOENT, d)
      | Some c \<Rightarrow> (Sys_ok 3, d\<lparr>dk_open := (dk_open d)(3 \<mapsto> path_filename path)\<rparr>)),
      posix_pread = (\<lambda>fd n off d. case disk_file d fd of
        None \<Rightarrow> (Read_failed 9, d)
      | Some c \<Rightarrow> if off < 0 then (Read_failed 22, d) else (Read_bytes (read_slice c (nat off) n), d)),
      posix_pwrite = disk_pwrite,
      posix_fsync = (\<lambda>fd d. (Sys_ok 0, d))\<rparr>"

definition disk_mkstemp :: "string \<Rightarrow> disk \<Rightarrow> (int + nat \<times> string) \<times> disk" where
  "disk_mkstemp template d =
     (let path = take (length template - 6) template @ ''aaaaaa''; name = path_filename path in
      if dk_entries d name = None
      then (Inr (4, path), d\<lparr>dk_entries := (dk_entries d)(name \<mapsto> []), dk_open := (dk_open d)(4 \<mapsto> name)\<rparr>)
      else (Inl 17, d))"

definition disk_calls :: "disk file_system_calls" where
  "disk_calls =
     \<lparr>fs_open_directory = (\<lambda>path d. (Sys_ok 5, d)),
      fs_mkstemp = disk_mkstemp,
      fs_unlink = (\<lambda>path d. (Sys_ok 0, d\<lparr>dk_entries := (dk_entries d)(path_filename path := None)\<rparr>)),
      fs_rename = (\<lambda>old new d. (Sys_ok 0, d\<lparr>dk_entries :=
        (dk_entries d)(path_filename old := None, path_filename new := dk_entries d (path_filename old))\<rparr>)),
      fs_fstat = (\<lambda>fd d. (Inr (1, nat fd), d)),
      fs_stat = (\<lambda>path d. (case dk_entries d (path_filename path) of None \<Rightarrow> Inl ENOENT | Some _ \<Rightarrow> Inr (1, 0), d)),
      fs_close = (\<lambda>fd d. d\<lparr>dk_open := (dk_open d)(fd := None)\<rparr>)\<rparr>"

definition example_disk :: disk where
  "example_disk = \<lparr>dk_entries = [''in'' \<mapsto> [1, 2, 255], ''out'' \<mapsto> [9]], dk_open = \<lambda>_. None\<rparr>"

definition disk_context ::
  "(nat, byte list, (sync_frame, read_value) task, disk, nat) run_context" where
  "disk_context =
     \<lparr>rc_allocator = bump_allocator, rc_memory = 0, rc_backend = sync_backend plain_posix,
      rc_input = [1, 2, 255], rc_sys = disk_posix, rc_users = throwing_stages,
      rc_pipeline = increment_pipeline, rc_registry = registry_new, rc_schedule = example_schedule\<rparr>"

lemma disk_ops:
  "op_read_at (system_file_io_operations disk_posix) = (\<lambda>fd n off. posix_pread disk_posix fd n (sint off))"
  "op_write_at (system_file_io_operations disk_posix) = (\<lambda>fd bs off. disk_pwrite fd bs (sint off))"
  "op_fsync (system_file_io_operations disk_posix) = (\<lambda>fd d. (Sys_ok 0, d))"
  by (simp_all add: fun_eq_iff system_file_io_operations_def system_read_at_def system_write_at_def
      system_fsync_def disk_posix_def)

lemma nat_sint: "\<not> sint (off :: u64) < 0 \<Longrightarrow> nat (sint off) = unat off"
proof -
  assume "\<not> sint off < 0"
  then have "take_bit 64 (sint off) = sint off"
    using sint_lt [of off] by (intro take_bit_int_eq_self) simp_all
  then show ?thesis using uint_sint [of off] by (simp add: unat_eq_nat_uint)
qed

lemma disk_contract: "fs_contract disk_posix disk_calls disk_view"
proof -
  have "quiet_calls disk_posix disk_calls disk_view"
    by (simp add: quiet_calls_def disk_posix_def disk_calls_def disk_view_def split: option.split)
  moreover have "mkstemp_contract disk_calls disk_view"
    by (auto simp: mkstemp_contract_def disk_calls_def disk_view_def disk_mkstemp_def disk_file_def Let_def
        split: if_splits)
  moreover have "link_contract disk_calls disk_view"
    by (auto simp: link_contract_def disk_calls_def disk_view_def)
  moreover have "data_contract disk_posix disk_view"
    unfolding data_contract_def disk_ops
    by (auto simp: disk_view_def disk_pwrite_def disk_file_def Let_def nat_sint split: option.splits if_splits)
  ultimately show ?thesis by (simp add: fs_contract_def)
qed

lemma disk_interrupts: "interrupts_bounded (system_file_io_operations disk_posix) (\<lambda>_. 0)"
  unfolding interrupts_bounded_def disk_ops
  by (auto simp: disk_posix_def disk_pwrite_def split: option.splits if_splits)

lemma disk_reads: "reads_file (run_env disk_context px fd output_fd) (\<lambda>w. w)"
  by (rule sync_reads_file [of _ plain_posix]) (simp_all add: run_env_def disk_context_def plain_posix_serves)

definition disk_opened :: disk where
  "disk_opened = \<lparr>dk_entries = [''in'' \<mapsto> [1, 2, 255], ''out'' \<mapsto> [9], ''.out.tmp.aaaaaa'' \<mapsto> []],
     dk_open = [3 \<mapsto> ''in'', 4 \<mapsto> ''.out.tmp.aaaaaa'']\<rparr>"

lemma disk_schedule:
  "map_option (\<lambda>s. (ex_main s, dk_entries (ex_out s) ''.out.tmp.aaaaaa''))
     (run_schedule (run_env disk_context example_executor 3 4) example_schedule (small_start increment_pipeline [1, 2, 255] disk_opened)) =
   Some (M_done (Inr \<lparr>prr_blocks_written = 1, prr_bytes_written = 3\<rparr>), Some [2, 3, 0])"
  by code_simp

lemma disk_open_input:
  "open_read_only disk_posix ''in'' example_disk =
     (\<lparr>of_fd = 3, of_error_number = 0\<rparr>, example_disk\<lparr>dk_open := [3 \<mapsto> ''in'']\<rparr>)"
  by (simp add: open_read_only_def open_read_only_with_def system_file_io_operations_def
      system_open_read_only_def disk_posix_def example_disk_def path_filename_def)

definition disk_written :: disk where
  "disk_written =
     ex_out (the (run_schedule (run_env disk_context example_executor 3 4) example_schedule (small_start increment_pipeline [1, 2, 255] disk_opened)))"

lemma disk_executor_run:
  "executor_run disk_context 3 4 example_executor disk_opened =
     Some (Inr \<lparr>prr_blocks_written = 1, prr_bytes_written = 3\<rparr>, example_executor\<lparr>px_started := True\<rparr>, disk_written)"
proof -
  from disk_schedule obtain s where
    s: "run_schedule (run_env disk_context example_executor 3 4) example_schedule (small_start increment_pipeline [1, 2, 255] disk_opened) = Some s"
      "ex_main s = M_done (Inr \<lparr>prr_blocks_written = 1, prr_bytes_written = 3\<rparr>)" by auto
  have "rc_allocator disk_context = bump_allocator" "rc_memory disk_context = 0"
    "rc_input disk_context = [1, 2, 255]" "rc_pipeline disk_context = increment_pipeline"
    "rc_registry disk_context = registry_new" "rc_schedule disk_context = example_schedule"
    by (simp_all add: disk_context_def)
  then show ?thesis
    using s increment_run_start [of "[1, 2, 255] :: byte list" disk_opened] by (simp add: executor_run_def disk_written_def)
qed

lemma disk_temporary:
  "atomic_output_new disk_calls ''out'' (example_disk\<lparr>dk_open := [3 \<mapsto> ''in'']\<rparr>) =
     (Inr \<lparr>ao_final_path = ''out'', ao_temporary_path = ''./.out.tmp.aaaaaa'', ao_fd = 4,
           ao_parent_directory_fd = 5, ao_committed = False\<rparr>, disk_opened)"
  by (simp add: atomic_output_new_def validate_path_def disk_calls_def disk_mkstemp_def path_filename_def
      path_parent_def path_append_def example_disk_def disk_opened_def Let_def)

lemma disk_fsync: "fsync_fd disk_posix fd w = Some (\<lparr>fs_error_number = 0\<rparr>, w)"
  by (simp add: fsync_fd_def fsync_fd_with_def retry_fsync.simps disk_ops)

definition disk_end :: disk where
  "disk_end = snd (snd (the (run_file disk_context disk_calls ''in'' ''out'' example_executor example_disk)))"

lemma disk_run:
  "run_file disk_context disk_calls ''in'' ''out'' example_executor example_disk =
   Some (Inr \<lparr>prr_blocks_written = 1, prr_bytes_written = 3\<rparr>, example_executor\<lparr>px_started := True\<rparr>, disk_end)"
proof -
  have sys: "rc_sys disk_context = disk_posix" by (simp add: disk_context_def)
  have rej: "reject_same_input_and_output disk_calls 3 ''out'' d = (Inr (), d)" for d
    by (simp add: reject_same_input_and_output_def disk_calls_def split: option.split)
  have rename: "fs_rename disk_calls a b d = (Sys_ok 0, snd (fs_rename disk_calls a b d))" for a b d
    by (simp add: disk_calls_def)
  have "\<exists>d. run_file disk_context disk_calls ''in'' ''out'' example_executor example_disk =
   Some (Inr \<lparr>prr_blocks_written = 1, prr_bytes_written = 3\<rparr>, example_executor\<lparr>px_started := True\<rparr>, d)"
    unfolding run_file_def sys disk_open_input
    by (simp add: validate_path_def rej disk_temporary run_and_commit_def disk_executor_run sys
        atomic_output_commit_def disk_fsync) (subst rename, simp add: Let_def disk_fsync)
  then show ?thesis by (auto simp: disk_end_def)
qed

section \<open>Properties\<close>

text \<open>
  C9: \<open>run_file\<close> publishes atomically. Whatever fails (a bad path, opening, the temporary file, the
  run itself under any interleaving, an fsync, the rename), every directory entry that existed
  before is untouched, except that the final entry may be the new file; and a failure other than
  that of the last directory fsync leaves the final entry exactly as it was. After a success the
  temporary entry is gone and nothing but the final entry has changed; after a failure the
  temporary entry is gone too, provided \<open>unlink\<close> works.
\<close>

theorem run_file_atomic:
  assumes "fs_contract (rc_sys rc) fs v"
    and "run_file rc fs input_path final_path px w = Some (r, px', w')"
  shows "(\<forall>q. q \<noteq> fv_key v final_path \<longrightarrow> fv_entries v w q \<noteq> None \<longrightarrow> fv_entries v w' q = fv_entries v w q) \<and>
    (case r of
       Inr _ \<Rightarrow> fv_entries v w' (fv_key v final_path) \<noteq> None \<and>
         (\<forall>q. q \<noteq> fv_key v final_path \<longrightarrow> fv_entries v w' q = fv_entries v w q)
     | Inl e \<Rightarrow>
         (fv_entries v w' (fv_key v final_path) = fv_entries v w (fv_key v final_path) \<or>
          (\<exists>errno. e = directory_fsync_error errno)) \<and>
         ((\<forall>path u. \<exists>n. fst (fs_unlink fs path u) = Sys_ok n) \<longrightarrow>
            (\<forall>q. q \<noteq> fv_key v final_path \<longrightarrow> fv_entries v w' q = fv_entries v w q)))"
proof -
  let ?k = "fv_key v final_path"
  have d: "data_contract (rc_sys rc) v" using assms(1) by (simp add: fs_contract_def)
  from run_file_outcome [OF assms] show ?thesis
  proof (elim disjE exE conjE)
    fix e assume "r = Inl e" "fv_entries v w' = fv_entries v w"
    then show ?thesis by simp
  next
    fix t e
    assume "t \<noteq> ?k" "fv_entries v w t = None" "r = Inl e" and wd: "withdrawn fs v t (fv_entries v w) w'"
    moreover have "fv_entries v w' ?k = fv_entries v w ?k" using wd \<open>t \<noteq> ?k\<close> by (simp add: withdrawn_def)
    ultimately show ?thesis using withdrawn_entries [OF wd] by simp
  next
    fix t result ao w0 w1
    assume t: "t \<noteq> ?k" "fv_entries v w t = None" and r: "r = Inr result"
      and p: "published v ?k t (fv_entries v w) (fv_file v w1 (ao_fd ao)) w'"
      and f: "fv_file v w0 (ao_fd ao) = Some []"
      and ex: "executor_run rc (of_fd (fst (open_read_only (rc_sys rc) input_path w))) (ao_fd ao) px w0
             = Some (Inr result, px', w1)"
    have "fv_file v w1 (ao_fd ao) \<noteq> None" using executor_run_file_open [OF d ex] f by simp
    with t r p show ?thesis by (auto simp: published_def)
  next
    fix t result ao w0 w1 errno
    assume "t \<noteq> ?k" "fv_entries v w t = None" "r = Inl (directory_fsync_error errno)"
      "published v ?k t (fv_entries v w) (fv_file v w1 (ao_fd ao)) w'"
    then show ?thesis by (auto simp: published_def)
  qed
qed

theorem run_file_atomic_witness:
  "fs_contract disk_posix disk_calls disk_view \<and>
   dk_entries disk_end ''in'' = Some [1, 2, 255] \<and> dk_entries disk_end ''.out.tmp.aaaaaa'' = None"
proof -
  have sys: "rc_sys disk_context = disk_posix" by (simp add: disk_context_def)
  have key: "fv_key disk_view ''out'' = ''out''" by (simp add: disk_view_def path_filename_def)
  from run_file_atomic [OF disk_contract [folded sys] disk_run, unfolded key] disk_contract show ?thesis
    by (simp add: disk_view_def example_disk_def)
qed

text \<open>
  C11: A crash during a run exposes no partial output. In every state that the threads of a run into
  a temporary file can reach, under any interleaving, every directory entry that existed before the
  temporary file was created has its old contents, and the final path has its old entry (or still
  none): only the temporary entry differs.
\<close>

theorem crash_keeps_final_path:
  assumes "fs_contract sys fs v" and "atomic_output_new fs final_path w = (Inr ao, w1)"
    and "ev_sys env = sys" and "ev_output_fd env = ao_fd ao" and "ex_out s0 = w1"
    and "exec_reachable env S s0 s"
  shows "fv_entries v (ex_out s) (fv_key v final_path) = fv_entries v w (fv_key v final_path) \<and>
    (\<forall>q. q \<noteq> fv_key v (ao_temporary_path ao) \<longrightarrow> fv_entries v (ex_out s) q = fv_entries v w q) \<and>
    fv_entries v w (fv_key v (ao_temporary_path ao)) = None"
proof -
  have c: "quiet_calls sys fs v" "mkstemp_contract fs v" "link_contract fs v" "data_contract sys v"
    using assms(1) by (simp_all add: fs_contract_def)
  note new = atomic_output_new_Inr [OF c(1-3) assms(2)]
  let ?J = "temporary_open v (ao_fd ao) (fv_key v (ao_temporary_path ao)) (fv_entries v w)"
  have "writes_keep (system_file_io_operations (ev_sys env)) (ev_output_fd env) ?J"
    unfolding assms(3,4) by (rule temporary_writes [OF c(4)])
  from reachable_out [OF assms(6) this] have "?J (ex_out s)" using new(3) assms(5) by simp
  with new(1,2) show ?thesis by (simp add: temporary_open_def)
qed

theorem crash_keeps_final_path_witness:
  "dk_entries disk_written ''out'' = Some [9] \<and> dk_entries disk_written ''in'' = Some [1, 2, 255]"
proof -
  let ?env = "run_env disk_context example_executor 3 4"
  from disk_schedule obtain s where
    s: "run_schedule ?env example_schedule (small_start increment_pipeline [1, 2, 255] disk_opened) = Some s" by auto
  have reach: "exec_reachable ?env UNIV (small_start increment_pipeline [1, 2, 255] disk_opened) s"
    by (rule run_schedule_reachable [OF reach_start s])
  have env: "ev_sys ?env = disk_posix" "ev_output_fd ?env = 4" by (simp_all add: run_env_def disk_context_def)
  have key: "fv_key disk_view ''out'' = ''out''" "fv_key disk_view ''./.out.tmp.aaaaaa'' = ''.out.tmp.aaaaaa''"
    by (simp_all add: disk_view_def path_filename_def)
  have "ex_out s = disk_written" using s by (simp add: disk_written_def)
  with crash_keeps_final_path [OF disk_contract disk_temporary env(1) _ _ reach] env(2) key show ?thesis
    by (simp add: small_start_def) (simp add: disk_view_def example_disk_def)
qed

text \<open>A result of \<open>run_file\<close>: the finished run behind it, and the file that it wrote at the final path.\<close>

lemma run_file_Inr:
  assumes "fs_contract (rc_sys rc) fs v" and "interrupts_bounded (system_file_io_operations (rc_sys rc)) m"
    and "run_file rc fs input_path final_path px w = Some (Inr result, px', w')"
  obtains output_fd w0 s0 px1 m1 s and outC :: "'w \<Rightarrow> byte list"
  where "run_start (rc_allocator rc) (of_fd (fst (open_read_only (rc_sys rc) input_path w))) output_fd (rc_pipeline rc)
      (rc_registry rc) (rc_input rc) w0 px (rc_memory rc) = (Inr s0, px1, m1)"
    and "exec_reachable (run_env rc px (of_fd (fst (open_read_only (rc_sys rc) input_path w))) output_fd) UNIV s0 s"
    and "ex_main s = M_done (Inr result)"
    and "writes_file (run_env rc px (of_fd (fst (open_read_only (rc_sys rc) input_path w))) output_fd) outC"
    and "outC w0 = []" and "fv_entries v w' (fv_key v final_path) = Some (outC (ex_out s))"
proof -
  let ?ifd = "of_fd (fst (open_read_only (rc_sys rc) input_path w))" and ?k = "fv_key v final_path"
  have d: "data_contract (rc_sys rc) v" using assms(1) by (simp add: fs_contract_def)
  from run_file_outcome [OF assms(1,3)] obtain t w0 w1 and ao :: atomic_output_file where
    ex: "executor_run rc ?ifd (ao_fd ao) px w0 = Some (Inr result, px', w1)"
    and f: "fv_file v w0 (ao_fd ao) = Some []"
    and p: "published v ?k t (fv_entries v w) (fv_file v w1 (ao_fd ao)) w'" by (elim disjE exE conjE) (use that in simp_all)
  let ?outC = "\<lambda>u. case fv_file v u (ao_fd ao) of None \<Rightarrow> [] | Some c \<Rightarrow> c"
  let ?env = "run_env rc px ?ifd (ao_fd ao)"
  have wf: "writes_file ?env ?outC"
    using data_contract_pwrite [OF d] assms(2) by (auto simp: writes_file_def run_env_def)
  from ex obtain s0 px1 m1 s where
    start: "run_start (rc_allocator rc) ?ifd (ao_fd ao) (rc_pipeline rc) (rc_registry rc) (rc_input rc) w0 px
       (rc_memory rc) = (Inr s0, px1, m1)"
    and sched: "run_schedule ?env (rc_schedule rc) s0 = Some s"
    and done_s: "ex_main s = M_done (Inr result)" "w1 = ex_out s"
    by (auto simp: executor_run_def split: prod.splits sum.splits option.splits main_pc.splits)
  have reach: "exec_reachable ?env UNIV s0 s" by (rule run_schedule_reachable [OF reach_start sched])
  obtain c where "fv_file v w1 (ao_fd ao) = Some c" using executor_run_file_open [OF d ex] f by auto
  then show thesis using p f done_s(2) by (intro that [OF start reach done_s(1) wf]) (simp_all add: published_def)
qed

text \<open>The byte count of a result is the length of the published file, whatever the stages and the input.\<close>

lemma run_file_counts:
  assumes "fs_contract (rc_sys rc) fs v" and "memalign_contract (rc_allocator rc)"
    and "interrupts_bounded (system_file_io_operations (rc_sys rc)) m"
    and "\<And>input_fd output_fd. honest_reads (run_env rc px input_fd output_fd) (block_size (px_config px))"
    and "run_file rc fs input_path final_path px w = Some (Inr result, px', w')"
  shows "\<exists>c. fv_entries v w' (fv_key v final_path) = Some c \<and> unat (prr_bytes_written result) = length c"
proof -
  obtain output_fd w0 s0 px1 m1 s outC where
    start: "run_start (rc_allocator rc) (of_fd (fst (open_read_only (rc_sys rc) input_path w))) output_fd (rc_pipeline rc)
      (rc_registry rc) (rc_input rc) w0 px (rc_memory rc) = (Inr s0, px1, m1)"
    and reach: "exec_reachable (run_env rc px (of_fd (fst (open_read_only (rc_sys rc) input_path w))) output_fd) UNIV s0 s"
    and end_s: "ex_main s = M_done (Inr result)"
    and files: "writes_file (run_env rc px (of_fd (fst (open_read_only (rc_sys rc) input_path w))) output_fd) outC"
      "outC w0 = []" and final: "fv_entries v w' (fv_key v final_path) = Some (outC (ex_out s))"
    by (rule run_file_Inr [OF assms(1,3,5)])
  from run_counts_bytes [OF assms(2) start reach assms(4) end_s files] final show ?thesis by simp
qed

text \<open>
  C10: What \<open>run_file\<close> publishes is the processed file. If it returns a result, with a backend that
  serves the input, a pipeline of \<open>noop\<close> and \<open>byte_increment\<close> stages and an operating system that
  keeps its contracts, the final path holds exactly the input with every byte incremented once per
  increment stage, and the result's byte count is its length.
\<close>

theorem run_file_publishes:
  assumes "fs_contract (rc_sys rc) fs v" and "memalign_contract (rc_allocator rc)"
    and "interrupts_bounded (system_file_io_operations (rc_sys rc)) m"
    and "\<And>output_fd. reads_file (run_env rc px (of_fd (fst (open_read_only (rc_sys rc) input_path w))) output_fd) inC"
    and "set (map se_stage (pl_stages (rc_pipeline rc))) \<subseteq> {NoOpStage, ByteIncrementStage}"
    and "run_file rc fs input_path final_path px w = Some (Inr result, px', w')"
  shows "fv_entries v w' (fv_key v final_path) =
      Some ((byte_increment ^^ count_list (map se_stage (pl_stages (rc_pipeline rc))) ByteIncrementStage)
              (inC (rc_input rc))) \<and>
    unat (prr_bytes_written result) = length (inC (rc_input rc))"
proof -
  let ?ifd = "of_fd (fst (open_read_only (rc_sys rc) input_path w))"
  obtain output_fd w0 s0 px1 m1 s outC where
    start: "run_start (rc_allocator rc) ?ifd output_fd (rc_pipeline rc) (rc_registry rc) (rc_input rc) w0 px
       (rc_memory rc) = (Inr s0, px1, m1)"
    and reach: "exec_reachable (run_env rc px ?ifd output_fd) UNIV s0 s" and end_s: "ex_main s = M_done (Inr result)"
    and files: "writes_file (run_env rc px ?ifd output_fd) outC" "outC w0 = []"
    and final: "fv_entries v w' (fv_key v final_path) = Some (outC (ex_out s))"
    by (rule run_file_Inr [OF assms(1,3,6)])
  from run_copies_file [OF assms(2) start reach end_s assms(4) files(1) assms(5)] files(2) final
  show ?thesis using write_image_at_end [of "[]"] by simp
qed

theorem run_file_publishes_witness:
  "dk_entries disk_end ''out'' = Some (byte_increment [1, 2, 255])"
proof -
  have ctx: "rc_sys disk_context = disk_posix" "rc_allocator disk_context = bump_allocator"
    "rc_input disk_context = [1, 2, 255]" "rc_pipeline disk_context = increment_pipeline"
    by (simp_all add: disk_context_def)
  have key: "fv_key disk_view ''out'' = ''out''" by (simp add: disk_view_def path_filename_def)
  have stages: "set (map se_stage (pl_stages (rc_pipeline disk_context))) \<subseteq> {NoOpStage, ByteIncrementStage}"
    by (simp add: ctx increment_pipeline_def)
  from run_file_publishes [OF disk_contract [folded ctx] example_inv(1) [folded ctx] disk_interrupts [folded ctx]
      disk_reads stages disk_run]
  show ?thesis by (simp add: key ctx increment_pipeline_def) (simp add: disk_view_def)
qed

end
