(* ===== verification/Thread_Pool.thy ===== *)
theory Thread_Pool
  imports Backends
begin

text \<open>
  \<open>ThreadPoolBackend\<close> (\<open>src/backend/thread_pool_backend.cpp\<close>): requests are queued for worker
  threads, whose results come back through a completion queue and resume the coroutine that waits.
  Each critical section under the mutex and each read is one step of its thread; waiting on a
  condition variable is a step that is not enabled. A \<open>ReadAwaiter\<close> with its request lives in the
  frame of the one coroutine that awaits it, so a frame's number also names its request.
\<close>

section \<open>State\<close>

record read_request =
  rq_fd :: int
  rq_buffer :: "byte list"
  rq_byte_count :: size_t
  rq_offset :: u64
  rq_completion :: "nat completion_request"
  rq_result :: int

datatype pool_frame = Frame_begin nat | Frame_awaiting nat

text \<open>
  A worker waits for work, reads for a request it has taken, publishes the result, or has returned.
\<close>

datatype worker_pc = Wk_wait | Wk_read nat | Wk_publish nat int | Wk_done

text \<open>The parameters of \<open>read_at\<close>: whether the span is null, its size, the descriptor and the offset.\<close>

record read_parameters =
  rp_null :: bool
  rp_fd :: int
  rp_size :: size_t
  rp_offset :: u64

text \<open>
  The backend's members, then what lives outside it: the requests and the tasks with the parameters
  copied into their frames, the number of the next frame, and the operating system's world.
\<close>

record 'w thread_pool =
  tp_max_inflight :: size_t
  tp_work_queue :: "nat list"
  tp_completion_queue :: "nat list"
  tp_inflight_count :: size_t
  tp_stopping :: bool
  tp_workers :: "worker_pc list"
  tp_requests :: "nat \<Rightarrow> read_request option"
  tp_tasks :: "nat \<Rightarrow> (pool_frame, read_value) task option"
  tp_parameters :: "nat \<Rightarrow> read_parameters"
  tp_next_frame :: nat
  tp_world :: 'w

section \<open>Construction\<close>

text \<open>
  The queues hold pointers of 8 bytes and \<open>std::jthread\<close> objects of 16. Creating the thread with
  some index may throw; the threads created before it are then stopped and joined, which leaves
  nothing behind.
\<close>

fun create_workers :: "(nat \<Rightarrow> exn option) \<Rightarrow> nat \<Rightarrow> nat \<Rightarrow> worker_pc list res" where
  "create_workers spawn index 0 = Inr []"
| "create_workers spawn index (Suc n) =
     (case spawn index of
        Some e \<Rightarrow> Inl e
      | None \<Rightarrow> (case create_workers spawn (Suc index) n of Inl e \<Rightarrow> Inl e | Inr ws \<Rightarrow> Inr (Wk_wait # ws)))"

definition thread_pool_new ::
  "size_t \<Rightarrow> size_t \<Rightarrow> (nat \<Rightarrow> exn option) \<Rightarrow> 'w \<Rightarrow> 'w thread_pool res" where
  "thread_pool_new worker_count max_inflight spawn w =
     (if worker_count = 0 then Inl (Invalid_argument ''thread-pool worker count must be positive'')
      else if max_inflight = 0 then Inl (Invalid_argument ''thread-pool max_inflight must be positive'')
      else if (2 ^ 63 - 1) div 8 < unat max_inflight \<or> (2 ^ 63 - 1) div 16 < unat worker_count then
        Inl (Length_error ''vector::reserve'')
      else
        (case create_workers spawn 0 (unat worker_count) of
           Inl e \<Rightarrow> Inl e
         | Inr workers \<Rightarrow>
             Inr \<lparr>tp_max_inflight = max_inflight, tp_work_queue = [], tp_completion_queue = [],
                  tp_inflight_count = 0, tp_stopping = False, tp_workers = workers,
                  tp_requests = (\<lambda>_. None), tp_tasks = (\<lambda>_. None),
                  tp_parameters = (\<lambda>_. \<lparr>rp_null = True, rp_fd = - 1, rp_size = 0, rp_offset = 0\<rparr>),
                  tp_next_frame = 0, tp_world = w\<rparr>))"

text \<open>The first critical section of the destructor; the workers then run until they return.\<close>

definition begin_stop :: "'w thread_pool \<Rightarrow> 'w thread_pool" where
  "begin_stop tp = tp\<lparr>tp_stopping := True\<rparr>"

text \<open>\<open>std::numeric_limits<int>::max()\<close>.\<close>

abbreviation (input) int_max :: nat where "int_max \<equiv> 2147483647"

section \<open>Submission\<close>

definition read_awaiter_new :: "read_parameters \<Rightarrow> read_request res" where
  "read_awaiter_new p =
     (if rp_null p \<and> rp_size p \<noteq> 0 then Inl (Invalid_argument ''read buffer must not be null'')
      else if 2147483647 < rp_size p then
        Inl (Length_error ''thread-pool read byte count exceeds completion limit'')
      else Inr \<lparr>rq_fd = rp_fd p, rq_buffer = [], rq_byte_count = rp_size p, rq_offset = rp_offset p,
                rq_completion = completion_request_new, rq_result = 0\<rparr>)"

definition try_submit :: "nat \<Rightarrow> 'w thread_pool \<Rightarrow> int \<times> 'w thread_pool" where
  "try_submit request tp =
     (if tp_stopping tp then (- ECANCELED, tp)
      else if tp_max_inflight tp \<le> tp_inflight_count tp then (- EAGAIN, tp)
      else (0, tp\<lparr>tp_work_queue := tp_work_queue tp @ [request],
                  tp_inflight_count := tp_inflight_count tp + 1\<rparr>))"

text \<open>\<open>await_suspend\<close>: an immediate result if the submission was refused, else the suspension.\<close>

definition await_suspend ::
  "nat \<Rightarrow> read_request \<Rightarrow> 'w thread_pool \<Rightarrow> int option res \<times> 'w thread_pool" where
  "await_suspend self request tp =
     (case set_continuation (Some self) (rq_completion request) of
        (Inl e, _) \<Rightarrow> (Inl e, tp)
      | (Inr _, completion) \<Rightarrow>
          (case try_submit self (tp\<lparr>tp_requests := (tp_requests tp)(self \<mapsto> request\<lparr>rq_completion := completion\<rparr>)\<rparr>) of
             (submit_result, tp') \<Rightarrow>
               if submit_result < 0 then (Inr (Some submit_result), tp') else (Inr None, tp')))"

definition await_resume :: "int option \<Rightarrow> read_request \<Rightarrow> read_value res" where
  "await_resume immediate request =
     (case (case immediate of Some r \<Rightarrow> Inr r | None \<Rightarrow> completion_result (rq_completion request)) of
        Inl e \<Rightarrow> Inl e
      | Inr result \<Rightarrow>
          if result < 0 then Inl (System_error (- result) ''thread-pool read'')
          else Inr (of_int result, rq_buffer request))"

text \<open>\<open>read_at\<close>: \<open>co_return co_await ReadAwaiter{...}\<close>; the awaiter dies with its full expression.\<close>

definition drop_request :: "nat \<Rightarrow> 'w thread_pool \<Rightarrow> 'w thread_pool" where
  "drop_request self tp = tp\<lparr>tp_requests := (tp_requests tp)(self := None)\<rparr>"

definition co_outcome :: "'v res \<Rightarrow> ('s, 'v) co_step" where
  "co_outcome r = (case r of Inl e \<Rightarrow> Co_throw e | Inr v \<Rightarrow> Co_return v)"

fun pool_read_body :: "(pool_frame, read_value, 'w thread_pool) co_body" where
  "pool_read_body (Frame_begin self) tp =
     (case read_awaiter_new (tp_parameters tp self) of
        Inl e \<Rightarrow> Some (Co_throw e, tp)
      | Inr request \<Rightarrow>
          (case await_suspend self request tp of
             (Inl e, tp') \<Rightarrow> Some (Co_throw e, drop_request self tp')
           | (Inr None, tp') \<Rightarrow> Some (Co_suspend (Frame_awaiting self), tp')
           | (Inr (Some r), tp') \<Rightarrow>
               Some (co_outcome (await_resume (Some r) request), drop_request self tp')))"
| "pool_read_body (Frame_awaiting self) tp =
     (case tp_requests tp self of
        None \<Rightarrow> None
      | Some request \<Rightarrow> Some (co_outcome (await_resume None request), drop_request self tp))"

definition pool_read_at :: "read_parameters \<Rightarrow> 'w thread_pool \<Rightarrow> nat \<times> 'w thread_pool" where
  "pool_read_at p tp =
     (let self = tp_next_frame tp in
      (self, tp\<lparr>tp_tasks := (tp_tasks tp)(self \<mapsto> task_new (Frame_begin self)),
                tp_parameters := (tp_parameters tp)(self := p), tp_next_frame := Suc self\<rparr>))"

definition pool_start :: "nat \<Rightarrow> 'w thread_pool \<Rightarrow> (unit res \<times> 'w thread_pool) option" where
  "pool_start self tp =
     (case tp_tasks tp self of
        None \<Rightarrow> None
      | Some t \<Rightarrow>
          (case task_start pool_read_body t tp of
             None \<Rightarrow> None
           | Some (r, t', tp') \<Rightarrow> Some (r, tp'\<lparr>tp_tasks := (tp_tasks tp')(self \<mapsto> t')\<rparr>)))"

section \<open>Workers\<close>

text \<open>
  \<open>read_at\<close> fills the caller's buffer and its outcome becomes a \<open>int\<close>; a request that no longer
  exists would be a dangling pointer, and the worker has no step then.
\<close>

definition completion_code :: "read_at_result \<Rightarrow> int" where
  "completion_code result =
     (if ra_error_number result \<noteq> 0 then - ra_error_number result
      else sint (of_nat (bytes_read result) :: 32 word))"

definition worker_step :: "'w posix_calls \<Rightarrow> nat \<Rightarrow> 'w thread_pool \<Rightarrow> 'w thread_pool option" where
  "worker_step sys i tp =
     (if length (tp_workers tp) \<le> i then None
      else
        (case tp_workers tp ! i of
           Wk_wait \<Rightarrow>
             if tp_work_queue tp \<noteq> [] then
               Some (tp\<lparr>tp_work_queue := butlast (tp_work_queue tp),
                        tp_workers := (tp_workers tp)[i := Wk_read (last (tp_work_queue tp))]\<rparr>)
             else if tp_stopping tp then Some (tp\<lparr>tp_workers := (tp_workers tp)[i := Wk_done]\<rparr>)
             else None
         | Wk_read self \<Rightarrow>
             (case tp_requests tp self of
                None \<Rightarrow> None
              | Some request \<Rightarrow>
                  (case read_at sys (rq_fd request) (unat (rq_byte_count request)) (rq_offset request) (tp_world tp) of
                     None \<Rightarrow> None
                   | Some ((result, stored), w) \<Rightarrow>
                       Some (tp\<lparr>tp_requests := (tp_requests tp)(self \<mapsto> request\<lparr>rq_buffer := stored\<rparr>),
                                tp_workers := (tp_workers tp)[i := Wk_publish self (completion_code result)],
                                tp_world := w\<rparr>)))
         | Wk_publish self r \<Rightarrow>
             (case tp_requests tp self of
                None \<Rightarrow> None
              | Some request \<Rightarrow>
                  Some (tp\<lparr>tp_requests := (tp_requests tp)(self \<mapsto> request\<lparr>rq_result := r\<rparr>),
                           tp_completion_queue := tp_completion_queue tp @ [self],
                           tp_workers := (tp_workers tp)[i := Wk_wait]\<rparr>))
         | Wk_done \<Rightarrow> None))"

section \<open>Completion\<close>

text \<open>\<open>handle.resume()\<close> on the frame of a task, and \<open>handle.done()\<close>.\<close>

definition frame_done :: "'w thread_pool \<Rightarrow> nat \<Rightarrow> bool" where
  "frame_done tp self \<longleftrightarrow> (case tp_tasks tp self of None \<Rightarrow> False | Some t \<Rightarrow> task_done t)"

definition resume_frame :: "nat \<Rightarrow> 'w thread_pool \<Rightarrow> 'w thread_pool option" where
  "resume_frame self tp =
     (case tp_tasks tp self of
        None \<Rightarrow> None
      | Some t \<Rightarrow>
          (case task_handle t of
             None \<Rightarrow> None
           | Some c \<Rightarrow>
               (case co_resume pool_read_body c tp of
                  None \<Rightarrow> None
                | Some (c', tp') \<Rightarrow>
                    Some (tp'\<lparr>tp_tasks := (tp_tasks tp')(self \<mapsto> t\<lparr>task_handle := Some c'\<rparr>)\<rparr>))))"

text \<open>\<open>wait_one\<close> once its wait is over: the last completion is taken and its coroutine resumed.\<close>

definition take_completion :: "'w thread_pool \<Rightarrow> (unit res \<times> 'w thread_pool) option" where
  "take_completion tp =
     (let self = last (tp_completion_queue tp);
          tp = tp\<lparr>tp_completion_queue := butlast (tp_completion_queue tp),
                  tp_inflight_count := tp_inflight_count tp - 1\<rparr> in
      (case tp_requests tp self of
         None \<Rightarrow> None
       | Some request \<Rightarrow>
           (case complete_request (frame_done tp) (rq_result request) (rq_completion request) of
              (Inl e, _) \<Rightarrow> Some (Inl e, tp)
            | (Inr continuation, completion) \<Rightarrow>
                (case resume_frame continuation
                        (tp\<lparr>tp_requests := (tp_requests tp)(self \<mapsto> request\<lparr>rq_completion := completion\<rparr>)\<rparr>) of
                   None \<Rightarrow> None
                 | Some tp' \<Rightarrow> Some (Inr (), tp')))))"

section \<open>Everything that may happen to a pool\<close>

text \<open>
  Its caller creates, starts, reads out and destroys tasks (never one that is started and not done:
  the interface forbids it), waits for a completion, or stops the pool; its workers step.
\<close>

datatype pool_op =
    Pool_read_at read_parameters
  | Pool_start nat
  | Pool_result nat
  | Pool_destroy nat
  | Pool_wait_one
  | Pool_stop
  | Pool_worker nat

definition pool_result :: "nat \<Rightarrow> 'w thread_pool \<Rightarrow> (read_value res \<times> 'w thread_pool) option" where
  "pool_result self tp =
     (case tp_tasks tp self of
        None \<Rightarrow> None
      | Some t \<Rightarrow> (case task_result t of (r, t') \<Rightarrow> Some (r, tp\<lparr>tp_tasks := (tp_tasks tp)(self \<mapsto> t')\<rparr>)))"

definition pool_destroy :: "nat \<Rightarrow> 'w thread_pool \<Rightarrow> 'w thread_pool" where
  "pool_destroy self tp = tp\<lparr>tp_tasks := (tp_tasks tp)(self := None)\<rparr>"

fun pool_step :: "'w posix_calls \<Rightarrow> pool_op \<Rightarrow> 'w thread_pool \<Rightarrow> 'w thread_pool option" where
  "pool_step sys (Pool_read_at p) tp = Some (snd (pool_read_at p tp))"
| "pool_step sys (Pool_start self) tp = map_option snd (pool_start self tp)"
| "pool_step sys (Pool_result self) tp = map_option snd (pool_result self tp)"
| "pool_step sys (Pool_destroy self) tp =
     (case tp_tasks tp self of
        None \<Rightarrow> None
      | Some t \<Rightarrow> if task_started t \<and> \<not> task_done t then None else Some (pool_destroy self tp))"
| "pool_step sys Pool_wait_one tp =
     (if tp_inflight_count tp = 0 then Some tp
      else if tp_completion_queue tp = [] then None else map_option snd (take_completion tp))"
| "pool_step sys Pool_stop tp = Some (begin_stop tp)"
| "pool_step sys (Pool_worker i) tp = worker_step sys i tp"

inductive pool_reachable :: "'w posix_calls \<Rightarrow> 'w thread_pool \<Rightarrow> 'w thread_pool \<Rightarrow> bool"
  for sys tp0 where
  pool_reach_start: "pool_reachable sys tp0 tp0"
| pool_reach_step: "pool_reachable sys tp0 tp \<Longrightarrow> pool_step sys op tp = Some tp' \<Longrightarrow> pool_reachable sys tp0 tp'"

section \<open>The invariant\<close>

text \<open>The requests that are queued, with a worker, or complete: all that are in flight.\<close>

definition worker_requests :: "worker_pc \<Rightarrow> nat list" where
  "worker_requests pc = (case pc of Wk_read self \<Rightarrow> [self] | Wk_publish self r \<Rightarrow> [self] | _ \<Rightarrow> [])"

definition pending :: "'w thread_pool \<Rightarrow> nat list" where
  "pending tp = tp_work_queue tp @ concat (map worker_requests (tp_workers tp)) @ tp_completion_queue tp"

text \<open>A result that \<open>read_at\<close> gives for a request's own parameters.\<close>

definition produced :: "'w posix_calls \<Rightarrow> read_parameters \<Rightarrow> int \<Rightarrow> byte list \<Rightarrow> bool" where
  "produced sys p r stored \<longleftrightarrow>
     (\<exists>w result w'. read_at sys (rp_fd p) (unat (rp_size p)) (rp_offset p) w = Some ((result, stored), w') \<and>
        r = completion_code result)"

definition read_outcome :: "int \<Rightarrow> byte list \<Rightarrow> read_value res" where
  "read_outcome r stored =
     (if r < 0 then Inl (System_error (- r) ''thread-pool read'') else Inr (of_int r, stored))"

definition own_outcome :: "'w posix_calls \<Rightarrow> read_parameters \<Rightarrow> read_value res \<Rightarrow> bool" where
  "own_outcome sys p out \<longleftrightarrow>
     (\<exists>e. read_awaiter_new p = Inl e \<and> out = Inl e) \<or>
     out = read_outcome (- ECANCELED) [] \<or> out = read_outcome (- EAGAIN) [] \<or>
     (\<exists>r stored. produced sys p r stored \<and> out = read_outcome r stored)"

text \<open>A request in flight: its coroutine is suspended on it, and it has its coroutine's parameters.\<close>

definition waits :: "'w thread_pool \<Rightarrow> nat \<Rightarrow> bool" where
  "waits tp self \<longleftrightarrow>
     (\<exists>rq. tp_requests tp self = Some rq \<and>
        rq_completion rq = \<lparr>cr_continuation = Some self, cr_result = 0, cr_completed = False\<rparr> \<and>
        rq_fd rq = rp_fd (tp_parameters tp self) \<and> rq_byte_count rq = rp_size (tp_parameters tp self) \<and>
        rq_offset rq = rp_offset (tp_parameters tp self)) \<and>
     unat (rp_size (tp_parameters tp self)) \<le> int_max \<and>
     tp_tasks tp self = Some \<lparr>task_handle = Some \<lparr>co_frame = Frame_at (Frame_awaiting self),
       co_value = None, co_exception = None\<rparr>, task_started = True\<rparr>"

text \<open>No request in flight: the task is gone, not started, or done with an outcome of its own.\<close>

fun settled_task :: "'w posix_calls \<Rightarrow> read_parameters \<Rightarrow> nat \<Rightarrow> (pool_frame, read_value) task \<Rightarrow> bool" where
  "settled_task sys p self t =
     (if task_started t
      then (\<exists>c. task_handle t = Some c \<and> co_frame c = Frame_final \<and>
             (\<forall>e. co_exception c = Some e \<longrightarrow> own_outcome sys p (Inl e)) \<and>
             (\<forall>v. co_value c = Some v \<longrightarrow> own_outcome sys p (Inr v)))
      else t = task_new (Frame_begin self))"

definition settled :: "'w posix_calls \<Rightarrow> 'w thread_pool \<Rightarrow> nat \<Rightarrow> bool" where
  "settled sys tp self \<longleftrightarrow>
     tp_requests tp self = None \<and>
     (\<forall>t. tp_tasks tp self = Some t \<longrightarrow> settled_task sys (tp_parameters tp self) self t)"

definition answered :: "'w posix_calls \<Rightarrow> 'w thread_pool \<Rightarrow> nat \<Rightarrow> int \<Rightarrow> bool" where
  "answered sys tp self r \<longleftrightarrow>
     (\<forall>rq. tp_requests tp self = Some rq \<longrightarrow> produced sys (tp_parameters tp self) r (rq_buffer rq))"

definition pool_ok :: "'w posix_calls \<Rightarrow> 'w thread_pool \<Rightarrow> bool" where
  "pool_ok sys tp \<longleftrightarrow>
     distinct (pending tp) \<and> unat (tp_inflight_count tp) = length (pending tp) \<and>
     tp_inflight_count tp \<le> tp_max_inflight tp \<and>
     (\<forall>self. if self \<in> set (pending tp) then waits tp self else settled sys tp self) \<and>
     (\<forall>self r. Wk_publish self r \<in> set (tp_workers tp) \<longrightarrow> answered sys tp self r) \<and>
     (\<forall>self \<in> set (tp_completion_queue tp). \<forall>rq. tp_requests tp self = Some rq \<longrightarrow>
        answered sys tp self (rq_result rq)) \<and>
     (Wk_done \<in> set (tp_workers tp) \<longrightarrow> tp_stopping tp \<and> tp_work_queue tp = []) \<and>
     (\<forall>self. tp_next_frame tp \<le> self \<longrightarrow> tp_tasks tp self = None)"

lemma pool_okI:
  assumes "distinct (pending tp)" and "unat (tp_inflight_count tp) = length (pending tp)"
    and "tp_inflight_count tp \<le> tp_max_inflight tp"
    and "\<And>self. self \<in> set (pending tp) \<Longrightarrow> waits tp self"
    and "\<And>self. self \<notin> set (pending tp) \<Longrightarrow> settled sys tp self"
    and "\<And>self r. Wk_publish self r \<in> set (tp_workers tp) \<Longrightarrow> answered sys tp self r"
    and "\<And>self rq. self \<in> set (tp_completion_queue tp) \<Longrightarrow> tp_requests tp self = Some rq \<Longrightarrow>
        answered sys tp self (rq_result rq)"
    and "Wk_done \<in> set (tp_workers tp) \<Longrightarrow> tp_stopping tp \<and> tp_work_queue tp = []"
    and "\<And>self. tp_next_frame tp \<le> self \<Longrightarrow> tp_tasks tp self = None"
  shows "pool_ok sys tp"
  using assms by (simp add: pool_ok_def)

lemma pool_okD:
  assumes "pool_ok sys tp"
  shows "distinct (pending tp)" and "unat (tp_inflight_count tp) = length (pending tp)"
    and "tp_inflight_count tp \<le> tp_max_inflight tp"
    and "self \<in> set (pending tp) \<Longrightarrow> waits tp self"
    and "self \<notin> set (pending tp) \<Longrightarrow> settled sys tp self"
    and "Wk_publish self r \<in> set (tp_workers tp) \<Longrightarrow> answered sys tp self r"
    and "self \<in> set (tp_completion_queue tp) \<Longrightarrow> tp_requests tp self = Some rq \<Longrightarrow>
        answered sys tp self (rq_result rq)"
    and "Wk_done \<in> set (tp_workers tp) \<Longrightarrow> tp_stopping tp \<and> tp_work_queue tp = []"
    and "tp_next_frame tp \<le> self \<Longrightarrow> tp_tasks tp self = None"
proof -
  note o = assms [unfolded pool_ok_def]
  show "distinct (pending tp)" "unat (tp_inflight_count tp) = length (pending tp)"
    "tp_inflight_count tp \<le> tp_max_inflight tp" using o by blast+
  show "waits tp self" if "self \<in> set (pending tp)" using o that by metis
  show "settled sys tp self" if "self \<notin> set (pending tp)" using o that by metis
  show "answered sys tp self r" if "Wk_publish self r \<in> set (tp_workers tp)" using o that by blast
  show "answered sys tp self (rq_result rq)" if "self \<in> set (tp_completion_queue tp)" "tp_requests tp self = Some rq"
    using o that by blast
  show "tp_stopping tp \<and> tp_work_queue tp = []" if "Wk_done \<in> set (tp_workers tp)" using o that by blast
  show "tp_tasks tp self = None" if "tp_next_frame tp \<le> self" using o that by blast
qed

section \<open>The operations keep it\<close>

lemma mset_worker_requests:
  "i < length ws \<Longrightarrow>
   mset (concat (map worker_requests (ws[i := pc]))) + mset (worker_requests (ws ! i)) =
   mset (concat (map worker_requests ws)) + mset (worker_requests pc)"
proof (induction ws arbitrary: i)
  case (Cons a ws)
  then show ?case by (cases i) (auto simp: add_ac)
qed simp

lemma worker_in_pending:
  "pc \<in> set (tp_workers tp) \<Longrightarrow> self \<in> set (worker_requests pc) \<Longrightarrow> self \<in> set (pending tp)"
  by (auto simp: pending_def)

lemma worker_requests_simps [simp]:
  "worker_requests Wk_wait = []" "worker_requests Wk_done = []"
  "worker_requests (Wk_read self) = [self]" "worker_requests (Wk_publish self r) = [self]"
  by (simp_all add: worker_requests_def)

lemma worker_step_cases:
  assumes "worker_step sys i tp = Some tp'"
  obtains (take_work) wq self where "i < length (tp_workers tp)" and "tp_workers tp ! i = Wk_wait"
      and "tp_work_queue tp = wq @ [self]"
      and "tp' = tp\<lparr>tp_work_queue := wq, tp_workers := (tp_workers tp)[i := Wk_read self]\<rparr>"
  | (return) "i < length (tp_workers tp)" and "tp_workers tp ! i = Wk_wait"
      and "tp_work_queue tp = []" and "tp_stopping tp"
      and "tp' = tp\<lparr>tp_workers := (tp_workers tp)[i := Wk_done]\<rparr>"
  | (read_file) self rq result stored w where "i < length (tp_workers tp)"
      and "tp_workers tp ! i = Wk_read self" and "tp_requests tp self = Some rq"
      and "read_at sys (rq_fd rq) (unat (rq_byte_count rq)) (rq_offset rq) (tp_world tp) = Some ((result, stored), w)"
      and "tp' = tp\<lparr>tp_requests := (tp_requests tp)(self \<mapsto> rq\<lparr>rq_buffer := stored\<rparr>),
              tp_workers := (tp_workers tp)[i := Wk_publish self (completion_code result)], tp_world := w\<rparr>"
  | (publish) self r rq where "i < length (tp_workers tp)" and "tp_workers tp ! i = Wk_publish self r"
      and "tp_requests tp self = Some rq"
      and "tp' = tp\<lparr>tp_requests := (tp_requests tp)(self \<mapsto> rq\<lparr>rq_result := r\<rparr>),
              tp_completion_queue := tp_completion_queue tp @ [self],
              tp_workers := (tp_workers tp)[i := Wk_wait]\<rparr>"
proof (cases "tp_workers tp ! i")
  case Wk_wait
  with assms show ?thesis
    by (cases "tp_work_queue tp" rule: rev_cases)
      (auto simp: worker_step_def split: if_splits intro: take_work return)
qed (use assms in \<open>auto simp: worker_step_def split: if_splits option.splits prod.splits intro: read_file publish\<close>)

lemma worker_step_pending:
  assumes "worker_step sys i tp = Some tp'"
  shows "mset (pending tp') = mset (pending tp)"
  using assms
proof (cases rule: worker_step_cases)
  case (take_work wq self)
  then show ?thesis using mset_worker_requests [of i "tp_workers tp" "Wk_read self"] by (simp add: pending_def)
next
  case return
  then show ?thesis using mset_worker_requests [of i "tp_workers tp" Wk_done] by (simp add: pending_def)
next
  case (read_file self rq result stored w)
  then show ?thesis
    using mset_worker_requests [of i "tp_workers tp" "Wk_publish self (completion_code result)"]
    by (simp add: pending_def)
next
  case (publish self r rq)
  then show ?thesis using mset_worker_requests [of i "tp_workers tp" Wk_wait] by (simp add: pending_def)
qed

text \<open>A worker changes only the buffer and the result of the request it holds.\<close>

lemma worker_step_frame:
  assumes "worker_step sys i tp = Some tp'"
  shows "waits tp self \<Longrightarrow> waits tp' self" and "settled sys tp self \<Longrightarrow> settled sys tp' self"
    and "tp_tasks tp' = tp_tasks tp" and "tp_parameters tp' = tp_parameters tp"
    and "tp_next_frame tp' = tp_next_frame tp" and "tp_stopping tp' = tp_stopping tp"
    and "tp_inflight_count tp' = tp_inflight_count tp" and "tp_max_inflight tp' = tp_max_inflight tp"
    and "length (tp_workers tp') = length (tp_workers tp)"
  using assms by (cases rule: worker_step_cases; auto simp: waits_def settled_def)+

text \<open>What a worker holds, nobody else has.\<close>

lemma held_by_one:
  assumes "distinct (pending tp)" and "i < length (tp_workers tp)" and "worker_requests (tp_workers tp ! i) = [self]"
  shows "self \<notin> set (tp_completion_queue tp)" and "self \<notin> set (tp_work_queue tp)"
    and "pc \<in> set ((tp_workers tp)[i := new]) \<Longrightarrow> self \<in> set (worker_requests pc) \<Longrightarrow> pc = new"
proof -
  let ?rest = "concat (map worker_requests ((tp_workers tp)[i := Wk_done]))"
  have "mset (pending tp) = mset (self # tp_work_queue tp @ ?rest @ tp_completion_queue tp)"
    using mset_worker_requests [OF assms(2), of Wk_done, symmetric] assms(3) by (simp add: pending_def)
  then have d: "distinct (self # tp_work_queue tp @ ?rest @ tp_completion_queue tp)"
    using assms(1) by (metis mset_eq_imp_distinct_iff)
  then show "self \<notin> set (tp_completion_queue tp)" "self \<notin> set (tp_work_queue tp)" by simp_all
  assume pc: "pc \<in> set ((tp_workers tp)[i := new])" and self: "self \<in> set (worker_requests pc)"
  have "pc \<in> insert new (set ((tp_workers tp)[i := Wk_done]))"
    using pc set_update_subset_insert [of "(tp_workers tp)[i := Wk_done]" i new] by auto
  with self d show "pc = new" by auto
qed

lemma worker_step_answers:
  assumes ok: "pool_ok sys tp" and step: "worker_step sys i tp = Some tp'"
  shows "Wk_publish self r \<in> set (tp_workers tp') \<Longrightarrow> answered sys tp' self r"
    and "self \<in> set (tp_completion_queue tp') \<Longrightarrow> tp_requests tp' self = Some rq \<Longrightarrow>
      answered sys tp' self (rq_result rq)"
proof -
  note d = pool_okD(1) [OF ok] and pub = pool_okD(6) [OF ok] and cq = pool_okD(7) [OF ok]
  have old: "Wk_publish self r \<in> set ((tp_workers tp)[i := pc]) \<Longrightarrow> pc \<noteq> Wk_publish self r \<Longrightarrow>
      Wk_publish self r \<in> set (tp_workers tp)" for pc
    using set_update_subset_insert [of "tp_workers tp" i pc] by auto
  show "answered sys tp' self r" if w: "Wk_publish self r \<in> set (tp_workers tp')"
    using step
  proof (cases rule: worker_step_cases)
    case (read_file s rq result stored v)
    have "waits tp s"
      using pool_okD(4) [OF ok, of s] worker_in_pending [of "tp_workers tp ! i" tp s] read_file nth_mem [of i "tp_workers tp"]
      by simp
    with read_file have "answered sys tp' s (completion_code result)"
      by (auto simp: answered_def produced_def waits_def)
    moreover have "answered sys tp' self r" if "self \<noteq> s"
      using that w old pub read_file by (auto simp: answered_def)
    moreover have "r = completion_code result" if "self = s"
      using held_by_one(3) [OF d read_file(1), of s "Wk_publish self r"] w read_file that by auto
    ultimately show ?thesis by blast
  next
    case (publish s r' rq)
    then show ?thesis using w old pub by (auto simp: answered_def)
  qed (use w old pub in \<open>auto simp: answered_def\<close>)
  show "answered sys tp' self (rq_result rq)"
    if w: "self \<in> set (tp_completion_queue tp')" "tp_requests tp' self = Some rq"
    using step
  proof (cases rule: worker_step_cases)
    case (read_file s rq' result stored v)
    then show ?thesis using w cq held_by_one(1) [OF d read_file(1), of s]
      by (auto simp: answered_def split: if_splits)
  next
    case (publish s r' rq')
    have "answered sys tp s r'" using pub publish by (metis nth_mem)
    with publish show ?thesis using w cq by (auto simp: answered_def split: if_splits)
  qed (use w cq in \<open>auto simp: answered_def\<close>)
qed

lemma worker_step_ok:
  assumes ok: "pool_ok sys tp" and step: "worker_step sys i tp = Some tp'"
  shows "pool_ok sys tp'"
proof (rule pool_okI)
  note frame = worker_step_frame [OF step] and pend = worker_step_pending [OF step]
  have same: "set (pending tp') = set (pending tp)" "length (pending tp') = length (pending tp)"
    using pend by (metis set_mset_mset, metis size_mset)
  show "distinct (pending tp')" using pend pool_okD(1) [OF ok] by (metis mset_eq_imp_distinct_iff)
  show "unat (tp_inflight_count tp') = length (pending tp')" "tp_inflight_count tp' \<le> tp_max_inflight tp'"
    using pool_okD(2,3) [OF ok] same frame by simp_all
  show "self \<in> set (pending tp') \<Longrightarrow> waits tp' self" for self
    using pool_okD(4) [OF ok] same frame by simp
  show "self \<notin> set (pending tp') \<Longrightarrow> settled sys tp' self" for self
    using pool_okD(5) [OF ok] same frame by simp
  show "tp_next_frame tp' \<le> self \<Longrightarrow> tp_tasks tp' self = None" for self
    using pool_okD(9) [OF ok] frame by simp
  show "Wk_done \<in> set (tp_workers tp') \<Longrightarrow> tp_stopping tp' \<and> tp_work_queue tp' = []"
    using step pool_okD(8) [OF ok] by (cases rule: worker_step_cases) (auto dest!: set_update_subset_insert [THEN subsetD])
  show "Wk_publish self r \<in> set (tp_workers tp') \<Longrightarrow> answered sys tp' self r" for self r
    by (rule worker_step_answers [OF ok step])
  show "self \<in> set (tp_completion_queue tp') \<Longrightarrow> tp_requests tp' self = Some rq \<Longrightarrow>
      answered sys tp' self (rq_result rq)" for self rq
    by (rule worker_step_answers [OF ok step])
qed

text \<open>A coroutine that has returned or thrown, and what \<open>start\<close> and \<open>wait_one\<close> do.\<close>

definition finished_task :: "read_value res \<Rightarrow> (pool_frame, read_value) task" where
  "finished_task out =
     \<lparr>task_handle = Some \<lparr>co_frame = Frame_final,
        co_value = (case out of Inl _ \<Rightarrow> None | Inr v \<Rightarrow> Some v),
        co_exception = (case out of Inl e \<Rightarrow> Some e | Inr _ \<Rightarrow> None)\<rparr>, task_started = True\<rparr>"

definition suspended_task :: "nat \<Rightarrow> (pool_frame, read_value) task" where
  "suspended_task self =
     \<lparr>task_handle = Some \<lparr>co_frame = Frame_at (Frame_awaiting self), co_value = None, co_exception = None\<rparr>,
      task_started = True\<rparr>"

definition attached_request :: "read_parameters \<Rightarrow> nat \<Rightarrow> read_request" where
  "attached_request p self =
     \<lparr>rq_fd = rp_fd p, rq_buffer = [], rq_byte_count = rp_size p, rq_offset = rp_offset p,
      rq_completion = \<lparr>cr_continuation = Some self, cr_result = 0, cr_completed = False\<rparr>, rq_result = 0\<rparr>"

lemma pool_start_cases:
  assumes start: "pool_start self tp = Some (r, tp')" and ok: "pool_ok sys tp"
  obtains (refused) t e where "tp_tasks tp self = Some t" and "task_started t" and "r = Inl e" and "tp' = tp"
  | (invalid) e where "tp_tasks tp self = Some (task_new (Frame_begin self))"
      and "read_awaiter_new (tp_parameters tp self) = Inl e" and "r = Inr ()"
      and "tp' = tp\<lparr>tp_tasks := (tp_tasks tp)(self \<mapsto> finished_task (Inl e))\<rparr>"
  | (rejected) code where "tp_tasks tp self = Some (task_new (Frame_begin self))" and "r = Inr ()"
      and "code = ECANCELED \<and> tp_stopping tp \<or> code = EAGAIN \<and> \<not> tp_stopping tp \<and> tp_max_inflight tp \<le> tp_inflight_count tp"
      and "tp' = tp\<lparr>tp_tasks := (tp_tasks tp)(self \<mapsto> finished_task (read_outcome (- code) []))\<rparr>"
  | (accepted) "tp_tasks tp self = Some (task_new (Frame_begin self))" and "r = Inr ()" and "\<not> tp_stopping tp"
      and "tp_inflight_count tp < tp_max_inflight tp" and "unat (rp_size (tp_parameters tp self)) \<le> int_max"
      and "tp' = tp\<lparr>tp_work_queue := tp_work_queue tp @ [self], tp_inflight_count := tp_inflight_count tp + 1,
             tp_requests := (tp_requests tp)(self \<mapsto> attached_request (tp_parameters tp self) self),
             tp_tasks := (tp_tasks tp)(self \<mapsto> suspended_task self)\<rparr>"
proof -
  from start obtain t where t: "tp_tasks tp self = Some t" by (auto simp: pool_start_def split: option.splits)
  have handle: "\<exists>c. task_handle t = Some c" if "task_started t"
  proof (cases "self \<in> set (pending tp)")
    case True
    with pool_okD(4) [OF ok] t show ?thesis by (auto simp: waits_def)
  next
    case False
    with pool_okD(5) [OF ok] t that show ?thesis by (fastforce simp: settled_def)
  qed
  show thesis
  proof (cases "task_started t")
    case True
    then show ?thesis using refused handle start t by (auto simp: pool_start_def task_start_def fun_upd_idem)
  next
    case False
    have "self \<notin> set (pending tp)" using pool_okD(4) [OF ok] t False by (auto simp: waits_def)
    with pool_okD(5) [OF ok] t False have new: "t = task_new (Frame_begin self)" "tp_requests tp self = None"
      by (auto simp: settled_def)
    consider (i) e where "read_awaiter_new (tp_parameters tp self) = Inl e" | (r) rq where
      "read_awaiter_new (tp_parameters tp self) = Inr rq" by (cases "read_awaiter_new (tp_parameters tp self)") auto
    then show ?thesis
    proof cases
      case i
      then show ?thesis using start t new
        by (intro invalid [of e]) (auto simp: pool_start_def task_start_def task_new_def finished_task_def)
    next
      case r
      then have rq: "rq = (attached_request (tp_parameters tp self) self)\<lparr>rq_completion := completion_request_new\<rparr>"
        "unat (rp_size (tp_parameters tp self)) \<le> int_max"
        by (auto simp: read_awaiter_new_def attached_request_def not_less word_le_nat_alt split: if_splits)
      have drop: "tp\<lparr>tp_requests := (tp_requests tp)(self := None)\<rparr> = tp"
        using new(2) by (simp add: fun_upd_idem)
      have attach: "await_suspend self rq tp =
          (case try_submit self (tp\<lparr>tp_requests := (tp_requests tp)(self \<mapsto> attached_request (tp_parameters tp self) self)\<rparr>) of
             (submit_result, tp') \<Rightarrow>
               if submit_result < 0 then (Inr (Some submit_result), tp') else (Inr None, tp'))"
        by (simp add: rq(1) await_suspend_def set_continuation_def completion_request_new_def attached_request_def)
      have buf: "rq_buffer rq = []" by (simp add: rq(1) attached_request_def)
      have run: "pool_start self tp = Some (Inr (), tp1\<lparr>tp_tasks := (tp_tasks tp1)(self \<mapsto> finished_task out)\<rparr>)"
        if "pool_read_body (Frame_begin self) tp = Some (co_outcome out, tp1)" for out tp1
        using t that by (cases out)
          (simp_all add: new(1) pool_start_def task_start_def task_new_def finished_task_def co_outcome_def
            del: pool_read_body.simps)
      show ?thesis
      proof (cases "tp_stopping tp \<or> tp_max_inflight tp \<le> tp_inflight_count tp")
        case True
        let ?code = "if tp_stopping tp then ECANCELED else EAGAIN"
        have "pool_read_body (Frame_begin self) tp = Some (co_outcome (read_outcome (- ?code) []), tp)"
          using True by (auto simp: r attach try_submit_def drop_request_def drop buf
            await_resume_def read_outcome_def)
        from run [OF this] start t new True show ?thesis by (intro rejected [of ?code]) auto
      next
        case False
        then have "pool_read_body (Frame_begin self) tp = Some (Co_suspend (Frame_awaiting self),
            tp\<lparr>tp_work_queue := tp_work_queue tp @ [self], tp_inflight_count := tp_inflight_count tp + 1,
               tp_requests := (tp_requests tp)(self \<mapsto> attached_request (tp_parameters tp self) self)\<rparr>)"
          by (simp add: r attach try_submit_def)
        then have "pool_start self tp = Some (Inr (), tp\<lparr>tp_work_queue := tp_work_queue tp @ [self],
            tp_inflight_count := tp_inflight_count tp + 1,
            tp_requests := (tp_requests tp)(self \<mapsto> attached_request (tp_parameters tp self) self),
            tp_tasks := (tp_tasks tp)(self \<mapsto> suspended_task self)\<rparr>)"
          using t by (simp add: new(1) pool_start_def task_start_def task_new_def suspended_task_def
            del: pool_read_body.simps)
        with start t new rq(2) False show ?thesis by (intro accepted) auto
      qed
    qed
  qed
qed

lemma take_completion_ok:
  assumes ok: "pool_ok sys tp" and cq: "tp_completion_queue tp = cq @ [self]"
  obtains rq where "tp_requests tp self = Some rq" and "take_completion tp = Some (Inr (),
    tp\<lparr>tp_completion_queue := cq, tp_inflight_count := tp_inflight_count tp - 1,
       tp_requests := (tp_requests tp)(self := None),
       tp_tasks := (tp_tasks tp)(self \<mapsto> finished_task (read_outcome (rq_result rq) (rq_buffer rq)))\<rparr>)"
proof -
  have "self \<in> set (pending tp)" using cq by (simp add: pending_def)
  then obtain rq where rq: "tp_requests tp self = Some rq"
    "rq_completion rq = \<lparr>cr_continuation = Some self, cr_result = 0, cr_completed = False\<rparr>"
    "tp_tasks tp self = Some (suspended_task self)"
    using pool_okD(4) [OF ok] by (auto simp: waits_def suspended_task_def)
  then show ?thesis using cq
    by (intro that [of rq])
      (auto simp: take_completion_def complete_request_def resume_frame_def frame_done_def task_done_def
        suspended_task_def finished_task_def await_resume_def completion_result_def co_outcome_def
        drop_request_def read_outcome_def)
qed

text \<open>
  A caller that finishes, creates or forgets one settled task, and nothing else, keeps the
  invariant.
\<close>

lemma pool_ok_task:
  assumes ok: "pool_ok sys tp" and "tp_tasks tp self = Some t0 \<and> \<not> task_started t0 \<or> frame_done tp self"
    and "\<And>t'. t = Some t' \<Longrightarrow> settled_task sys (tp_parameters tp self) self t'"
  shows "pool_ok sys (tp\<lparr>tp_tasks := (tp_tasks tp)(self := t)\<rparr>)" (is "pool_ok sys ?tp'")
proof (rule pool_okI)
  have free: "self \<notin> set (pending tp)"
    using assms(2) pool_okD(4) [OF ok, of self] by (auto simp: waits_def frame_done_def task_done_def)
  note D = pool_okD [OF ok]
  have pend: "pending ?tp' = pending tp" by (simp add: pending_def)
  show "distinct (pending ?tp')" "unat (tp_inflight_count ?tp') = length (pending ?tp')"
    "tp_inflight_count ?tp' \<le> tp_max_inflight ?tp'" using D(1-3) pend by simp_all
  show "waits ?tp' s" if "s \<in> set (pending ?tp')" for s
    using D(4) [of s] that free unfolding pend by (auto simp: waits_def)
  show "settled sys ?tp' s" if "s \<notin> set (pending ?tp')" for s
    using D(5) [of s] that assms(3) unfolding pend by (cases "s = self") (auto simp: settled_def)
  show "answered sys ?tp' s r" if "Wk_publish s r \<in> set (tp_workers ?tp')" for s r
    using D(6) [of s r] that by (simp add: answered_def)
  show "answered sys ?tp' s (rq_result rq)" if "s \<in> set (tp_completion_queue ?tp')" "tp_requests ?tp' s = Some rq" for s rq
    using D(7) [of s rq] that by (simp add: answered_def)
  show "Wk_done \<in> set (tp_workers ?tp') \<Longrightarrow> tp_stopping ?tp' \<and> tp_work_queue ?tp' = []" using D(8) by simp
  have "self < tp_next_frame tp" using assms(2) D(9) [of self] by (force simp: frame_done_def not_le)
  then show "tp_tasks ?tp' s = None" if "tp_next_frame ?tp' \<le> s" for s using D(9) [of s] that by auto
qed

lemma settled_finished:
  "own_outcome sys p out \<Longrightarrow> settled_task sys p self (finished_task out)"
  by (cases out) (auto simp: finished_task_def)

lemma pool_read_at_ok:
  assumes ok: "pool_ok sys tp"
  shows "pool_ok sys (snd (pool_read_at p tp))" (is "pool_ok sys ?tp'")
proof (rule pool_okI)
  note D = pool_okD [OF ok]
  let ?new = "tp_next_frame tp"
  have tp': "?tp' = tp\<lparr>tp_tasks := (tp_tasks tp)(?new \<mapsto> task_new (Frame_begin ?new)),
      tp_parameters := (tp_parameters tp)(?new := p), tp_next_frame := Suc ?new\<rparr>"
    by (simp add: pool_read_at_def Let_def)
  have pend: "pending ?tp' = pending tp" by (simp add: tp' pending_def)
  have free: "?new \<notin> set (pending tp)" using D(4) [of ?new] D(9) [of ?new] by (auto simp: waits_def)
  have none: "tp_requests tp ?new = None" using D(5) [OF free] by (simp add: settled_def)
  show "distinct (pending ?tp')" "unat (tp_inflight_count ?tp') = length (pending ?tp')"
    "tp_inflight_count ?tp' \<le> tp_max_inflight ?tp'" using D(1-3) pend by (simp_all add: tp')
  show "waits ?tp' s" if "s \<in> set (pending ?tp')" for s
    using D(4) [of s] that free unfolding pend by (auto simp: waits_def tp')
  show "settled sys ?tp' s" if "s \<notin> set (pending ?tp')" for s
    using D(5) [of s] that none unfolding pend by (cases "s = ?new") (auto simp: settled_def tp' task_new_def)
  show "answered sys ?tp' s r" if "Wk_publish s r \<in> set (tp_workers ?tp')" for s r
    using D(6) [of s r] that none by (cases "s = ?new") (auto simp: answered_def tp')
  show "answered sys ?tp' s (rq_result rq)" if "s \<in> set (tp_completion_queue ?tp')" "tp_requests ?tp' s = Some rq" for s rq
    using D(7) [of s rq] that none by (cases "s = ?new") (auto simp: answered_def tp')
  show "Wk_done \<in> set (tp_workers ?tp') \<Longrightarrow> tp_stopping ?tp' \<and> tp_work_queue ?tp' = []" using D(8) by (simp add: tp')
  show "tp_tasks ?tp' s = None" if "tp_next_frame ?tp' \<le> s" for s using D(9) [of s] that by (simp add: tp')
qed

lemma pool_start_ok:
  assumes ok: "pool_ok sys tp" and start: "pool_start self tp = Some (r, tp')"
  shows "pool_ok sys tp'"
  using start ok
proof (cases rule: pool_start_cases)
  case (refused t e)
  with ok show ?thesis by simp
next
  case (invalid e)
  then have "own_outcome sys (tp_parameters tp self) (Inl e)" by (simp add: own_outcome_def)
  from settled_finished [OF this] show ?thesis unfolding invalid(4)
    by (intro pool_ok_task [OF ok, of _ "task_new (Frame_begin self)"]) (use invalid(1) in \<open>auto simp: task_new_def\<close>)
next
  case (rejected code)
  then have "own_outcome sys (tp_parameters tp self) (read_outcome (- code) [])" by (auto simp: own_outcome_def)
  from settled_finished [OF this] show ?thesis unfolding rejected(4)
    by (intro pool_ok_task [OF ok, of _ "task_new (Frame_begin self)"]) (use rejected(1) in \<open>auto simp: task_new_def\<close>)
next
  case accepted
  note D = pool_okD [OF ok]
  have free: "self \<notin> set (pending tp)" using D(4) [of self] accepted(1) by (auto simp: waits_def task_new_def)
  have none: "tp_requests tp self = None" using D(5) [OF free] by (simp add: settled_def)
  have pend: "mset (pending tp') = add_mset self (mset (pending tp))" by (simp add: accepted(6) pending_def)
  then have mem: "set (pending tp') = insert self (set (pending tp))" by (metis set_mset_mset set_mset_add_mset_insert)
  have "mset (pending tp') = mset (self # pending tp)" using pend by simp
  then have d: "distinct (pending tp')" using D(1) free by (metis distinct.simps(2) mset_eq_imp_distinct_iff)
  have len: "length (pending tp') = Suc (length (pending tp))" using pend by (metis size_mset size_add_mset)
  have room: "unat (tp_inflight_count tp + 1) = Suc (unat (tp_inflight_count tp))"
    using accepted(4) unsigned_less [of "tp_max_inflight tp", where 'a = nat]
    by (simp add: word_less_nat_alt unat_add_fits)
  show ?thesis
  proof (rule pool_okI [OF d])
    show "unat (tp_inflight_count tp') = length (pending tp')" using room len D(2) by (simp add: accepted(6))
    show "tp_inflight_count tp' \<le> tp_max_inflight tp'" using accepted(4) by (simp add: accepted(6) inc_le)
    show "waits tp' s" if "s \<in> set (pending tp')" for s
      using D(4) [of s] that free accepted(5) unfolding mem
      by (auto simp: waits_def accepted(6) attached_request_def suspended_task_def)
    show "settled sys tp' s" if "s \<notin> set (pending tp')" for s
      using D(5) [of s] that unfolding mem by (auto simp: settled_def accepted(6))
    show "answered sys tp' s r" if "Wk_publish s r \<in> set (tp_workers tp')" for s r
      using D(6) [of s r] that worker_in_pending [of "Wk_publish s r" tp s] free
      by (cases "s = self") (auto simp: answered_def accepted(6))
    show "answered sys tp' s (rq_result rq)" if "s \<in> set (tp_completion_queue tp')" "tp_requests tp' s = Some rq" for s rq
      using D(7) [of s rq] that free by (cases "s = self") (auto simp: answered_def accepted(6) pending_def)
    show "Wk_done \<in> set (tp_workers tp') \<Longrightarrow> tp_stopping tp' \<and> tp_work_queue tp' = []" using D(8) accepted(3) by (simp add: accepted(6))
    show "tp_tasks tp' s = None" if "tp_next_frame tp' \<le> s" for s
      using D(9) [of s] that accepted(1) by (auto simp: accepted(6))
  qed
qed

lemma take_completion_inv:
  assumes ok: "pool_ok sys tp" and cq: "tp_completion_queue tp = cq @ [self]" and rq: "tp_requests tp self = Some rq"
  shows "pool_ok sys (tp\<lparr>tp_completion_queue := cq, tp_inflight_count := tp_inflight_count tp - 1,
       tp_requests := (tp_requests tp)(self := None),
       tp_tasks := (tp_tasks tp)(self \<mapsto> finished_task (read_outcome (rq_result rq) (rq_buffer rq)))\<rparr>)"
    (is "pool_ok sys ?tp'")
proof -
  note D = pool_okD [OF ok]
  have pend: "mset (pending tp) = add_mset self (mset (pending ?tp'))" by (simp add: cq pending_def)
  then have mem: "set (pending tp) = insert self (set (pending ?tp'))" by (metis set_mset_mset set_mset_add_mset_insert)
  have "mset (pending tp) = mset (self # pending ?tp')" using pend by simp
  then have "distinct (self # pending ?tp')" using D(1) by (metis mset_eq_imp_distinct_iff)
  then have d: "distinct (pending ?tp')" and gone: "self \<notin> set (pending ?tp')" by simp_all
  have len: "length (pending tp) = Suc (length (pending ?tp'))" using pend by (metis size_mset size_add_mset)
  then have pos: "tp_inflight_count tp \<noteq> 0" using D(2) by auto
  then have less: "unat (tp_inflight_count tp - 1) = unat (tp_inflight_count tp) - 1" by (simp add: unat_minus_one)
  have "answered sys tp self (rq_result rq)" using D(7) [OF _ rq] cq by simp
  then have own: "own_outcome sys (tp_parameters tp self) (read_outcome (rq_result rq) (rq_buffer rq))"
    using rq by (auto simp: own_outcome_def answered_def)
  show ?thesis
  proof (rule pool_okI [OF d])
    show "unat (tp_inflight_count ?tp') = length (pending ?tp')" using less len D(2) by simp
    show "tp_inflight_count ?tp' \<le> tp_max_inflight ?tp'"
      using less D(3) by (simp add: word_le_nat_alt)
    show "waits ?tp' s" if "s \<in> set (pending ?tp')" for s
      using D(4) [of s] that gone unfolding mem by (auto simp: waits_def)
    show "settled sys ?tp' s" if "s \<notin> set (pending ?tp')" for s
      using D(5) [of s] that settled_finished [OF own] unfolding mem
      by (cases "s = self") (auto simp: settled_def)
    show "answered sys ?tp' s r" if "Wk_publish s r \<in> set (tp_workers ?tp')" for s r
      using D(6) [of s r] that worker_in_pending [of "Wk_publish s r" ?tp' s] gone
      by (cases "s = self") (auto simp: answered_def)
    show "answered sys ?tp' s (rq_result rq')" if "s \<in> set (tp_completion_queue ?tp')" "tp_requests ?tp' s = Some rq'" for s rq'
      using D(7) [of s rq'] that gone by (cases "s = self") (auto simp: answered_def cq)
    show "Wk_done \<in> set (tp_workers ?tp') \<Longrightarrow> tp_stopping ?tp' \<and> tp_work_queue ?tp' = []" using D(8) by simp
    show "tp_tasks ?tp' s = None" if "tp_next_frame ?tp' \<le> s" for s
      using D(9) [of s] D(9) [of self] D(4) [of self] that mem by (cases "s = self") (auto simp: waits_def)
  qed
qed

lemma task_result_settled:
  assumes "settled_task sys p self t" and "task_result t = (r, t')"
  shows "settled_task sys p self t'"
  using assms by (auto simp: task_result_def task_new_def split: option.splits if_splits)

lemma pool_result_ok:
  assumes ok: "pool_ok sys tp" and res: "pool_result self tp = Some (r, tp')"
  shows "pool_ok sys tp'"
proof -
  from res obtain t t' where t: "tp_tasks tp self = Some t" "task_result t = (r, t')"
    "tp' = tp\<lparr>tp_tasks := (tp_tasks tp)(self \<mapsto> t')\<rparr>"
    by (auto simp: pool_result_def split: option.splits prod.splits)
  show ?thesis
  proof (cases "self \<in> set (pending tp)")
    case True
    then have "t' = t" using pool_okD(4) [OF ok, of self] t by (auto simp: waits_def task_result_def)
    with t ok show ?thesis by (simp add: fun_upd_idem)
  next
    case False
    then have st: "settled_task sys (tp_parameters tp self) self t"
      using pool_okD(5) [OF ok, of self] t by (auto simp: settled_def)
    have "tp_tasks tp self = Some t \<and> \<not> task_started t \<or> frame_done tp self"
      using st t by (auto simp: frame_done_def task_done_def split: if_splits)
    then show ?thesis unfolding t(3)
      by (rule pool_ok_task [OF ok]) (use task_result_settled [OF st t(2)] in auto)
  qed
qed

lemma pool_step_ok: "pool_ok sys tp \<Longrightarrow> pool_step sys op tp = Some tp' \<Longrightarrow> pool_ok sys tp'"
proof (cases op)
  case (Pool_destroy self)
  assume ok: "pool_ok sys tp" and step: "pool_step sys op tp = Some tp'"
  then obtain t where "tp_tasks tp self = Some t" "task_started t \<longrightarrow> task_done t" "tp' = pool_destroy self tp"
    using Pool_destroy by (auto split: option.splits if_splits)
  then show ?thesis unfolding pool_destroy_def
    by (auto simp: frame_done_def intro!: pool_ok_task [OF ok])
next
  case Pool_wait_one
  assume ok: "pool_ok sys tp" and step: "pool_step sys op tp = Some tp'"
  show ?thesis
  proof (cases "tp_inflight_count tp = 0")
    case True
    with Pool_wait_one ok step show ?thesis by simp
  next
    case False
    with Pool_wait_one step obtain r where r: "take_completion tp = Some (r, tp')" and "tp_completion_queue tp \<noteq> []"
      by (auto split: if_splits)
    then obtain cq self where cq: "tp_completion_queue tp = cq @ [self]" by (cases "tp_completion_queue tp" rule: rev_cases) auto
    from take_completion_ok [OF ok cq] take_completion_inv [OF ok cq] r show ?thesis by (metis option.inject prod.inject)
  qed
next
  case Pool_stop
  assume ok: "pool_ok sys tp" and "pool_step sys op tp = Some tp'"
  then have tp': "tp' = tp\<lparr>tp_stopping := True\<rparr>" using Pool_stop by (simp add: begin_stop_def)
  have "pending tp' = pending tp" "waits tp' = waits tp" "settled sys tp' = settled sys tp"
    "answered sys tp' = answered sys tp"
    by (simp_all add: tp' fun_eq_iff pending_def waits_def settled_def answered_def)
  with ok show ?thesis unfolding pool_ok_def by (simp add: tp')
qed (auto intro: pool_read_at_ok pool_start_ok pool_result_ok worker_step_ok)

lemma pool_reachable_ok: "pool_reachable sys tp0 tp \<Longrightarrow> pool_ok sys tp0 \<Longrightarrow> pool_ok sys tp"
  by (induction rule: pool_reachable.induct) (auto intro: pool_step_ok)

lemma create_workers_wait: "create_workers spawn i n = Inr ws \<Longrightarrow> ws = replicate n Wk_wait"
  by (induction n arbitrary: i ws) (auto split: option.splits sum.splits)

lemma thread_pool_new_ok: "thread_pool_new k m spawn w = Inr tp \<Longrightarrow> pool_ok sys tp"
  by (auto simp: thread_pool_new_def pool_ok_def pending_def settled_def dest!: create_workers_wait
      split: if_splits sum.splits)

section \<open>Running the workers\<close>

text \<open>
  Under a scheduler that names the worker to step next (one that waits just waits), a thread that
  blocks lets the workers run. \<open>wait_one\<close> blocks until there is a completion, the destructor until
  every worker has returned.
\<close>

type_synonym scheduler = "nat \<Rightarrow> nat"

definition scheduled_step ::
  "'w posix_calls \<Rightarrow> scheduler \<Rightarrow> 'w thread_pool \<times> nat \<Rightarrow> 'w thread_pool \<times> nat" where
  "scheduled_step sys sched s =
     (case worker_step sys (sched (snd s)) (fst s) of
        None \<Rightarrow> (fst s, Suc (snd s))
      | Some tp \<Rightarrow> (tp, Suc (snd s)))"

partial_function (option) run_workers ::
  "'w posix_calls \<Rightarrow> scheduler \<Rightarrow> ('w thread_pool \<Rightarrow> bool) \<Rightarrow> 'w thread_pool \<times> nat \<Rightarrow>
     ('w thread_pool \<times> nat) option" where
  "run_workers sys sched until s =
     (if until (fst s) then Some s else run_workers sys sched until (scheduled_step sys sched s))"

declare run_workers.simps [code]

definition pool_wait_one ::
  "'w posix_calls \<Rightarrow> scheduler \<Rightarrow> 'w thread_pool \<times> nat \<Rightarrow> (unit res \<times> 'w thread_pool \<times> nat) option" where
  "pool_wait_one sys sched s =
     (if tp_inflight_count (fst s) = 0 then
        Some (Inl (Logic_error ''ThreadPoolBackend has no pending completion''), s)
      else
        (case run_workers sys sched (\<lambda>tp. tp_completion_queue tp \<noteq> []) s of
           None \<Rightarrow> None
         | Some (tp, k) \<Rightarrow>
             (case take_completion tp of None \<Rightarrow> None | Some (r, tp') \<Rightarrow> Some (r, tp', k))))"

definition thread_pool_destroy ::
  "'w posix_calls \<Rightarrow> scheduler \<Rightarrow> 'w thread_pool \<times> nat \<Rightarrow> ('w thread_pool \<times> nat) option" where
  "thread_pool_destroy sys sched s =
     run_workers sys sched (\<lambda>tp. list_all (\<lambda>pc. pc = Wk_done) (tp_workers tp)) (begin_stop (fst s), snd s)"

definition thread_pool_backend :: "'w posix_calls \<Rightarrow> scheduler \<Rightarrow> ('w thread_pool \<times> nat, nat) io_backend" where
  "thread_pool_backend sys sched =
     \<lparr>be_name = ''thread_pool'',
      be_read_at = (\<lambda>fd n offset (tp, k).
        case pool_read_at \<lparr>rp_null = False, rp_fd = fd, rp_size = n, rp_offset = offset\<rparr> tp of
          (self, tp') \<Rightarrow> (self, (tp', k))),
      be_start = (\<lambda>self (tp, k). case pool_start self tp of None \<Rightarrow> None | Some (r, tp') \<Rightarrow> Some (r, self, (tp', k))),
      be_done = (\<lambda>self (tp, k). frame_done tp self),
      be_wait_one = pool_wait_one sys sched,
      be_result = (\<lambda>self (tp, k).
        case pool_result self tp of
          None \<Rightarrow> (fst (task_result (null_task :: (pool_frame, read_value) task)), self, (tp, k))
        | Some (r, tp') \<Rightarrow> (r, self, (tp', k))),
      be_destroy = (\<lambda>self (tp, k). (pool_destroy self tp, k))\<rparr>"

text \<open>No worker is kept waiting for ever.\<close>

definition fair :: "scheduler \<Rightarrow> nat \<Rightarrow> bool" where
  "fair sched n \<longleftrightarrow> (\<forall>i < n. \<forall>k. \<exists>d. sched (k + d) = i)"

definition worker_weight :: "worker_pc \<Rightarrow> nat" where
  "worker_weight pc = (case pc of Wk_done \<Rightarrow> 0 | Wk_wait \<Rightarrow> 1 | Wk_publish _ _ \<Rightarrow> 2 | Wk_read _ \<Rightarrow> 3)"

definition pool_weight :: "'w thread_pool \<Rightarrow> nat" where
  "pool_weight tp = 3 * length (tp_work_queue tp) + sum_list (map worker_weight (tp_workers tp))"

lemma sum_list_update_nat:
  "i < length ws \<Longrightarrow> sum_list (map f (ws[i := pc])) + f (ws ! i) = sum_list (map f ws) + (f pc :: nat)"
  by (induction ws arbitrary: i) (auto split: nat.split)

lemma worker_step_weight:
  assumes "worker_step sys i tp = Some tp'"
  shows "Suc (pool_weight tp') = pool_weight tp"
  using assms
proof (cases rule: worker_step_cases)
  case (take_work wq self)
  then show ?thesis using sum_list_update_nat [of i "tp_workers tp" worker_weight "Wk_read self"]
    by (simp add: pool_weight_def worker_weight_def)
next
  case return
  then show ?thesis using sum_list_update_nat [of i "tp_workers tp" worker_weight Wk_done]
    by (simp add: pool_weight_def worker_weight_def)
next
  case (read_file self rq result stored w)
  then show ?thesis
    using sum_list_update_nat [of i "tp_workers tp" worker_weight "Wk_publish self (completion_code result)"]
    by (simp add: pool_weight_def worker_weight_def)
next
  case (publish self r rq)
  then show ?thesis using sum_list_update_nat [of i "tp_workers tp" worker_weight Wk_wait]
    by (simp add: pool_weight_def worker_weight_def)
qed

text \<open>If some worker can always step before the awaited condition, a fair scheduler reaches it.\<close>

lemma run_workers_returns:
  assumes fair: "fair sched n"
    and enabled: "\<And>tp. I tp \<Longrightarrow> \<not> until tp \<Longrightarrow> \<exists>i < n. worker_step sys i tp \<noteq> None"
    and kept: "\<And>tp i tp'. I tp \<Longrightarrow> \<not> until tp \<Longrightarrow> worker_step sys i tp = Some tp' \<Longrightarrow> I tp'"
  shows "I (fst s) \<Longrightarrow> \<exists>s'. run_workers sys sched until s = Some s' \<and> until (fst s') \<and> I (fst s')"
proof (induction "pool_weight (fst s)" arbitrary: s rule: less_induct)
  case less
  let ?returns = "\<lambda>s. \<exists>s'. run_workers sys sched until s = Some s' \<and> until (fst s') \<and> I (fst s')"
  show ?case
  proof (cases "until (fst s)")
    case True
    with less.prems show ?thesis by (simp add: run_workers.simps [of sys sched until s])
  next
    case False
    have unfold: "run_workers sys sched until (fst s, k) = run_workers sys sched until (scheduled_step sys sched (fst s, k))"
      for k using False by (subst run_workers.simps) simp
    have stepped: "?returns (fst s, k)" if "worker_step sys (sched k) (fst s) = Some tp'" for k tp'
    proof -
      have "scheduled_step sys sched (fst s, k) = (tp', Suc k)" using that by (simp add: scheduled_step_def)
      moreover have "?returns (tp', Suc k)"
        using less.hyps [of "(tp', Suc k)"] worker_step_weight [OF that] kept [OF less.prems False that] by simp
      ultimately show ?thesis unfolding unfold [of k] by simp
    qed
    from enabled [OF less.prems False] obtain i where "i < n" and i: "worker_step sys i (fst s) \<noteq> None" by blast
    with fair obtain d where d: "sched (snd s + d) = i" unfolding fair_def by blast
    have "sched (k + d) = i \<Longrightarrow> ?returns (fst s, k)" for k d
    proof (induction d arbitrary: k)
      case 0
      with i stepped show ?case by auto
    next
      case (Suc d)
      show ?case
      proof (cases "worker_step sys (sched k) (fst s)")
        case None
        then have "scheduled_step sys sched (fst s, k) = (fst s, Suc k)" by (simp add: scheduled_step_def)
        with Suc.IH [of "Suc k"] Suc.prems show ?thesis unfolding unfold [of k] by simp
      qed (rule stepped)
    qed
    from this [OF d] show ?thesis by simp
  qed
qed

section \<open>Progress\<close>

definition reads_return :: "'w posix_calls \<Rightarrow> bool" where
  "reads_return sys \<longleftrightarrow> (\<forall>fd n off w. read_at sys fd n off w \<noteq> None)"

lemma worker_enabled:
  assumes ok: "pool_ok sys tp" and i: "i < length (tp_workers tp)" and "tp_workers tp ! i \<noteq> Wk_done"
    and wait: "tp_workers tp ! i = Wk_wait \<Longrightarrow> tp_work_queue tp \<noteq> [] \<or> tp_stopping tp"
    and read: "\<And>self rq. tp_workers tp ! i = Wk_read self \<Longrightarrow> tp_requests tp self = Some rq \<Longrightarrow>
      read_at sys (rq_fd rq) (unat (rq_byte_count rq)) (rq_offset rq) (tp_world tp) \<noteq> None"
  shows "worker_step sys i tp \<noteq> None"
proof -
  have held: "tp_requests tp self \<noteq> None" if "worker_requests (tp_workers tp ! i) = [self]" for self
    using pool_okD(4) [OF ok, of self] worker_in_pending [of "tp_workers tp ! i" tp self] i that nth_mem [OF i]
    by (auto simp: waits_def)
  show ?thesis
  proof (cases "tp_workers tp ! i")
    case Wk_wait
    with wait i show ?thesis by (auto simp: worker_step_def)
  next
    case (Wk_read self)
    with held obtain rq where "tp_requests tp self = Some rq" by auto
    with read [OF Wk_read this] Wk_read i show ?thesis by (auto simp: worker_step_def)
  next
    case (Wk_publish self r)
    with held i show ?thesis by (auto simp: worker_step_def)
  qed (use assms(3) in simp)
qed

lemma some_worker_enabled:
  assumes ok: "pool_ok sys tp" and "reads_return sys"
    and "tp_workers tp \<noteq> []" and "\<not> tp_stopping tp" and "tp_inflight_count tp \<noteq> 0" and "tp_completion_queue tp = []"
  shows "\<exists>i < length (tp_workers tp). worker_step sys i tp \<noteq> None"
proof -
  have alive: "tp_workers tp ! i \<noteq> Wk_done" if "i < length (tp_workers tp)" for i
    using pool_okD(8) [OF ok] assms(4) nth_mem [OF that] by metis
  have "unat (tp_inflight_count tp) \<noteq> 0" using assms(5) by (simp add: unat_eq_0)
  then have "pending tp \<noteq> []" using pool_okD(2) [OF ok] by auto
  then consider "tp_work_queue tp \<noteq> []" | pc where "pc \<in> set (tp_workers tp)" "worker_requests pc \<noteq> []"
    using assms(6) by (auto simp: pending_def)
  then show ?thesis
  proof cases
    case 1
    then have "worker_step sys 0 tp \<noteq> None"
      using assms alive by (intro worker_enabled [OF ok]) (auto simp: reads_return_def)
    with assms(3) show ?thesis by blast
  next
    case 2
    then obtain i where i: "i < length (tp_workers tp)" "tp_workers tp ! i = pc" by (auto simp: in_set_conv_nth)
    then have "worker_step sys i tp \<noteq> None"
      using assms(2) 2 alive by (intro worker_enabled [OF ok]) (auto simp: reads_return_def)
    with i show ?thesis by blast
  qed
qed

text \<open>\<open>wait_one\<close> completes exactly one request of those in flight.\<close>

lemma pool_wait_one_progress:
  assumes ok: "pool_ok sys tp" and "reads_return sys" and "tp_workers tp \<noteq> []" and "\<not> tp_stopping tp"
    and "tp_inflight_count tp \<noteq> 0" and "fair sched (length (tp_workers tp))"
  obtains tp' k' self where "pool_wait_one sys sched (tp, k) = Some (Inr (), tp', k')" and "pool_ok sys tp'"
    and "tp_inflight_count tp' = tp_inflight_count tp - 1" and "self \<in> set (pending tp)"
    and "\<not> frame_done tp self" and "frame_done tp' self"
    and "\<And>s. s \<noteq> self \<Longrightarrow> tp_tasks tp' s = tp_tasks tp s"
proof -
  let ?I = "\<lambda>u. pool_ok sys u \<and> tp_tasks u = tp_tasks tp \<and> tp_inflight_count u = tp_inflight_count tp \<and>
    \<not> tp_stopping u \<and> length (tp_workers u) = length (tp_workers tp) \<and> mset (pending u) = mset (pending tp)"
  have "\<exists>s'. run_workers sys sched (\<lambda>tp. tp_completion_queue tp \<noteq> []) (tp, k) = Some s' \<and>
      tp_completion_queue (fst s') \<noteq> [] \<and> ?I (fst s')"
  proof (rule run_workers_returns [OF assms(6)])
    fix u assume "?I u" "\<not> tp_completion_queue u \<noteq> []"
    then show "\<exists>i < length (tp_workers tp). worker_step sys i u \<noteq> None"
      using some_worker_enabled [of sys u] assms(2,3,5) by (metis length_0_conv)
  next
    fix u i u' assume "?I u" and step: "worker_step sys i u = Some u'"
    then show "?I u'" using worker_step_ok [of sys u i u'] worker_step_frame [OF step] worker_step_pending [OF step] by simp
  qed (use ok assms(4) in simp)
  then obtain u k' where u: "run_workers sys sched (\<lambda>tp. tp_completion_queue tp \<noteq> []) (tp, k) = Some (u, k')"
    "tp_completion_queue u \<noteq> []" "?I u" by auto
  then obtain cq self where cq: "tp_completion_queue u = cq @ [self]" by (cases "tp_completion_queue u" rule: rev_cases) auto
  obtain rq where rq: "tp_requests u self = Some rq" and take: "take_completion u = Some (Inr (),
    u\<lparr>tp_completion_queue := cq, tp_inflight_count := tp_inflight_count u - 1,
       tp_requests := (tp_requests u)(self := None),
       tp_tasks := (tp_tasks u)(self \<mapsto> finished_task (read_outcome (rq_result rq) (rq_buffer rq)))\<rparr>)" (is "_ = Some (_, ?tp')")
    using take_completion_ok [of sys u, OF _ cq] u(3) by metis
  have "self \<in> set (pending u)" using cq by (simp add: pending_def)
  moreover have "waits u self" using pool_okD(4) [of sys u self] u(3) calculation by simp
  moreover have "set (pending u) = set (pending tp)" using u(3) by (metis set_mset_mset)
  ultimately have self: "self \<in> set (pending tp)" "\<not> frame_done tp self"
    using u(3) by (auto simp: waits_def frame_done_def task_done_def)
  show thesis
  proof (rule that)
    show "pool_wait_one sys sched (tp, k) = Some (Inr (), ?tp', k')"
      using assms(5) u(1) take by (simp add: pool_wait_one_def)
    show "pool_ok sys ?tp'" using take_completion_inv [of sys u, OF _ cq rq] u(3) by simp
    show "frame_done ?tp' self" by (simp add: frame_done_def task_done_def finished_task_def)
  qed (use u(3) self in simp_all)
qed

text \<open>The destructor returns, with every accepted request carried out.\<close>

lemma thread_pool_destroy_drains:
  assumes ok: "pool_ok sys tp" and "reads_return sys" and "fair sched (length (tp_workers tp))"
    and "tp_workers tp \<noteq> []"
  obtains tp' k' where "thread_pool_destroy sys sched (tp, k) = Some (tp', k')"
    and "mset (tp_completion_queue tp') = mset (pending tp)" and "set (tp_workers tp') \<subseteq> {Wk_done}"
    and "pool_ok sys tp'"
proof -
  let ?until = "\<lambda>tp. list_all (\<lambda>pc. pc = Wk_done) (tp_workers tp)"
  let ?I = "\<lambda>u. pool_ok sys u \<and> tp_stopping u \<and> length (tp_workers u) = length (tp_workers tp) \<and>
    mset (pending u) = mset (pending tp)"
  have stop: "?I (begin_stop tp)"
    using pool_step_ok [OF ok, of Pool_stop] by (simp add: begin_stop_def pending_def)
  have "\<exists>s'. run_workers sys sched ?until (begin_stop tp, k) = Some s' \<and> ?until (fst s') \<and> ?I (fst s')"
  proof (rule run_workers_returns [OF assms(3)])
    fix u assume I: "?I u" and "\<not> ?until u"
    then obtain i where i: "i < length (tp_workers u)" "tp_workers u ! i \<noteq> Wk_done" by (auto simp: list_all_length)
    then have "worker_step sys i u \<noteq> None"
      using I assms(2) by (intro worker_enabled) (auto simp: reads_return_def)
    with i I show "\<exists>i < length (tp_workers tp). worker_step sys i u \<noteq> None" by auto
  next
    fix u i u' assume "?I u" and step: "worker_step sys i u = Some u'"
    then show "?I u'" using worker_step_ok [of sys u i u'] worker_step_frame [OF step] worker_step_pending [OF step] by simp
  qed (use stop in simp)
  then obtain u k' where u: "run_workers sys sched ?until (begin_stop tp, k) = Some (u, k')" "?until u" "?I u" by auto
  show thesis
  proof (rule that)
    show "thread_pool_destroy sys sched (tp, k) = Some (u, k')" using u(1) by (simp add: thread_pool_destroy_def)
    have quiet: "concat (map worker_requests (tp_workers u)) = []" using u(2) by (auto simp: list_all_iff)
    have "tp_workers u \<noteq> []" using u(3) assms(4) by auto
    then have "tp_work_queue u = []"
      using u(2,3) pool_okD(8) [of sys u] by (cases "tp_workers u") auto
    with quiet have "pending u = tp_completion_queue u" by (simp add: pending_def)
    with u(3) show "mset (tp_completion_queue u) = mset (pending tp)" by simp
    show "set (tp_workers u) \<subseteq> {Wk_done}" using u(2) by (auto simp: list_all_iff)
    show "pool_ok sys u" using u(3) by simp
  qed
qed

section \<open>One read on an idle pool\<close>

text \<open>\<open>read_at\<close> reports positive error numbers and no more bytes than asked for.\<close>

definition plausible_reads :: "'w posix_calls \<Rightarrow> bool" where
  "plausible_reads sys \<longleftrightarrow>
     (\<forall>fd n off w result stored w'. read_at sys fd n off w = Some ((result, stored), w') \<longrightarrow>
        0 \<le> ra_error_number result \<and> bytes_read result \<le> n)"

definition pool_idle :: "'w posix_calls \<Rightarrow> nat \<Rightarrow> 'w thread_pool \<Rightarrow> bool" where
  "pool_idle sys n tp \<longleftrightarrow>
     pool_ok sys tp \<and> tp_inflight_count tp = 0 \<and> \<not> tp_stopping tp \<and> length (tp_workers tp) = n \<and> 0 < n \<and>
     tp_max_inflight tp \<noteq> 0"

lemma thread_pool_new_idle:
  assumes "thread_pool_new k m spawn w = Inr tp"
  shows "pool_idle sys (unat k) tp" and "tp_world tp = w"
  using assms thread_pool_new_ok [OF assms, of sys]
  by (auto simp: thread_pool_new_def pool_idle_def unat_gt_0 dest!: create_workers_wait split: if_splits sum.splits)

text \<open>
  The one request is still to be read, in the world \<open>w\<close>, or has been read once, with result \<open>r\<close>,
  bytes \<open>stored\<close> and the world \<open>w'\<close> after it.
\<close>

definition one_read ::
  "nat \<Rightarrow> 'w \<Rightarrow> int \<Rightarrow> byte list \<Rightarrow> 'w \<Rightarrow> 'w thread_pool \<Rightarrow> bool" where
  "one_read self w r stored w' tp \<longleftrightarrow>
     (self \<in> set (tp_work_queue tp) \<or> Wk_read self \<in> set (tp_workers tp)) \<and> tp_world tp = w \<or>
     (\<exists>rq. tp_requests tp self = Some rq \<and> rq_buffer rq = stored \<and> tp_world tp = w' \<and>
        (Wk_publish self r \<in> set (tp_workers tp) \<or> self \<in> set (tp_completion_queue tp) \<and> rq_result rq = r))"

lemma one_read_step:
  assumes ok: "pool_ok sys tp" and one: "pending tp = [self]" and cq: "tp_completion_queue tp = []"
    and p: "tp_parameters tp self = p"
    and read: "read_at sys (rp_fd p) (unat (rp_size p)) (rp_offset p) w = Some ((result, stored), w')"
    and inv: "one_read self w (completion_code result) stored w' tp"
    and step: "worker_step sys i tp = Some tp'"
  shows "one_read self w (completion_code result) stored w' tp'"
  using step
proof (cases rule: worker_step_cases)
  case (take_work wq s)
  with one have "s = self" "concat (map worker_requests (tp_workers tp)) = []"
    by (auto simp: pending_def append_eq_Cons_conv)
  with inv cq take_work show ?thesis
    by (auto simp: one_read_def intro: set_update_memI)
next
  case return
  have "worker_requests pc = [self] \<Longrightarrow> pc \<in> set (tp_workers tp) \<Longrightarrow> pc \<in> set ((tp_workers tp)[i := Wk_done])" for pc
    using return(1,2) by (metis in_set_conv_nth length_list_update nth_list_update_neq worker_requests_simps(1) list.distinct(1))
  with inv return show ?thesis by (auto simp: one_read_def)
next
  case (read_file s rq res st v)
  then have held: "worker_requests (tp_workers tp ! i) = [s]" by simp
  then have "s \<in> set (pending tp)" using read_file(1) by (intro worker_in_pending [of "tp_workers tp ! i"]) auto
  then have s: "s = self" using one by simp
  note alone = held_by_one [OF pool_okD(1) [OF ok] read_file(1) held]
  have same: "(tp_workers tp)[i := Wk_read self] = tp_workers tp" using read_file(2) s by (metis list_update_id)
  have "tp_world tp = w"
    using inv alone(3) [of "Wk_publish self (completion_code result)" "Wk_read self"] cq s unfolding same
    by (auto simp: one_read_def)
  moreover have "waits tp self" using pool_okD(4) [OF ok, of self] one by simp
  ultimately have "res = result" "st = stored" "v = w'"
    using read read_file(3,4) s p by (auto simp: waits_def)
  with read_file s show ?thesis by (auto simp: one_read_def intro: set_update_memI)
next
  case (publish s r rq)
  then have held: "worker_requests (tp_workers tp ! i) = [s]" by simp
  then have "s \<in> set (pending tp)" using publish(1) by (intro worker_in_pending [of "tp_workers tp ! i"]) auto
  then have s: "s = self" using one by simp
  note alone = held_by_one [OF pool_okD(1) [OF ok] publish(1) held]
  have same: "(tp_workers tp)[i := Wk_publish self r] = tp_workers tp" using publish(2) s by (metis list_update_id)
  have "Wk_read self \<notin> set (tp_workers tp)"
    using alone(3) [of "Wk_read self" "Wk_publish self r"] s unfolding same by auto
  moreover have "r' = r" if "Wk_publish self r' \<in> set (tp_workers tp)" for r'
    using alone(3) [of "Wk_publish self r'" "Wk_publish self r"] s that unfolding same by auto
  ultimately show ?thesis using inv alone(2) publish s cq by (auto simp: one_read_def)
qed

lemma pool_body_begins: "pool_read_body (Frame_begin self) tp \<noteq> None"
  by (auto split: sum.splits prod.splits option.splits)

lemma pool_start_new:
  assumes "tp_tasks tp self = Some (task_new (Frame_begin self))"
  obtains r tp' where "pool_start self tp = Some (r, tp')"
proof -
  obtain st tp1 where "pool_read_body (Frame_begin self) tp = Some (st, tp1)"
    using pool_body_begins [of self tp] by auto
  with assms have "pool_start self tp \<noteq> None"
    by (cases st) (simp_all add: pool_start_def task_start_def task_new_def del: pool_read_body.simps)
  with that show thesis by auto
qed

text \<open>What \<open>start\<close> makes of an idle pool, and what \<open>wait_one\<close> does for its only request.\<close>

lemma start_on_idle:
  assumes idle: "pool_idle sys n tp" and size: "unat (rp_size p) \<le> int_max" and nonnull: "\<not> rp_null p"
  obtains tp2 where "pool_start (tp_next_frame tp) (snd (pool_read_at p tp)) = Some (Inr (), tp2)"
    and "pool_ok sys tp2" and "pending tp2 = [tp_next_frame tp]" and "tp_work_queue tp2 = [tp_next_frame tp]"
    and "tp_parameters tp2 (tp_next_frame tp) = p" and "tp_inflight_count tp2 = 1"
    and "\<not> tp_stopping tp2" and "length (tp_workers tp2) = n" and "tp_max_inflight tp2 = tp_max_inflight tp"
    and "tp_world tp2 = tp_world tp" and "tp_completion_queue tp2 = []" and "\<not> frame_done tp2 (tp_next_frame tp)"
proof -
  let ?self = "tp_next_frame tp" and ?tp1 = "snd (pool_read_at p tp)"
  have ok: "pool_ok sys tp" and empty: "pending tp = []"
    using idle pool_okD(2) [of sys tp] by (auto simp: pool_idle_def)
  have ok1: "pool_ok sys ?tp1" by (rule pool_read_at_ok [OF ok])
  have tp1: "?tp1 = tp\<lparr>tp_tasks := (tp_tasks tp)(?self \<mapsto> task_new (Frame_begin ?self)),
      tp_parameters := (tp_parameters tp)(?self := p), tp_next_frame := Suc ?self\<rparr>"
    by (simp add: pool_read_at_def Let_def)
  obtain r tp2 where start: "pool_start ?self ?tp1 = Some (r, tp2)"
    by (rule pool_start_new [of ?tp1 ?self]) (simp_all add: tp1)
  from start ok1 show thesis
  proof (cases rule: pool_start_cases)
    case (refused t e)
    then show ?thesis by (auto simp: tp1 task_new_def)
  next
    case (invalid e)
    then show ?thesis using size nonnull by (auto simp: tp1 read_awaiter_new_def word_less_nat_alt split: if_splits)
  next
    case (rejected code)
    then show ?thesis using idle by (auto simp: tp1 pool_idle_def)
  next
    case accepted
    have ok2: "pool_ok sys tp2" by (rule pool_start_ok [OF ok1 start])
    show ?thesis
      by (rule that [of tp2]; (fact ok2)?)
        (use start accepted idle empty in \<open>auto simp: tp1 pool_idle_def pending_def frame_done_def
           task_done_def suspended_task_def\<close>)
  qed
qed

lemma wait_for_one_read:
  assumes ok: "pool_ok sys tp" and one: "pending tp = [self]" and queued: "tp_work_queue tp = [self]"
    and p: "tp_parameters tp self = p" and count: "tp_inflight_count tp = 1" and live: "\<not> tp_stopping tp"
    and n: "length (tp_workers tp) = n" "0 < n" "fair sched n"
    and read: "read_at sys (rp_fd p) (unat (rp_size p)) (rp_offset p) (tp_world tp) = Some ((result, stored), w')"
  obtains tp' k' where "pool_wait_one sys sched (tp, k) = Some (Inr (), tp', k')" and "pool_ok sys tp'"
    and "tp_tasks tp' self = Some (finished_task (read_outcome (completion_code result) stored))"
    and "tp_world tp' = w'" and "tp_inflight_count tp' = 0" and "\<not> tp_stopping tp'"
    and "length (tp_workers tp') = n" and "tp_max_inflight tp' = tp_max_inflight tp"
proof -
  let ?until = "\<lambda>u. tp_completion_queue u \<noteq> []"
  let ?I = "\<lambda>u. pool_ok sys u \<and> mset (pending u) = {#self#} \<and> tp_parameters u = tp_parameters tp \<and>
    tp_inflight_count u = 1 \<and> \<not> tp_stopping u \<and> length (tp_workers u) = n \<and>
    tp_max_inflight u = tp_max_inflight tp \<and> one_read self (tp_world tp) (completion_code result) stored w' u"
  have "\<exists>s'. run_workers sys sched ?until (tp, k) = Some s' \<and> ?until (fst s') \<and> ?I (fst s')"
  proof (rule run_workers_returns [OF n(3)])
    fix u assume I: "?I u" and nocq: "\<not> ?until u"
    then have pend: "pending u = [self]" by (simp add: mset_single_iff)
    have alive: "tp_workers u ! i \<noteq> Wk_done" if "i < n" for i
      using pool_okD(8) [of sys u] I nth_mem [of i "tp_workers u"] that by metis
    have waits: "waits u self" using pool_okD(4) [of sys u self] I pend by simp
    show "\<exists>i < n. worker_step sys i u \<noteq> None"
    proof (cases "tp_work_queue u = []")
      case False
      with pend have none: "concat (map worker_requests (tp_workers u)) = []" by (cases "tp_work_queue u") (auto simp: pending_def)
      have "worker_step sys 0 u \<noteq> None"
        using I n(2) False alive none nth_mem [of 0 "tp_workers u"] by (intro worker_enabled) force+
      with n(2) show ?thesis by blast
    next
      case True
      with pend nocq have "self \<in> set (concat (map worker_requests (tp_workers u)))" by (simp add: pending_def)
      then obtain pc where pc: "pc \<in> set (tp_workers u)" "self \<in> set (worker_requests pc)" by auto
      from pc(2) have "worker_requests pc = [self]" by (cases pc) simp_all
      then obtain i where i: "i < n" "worker_requests (tp_workers u ! i) = [self]"
        using I pc(1) by (metis in_set_conv_nth)
      have w: "tp_world u = tp_world tp" if "tp_workers u ! i = Wk_read s" for s
      proof -
        have "(tp_workers u)[i := Wk_read self] = tp_workers u" using that i(2) by (metis list_update_id worker_requests_simps(3) list.inject)
        then have "Wk_publish self r \<notin> set (tp_workers u)" for r
          using held_by_one(3) [of u i self "Wk_publish self r" "Wk_read self"] i I pool_okD(1) [of sys u] by auto
        with I True nocq show ?thesis by (auto simp: one_read_def)
      qed
      have "worker_step sys i u \<noteq> None"
        using I i alive by (intro worker_enabled) (use w waits p read in \<open>auto simp: waits_def\<close>)
      with i show ?thesis by blast
    qed
  next
    fix u i u' assume I: "?I u" and "\<not> ?until u" and step: "worker_step sys i u = Some u'"
    then have "one_read self (tp_world tp) (completion_code result) stored w' u'"
      by (intro one_read_step [OF _ _ _ _ read _ step]) (simp_all add: mset_single_iff p)
    with I show "?I u'"
      using worker_step_ok [of sys u i u'] worker_step_frame [OF step] worker_step_pending [OF step] step by simp
  next
    show "?I (fst (tp, k))" using ok one p count live n queued by (simp add: one_read_def)
  qed
  then obtain u k' where u: "run_workers sys sched ?until (tp, k) = Some (u, k')" "?until u" "?I u" by auto
  then have pend: "pending u = [self]" by (simp add: mset_single_iff)
  then have cq: "tp_completion_queue u = [] @ [self]" "tp_work_queue u = []"
    and idle: "concat (map worker_requests (tp_workers u)) = []"
    using u(2) by (auto simp: pending_def append_eq_Cons_conv)
  obtain rq where rq: "tp_requests u self = Some rq" and take: "take_completion u = Some (Inr (),
    u\<lparr>tp_completion_queue := [], tp_inflight_count := tp_inflight_count u - 1,
       tp_requests := (tp_requests u)(self := None),
       tp_tasks := (tp_tasks u)(self \<mapsto> finished_task (read_outcome (rq_result rq) (rq_buffer rq)))\<rparr>)" (is "_ = Some (_, ?tp')")
    using take_completion_ok [of sys u, OF _ cq(1)] u(3) by metis
  have read_done: "rq_result rq = completion_code result \<and> rq_buffer rq = stored \<and> tp_world u = w'"
    using u(3) idle cq(2) rq by (auto simp: one_read_def)
  show thesis
  proof (rule that)
    show "pool_wait_one sys sched (tp, k) = Some (Inr (), ?tp', k')"
      using count u(1) take by (simp add: pool_wait_one_def)
    show "pool_ok sys ?tp'" using take_completion_inv [of sys u, OF _ cq(1) rq] u(3) by simp
  qed (use u(3) read_done in simp_all)
qed

lemma pool_read_once:
  assumes idle: "pool_idle sys n tp" and size: "unat m \<le> int_max" and fair: "fair sched n"
    and read: "read_at sys fd (unat m) off (tp_world tp) = Some ((result, stored), w')"
  obtains tp' k' where "complete_read (thread_pool_backend sys sched) fd m off (tp, k) =
      Some (read_outcome (completion_code result) stored, tp', k')"
    and "tp_world tp' = w'" and "pool_idle sys n tp'"
proof -
  let ?p = "\<lparr>rp_null = False, rp_fd = fd, rp_size = m, rp_offset = off\<rparr>" and ?self = "tp_next_frame tp"
  let ?be = "thread_pool_backend sys sched"
  obtain tp2 where s: "pool_start ?self (snd (pool_read_at ?p tp)) = Some (Inr (), tp2)" "pool_ok sys tp2"
    "pending tp2 = [?self]" "tp_work_queue tp2 = [?self]" "tp_parameters tp2 ?self = ?p" "tp_inflight_count tp2 = 1"
    "\<not> tp_stopping tp2" "length (tp_workers tp2) = n" "tp_max_inflight tp2 = tp_max_inflight tp"
    "tp_world tp2 = tp_world tp" "\<not> frame_done tp2 ?self"
    using start_on_idle [OF idle, of ?p] size by auto
  have n: "0 < n" using idle by (simp add: pool_idle_def)
  obtain tp3 k' where w: "pool_wait_one sys sched (tp2, k) = Some (Inr (), tp3, k')" "pool_ok sys tp3"
    "tp_tasks tp3 ?self = Some (finished_task (read_outcome (completion_code result) stored))"
    "tp_world tp3 = w'" "tp_inflight_count tp3 = 0" "\<not> tp_stopping tp3" "length (tp_workers tp3) = n"
    "tp_max_inflight tp3 = tp_max_inflight tp2"
    by (rule wait_for_one_read [OF s(2-8) n fair]) (use read s(10) in simp_all)
  have dn: "frame_done tp3 ?self" using w(3) by (simp add: frame_done_def task_done_def finished_task_def)
  obtain tp4 where r: "pool_result ?self tp3 = Some (read_outcome (completion_code result) stored, tp4)"
    and tp4: "tp4 = tp3\<lparr>tp_tasks := tp_tasks tp4\<rparr>" "frame_done tp4 ?self"
    using w(3) by (cases "read_outcome (completion_code result) stored")
      (auto simp: pool_result_def task_result_def finished_task_def frame_done_def task_done_def)
  have ok4: "pool_ok sys tp4" by (rule pool_result_ok [OF w(2) r])
  have ok5: "pool_ok sys (pool_destroy ?self tp4)"
    unfolding pool_destroy_def by (rule pool_ok_task [OF ok4]) (use tp4(2) in simp_all)
  have be: "be_read_at ?be fd m off (tp, k) = (?self, snd (pool_read_at ?p tp), k)"
    "be_start ?be ?self (snd (pool_read_at ?p tp), k) = Some (Inr (), ?self, tp2, k)"
    "be_result ?be ?self (tp3, k') = (read_outcome (completion_code result) stored, ?self, tp4, k')"
    "be_destroy ?be ?self (tp4, k') = (pool_destroy ?self tp4, k')"
    "be_done ?be ?self (u, j) = frame_done u ?self" "be_wait_one ?be (tp2, k) = Some (Inr (), tp3, k')" for u j
    using s(1) r w(1) by (simp_all add: thread_pool_backend_def pool_read_at_def Let_def)
  have wd: "wait_until_done ?be ?self (tp2, k) = Some (Inr (), tp3, k')"
    using s(11) dn by (simp add: wait_until_done.simps [of ?be ?self "(tp2, k)"] wait_until_done.simps [of ?be ?self "(tp3, k')"] be)
  show thesis
  proof (rule that)
    show "complete_read ?be fd m off (tp, k) =
        Some (read_outcome (completion_code result) stored, pool_destroy ?self tp4, k')"
      by (simp add: complete_read_def be wd)
    show "tp_world (pool_destroy ?self tp4) = w'" using w(4) by (subst tp4(1)) (simp add: pool_destroy_def)
    have "tp_inflight_count tp4 = 0" "\<not> tp_stopping tp4" "length (tp_workers tp4) = n" "tp_max_inflight tp4 \<noteq> 0"
      using w(5-8) s(9) idle by (subst tp4(1), simp add: pool_idle_def)+
    with ok5 n show "pool_idle sys n (pool_destroy ?self tp4)"
      by (simp add: pool_idle_def) (simp add: pool_destroy_def)
  qed
qed

section \<open>A small pool\<close>

text \<open>
  Two workers and room for three requests over the file \<open>[1, 2, 3, 4, 5]\<close>; two reads of three bytes
  are in flight, one of them read and published.
\<close>

fun pool_run :: "'w posix_calls \<Rightarrow> pool_op list \<Rightarrow> 'w thread_pool \<Rightarrow> 'w thread_pool option" where
  "pool_run sys [] tp = Some tp"
| "pool_run sys (op # ops) tp = (case pool_step sys op tp of None \<Rightarrow> None | Some tp' \<Rightarrow> pool_run sys ops tp')"

lemma pool_run_reachable:
  "pool_run sys ops tp = Some tp' \<Longrightarrow> pool_reachable sys tp0 tp \<Longrightarrow> pool_reachable sys tp0 tp'"
  by (induction ops arbitrary: tp) (auto split: option.splits intro: pool_reach_step)

definition example_pool0 :: "byte list thread_pool" where
  "example_pool0 =
     \<lparr>tp_max_inflight = 3, tp_work_queue = [], tp_completion_queue = [],
      tp_inflight_count = 0, tp_stopping = False, tp_workers = [Wk_wait, Wk_wait],
      tp_requests = (\<lambda>_. None), tp_tasks = (\<lambda>_. None),
      tp_parameters = (\<lambda>_. \<lparr>rp_null = True, rp_fd = - 1, rp_size = 0, rp_offset = 0\<rparr>),
      tp_next_frame = 0, tp_world = [1, 2, 3, 4, 5]\<rparr>"

definition example_read :: "u64 \<Rightarrow> read_parameters" where
  "example_read off = \<lparr>rp_null = False, rp_fd = 3, rp_size = 3, rp_offset = off\<rparr>"

definition example_ops :: "pool_op list" where
  "example_ops = [Pool_read_at (example_read 0), Pool_read_at (example_read 3), Pool_start 0, Pool_start 1,
     Pool_worker 0, Pool_worker 0, Pool_worker 0]"

lemma example_pool_new: "thread_pool_new 2 3 (\<lambda>_. None) [1, 2, 3, 4, 5] = Inr example_pool0"
proof -
  have "create_workers (\<lambda>_. None) 0 2 = Inr [Wk_wait, Wk_wait]" by (simp add: numeral_2_eq_2)
  then show ?thesis by (simp add: thread_pool_new_def example_pool0_def)
qed

lemma plain_read_at:
  "read_at plain_posix fd n off w =
     Some ((\<lparr>bytes_read = length (read_slice w (unat off) n), ra_error_number = 0\<rparr>, read_slice w (unat off) n), w)"
  by (simp add: read_at_def read_at_with_def retry_read.simps system_file_io_operations_def
      system_read_at_def plain_posix_def)

lemma room_for_two: "((3 :: size_t) \<le> 1) = False"
  by (simp add: word_le_nat_alt)

lemmas pool_eval = room_for_two example_pool0_def example_read_def pool_read_at_def pool_start_def task_start_def task_new_def
  await_suspend_def try_submit_def set_continuation_def completion_request_new_def read_awaiter_new_def
  worker_step_def plain_read_at read_slice_def completion_code_def take_completion_def complete_request_def
  resume_frame_def frame_done_def task_done_def await_resume_def completion_result_def co_outcome_def
  drop_request_def pool_result_def task_result_def

lemma example_busy:
  obtains tp where "pool_run plain_posix example_ops example_pool0 = Some tp"
    and "tp_inflight_count tp = 2" and "pending tp = [0, 1]" and "\<not> tp_stopping tp"
  by (simp add: example_ops_def pool_eval pending_def)

lemma example_taken:
  obtains tp t t' where "pool_run plain_posix (example_ops @ [Pool_wait_one]) example_pool0 = Some tp"
    and "tp_tasks tp 1 = Some t" and "task_started t" and "task_done t" and "task_result t = (Inr (2, [4, 5]), t')"
    and "tp_parameters tp 1 = example_read 3"
proof -
  have "\<exists>tp t t'. pool_run plain_posix (example_ops @ [Pool_wait_one]) example_pool0 = Some tp \<and>
    tp_tasks tp 1 = Some t \<and> task_started t \<and> task_done t \<and> task_result t = (Inr (2, [4, 5]), t') \<and>
    tp_parameters tp 1 = example_read 3"
    by (simp add: example_ops_def pool_eval)
  with that show thesis by blast
qed

lemma plain_reads: "reads_return plain_posix" "plausible_reads plain_posix"
  by (simp_all add: reads_return_def plausible_reads_def plain_read_at read_slice_def)

lemma round_robin_fair: "0 < n \<Longrightarrow> fair (\<lambda>k. k mod n) n"
  unfolding fair_def
proof (intro allI impI)
  fix i k assume n: "0 < n" "i < n"
  have "(k + (n - k mod n + i)) mod n = (k - k mod n + k mod n + (n - k mod n) + i) mod n" by (simp add: add_ac)
  also have "\<dots> = ((k - k mod n) + n + i) mod n" using n(1) mod_less_divisor [of n k] by simp
  also have "\<dots> = i" using n(2) by (simp add: mod_add_left_eq [symmetric] minus_mod_eq_mult_div)
  finally show "\<exists>d. (k + d) mod n = i" by blast
qed

section \<open>Properties\<close>

lemma pool_step_static:
  assumes "pool_ok sys tp" and "pool_step sys op tp = Some tp'"
  shows "tp_max_inflight tp' = tp_max_inflight tp \<and> length (tp_workers tp') = length (tp_workers tp)"
proof (cases op)
  case (Pool_start self)
  with assms(2) obtain r where "pool_start self tp = Some (r, tp')" by auto
  then show ?thesis using assms(1) by (cases rule: pool_start_cases) simp_all
next
  case Pool_wait_one
  show ?thesis
  proof (cases "tp_completion_queue tp" rule: rev_cases)
    case (snoc cq self)
    obtain rq where "tp_requests tp self = Some rq" and "take_completion tp = Some (Inr (),
      tp\<lparr>tp_completion_queue := cq, tp_inflight_count := tp_inflight_count tp - 1,
         tp_requests := (tp_requests tp)(self := None),
         tp_tasks := (tp_tasks tp)(self \<mapsto> finished_task (read_outcome (rq_result rq) (rq_buffer rq)))\<rparr>)"
      by (rule take_completion_ok [OF assms(1) snoc])
    with Pool_wait_one assms(2) snoc show ?thesis by (auto split: if_splits)
  qed (use Pool_wait_one assms(2) in \<open>auto split: if_splits\<close>)
next
  case (Pool_worker i)
  with assms(2) have "worker_step sys i tp = Some tp'" by simp
  from worker_step_frame [OF this] show ?thesis by simp
qed (use assms(2) in \<open>auto simp: pool_read_at_def Let_def pool_result_def pool_destroy_def begin_stop_def
       split: option.splits prod.splits if_splits\<close>)

lemma pool_reachable_inv:
  assumes "thread_pool_new k m spawn w = Inr tp0" and "pool_reachable sys tp0 tp"
  shows "pool_ok sys tp" and "tp_max_inflight tp = m" and "length (tp_workers tp) = unat k" and "0 < unat k"
proof -
  have init: "pool_ok sys tp0" by (rule thread_pool_new_ok [OF assms(1)])
  show "pool_ok sys tp" by (rule pool_reachable_ok [OF assms(2) init])
  have "tp_max_inflight tp0 = m \<and> length (tp_workers tp0) = unat k" "0 < unat k"
    using assms(1) by (auto simp: thread_pool_new_def unat_gt_0 dest!: create_workers_wait split: if_splits sum.splits)
  moreover have "tp_max_inflight tp = tp_max_inflight tp0 \<and> length (tp_workers tp) = length (tp_workers tp0)"
    using assms(2)
  proof induction
    case (pool_reach_step tp op tp')
    then show ?case using pool_step_static [OF pool_reachable_ok [OF pool_reach_step(1) init] pool_reach_step(2)] by simp
  qed simp
  ultimately show "tp_max_inflight tp = m" "length (tp_workers tp) = unat k" "0 < unat k" by simp_all
qed

text \<open>
  C13: The pool never holds more than \<open>max_inflight\<close> requests. However its caller and its workers
  interleave, the counter is the number of requests that are queued, being read or complete; each of
  them is in one place only, and they are exactly those whose coroutine is suspended: no request is
  lost, duplicated or dangling.
\<close>

theorem thread_pool_inflight_exact:
  assumes "thread_pool_new k m spawn w = Inr tp0" and "pool_reachable sys tp0 tp"
  shows "tp_inflight_count tp \<le> m \<and> unat (tp_inflight_count tp) = length (pending tp) \<and> distinct (pending tp) \<and>
    (\<forall>self. self \<in> set (pending tp) \<longleftrightarrow>
       (\<exists>t. tp_tasks tp self = Some t \<and> task_started t \<and> \<not> task_done t)) \<and>
    (\<forall>self. self \<in> set (pending tp) \<longleftrightarrow> tp_requests tp self \<noteq> None)"
proof -
  note inv = pool_reachable_inv [OF assms] and ok = pool_reachable_inv(1) [OF assms]
  have in_pending: "waits tp self" if "self \<in> set (pending tp)" for self using pool_okD(4) [OF ok that] .
  have out_pending: "settled sys tp self" if "self \<notin> set (pending tp)" for self using pool_okD(5) [OF ok that] .
  have "self \<in> set (pending tp) \<longleftrightarrow> (\<exists>t. tp_tasks tp self = Some t \<and> task_started t \<and> \<not> task_done t)" for self
    using in_pending [of self] out_pending [of self]
    by (cases "self \<in> set (pending tp)") (auto simp: waits_def settled_def task_done_def)
  moreover have "self \<in> set (pending tp) \<longleftrightarrow> tp_requests tp self \<noteq> None" for self
    using in_pending [of self] out_pending [of self]
    by (cases "self \<in> set (pending tp)") (auto simp: waits_def settled_def)
  ultimately show ?thesis using pool_okD(1-3) [OF ok] inv(2) by simp
qed

theorem thread_pool_inflight_exact_witness:
  "\<exists>tp. pool_run plain_posix example_ops example_pool0 = Some tp \<and> tp_inflight_count tp \<le> 3 \<and>
     (\<forall>self. self \<in> {0, 1} \<longleftrightarrow> tp_requests tp self \<noteq> None)"
proof -
  obtain tp where tp: "pool_run plain_posix example_ops example_pool0 = Some tp" "pending tp = [0, 1]"
    by (rule example_busy)
  have members: "set (pending tp) = {0, 1}" using tp(2) by simp
  from thread_pool_inflight_exact [OF example_pool_new pool_run_reachable [OF tp(1) pool_reach_start], unfolded members]
  show ?thesis using tp(1) by (intro exI [of _ tp]) blast
qed

text \<open>
  C14: Every request gets its own result. A task that is done was rejected for its arguments, refused
  (\<open>EAGAIN\<close> or \<open>ECANCELED\<close>), or has the result and the bytes of a \<open>read_at\<close> with this task's own
  descriptor, size and offset, whichever worker read it and in whatever order completions were taken.
\<close>

theorem thread_pool_own_result:
  assumes "thread_pool_new k m spawn w = Inr tp0" and "pool_reachable sys tp0 tp"
    and "tp_tasks tp self = Some t" and "task_started t" and "task_done t" and "task_result t = (out, t')"
  shows "own_outcome sys (tp_parameters tp self) out \<or>
    out = Inl (Logic_error ''Task result has already been consumed'')"
proof -
  note ok = pool_reachable_inv(1) [OF assms(1,2)]
  have "self \<notin> set (pending tp)"
    using pool_okD(4) [OF ok, of self] assms(3,5) by (auto simp: waits_def task_done_def)
  then have "settled_task sys (tp_parameters tp self) self t"
    using pool_okD(5) [OF ok, of self] assms(3) unfolding settled_def by blast
  with assms(4) obtain c where "task_handle t = Some c" "co_frame c = Frame_final"
    "\<forall>e. co_exception c = Some e \<longrightarrow> own_outcome sys (tp_parameters tp self) (Inl e)"
    "\<forall>v. co_value c = Some v \<longrightarrow> own_outcome sys (tp_parameters tp self) (Inr v)" by auto
  with assms(4,6) show ?thesis by (auto simp: task_result_def split: option.splits)
qed

theorem thread_pool_own_result_witness:
  "own_outcome plain_posix (example_read 3) (Inr (2, [4, 5]))"
proof -
  obtain tp t t' where tp: "pool_run plain_posix (example_ops @ [Pool_wait_one]) example_pool0 = Some tp"
    "tp_tasks tp 1 = Some t" "task_started t" "task_done t" "task_result t = (Inr (2, [4, 5]), t')"
    "tp_parameters tp 1 = example_read 3" by (rule example_taken)
  from thread_pool_own_result [OF example_pool_new pool_run_reachable [OF tp(1) pool_reach_start] tp(2-5)] tp(6)
  show ?thesis by simp
qed

text \<open>
  C15: Waiting for a completion makes progress. If reads return and no worker is starved, \<open>wait_one\<close>
  on a pool with requests in flight returns, having completed one of them: its coroutine has run to
  its end, no other task has changed, and the counter is one less.
\<close>

theorem thread_pool_wait_one_progress:
  assumes "thread_pool_new k m spawn w = Inr tp0" and "pool_reachable sys tp0 tp"
    and "\<not> tp_stopping tp" and "tp_inflight_count tp \<noteq> 0" and "reads_return sys" and "fair sched (unat k)"
  shows "\<exists>tp' j' self. pool_wait_one sys sched (tp, j) = Some (Inr (), tp', j') \<and>
    tp_inflight_count tp' = tp_inflight_count tp - 1 \<and> \<not> frame_done tp self \<and> frame_done tp' self \<and>
    (\<forall>s. s \<noteq> self \<longrightarrow> tp_tasks tp' s = tp_tasks tp s)"
proof -
  note inv = pool_reachable_inv [OF assms(1,2)]
  have "tp_workers tp \<noteq> []" and fair: "fair sched (length (tp_workers tp))" using inv(3,4) assms(6) by auto
  from pool_wait_one_progress [OF inv(1) assms(5) this(1) assms(3,4) fair, of j] obtain tp' j' self where
    "pool_wait_one sys sched (tp, j) = Some (Inr (), tp', j')" "tp_inflight_count tp' = tp_inflight_count tp - 1"
    "\<not> frame_done tp self" "frame_done tp' self" "\<And>s. s \<noteq> self \<Longrightarrow> tp_tasks tp' s = tp_tasks tp s" by metis
  then show ?thesis by blast
qed

theorem thread_pool_wait_one_progress_witness:
  "\<exists>tp tp' j'. pool_run plain_posix example_ops example_pool0 = Some tp \<and>
     pool_wait_one plain_posix (\<lambda>k. k mod 2) (tp, 0) = Some (Inr (), tp', j') \<and> tp_inflight_count tp' = 1"
proof -
  obtain tp where tp: "pool_run plain_posix example_ops example_pool0 = Some tp" "tp_inflight_count tp = 2"
    "\<not> tp_stopping tp" by (rule example_busy)
  have "fair (\<lambda>k. k mod 2) (unat (2 :: size_t))" by (simp add: round_robin_fair)
  with thread_pool_wait_one_progress [OF example_pool_new pool_run_reachable [OF tp(1) pool_reach_start] tp(3) _
      plain_reads(1), of "\<lambda>k. k mod 2" 0] tp show ?thesis by auto
qed

text \<open>
  C16: The destructor returns and drains the pool. Once stopping, every submission is refused; if
  reads return and no worker is starved, all workers return, and every request that had been accepted
  has been carried out and waits in the completion queue.
\<close>

theorem thread_pool_destructor_drains:
  assumes "thread_pool_new k m spawn w = Inr tp0" and "pool_reachable sys tp0 tp"
    and "reads_return sys" and "fair sched (unat k)"
  shows "try_submit self (begin_stop tp) = (- ECANCELED, begin_stop tp) \<and>
    (\<exists>tp' j'. thread_pool_destroy sys sched (tp, j) = Some (tp', j') \<and>
       mset (tp_completion_queue tp') = mset (pending tp) \<and> set (tp_workers tp') \<subseteq> {Wk_done})"
proof -
  note inv = pool_reachable_inv [OF assms(1,2)]
  have "tp_workers tp \<noteq> []" and fair: "fair sched (length (tp_workers tp))" using inv(3,4) assms(4) by auto
  from thread_pool_destroy_drains [OF inv(1) assms(3) fair this(1), of j] obtain tp' j' where
    "thread_pool_destroy sys sched (tp, j) = Some (tp', j')"
    "mset (tp_completion_queue tp') = mset (pending tp)" "set (tp_workers tp') \<subseteq> {Wk_done}" by metis
  then show ?thesis by (simp add: try_submit_def begin_stop_def)
qed

theorem thread_pool_destructor_drains_witness:
  "\<exists>tp tp' j'. pool_run plain_posix example_ops example_pool0 = Some tp \<and>
     thread_pool_destroy plain_posix (\<lambda>k. k mod 2) (tp, 0) = Some (tp', j') \<and>
     mset (tp_completion_queue tp') = {#0, 1#}"
proof -
  obtain tp where tp: "pool_run plain_posix example_ops example_pool0 = Some tp" "pending tp = [0, 1]"
    by (rule example_busy)
  have "fair (\<lambda>k. k mod 2) (unat (2 :: size_t))" by (simp add: round_robin_fair)
  with thread_pool_destructor_drains [OF example_pool_new pool_run_reachable [OF tp(1) pool_reach_start]
      plain_reads(1), of "\<lambda>k. k mod 2" 0 0] tp show ?thesis by auto
qed

fun as_pool_read :: "read_value res \<Rightarrow> read_value res" where
  "as_pool_read (Inl (System_error e _)) = Inl (System_error e ''thread-pool read'')"
| "as_pool_read r = r"

lemma sint_small: "n \<le> int_max \<Longrightarrow> sint (of_nat n :: 32 word) = int n"
proof -
  assume n: "n \<le> int_max"
  have "sint (word_of_nat n :: 32 word) = signed_take_bit 31 (int n)" by (simp add: signed_of_nat)
  also have "\<dots> = int n" using n by (intro signed_take_bit_int_eq_self) simp_all
  finally show ?thesis by simp
qed

lemma completion_code_outcome:
  assumes "0 \<le> ra_error_number result" and "bytes_read result \<le> int_max"
  shows "read_outcome (completion_code result) stored =
    as_pool_read (if ra_error_number result \<noteq> 0
      then Inl (System_error (ra_error_number result) ''SyncBackend::read_at'')
      else Inr (of_nat (bytes_read result), stored))"
  using assms sint_small [OF assms(2)] by (auto simp: read_outcome_def completion_code_def)

text \<open>
  Reading through the thread pool is reading. On a pool with no request in flight, the whole
  protocol (creating and starting the task, waiting, its result, its destruction) ends with exactly
  what \<open>SyncBackend\<close> returns in the same world, one \<open>read_at\<close> having been made, and leaves the pool
  idle again; only the message of a \<open>std::system_error\<close> differs.
\<close>

theorem thread_pool_reads_like_sync:
  assumes "pool_idle sys n tp" and "fair sched n" and "unat m \<le> int_max" and "plausible_reads sys"
    and "sync_complete_read sys fd m off (tp_world tp) = Some (out, w')"
  shows "\<exists>tp' j'. complete_read (thread_pool_backend sys sched) fd m off (tp, j) =
      Some (as_pool_read out, tp', j') \<and> tp_world tp' = w' \<and> pool_idle sys n tp'"
proof -
  from assms(5) obtain result stored where read: "read_at sys fd (unat m) off (tp_world tp) = Some ((result, stored), w')"
    and out: "out = (if ra_error_number result \<noteq> 0
      then Inl (System_error (ra_error_number result) ''SyncBackend::read_at'')
      else Inr (of_nat (bytes_read result), stored))"
    by (auto simp: sync_complete_read_eq split: option.splits)
  have "0 \<le> ra_error_number result" "bytes_read result \<le> int_max"
    using assms(3,4) read unfolding plausible_reads_def by fastforce+
  from completion_code_outcome [OF this, of stored] out
  have "read_outcome (completion_code result) stored = as_pool_read out" by simp
  with pool_read_once [OF assms(1,3,2) read, of j] show ?thesis by metis
qed

theorem thread_pool_reads_like_sync_witness:
  "\<exists>tp' j'. complete_read (thread_pool_backend plain_posix (\<lambda>k. k mod 2)) 3 2 1 (example_pool0, 0) =
     Some (Inr (2, [2, 3]), tp', j') \<and> tp_world tp' = [1, 2, 3, 4, 5]"
proof -
  have "fair (\<lambda>k. k mod 2) (unat (2 :: size_t))" by (simp add: round_robin_fair)
  moreover have "sync_complete_read plain_posix 3 2 1 (tp_world example_pool0) =
      Some (Inr (2, [2, 3]), [1, 2, 3, 4, 5])"
    by (simp add: plain_posix_read read_slice_def Let_def example_pool0_def)
  ultimately show ?thesis
    using thread_pool_reads_like_sync [OF thread_pool_new_idle(1) [OF example_pool_new] _ _ plain_reads(2),
        of "\<lambda>k. k mod 2" 2 3 1 "Inr (2, [2, 3])" "[1, 2, 3, 4, 5]" 0] by auto
qed

end
