(* ===== verification/Thread_Pool_Runs.thy ===== *)
theory Thread_Pool_Runs
  imports Thread_Pool Executor_Properties
begin

text \<open>
  The executor over \<open>ThreadPoolBackend\<close>. Its reads are those of a thread pool that is idle between
  them, so a run over the pool is also a run over a backend that reads at once, for which the
  executor's theorems hold; the schedulers of the executor's threads and of the pool's workers are
  both arbitrary (the latter fair).
\<close>

section \<open>Runs with another backend\<close>

text \<open>A backend whose tasks are done when they are created.\<close>

definition immediate_backend ::
  "(int \<Rightarrow> size_t \<Rightarrow> u64 \<Rightarrow> 'w \<Rightarrow> read_value res \<times> 'w) \<Rightarrow> ('w, read_value res) io_backend" where
  "immediate_backend c =
     \<lparr>be_name = ''immediate'', be_read_at = c, be_start = (\<lambda>t w. Some (Inr (), t, w)),
      be_done = (\<lambda>t w. True), be_wait_one = (\<lambda>w. Some (Inr (), w)),
      be_result = (\<lambda>t w. (t, t, w)), be_destroy = (\<lambda>t w. w)\<rparr>"

lemma immediate_complete_read: "complete_read (immediate_backend c) fd n off w = Some (c fd n off w)"
  by (simp add: complete_read_def immediate_backend_def wait_until_done.simps split: prod.split)

definition with_backend ::
  "('r, 't2) io_backend \<Rightarrow> ('r, 't, 'o, 'u) exec_env \<Rightarrow> ('r, 't2, 'o, 'u) exec_env" where
  "with_backend be env =
     \<lparr>ev_backend = be, ev_sys = ev_sys env, ev_users = ev_users env, ev_input_fd = ev_input_fd env,
      ev_output_fd = ev_output_fd env, ev_metrics = ev_metrics env\<rparr>"

lemma with_backend_simps [simp]:
  "ev_backend (with_backend be env) = be" "ev_sys (with_backend be env) = ev_sys env"
  "ev_users (with_backend be env) = ev_users env" "ev_input_fd (with_backend be env) = ev_input_fd env"
  "ev_output_fd (with_backend be env) = ev_output_fd env" "ev_metrics (with_backend be env) = ev_metrics env"
  by (simp_all add: with_backend_def)

text \<open>Only the reader's read uses the backend, and only it changes the input world.\<close>

lemma run_step_with_backend:
  assumes "\<And>i off h. t = T_reader \<Longrightarrow> ex_reader s = R_read i off h \<Longrightarrow>
      complete_read be (ev_input_fd env) (handle_size h (ex_pool s)) off (ex_in s) =
      complete_read (ev_backend env) (ev_input_fd env) (handle_size h (ex_pool s)) off (ex_in s)"
  shows "run_step (with_backend be env) t ch s = run_step env t ch s"
proof (cases t)
  case T_main
  then show ?thesis by (cases "ex_main s") (simp_all add: run_step_def cong del: option.case_cong_weak sum.case_cong_weak)
next
  case T_reader
  with assms show ?thesis by (cases "ex_reader s") (simp_all add: run_step_def cong del: option.case_cong_weak sum.case_cong_weak)
next
  case T_processor
  then show ?thesis by (cases "ex_processor s") (simp_all add: run_step_def cong del: option.case_cong_weak sum.case_cong_weak)
next
  case T_writer
  then show ?thesis by (cases "ex_writer s") (simp_all add: run_step_def cong del: option.case_cong_weak sum.case_cong_weak)
qed

lemma reader_after_read_in: "ex_in (reader_after_read m i off h n s) = ex_in s"
  by (simp add: reader_after_read_def Let_def split: prod.split sum.split)

lemma fail_step_in: "fail_step f s = (nxt, s') \<Longrightarrow> ex_in s' = ex_in s"
  by (cases f) (auto split: option.splits prod.splits)

lemma run_step_in:
  assumes "run_step env t ch s = Some s'"
  shows "ex_in s' = ex_in s \<or> (\<exists>i off h r. t = T_reader \<and> ex_reader s = R_read i off h \<and>
    complete_read (ev_backend env) (ev_input_fd env) (handle_size h (ex_pool s)) off (ex_in s) = Some (r, ex_in s'))"
proof (cases t)
  case T_main
  with assms show ?thesis
    by (cases "ex_main s")
      (auto simp: run_step_def finish_run_def Let_def dest: fail_step_in split: option.splits prod.splits if_splits)
next
  case T_reader
  with assms show ?thesis
    by (cases "ex_reader s")
      (auto simp: run_step_def Let_def reader_after_read_in dest: fail_step_in
        split: option.splits prod.splits sum.splits push_result.splits)
next
  case T_processor
  with assms show ?thesis
    by (cases "ex_processor s")
      (auto simp: run_step_def Let_def dest: fail_step_in
        split: option.splits prod.splits push_result.splits pop_result.splits)
next
  case T_writer
  with assms show ?thesis
    by (cases "ex_writer s")
      (auto simp: run_step_def Let_def writer_after_write_same dest: fail_step_in
        split: option.splits prod.splits pop_result.splits)
qed

text \<open>The buffer that the reader reads into has the block size.\<close>

lemma reader_buffer_size:
  assumes "exec_inv (replicate k n) s" and "ex_reader s = R_read i off h"
  shows "handle_size h (ex_pool s) = n"
proof -
  have ok: "resources_ok (replicate k n) s" using assms(1) by (simp add: exec_inv_def)
  then have fits: "handle_fits (replicate k n) h" and "sizes (ex_pool s) = replicate k n"
    using assms(2) by (auto simp: resources_ok_def)
  then show ?thesis using sizes_handle [of h "ex_pool s"] by (auto simp: handle_fits_def)
qed

text \<open>
  A run over one backend is a run over another that answers alike in the worlds that satisfy \<open>P\<close>, if
  \<open>P\<close> holds at first and reads keep it.
\<close>

lemma reachable_with_backend:
  assumes "exec_reachable env S s0 s" and "exec_inv (replicate k n) s0" and "P (ex_in s0)"
    and kept: "\<And>off w r w'. P w \<Longrightarrow> complete_read (ev_backend env) (ev_input_fd env) n off w = Some (r, w') \<Longrightarrow> P w'"
    and alike: "\<And>off w. P w \<Longrightarrow> complete_read be (ev_input_fd env) n off w =
      complete_read (ev_backend env) (ev_input_fd env) n off w"
  shows "exec_reachable (with_backend be env) S s0 s \<and> P (ex_in s)"
  using assms(1)
proof induction
  case reach_start
  then show ?case using assms(3) by (simp add: exec_reachable.reach_start)
next
  case (reach_step s t ch s')
  have inv: "exec_inv (replicate k n) s" by (rule reachable_inv [OF reach_step(1) assms(2)])
  have P: "P (ex_in s)" and r: "exec_reachable (with_backend be env) S s0 s" using reach_step.IH by simp_all
  have "run_step (with_backend be env) t ch s = run_step env t ch s"
    by (rule run_step_with_backend) (simp add: reader_buffer_size [OF inv] alike [OF P])
  then have "exec_reachable (with_backend be env) S s0 s'"
    using reach_step.hyps(2,3) by (intro exec_reachable.reach_step [OF r]) auto
  moreover have "P (ex_in s')"
    using run_step_in [OF reach_step.hyps(2)] P kept [OF P] reader_buffer_size [OF inv] by auto
  ultimately show ?case ..
qed

section \<open>The thread pool\<close>

text \<open>The pool's reads as a function, total by answering with an error outside idle pools.\<close>

definition pool_reader ::
  "'w posix_calls \<Rightarrow> scheduler \<Rightarrow> nat \<Rightarrow> int \<Rightarrow> size_t \<Rightarrow> u64 \<Rightarrow> 'w thread_pool \<times> nat \<Rightarrow>
     read_value res \<times> 'w thread_pool \<times> nat" where
  "pool_reader sys sched n fd m off s =
     (if pool_idle sys n (fst s) \<and> unat m \<le> int_max
      then the (complete_read (thread_pool_backend sys sched) fd m off s)
      else (Inl (System_error EINVAL ''''), s))"

definition pool_serves :: "'w posix_calls \<Rightarrow> int \<Rightarrow> ('w \<Rightarrow> byte list) \<Rightarrow> bool" where
  "pool_serves sys fd img \<longleftrightarrow> sync_serves sys fd img \<and> plausible_reads sys"

lemma pool_read_serves:
  assumes "pool_serves sys fd img" and "pool_idle sys n (fst s)" and "unat m \<le> int_max" and "fair sched n"
  obtains out s' where "complete_read (thread_pool_backend sys sched) fd m off s = Some (out, s')"
    and "pool_idle sys n (fst s')" and "img (tp_world (fst s')) = img (tp_world (fst s))"
    and "read_outcome_ok (img (tp_world (fst s))) m off out"
proof -
  have serves: "sync_serves sys fd img" and pl: "plausible_reads sys" using assms(1) by (simp_all add: pool_serves_def)
  from sync.complete_ok [OF serves, of m off "tp_world (fst s)"] obtain r w' where
    r: "sync_complete_read sys fd m off (tp_world (fst s)) = Some (r, w')" "img w' = img (tp_world (fst s))"
    "read_outcome_ok (img (tp_world (fst s))) m off r" by blast
  then obtain result stored where read: "read_at sys fd (unat m) off (tp_world (fst s)) = Some ((result, stored), w')"
    and out: "r = (if ra_error_number result \<noteq> 0
      then Inl (System_error (ra_error_number result) ''SyncBackend::read_at'')
      else Inr (of_nat (bytes_read result), stored))"
    by (auto simp: sync_complete_read_eq split: option.splits)
  have "0 \<le> ra_error_number result" "bytes_read result \<le> int_max"
    using assms(3) pl read unfolding plausible_reads_def by fastforce+
  note code = completion_code_outcome [OF this, of stored]
  have ok: "read_outcome_ok (img (tp_world (fst s))) m off (read_outcome (completion_code result) stored)"
    using r(3) unfolding code out by (cases "ra_error_number result = 0") simp_all
  obtain tp' k' where "complete_read (thread_pool_backend sys sched) fd m off (fst s, snd s) =
      Some (read_outcome (completion_code result) stored, tp', k')" "tp_world tp' = w'" "pool_idle sys n tp'"
    by (rule pool_read_once [OF assms(2,3,4) read])
  with r(2) ok show thesis by (intro that [of _ "(tp', k')"]) simp_all
qed

lemma pool_reader_reads_file:
  assumes "pool_serves sys (ev_input_fd env) img" and "fair sched n"
  shows "reads_file (with_backend (immediate_backend (pool_reader sys sched n)) env) (\<lambda>s. img (tp_world (fst s)))"
  unfolding reads_file_def with_backend_simps immediate_complete_read
proof (intro allI)
  fix m :: size_t and off :: u64 and s
  show "\<exists>r s'. Some (pool_reader sys sched n (ev_input_fd env) m off s) = Some (r, s') \<and>
      img (tp_world (fst s')) = img (tp_world (fst s)) \<and> read_outcome_ok (img (tp_world (fst s))) m off r"
  proof (cases "pool_idle sys n (fst s) \<and> unat m \<le> int_max")
    case True
    then obtain out s' where "complete_read (thread_pool_backend sys sched) (ev_input_fd env) m off s = Some (out, s')"
      "img (tp_world (fst s')) = img (tp_world (fst s))" "read_outcome_ok (img (tp_world (fst s))) m off out"
      using pool_read_serves [OF assms(1) _ _ assms(2)] by blast
    with True show ?thesis by (simp add: pool_reader_def)
  qed (cases s; auto simp: pool_reader_def)
qed

lemma thread_pool_run:
  assumes "memalign_contract al" and "run_start al ifd ofd pl r (tp, j) out px m = (Inr s0, px', m')"
    and "exec_reachable env S s0 s" and "ev_backend env = thread_pool_backend sys sched"
    and "pool_idle sys n tp" and "fair sched n" and "pool_serves sys (ev_input_fd env) img"
    and "unat (block_size (px_config px)) \<le> int_max"
  shows "exec_reachable (with_backend (immediate_backend (pool_reader sys sched n)) env) S s0 s \<and>
    pool_idle sys n (fst (ex_in s))"
proof (rule reachable_with_backend [OF assms(3) run_start_inv(1) [OF assms(1,2)]])
  show "pool_idle sys n (fst (ex_in s0))"
    using assms(5) run_start_Inr [OF assms(2)] by (metis exec_state.select_convs(6) fst_conv)
next
  fix off w r w'
  assume "pool_idle sys n (fst w)"
    "complete_read (ev_backend env) (ev_input_fd env) (block_size (px_config px)) off w = Some (r, w')"
  then show "pool_idle sys n (fst w')"
    using pool_read_serves [OF assms(7) _ assms(8,6)] unfolding assms(4) by (metis option.inject prod.inject)
next
  fix off and w :: "'b thread_pool \<times> nat"
  assume idle: "pool_idle sys n (fst w)"
  obtain out w' where "complete_read (thread_pool_backend sys sched) (ev_input_fd env) (block_size (px_config px)) off w =
      Some (out, w')" using pool_read_serves [OF assms(7) idle assms(8,6)] by blast
  with idle assms(8) show "complete_read (immediate_backend (pool_reader sys sched n)) (ev_input_fd env)
      (block_size (px_config px)) off w = complete_read (ev_backend env) (ev_input_fd env) (block_size (px_config px)) off w"
    by (simp add: immediate_complete_read pool_reader_def assms(4))
qed

section \<open>A small run over a thread pool\<close>

definition pool_env ::
  "(byte list thread_pool \<times> nat, nat, byte list, nat) exec_env" where
  "pool_env =
     \<lparr>ev_backend = thread_pool_backend plain_posix (\<lambda>k. k mod 2), ev_sys = plain_posix,
      ev_users = throwing_stages, ev_input_fd = 3, ev_output_fd = 4, ev_metrics = no_runtime_metrics\<rparr>"

lemma pool_run_value:
  "map_option (\<lambda>s. (ex_main s, ex_out s)) (run_schedule pool_env example_schedule (small_start increment_pipeline (example_pool0, 0) [])) =
   Some (M_done (Inr \<lparr>prr_blocks_written = 1, prr_bytes_written = 5\<rparr>), [2, 3, 4, 5, 6])"
  by code_simp

section \<open>Properties\<close>

text \<open>
  C12: The executor over the thread pool copies the processed file. A run over a new pool with any
  number of workers, whose result is a success, has written the processed input, whatever the
  interleaving of the executor's threads and of the pool's workers (no worker being starved), and
  leaves the pool with no request in flight.
\<close>

theorem thread_pool_executor_copies_file:
  assumes "memalign_contract al" and "thread_pool_new k q spawn w0 = Inr tp"
    and "run_start al ifd ofd pl r (tp, j) out px m = (Inr s0, px', m')"
    and "exec_reachable env S s0 s" and "ex_main s = M_done (Inr res)"
    and "ev_backend env = thread_pool_backend sys sched" and "fair sched (unat k)"
    and "pool_serves sys (ev_input_fd env) inC" and "writes_file env outC"
    and "unat (block_size (px_config px)) \<le> int_max"
    and "set (map se_stage (pl_stages pl)) \<subseteq> {NoOpStage, ByteIncrementStage}"
  shows "inC (tp_world (fst (ex_in s))) = inC w0 \<and> tp_inflight_count (fst (ex_in s)) = 0 \<and>
    outC (ex_out s) = write_image (outC out) 0
      ((byte_increment ^^ count_list (map se_stage (pl_stages pl)) ByteIncrementStage) (inC w0)) \<and>
    unat (prr_bytes_written res) = length (inC w0)"
proof -
  let ?env = "with_backend (immediate_backend (pool_reader sys sched (unat k))) env"
  note new = thread_pool_new_idle [OF assms(2)]
  note run = thread_pool_run [OF assms(1,3,4,6) new(1) assms(7,8,10)]
  have "writes_file ?env outC" using assms(9) by (simp add: writes_file_def)
  from run_copies_file [OF assms(1,3) run [THEN conjunct1] assms(5)
      pool_reader_reads_file [OF assms(8,7)] this assms(11)] run new(2)
  show ?thesis by (simp add: pool_idle_def)
qed

theorem thread_pool_executor_copies_file_witness:
  "\<exists>s. run_schedule pool_env example_schedule (small_start increment_pipeline (example_pool0, 0) []) = Some s \<and>
     ex_out s = write_image [] 0 (byte_increment [1, 2, 3, 4, 5]) \<and> tp_inflight_count (fst (ex_in s)) = 0"
proof -
  from pool_run_value obtain s where
    s: "run_schedule pool_env example_schedule (small_start increment_pipeline (example_pool0, 0) []) = Some s"
      "ex_main s = M_done (Inr \<lparr>prr_blocks_written = 1, prr_bytes_written = 5\<rparr>)" by auto
  have reach: "exec_reachable pool_env UNIV (small_start increment_pipeline (example_pool0, 0) []) s"
    by (rule run_schedule_reachable [OF reach_start s(1)])
  have fair: "fair (\<lambda>k. k mod 2) (unat (2 :: size_t))" by (simp add: round_robin_fair)
  have env: "ev_backend pool_env = thread_pool_backend plain_posix (\<lambda>k. k mod 2)"
    and serves: "pool_serves plain_posix (ev_input_fd pool_env) (\<lambda>w. w)"
    by (simp_all add: pool_env_def pool_serves_def plain_posix_serves plain_reads)
  have writes: "writes_file pool_env (\<lambda>w. w)"
    using example_writes by (simp add: writes_file_def pool_env_def example_env_def)
  have config: "unat (block_size (px_config example_executor)) \<le> int_max"
    "set (map se_stage (pl_stages increment_pipeline)) \<subseteq> {NoOpStage, ByteIncrementStage}"
    by (simp_all add: example_executor_def small_config_def increment_pipeline_def)
  from thread_pool_executor_copies_file [OF example_inv(1) example_pool_new increment_run_start reach s(2) env fair
      serves writes config] s(1)
  show ?thesis by (simp add: increment_pipeline_def)
qed

end
