(* ===== verification/Serial_Reference.thy ===== *)
theory Serial_Reference
  imports Executor_Properties World_Invariants
begin

text \<open>
  The serial programs that the pipeline is measured against (\<open>src/benchmark/end_to_end_baseline.cpp\<close>
  and \<open>src/baseline/sync_preprocess_baseline.cpp\<close>) and the comparison of their outputs. Loops that
  need not end yield \<open>None\<close> then; the elapsed time of each stage of each block is an argument.
\<close>

section \<open>run_serial_pipeline_reference\<close>

record serial_pipeline_result =
  spr_blocks_written :: u64
  spr_bytes_written :: u64

text \<open>The counters after a block; the last \<open>checked_add\<close> gives the next offset.\<close>

definition serial_account :: "serial_pipeline_result \<Rightarrow> u64 \<Rightarrow> u64 \<Rightarrow> (serial_pipeline_result \<times> u64) res" where
  "serial_account result file_offset block_bytes =
     (case checked_add (spr_bytes_written result) block_bytes
             ''serial reference written-byte count overflow'' of
        Inl e \<Rightarrow> Inl e
      | Inr byte_total \<Rightarrow>
          (case checked_add (spr_blocks_written result) 1 ''serial reference block count overflow'' of
             Inl e \<Rightarrow> Inl e
           | Inr block_count \<Rightarrow>
               (case checked_add file_offset block_bytes ''serial reference file offset overflow'' of
                  Inl e \<Rightarrow> Inl e
                | Inr next_offset \<Rightarrow>
                    Inr (\<lparr>spr_blocks_written = block_count, spr_bytes_written = byte_total\<rparr>, next_offset))))"

partial_function (option) serial_loop ::
  "'w posix_calls \<Rightarrow> 'u user_stages \<Rightarrow> (u64 \<Rightarrow> nat \<Rightarrow> int) \<Rightarrow> size_t \<Rightarrow> int \<Rightarrow> int \<Rightarrow> u64 \<Rightarrow>
   serial_pipeline_result \<Rightarrow> 'u pipeline \<Rightarrow> metrics_registry \<Rightarrow> 'w \<Rightarrow>
     (serial_pipeline_result res \<times> 'u pipeline \<times> metrics_registry \<times> 'w) option" where
  "serial_loop sys us elapsed n input_fd output_fd file_offset result pl r w =
     (case read_at sys input_fd (unat n) file_offset w of
        None \<Rightarrow> None
      | Some ((read_result, stored), w1) \<Rightarrow>
          if ra_error_number read_result \<noteq> 0 then
            Some (Inl (System_error (ra_error_number read_result) ''serial reference pread''), pl, r, w1)
          else if bytes_read read_result = 0 then Some (Inr result, pl, r, w1)
          else
            (case pipeline_process us (elapsed file_offset) pl r stored of
               (Some e, pl', r', _) \<Rightarrow> Some (Inl e, pl', r', w1)
             | (None, pl', r', processed) \<Rightarrow>
                 (case write_all_at sys output_fd processed file_offset w1 of
                    None \<Rightarrow> None
                  | Some (write_result, w2) \<Rightarrow>
                      if wa_error_number write_result \<noteq> 0 then
                        Some (Inl (System_error (wa_error_number write_result) ''serial reference pwrite''),
                              pl', r', w2)
                      else if bytes_written write_result \<noteq> length processed then
                        Some (Inl (Runtime_error ''serial reference did not write the complete block''),
                              pl', r', w2)
                      else
                        (case serial_account result file_offset (size_to_u64 (of_nat (length processed))) of
                           Inl e \<Rightarrow> Some (Inl e, pl', r', w2)
                         | Inr (result', next_offset) \<Rightarrow>
                             serial_loop sys us elapsed n input_fd output_fd next_offset result' pl' r' w2))))"

definition run_serial_pipeline_reference ::
  "'m allocator \<Rightarrow> 'w posix_calls \<Rightarrow> 'u user_stages \<Rightarrow> (u64 \<Rightarrow> nat \<Rightarrow> int) \<Rightarrow> int \<Rightarrow> int \<Rightarrow>
   pipeline_config \<Rightarrow> 'u pipeline \<Rightarrow> metrics_registry \<Rightarrow> 'm \<Rightarrow> 'w \<Rightarrow>
     (serial_pipeline_result res \<times> 'u pipeline \<times> metrics_registry \<times> 'm \<times> 'w) option" where
  "run_serial_pipeline_reference al sys us elapsed input_fd output_fd config pl r m w =
     (case validate config of
        Inl e \<Rightarrow> Some (Inl e, pl, r, m, w)
      | Inr _ \<Rightarrow>
          if input_fd < 0 \<or> output_fd < 0 then
            Some (Inl (Invalid_argument ''serial reference descriptors must be valid''), pl, r, m, w)
          else if input_fd = output_fd then
            Some (Inl (Invalid_argument ''serial reference input and output descriptors must differ''),
                  pl, r, m, w)
          else if stage_count pl = 0 then
            Some (Inl (Invalid_argument ''serial reference requires at least one processing stage''),
                  pl, r, m, w)
          else
            (case aligned_buffer_new al (block_size config) (buffer_alignment config) m of
               (Inl e, m') \<Rightarrow> Some (Inl e, pl, r, m', w)
             | (Inr block, m') \<Rightarrow>
                 (case serial_loop sys us elapsed (ab_size block) input_fd output_fd 0
                         \<lparr>spr_blocks_written = 0, spr_bytes_written = 0\<rparr> pl r w of
                    None \<Rightarrow> None
                  | Some (result, pl', r', w') \<Rightarrow>
                      Some (result, pl', r', aligned_buffer_destroy al block m', w'))))"

section \<open>verify_files_equal_bounded\<close>

text \<open>\<open>std::mismatch\<close> over the two blocks: the position of the first difference.\<close>

fun mismatch :: "byte list \<Rightarrow> byte list \<Rightarrow> nat" where
  "mismatch (x # xs) (y # ys) = (if x = y then Suc (mismatch xs ys) else 0)"
| "mismatch _ _ = 0"

partial_function (option) verify_loop ::
  "'w posix_calls \<Rightarrow> size_t \<Rightarrow> int \<Rightarrow> int \<Rightarrow> u64 \<Rightarrow> 'w \<Rightarrow> (u64 res \<times> 'w) option" where
  "verify_loop sys n left_fd right_fd file_offset w =
     (case read_at sys left_fd (unat n) file_offset w of
        None \<Rightarrow> None
      | Some ((left_read, left_bytes), w1) \<Rightarrow>
          if ra_error_number left_read \<noteq> 0 then
            Some (Inl (System_error (ra_error_number left_read) ''read left benchmark output''), w1)
          else
            (case read_at sys right_fd (unat n) file_offset w1 of
               None \<Rightarrow> None
             | Some ((right_read, right_bytes), w2) \<Rightarrow>
                 if ra_error_number right_read \<noteq> 0 then
                   Some (Inl (System_error (ra_error_number right_read) ''read right benchmark output''), w2)
                 else if bytes_read left_read \<noteq> bytes_read right_read then
                   Some (Inl (Runtime_error (''benchmark outputs have different lengths at byte offset '' @
                     decimal (unat file_offset))), w2)
                 else if bytes_read left_read = 0 then Some (Inr file_offset, w2)
                 else
                   let local_offset = mismatch left_bytes right_bytes in
                   if local_offset \<noteq> length left_bytes then
                     (case checked_add file_offset (of_nat local_offset) ''benchmark mismatch offset overflow'' of
                        Inl e \<Rightarrow> Some (Inl e, w2)
                      | Inr position \<Rightarrow>
                          Some (Inl (Runtime_error (''benchmark outputs differ at byte offset '' @
                            decimal (unat position))), w2))
                   else
                     (case checked_add file_offset (size_to_u64 (of_nat (bytes_read left_read)))
                             ''benchmark verification offset overflow'' of
                        Inl e \<Rightarrow> Some (Inl e, w2)
                      | Inr next_offset \<Rightarrow> verify_loop sys n left_fd right_fd next_offset w2)))"

declare serial_loop.simps [code] verify_loop.simps [code]

definition open_comparison_input :: "'w posix_calls \<Rightarrow> string \<Rightarrow> string \<Rightarrow> 'w \<Rightarrow> int res \<times> 'w" where
  "open_comparison_input sys path operation w =
     (case open_read_only sys path w of (result, w1) \<Rightarrow>
        if of_error_number result \<noteq> 0 then (Inl (System_error (of_error_number result) operation), w1)
        else (Inr (of_fd result), w1))"

text \<open>
  The two guards and the two buffers are destroyed on every way out; \<open>close_fd\<close> is the guards'
  \<open>close\<close>.
\<close>

definition verify_files_equal_bounded ::
  "'m allocator \<Rightarrow> 'w posix_calls \<Rightarrow> (int \<Rightarrow> 'w \<Rightarrow> 'w) \<Rightarrow> string \<Rightarrow> string \<Rightarrow> pipeline_config \<Rightarrow> 'm \<Rightarrow> 'w \<Rightarrow>
     (u64 res \<times> 'm \<times> 'w) option" where
  "verify_files_equal_bounded al sys close_fd left_path right_path config m w =
     (case validate config of
        Inl e \<Rightarrow> Some (Inl e, m, w)
      | Inr _ \<Rightarrow>
     (case open_comparison_input sys left_path ''open left benchmark output'' w of
        (Inl e, w1) \<Rightarrow> Some (Inl e, m, w1)
      | (Inr left_fd, w1) \<Rightarrow>
     (case open_comparison_input sys right_path ''open right benchmark output'' w1 of
        (Inl e, w2) \<Rightarrow> Some (Inl e, m, close_fd left_fd w2)
      | (Inr right_fd, w2) \<Rightarrow>
     (case aligned_buffer_new al (block_size config) (buffer_alignment config) m of
        (Inl e, m1) \<Rightarrow> Some (Inl e, m1, close_fd left_fd (close_fd right_fd w2))
      | (Inr left_block, m1) \<Rightarrow>
     (case aligned_buffer_new al (block_size config) (buffer_alignment config) m1 of
        (Inl e, m2) \<Rightarrow>
          Some (Inl e, aligned_buffer_destroy al left_block m2, close_fd left_fd (close_fd right_fd w2))
      | (Inr right_block, m2) \<Rightarrow>
          (case verify_loop sys (ab_size left_block) left_fd right_fd 0 w2 of
             None \<Rightarrow> None
           | Some (result, w3) \<Rightarrow>
               Some (result, aligned_buffer_destroy al left_block (aligned_buffer_destroy al right_block m2),
                     close_fd left_fd (close_fd right_fd w3))))))))"

section \<open>run_sync_preprocess_baseline\<close>

record sync_preprocess_config =
  spc_input_path :: "string option"
  spc_output_path :: "string option"
  spc_block_size :: size_t

record sync_preprocess_result =
  spp_bytes_read :: u64
  spp_bytes_written :: u64
  spp_error_number :: int

text \<open>The letters of the block change case; \<open>'a'\<close> is 97, \<open>'A'\<close> is 65. \<open>char\<close> is compared signed.\<close>

definition toggle_case :: "byte \<Rightarrow> byte" where
  "toggle_case c =
     (if (97 \<le> sint c \<and> sint c \<le> 122) \<or> (65 \<le> sint c \<and> sint c \<le> 90) then c XOR 32 else c)"

partial_function (option) preprocess_loop ::
  "'w posix_calls \<Rightarrow> size_t \<Rightarrow> int \<Rightarrow> int \<Rightarrow> u64 \<Rightarrow> u64 \<Rightarrow> u64 \<Rightarrow> u64 \<Rightarrow> 'w \<Rightarrow>
     (sync_preprocess_result \<times> 'w) option" where
  "preprocess_loop sys n in_fd out_fd input_offset output_offset total_read total_written w =
     (case read_at sys in_fd (unat n) input_offset w of
        None \<Rightarrow> None
      | Some ((read_result, stored), w1) \<Rightarrow>
          if ra_error_number read_result \<noteq> 0 then
            Some (\<lparr>spp_bytes_read = total_read, spp_bytes_written = total_written,
                   spp_error_number = ra_error_number read_result\<rparr>, w1)
          else if bytes_read read_result = 0 then
            (case fsync_fd sys out_fd w1 of
               None \<Rightarrow> None
             | Some (fsync_result, w2) \<Rightarrow>
                 Some (\<lparr>spp_bytes_read = total_read, spp_bytes_written = total_written,
                        spp_error_number = fs_error_number fsync_result\<rparr>, w2))
          else
            (case write_all_at sys out_fd (map toggle_case stored) output_offset w1 of
               None \<Rightarrow> None
             | Some (write_result, w2) \<Rightarrow>
                 if wa_error_number write_result \<noteq> 0 then
                   Some (\<lparr>spp_bytes_read = total_read, spp_bytes_written = total_written,
                          spp_error_number = wa_error_number write_result\<rparr>, w2)
                 else
                   preprocess_loop sys n in_fd out_fd
                     (input_offset + of_nat (bytes_read read_result))
                     (output_offset + of_nat (bytes_written write_result))
                     (total_read + of_nat (bytes_read read_result))
                     (total_written + of_nat (bytes_written write_result)) w2))"

declare preprocess_loop.simps [code]

definition run_sync_preprocess_baseline ::
  "'w posix_calls \<Rightarrow> (string \<Rightarrow> 'w \<Rightarrow> syscall_result \<times> 'w) \<Rightarrow> (int \<Rightarrow> 'w \<Rightarrow> 'w) \<Rightarrow>
   sync_preprocess_config \<Rightarrow> 'w \<Rightarrow> (sync_preprocess_result \<times> 'w) option" where
  "run_sync_preprocess_baseline sys open_truncated close_fd config w =
     (let failed = (\<lambda>e. \<lparr>spp_bytes_read = 0, spp_bytes_written = 0, spp_error_number = e\<rparr>) in
      case (spc_input_path config, spc_output_path config) of
        (Some input_path, Some output_path) \<Rightarrow>
          if spc_block_size config = 0 then Some (failed EINVAL, w)
          else
            (case open_read_only sys input_path w of (in_result, w1) \<Rightarrow>
               if of_error_number in_result \<noteq> 0 then Some (failed (of_error_number in_result), w1)
               else
                 (case open_truncated output_path w1 of
                    (Sys_failed errno, w2) \<Rightarrow> Some (failed errno, close_fd (of_fd in_result) w2)
                  | (Sys_ok out_fd, w2) \<Rightarrow>
                      (case preprocess_loop sys (spc_block_size config) (of_fd in_result) (int out_fd)
                              0 0 0 0 w2 of
                         None \<Rightarrow> None
                       | Some (result, w3) \<Rightarrow>
                           Some (result, close_fd (of_fd in_result) (close_fd (int out_fd) w3)))))
      | _ \<Rightarrow> Some (failed EINVAL, w))"

section \<open>The serial reference\<close>

lemma serial_account_small:
  assumes "spr_bytes_written result = off" and "unat (spr_blocks_written result) \<le> unat off"
    and "unat off + k < 2 ^ 64" and "0 < k"
  obtains result' where "serial_account result off (of_nat k) = Inr (result', off + of_nat k)"
    and "spr_bytes_written result' = off + of_nat k"
    and "unat (spr_blocks_written result') \<le> unat (off + of_nat k)"
proof -
  have k: "unat (of_nat k :: u64) = k" using assms(3) by (simp add: unat_of_nat)
  have sum: "unat (off + of_nat k) = unat off + k" using assms(3) by (simp add: unat_add_fits k)
  have fits: "\<not> u64_max - off < of_nat k" using u64_add_fits [of off "of_nat k"] assms(3) k by simp
  have one: "unat (spr_blocks_written result + 1) = unat (spr_blocks_written result) + 1"
    using assms by (simp add: unat_add_fits)
  have "\<not> u64_max - spr_blocks_written result < 1"
    using u64_add_fits [of "spr_blocks_written result" 1] assms by simp
  with fits assms(1) have "serial_account result off (of_nat k) =
      Inr (\<lparr>spr_blocks_written = spr_blocks_written result + 1, spr_bytes_written = off + of_nat k\<rparr>, off + of_nat k)"
    by (simp add: serial_account_def checked_add_def)
  then show thesis by (rule that) (use one sum assms(2,4) in simp_all)
qed

context block_independent
begin

lemma serial_loop_correct:
  assumes sep: "separate_files sys ifd ofd inC outC" and n: "n \<noteq> 0"
  shows "stages_compute us (map se_stage (pl_stages pl)) transform \<Longrightarrow>
    unat off \<le> length (inC w) \<Longrightarrow> length (inC w) < 2 ^ 64 \<Longrightarrow>
    spr_bytes_written result = off \<Longrightarrow> unat (spr_blocks_written result) \<le> unat off \<Longrightarrow>
    outC w = write_image out0 0 (transform (take (unat off) (inC w))) \<Longrightarrow>
    \<exists>r pl' reg' w'. serial_loop sys us elapsed n ifd ofd off result pl reg w = Some (r, pl', reg', w') \<and>
      inC w' = inC w \<and>
      (case r of
         Inl e \<Rightarrow> is_system_error e
       | Inr res \<Rightarrow> outC w' = write_image out0 0 (transform (inC w)) \<and>
           unat (spr_bytes_written res) = length (inC w))"
proof (induction "length (inC w) - unat off" arbitrary: off result pl reg w rule: less_induct)
  case less
  note unfold = serial_loop.simps [of sys us elapsed n ifd ofd off result pl reg w]
  obtain rr stored w1 where rd: "read_at sys ifd (unat n) off w = Some ((rr, stored), w1)"
    "inC w1 = inC w" "outC w1 = outC w"
    and ok: "ra_error_number rr \<noteq> 0 \<or>
      ra_error_number rr = 0 \<and> bytes_read rr = length stored \<and> file_chunk (inC w) (unat n) (unat off) stored"
    by (rule separate_read [OF sep])
  show ?case
  proof (cases "ra_error_number rr = 0")
    case False
    with rd show ?thesis by (simp add: unfold)
  next
    case True
    with ok have chunk: "file_chunk (inC w) (unat n) (unat off) stored" and len: "bytes_read rr = length stored" by auto
    show ?thesis
    proof (cases "stored = []")
      case True
      with chunk n have "length (inC w) \<le> unat off" by (auto simp: file_chunk_def unat_eq_zero)
      with less.prems(2) have "unat off = length (inC w)" by simp
      with less.prems(4,6) rd True len \<open>ra_error_number rr = 0\<close> show ?thesis by (simp add: unfold)
    next
      case False
      obtain err pl1 reg1 out where pp: "pipeline_process us (elapsed off) pl reg stored = (err, pl1, reg1, out)"
        by (metis prod_cases4)
      have ran: "err = None" "map se_stage (pl_stages pl1) = map se_stage (pl_stages pl)" "out = transform stored"
        using pipeline_process_stages [OF pp] less.prems(1) by (auto simp: stages_compute_def)
      have le: "unat off + length stored \<le> length (inC w)" by (rule chunk_within [OF chunk False])
      then have fits: "unat off + length stored < 2 ^ 64" using less.prems(3) by simp
      then have out_fits: "unat off + length out < 2 ^ 64" by (simp add: ran transform_length)
      obtain wr w2 where w: "write_all_at sys ofd out off w1 = Some (wr, w2)" "inC w2 = inC w1"
        "outC w2 = write_image (outC w1) (unat off) (take (bytes_written wr) out)"
        "wa_error_number wr = 0 \<longleftrightarrow> bytes_written wr = length out"
        by (rule separate_write [OF sep out_fits])
      show ?thesis
      proof (cases "wa_error_number wr = 0")
        case False
        with rd len pp ran w \<open>stored \<noteq> []\<close> \<open>ra_error_number rr = 0\<close> show ?thesis by (simp add: unfold)
      next
        case True
        have pos: "0 < length stored" using False by simp
        obtain res' where acc: "serial_account result off (of_nat (length stored)) = Inr (res', off + of_nat (length stored))"
          "spr_bytes_written res' = off + of_nat (length stored)"
          "unat (spr_blocks_written res') \<le> unat (off + of_nat (length stored))"
          by (rule serial_account_small [OF less.prems(4,5) fits pos])
        have "unat (of_nat (length stored) :: u64) = length stored" using fits by (simp add: unat_of_nat)
        then have off': "unat (off + of_nat (length stored)) = unat off + length stored"
          using fits by (simp add: unat_add_fits)
        have step: "serial_loop sys us elapsed n ifd ofd off result pl reg w =
            serial_loop sys us elapsed n ifd ofd (off + of_nat (length stored)) res' pl1 reg1 w2"
          using rd len pp ran w True False acc(1) \<open>ra_error_number rr = 0\<close>
          by (simp add: unfold size_to_u64_def transform_length)
        have split: "take (unat off + length stored) (inC w) = take (unat off) (inC w) @ stored"
          using chunk by (simp add: take_add file_chunk_def)
        have "length (transform (take (unat off) (inC w))) = unat off" using less.prems(2) by (simp add: transform_length)
        then have image: "outC w2 = write_image out0 0 (transform (take (unat (off + of_nat (length stored))) (inC w2)))"
          using w True rd less.prems(6) write_image_append [of out0 0 "transform (take (unat off) (inC w))" out]
          by (simp add: off' split transform_append ran)
        have "length (inC w) - (unat off + length stored) < length (inC w) - unat off" using le pos by linarith
        then have "\<exists>r pl' reg' w'. serial_loop sys us elapsed n ifd ofd (off + of_nat (length stored)) res' pl1 reg1 w2 =
            Some (r, pl', reg', w') \<and> inC w' = inC w2 \<and>
            (case r of Inl e \<Rightarrow> is_system_error e
             | Inr res \<Rightarrow> outC w' = write_image out0 0 (transform (inC w2)) \<and>
                 unat (spr_bytes_written res) = length (inC w2))"
          using less.prems le rd w acc off' image ran(2) by (intro less.hyps) simp_all
        moreover have "inC w2 = inC w" using w rd by simp
        ultimately show ?thesis unfolding step by (simp cong del: sum.case_cong_weak)
      qed
    qed
  qed
qed

end

section \<open>The comparison\<close>

text \<open>Two files open for reading in one world.\<close>

definition two_inputs ::
  "'w posix_calls \<Rightarrow> int \<Rightarrow> int \<Rightarrow> ('w \<Rightarrow> byte list) \<Rightarrow> ('w \<Rightarrow> byte list) \<Rightarrow> bool" where
  "two_inputs sys left_fd right_fd L R \<longleftrightarrow>
     pread_contract (system_file_io_operations sys) left_fd (\<lambda>w. L w) \<and>
     pread_contract (system_file_io_operations sys) right_fd (\<lambda>w. R w) \<and>
     (\<exists>m. interrupts_bounded (system_file_io_operations sys) m) \<and>
     (\<forall>n off w r w'. op_read_at (system_file_io_operations sys) left_fd n off w = (r, w') \<longrightarrow> R w' = R w) \<and>
     (\<forall>n off w r w'. op_read_at (system_file_io_operations sys) right_fd n off w = (r, w') \<longrightarrow> L w' = L w)"

lemma two_inputs_read:
  assumes "two_inputs sys lfd rfd L R" and "fd = lfd \<and> C = L \<or> fd = rfd \<and> C = R"
  obtains result stored w' where "read_at sys fd n off w = Some ((result, stored), w')"
    and "L w' = L w" and "R w' = R w"
    and "ra_error_number result \<noteq> 0 \<or>
      ra_error_number result = 0 \<and> bytes_read result = length stored \<and> file_chunk (C w) n (unat off) stored"
proof -
  let ?ops = "system_file_io_operations sys"
  obtain m where c: "pread_contract ?ops fd C" "interrupts_bounded ?ops m"
    using assms unfolding two_inputs_def by blast
  have L: "L w' = L w" and R: "R w' = R w" if "op_read_at ?ops fd n off w = (r, w')" for n off w r w'
    using assms that unfolding two_inputs_def pread_contract_def by blast+
  from c show thesis
  proof (rule read_at_file [of sys fd C m n off w])
    fix result stored w'
    assume r: "read_at sys fd n off w = Some ((result, stored), w')"
      "ra_error_number result \<noteq> 0 \<or> ra_error_number result = 0 \<and> bytes_read result = length stored \<and>
        file_chunk (C w) n (unat off) stored"
      and K: "\<And>K :: 'a \<Rightarrow> byte list. (\<And>n off w r w'. op_read_at ?ops fd n off w = (r, w') \<Longrightarrow> K w' = K w) \<Longrightarrow> K w' = K w"
    have "L w' = L w" "R w' = R w" by (rule K, erule L, rule K, erule R)
    with r show thesis by (intro that)
  qed
qed

lemma mismatch_length: "length xs = length ys \<Longrightarrow> mismatch xs ys = length xs \<longleftrightarrow> xs = ys"
  by (induction xs ys rule: mismatch.induct) auto

lemma mismatch_le: "mismatch xs ys \<le> length xs"
  by (induction xs ys rule: mismatch.induct) auto

text \<open>Reads that are as long as the file allows.\<close>

definition full_reads :: "'w posix_calls \<Rightarrow> int \<Rightarrow> ('w \<Rightarrow> byte list) \<Rightarrow> bool" where
  "full_reads sys fd C \<longleftrightarrow>
     (\<forall>n off w result stored w'. read_at sys fd n off w = Some ((result, stored), w') \<longrightarrow>
        ra_error_number result = 0 \<and> length stored = min n (length (C w) - unat off))"

lemma verify_loop_correct:
  assumes two: "two_inputs sys lfd rfd L R" and n: "n \<noteq> 0"
  shows "unat off \<le> length (L w) \<Longrightarrow> unat off \<le> length (R w) \<Longrightarrow> length (L w) < 2 ^ 64 \<Longrightarrow>
    take (unat off) (L w) = take (unat off) (R w) \<Longrightarrow>
    \<exists>r w'. verify_loop sys n lfd rfd off w = Some (r, w') \<and>
      (\<forall>k. r = Inr k \<longrightarrow> L w = R w \<and> unat k = length (L w)) \<and>
      (full_reads sys lfd L \<longrightarrow> full_reads sys rfd R \<longrightarrow> L w = R w \<longrightarrow> (\<exists>k. r = Inr k))"
proof (induction "length (L w) - unat off" arbitrary: off w rule: less_induct)
  case less
  note unfold = verify_loop.simps [of sys n lfd rfd off w]
  obtain lr ls w1 where l: "read_at sys lfd (unat n) off w = Some ((lr, ls), w1)" "L w1 = L w" "R w1 = R w"
    and lok: "ra_error_number lr \<noteq> 0 \<or>
      ra_error_number lr = 0 \<and> bytes_read lr = length ls \<and> file_chunk (L w) (unat n) (unat off) ls"
    by (rule two_inputs_read [OF two, of lfd L]) simp_all
  obtain rr rs w2 where r: "read_at sys rfd (unat n) off w1 = Some ((rr, rs), w2)" "L w2 = L w1" "R w2 = R w1"
    and rok: "ra_error_number rr \<noteq> 0 \<or>
      ra_error_number rr = 0 \<and> bytes_read rr = length rs \<and> file_chunk (R w1) (unat n) (unat off) rs"
    by (rule two_inputs_read [OF two, of rfd R]) simp_all
  have full_l: "ra_error_number lr = 0 \<and> length ls = min (unat n) (length (L w) - unat off)" if "full_reads sys lfd L"
    using that l(1) unfolding full_reads_def by blast
  have full_r: "ra_error_number rr = 0 \<and> length rs = min (unat n) (length (R w) - unat off)" if "full_reads sys rfd R"
    using that r(1) l(3) unfolding full_reads_def by metis
  show ?case
  proof (cases "ra_error_number lr = 0 \<and> ra_error_number rr = 0")
    case False
    then show ?thesis using l r full_l full_r by (cases "ra_error_number lr = 0") (auto simp: unfold)
  next
    case noerr: True
    have lc: "file_chunk (L w) (unat n) (unat off) ls" and ln: "bytes_read lr = length ls" using lok noerr by auto
    have rc: "file_chunk (R w) (unat n) (unat off) rs" and rn: "bytes_read rr = length rs" using rok noerr l(3) by auto
    show ?thesis
    proof (cases "length ls = length rs")
      case False
      with l r noerr ln rn full_l full_r show ?thesis by (auto simp: unfold)
    next
      case len: True
      show ?thesis
      proof (cases "ls = []")
        case True
        with lc n have "length (L w) \<le> unat off" by (auto simp: file_chunk_def unat_eq_zero)
        moreover have "length (R w) \<le> unat off" using rc n True len by (auto simp: file_chunk_def unat_eq_zero)
        ultimately have "L w = R w" "unat off = length (L w)" using less.prems by simp_all
        with l r noerr ln rn True len show ?thesis by (auto simp: unfold)
      next
        case False
        have le: "unat off + length ls \<le> length (L w)" by (rule chunk_within [OF lc False])
        have le': "unat off + length rs \<le> length (R w)" using False len by (intro chunk_within [OF rc]) auto
        have cut: "ls = take (length ls) (drop (unat off) (L w))" "rs = take (length rs) (drop (unat off) (R w))"
          using lc rc by (simp_all add: file_chunk_def)
        show ?thesis
        proof (cases "ls = rs")
          case False
          have "mismatch ls rs \<noteq> length ls" using False len mismatch_length by blast
          moreover have "L w \<noteq> R w" using False cut len by metis
          ultimately show ?thesis using l r noerr ln rn len \<open>ls \<noteq> []\<close>
            by (auto simp: unfold Let_def checked_add_def)
        next
          case True
          have same: "mismatch ls ls = length ls" by (simp add: mismatch_length)
          have k: "unat (of_nat (length ls) :: u64) = length ls" using le less.prems(3) by (simp add: unat_of_nat)
          then have off': "unat (off + of_nat (length ls)) = unat off + length ls"
            using le less.prems(3) by (simp add: unat_add_fits)
          have "\<not> u64_max - off < of_nat (length ls)"
            using u64_add_fits [of off "of_nat (length ls)"] le less.prems(3) k by simp
          then have step: "verify_loop sys n lfd rfd off w = verify_loop sys n lfd rfd (off + of_nat (length ls)) w2"
            using l r noerr ln rn True same \<open>ls \<noteq> []\<close> by (simp add: unfold Let_def checked_add_def size_to_u64_def)
          have "take (unat off + length ls) (L w) = take (unat off + length ls) (R w)"
            using less.prems(4) cut True by (simp add: take_add)
          moreover have "length (L w) - (unat off + length ls) < length (L w) - unat off"
            using le \<open>ls \<noteq> []\<close> by (cases ls) auto
          ultimately have "\<exists>r w'. verify_loop sys n lfd rfd (off + of_nat (length ls)) w2 = Some (r, w') \<and>
              (\<forall>k. r = Inr k \<longrightarrow> L w2 = R w2 \<and> unat k = length (L w2)) \<and>
              (full_reads sys lfd L \<longrightarrow> full_reads sys rfd R \<longrightarrow> L w2 = R w2 \<longrightarrow> (\<exists>k. r = Inr k))"
            using less.prems(3) l r le le' True by (intro less.hyps) (simp_all add: off' [unfolded True])
          then show ?thesis unfolding step using l r by simp
        qed
      qed
    qed
  qed
qed

text \<open>Reads of a whole block that deliver \<open>k\<close> bytes, or what is left of the file when that is less.\<close>

definition delivers :: "'w posix_calls \<Rightarrow> int \<Rightarrow> ('w \<Rightarrow> byte list) \<Rightarrow> nat \<Rightarrow> nat \<Rightarrow> bool" where
  "delivers sys fd C n k \<longleftrightarrow>
     (\<forall>off w result stored w'. read_at sys fd n off w = Some ((result, stored), w') \<longrightarrow>
        ra_error_number result = 0 \<and> length stored = min k (length (C w) - unat off))"

lemma delivers_read:
  assumes "two_inputs sys lfd rfd L R" and "fd = lfd \<and> C = L \<or> fd = rfd \<and> C = R" and "delivers sys fd C n k" and "n \<noteq> 0"
  obtains result stored w' where "read_at sys fd n off w = Some ((result, stored), w')"
    and "ra_error_number result = 0" and "bytes_read result = length stored"
    and "L w' = L w" and "R w' = R w" and "stored = take (min k (length (C w) - unat off)) (drop (unat off) (C w))"
    and "unat off < length (C w) \<Longrightarrow> 0 < k"
proof -
  obtain result stored w' where r: "read_at sys fd n off w = Some ((result, stored), w')" "L w' = L w" "R w' = R w"
    and c: "ra_error_number result \<noteq> 0 \<or>
      ra_error_number result = 0 \<and> bytes_read result = length stored \<and> file_chunk (C w) n (unat off) stored"
    by (rule two_inputs_read [OF assms(1,2)])
  have e: "ra_error_number result = 0" "length stored = min k (length (C w) - unat off)"
    using assms(3) r(1) unfolding delivers_def by blast+
  with c have chunk: "file_chunk (C w) n (unat off) stored" and count: "bytes_read result = length stored" by simp_all
  have "stored = take (length stored) (drop (unat off) (C w))" using chunk by (simp add: file_chunk_def)
  then have bytes: "stored = take (min k (length (C w) - unat off)) (drop (unat off) (C w))" unfolding e(2) .
  have "0 < k" if "unat off < length (C w)"
  proof -
    have "stored \<noteq> []" using chunk assms(4) that by (auto simp: file_chunk_def)
    then show ?thesis using e(2) by (cases k) simp_all
  qed
  with r(1) e(1) count r(2,3) bytes show thesis by (rule that)
qed

lemma verify_loop_equal:
  assumes two: "two_inputs sys lfd rfd L R" and n: "n \<noteq> 0"
    and left: "delivers sys lfd L (unat n) p" and right: "delivers sys rfd R (unat n) q"
  shows "unat off \<le> length (L w) \<Longrightarrow> length (L w) < 2 ^ 64 \<Longrightarrow> L w = R w \<Longrightarrow>
    p = q \<or> length (L w) - unat off \<le> min p q \<Longrightarrow>
    \<exists>w'. verify_loop sys n lfd rfd off w = Some (Inr (of_nat (length (L w))), w')"
proof (induction "length (L w) - unat off" arbitrary: off w rule: less_induct)
  case less
  note unfold = verify_loop.simps [of sys n lfd rfd off w]
  have n': "unat n \<noteq> 0" using n by (simp add: unat_eq_zero)
  let ?k = "min p (length (L w) - unat off)"
  let ?b = "take ?k (drop (unat off) (L w))"
  obtain lr ls w1 where l: "read_at sys lfd (unat n) off w = Some ((lr, ls), w1)" "ra_error_number lr = 0"
    "bytes_read lr = length ls" "L w1 = L w" "R w1 = R w" "ls = ?b" "unat off < length (L w) \<Longrightarrow> 0 < p"
    by (rule delivers_read [OF two _ left n', of off w]) simp_all
  obtain rr rs w2 where r: "read_at sys rfd (unat n) off w1 = Some ((rr, rs), w2)" "ra_error_number rr = 0"
    "bytes_read rr = length rs" "L w2 = L w1" "R w2 = R w1"
    "rs = take (min q (length (R w1) - unat off)) (drop (unat off) (R w1))"
    by (rule delivers_read [OF two _ right n', of off w1]) simp_all
  have "min q (length (L w) - unat off) = ?k" using less.prems(4) by linarith
  then have "min q (length (R w1) - unat off) = ?k" using less.prems(3) l(5) by simp
  then have same: "rs = ls" using r(6) l(5,6) less.prems(3) by simp
  have len: "length ls = ?k" by (simp add: l(6))
  show ?case
  proof (cases "unat off = length (L w)")
    case True
    then have off: "of_nat (length (L w)) = off" by (simp flip: True)
    have "ls = []" using len True by simp
    then show ?thesis unfolding off using l(1-3) r(1-3) same by (simp add: unfold)
  next
    case False
    then have lt: "unat off < length (L w)" using less.prems(1) by simp
    then have pos: "0 < ?k" "?k \<noteq> 0" using l(7) by simp_all
    have le: "unat off + ?k \<le> length (L w)" using less.prems(1) by simp
    have k: "unat (of_nat ?k :: u64) = ?k" using le less.prems(2) by (simp add: unat_of_nat)
    then have off': "unat (off + of_nat ?k) = unat off + ?k" using le less.prems(2) by (simp add: unat_add_fits)
    have "\<not> u64_max - off < of_nat (length ls)"
      using u64_add_fits [of off "of_nat ?k"] le less.prems(2) k by (simp add: len)
    moreover have "ls \<noteq> []" using len pos by auto
    ultimately have step: "verify_loop sys n lfd rfd off w = verify_loop sys n lfd rfd (off + of_nat ?k) w2"
      unfolding len [symmetric] using l(1-3) r(1-3) same mismatch_length [of ls ls]
      by (simp add: unfold Let_def checked_add_def size_to_u64_def)
    have "\<exists>w'. verify_loop sys n lfd rfd (off + of_nat ?k) w2 = Some (Inr (of_nat (length (L w2))), w')"
    proof (rule less.hyps)
      have files: "L w2 = L w" "R w2 = R w" using l(4,5) r(4,5) by simp_all
      show "length (L w2) - unat (off + of_nat ?k) < length (L w) - unat off"
        unfolding off' files using lt pos(1) by linarith
      show "unat (off + of_nat ?k) \<le> length (L w2)" unfolding off' files by (rule le)
      show "p = q \<or> length (L w2) - unat (off + of_nat ?k) \<le> min p q"
        unfolding off' files using less.prems(4) by linarith
      show "length (L w2) < 2 ^ 64" "L w2 = R w2" unfolding files by (rule less.prems)+
    qed
    then show ?thesis unfolding step using l(4) r(4) by simp
  qed
qed

lemma verify_loop_rejects:
  assumes two: "two_inputs sys lfd rfd L R" and n: "n \<noteq> 0"
    and left: "delivers sys lfd L (unat n) p" and right: "delivers sys rfd R (unat n) q"
    and "L w = R w" and "p \<noteq> q" and "min p q < length (L w)"
  shows "\<exists>w'. verify_loop sys n lfd rfd 0 w =
    Some (Inl (Runtime_error ''benchmark outputs have different lengths at byte offset 0''), w')"
proof -
  have n': "unat n \<noteq> 0" using n by (simp add: unat_eq_zero)
  obtain lr ls w1 where l: "read_at sys lfd (unat n) 0 w = Some ((lr, ls), w1)" "ra_error_number lr = 0"
    "bytes_read lr = length ls" "L w1 = L w" "R w1 = R w" "ls = take (min p (length (L w))) (L w)"
    by (rule delivers_read [OF two _ left n', of 0 w]) simp_all
  obtain rr rs w2 where r: "read_at sys rfd (unat n) 0 w1 = Some ((rr, rs), w2)" "ra_error_number rr = 0"
    "bytes_read rr = length rs" "rs = take (min q (length (R w1))) (R w1)"
    by (rule delivers_read [OF two _ right n', of 0 w1]) simp_all
  have "length ls \<noteq> length rs" using assms(5-7) l(5,6) r(4) by (auto simp: min_def split: if_splits)
  moreover have "decimal 0 = ''0''" by code_simp
  ultimately show ?thesis
    using l r by (simp add: verify_loop.simps [of sys n lfd rfd 0 w] del: decimal.simps)
qed

section \<open>The preprocessing baseline\<close>

lemma separate_fsync:
  assumes "separate_files sys ifd ofd inC outC"
  obtains result w' where "fsync_fd sys ofd w = Some (result, w')" and "inC w' = inC w" and "outC w' = outC w"
proof -
  obtain m where m: "interrupts_bounded (system_file_io_operations sys) m"
    and keep: "fsync_keeps (system_file_io_operations sys) ofd (\<lambda>u. (inC u, outC u) = (inC w, outC w))"
    using assms unfolding separate_files_def by blast
  obtain r u where r: "retry_fsync (system_file_io_operations sys) ofd w = Some (r, u)"
    using retry_fsync_returns [OF m, of ofd w] by (metis surj_pair)
  then obtain result where f: "fsync_fd sys ofd w = Some (result, u)"
    by (cases r) (auto simp: fsync_fd_def fsync_fd_with_def)
  from fsync_fd_keeps [OF f keep] that f show thesis by simp
qed

interpretation toggling: block_independent "map toggle_case"
  by unfold_locales simp_all

lemma preprocess_loop_correct:
  assumes sep: "separate_files sys ifd ofd inC outC" and n: "n \<noteq> 0"
  shows "unat off \<le> length (inC w) \<Longrightarrow> length (inC w) < 2 ^ 64 \<Longrightarrow>
    outC w = write_image out0 0 (map toggle_case (take (unat off) (inC w))) \<Longrightarrow>
    \<exists>res w'. preprocess_loop sys n ifd ofd off off off off w = Some (res, w') \<and> inC w' = inC w \<and>
      spp_bytes_written res = spp_bytes_read res \<and>
      (spp_error_number res = 0 \<longrightarrow> outC w' = write_image out0 0 (map toggle_case (inC w)) \<and>
         unat (spp_bytes_read res) = length (inC w))"
proof (induction "length (inC w) - unat off" arbitrary: off w rule: less_induct)
  case less
  note unfold = preprocess_loop.simps [of sys n ifd ofd off off off off w]
  obtain rr stored w1 where rd: "read_at sys ifd (unat n) off w = Some ((rr, stored), w1)"
    "inC w1 = inC w" "outC w1 = outC w"
    and ok: "ra_error_number rr \<noteq> 0 \<or>
      ra_error_number rr = 0 \<and> bytes_read rr = length stored \<and> file_chunk (inC w) (unat n) (unat off) stored"
    by (rule separate_read [OF sep])
  show ?case
  proof (cases "ra_error_number rr = 0")
    case False
    with rd show ?thesis by (simp add: unfold)
  next
    case noerr: True
    with ok have chunk: "file_chunk (inC w) (unat n) (unat off) stored" and len: "bytes_read rr = length stored" by auto
    show ?thesis
    proof (cases "stored = []")
      case True
      with chunk n have "length (inC w) \<le> unat off" by (auto simp: file_chunk_def unat_eq_zero)
      with less.prems(1) have "unat off = length (inC w)" by simp
      moreover obtain fr w2 where "fsync_fd sys ofd w1 = Some (fr, w2)" "inC w2 = inC w1" "outC w2 = outC w1"
        by (rule separate_fsync [OF sep])
      ultimately show ?thesis using less.prems(3) rd True len noerr by (simp add: unfold)
    next
      case False
      have le: "unat off + length stored \<le> length (inC w)" by (rule chunk_within [OF chunk False])
      then have fits: "unat off + length (map toggle_case stored) < 2 ^ 64" using less.prems(2) by simp
      obtain wr w2 where w: "write_all_at sys ofd (map toggle_case stored) off w1 = Some (wr, w2)" "inC w2 = inC w1"
        "outC w2 = write_image (outC w1) (unat off) (take (bytes_written wr) (map toggle_case stored))"
        "wa_error_number wr = 0 \<longleftrightarrow> bytes_written wr = length (map toggle_case stored)"
        by (rule separate_write [OF sep fits])
      show ?thesis
      proof (cases "wa_error_number wr = 0")
        case False
        with rd len w \<open>stored \<noteq> []\<close> noerr show ?thesis by (simp add: unfold)
      next
        case True
        let ?off = "off + of_nat (length stored)"
        have "unat (of_nat (length stored) :: u64) = length stored" using fits by (simp add: unat_of_nat)
        then have off': "unat ?off = unat off + length stored" using fits by (simp add: unat_add_fits)
        have step: "preprocess_loop sys n ifd ofd off off off off w = preprocess_loop sys n ifd ofd ?off ?off ?off ?off w2"
          using rd len w True False noerr by (simp add: unfold)
        have split: "take (unat off + length stored) (inC w) = take (unat off) (inC w) @ stored"
          using chunk by (simp add: take_add file_chunk_def)
        have "outC w2 = write_image out0 0 (map toggle_case (take (unat ?off) (inC w2)))"
          using w True rd less.prems(1,3)
            write_image_append [of out0 0 "map toggle_case (take (unat off) (inC w))" "map toggle_case stored"]
          by (simp add: off' split)
        moreover have "length (inC w) - (unat off + length stored) < length (inC w) - unat off"
          using le False by (cases stored) auto
        ultimately show ?thesis unfolding step
          using less.hyps [of w2 ?off] less.prems(2) le rd w by (simp add: off')
      qed
    qed
  qed
qed

lemma letters_toggle:
  "\<forall>i \<in> set ([65..90] @ [97..122]). (let c = word_of_int i XOR 32 :: byte in
     (97 \<le> sint c \<and> sint c \<le> 122) \<or> (65 \<le> sint c \<and> sint c \<le> 90))"
  by code_simp

lemma toggle_case_twice [simp]: "toggle_case (toggle_case c) = c"
proof (cases "(97 \<le> sint c \<and> sint c \<le> 122) \<or> (65 \<le> sint c \<and> sint c \<le> 90)")
  case True
  then have "sint c \<in> set ([65..90] @ [97..122])"
    unfolding set_append set_upto atLeastAtMost_iff Un_iff by blast
  from bspec [OF letters_toggle this] have
    "(97 \<le> sint (c XOR 32) \<and> sint (c XOR 32) \<le> 122) \<or> (65 \<le> sint (c XOR 32) \<and> sint (c XOR 32) \<le> 90)"
    by (simp add: Let_def)
  with True show ?thesis by (simp add: toggle_case_def xor.assoc)
next
  case False
  then have "toggle_case c = c" unfolding toggle_case_def by (rule if_not_P)
  then show ?thesis by simp
qed

lemma map_toggle_twice [simp]: "map toggle_case (map toggle_case xs) = xs"
  by (simp add: o_def)

lemma aligned_buffer_new_size: "aligned_buffer_new al n a m = (Inr b, m') \<Longrightarrow> ab_size b = n"
  by (auto simp: aligned_buffer_new_def split: sum.splits prod.splits if_splits)

lemma validate_block_size: "validate config = Inr u \<Longrightarrow> block_size config \<noteq> 0"
  by (auto simp: validate_def)

text \<open>A machine with two files: descriptor 3 is open on the first, descriptor 4 on the second.\<close>

definition pair_pread :: "int \<Rightarrow> nat \<Rightarrow> int \<Rightarrow> byte list \<times> byte list \<Rightarrow> syscall_read \<times> byte list \<times> byte list" where
  "pair_pread fd n off w =
     (if fd = 3 then Read_bytes (read_slice (fst w) (unat (word_of_int off :: u64)) n)
      else if fd = 4 then Read_bytes (read_slice (snd w) (unat (word_of_int off :: u64)) n)
      else Read_failed 9, w)"

definition pair_pwrite :: "int \<Rightarrow> byte list \<Rightarrow> int \<Rightarrow> byte list \<times> byte list \<Rightarrow> syscall_result \<times> byte list \<times> byte list" where
  "pair_pwrite fd bytes off w =
     (if fd = 4 then (Sys_ok (length bytes), (fst w, write_image (snd w) (unat (word_of_int off :: u64)) bytes))
      else (Sys_failed 9, w))"

definition pair_posix :: "(byte list \<times> byte list) posix_calls" where
  "pair_posix =
     \<lparr>posix_open = (\<lambda>path flags w. (Sys_ok (if path = ''left'' then 3 else 4), w)),
      posix_pread = pair_pread, posix_pwrite = pair_pwrite, posix_fsync = (\<lambda>fd w. (Sys_ok 0, w))\<rparr>"

lemma pair_ops:
  "op_read_at (system_file_io_operations pair_posix) fd n off w =
     (if fd = 3 then Read_bytes (read_slice (fst w) (unat off) n)
      else if fd = 4 then Read_bytes (read_slice (snd w) (unat off) n) else Read_failed 9, w)"
  "op_write_at (system_file_io_operations pair_posix) fd bytes off w =
     (if fd = 4 then (Sys_ok (length bytes), (fst w, write_image (snd w) (unat off) bytes)) else (Sys_failed 9, w))"
  "op_fsync (system_file_io_operations pair_posix) fd w = (Sys_ok 0, w)"
  by (simp_all add: system_file_io_operations_def system_read_at_def system_write_at_def system_fsync_def
      pair_posix_def pair_pread_def pair_pwrite_def)

lemma pair_contracts:
  "separate_files pair_posix 3 4 fst snd" "two_inputs pair_posix 3 4 fst snd"
  "full_reads pair_posix 3 fst" "full_reads pair_posix 4 snd"
proof -
  have i: "interrupts_bounded (system_file_io_operations pair_posix) (\<lambda>_. 0)"
    by (auto simp: interrupts_bounded_def pair_ops split: if_splits)
  have reads: "pread_contract (system_file_io_operations pair_posix) 3 fst"
    "pread_contract (system_file_io_operations pair_posix) 4 snd"
    by (auto simp: pread_contract_def pair_ops read_slice_def min_def)
  show "separate_files pair_posix 3 4 fst snd"
    using i reads
    by (auto simp: separate_files_def pwrite_contract_def writes_keep_def fsync_keeps_def pair_ops)
  show "two_inputs pair_posix 3 4 fst snd" using i reads by (auto simp: two_inputs_def pair_ops)
  show "full_reads pair_posix 3 fst" "full_reads pair_posix 4 snd"
    by (auto simp: full_reads_def read_at_def read_at_with_def retry_read.simps pair_ops read_slice_def)
qed

section \<open>Properties\<close>

lemma serial_reference_outcome:
  assumes "separate_files sys ifd ofd inC outC" and "length (inC w) < 2 ^ 64"
    and "set (map se_stage (pl_stages pl)) \<subseteq> {NoOpStage, ByteIncrementStage}"
  shows "\<exists>r pl' reg' m' w'. run_serial_pipeline_reference al sys us elapsed ifd ofd config pl reg m w =
      Some (r, pl', reg', m', w') \<and> inC w' = inC w \<and>
    (\<forall>res. r = Inr res \<longrightarrow>
       outC w' = write_image (outC w) 0
         ((byte_increment ^^ count_list (map se_stage (pl_stages pl)) ByteIncrementStage) (inC w)) \<and>
       unat (spr_bytes_written res) = length (inC w))"
    (is "?goal")
proof (cases "validate config")
  case (Inl e)
  then show ?goal by (simp add: run_serial_pipeline_reference_def)
next
  case valid: (Inr u)
  show ?goal
  proof (cases "ifd < 0 \<or> ofd < 0 \<or> ifd = ofd \<or> stage_count pl = 0")
    case True
    with valid show ?goal by (auto simp: run_serial_pipeline_reference_def)
  next
    case ok: False
    obtain x m1 where new: "aligned_buffer_new al (block_size config) (buffer_alignment config) m = (x, m1)"
      by (meson surj_pair)
    show ?goal
    proof (cases x)
      case (Inl e)
      with valid ok new show ?goal by (simp add: run_serial_pipeline_reference_def)
    next
      case (Inr block)
      have n: "ab_size block \<noteq> 0"
        using aligned_buffer_new_size [OF new [unfolded Inr]] validate_block_size [OF valid] by simp
      let ?T = "byte_increment ^^ count_list (map se_stage (pl_stages pl)) ByteIncrementStage"
      obtain r pl' reg' w' where "serial_loop sys us elapsed (ab_size block) ifd ofd 0
          \<lparr>spr_blocks_written = 0, spr_bytes_written = 0\<rparr> pl reg w = Some (r, pl', reg', w')" "inC w' = inC w"
        "case r of Inl e \<Rightarrow> is_system_error e
         | Inr res \<Rightarrow> outC w' = write_image (outC w) 0 (?T (inC w)) \<and> unat (spr_bytes_written res) = length (inC w)"
        using increments.serial_loop_correct [OF assms(1) n increments_compute [OF assms(3)], where us = us and off = 0 and w = w and
            result = "\<lparr>spr_blocks_written = 0, spr_bytes_written = 0\<rparr>" and ?out0.0 = "outC w" and elapsed = elapsed and reg = reg] assms(2)
        by (auto simp: increments.transform_Nil)
      with valid ok new Inr show ?goal by (auto simp: run_serial_pipeline_reference_def)
    qed
  qed
qed

lemma example_serial_value:
  "map_option (\<lambda>(r, _, _, _, w). (r, w))
     (run_serial_pipeline_reference bump_allocator pair_posix throwing_stages (\<lambda>_ _. 0) 3 4 small_config
        increment_pipeline registry_new 0 ([1, 2, 255], [])) =
   Some (Inr \<lparr>spr_blocks_written = 1, spr_bytes_written = 3\<rparr>, [1, 2, 255], [2, 3, 0])"
  by code_simp

lemma example_serial:
  "\<exists>pl reg m. run_serial_pipeline_reference bump_allocator pair_posix throwing_stages (\<lambda>_ _. 0) 3 4 small_config
      increment_pipeline registry_new 0 ([1, 2, 255], []) =
    Some (Inr \<lparr>spr_blocks_written = 1, spr_bytes_written = 3\<rparr>, pl, reg, m, ([1, 2, 255], [2, 3, 0]))"
  using example_serial_value by auto

text \<open>
  C22: The serial reference is correct. With an operating system that keeps its contracts on two
  separate files, it returns, whatever short reads, short writes and interruptions occur; the input
  is unchanged, and a result means that the output starts with the processed input and that the byte
  count is the input's length.
\<close>

theorem serial_reference_correct:
  assumes "separate_files sys ifd ofd inC outC" and "length (inC w) < 2 ^ 64"
    and "set (map se_stage (pl_stages pl)) \<subseteq> {NoOpStage, ByteIncrementStage}"
  shows "\<exists>r pl' reg' m' w'. run_serial_pipeline_reference al sys us elapsed ifd ofd config pl reg m w =
      Some (r, pl', reg', m', w') \<and> inC w' = inC w \<and>
    (\<forall>res. r = Inr res \<longrightarrow>
       outC w' = write_image (outC w) 0
         ((byte_increment ^^ count_list (map se_stage (pl_stages pl)) ByteIncrementStage) (inC w)) \<and>
       unat (spr_bytes_written res) = length (inC w))"
  by (rule serial_reference_outcome [OF assms])

theorem serial_reference_correct_witness:
  "\<exists>r pl' reg' m' w'. run_serial_pipeline_reference bump_allocator pair_posix throwing_stages (\<lambda>_ _. 0) 3 4
      small_config increment_pipeline registry_new 0 ([1, 2, 255], []) = Some (r, pl', reg', m', w') \<and>
    fst w' = [1, 2, 255] \<and> snd w' = [2, 3, 0]"
proof -
  have stages: "set (map se_stage (pl_stages increment_pipeline)) \<subseteq> {NoOpStage, ByteIncrementStage}"
    by (simp add: increment_pipeline_def)
  have short: "length (fst ([1, 2, 255], [] :: byte list) :: byte list) < 2 ^ 64" by simp
  have image: "write_image (snd ([1, 2, 255], [] :: byte list)) 0
      ((byte_increment ^^ count_list (map se_stage (pl_stages increment_pipeline)) ByteIncrementStage)
        (fst ([1, 2, 255] :: byte list, [] :: byte list))) = [2, 3, 0]"
    by code_simp
  from serial_reference_correct [OF pair_contracts(1) short stages, of bump_allocator throwing_stages "\<lambda>_ _. 0"
      small_config registry_new 0] example_serial image
  show ?thesis by auto
qed

text \<open>
  C21: The pipelined executor and the serial reference produce the same file. Whenever both return a
  result, from input files with equal contents (shorter than \<open>2 ^ 64\<close> bytes) onto equal outputs and with the
  same list of stages, each of them \<open>noop\<close> or \<open>byte_increment\<close>, whose result does not depend on where the
  blocks end, the outputs are equal and so are the byte counts: for every interleaving of the
  executor's threads, any two block sizes, and backends and operating systems that keep the contracts
  of reading and writing a regular file. (\<open>normalize\<close> scales each block by its own range, so it is left
  out.)
\<close>

theorem pipeline_matches_serial_reference:
  assumes "memalign_contract al" and "run_start al ifd ofd pl r rin out px m = (Inr s0, px', m')"
    and "exec_reachable env S s0 s" and "ex_main s = M_done (Inr res)"
    and "reads_file env inC" and "writes_file env outC"
    and "set (map se_stage (pl_stages pl)) \<subseteq> {NoOpStage, ByteIncrementStage}"
    and "separate_files sys ifd' ofd' inS outS" and "length (inS w) < 2 ^ 64"
    and "map se_stage (pl_stages serial_pl) = map se_stage (pl_stages pl)"
    and "inS w = inC rin" and "outS w = outC out"
    and "run_serial_pipeline_reference al' sys us elapsed ifd' ofd' config serial_pl reg m1 w =
           Some (Inr serial_res, serial_pl', reg', m1', w')"
  shows "outC (ex_out s) = outS w' \<and> prr_bytes_written res = spr_bytes_written serial_res"
proof -
  have "set (map se_stage (pl_stages serial_pl)) \<subseteq> {NoOpStage, ByteIncrementStage}" using assms(7,10) by simp
  from serial_reference_outcome [OF assms(8,9) this, of al' us elapsed config reg m1] assms(13)
  have "outS w' = write_image (outS w) 0
      ((byte_increment ^^ count_list (map se_stage (pl_stages pl)) ByteIncrementStage) (inS w))"
    "unat (spr_bytes_written serial_res) = length (inS w)" by (auto simp: assms(10))
  with run_copies_file [OF assms(1-7)] assms(11,12) show ?thesis by (simp add: word_unat_eq_iff)
qed

theorem pipeline_matches_serial_reference_witness:
  "ex_out example_end = [2, 3, 0] \<and> ex_main example_end = M_done (Inr \<lparr>prr_blocks_written = 1, prr_bytes_written = 3\<rparr>)"
proof -
  have stages: "set (map se_stage (pl_stages increment_pipeline)) \<subseteq> {NoOpStage, ByteIncrementStage}"
    by (simp add: increment_pipeline_def)
  obtain pl reg m where serial: "run_serial_pipeline_reference bump_allocator pair_posix throwing_stages (\<lambda>_ _. 0)
      3 4 small_config increment_pipeline registry_new 0 ([1, 2, 255], []) =
    Some (Inr \<lparr>spr_blocks_written = 1, spr_bytes_written = 3\<rparr>, pl, reg, m, ([1, 2, 255], [2, 3, 0]))"
    using example_serial by blast
  from pipeline_matches_serial_reference [OF example_inv(1) example_run_start example_reachable example_run(2)
      example_reads example_writes stages pair_contracts(1) _ refl _ _ serial] example_run(2)
  show ?thesis by simp
qed

text \<open>The configuration is valid and both buffers of the comparison can be allocated.\<close>

definition comparison_buffers :: "'m allocator \<Rightarrow> pipeline_config \<Rightarrow> 'm \<Rightarrow> bool" where
  "comparison_buffers al config m \<longleftrightarrow>
     \<not> isl (validate config) \<and>
     (case aligned_buffer_new al (block_size config) (buffer_alignment config) m of
        (Inl e, m1) \<Rightarrow> False
      | (Inr b, m1) \<Rightarrow> \<not> isl (fst (aligned_buffer_new al (block_size config) (buffer_alignment config) m1)))"

lemma verify_files_outcome:
  assumes "open_read_only sys left_path w = (lo, w1)" and "of_error_number lo = 0"
    and "open_read_only sys right_path w1 = (ro, w2)" and "of_error_number ro = 0"
    and two: "two_inputs sys (of_fd lo) (of_fd ro) L R" and "length (L w2) < 2 ^ 64"
  shows "\<exists>r m' w'. verify_files_equal_bounded al sys close_fd left_path right_path config m w = Some (r, m', w') \<and>
    (\<forall>k. r = Inr k \<longrightarrow> L w2 = R w2 \<and> unat k = length (L w2)) \<and>
    (comparison_buffers al config m \<longrightarrow> full_reads sys (of_fd lo) L \<longrightarrow> full_reads sys (of_fd ro) R \<longrightarrow>
       L w2 = R w2 \<longrightarrow> (\<exists>k. r = Inr k))"
    (is "?goal")
proof (cases "validate config")
  case (Inl e)
  then show ?goal by (simp add: verify_files_equal_bounded_def comparison_buffers_def)
next
  case valid: (Inr u)
  obtain x m1 where new: "aligned_buffer_new al (block_size config) (buffer_alignment config) m = (x, m1)"
    by (meson surj_pair)
  obtain y m2 where new': "aligned_buffer_new al (block_size config) (buffer_alignment config) m1 = (y, m2)"
    by (meson surj_pair)
  have opens: "open_comparison_input sys left_path op w = (Inr (of_fd lo), w1)"
    "open_comparison_input sys right_path op w1 = (Inr (of_fd ro), w2)" for op
    using assms(1-4) by (simp_all add: open_comparison_input_def)
  show ?goal
  proof (cases x)
    case (Inl e)
    with valid opens new show ?goal by (simp add: verify_files_equal_bounded_def comparison_buffers_def)
  next
    case x: (Inr lb)
    show ?goal
    proof (cases y)
      case (Inl e)
      with valid opens new new' x show ?goal by (simp add: verify_files_equal_bounded_def comparison_buffers_def)
    next
      case (Inr rb)
      have n: "ab_size lb \<noteq> 0"
        using aligned_buffer_new_size [OF new [unfolded x]] validate_block_size [OF valid] by simp
      obtain r w3 where "verify_loop sys (ab_size lb) (of_fd lo) (of_fd ro) 0 w2 = Some (r, w3)"
        "\<forall>k. r = Inr k \<longrightarrow> L w2 = R w2 \<and> unat k = length (L w2)"
        "full_reads sys (of_fd lo) L \<longrightarrow> full_reads sys (of_fd ro) R \<longrightarrow> L w2 = R w2 \<longrightarrow> (\<exists>k. r = Inr k)"
        using verify_loop_correct [OF two n, of 0 w2] assms(6) by auto
      with valid opens new new' x Inr show ?goal by (simp add: verify_files_equal_bounded_def)
    qed
  qed
qed

text \<open>
  C23: The comparison of two files is sound. On two files that open, it returns; a byte count means
  that the files are equal and is their length, under any short reads and interruptions; and equal
  files are accepted when every read delivers all the bytes there are.
\<close>

theorem verify_files_equal_sound:
  assumes "open_read_only sys left_path w = (lo, w1)" and "of_error_number lo = 0"
    and "open_read_only sys right_path w1 = (ro, w2)" and "of_error_number ro = 0"
    and "two_inputs sys (of_fd lo) (of_fd ro) L R" and "length (L w2) < 2 ^ 64"
  shows "\<exists>r m' w'. verify_files_equal_bounded al sys close_fd left_path right_path config m w = Some (r, m', w') \<and>
    (\<forall>k. r = Inr k \<longrightarrow> L w2 = R w2 \<and> unat k = length (L w2)) \<and>
    (comparison_buffers al config m \<longrightarrow> full_reads sys (of_fd lo) L \<longrightarrow> full_reads sys (of_fd ro) R \<longrightarrow>
       L w2 = R w2 \<longrightarrow> (\<exists>k. r = Inr k))"
  by (rule verify_files_outcome [OF assms])

lemma pair_open:
  "open_read_only pair_posix ''left'' w = (\<lparr>of_fd = 3, of_error_number = 0\<rparr>, w)"
  "open_read_only pair_posix ''right'' w = (\<lparr>of_fd = 4, of_error_number = 0\<rparr>, w)"
  by (simp_all add: open_read_only_def open_read_only_with_def system_file_io_operations_def system_open_read_only_def
      pair_posix_def)

theorem verify_files_equal_sound_witness:
  "\<exists>k m' w'. verify_files_equal_bounded bump_allocator pair_posix (\<lambda>_ w. w) ''left'' ''right'' small_config 0
      ([1, 2, 255], [1, 2, 255]) = Some (Inr k, m', w') \<and> unat k = 3"
proof -
  have b: "comparison_buffers bump_allocator small_config 0" by code_simp
  from verify_files_equal_sound [OF pair_open(1) _ pair_open(2), of fst snd "([1, 2, 255], [1, 2, 255])"
      bump_allocator "\<lambda>_ w. w" small_config 0] b pair_contracts
  show ?thesis by auto
qed

text \<open>
  A machine whose \<open>pread\<close> on descriptor 3 delivers one byte at a time, as the contract of \<open>pread\<close>
  allows.
\<close>

definition stingy_posix :: "(byte list \<times> byte list) posix_calls" where
  "stingy_posix = pair_posix\<lparr>posix_pread := (\<lambda>fd n. pair_pread fd (if fd = 3 then min n 1 else n))\<rparr>"

lemma stingy_ops:
  "op_read_at (system_file_io_operations stingy_posix) fd n off w =
     op_read_at (system_file_io_operations pair_posix) fd (if fd = 3 then min n 1 else n) off w"
  "op_write_at (system_file_io_operations stingy_posix) fd bytes off w =
     op_write_at (system_file_io_operations pair_posix) fd bytes off w"
  "op_fsync (system_file_io_operations stingy_posix) fd w = op_fsync (system_file_io_operations pair_posix) fd w"
  by (simp_all add: system_file_io_operations_def system_read_at_def system_write_at_def system_fsync_def
      stingy_posix_def pair_posix_def)

lemma stingy_contract: "two_inputs stingy_posix 3 4 fst snd"
proof -
  have "pread_contract (system_file_io_operations stingy_posix) 3 fst"
    "pread_contract (system_file_io_operations stingy_posix) 4 snd"
    by (auto simp: pread_contract_def stingy_ops pair_ops read_slice_def min_def)
  moreover have "interrupts_bounded (system_file_io_operations stingy_posix) (\<lambda>_. 0)"
    by (auto simp: interrupts_bounded_def stingy_ops pair_ops split: if_splits)
  ultimately show ?thesis by (auto simp: two_inputs_def stingy_ops pair_ops)
qed

lemma stingy_open:
  "open_read_only stingy_posix ''left'' w = (\<lparr>of_fd = 3, of_error_number = 0\<rparr>, w)"
  "open_read_only stingy_posix ''right'' w = (\<lparr>of_fd = 4, of_error_number = 0\<rparr>, w)"
  by (simp_all add: open_read_only_def open_read_only_with_def system_file_io_operations_def system_open_read_only_def
      stingy_posix_def pair_posix_def)

lemma stingy_delivers:
  "0 < n \<Longrightarrow> delivers stingy_posix 3 fst n 1" "delivers stingy_posix 4 snd n n"
  by (auto simp: delivers_def read_at_def read_at_with_def retry_read.simps stingy_ops pair_ops read_slice_def)

lemma verify_files_equal_contents:
  assumes "open_read_only sys left_path w = (lo, w1)" and "of_error_number lo = 0"
    and "open_read_only sys right_path w1 = (ro, w2)" and "of_error_number ro = 0"
    and two: "two_inputs sys (of_fd lo) (of_fd ro) L R" and len: "length (L w2) < 2 ^ 64"
    and "comparison_buffers al config m" and same: "L w2 = R w2"
    and left: "delivers sys (of_fd lo) L (unat (block_size config)) p"
    and right: "delivers sys (of_fd ro) R (unat (block_size config)) q"
  shows "\<exists>m' w'. verify_files_equal_bounded al sys close_fd left_path right_path config m w =
    Some (if p = q \<or> length (L w2) \<le> min p q then Inr (of_nat (length (L w2)))
          else Inl (Runtime_error ''benchmark outputs have different lengths at byte offset 0''), m', w')"
    (is "\<exists>m' w'. _ = Some (?r, m', w')")
proof -
  let ?new = "aligned_buffer_new al (block_size config) (buffer_alignment config)"
  obtain x m1 where x: "?new m = (x, m1)" by (meson surj_pair)
  obtain y m2 where y: "?new m1 = (y, m2)" by (meson surj_pair)
  obtain u where valid: "validate config = Inr u" using assms(7) by (cases "validate config") (simp_all add: comparison_buffers_def)
  obtain lb where lb: "x = Inr lb" using assms(7) x by (cases x) (simp_all add: comparison_buffers_def)
  obtain rb where "y = Inr rb" using assms(7) x y lb by (cases y) (simp_all add: comparison_buffers_def)
  with x y lb valid have new: "?new m = (Inr lb, m1)" "?new m1 = (Inr rb, m2)" "validate config = Inr u" by simp_all
  have opens: "open_comparison_input sys left_path op w = (Inr (of_fd lo), w1)"
    "open_comparison_input sys right_path op w1 = (Inr (of_fd ro), w2)" for op
    using assms(1-4) by (simp_all add: open_comparison_input_def)
  have size: "ab_size lb = block_size config" by (rule aligned_buffer_new_size [OF new(1)])
  have n: "block_size config \<noteq> 0" by (rule validate_block_size [OF new(3)])
  have "\<exists>w3. verify_loop sys (block_size config) (of_fd lo) (of_fd ro) 0 w2 = Some (?r, w3)"
  proof (cases "p = q \<or> length (L w2) \<le> min p q")
    case True
    then show ?thesis using verify_loop_equal [OF two n left right, of 0 w2] len same by simp
  next
    case False
    then show ?thesis using verify_loop_rejects [OF two n left right same] by auto
  qed
  with new opens size show ?thesis by (auto simp: verify_files_equal_bounded_def)
qed

text \<open>
  C24: The comparison can reject equal files. On two files with equal contents (shorter than \<open>2 ^ 64\<close>
  bytes) that open, with a valid configuration whose two buffers can be allocated, under any operating
  system that keeps the contract of \<open>pread\<close> and whose reads of a block deliver \<open>p\<close> bytes of the left
  file and \<open>q\<close> of the right one (or what is left, when that is less), the comparison accepts them,
  with their length, exactly if \<open>p = q\<close> or the file fits into both first reads; otherwise it reports
  different lengths at offset 0: it compares the byte counts of two single reads, where a short read
  is not the end of a file.
\<close>

theorem verify_rejects_equal_files_on_short_read:
  assumes "open_read_only sys left_path w = (lo, w1)" and "of_error_number lo = 0"
    and "open_read_only sys right_path w1 = (ro, w2)" and "of_error_number ro = 0"
    and "two_inputs sys (of_fd lo) (of_fd ro) L R" and "length (L w2) < 2 ^ 64"
    and "comparison_buffers al config m" and "L w2 = R w2"
    and "delivers sys (of_fd lo) L (unat (block_size config)) p"
    and "delivers sys (of_fd ro) R (unat (block_size config)) q"
  shows "\<exists>m' w'. verify_files_equal_bounded al sys close_fd left_path right_path config m w =
    Some (if p = q \<or> length (L w2) \<le> min p q then Inr (of_nat (length (L w2)))
          else Inl (Runtime_error ''benchmark outputs have different lengths at byte offset 0''), m', w')"
  by (rule verify_files_equal_contents [OF assms])

theorem verify_rejects_equal_files_on_short_read_witness:
  "\<exists>m' w'. verify_files_equal_bounded bump_allocator stingy_posix (\<lambda>_ w. w) ''left'' ''right'' small_config 0
      ([1, 2], [1, 2]) =
    Some (Inl (Runtime_error ''benchmark outputs have different lengths at byte offset 0''), m', w')"
proof -
  have b: "comparison_buffers bump_allocator small_config 0" by code_simp
  have n: "unat (block_size small_config) = 8" by (simp add: small_config_def)
  from verify_rejects_equal_files_on_short_read [OF stingy_open(1) _ stingy_open(2), of fst snd "([1, 2], [1, 2])"
      bump_allocator small_config 0 1 8 "\<lambda>_ w. w"] stingy_contract stingy_delivers [of 8] b
  show ?thesis by (simp add: n)
qed

lemma sync_preprocess_outcome:
  assumes "spc_input_path config = Some ip" and "spc_output_path config = Some op" and "spc_block_size config \<noteq> 0"
    and "open_read_only sys ip w = (lo, w1)" and "of_error_number lo = 0"
    and "open_truncated op w1 = (Sys_ok ofd, w2)"
    and "separate_files sys (of_fd lo) (int ofd) inC outC" and "length (inC w2) < 2 ^ 64" and "outC w2 = []"
  shows "\<exists>res w3. run_sync_preprocess_baseline sys open_truncated close_fd config w =
      Some (res, close_fd (of_fd lo) (close_fd (int ofd) w3)) \<and>
    inC w3 = inC w2 \<and> spp_bytes_written res = spp_bytes_read res \<and>
    (spp_error_number res = 0 \<longrightarrow>
       outC w3 = map toggle_case (inC w2) \<and> map toggle_case (outC w3) = inC w2 \<and>
       unat (spp_bytes_read res) = length (inC w2))"
proof -
  have image: "write_image [] 0 xs = xs" for xs by (simp add: write_image_def)
  obtain res w3 where "preprocess_loop sys (spc_block_size config) (of_fd lo) (int ofd) 0 0 0 0 w2 = Some (res, w3)"
    "inC w3 = inC w2" "spp_bytes_written res = spp_bytes_read res"
    "spp_error_number res = 0 \<longrightarrow> outC w3 = write_image [] 0 (map toggle_case (inC w2)) \<and>
         unat (spp_bytes_read res) = length (inC w2)"
    using preprocess_loop_correct [OF assms(7,3), of 0 w2 "[]"] assms(8,9) by (auto simp: image)
  with assms(1-6) show ?thesis
    by (auto simp: run_sync_preprocess_baseline_def image simp del: map_map)
qed

text \<open>
  The preprocessing baseline toggles the case of every letter. On paths that open, with a
  freshly truncated output, it returns; the bytes written are the bytes read, the input is unchanged,
  and error number 0 means that the output is the whole input with every ASCII letter's case
  toggled, from which the input can be recovered by toggling once more.
\<close>

theorem sync_preprocess_toggles:
  assumes "spc_input_path config = Some ip" and "spc_output_path config = Some op" and "spc_block_size config \<noteq> 0"
    and "open_read_only sys ip w = (lo, w1)" and "of_error_number lo = 0"
    and "open_truncated op w1 = (Sys_ok ofd, w2)"
    and "separate_files sys (of_fd lo) (int ofd) inC outC" and "length (inC w2) < 2 ^ 64" and "outC w2 = []"
  shows "\<exists>res w3. run_sync_preprocess_baseline sys open_truncated close_fd config w =
      Some (res, close_fd (of_fd lo) (close_fd (int ofd) w3)) \<and>
    inC w3 = inC w2 \<and> spp_bytes_written res = spp_bytes_read res \<and>
    (spp_error_number res = 0 \<longrightarrow>
       outC w3 = map toggle_case (inC w2) \<and> map toggle_case (outC w3) = inC w2 \<and>
       unat (spp_bytes_read res) = length (inC w2))"
  by (rule sync_preprocess_outcome [where inC = inC and outC = outC and ?w2.0 = w2 and
      open_truncated = open_truncated, OF assms])

lemma example_preprocess:
  "run_sync_preprocess_baseline pair_posix (\<lambda>path w. (Sys_ok 4, (fst w, []))) (\<lambda>_ w. w)
     \<lparr>spc_input_path = Some ''left'', spc_output_path = Some ''right'', spc_block_size = 2\<rparr> ([72, 105, 33], [9]) =
   Some (\<lparr>spp_bytes_read = 3, spp_bytes_written = 3, spp_error_number = 0\<rparr>, ([72, 105, 33], [104, 73, 33]))"
  by code_simp

theorem sync_preprocess_toggles_witness:
  "map toggle_case [72, 105, 33] = [104, 73, 33 :: byte] \<and> map toggle_case [104, 73, 33] = [72, 105, 33 :: byte]"
proof -
  let ?config = "\<lparr>spc_input_path = Some ''left'', spc_output_path = Some ''right'', spc_block_size = 2\<rparr>"
  have sep: "separate_files pair_posix (of_fd \<lparr>of_fd = 3, of_error_number = 0\<rparr>) (int 4) fst snd"
    using pair_contracts(1) by simp
  from sync_preprocess_toggles [where config = ?config and inC = fst and outC = snd and close_fd = "\<lambda>_ w. w" and
      open_truncated = "\<lambda>path w. (Sys_ok 4, (fst w, []))" and w = "([72, 105, 33], [9])" and
      ?w2.0 = "([72, 105, 33], [])", OF _ _ _ pair_open(1) _ _ sep] example_preprocess
  show ?thesis by (auto simp del: map_map list.map)
qed

end
