(* ===== verification/Uring.thy ===== *)
theory Uring
  imports Thread_Pool
begin

text \<open>
  \<open>UringContext\<close> and its \<open>ReadAwaiter\<close> (\<open>src/coroutine/uring_read_awaiter.cpp\<close>) and \<open>UringBackend\<close>
  (\<open>src/backend/uring_backend.cpp\<close>). liburing is a record of its functions over a ring of any type
  \<open>'r\<close>; what it promises is a contract over a view of the ring: the entries that are prepared but not
  submitted, and those that are submitted and whose completion has not been consumed. The awaiter with
  its request lives in the frame of the coroutine that awaits it, so a frame's number names its
  request, and the user data of an entry is such a number.
\<close>

section \<open>liburing\<close>

text \<open>
  A completion: the user data, the result, and the bytes that the kernel stored in the buffer of the
  entry. \<open>io_uring_wait_cqe\<close> is \<open>None\<close> when it blocks for ever.
\<close>

record uring_completion =
  cqe_data :: "nat option"
  cqe_res :: int
  cqe_stored :: "byte list"

record 'r uring_calls =
  io_uring_queue_init :: "32 word \<Rightarrow> 'r \<Rightarrow> int \<times> 'r"
  io_uring_queue_exit :: "'r \<Rightarrow> 'r"
  io_uring_get_sqe :: "'r \<Rightarrow> nat option \<times> 'r"
  io_uring_prep_read :: "nat \<Rightarrow> int \<Rightarrow> 32 word \<Rightarrow> u64 \<Rightarrow> 'r \<Rightarrow> 'r"
  io_uring_sqe_set_data :: "nat \<Rightarrow> nat \<Rightarrow> 'r \<Rightarrow> 'r"
  io_uring_submit :: "'r \<Rightarrow> int \<times> 'r"
  io_uring_wait_cqe :: "'r \<Rightarrow> (int \<times> uring_completion \<times> 'r) option"
  io_uring_cqe_seen :: "'r \<Rightarrow> 'r"

section \<open>The context and its awaiters\<close>

record uring_awaiter =
  ua_fd :: int
  ua_buffer :: "byte list"
  ua_byte_count :: size_t
  ua_offset :: u64
  ua_request :: "nat completion_request"

datatype uring_frame = Uring_begin nat | Uring_awaiting nat

text \<open>The ring, then what lives outside the context: the awaiters and the tasks with their parameters.\<close>

record 'r uring_context =
  ux_ring :: 'r
  ux_awaiters :: "nat \<Rightarrow> uring_awaiter option"
  ux_tasks :: "nat \<Rightarrow> (uring_frame, read_value) task option"
  ux_parameters :: "nat \<Rightarrow> read_parameters"
  ux_next_frame :: nat

definition uring_context_new :: "'r uring_calls \<Rightarrow> 32 word \<Rightarrow> 'r \<Rightarrow> 'r uring_context res" where
  "uring_context_new uc queue_depth ring =
     (if queue_depth = 0 then Inl (Invalid_argument ''io_uring queue depth must be positive'')
      else
        (case io_uring_queue_init uc queue_depth ring of (init_result, ring') \<Rightarrow>
           if init_result < 0 then Inl (System_error (- init_result) ''io_uring_queue_init'')
           else Inr \<lparr>ux_ring = ring', ux_awaiters = (\<lambda>_. None), ux_tasks = (\<lambda>_. None),
                  ux_parameters = (\<lambda>_. \<lparr>rp_null = True, rp_fd = - 1, rp_size = 0, rp_offset = 0\<rparr>),
                  ux_next_frame = 0\<rparr>))"

definition uring_context_destroy :: "'r uring_calls \<Rightarrow> 'r uring_context \<Rightarrow> 'r uring_context" where
  "uring_context_destroy uc cx = cx\<lparr>ux_ring := io_uring_queue_exit uc (ux_ring cx)\<rparr>"

definition uring_awaiter_new :: "read_parameters \<Rightarrow> uring_awaiter res" where
  "uring_awaiter_new p =
     (if rp_fd p < 0 then Inl (Invalid_argument ''read fd must be valid'')
      else if rp_null p \<and> rp_size p \<noteq> 0 then Inl (Invalid_argument ''read buffer must not be null'')
      else if 4294967295 < rp_size p then
        Inl (Length_error ''read byte count exceeds io_uring limit'')
      else Inr \<lparr>ua_fd = rp_fd p, ua_buffer = [], ua_byte_count = rp_size p, ua_offset = rp_offset p,
                ua_request = completion_request_new\<rparr>)"

text \<open>
  \<open>await_suspend\<close> of the awaiter of frame \<open>self\<close>: \<open>Some\<close> an immediate result, or \<open>None\<close>, the
  suspension. The last branch attaches the continuation once the entry is submitted.
\<close>

definition uring_await_suspend ::
  "'r uring_calls \<Rightarrow> nat \<Rightarrow> uring_awaiter \<Rightarrow> 'r uring_context \<Rightarrow> int option res \<times> 'r uring_context" where
  "uring_await_suspend uc self awaiter cx =
     (case io_uring_get_sqe uc (ux_ring cx) of
        (None, ring) \<Rightarrow> (Inr (Some (- EAGAIN)), cx\<lparr>ux_ring := ring\<rparr>)
      | (Some sqe, ring) \<Rightarrow>
          (case io_uring_submit uc (io_uring_sqe_set_data uc sqe self
                  (io_uring_prep_read uc sqe (ua_fd awaiter) (ucast (ua_byte_count awaiter)) (ua_offset awaiter)
                    ring)) of
             (submit_result, ring') \<Rightarrow>
               let cx' = cx\<lparr>ux_ring := ring'\<rparr> in
               if submit_result < 0 then (Inr (Some submit_result), cx')
               else if submit_result \<noteq> 1 then (Inr (Some (- EIO)), cx')
               else
                 (case set_continuation (Some self) (ua_request awaiter) of
                    (Inl e, _) \<Rightarrow> (Inl e, cx')
                  | (Inr _, request) \<Rightarrow>
                      (Inr None, cx'\<lparr>ux_awaiters := (ux_awaiters cx')(self \<mapsto> awaiter\<lparr>ua_request := request\<rparr>)\<rparr>))))"

definition uring_await_resume :: "int option \<Rightarrow> uring_awaiter \<Rightarrow> read_value res" where
  "uring_await_resume immediate awaiter =
     (case (case immediate of Some r \<Rightarrow> Inr r | None \<Rightarrow> completion_result (ua_request awaiter)) of
        Inl e \<Rightarrow> Inl e
      | Inr result \<Rightarrow>
          if result < 0 then Inl (System_error (- result) ''io_uring read'')
          else Inr (of_int result, ua_buffer awaiter))"

text \<open>\<open>UringBackend::read_at\<close>: the awaiter dies with its full expression.\<close>

definition drop_awaiter :: "nat \<Rightarrow> 'r uring_context \<Rightarrow> 'r uring_context" where
  "drop_awaiter self cx = cx\<lparr>ux_awaiters := (ux_awaiters cx)(self := None)\<rparr>"

fun uring_read_body :: "'r uring_calls \<Rightarrow> (uring_frame, read_value, 'r uring_context) co_body" where
  "uring_read_body uc (Uring_begin self) cx =
     (case uring_awaiter_new (ux_parameters cx self) of
        Inl e \<Rightarrow> Some (Co_throw e, cx)
      | Inr awaiter \<Rightarrow>
          (case uring_await_suspend uc self awaiter cx of
             (Inl e, cx') \<Rightarrow> Some (Co_throw e, drop_awaiter self cx')
           | (Inr None, cx') \<Rightarrow> Some (Co_suspend (Uring_awaiting self), cx')
           | (Inr (Some r), cx') \<Rightarrow>
               Some (co_outcome (uring_await_resume (Some r) awaiter), drop_awaiter self cx')))"
| "uring_read_body uc (Uring_awaiting self) cx =
     (case ux_awaiters cx self of
        None \<Rightarrow> None
      | Some awaiter \<Rightarrow> Some (co_outcome (uring_await_resume None awaiter), drop_awaiter self cx))"

definition uring_read_at :: "read_parameters \<Rightarrow> 'r uring_context \<Rightarrow> nat \<times> 'r uring_context" where
  "uring_read_at p cx =
     (let self = ux_next_frame cx in
      (self, cx\<lparr>ux_tasks := (ux_tasks cx)(self \<mapsto> task_new (Uring_begin self)),
                ux_parameters := (ux_parameters cx)(self := p), ux_next_frame := Suc self\<rparr>))"

definition uring_start ::
  "'r uring_calls \<Rightarrow> nat \<Rightarrow> 'r uring_context \<Rightarrow> (unit res \<times> 'r uring_context) option" where
  "uring_start uc self cx =
     (case ux_tasks cx self of
        None \<Rightarrow> None
      | Some t \<Rightarrow>
          (case task_start (uring_read_body uc) t cx of
             None \<Rightarrow> None
           | Some (r, t', cx') \<Rightarrow> Some (r, cx'\<lparr>ux_tasks := (ux_tasks cx')(self \<mapsto> t')\<rparr>)))"

section \<open>Waiting for a completion\<close>

partial_function (option) wait_cqe_retry ::
  "'r uring_calls \<Rightarrow> 'r \<Rightarrow> (int \<times> uring_completion \<times> 'r) option" where
  "wait_cqe_retry uc ring =
     (case io_uring_wait_cqe uc ring of
        None \<Rightarrow> None
      | Some (wait_result, cqe, ring') \<Rightarrow>
          if wait_result = - EINTR then wait_cqe_retry uc ring' else Some (wait_result, cqe, ring'))"

declare wait_cqe_retry.simps [code]

definition uring_frame_done :: "'r uring_context \<Rightarrow> nat \<Rightarrow> bool" where
  "uring_frame_done cx self \<longleftrightarrow> (case ux_tasks cx self of None \<Rightarrow> False | Some t \<Rightarrow> task_done t)"

definition uring_resume_frame :: "'r uring_calls \<Rightarrow> nat \<Rightarrow> 'r uring_context \<Rightarrow> 'r uring_context option" where
  "uring_resume_frame uc self cx =
     (case ux_tasks cx self of
        None \<Rightarrow> None
      | Some t \<Rightarrow>
          (case task_handle t of
             None \<Rightarrow> None
           | Some c \<Rightarrow>
               (case co_resume (uring_read_body uc) c cx of
                  None \<Rightarrow> None
                | Some (c', cx') \<Rightarrow>
                    Some (cx'\<lparr>ux_tasks := (ux_tasks cx')(self \<mapsto> t\<lparr>task_handle := Some c'\<rparr>)\<rparr>))))"

text \<open>
  \<open>request->complete\<close> with the kernel's stores to the buffer. User data that names no awaiter is a
  dangling pointer: the behaviour is undefined, \<open>None\<close> here.
\<close>

definition complete_awaiter ::
  "'r uring_calls \<Rightarrow> nat \<Rightarrow> int \<Rightarrow> byte list \<Rightarrow> 'r uring_context \<Rightarrow> (unit res \<times> 'r uring_context) option" where
  "complete_awaiter uc self result stored cx =
     (case ux_awaiters cx self of
        None \<Rightarrow> None
      | Some awaiter \<Rightarrow>
          (case complete_request (uring_frame_done cx) result (ua_request awaiter) of
             (Inl e, _) \<Rightarrow> Some (Inl e, cx)
           | (Inr continuation, request) \<Rightarrow>
               (case uring_resume_frame uc continuation
                       (cx\<lparr>ux_awaiters := (ux_awaiters cx)(self \<mapsto>
                          awaiter\<lparr>ua_buffer := stored, ua_request := request\<rparr>)\<rparr>) of
                  None \<Rightarrow> None
                | Some cx' \<Rightarrow> Some (Inr (), cx'))))"

definition uring_wait_one ::
  "'r uring_calls \<Rightarrow> 'r uring_context \<Rightarrow> (unit res \<times> 'r uring_context) option" where
  "uring_wait_one uc cx =
     (case wait_cqe_retry uc (ux_ring cx) of
        None \<Rightarrow> None
      | Some (wait_result, cqe, ring) \<Rightarrow>
          if wait_result < 0 then
            Some (Inl (System_error (- wait_result) ''io_uring_wait_cqe''), cx\<lparr>ux_ring := ring\<rparr>)
          else
            let cx' = cx\<lparr>ux_ring := io_uring_cqe_seen uc ring\<rparr> in
            (case cqe_data cqe of
               None \<Rightarrow> Some (Inl (Runtime_error ''io_uring CQE has no CompletionRequest''), cx')
             | Some request \<Rightarrow> complete_awaiter uc request (cqe_res cqe) (cqe_stored cqe) cx'))"

section \<open>The backend\<close>

definition uring_result :: "nat \<Rightarrow> 'r uring_context \<Rightarrow> (read_value res \<times> 'r uring_context) option" where
  "uring_result self cx =
     (case ux_tasks cx self of
        None \<Rightarrow> None
      | Some t \<Rightarrow> (case task_result t of (r, t') \<Rightarrow> Some (r, cx\<lparr>ux_tasks := (ux_tasks cx)(self \<mapsto> t')\<rparr>)))"

text \<open>\<open>~Task\<close> destroys the frame, and the awaiter in it.\<close>

definition uring_destroy :: "nat \<Rightarrow> 'r uring_context \<Rightarrow> 'r uring_context" where
  "uring_destroy self cx = drop_awaiter self (cx\<lparr>ux_tasks := (ux_tasks cx)(self := None)\<rparr>)"

definition uring_backend :: "'r uring_calls \<Rightarrow> ('r uring_context, nat) io_backend" where
  "uring_backend uc =
     \<lparr>be_name = ''io_uring'',
      be_read_at = (\<lambda>fd n offset. uring_read_at \<lparr>rp_null = False, rp_fd = fd, rp_size = n, rp_offset = offset\<rparr>),
      be_start = (\<lambda>self cx. case uring_start uc self cx of None \<Rightarrow> None | Some (r, cx') \<Rightarrow> Some (r, self, cx')),
      be_done = (\<lambda>self cx. uring_frame_done cx self),
      be_wait_one = uring_wait_one uc,
      be_result = (\<lambda>self cx. case uring_result self cx of
        None \<Rightarrow> (Inl (Logic_error ''cannot get a result from an invalid Task''), self, cx)
      | Some (r, cx') \<Rightarrow> (r, self, cx')),
      be_destroy = uring_destroy\<rparr>"

section \<open>What liburing promises\<close>

text \<open>
  An entry as \<open>io_uring_prep_read\<close> and \<open>io_uring_sqe_set_data\<close> fill it, and a view of a ring; \<open>rv_ok\<close>
  are the rings for which the promises hold.
\<close>

record uring_submission =
  sm_fd :: int
  sm_byte_count :: "32 word"
  sm_offset :: u64
  sm_data :: "nat option"

record 'r ring_view =
  rv_ok :: "'r \<Rightarrow> bool"
  rv_prepared :: "'r \<Rightarrow> uring_submission list"
  rv_pending :: "'r \<Rightarrow> uring_submission list"

text \<open>
  The submission queue: \<open>get_sqe\<close> appends an entry unless the queue is full, the next two calls fill
  it, and \<open>submit\<close> hands a prefix of the prepared entries to the kernel and returns its length, or
  fails and hands over nothing.
\<close>

definition submission_contract :: "'r uring_calls \<Rightarrow> 'r ring_view \<Rightarrow> bool" where
  "submission_contract uc v \<longleftrightarrow>
     (\<forall>r. rv_ok v r \<longrightarrow>
        (\<forall>sqe r'. io_uring_get_sqe uc r = (sqe, r') \<longrightarrow>
           rv_ok v r' \<and> rv_pending v r' = rv_pending v r \<and>
           (case sqe of
              None \<Rightarrow> rv_prepared v r' = rv_prepared v r
            | Some i \<Rightarrow> i = length (rv_prepared v r) \<and> (\<exists>x. rv_prepared v r' = rv_prepared v r @ [x]))) \<and>
        (\<forall>i fd n off. i < length (rv_prepared v r) \<longrightarrow>
           rv_ok v (io_uring_prep_read uc i fd n off r) \<and>
           rv_pending v (io_uring_prep_read uc i fd n off r) = rv_pending v r \<and>
           rv_prepared v (io_uring_prep_read uc i fd n off r) =
             (rv_prepared v r)[i := \<lparr>sm_fd = fd, sm_byte_count = n, sm_offset = off, sm_data = None\<rparr>]) \<and>
        (\<forall>i d. i < length (rv_prepared v r) \<longrightarrow>
           rv_ok v (io_uring_sqe_set_data uc i d r) \<and>
           rv_pending v (io_uring_sqe_set_data uc i d r) = rv_pending v r \<and>
           rv_prepared v (io_uring_sqe_set_data uc i d r) =
             (rv_prepared v r)[i := (rv_prepared v r ! i)\<lparr>sm_data := Some d\<rparr>]) \<and>
        (\<forall>k r'. io_uring_submit uc r = (k, r') \<longrightarrow>
           rv_ok v r' \<and> k \<le> int (length (rv_prepared v r)) \<and>
           rv_prepared v r' = drop (nat k) (rv_prepared v r) \<and>
           rv_pending v r' = rv_pending v r @ take (nat k) (rv_prepared v r)))"

text \<open>
  The completion queue: a completion is the answer to one pending entry, which stops being pending
  once the completion is seen. Waiting blocks for ever only when nothing is pending, and is
  interrupted finitely often.
\<close>

definition completion_contract ::
  "'r uring_calls \<Rightarrow> 'r ring_view \<Rightarrow> (uring_submission \<Rightarrow> int \<Rightarrow> byte list \<Rightarrow> bool) \<Rightarrow> ('r \<Rightarrow> nat) \<Rightarrow> bool" where
  "completion_contract uc v answers m \<longleftrightarrow>
     (\<forall>r. rv_ok v r \<longrightarrow>
        (rv_pending v r \<noteq> [] \<longrightarrow> io_uring_wait_cqe uc r \<noteq> None) \<and>
        (\<forall>k c r'. io_uring_wait_cqe uc r = Some (k, c, r') \<longrightarrow>
           rv_ok v r' \<and> rv_prepared v r' = rv_prepared v r \<and> rv_pending v r' = rv_pending v r \<and> k \<le> 0 \<and>
           (k = - EINTR \<longrightarrow> m r' < m r) \<and>
           (k = 0 \<longrightarrow> (\<exists>s \<in> set (rv_pending v r). cqe_data c = sm_data s \<and> answers s (cqe_res c) (cqe_stored c) \<and>
              rv_ok v (io_uring_cqe_seen uc r') \<and>
              rv_prepared v (io_uring_cqe_seen uc r') = rv_prepared v r \<and>
              rv_pending v (io_uring_cqe_seen uc r') = remove1 s (rv_pending v r)))))"

text \<open>Every submission hands over all the entries that are prepared.\<close>

definition submits_all :: "'r uring_calls \<Rightarrow> 'r ring_view \<Rightarrow> bool" where
  "submits_all uc v \<longleftrightarrow>
     (\<forall>r k r'. rv_ok v r \<longrightarrow> io_uring_submit uc r = (k, r') \<longrightarrow> k = int (length (rv_prepared v r)))"

section \<open>The invariant\<close>

definition submission_of :: "read_parameters \<Rightarrow> nat \<Rightarrow> uring_submission" where
  "submission_of p self =
     \<lparr>sm_fd = rp_fd p, sm_byte_count = ucast (rp_size p), sm_offset = rp_offset p, sm_data = Some self\<rparr>"

definition attached_awaiter :: "read_parameters \<Rightarrow> nat \<Rightarrow> uring_awaiter" where
  "attached_awaiter p self =
     \<lparr>ua_fd = rp_fd p, ua_buffer = [], ua_byte_count = rp_size p, ua_offset = rp_offset p,
      ua_request = \<lparr>cr_continuation = Some self, cr_result = 0, cr_completed = False\<rparr>\<rparr>"

definition uring_suspended :: "nat \<Rightarrow> (uring_frame, read_value) task" where
  "uring_suspended self =
     \<lparr>task_handle = Some \<lparr>co_frame = Frame_at (Uring_awaiting self), co_value = None, co_exception = None\<rparr>,
      task_started = True\<rparr>"

definition uring_finished :: "read_value res \<Rightarrow> (uring_frame, read_value) task" where
  "uring_finished out =
     \<lparr>task_handle = Some \<lparr>co_frame = Frame_final,
        co_value = (case out of Inl _ \<Rightarrow> None | Inr v \<Rightarrow> Some v),
        co_exception = (case out of Inl e \<Rightarrow> Some e | Inr _ \<Rightarrow> None)\<rparr>, task_started = True\<rparr>"

definition uring_outcome :: "int \<Rightarrow> byte list \<Rightarrow> read_value res" where
  "uring_outcome r stored =
     (if r < 0 then Inl (System_error (- r) ''io_uring read'') else Inr (of_int r, stored))"

text \<open>An outcome of a read with these parameters: its own exception, a full queue, or its own answer.\<close>

definition uring_own_outcome ::
  "(uring_submission \<Rightarrow> int \<Rightarrow> byte list \<Rightarrow> bool) \<Rightarrow> read_parameters \<Rightarrow> nat \<Rightarrow> read_value res \<Rightarrow> bool" where
  "uring_own_outcome answers p self out \<longleftrightarrow>
     (\<exists>e. uring_awaiter_new p = Inl e \<and> out = Inl e) \<or>
     (\<exists>aw. uring_awaiter_new p = Inr aw) \<and>
       (out = uring_outcome (- EAGAIN) [] \<or>
        (\<exists>r stored. answers (submission_of p self) r stored \<and> out = uring_outcome r stored))"

fun uring_settled ::
  "(uring_submission \<Rightarrow> int \<Rightarrow> byte list \<Rightarrow> bool) \<Rightarrow> read_parameters \<Rightarrow> nat \<Rightarrow> (uring_frame, read_value) task \<Rightarrow> bool"
  where
  "uring_settled answers p self t =
     (if task_started t
      then (\<exists>c. task_handle t = Some c \<and> co_frame c = Frame_final \<and>
             (\<forall>e. co_exception c = Some e \<longrightarrow> uring_own_outcome answers p self (Inl e)) \<and>
             (\<forall>v. co_value c = Some v \<longrightarrow> uring_own_outcome answers p self (Inr v)))
      else t = task_new (Uring_begin self))"

text \<open>The frames in flight are suspended on their own requests, the others have no awaiter.\<close>

definition frames_ok ::
  "(uring_submission \<Rightarrow> int \<Rightarrow> byte list \<Rightarrow> bool) \<Rightarrow> nat set \<Rightarrow> 'r uring_context \<Rightarrow> bool" where
  "frames_ok answers flight cx \<longleftrightarrow>
     (\<forall>self. if self \<in> flight
        then ux_awaiters cx self = Some (attached_awaiter (ux_parameters cx self) self) \<and>
          ux_tasks cx self = Some (uring_suspended self) \<and> (\<exists>aw. uring_awaiter_new (ux_parameters cx self) = Inr aw)
        else ux_awaiters cx self = None \<and>
          (\<forall>t. ux_tasks cx self = Some t \<longrightarrow> uring_settled answers (ux_parameters cx self) self t)) \<and>
     (\<forall>self. ux_next_frame cx \<le> self \<longrightarrow> ux_tasks cx self = None)"

definition in_flight :: "'r ring_view \<Rightarrow> 'r uring_context \<Rightarrow> nat list" where
  "in_flight v cx = map (\<lambda>s. the (sm_data s)) (rv_pending v (ux_ring cx))"

definition uring_ok ::
  "'r ring_view \<Rightarrow> (uring_submission \<Rightarrow> int \<Rightarrow> byte list \<Rightarrow> bool) \<Rightarrow> 'r uring_context \<Rightarrow> bool" where
  "uring_ok v answers cx \<longleftrightarrow>
     rv_ok v (ux_ring cx) \<and> rv_prepared v (ux_ring cx) = [] \<and> distinct (in_flight v cx) \<and>
     (\<forall>s \<in> set (rv_pending v (ux_ring cx)). \<exists>self. s = submission_of (ux_parameters cx self) self) \<and>
     frames_ok answers (set (in_flight v cx)) cx"

section \<open>Submission\<close>

text \<open>The entry that a read prepares on a ring with none.\<close>

lemma prepare_one:
  assumes sq: "submission_contract uc v" and ok: "rv_ok v ring" and prep: "rv_prepared v ring = []"
    and get: "io_uring_get_sqe uc ring = (Some i, ring1)"
    and ring3: "ring3 = io_uring_sqe_set_data uc i d (io_uring_prep_read uc i fd n off ring1)"
  shows "rv_ok v ring3" and "rv_pending v ring3 = rv_pending v ring"
    and "rv_prepared v ring3 = [\<lparr>sm_fd = fd, sm_byte_count = n, sm_offset = off, sm_data = Some d\<rparr>]"
proof -
  note C = sq [unfolded submission_contract_def, rule_format]
  let ?r2 = "io_uring_prep_read uc i fd n off ring1" and ?s = "\<lparr>sm_fd = fd, sm_byte_count = n, sm_offset = off, sm_data = None\<rparr>"
  let ?r3 = "io_uring_sqe_set_data uc i d ?r2"
  obtain x where r1: "rv_ok v ring1" "rv_pending v ring1 = rv_pending v ring" "i = 0" "rv_prepared v ring1 = [x]"
    using C [OF ok, THEN conjunct1, rule_format, OF get] prep by auto
  have r2: "rv_ok v ?r2" "rv_pending v ?r2 = rv_pending v ring" "rv_prepared v ?r2 = [?s]"
    using C [OF r1(1), THEN conjunct2, THEN conjunct1, rule_format, of i fd n off] r1 by simp_all
  have "rv_ok v ?r3" "rv_pending v ?r3 = rv_pending v ring" "rv_prepared v ?r3 = [?s\<lparr>sm_data := Some d\<rparr>]"
    using C [OF r2(1), THEN conjunct2, THEN conjunct2, THEN conjunct1, rule_format, of i d] r1(3) r2 by simp_all
  then show "rv_ok v ring3" "rv_pending v ring3 = rv_pending v ring"
    "rv_prepared v ring3 = [\<lparr>sm_fd = fd, sm_byte_count = n, sm_offset = off, sm_data = Some d\<rparr>]"
    by (simp_all add: ring3)
qed

lemma submit_one:
  assumes sq: "submission_contract uc v" and ok: "rv_ok v ring" and prep: "rv_prepared v ring = []"
    and get: "io_uring_get_sqe uc ring = (Some i, ring1)"
    and sub: "io_uring_submit uc (io_uring_sqe_set_data uc i d (io_uring_prep_read uc i fd n off ring1)) = (k, ring2)"
    and all: "submits_all uc v \<or> rv_prepared v ring2 = [] \<or> k = 1"
  shows "k = 1 \<and> rv_ok v ring2 \<and> rv_prepared v ring2 = [] \<and>
    rv_pending v ring2 = rv_pending v ring @ [\<lparr>sm_fd = fd, sm_byte_count = n, sm_offset = off, sm_data = Some d\<rparr>]"
proof -
  note r3 = prepare_one [OF sq ok prep get refl, of d fd n off]
  note C = sq [unfolded submission_contract_def, rule_format, OF r3(1), THEN conjunct2, THEN conjunct2, THEN conjunct2,
      rule_format, OF sub]
  have "k = 1" using all
  proof (elim disjE)
    assume "submits_all uc v"
    from this [unfolded submits_all_def, rule_format, OF r3(1) sub] show ?thesis using r3(3) by simp
  next
    assume "rv_prepared v ring2 = []"
    then have "1 \<le> nat k" using C r3(3) by (auto simp: drop_eq_Nil)
    moreover have "k \<le> 1" using C r3(3) by simp
    ultimately show ?thesis by linarith
  qed
  with C r3 show ?thesis by simp
qed

lemma get_none:
  assumes "submission_contract uc v" and "rv_ok v ring" and "io_uring_get_sqe uc ring = (None, ring1)"
  shows "rv_ok v ring1 \<and> rv_prepared v ring1 = rv_prepared v ring \<and> rv_pending v ring1 = rv_pending v ring"
  using assms(1) [unfolded submission_contract_def, rule_format, OF assms(2), THEN conjunct1, rule_format, OF assms(3)]
  by simp

section \<open>The operations keep the invariant\<close>

lemma uring_okD:
  assumes "uring_ok v answers cx"
  shows "rv_ok v (ux_ring cx)" and "rv_prepared v (ux_ring cx) = []" and "distinct (in_flight v cx)"
    and "s \<in> set (rv_pending v (ux_ring cx)) \<Longrightarrow>
      \<exists>self \<in> set (in_flight v cx). s = submission_of (ux_parameters cx self) self"
    and "frames_ok answers (set (in_flight v cx)) cx"
proof -
  show "rv_ok v (ux_ring cx)" "rv_prepared v (ux_ring cx) = []" "distinct (in_flight v cx)"
    "frames_ok answers (set (in_flight v cx)) cx"
    using assms by (simp_all add: uring_ok_def)
  assume s: "s \<in> set (rv_pending v (ux_ring cx))"
  then obtain self where "s = submission_of (ux_parameters cx self) self" using assms by (auto simp: uring_ok_def)
  with s show "\<exists>self \<in> set (in_flight v cx). s = submission_of (ux_parameters cx self) self"
    by (force simp: in_flight_def submission_of_def)
qed

lemma frames_okD:
  assumes "frames_ok answers I cx"
  shows "self \<in> I \<Longrightarrow> ux_awaiters cx self = Some (attached_awaiter (ux_parameters cx self) self)"
    and "self \<in> I \<Longrightarrow> ux_tasks cx self = Some (uring_suspended self)"
    and "self \<in> I \<Longrightarrow> \<exists>aw. uring_awaiter_new (ux_parameters cx self) = Inr aw"
    and "self \<notin> I \<Longrightarrow> ux_awaiters cx self = None"
    and "self \<notin> I \<Longrightarrow> ux_tasks cx self = Some t \<Longrightarrow> uring_settled answers (ux_parameters cx self) self t"
    and "ux_next_frame cx \<le> self \<Longrightarrow> ux_tasks cx self = None"
proof -
  note o = assms [unfolded frames_ok_def]
  have c: "if self \<in> I
      then ux_awaiters cx self = Some (attached_awaiter (ux_parameters cx self) self) \<and>
        ux_tasks cx self = Some (uring_suspended self) \<and> (\<exists>aw. uring_awaiter_new (ux_parameters cx self) = Inr aw)
      else ux_awaiters cx self = None \<and>
        (\<forall>t. ux_tasks cx self = Some t \<longrightarrow> uring_settled answers (ux_parameters cx self) self t)"
    using o by blast
  show "ux_awaiters cx self = Some (attached_awaiter (ux_parameters cx self) self)" if "self \<in> I"
    using c that by simp
  show "ux_tasks cx self = Some (uring_suspended self)" if "self \<in> I" using c that by simp
  show "\<exists>aw. uring_awaiter_new (ux_parameters cx self) = Inr aw" if "self \<in> I" using c that by simp
  show "ux_awaiters cx self = None" if "self \<notin> I" using c that by simp
  show "uring_settled answers (ux_parameters cx self) self t" if "self \<notin> I" "ux_tasks cx self = Some t"
    using c that by auto
  show "ux_tasks cx self = None" if "ux_next_frame cx \<le> self" using o that by blast
qed

lemma uring_awaiter_new_Inr:
  assumes "uring_awaiter_new p = Inr aw"
  shows "aw = (attached_awaiter p self)\<lparr>ua_request := completion_request_new\<rparr>"
  using assms by (auto simp: uring_awaiter_new_def attached_awaiter_def split: if_splits)

lemma uring_start_cases:
  assumes start: "uring_start uc self cx = Some (r, cx')" and ok: "uring_ok v answers cx"
    and sq: "submission_contract uc v" and all: "submits_all uc v \<or> rv_prepared v (ux_ring cx') = []"
  obtains (refused) t e where "ux_tasks cx self = Some t" and "task_started t" and "r = Inl e" and "cx' = cx"
  | (finished) out ring where "ux_tasks cx self = Some (task_new (Uring_begin self))" and "r = Inr ()"
      and "uring_own_outcome answers (ux_parameters cx self) self out"
      and "cx' = cx\<lparr>ux_ring := ring, ux_tasks := (ux_tasks cx)(self \<mapsto> uring_finished out)\<rparr>"
      and "rv_ok v ring" and "rv_prepared v ring = []" and "rv_pending v ring = rv_pending v (ux_ring cx)"
  | (accepted) aw ring where "ux_tasks cx self = Some (task_new (Uring_begin self))" and "r = Inr ()"
      and "uring_awaiter_new (ux_parameters cx self) = Inr aw"
      and "cx' = cx\<lparr>ux_ring := ring,
             ux_awaiters := (ux_awaiters cx)(self \<mapsto> attached_awaiter (ux_parameters cx self) self),
             ux_tasks := (ux_tasks cx)(self \<mapsto> uring_suspended self)\<rparr>"
      and "rv_ok v ring" and "rv_prepared v ring = []"
      and "rv_pending v ring = rv_pending v (ux_ring cx) @ [submission_of (ux_parameters cx self) self]"
proof -
  let ?p = "ux_parameters cx self"
  from start obtain t where t: "ux_tasks cx self = Some t" by (auto simp: uring_start_def split: option.splits)
  note F = frames_okD [OF uring_okD(5) [OF ok]]
  show thesis
  proof (cases "task_started t")
    case True
    moreover have "\<exists>c. task_handle t = Some c"
      using F(2) [of self] F(5) [of self t] t True by (cases "self \<in> set (in_flight v cx)") (auto simp: uring_suspended_def)
    ultimately show ?thesis using refused start t by (auto simp: uring_start_def task_start_def fun_upd_idem)
  next
    case False
    have out: "self \<notin> set (in_flight v cx)" using F(2) [of self] t False by (auto simp: uring_suspended_def)
    have new: "t = task_new (Uring_begin self)" and none: "ux_awaiters cx self = None"
      using F(4,5) [OF out] t False by auto
    have drop: "cx\<lparr>ux_ring := ring, ux_awaiters := (ux_awaiters cx)(self := None)\<rparr> = cx\<lparr>ux_ring := ring\<rparr>" for ring
      using none by (simp add: fun_upd_idem)
    have run: "uring_start uc self cx = Some (Inr (), cx1\<lparr>ux_tasks := (ux_tasks cx1)(self \<mapsto> uring_finished out)\<rparr>)"
      if "uring_read_body uc (Uring_begin self) cx = Some (co_outcome out, cx1)" for out cx1
      using t that by (cases out)
        (simp_all add: new uring_start_def task_start_def task_new_def uring_finished_def co_outcome_def
          del: uring_read_body.simps)
    show thesis
    proof (cases "uring_awaiter_new ?p")
      case (Inl e)
      then have body: "uring_read_body uc (Uring_begin self) cx = Some (co_outcome (Inl e), cx)" by (simp add: co_outcome_def)
      from run [OF body] Inl uring_okD(1,2) [OF ok] t new start show ?thesis
        by (intro finished [of "Inl e" "ux_ring cx"]) (simp_all add: uring_own_outcome_def)
    next
      case (Inr aw)
      note aw = uring_awaiter_new_Inr [OF Inr, of self]
      obtain g ring1 where g: "io_uring_get_sqe uc (ux_ring cx) = (g, ring1)" by (meson surj_pair)
      show ?thesis
      proof (cases g)
        case None
        then have "uring_await_suspend uc self aw cx = (Inr (Some (- EAGAIN)), cx\<lparr>ux_ring := ring1\<rparr>)"
          using g by (simp add: uring_await_suspend_def)
        then have body: "uring_read_body uc (Uring_begin self) cx =
            Some (co_outcome (uring_outcome (- EAGAIN) []), cx\<lparr>ux_ring := ring1\<rparr>)"
          using Inr by (simp add: uring_await_resume_def uring_outcome_def drop_awaiter_def drop)
        from run [OF body] get_none [OF sq uring_okD(1) [OF ok] g [unfolded None]] uring_okD(2) [OF ok] Inr t new start
        show ?thesis
          by (intro finished [of "uring_outcome (- EAGAIN) []" ring1]) (simp_all add: uring_own_outcome_def)
      next
        case (Some i)
        obtain k ring2 where sub: "io_uring_submit uc (io_uring_sqe_set_data uc i self
            (io_uring_prep_read uc i (ua_fd aw) (ucast (ua_byte_count aw)) (ua_offset aw) ring1)) = (k, ring2)"
          by (meson surj_pair)
        have submitted: "submits_all uc v \<or> rv_prepared v ring2 = [] \<or> k = 1"
        proof (rule ccontr)
          assume not: "\<not> ?thesis"
          then obtain j where "uring_await_suspend uc self aw cx = (Inr (Some j), cx\<lparr>ux_ring := ring2\<rparr>)"
            using that [of k] that [of "- EIO"] g sub Some
            by (cases "k < 0") (auto simp: uring_await_suspend_def Let_def)
          then have "uring_read_body uc (Uring_begin self) cx =
              Some (co_outcome (uring_await_resume (Some j) aw), cx\<lparr>ux_ring := ring2\<rparr>)"
            using Inr by (simp add: drop_awaiter_def drop)
          from run [OF this] start all not show False by simp
        qed
        note one = submit_one [OF sq uring_okD(1,2) [OF ok] g [unfolded Some] sub submitted]
        have "uring_await_suspend uc self aw cx = (Inr None, cx\<lparr>ux_ring := ring2,
            ux_awaiters := (ux_awaiters cx)(self \<mapsto> attached_awaiter ?p self)\<rparr>)"
          using g sub one Some
          by (simp add: uring_await_suspend_def aw set_continuation_def completion_request_new_def attached_awaiter_def)
        then have body: "uring_read_body uc (Uring_begin self) cx = Some (Co_suspend (Uring_awaiting self),
            cx\<lparr>ux_ring := ring2, ux_awaiters := (ux_awaiters cx)(self \<mapsto> attached_awaiter ?p self)\<rparr>)"
          using Inr by simp
        have "uring_start uc self cx = Some (Inr (), cx\<lparr>ux_ring := ring2,
            ux_awaiters := (ux_awaiters cx)(self \<mapsto> attached_awaiter ?p self),
            ux_tasks := (ux_tasks cx)(self \<mapsto> uring_suspended self)\<rparr>)"
          using t body by (simp add: new uring_start_def task_start_def task_new_def uring_suspended_def
            del: uring_read_body.simps)
        with start t new Inr one show ?thesis
          by (intro accepted [of aw ring2]) (simp_all add: aw attached_awaiter_def submission_of_def)
      qed
    qed
  qed
qed

lemma frames_ok_task:
  assumes ok: "frames_ok answers I cx" and "self \<notin> I"
    and "\<And>t'. t = Some t' \<Longrightarrow> uring_settled answers (ux_parameters cx self) self t' \<and> self < ux_next_frame cx"
  shows "frames_ok answers I (cx\<lparr>ux_ring := ring, ux_tasks := (ux_tasks cx)(self := t)\<rparr>)"
  unfolding frames_ok_def
proof (intro conjI allI impI)
  fix s
  show "if s \<in> I then
      ux_awaiters (cx\<lparr>ux_ring := ring, ux_tasks := (ux_tasks cx)(self := t)\<rparr>) s =
        Some (attached_awaiter (ux_parameters (cx\<lparr>ux_ring := ring, ux_tasks := (ux_tasks cx)(self := t)\<rparr>) s) s) \<and>
      ux_tasks (cx\<lparr>ux_ring := ring, ux_tasks := (ux_tasks cx)(self := t)\<rparr>) s = Some (uring_suspended s) \<and>
      (\<exists>aw. uring_awaiter_new (ux_parameters (cx\<lparr>ux_ring := ring, ux_tasks := (ux_tasks cx)(self := t)\<rparr>) s) = Inr aw)
    else ux_awaiters (cx\<lparr>ux_ring := ring, ux_tasks := (ux_tasks cx)(self := t)\<rparr>) s = None \<and>
      (\<forall>t'. ux_tasks (cx\<lparr>ux_ring := ring, ux_tasks := (ux_tasks cx)(self := t)\<rparr>) s = Some t' \<longrightarrow>
        uring_settled answers (ux_parameters (cx\<lparr>ux_ring := ring, ux_tasks := (ux_tasks cx)(self := t)\<rparr>) s) s t')"
    using frames_okD(1-5) [OF ok, of s] assms(2,3) by (cases "s = self") (simp_all del: uring_settled.simps)
next
  fix s assume "ux_next_frame (cx\<lparr>ux_ring := ring, ux_tasks := (ux_tasks cx)(self := t)\<rparr>) \<le> s"
  then show "ux_tasks (cx\<lparr>ux_ring := ring, ux_tasks := (ux_tasks cx)(self := t)\<rparr>) s = None"
    using frames_okD(6) [OF ok, of s] assms(3) by (cases t) auto
qed

lemma uring_settled_finished:
  "uring_own_outcome answers p self out \<Longrightarrow> uring_settled answers p self (uring_finished out)"
  by (cases out) (auto simp: uring_finished_def)

lemma uring_ok_task:
  assumes ok: "uring_ok v answers cx" and "self \<notin> set (in_flight v cx)"
    and "\<And>t'. t = Some t' \<Longrightarrow> uring_settled answers (ux_parameters cx self) self t' \<and> self < ux_next_frame cx"
    and "rv_ok v ring" and "rv_prepared v ring = []" and "rv_pending v ring = rv_pending v (ux_ring cx)"
  shows "uring_ok v answers (cx\<lparr>ux_ring := ring, ux_tasks := (ux_tasks cx)(self := t)\<rparr>)"
proof -
  have flight: "in_flight v (cx\<lparr>ux_ring := ring, ux_tasks := (ux_tasks cx)(self := t)\<rparr>) = in_flight v cx"
    using assms(6) by (simp add: in_flight_def)
  have "frames_ok answers (set (in_flight v cx)) (cx\<lparr>ux_ring := ring, ux_tasks := (ux_tasks cx)(self := t)\<rparr>)"
    by (rule frames_ok_task [OF uring_okD(5) [OF ok] assms(2,3)])
  then show ?thesis using ok assms(4-6) unfolding uring_ok_def flight by simp
qed

lemma task_below:
  "frames_ok answers I cx \<Longrightarrow> ux_tasks cx self = Some t \<Longrightarrow> self < ux_next_frame cx"
  using frames_okD(6) [of answers I cx self] by (cases "self < ux_next_frame cx") auto

lemma unstarted_not_in_flight:
  "frames_ok answers I cx \<Longrightarrow> ux_tasks cx self = Some t \<Longrightarrow> \<not> task_started t \<or> task_done t \<Longrightarrow> self \<notin> I"
  using frames_okD(2) [of answers I cx self] by (auto simp: uring_suspended_def task_done_def)

lemma uring_start_ok:
  assumes start: "uring_start uc self cx = Some (r, cx')" and ok: "uring_ok v answers cx"
    and sq: "submission_contract uc v" and all: "submits_all uc v \<or> rv_prepared v (ux_ring cx') = []"
  shows "uring_ok v answers cx'"
  using start ok sq all
proof (cases rule: uring_start_cases)
  case (refused t e)
  then show ?thesis using ok by simp
next
  case (finished out ring)
  note F = uring_okD(5) [OF ok]
  show ?thesis unfolding finished(4)
    by (rule uring_ok_task [OF ok unstarted_not_in_flight [OF F finished(1)] _ finished(5-7)])
      (use uring_settled_finished [OF finished(3)] task_below [OF F finished(1)] in \<open>auto simp: task_new_def\<close>)
next
  case (accepted aw ring)
  note F = uring_okD(5) [OF ok]
  let ?s = "submission_of (ux_parameters cx self) self"
  have out: "self \<notin> set (in_flight v cx)" by (rule unstarted_not_in_flight [OF F accepted(1)]) (simp add: task_new_def)
  have flight: "in_flight v cx' = in_flight v cx @ [self]" and pend: "rv_pending v (ux_ring cx') = rv_pending v (ux_ring cx) @ [?s]"
    and params: "ux_parameters cx' = ux_parameters cx"
    using accepted(7) by (simp_all add: accepted(4) in_flight_def submission_of_def)
  have "frames_ok answers (insert self (set (in_flight v cx))) cx'"
    unfolding frames_ok_def
  proof (intro conjI allI impI)
    fix s
    show "if s \<in> insert self (set (in_flight v cx))
      then ux_awaiters cx' s = Some (attached_awaiter (ux_parameters cx' s) s) \<and>
        ux_tasks cx' s = Some (uring_suspended s) \<and> (\<exists>aw. uring_awaiter_new (ux_parameters cx' s) = Inr aw)
      else ux_awaiters cx' s = None \<and> (\<forall>t. ux_tasks cx' s = Some t \<longrightarrow> uring_settled answers (ux_parameters cx' s) s t)"
      using frames_okD(1-5) [OF F, of s] accepted(3) unfolding params
      by (cases "s = self") (simp_all add: accepted(4) del: uring_settled.simps)
  next
    fix s assume "ux_next_frame cx' \<le> s"
    then show "ux_tasks cx' s = None"
      using frames_okD(6) [OF F, of s] task_below [OF F accepted(1)] by (auto simp: accepted(4))
  qed
  then show ?thesis
    using ok accepted(5,6) out unfolding uring_ok_def flight pend params
    by (auto simp: accepted(4) insert_commute)
qed

lemma uring_read_at_ok:
  assumes ok: "uring_ok v answers cx"
  shows "uring_ok v answers (snd (uring_read_at p cx))" (is "uring_ok v answers ?cx'")
proof -
  let ?new = "ux_next_frame cx"
  note F = uring_okD(5) [OF ok]
  have cx': "?cx' = cx\<lparr>ux_tasks := (ux_tasks cx)(?new \<mapsto> task_new (Uring_begin ?new)),
      ux_parameters := (ux_parameters cx)(?new := p), ux_next_frame := Suc ?new\<rparr>"
    by (simp add: uring_read_at_def Let_def)
  have out: "?new \<notin> set (in_flight v cx)" using frames_okD(2,6) [OF F, of ?new] by auto
  have flight: "in_flight v ?cx' = in_flight v cx" by (simp add: cx' in_flight_def)
  have "frames_ok answers (set (in_flight v cx)) ?cx'"
    unfolding frames_ok_def
  proof (intro conjI allI impI)
    fix s
    show "if s \<in> set (in_flight v cx)
      then ux_awaiters ?cx' s = Some (attached_awaiter (ux_parameters ?cx' s) s) \<and>
        ux_tasks ?cx' s = Some (uring_suspended s) \<and> (\<exists>aw. uring_awaiter_new (ux_parameters ?cx' s) = Inr aw)
      else ux_awaiters ?cx' s = None \<and> (\<forall>t. ux_tasks ?cx' s = Some t \<longrightarrow> uring_settled answers (ux_parameters ?cx' s) s t)"
      using frames_okD(1-5) [OF F, of s] out frames_okD(4) [OF F out] unfolding cx'
      by (cases "s = ?new") (simp_all del: uring_settled.simps, simp add: task_new_def)
  next
    fix s assume "ux_next_frame ?cx' \<le> s"
    then show "ux_tasks ?cx' s = None" using frames_okD(6) [OF F, of s] by (simp add: cx')
  qed
  moreover have "\<exists>self. s = submission_of (ux_parameters ?cx' self) self" if s: "s \<in> set (rv_pending v (ux_ring cx))" for s
  proof -
    obtain self where "self \<in> set (in_flight v cx)" "s = submission_of (ux_parameters cx self) self"
      using uring_okD(4) [OF ok s] by blast
    moreover from this have "ux_parameters ?cx' self = ux_parameters cx self" using out by (auto simp: cx')
    ultimately show ?thesis by metis
  qed
  ultimately show ?thesis using ok unfolding uring_ok_def flight by (simp add: cx')
qed

lemma uring_result_ok:
  assumes ok: "uring_ok v answers cx" and res: "uring_result self cx = Some (r, cx')"
  shows "uring_ok v answers cx' \<and> uring_frame_done cx' self = uring_frame_done cx self"
proof -
  note F = uring_okD(5) [OF ok]
  obtain t t' where t: "ux_tasks cx self = Some t" "task_result t = (r, t')"
    "cx' = cx\<lparr>ux_tasks := (ux_tasks cx)(self \<mapsto> t')\<rparr>"
    using res by (auto simp: uring_result_def split: option.splits prod.splits)
  have done_t: "task_done t' = task_done t"
    using t(2) by (auto simp: task_result_def task_done_def split: option.splits if_splits)
  have "uring_ok v answers cx'"
  proof (cases "self \<in> set (in_flight v cx)")
    case True
    then have "t' = t" using frames_okD(2) [OF F] t(1,2) by (auto simp: uring_suspended_def task_result_def)
    then show ?thesis using ok t by (simp add: fun_upd_idem)
  next
    case False
    have "uring_settled answers (ux_parameters cx self) self t'"
      using frames_okD(5) [OF F False t(1)] t(2)
      by (auto simp: task_result_def task_new_def split: if_splits option.splits)
    then have "uring_ok v answers (cx\<lparr>ux_ring := ux_ring cx, ux_tasks := (ux_tasks cx)(self := Some t')\<rparr>)"
      using task_below [OF F t(1)] uring_okD(1,2) [OF ok] by (intro uring_ok_task [OF ok False]) auto
    then show ?thesis by (simp add: t(3))
  qed
  then show ?thesis using t(1,3) done_t by (simp add: uring_frame_done_def)
qed

lemma uring_destroy_ok:
  assumes ok: "uring_ok v answers cx" and out: "self \<notin> set (in_flight v cx)"
  shows "uring_ok v answers (uring_destroy self cx)"
proof -
  have "uring_ok v answers (cx\<lparr>ux_ring := ux_ring cx, ux_tasks := (ux_tasks cx)(self := None)\<rparr>)"
    using uring_okD(1,2) [OF ok] by (intro uring_ok_task [OF ok out]) auto
  moreover have "(ux_awaiters cx)(self := None) = ux_awaiters cx"
    using frames_okD(4) [OF uring_okD(5) [OF ok] out] by (simp add: fun_upd_idem)
  ultimately show ?thesis by (simp add: uring_destroy_def drop_awaiter_def)
qed

lemma map_remove1_inj:
  "inj_on f (set xs) \<Longrightarrow> x \<in> set xs \<Longrightarrow> map f (remove1 x xs) = remove1 (f x) (map f xs)"
  by (induction xs) (auto simp: inj_on_def)

text \<open>What \<open>io_uring_wait_cqe\<close> gives once it is no longer interrupted.\<close>

definition cqe_taken ::
  "'r uring_calls \<Rightarrow> 'r ring_view \<Rightarrow> (uring_submission \<Rightarrow> int \<Rightarrow> byte list \<Rightarrow> bool) \<Rightarrow>
     uring_submission list \<Rightarrow> int \<times> uring_completion \<times> 'r \<Rightarrow> bool" where
  "cqe_taken uc v answers waiting out \<longleftrightarrow>
     (case out of (k, c, ring) \<Rightarrow>
        k \<le> 0 \<and>
        (k < 0 \<longrightarrow> rv_ok v ring \<and> rv_prepared v ring = [] \<and> rv_pending v ring = waiting) \<and>
        (k = 0 \<longrightarrow> (\<exists>s \<in> set waiting. cqe_data c = sm_data s \<and> answers s (cqe_res c) (cqe_stored c) \<and>
           rv_ok v (io_uring_cqe_seen uc ring) \<and> rv_prepared v (io_uring_cqe_seen uc ring) = [] \<and>
           rv_pending v (io_uring_cqe_seen uc ring) = remove1 s waiting)))"

lemma wait_cqe_retry_taken:
  assumes cq: "completion_contract uc v answers m"
  shows "rv_ok v r \<Longrightarrow> rv_prepared v r = [] \<Longrightarrow>
    wait_cqe_retry uc r = None \<and> rv_pending v r = [] \<or>
    (\<exists>out. wait_cqe_retry uc r = Some out \<and> cqe_taken uc v answers (rv_pending v r) out)"
proof (induction "m r" arbitrary: r rule: less_induct)
  case less
  note C = cq [unfolded completion_contract_def, rule_format, OF less.prems(1)]
  show ?case
  proof (cases "io_uring_wait_cqe uc r")
    case None
    with C show ?thesis by (auto simp: wait_cqe_retry.simps [of uc r])
  next
    case (Some x)
    obtain k c r' where x: "x = (k, c, r')" by (metis prod_cases3)
    note D = C [THEN conjunct2, rule_format, OF Some [unfolded x]]
    show ?thesis
    proof (cases "k = - EINTR")
      case True
      then have "wait_cqe_retry uc r = wait_cqe_retry uc r'" using Some x by (simp add: wait_cqe_retry.simps [of uc r])
      with D True less.hyps [of r'] less.prems show ?thesis by auto
    next
      case False
      then have "wait_cqe_retry uc r = Some (k, c, r')" using Some x by (simp add: wait_cqe_retry.simps [of uc r])
      moreover have "cqe_taken uc v answers (rv_pending v r) (k, c, r')"
        using D less.prems(2) by (auto simp: cqe_taken_def)
      ultimately show ?thesis by blast
    qed
  qed
qed

lemma uring_wait_one_cases:
  assumes ok: "uring_ok v answers cx" and cq: "completion_contract uc v answers m"
  obtains (blocked) "uring_wait_one uc cx = None" and "in_flight v cx = []"
  | (failed) k c ring where "wait_cqe_retry uc (ux_ring cx) = Some (k, c, ring)" and "k < 0"
      and "uring_wait_one uc cx = Some (Inl (System_error (- k) ''io_uring_wait_cqe''), cx\<lparr>ux_ring := ring\<rparr>)"
      and "rv_ok v ring" and "rv_prepared v ring = []" and "rv_pending v ring = rv_pending v (ux_ring cx)"
  | (completed) self ring res stored where "self \<in> set (in_flight v cx)"
      and "answers (submission_of (ux_parameters cx self) self) res stored"
      and "uring_wait_one uc cx = Some (Inr (), cx\<lparr>ux_ring := ring, ux_awaiters := (ux_awaiters cx)(self := None),
             ux_tasks := (ux_tasks cx)(self \<mapsto> uring_finished (uring_outcome res stored))\<rparr>)"
      and "rv_ok v ring" and "rv_prepared v ring = []"
      and "rv_pending v ring = remove1 (submission_of (ux_parameters cx self) self) (rv_pending v (ux_ring cx))"
proof -
  note D = uring_okD [OF ok] and F = frames_okD [OF uring_okD(5) [OF ok]]
  from wait_cqe_retry_taken [OF cq D(1,2)] show thesis
  proof (elim disjE conjE exE)
    assume "wait_cqe_retry uc (ux_ring cx) = None" "rv_pending v (ux_ring cx) = []"
    then show thesis by (intro blocked) (simp_all add: uring_wait_one_def in_flight_def)
  next
    fix out assume out: "wait_cqe_retry uc (ux_ring cx) = Some out" "cqe_taken uc v answers (rv_pending v (ux_ring cx)) out"
    obtain k c ring where x: "out = (k, c, ring)" by (metis prod_cases3)
    show thesis
    proof (cases "k < 0")
      case True
      then show ?thesis using out x
        by (intro failed [of k c ring]) (simp_all add: uring_wait_one_def cqe_taken_def)
    next
      case False
      then obtain s where s: "k = 0" "s \<in> set (rv_pending v (ux_ring cx))" "cqe_data c = sm_data s"
        "answers s (cqe_res c) (cqe_stored c)" "rv_ok v (io_uring_cqe_seen uc ring)"
        "rv_prepared v (io_uring_cqe_seen uc ring) = []"
        "rv_pending v (io_uring_cqe_seen uc ring) = remove1 s (rv_pending v (ux_ring cx))"
        using out(2) x by (auto simp: cqe_taken_def)
      obtain self where self: "self \<in> set (in_flight v cx)" "s = submission_of (ux_parameters cx self) self"
        using D(4) [OF s(2)] by blast
      let ?cx = "cx\<lparr>ux_ring := io_uring_cqe_seen uc ring\<rparr>"
      have "complete_awaiter uc self res stored ?cx = Some (Inr (),
          cx\<lparr>ux_ring := io_uring_cqe_seen uc ring, ux_awaiters := (ux_awaiters cx)(self := None),
             ux_tasks := (ux_tasks cx)(self \<mapsto> uring_finished (uring_outcome res stored))\<rparr>)" for res stored
        using F(1,2) [OF self(1)]
        by (auto simp: complete_awaiter_def complete_request_def uring_resume_frame_def uring_frame_done_def task_done_def
            uring_suspended_def attached_awaiter_def uring_finished_def uring_await_resume_def completion_result_def
            co_outcome_def drop_awaiter_def uring_outcome_def)
      then show ?thesis using out(1) x s self
        by (intro completed [of self "cqe_res c" "cqe_stored c" "io_uring_cqe_seen uc ring"])
          (simp_all add: uring_wait_one_def submission_of_def)
    qed
  qed
qed

lemma in_flight_remove:
  assumes ok: "uring_ok v answers cx" and self: "self \<in> set (in_flight v cx)"
    and "rv_pending v (ux_ring cx') = remove1 (submission_of (ux_parameters cx self) self) (rv_pending v (ux_ring cx))"
  shows "in_flight v cx' = remove1 self (in_flight v cx)"
proof -
  have "inj_on (\<lambda>s. the (sm_data s)) (set (rv_pending v (ux_ring cx)))"
    using uring_okD(3) [OF ok] by (simp add: in_flight_def distinct_map)
  moreover have "submission_of (ux_parameters cx self) self \<in> set (rv_pending v (ux_ring cx))"
  proof -
    obtain s where s: "s \<in> set (rv_pending v (ux_ring cx))" "self = the (sm_data s)"
      using self by (auto simp: in_flight_def)
    from uring_okD(4) [OF ok s(1)] s(2) have "s = submission_of (ux_parameters cx self) self"
      by (auto simp: submission_of_def)
    with s(1) show ?thesis by simp
  qed
  ultimately show ?thesis using assms(3) by (simp add: in_flight_def map_remove1_inj submission_of_def)
qed

lemma uring_wait_one_ok:
  assumes ok: "uring_ok v answers cx" and cq: "completion_contract uc v answers m"
    and w: "uring_wait_one uc cx = Some (r, cx')"
  shows "uring_ok v answers cx'"
  using ok cq
proof (cases rule: uring_wait_one_cases)
  case blocked
  then show ?thesis using w by simp
next
  case (failed k c ring)
  then have "cx' = cx\<lparr>ux_ring := ring\<rparr>" using w by simp
  moreover have "frames_ok answers I (cx\<lparr>ux_ring := ring\<rparr>) = frames_ok answers I cx" for I
    by (simp add: frames_ok_def)
  moreover have "in_flight v (cx\<lparr>ux_ring := ring\<rparr>) = in_flight v cx" using failed(6) by (simp add: in_flight_def)
  ultimately show ?thesis using ok failed(4-6) by (simp add: uring_ok_def)
next
  case (completed self ring res stored)
  note F = uring_okD(5) [OF ok]
  have cx': "cx' = cx\<lparr>ux_ring := ring, ux_awaiters := (ux_awaiters cx)(self := None),
      ux_tasks := (ux_tasks cx)(self \<mapsto> uring_finished (uring_outcome res stored))\<rparr>" using completed(3) w by simp
  have flight: "in_flight v cx' = remove1 self (in_flight v cx)"
    by (rule in_flight_remove [OF ok completed(1)]) (simp add: cx' completed(6))
  have set_flight: "set (in_flight v cx') = set (in_flight v cx) - {self}"
    unfolding flight by (rule set_remove1_eq [OF uring_okD(3) [OF ok]])
  have own: "uring_own_outcome answers (ux_parameters cx self) self (uring_outcome res stored)"
    using completed(2) frames_okD(3) [OF F completed(1)] by (auto simp: uring_own_outcome_def)
  have "frames_ok answers (set (in_flight v cx')) cx'"
    unfolding frames_ok_def set_flight
  proof (intro conjI allI impI)
    fix s
    show "if s \<in> set (in_flight v cx) - {self}
      then ux_awaiters cx' s = Some (attached_awaiter (ux_parameters cx' s) s) \<and>
        ux_tasks cx' s = Some (uring_suspended s) \<and> (\<exists>aw. uring_awaiter_new (ux_parameters cx' s) = Inr aw)
      else ux_awaiters cx' s = None \<and> (\<forall>t. ux_tasks cx' s = Some t \<longrightarrow> uring_settled answers (ux_parameters cx' s) s t)"
      using frames_okD(1-5) [OF F, of s] uring_settled_finished [OF own] completed(1)
      by (cases "s = self") (simp_all add: cx' del: uring_settled.simps)
  next
    fix s assume "ux_next_frame cx' \<le> s"
    then show "ux_tasks cx' s = None"
      using frames_okD(6) [OF F, of s] task_below [OF F frames_okD(2) [OF F completed(1)]] by (auto simp: cx')
  qed
  moreover have "set (rv_pending v ring) \<subseteq> set (rv_pending v (ux_ring cx))"
    unfolding completed(6) by (rule set_remove1_subset)
  ultimately show ?thesis
    using ok completed(4,5) uring_okD(3) [OF ok] unfolding uring_ok_def flight by (auto simp: cx')
qed

section \<open>Everything that may happen to a context\<close>

text \<open>
  Its caller creates, starts, reads out and destroys tasks (never one that is started and not done),
  and waits for completions.
\<close>

datatype uring_op =
    Uring_read_at read_parameters
  | Uring_start nat
  | Uring_result nat
  | Uring_destroy nat
  | Uring_wait_one

fun uring_step :: "'r uring_calls \<Rightarrow> uring_op \<Rightarrow> 'r uring_context \<Rightarrow> 'r uring_context option" where
  "uring_step uc (Uring_read_at p) cx = Some (snd (uring_read_at p cx))"
| "uring_step uc (Uring_start self) cx = map_option snd (uring_start uc self cx)"
| "uring_step uc (Uring_result self) cx = map_option snd (uring_result self cx)"
| "uring_step uc (Uring_destroy self) cx =
     (case ux_tasks cx self of
        None \<Rightarrow> None
      | Some t \<Rightarrow> if task_started t \<and> \<not> task_done t then None else Some (uring_destroy self cx))"
| "uring_step uc Uring_wait_one cx = map_option snd (uring_wait_one uc cx)"

inductive uring_reachable :: "'r uring_calls \<Rightarrow> 'r uring_context \<Rightarrow> 'r uring_context \<Rightarrow> bool"
  for uc cx0 where
  uring_reach_start: "uring_reachable uc cx0 cx0"
| uring_reach_step: "uring_reachable uc cx0 cx \<Longrightarrow> uring_step uc op cx = Some cx' \<Longrightarrow> uring_reachable uc cx0 cx'"

text \<open>A library that keeps its promises, and whose rings submit whatever is prepared.\<close>

definition reliable_uring ::
  "'r uring_calls \<Rightarrow> 'r ring_view \<Rightarrow> (uring_submission \<Rightarrow> int \<Rightarrow> byte list \<Rightarrow> bool) \<Rightarrow> ('r \<Rightarrow> nat) \<Rightarrow> bool" where
  "reliable_uring uc v answers m \<longleftrightarrow>
     submission_contract uc v \<and> completion_contract uc v answers m \<and> submits_all uc v"

definition initialises :: "'r uring_calls \<Rightarrow> 'r ring_view \<Rightarrow> 'r \<Rightarrow> bool" where
  "initialises uc v ring \<longleftrightarrow>
     (\<forall>depth k ring'. io_uring_queue_init uc depth ring = (k, ring') \<longrightarrow> 0 \<le> k \<longrightarrow>
        rv_ok v ring' \<and> rv_prepared v ring' = [] \<and> rv_pending v ring' = [])"

lemma uring_step_ok:
  assumes ok: "uring_ok v answers cx" and sq: "submission_contract uc v" and cq: "completion_contract uc v answers m"
    and step: "uring_step uc op cx = Some cx'" and all: "submits_all uc v \<or> rv_prepared v (ux_ring cx') = []"
  shows "uring_ok v answers cx'"
proof -
  show ?thesis
  proof (cases op)
    case (Uring_read_at p)
    with step uring_read_at_ok [OF ok] show ?thesis by auto
  next
    case (Uring_start self)
    with step uring_start_ok [OF _ ok sq all] show ?thesis by auto
  next
    case (Uring_result self)
    with step uring_result_ok [OF ok] show ?thesis by auto
  next
    case (Uring_destroy self)
    then obtain t where t: "ux_tasks cx self = Some t" "\<not> task_started t \<or> task_done t" "cx' = uring_destroy self cx"
      using step by (auto split: option.splits if_splits)
    show ?thesis unfolding t(3)
      by (rule uring_destroy_ok [OF ok unstarted_not_in_flight [OF uring_okD(5) [OF ok] t(1,2)]])
  next
    case Uring_wait_one
    with step uring_wait_one_ok [OF ok cq] show ?thesis by auto
  qed
qed

lemma uring_reachable_ok:
  "uring_reachable uc cx0 cx \<Longrightarrow> reliable_uring uc v answers m \<Longrightarrow> uring_ok v answers cx0 \<Longrightarrow> uring_ok v answers cx"
  by (induction rule: uring_reachable.induct) (auto simp: reliable_uring_def dest: uring_step_ok)

text \<open>
  The same without any promise that submissions succeed: histories in which every submission handed
  over what was prepared, so that no step left an entry behind.
\<close>

inductive uring_submitted :: "'r uring_calls \<Rightarrow> 'r ring_view \<Rightarrow> 'r uring_context \<Rightarrow> 'r uring_context \<Rightarrow> bool"
  for uc v cx0 where
  submitted_start: "uring_submitted uc v cx0 cx0"
| submitted_step: "uring_submitted uc v cx0 cx \<Longrightarrow> uring_step uc op cx = Some cx' \<Longrightarrow>
     rv_prepared v (ux_ring cx') = [] \<Longrightarrow> uring_submitted uc v cx0 cx'"

lemma uring_submitted_ok:
  "uring_submitted uc v cx0 cx \<Longrightarrow> submission_contract uc v \<Longrightarrow> completion_contract uc v answers m \<Longrightarrow>
   uring_ok v answers cx0 \<Longrightarrow> uring_ok v answers cx"
  by (induction rule: uring_submitted.induct) (auto dest: uring_step_ok)

lemma reliable_submitted:
  "uring_reachable uc cx0 cx \<Longrightarrow> reliable_uring uc v answers m \<Longrightarrow> uring_ok v answers cx0 \<Longrightarrow> uring_submitted uc v cx0 cx"
proof (induction rule: uring_reachable.induct)
  case (uring_reach_step cx op cx')
  have "uring_ok v answers cx'"
    by (rule uring_reachable_ok [OF uring_reachable.uring_reach_step [OF uring_reach_step.hyps(1,2)] uring_reach_step.prems])
  with uring_reach_step show ?case by (auto intro: submitted_step simp: uring_ok_def)
qed (rule submitted_start)

lemma uring_context_new_ok:
  assumes "uring_context_new uc depth ring = Inr cx" and "initialises uc v ring"
  shows "uring_ok v answers cx" and "in_flight v cx = []"
proof -
  obtain k r' where r': "io_uring_queue_init uc depth ring = (k, r')" "0 \<le> k" "ux_ring cx = r'"
    "ux_awaiters cx = (\<lambda>_. None)" "ux_tasks cx = (\<lambda>_. None)"
    using assms(1) by (auto simp: uring_context_new_def not_less split: if_splits prod.splits)
  then have "rv_ok v r'" "rv_prepared v r' = []" "rv_pending v r' = []"
    using assms(2) unfolding initialises_def by blast+
  with r' show "uring_ok v answers cx" "in_flight v cx = []"
    by (simp_all add: uring_ok_def in_flight_def frames_ok_def)
qed

section \<open>One read on an idle context\<close>

definition waits_succeed :: "'r uring_calls \<Rightarrow> 'r ring_view \<Rightarrow> bool" where
  "waits_succeed uc v \<longleftrightarrow>
     (\<forall>r k c r'. rv_ok v r \<longrightarrow> io_uring_wait_cqe uc r = Some (k, c, r') \<longrightarrow> k = 0 \<or> k = - EINTR)"

definition uring_idle ::
  "'r ring_view \<Rightarrow> (uring_submission \<Rightarrow> int \<Rightarrow> byte list \<Rightarrow> bool) \<Rightarrow> 'r uring_context \<Rightarrow> bool" where
  "uring_idle v answers cx \<longleftrightarrow> uring_ok v answers cx \<and> in_flight v cx = []"

lemma retry_succeeds:
  assumes cq: "completion_contract uc v answers m" and good: "waits_succeed uc v"
  shows "rv_ok v r \<Longrightarrow> wait_cqe_retry uc r = Some (k, c, r') \<Longrightarrow> k = 0"
proof (induction "m r" arbitrary: r rule: less_induct)
  case less
  note C = cq [unfolded completion_contract_def, rule_format, OF less.prems(1)]
  obtain j d s where x: "io_uring_wait_cqe uc r = Some (j, d, s)"
    using less.prems(2) by (auto simp: wait_cqe_retry.simps [of uc r] split: option.splits)
  then have "j = 0 \<or> j = - EINTR" using good less.prems(1) unfolding waits_succeed_def by blast
  then show ?case
  proof
    assume "j = - EINTR"
    with C x less.hyps [of s] less.prems show ?thesis by (auto simp: wait_cqe_retry.simps [of uc r])
  qed (use x less.prems(2) in \<open>simp add: wait_cqe_retry.simps [of uc r]\<close>)
qed

lemma uring_read_once:
  assumes idle: "uring_idle v answers cx" and rel: "reliable_uring uc v answers m" and good: "waits_succeed uc v"
    and fd: "0 \<le> fd" and n: "n \<le> 4294967295"
  obtains out cx' where "complete_read (uring_backend uc) fd n off cx = Some (out, cx')" and "uring_idle v answers cx'"
    and "out = uring_outcome (- EAGAIN) [] \<or> (\<exists>r stored self.
      answers (submission_of \<lparr>rp_null = False, rp_fd = fd, rp_size = n, rp_offset = off\<rparr> self) r stored \<and>
      out = uring_outcome r stored)"
proof -
  note result = that
  let ?p = "\<lparr>rp_null = False, rp_fd = fd, rp_size = n, rp_offset = off\<rparr>" and ?self = "ux_next_frame cx"
  let ?be = "uring_backend uc" and ?cx1 = "snd (uring_read_at ?p cx)"
  have ok: "uring_ok v answers cx" and none: "in_flight v cx = []" using idle by (simp_all add: uring_idle_def)
  have sq: "submission_contract uc v" and cq: "completion_contract uc v answers m" and all: "submits_all uc v"
    using rel by (simp_all add: reliable_uring_def)
  have ok1: "uring_ok v answers ?cx1" by (rule uring_read_at_ok [OF ok])
  have cx1: "ux_tasks ?cx1 ?self = Some (task_new (Uring_begin ?self))" "ux_parameters ?cx1 ?self = ?p"
    "ux_ring ?cx1 = ux_ring cx"
    by (simp_all add: uring_read_at_def Let_def)
  have none1: "in_flight v ?cx1 = []" using none by (simp add: in_flight_def cx1)
  have valid: "uring_awaiter_new ?p \<noteq> Inl e" for e using fd n by (simp add: uring_awaiter_new_def not_less [symmetric])
  have finish: thesis
    if cx2: "uring_ok v answers cx2" "in_flight v cx2 = []" "ux_tasks cx2 ?self = Some (uring_finished out)"
      and wait: "be_start ?be ?self ?cx1 = Some (Inr (), ?self, cx3)" "wait_until_done ?be ?self cx3 = Some (Inr (), cx2)"
      and good_out: "out = uring_outcome (- EAGAIN) [] \<or> (\<exists>r stored self.
        answers (submission_of ?p self) r stored \<and> out = uring_outcome r stored)"
    for cx2 cx3 out
  proof -
    obtain cx4 where r: "uring_result ?self cx2 = Some (out, cx4)" "ux_ring cx4 = ux_ring cx2"
      using cx2(3) by (cases out) (auto simp: uring_result_def task_result_def uring_finished_def)
    have ok4: "uring_ok v answers cx4" using uring_result_ok [OF cx2(1) r(1)] by simp
    have none4: "in_flight v cx4 = []" using cx2(2) r(2) by (simp add: in_flight_def)
    have "uring_idle v answers (uring_destroy ?self cx4)"
      using uring_destroy_ok [OF ok4, of ?self] none4
      by (simp add: uring_idle_def in_flight_def uring_destroy_def drop_awaiter_def)
    moreover have "complete_read ?be fd n off cx = Some (out, uring_destroy ?self cx4)"
    proof -
      have "be_read_at ?be fd n off cx = (?self, ?cx1)" by (simp add: uring_backend_def uring_read_at_def Let_def)
      moreover have "be_result ?be ?self cx2 = (out, ?self, cx4)" using r(1) by (simp add: uring_backend_def)
      moreover have "be_destroy ?be = uring_destroy" by (simp add: uring_backend_def)
      ultimately show ?thesis using wait by (simp add: complete_read_def)
    qed
    ultimately show thesis using good_out by (intro result)
  qed
  have done_now: "wait_until_done ?be ?self u = Some (Inr (), u)" if "ux_tasks u ?self = Some (uring_finished out)" for u out
  proof -
    have "be_done ?be ?self u"
      using that by (simp add: uring_backend_def uring_frame_done_def task_done_def uring_finished_def)
    then show ?thesis by (simp add: wait_until_done.simps [of ?be ?self u])
  qed
  obtain r cx3 where start: "uring_start uc ?self ?cx1 = Some (r, cx3)"
  proof -
    have "uring_read_body uc (Uring_begin ?self) ?cx1 \<noteq> None" by (auto split: sum.splits prod.splits option.splits)
    then obtain st u where "uring_read_body uc (Uring_begin ?self) ?cx1 = Some (st, u)" by auto
    with cx1(1) have "uring_start uc ?self ?cx1 \<noteq> None"
      by (cases st) (simp_all add: uring_start_def task_start_def task_new_def del: uring_read_body.simps)
    then show thesis using that by auto
  qed
  have ok3: "uring_ok v answers cx3" by (rule uring_start_ok [OF start ok1 sq disjI1 [OF all]])
  from start ok1 sq disjI1 [OF all] show thesis
  proof (cases rule: uring_start_cases)
    case (refused t e)
    then show ?thesis using cx1(1) by (auto simp: task_new_def)
  next
    case (finished out ring)
    have task: "ux_tasks cx3 ?self = Some (uring_finished out)" by (simp add: finished(4))
    have flight: "in_flight v cx3 = []" using none1 finished(7) by (simp add: finished(4) in_flight_def)
    have begun: "be_start ?be ?self ?cx1 = Some (Inr (), ?self, cx3)" using start finished(2) by (simp add: uring_backend_def)
    show ?thesis
      by (rule finish [OF ok3 flight task begun done_now [OF task]])
        (use finished(3) valid in \<open>auto simp: uring_own_outcome_def cx1(2)\<close>)
  next
    case (accepted aw ring)
    have flight: "in_flight v cx3 = [?self]"
      using none1 accepted(7) by (simp add: accepted(4) in_flight_def submission_of_def)
    from ok3 cq show ?thesis
    proof (cases rule: uring_wait_one_cases)
      case blocked
      then show ?thesis using flight by simp
    next
      case (failed k c ring')
      with retry_succeeds [OF cq good uring_okD(1) [OF ok3]] show ?thesis by simp
    next
      case (completed self ring' res stored)
      then have self: "self = ?self" using flight by simp
      let ?cx2 = "cx3\<lparr>ux_ring := ring', ux_awaiters := (ux_awaiters cx3)(self := None),
             ux_tasks := (ux_tasks cx3)(self \<mapsto> uring_finished (uring_outcome res stored))\<rparr>"
      have ok2: "uring_ok v answers ?cx2" by (rule uring_wait_one_ok [OF ok3 cq completed(3)])
      have flight2: "in_flight v ?cx2 = []"
        using in_flight_remove [OF ok3 completed(1), of ?cx2] completed(6) flight self by simp
      have p: "ux_parameters cx3 ?self = ?p" by (simp add: accepted(4) cx1(2))
      have task: "ux_tasks ?cx2 ?self = Some (uring_finished (uring_outcome res stored))" by (simp add: self)
      have wait: "wait_until_done ?be ?self cx3 = Some (Inr (), ?cx2)"
      proof -
        have "\<not> be_done ?be ?self cx3"
          by (simp add: accepted(4) uring_backend_def uring_frame_done_def task_done_def uring_suspended_def)
        moreover have "be_wait_one ?be cx3 = Some (Inr (), ?cx2)" using completed(3) by (simp add: uring_backend_def)
        ultimately show ?thesis
          using done_now [OF task] by (simp add: wait_until_done.simps [of ?be ?self cx3])
      qed
      have begun: "be_start ?be ?self ?cx1 = Some (Inr (), ?self, cx3)" using start accepted(2) by (simp add: uring_backend_def)
      show ?thesis
        by (rule finish [OF ok2 flight2 task begun wait]) (use completed(2) in \<open>auto simp: self p\<close>)
    qed
  qed
qed

section \<open>A small ring\<close>

text \<open>
  A ring over one file with room for eight entries, which answers in order; the next submissions and
  waits fail with the codes of two scripts.
\<close>

record small_ring =
  sr_file :: "byte list"
  sr_prepared :: "uring_submission list"
  sr_pending :: "uring_submission list"
  sr_submits :: "int list"
  sr_waits :: "int list"

definition blank_submission :: uring_submission where
  "blank_submission = \<lparr>sm_fd = 0, sm_byte_count = 0, sm_offset = 0, sm_data = None\<rparr>"

definition small_answer :: "byte list \<Rightarrow> uring_submission \<Rightarrow> uring_completion" where
  "small_answer contents s =
     (let bytes = read_slice contents (unat (sm_offset s)) (min (unat (sm_byte_count s)) 4096) in
      \<lparr>cqe_data = sm_data s, cqe_res = int (length bytes), cqe_stored = bytes\<rparr>)"

definition small_uring :: "small_ring uring_calls" where
  "small_uring =
     \<lparr>io_uring_queue_init = (\<lambda>depth r. (0, r\<lparr>sr_prepared := [], sr_pending := []\<rparr>)),
      io_uring_queue_exit = (\<lambda>r. r),
      io_uring_get_sqe = (\<lambda>r. if 8 \<le> length (sr_prepared r) then (None, r)
        else (Some (length (sr_prepared r)), r\<lparr>sr_prepared := sr_prepared r @ [blank_submission]\<rparr>)),
      io_uring_prep_read = (\<lambda>i fd n off r. r\<lparr>sr_prepared := (sr_prepared r)[i :=
        \<lparr>sm_fd = fd, sm_byte_count = n, sm_offset = off, sm_data = None\<rparr>]\<rparr>),
      io_uring_sqe_set_data = (\<lambda>i d r. r\<lparr>sr_prepared := (sr_prepared r)[i :=
        (sr_prepared r ! i)\<lparr>sm_data := Some d\<rparr>]\<rparr>),
      io_uring_submit = (\<lambda>r. case sr_submits r of
          [] \<Rightarrow> (int (length (sr_prepared r)), r\<lparr>sr_prepared := [], sr_pending := sr_pending r @ sr_prepared r\<rparr>)
        | k # ks \<Rightarrow> (- abs k - 1, r\<lparr>sr_submits := ks\<rparr>)),
      io_uring_wait_cqe = (\<lambda>r. case sr_waits r of
          k # ks \<Rightarrow> Some (- abs k - 1, small_answer [] blank_submission, r\<lparr>sr_waits := ks\<rparr>)
        | [] \<Rightarrow> (case sr_pending r of [] \<Rightarrow> None | s # ss \<Rightarrow> Some (0, small_answer (sr_file r) s, r))),
      io_uring_cqe_seen = (\<lambda>r. r\<lparr>sr_pending := tl (sr_pending r)\<rparr>)\<rparr>"

text \<open>What the kernel answers for a file: an error, or a chunk of the file with its length.\<close>

definition file_answers :: "byte list \<Rightarrow> uring_submission \<Rightarrow> int \<Rightarrow> byte list \<Rightarrow> bool" where
  "file_answers contents s r stored \<longleftrightarrow>
     r < 0 \<or>
     r = int (length stored) \<and> length stored < 2 ^ 31 \<and>
       file_chunk contents (unat (sm_byte_count s)) (unat (sm_offset s)) stored"

text \<open>With \<open>calm\<close>, the rings whose scripts are empty.\<close>

definition small_view :: "byte list \<Rightarrow> bool \<Rightarrow> small_ring ring_view" where
  "small_view contents calm =
     \<lparr>rv_ok = (\<lambda>r. sr_file r = contents \<and> (calm \<longrightarrow> sr_submits r = [] \<and> sr_waits r = [])),
      rv_prepared = sr_prepared, rv_pending = sr_pending\<rparr>"

lemma small_submission: "submission_contract small_uring (small_view contents calm)"
  by (auto simp: submission_contract_def small_uring_def small_view_def split: list.splits if_splits)

lemma small_answers: "file_answers contents s (cqe_res (small_answer contents s)) (cqe_stored (small_answer contents s))"
  by (auto simp: file_answers_def small_answer_def Let_def file_chunk_def read_slice_def min_def)

lemma small_wait:
  "io_uring_wait_cqe small_uring r = (case sr_waits r of
      k # ks \<Rightarrow> Some (- abs k - 1, small_answer [] blank_submission, r\<lparr>sr_waits := ks\<rparr>)
    | [] \<Rightarrow> (case sr_pending r of [] \<Rightarrow> None | s # ss \<Rightarrow> Some (0, small_answer (sr_file r) s, r)))"
  "io_uring_cqe_seen small_uring r = r\<lparr>sr_pending := tl (sr_pending r)\<rparr>"
  by (simp_all add: small_uring_def)

lemma small_completion:
  "completion_contract small_uring (small_view contents calm) (file_answers contents) (\<lambda>r. length (sr_waits r))"
  unfolding completion_contract_def
proof (intro allI impI conjI)
  let ?v = "small_view contents calm"
  fix r assume "rv_ok ?v r" "rv_pending ?v r \<noteq> []"
  then show "io_uring_wait_cqe small_uring r \<noteq> None"
    by (simp add: small_wait small_view_def split: list.splits)
next
  let ?v = "small_view contents calm"
  fix r k c r'
  assume ok: "rv_ok ?v r" and w: "io_uring_wait_cqe small_uring r = Some (k, c, r')"
  show "rv_ok ?v r'" "rv_prepared ?v r' = rv_prepared ?v r" "rv_pending ?v r' = rv_pending ?v r" "k \<le> 0"
    "k = - EINTR \<Longrightarrow> length (sr_waits r') < length (sr_waits r)"
    using ok w by (cases "sr_waits r"; cases "sr_pending r"; force simp: small_wait small_view_def)+
  assume zero: "k = 0"
  have "sr_waits r = []"
  proof (cases "sr_waits r")
    case (Cons j js)
    with w have "k = - abs j - 1" unfolding small_wait by simp
    with zero show ?thesis by linarith
  qed
  with w have answer: "(case sr_pending r of [] \<Rightarrow> None | s # ss \<Rightarrow> Some (0, small_answer (sr_file r) s, r)) = Some (k, c, r')"
    unfolding small_wait by simp
  then obtain s ss where pend: "sr_pending r = s # ss" by (cases "sr_pending r") auto
  with answer have s: "c = small_answer (sr_file r) s" "r' = r" by auto
  have contents: "sr_file r = contents" using ok by (simp add: small_view_def)
  show "\<exists>s \<in> set (rv_pending ?v r). cqe_data c = sm_data s \<and> file_answers contents s (cqe_res c) (cqe_stored c) \<and>
      rv_ok ?v (io_uring_cqe_seen small_uring r') \<and> rv_prepared ?v (io_uring_cqe_seen small_uring r') = rv_prepared ?v r \<and>
      rv_pending ?v (io_uring_cqe_seen small_uring r') = remove1 s (rv_pending ?v r)"
  proof (rule bexI [of _ s])
    have "cqe_data c = sm_data s" by (simp add: s(1) small_answer_def Let_def)
    moreover have "file_answers contents s (cqe_res c) (cqe_stored c)"
      using small_answers [of contents s] by (simp add: s(1) contents)
    ultimately show "cqe_data c = sm_data s \<and> file_answers contents s (cqe_res c) (cqe_stored c) \<and>
      rv_ok ?v (io_uring_cqe_seen small_uring r') \<and> rv_prepared ?v (io_uring_cqe_seen small_uring r') = rv_prepared ?v r \<and>
      rv_pending ?v (io_uring_cqe_seen small_uring r') = remove1 s (rv_pending ?v r)"
      using pend s(2) ok by (simp add: small_wait(2) small_view_def)
    show "s \<in> set (rv_pending ?v r)" using pend by (simp add: small_view_def)
  qed
qed

lemma small_reliable:
  "reliable_uring small_uring (small_view contents True) (file_answers contents) (\<lambda>r. length (sr_waits r))"
  "waits_succeed small_uring (small_view contents True)"
proof -
  have "submits_all small_uring (small_view contents True)"
    by (auto simp: submits_all_def small_uring_def small_view_def)
  with small_submission small_completion
  show "reliable_uring small_uring (small_view contents True) (file_answers contents) (\<lambda>r. length (sr_waits r))"
    unfolding reliable_uring_def by blast
  show "waits_succeed small_uring (small_view contents True)"
    by (auto simp: waits_succeed_def small_uring_def small_view_def split: list.splits)
qed

definition small_ring0 :: "int list \<Rightarrow> int list \<Rightarrow> small_ring" where
  "small_ring0 submits waits_for =
     \<lparr>sr_file = [1, 2, 3, 4, 5], sr_prepared = [], sr_pending = [], sr_submits = submits, sr_waits = waits_for\<rparr>"

lemma small_ring_initialises: "initialises small_uring (small_view [1, 2, 3, 4, 5] True) (small_ring0 [] [])"
  by (auto simp: initialises_def small_uring_def small_view_def small_ring0_def)

definition small_context :: "int list \<Rightarrow> int list \<Rightarrow> small_ring uring_context" where
  "small_context submits waits_for =
     \<lparr>ux_ring = small_ring0 submits waits_for, ux_awaiters = (\<lambda>_. None), ux_tasks = (\<lambda>_. None),
      ux_parameters = (\<lambda>_. \<lparr>rp_null = True, rp_fd = - 1, rp_size = 0, rp_offset = 0\<rparr>), ux_next_frame = 0\<rparr>"

lemma small_context_new: "uring_context_new small_uring 8 (small_ring0 submits waits_for) = Inr (small_context submits waits_for)"
  by (simp add: uring_context_new_def small_uring_def small_context_def small_ring0_def)

fun uring_run :: "'r uring_calls \<Rightarrow> uring_op list \<Rightarrow> 'r uring_context \<Rightarrow> 'r uring_context option" where
  "uring_run uc [] cx = Some cx"
| "uring_run uc (op # ops) cx = (case uring_step uc op cx of None \<Rightarrow> None | Some cx' \<Rightarrow> uring_run uc ops cx')"

lemma uring_run_reachable:
  "uring_reachable uc cx0 cx \<Longrightarrow> uring_run uc ops cx = Some cx' \<Longrightarrow> uring_reachable uc cx0 cx'"
  by (induction ops arbitrary: cx) (auto split: option.splits dest: uring_reach_step)

definition small_read :: "u64 \<Rightarrow> read_parameters" where
  "small_read off = \<lparr>rp_null = False, rp_fd = 3, rp_size = 2, rp_offset = off\<rparr>"

definition two_reads :: "uring_op list" where
  "two_reads = [Uring_read_at (small_read 0), Uring_start 0, Uring_read_at (small_read 2), Uring_start 1]"

text \<open>The second of two reads, its result, and whether the awaiters exist and \<open>wait_one\<close> is defined.\<close>

definition observe_reads :: "small_ring uring_context \<Rightarrow> read_value res option \<times> nat option list \<times> bool list \<times> bool" where
  "observe_reads cx =
     (map_option fst (uring_result 1 cx), map sm_data (sr_pending (ux_ring cx)),
      map (\<lambda>self. ux_awaiters cx self \<noteq> None) [0, 1], uring_wait_one small_uring cx \<noteq> None)"

lemma two_reads_submitted:
  "map_option observe_reads (uring_run small_uring two_reads (small_context [] [])) =
   Some (Some (Inl (Logic_error ''cannot get a result before Task completes'')), [Some 0, Some 1], [True, True], True)"
  by code_simp

lemma two_reads_failed_submit:
  "map_option observe_reads (uring_run small_uring two_reads (small_context [15] [])) =
   Some (Some (Inl (System_error EIO ''io_uring read'')), [Some 0, Some 1], [False, False], False)"
  by code_simp

lemma reads_with_failed_wait:
  "map_option (\<lambda>(out, cx). (out, map sm_data (sr_pending (ux_ring cx)), ux_awaiters cx 0 = None, uring_wait_one small_uring cx = None))
     (complete_read (uring_backend small_uring) 3 2 0 (small_context [] [76])) =
   Some (Inl (System_error 77 ''io_uring_wait_cqe''), [Some 0], True, True)"
  by code_simp

section \<open>Properties\<close>

lemma settled_result:
  assumes "uring_settled answers p self t" and "task_started t" and "task_result t = (Inr x, t')"
  shows "uring_own_outcome answers p self (Inr x)"
  using assms by (cases x) (auto simp: task_result_def split: option.splits if_splits)

text \<open>
  C18: io_uring requests belong to suspended coroutines. Over a library that keeps its promises and
  submits what is prepared, in every reachable state the entries that the kernel holds are exactly
  one for each started and unfinished read, with that read's own parameters and a live request
  suspended on it, and a value that a finished read delivers is an answer to its own entry.
\<close>

theorem uring_requests_exact:
  assumes "uring_context_new uc depth ring = Inr cx0" and "initialises uc v ring"
    and "reliable_uring uc v answers m" and "uring_reachable uc cx0 cx"
  shows "distinct (in_flight v cx) \<and>
    (\<forall>s \<in> set (rv_pending v (ux_ring cx)). \<exists>self. s = submission_of (ux_parameters cx self) self) \<and>
    (\<forall>self t. ux_tasks cx self = Some t \<longrightarrow>
       (self \<in> set (in_flight v cx) \<longleftrightarrow> task_started t \<and> \<not> task_done t) \<and>
       (self \<in> set (in_flight v cx) \<longleftrightarrow> ux_awaiters cx self \<noteq> None) \<and>
       (\<forall>x t'. task_result t = (Inr x, t') \<longrightarrow> uring_own_outcome answers (ux_parameters cx self) self (Inr x)))"
proof -
  have ok: "uring_ok v answers cx"
    by (rule uring_reachable_ok [OF assms(4,3) uring_context_new_ok(1) [OF assms(1,2)]])
  note F = frames_okD [OF uring_okD(5) [OF ok]]
  have "(self \<in> set (in_flight v cx) \<longleftrightarrow> task_started t \<and> \<not> task_done t) \<and>
       (self \<in> set (in_flight v cx) \<longleftrightarrow> ux_awaiters cx self \<noteq> None) \<and>
       (\<forall>x t'. task_result t = (Inr x, t') \<longrightarrow> uring_own_outcome answers (ux_parameters cx self) self (Inr x))"
    if t: "ux_tasks cx self = Some t" for self t
  proof (cases "self \<in> set (in_flight v cx)")
    case True
    then show ?thesis using F(1,2) [OF True] t by (auto simp: uring_suspended_def task_done_def task_result_def)
  next
    case False
    note s = F(5) [OF False t]
    then have "task_started t \<longrightarrow> task_done t" by (auto simp: task_done_def)
    moreover have "task_result t = (Inr x, t') \<Longrightarrow> task_started t" for x t'
      by (auto simp: task_result_def split: option.splits if_splits)
    ultimately show ?thesis using F(4) [OF False] False settled_result [OF s] by auto
  qed
  moreover have "distinct (in_flight v cx)"
    "\<forall>s \<in> set (rv_pending v (ux_ring cx)). \<exists>self. s = submission_of (ux_parameters cx self) self"
    using ok by (simp_all add: uring_ok_def)
  ultimately show ?thesis by blast
qed

theorem uring_requests_exact_witness:
  "\<exists>cx. uring_run small_uring two_reads (small_context [] []) = Some cx \<and>
     in_flight (small_view [1, 2, 3, 4, 5] True) cx = [0, 1] \<and> distinct (in_flight (small_view [1, 2, 3, 4, 5] True) cx)"
proof -
  obtain cx where cx: "uring_run small_uring two_reads (small_context [] []) = Some cx"
    and data: "map sm_data (sr_pending (ux_ring cx)) = [Some 0, Some 1]"
    using two_reads_submitted by (auto simp: observe_reads_def)
  have "uring_reachable small_uring (small_context [] []) cx"
    by (rule uring_run_reachable [OF uring_reach_start cx])
  from uring_requests_exact [OF small_context_new small_ring_initialises small_reliable(1) this] cx data show ?thesis
    by (auto simp: in_flight_def small_view_def)
qed




text \<open>
  The caller's side: when \<open>wait_one\<close> fails, \<open>complete_read\<close> of the executor unwinds and destroys the
  suspended task, while the kernel still holds its entry.
\<close>

theorem uring_failed_wait_dangles:
  "\<exists>cx. complete_read (uring_backend small_uring) 3 2 0 (small_context [] [76]) =
      Some (Inl (System_error 77 ''io_uring_wait_cqe''), cx) \<and>
    map sm_data (sr_pending (ux_ring cx)) = [Some 0] \<and> ux_awaiters cx 0 = None \<and> uring_wait_one small_uring cx = None"
  using reads_with_failed_wait by auto

end
