(* ===== verification/Uring_Runs.thy ===== *)
theory Uring_Runs
  imports Uring Thread_Pool_Runs
begin

text \<open>
  The executor over \<open>UringBackend\<close>: between reads its context is idle, so a run over it is also a run
  over a backend that reads at once, for which the executor's theorems hold.
\<close>

text \<open>
  liburing serves a file: it keeps its promises and submits what is prepared, waits do not fail (but
  may be interrupted), and its answers are errors or chunks of the file.
\<close>

definition uring_serves ::
  "'r uring_calls \<Rightarrow> 'r ring_view \<Rightarrow> ('r \<Rightarrow> nat) \<Rightarrow> byte list \<Rightarrow> bool" where
  "uring_serves uc v m data_img \<longleftrightarrow>
     reliable_uring uc v (file_answers data_img) m \<and> waits_succeed uc v"

lemma file_answer_outcome:
  assumes "file_answers data_img (submission_of \<lparr>rp_null = False, rp_fd = fd, rp_size = n, rp_offset = off\<rparr> self) r stored"
    and "n \<le> 4294967295"
  shows "read_outcome_ok data_img n off (uring_outcome r stored)"
proof (cases "r < 0")
  case False
  have "unat (ucast n :: 32 word) = unat n"
    using assms(2) by (simp add: unsigned_ucast_eq unsigned_take_bit_eq take_bit_nat_eq_self word_le_nat_alt)
  moreover have "unat (word_of_int (int (length stored)) :: size_t) = length stored" if "length stored < 2 ^ 31"
    using that by (simp add: unat_of_nat)
  ultimately show ?thesis using assms False
    by (auto simp: file_answers_def submission_of_def uring_outcome_def)
qed (simp add: uring_outcome_def)

text \<open>The context's reads as a function, total by answering with an error elsewhere.\<close>

definition uring_reader ::
  "'r uring_calls \<Rightarrow> 'r ring_view \<Rightarrow> byte list \<Rightarrow> int \<Rightarrow> size_t \<Rightarrow> u64 \<Rightarrow> 'r uring_context \<Rightarrow>
     read_value res \<times> 'r uring_context" where
  "uring_reader uc v data_img fd n off cx =
     (if uring_idle v (file_answers data_img) cx \<and> 0 \<le> fd \<and> n \<le> 4294967295
      then the (complete_read (uring_backend uc) fd n off cx)
      else (Inl (System_error EINVAL ''''), cx))"

lemma uring_read_serves:
  assumes "uring_serves uc v m data_img" and "uring_idle v (file_answers data_img) cx" and "0 \<le> fd" and "n \<le> 4294967295"
  obtains out cx' where "complete_read (uring_backend uc) fd n off cx = Some (out, cx')"
    and "uring_idle v (file_answers data_img) cx'" and "read_outcome_ok data_img n off out"
proof -
  have rel: "reliable_uring uc v (file_answers data_img) m" and good: "waits_succeed uc v"
    using assms(1) by (simp_all add: uring_serves_def)
  from uring_read_once [OF assms(2) rel good assms(3,4), of off] obtain out cx' where
    o: "complete_read (uring_backend uc) fd n off cx = Some (out, cx')" "uring_idle v (file_answers data_img) cx'"
    "out = uring_outcome (- EAGAIN) [] \<or> (\<exists>r stored self.
      file_answers data_img (submission_of \<lparr>rp_null = False, rp_fd = fd, rp_size = n, rp_offset = off\<rparr> self) r stored \<and>
      out = uring_outcome r stored)" by metis
  have "read_outcome_ok data_img n off (uring_outcome (- EAGAIN) [])" by (simp add: uring_outcome_def)
  with o(3) file_answer_outcome [OF _ assms(4)] have "read_outcome_ok data_img n off out" by blast
  with o(1,2) show thesis by (rule that)
qed

lemma uring_reader_reads_file:
  assumes "uring_serves uc v m data_img" and "0 \<le> ev_input_fd env"
  shows "reads_file (with_backend (immediate_backend (uring_reader uc v data_img)) env) (\<lambda>cx. data_img)"
  unfolding reads_file_def with_backend_simps immediate_complete_read
proof (intro allI)
  fix n :: size_t and off :: u64 and cx
  show "\<exists>r cx'. Some (uring_reader uc v data_img (ev_input_fd env) n off cx) = Some (r, cx') \<and>
      data_img = data_img \<and> read_outcome_ok data_img n off r"
  proof (cases "uring_idle v (file_answers data_img) cx \<and> n \<le> 4294967295")
    case True
    then obtain out cx' where "complete_read (uring_backend uc) (ev_input_fd env) n off cx = Some (out, cx')"
      "read_outcome_ok data_img n off out"
      using uring_read_serves [OF assms(1) _ assms(2)] by blast
    with True assms(2) show ?thesis by (simp add: uring_reader_def)
  qed (auto simp: uring_reader_def)
qed

lemma uring_run_idle:
  assumes "memalign_contract al" and "run_start al ifd ofd pl r cx out px m0 = (Inr s0, px', m0')"
    and "exec_reachable env S s0 s" and "ev_backend env = uring_backend uc"
    and "uring_idle v (file_answers data_img) cx" and "uring_serves uc v m data_img" and "0 \<le> ev_input_fd env"
    and "block_size (px_config px) \<le> 4294967295"
  shows "exec_reachable (with_backend (immediate_backend (uring_reader uc v data_img)) env) S s0 s \<and>
    uring_idle v (file_answers data_img) (ex_in s)"
proof (rule reachable_with_backend [OF assms(3) run_start_inv(1) [OF assms(1,2)]])
  show "uring_idle v (file_answers data_img) (ex_in s0)"
    using assms(5) run_start_Inr [OF assms(2)] by (metis exec_state.select_convs(6))
next
  fix off w r w'
  assume "uring_idle v (file_answers data_img) w"
    "complete_read (ev_backend env) (ev_input_fd env) (block_size (px_config px)) off w = Some (r, w')"
  then show "uring_idle v (file_answers data_img) w'"
    using uring_read_serves [OF assms(6) _ assms(7,8)] unfolding assms(4) by (metis option.inject prod.inject)
next
  fix off w
  assume idle: "uring_idle v (file_answers data_img) w"
  obtain out w' where "complete_read (uring_backend uc) (ev_input_fd env) (block_size (px_config px)) off w = Some (out, w')"
    using uring_read_serves [OF assms(6) idle assms(7,8)] by blast
  with idle assms(7,8) show "complete_read (immediate_backend (uring_reader uc v data_img)) (ev_input_fd env)
      (block_size (px_config px)) off w = complete_read (ev_backend env) (ev_input_fd env) (block_size (px_config px)) off w"
    by (simp add: immediate_complete_read uring_reader_def assms(4))
qed

section \<open>A small run over io_uring\<close>

definition uring_env :: "(small_ring uring_context, nat, byte list, nat) exec_env" where
  "uring_env =
     \<lparr>ev_backend = uring_backend small_uring, ev_sys = plain_posix,
      ev_users = throwing_stages, ev_input_fd = 3, ev_output_fd = 4, ev_metrics = no_runtime_metrics\<rparr>"

lemma uring_run_value:
  "map_option (\<lambda>s. (ex_main s, ex_out s))
     (run_schedule uring_env example_schedule (small_start increment_pipeline (small_context [] []) [])) =
   Some (M_done (Inr \<lparr>prr_blocks_written = 1, prr_bytes_written = 5\<rparr>), [2, 3, 4, 5, 6])"
  by code_simp

section \<open>Properties\<close>

text \<open>
  C17: The executor over io_uring copies the processed file. A run over a new context, on a library
  that keeps its promises, submits what is prepared and whose waits do not fail, and whose result is a
  success, has written the processed input under any interleaving of the executor's threads, and
  leaves no entry with the kernel.
\<close>

theorem uring_executor_copies_file:
  assumes "memalign_contract al" and "uring_context_new uc depth ring = Inr cx" and "initialises uc v ring"
    and "run_start al ifd ofd pl r cx out px m0 = (Inr s0, px', m0')"
    and "exec_reachable env S s0 s" and "ex_main s = M_done (Inr res)"
    and "ev_backend env = uring_backend uc" and "0 \<le> ev_input_fd env" and "uring_serves uc v m data_img"
    and "writes_file env outC" and "block_size (px_config px) \<le> 4294967295"
    and "set (map se_stage (pl_stages pl)) \<subseteq> {NoOpStage, ByteIncrementStage}"
  shows "outC (ex_out s) = write_image (outC out) 0
      ((byte_increment ^^ count_list (map se_stage (pl_stages pl)) ByteIncrementStage) data_img) \<and>
    unat (prr_bytes_written res) = length data_img \<and> rv_pending v (ux_ring (ex_in s)) = []"
proof -
  let ?env = "with_backend (immediate_backend (uring_reader uc v data_img)) env"
  have idle: "uring_idle v (file_answers data_img) cx"
    using uring_context_new_ok [OF assms(2,3)] by (simp add: uring_idle_def)
  note run = uring_run_idle [OF assms(1,4,5,7) idle assms(9,8,11)]
  have "writes_file ?env outC" using assms(10) by (simp add: writes_file_def)
  from run_copies_file [OF assms(1,4) run [THEN conjunct1] assms(6) uring_reader_reads_file [OF assms(9,8)] this assms(12)]
    run show ?thesis by (simp add: uring_idle_def in_flight_def)
qed

theorem uring_executor_copies_file_witness:
  "\<exists>s. run_schedule uring_env example_schedule (small_start increment_pipeline (small_context [] []) []) = Some s \<and>
     ex_out s = write_image [] 0 (byte_increment [1, 2, 3, 4, 5]) \<and> sr_pending (ux_ring (ex_in s)) = []"
proof -
  from uring_run_value obtain s where
    s: "run_schedule uring_env example_schedule (small_start increment_pipeline (small_context [] []) []) = Some s"
      "ex_main s = M_done (Inr \<lparr>prr_blocks_written = 1, prr_bytes_written = 5\<rparr>)" by auto
  have reach: "exec_reachable uring_env UNIV (small_start increment_pipeline (small_context [] []) []) s"
    by (rule run_schedule_reachable [OF reach_start s(1)])
  have env: "ev_backend uring_env = uring_backend small_uring" "0 \<le> ev_input_fd uring_env"
    and serves: "uring_serves small_uring (small_view [1, 2, 3, 4, 5] True) (\<lambda>r. length (sr_waits r)) [1, 2, 3, 4, 5]"
    using small_reliable by (simp_all add: uring_env_def uring_serves_def)
  have writes: "writes_file uring_env (\<lambda>w. w)"
    using example_writes by (simp add: writes_file_def uring_env_def example_env_def)
  have config: "block_size (px_config example_executor) \<le> 4294967295"
    "set (map se_stage (pl_stages increment_pipeline)) \<subseteq> {NoOpStage, ByteIncrementStage}"
    by (simp_all add: example_executor_def small_config_def increment_pipeline_def)
  from uring_executor_copies_file [OF example_inv(1) small_context_new small_ring_initialises increment_run_start reach s(2)
      env serves writes config] s(1)
  show ?thesis by (simp add: increment_pipeline_def small_view_def)
qed

end
