(* ===== verification/Json_Text.thy ===== *)
theory Json_Text
  imports Prelude
begin

text \<open>
  JSON strings as \<open>write_json_string\<close> of \<open>src/reporting/pipeline_reporter.cpp\<close> writes them, and what
  a JSON text denotes: a reader of strings with all the escapes of RFC 8259 (up to code 255, a byte),
  and a grammar of texts, against which the rendered documents are checked.
\<close>

section \<open>write_json_string\<close>

definition hex_digit :: "nat \<Rightarrow> char" where
  "hex_digit n = ''0123456789abcdef'' ! n"

definition write_json_char :: "char \<Rightarrow> string" where
  "write_json_char c =
     (if c = CHR 0x22 then [CHR 0x5C, CHR 0x22]
      else if c = CHR 0x5C then [CHR 0x5C, CHR 0x5C]
      else if c = CHR 0x08 then [CHR 0x5C, CHR ''b'']
      else if c = CHR 0x0C then [CHR 0x5C, CHR ''f'']
      else if c = CHR 0x0A then [CHR 0x5C, CHR ''n'']
      else if c = CHR 0x0D then [CHR 0x5C, CHR ''r'']
      else if c = CHR 0x09 then [CHR 0x5C, CHR ''t'']
      else if of_char c < (32 :: nat) then
        [CHR 0x5C, CHR ''u'', CHR ''0'', CHR ''0'', hex_digit (of_char c div 16), hex_digit (of_char c mod 16)]
      else [c])"

definition write_json_string :: "string \<Rightarrow> string" where
  "write_json_string value = CHR 0x22 # concat (map write_json_char value) @ [CHR 0x22]"

section \<open>Reading strings\<close>

definition hex_value :: "char \<Rightarrow> nat option" where
  "hex_value c =
     (let n = of_char c in
      if 48 \<le> n \<and> n \<le> 57 then Some (n - 48)
      else if 97 \<le> n \<and> n \<le> 102 then Some (n - 87)
      else if 65 \<le> n \<and> n \<le> 70 then Some (n - 55)
      else None)"

definition hex4 :: "char \<Rightarrow> char \<Rightarrow> char \<Rightarrow> char \<Rightarrow> char option" where
  "hex4 a b c d =
     (case (hex_value a, hex_value b, hex_value c, hex_value d) of
        (Some i, Some j, Some k, Some l) \<Rightarrow>
          (let n = 4096 * i + 256 * j + 16 * k + l in if n < 256 then Some (char_of n) else None)
      | _ \<Rightarrow> None)"

definition simple_escape :: "char \<Rightarrow> char option" where
  "simple_escape c =
     map_of [(CHR 0x22, CHR 0x22), (CHR 0x5C, CHR 0x5C), (CHR ''/'', CHR ''/''), (CHR ''b'', CHR 0x08),
       (CHR ''f'', CHR 0x0C), (CHR ''n'', CHR 0x0A), (CHR ''r'', CHR 0x0D), (CHR ''t'', CHR 0x09)] c"

text \<open>From behind the opening quote to behind the closing one.\<close>

definition cons_fst :: "'a \<Rightarrow> ('a list \<times> 'b) option \<Rightarrow> ('a list \<times> 'b) option" where
  "cons_fst x r = map_option (\<lambda>(xs, rest). (x # xs, rest)) r"

fun read_json_string :: "string \<Rightarrow> (string \<times> string) option" where
  "read_json_string [] = None"
| "read_json_string (c # rest) =
     (if c = CHR 0x22 then Some ([], rest)
      else if c = CHR 0x5C then
        (case rest of
           [] \<Rightarrow> None
         | e # rest1 \<Rightarrow>
             if e = CHR ''u'' then
               (case rest1 of
                  i # j # k # l # rest2 \<Rightarrow>
                    (case hex4 i j k l of None \<Rightarrow> None | Some v \<Rightarrow> cons_fst v (read_json_string rest2))
                | _ \<Rightarrow> None)
             else
               (case simple_escape e of None \<Rightarrow> None | Some v \<Rightarrow> cons_fst v (read_json_string rest1)))
      else if of_char c < (32 :: nat) then None
      else cons_fst c (read_json_string rest))"

lemma hex_value_digit: "n < 16 \<Longrightarrow> hex_value (hex_digit n) = Some n"
proof -
  have "list_all (\<lambda>n. hex_value (hex_digit n) = Some n) [0..<16]"
    by (simp add: upt_rec hex_digit_def hex_value_def)
  then show "n < 16 \<Longrightarrow> hex_value (hex_digit n) = Some n" by (simp add: list_all_iff)
qed

lemma control_char:
  assumes "of_char c < (32 :: nat)"
  shows "hex4 (CHR ''0'') (CHR ''0'') (hex_digit (of_char c div 16)) (hex_digit (of_char c mod 16)) = Some c"
proof -
  have "hex_value (CHR ''0'') = Some 0" by (simp add: hex_value_def)
  moreover have "hex_value (hex_digit (of_char c div 16)) = Some (of_char c div 16)"
    "hex_value (hex_digit (of_char c mod 16)) = Some (of_char c mod 16)"
    using assms by (auto intro: hex_value_digit)
  moreover have "16 * (of_char c div 16) + of_char c mod 16 = (of_char c :: nat)" by simp
  ultimately show ?thesis using assms by (simp add: hex4_def Let_def)
qed

lemma read_write_char: "read_json_string (write_json_char c @ text) = cons_fst c (read_json_string text)"
proof (cases "of_char c < (32 :: nat)")
  case True
  then have "c \<noteq> CHR 0x22" "c \<noteq> CHR 0x5C" by auto
  with True control_char [OF True] show ?thesis by (simp add: write_json_char_def simple_escape_def)
next
  case False
  then have "c \<noteq> CHR 0x08" "c \<noteq> CHR 0x0C" "c \<noteq> CHR 0x0A" "c \<noteq> CHR 0x0D" "c \<noteq> CHR 0x09" by auto
  with False show ?thesis by (simp add: write_json_char_def simple_escape_def)
qed

lemma read_json_body:
  "read_json_string (concat (map write_json_char value) @ CHR 0x22 # rest) = Some (value, rest)"
proof (induction "value")
  case (Cons c cs)
  then show ?case by (simp only: list.map concat.simps append_assoc read_write_char) (simp add: cons_fst_def)
qed simp

section \<open>JSON texts\<close>

datatype json =
    J_string string
  | J_number string
  | J_bool bool
  | J_array "json list"
  | J_object "(string \<times> json) list"

definition json_blank :: "string \<Rightarrow> bool" where
  "json_blank w \<longleftrightarrow> list_all (\<lambda>c. c \<in> {CHR '' '', CHR 0x09, CHR 0x0A, CHR 0x0D}) w"

definition is_digit :: "char \<Rightarrow> bool" where
  "is_digit c \<longleftrightarrow> 48 \<le> (of_char c :: nat) \<and> of_char c \<le> (57 :: nat)"

text \<open>A number without exponent: no leading zeros, digits on both sides of a point.\<close>

definition json_natural :: "string \<Rightarrow> bool" where
  "json_natural n \<longleftrightarrow> n \<noteq> [] \<and> list_all is_digit n \<and> (hd n = CHR ''0'' \<longrightarrow> tl n = [])"

definition json_number :: "string \<Rightarrow> bool" where
  "json_number n \<longleftrightarrow>
     (let m = (case n of c # rest \<Rightarrow> if c = CHR ''-'' then rest else n | [] \<Rightarrow> n);
          i = takeWhile is_digit m; f = dropWhile is_digit m in
      json_natural i \<and>
      (case f of [] \<Rightarrow> True | c # ds \<Rightarrow> c = CHR ''.'' \<and> ds \<noteq> [] \<and> list_all is_digit ds))"

text \<open>Values, the members of an object and the elements of an array; blanks surround each of them.\<close>

inductive json_text :: "json \<Rightarrow> string \<Rightarrow> bool"
  and json_members :: "(string \<times> json) list \<Rightarrow> string \<Rightarrow> bool"
  and json_elements :: "json list \<Rightarrow> string \<Rightarrow> bool" where
  text_string: "read_json_string t = Some (s, []) \<Longrightarrow> json_text (J_string s) (CHR 0x22 # t)"
| text_number: "json_number n \<Longrightarrow> json_text (J_number n) n"
| text_true: "json_text (J_bool True) ''true''"
| text_false: "json_text (J_bool False) ''false''"
| text_object: "json_members ms t \<Longrightarrow> json_text (J_object ms) (''{'' @ t @ ''}'')"
| text_array: "json_elements js t \<Longrightarrow> json_text (J_array js) (''['' @ t @ '']'')"
| text_blank: "json_text j t \<Longrightarrow> json_blank u \<Longrightarrow> json_blank v \<Longrightarrow> json_text j (u @ t @ v)"
| members_none: "json_blank t \<Longrightarrow> json_members [] t"
| members_one: "json_text (J_string k) t \<Longrightarrow> json_text j u \<Longrightarrow> json_members [(k, j)] (t @ '':'' @ u)"
| members_more: "json_members [m] t \<Longrightarrow> json_members ms u \<Longrightarrow> ms \<noteq> [] \<Longrightarrow> json_members (m # ms) (t @ '','' @ u)"
| elements_none: "json_blank t \<Longrightarrow> json_elements [] t"
| elements_one: "json_text j t \<Longrightarrow> json_elements [j] t"
| elements_more: "json_text j t \<Longrightarrow> json_elements js u \<Longrightarrow> js \<noteq> [] \<Longrightarrow> json_elements (j # js) (t @ '','' @ u)"

lemma blank_simps [simp]:
  "json_blank []" "json_blank (c # w) \<longleftrightarrow> c \<in> {CHR '' '', CHR 0x09, CHR 0x0A, CHR 0x0D} \<and> json_blank w"
  "json_blank (u @ v) \<longleftrightarrow> json_blank u \<and> json_blank v"
  by (auto simp: json_blank_def)

lemma json_string_text: "json_text (J_string s) (write_json_string s)"
  unfolding write_json_string_def
  by (rule text_string) (use read_json_body [of s "[]"] in simp)

lemma text_before: "json_text j t \<Longrightarrow> json_blank u \<Longrightarrow> json_text j (u @ t)"
  using text_blank [of j t u "[]"] by simp

lemma text_behind: "json_text j t \<Longrightarrow> json_blank v \<Longrightarrow> json_text j (t @ v)"
  using text_blank [of j t "[]" v] by simp

lemma decimal_natural: "json_natural (decimal n)"
proof -
  have hd: "hd (decimal n) = CHR ''0'' \<longrightarrow> n = 0"
  proof (induction n rule: decimal.induct)
    case (1 n)
    show ?case
    proof (cases "n < 10")
      case True
      have "(of_char (CHR ''0'') :: nat) = 48" by simp
      then show ?thesis using True of_char_digit [OF True] by (subst decimal.simps) (auto)
    next
      case False
      then show ?thesis using 1 by (subst decimal.simps) (auto simp: hd_append)
    qed
  qed
  have "list_all is_digit (decimal n)"
    using decimal_digits [of _ n] by (fastforce simp: list_all_iff is_digit_def of_char_digit)
  then show ?thesis using hd by (auto simp: json_natural_def decimal.simps [of 0])
qed

lemma natural_number: "json_natural n \<Longrightarrow> json_number n \<and> json_number (CHR ''-'' # n)"
proof -
  assume n: "json_natural n"
  then have "takeWhile is_digit n = n" "dropWhile is_digit n = []" "n \<noteq> []"
    by (auto simp: json_natural_def list_all_iff takeWhile_eq_all_conv dropWhile_eq_Nil_conv)
  moreover have "hd n \<noteq> CHR ''-''" using n by (cases n) (auto simp: json_natural_def is_digit_def)
  ultimately show ?thesis using n by (cases n) (simp_all add: json_number_def Let_def)
qed

lemma decimal_text: "json_text (J_number (decimal n)) (decimal n)"
  using natural_number [OF decimal_natural] by (auto intro: text_number)

section \<open>Properties\<close>

text \<open>
  C35: JSON strings survive the round trip. Reading back what \<open>write_json_string\<close> wrote, in front of
  any text, gives exactly the string, whatever bytes it holds (quotes, backslashes, control
  characters, bytes above 127), and the reader stops exactly at the end of what was written.
\<close>

theorem json_string_roundtrip:
  "\<exists>t. write_json_string s @ rest = CHR 0x22 # t \<and> read_json_string t = Some (s, rest)"
  using read_json_body [of s rest] by (simp add: write_json_string_def)

end
