(* ===== verification/Reporter.thy ===== *)
theory Reporter
  imports Executor Json_Text
begin

text \<open>
  What a run reports (\<open>src/reporting/pipeline_reporter.cpp\<close>): progress lines, the terminal summary,
  key-value lines and the JSON document, as the text that goes to the stream. \<open>double\<close> is a type
  \<open>'d\<close> with its operations as a record; the arithmetic on it is the code's, term by term. Streams
  are in their default state and do not fail.
\<close>

section \<open>Doubles\<close>

text \<open>
  Conversions, integral literals, arithmetic, comparison, \<open>std::isfinite\<close>, truncation to
  \<open>size_t\<close>, and \<open>std::fixed\<close> output with a precision.
\<close>

record 'd double_ops =
  d_of_u64 :: "u64 \<Rightarrow> 'd"
  d_literal :: "nat \<Rightarrow> 'd"
  d_times :: "'d \<Rightarrow> 'd \<Rightarrow> 'd"
  d_divide :: "'d \<Rightarrow> 'd \<Rightarrow> 'd"
  d_less :: "'d \<Rightarrow> 'd \<Rightarrow> bool"
  d_le :: "'d \<Rightarrow> 'd \<Rightarrow> bool"
  d_isfinite :: "'d \<Rightarrow> bool"
  d_to_size :: "'d \<Rightarrow> size_t"
  d_fixed :: "nat \<Rightarrow> 'd \<Rightarrow> string"

definition d_clamp :: "'d double_ops \<Rightarrow> 'd \<Rightarrow> 'd \<Rightarrow> 'd \<Rightarrow> 'd" where
  "d_clamp ops value lowest highest =
     (if d_less ops value lowest then lowest else if d_less ops highest value then highest else value)"

section \<open>Reports and lookups\<close>

record 'd pipeline_run_report =
  rr_input_path :: string
  rr_output_path :: string
  rr_requested_backend :: string
  rr_selected_backend :: string
  rr_stage_name :: string
  rr_pipeline_config :: pipeline_config
  rr_input_bytes :: u64
  rr_blocks_written :: u64
  rr_bytes_written :: u64
  rr_elapsed_seconds :: 'd
  rr_output_committed :: bool
  rr_verification_passed :: bool

record 'd pipeline_progress =
  pp_completed_bytes :: u64
  pp_input_bytes :: u64
  pp_elapsed_seconds :: 'd
  pp_inflight_buffers :: gauge_value_t
  pp_read_process_queue_depth :: gauge_value_t
  pp_process_write_queue_depth :: gauge_value_t
  pp_max_inflight_buffers :: size_t
  pp_queue_capacity :: size_t

definition require_counter :: "metrics_registry \<Rightarrow> string \<Rightarrow> nat res" where
  "require_counter metrics name =
     (case find_counter name metrics of
        None \<Rightarrow> Inl (Logic_error ''required pipeline Counter is missing'')
      | Some metric \<Rightarrow> Inr metric)"

definition require_live_gauge :: "metrics_registry \<Rightarrow> string \<Rightarrow> nat res" where
  "require_live_gauge metrics name =
     (case find_gauge name metrics of
        None \<Rightarrow> Inl (Logic_error ''required pipeline Gauge is missing'')
      | Some metric \<Rightarrow> Inr metric)"

definition require_gauge :: "registry_snapshot \<Rightarrow> string \<Rightarrow> (gauge_value_t \<times> gauge_value_t) res" where
  "require_gauge snap name =
     (case map_of (snap_gauges snap) name of
        None \<Rightarrow> Inl (Logic_error ''required pipeline Gauge snapshot is missing'')
      | Some gauge \<Rightarrow> Inr gauge)"

definition require_histogram :: "registry_snapshot \<Rightarrow> string \<Rightarrow> histogram_snapshot res" where
  "require_histogram snap name =
     (case map_of (snap_histograms snap) name of
        None \<Rightarrow> Inl (Logic_error ''required pipeline Histogram snapshot is missing'')
      | Some (_, _, histogram) \<Rightarrow> Inr histogram)"

section \<open>Numbers as text\<close>

definition lf :: string where "lf = [CHR 0x0A]"

definition u64_text :: "u64 \<Rightarrow> string" where "u64_text n = decimal (unat n)"

definition i64_text :: "gauge_value_t \<Rightarrow> string" where
  "i64_text n = (if sint n < 0 then CHR ''-'' # decimal (nat (- sint n)) else decimal (nat (sint n)))"

text \<open>The five units; the loop divides by 1024 until the value is smaller or the last unit is reached.\<close>

function human_units :: "'d double_ops \<Rightarrow> 'd \<Rightarrow> nat \<Rightarrow> 'd \<times> nat" where
  "human_units ops value unit_index =
     (if d_le ops (d_literal ops 1024) value \<and> unit_index + 1 < 5
      then human_units ops (d_divide ops value (d_literal ops 1024)) (unit_index + 1)
      else (value, unit_index))"
  by pat_completeness auto
termination by (relation "measure (\<lambda>(_, _, unit_index). 5 - unit_index)") auto

declare human_units.simps [simp del]

definition human_bytes :: "'d double_ops \<Rightarrow> u64 \<Rightarrow> string" where
  "human_bytes ops bytes =
     (case human_units ops (d_of_u64 ops bytes) 0 of (value, unit_index) \<Rightarrow>
        d_fixed ops (if unit_index = 0 then 0 else 2) value @ '' '' @
        [''B'', ''KiB'', ''MiB'', ''GiB'', ''TiB''] ! unit_index)"

definition average_us :: "'d double_ops \<Rightarrow> histogram_snapshot \<Rightarrow> 'd" where
  "average_us ops histogram =
     (if hs_sample_count histogram = 0 then d_literal ops 0
      else d_divide ops
        (d_divide ops (d_of_u64 ops (hs_sample_sum histogram)) (d_of_u64 ops (hs_sample_count histogram)))
        (d_literal ops 1000))"

definition yes_no :: "bool \<Rightarrow> string" where
  "yes_no value = (if value then ''yes'' else ''no'')"

definition throughput_mib_s :: "'d double_ops \<Rightarrow> 'd pipeline_run_report \<Rightarrow> 'd" where
  "throughput_mib_s ops report =
     (if d_le ops (rr_elapsed_seconds report) (d_literal ops 0) then d_literal ops 0
      else d_divide ops (d_of_u64 ops (rr_bytes_written report))
        (d_times ops (d_times ops (d_literal ops 1024) (d_literal ops 1024)) (rr_elapsed_seconds report)))"

definition require_finite :: "'d double_ops \<Rightarrow> 'd \<Rightarrow> string \<Rightarrow> unit res" where
  "require_finite ops value name =
     (if \<not> d_isfinite ops value then Inl (Invalid_argument (name @ '' must be a finite number''))
      else Inr ())"

section \<open>The progress line and the live reporter\<close>

definition set_width :: "nat \<Rightarrow> string \<Rightarrow> string" where
  "set_width n text = replicate (n - length text) (CHR '' '') @ text"

definition progress_percent :: "'d double_ops \<Rightarrow> 'd pipeline_progress \<Rightarrow> 'd" where
  "progress_percent ops p =
     (if pp_input_bytes p = 0 then d_literal ops 100
      else d_clamp ops
        (d_divide ops (d_times ops (d_literal ops 100) (d_of_u64 ops (pp_completed_bytes p)))
           (d_of_u64 ops (pp_input_bytes p)))
        (d_literal ops 0) (d_literal ops 100))"

definition render_progress_line :: "'d double_ops \<Rightarrow> 'd pipeline_progress \<Rightarrow> string" where
  "render_progress_line ops p =
     (let percent = progress_percent ops p;
          filled = d_to_size ops (d_divide ops (d_times ops percent (d_literal ops 24)) (d_literal ops 100));
          current_throughput =
            (if d_less ops (d_literal ops 0) (pp_elapsed_seconds p)
             then d_divide ops (d_of_u64 ops (pp_completed_bytes p))
               (d_times ops (d_times ops (d_literal ops 1024) (d_literal ops 1024)) (pp_elapsed_seconds p))
             else d_literal ops 0) in
      ''['' @ map (\<lambda>index. if index < unat filled then CHR ''#'' else CHR ''-'') [0..<24] @ ''] '' @
      set_width 5 (d_fixed ops 1 percent) @ ''% | '' @
      human_bytes ops (pp_completed_bytes p) @ '' / '' @ human_bytes ops (pp_input_bytes p) @ '' | '' @
      d_fixed ops 2 current_throughput @ '' MiB/s'' @ '' | q '' @
      i64_text (pp_read_process_queue_depth p) @ ''/'' @ u64_text (pp_queue_capacity p) @ '','' @
      i64_text (pp_process_write_queue_depth p) @ ''/'' @ u64_text (pp_queue_capacity p) @ '' | buffers '' @
      i64_text (pp_inflight_buffers p) @ ''/'' @ u64_text (pp_max_inflight_buffers p))"

text \<open>
  The live reporter: positions of its metrics in the registry, whether its thread runs, and what it
  has printed. Its thread prints at every timeout of its wait, until it is stopped.
\<close>

record live_reporter =
  lr_written_bytes :: nat
  lr_inflight :: nat
  lr_read_process_depth :: nat
  lr_process_write_depth :: nat
  lr_input_bytes :: u64
  lr_max_inflight_buffers :: size_t
  lr_queue_capacity :: size_t
  lr_interactive :: bool
  lr_printed :: bool
  lr_running :: bool
  lr_output :: string

definition live_reporter_new ::
  "metrics_registry \<Rightarrow> u64 \<Rightarrow> size_t \<Rightarrow> size_t \<Rightarrow> int \<Rightarrow> bool \<Rightarrow> live_reporter res" where
  "live_reporter_new metrics input_bytes buffer_limit depth_limit interval_ms interactive =
     (case require_counter metrics ''pipeline.write.bytes'' of Inl e \<Rightarrow> Inl e
      | Inr written_bytes \<Rightarrow>
     (case require_live_gauge metrics ''pipeline.buffer_pool.inflight'' of Inl e \<Rightarrow> Inl e
      | Inr inflight \<Rightarrow>
     (case require_live_gauge metrics ''pipeline.queue.read_process.depth'' of Inl e \<Rightarrow> Inl e
      | Inr read_process \<Rightarrow>
     (case require_live_gauge metrics ''pipeline.queue.process_write.depth'' of Inl e \<Rightarrow> Inl e
      | Inr process_write \<Rightarrow>
          Inr \<lparr>lr_written_bytes = written_bytes, lr_inflight = inflight, lr_read_process_depth = read_process,
               lr_process_write_depth = process_write, lr_input_bytes = input_bytes,
               lr_max_inflight_buffers = buffer_limit, lr_queue_capacity = depth_limit,
               lr_interactive = interactive, lr_printed = False, lr_running = 0 < interval_ms,
               lr_output = []\<rparr>))))"

definition live_progress :: "metrics_registry \<Rightarrow> 'd \<Rightarrow> live_reporter \<Rightarrow> 'd pipeline_progress" where
  "live_progress metrics elapsed lr =
     \<lparr>pp_completed_bytes = counter_value (snd (counters metrics ! lr_written_bytes lr)),
      pp_input_bytes = lr_input_bytes lr, pp_elapsed_seconds = elapsed,
      pp_inflight_buffers = gauge_value (snd (gauges metrics ! lr_inflight lr)),
      pp_read_process_queue_depth = gauge_value (snd (gauges metrics ! lr_read_process_depth lr)),
      pp_process_write_queue_depth = gauge_value (snd (gauges metrics ! lr_process_write_depth lr)),
      pp_max_inflight_buffers = lr_max_inflight_buffers lr, pp_queue_capacity = lr_queue_capacity lr\<rparr>"

definition print_once :: "'d double_ops \<Rightarrow> metrics_registry \<Rightarrow> 'd \<Rightarrow> live_reporter \<Rightarrow> live_reporter" where
  "print_once ops metrics elapsed lr =
     (let text = render_progress_line ops (live_progress metrics elapsed lr) in
      lr\<lparr>lr_output := lr_output lr @
           (if lr_interactive lr then [CHR 0x0D, CHR 0x1B] @ ''[2K'' @ text else ''live '' @ text @ lf),
         lr_printed := True\<rparr>)"

definition live_stop :: "live_reporter \<Rightarrow> live_reporter" where
  "live_stop lr =
     (if \<not> lr_running lr then lr
      else if lr_interactive lr \<and> lr_printed lr then lr\<lparr>lr_running := False, lr_output := lr_output lr @ lf\<rparr>
      else lr\<lparr>lr_running := False\<rparr>)"

text \<open>One round of \<open>run\<close>: the wait ends by its timeout or because a stop was requested.\<close>

definition live_round ::
  "'d double_ops \<Rightarrow> metrics_registry \<Rightarrow> 'd \<Rightarrow> bool \<Rightarrow> live_reporter \<Rightarrow> live_reporter" where
  "live_round ops metrics elapsed stop_requested lr =
     (if stop_requested \<or> \<not> lr_running lr then lr else print_once ops metrics elapsed lr)"

section \<open>Terminal and key-value output\<close>

definition write_terminal_header :: "'d double_ops \<Rightarrow> 'd pipeline_run_report \<Rightarrow> string" where
  "write_terminal_header ops report =
     ''AsyncDataLoader'' @ lf @
     ''  Input          : '' @ rr_input_path report @ '' ('' @ human_bytes ops (rr_input_bytes report) @ '')'' @ lf @
     ''  Output         : '' @ rr_output_path report @ lf @
     ''  Backend        : '' @ rr_requested_backend report @ '' -> '' @ rr_selected_backend report @ lf @
     ''  CPU stage      : '' @ rr_stage_name report @ lf @
     ''  Block / buffers: '' @ human_bytes ops (block_size (rr_pipeline_config report)) @ '' / '' @
        u64_text (max_inflight_buffers (rr_pipeline_config report)) @ lf @
     ''  Queue capacity : '' @ u64_text (queue_depth (rr_pipeline_config report)) @ '' per handoff'' @ lf @ lf"

definition write_terminal_summary ::
  "'d double_ops \<Rightarrow> registry_snapshot \<Rightarrow> 'd pipeline_run_report \<Rightarrow> string res" where
  "write_terminal_summary ops snap report =
     (case require_gauge snap ''pipeline.buffer_pool.inflight'' of Inl e \<Rightarrow> Inl e
      | Inr inflight \<Rightarrow>
     (case require_gauge snap ''pipeline.queue.read_process.depth'' of Inl e \<Rightarrow> Inl e
      | Inr read_process \<Rightarrow>
     (case require_gauge snap ''pipeline.queue.process_write.depth'' of Inl e \<Rightarrow> Inl e
      | Inr process_write \<Rightarrow>
     (case require_histogram snap ''pipeline.read.latency_ns'' of Inl e \<Rightarrow> Inl e
      | Inr read_latency \<Rightarrow>
     (case require_histogram snap ''pipeline.process.latency_ns'' of Inl e \<Rightarrow> Inl e
      | Inr process_latency \<Rightarrow>
     (case require_histogram snap ''pipeline.write.latency_ns'' of Inl e \<Rightarrow> Inl e
      | Inr write_latency \<Rightarrow>
          Inr (''Pipeline completed'' @ lf @
            ''  Processed      : '' @ human_bytes ops (rr_bytes_written report) @ '' in '' @
              u64_text (rr_blocks_written report) @ '' blocks'' @ lf @
            ''  Elapsed        : '' @ d_fixed ops 3 (d_times ops (rr_elapsed_seconds report) (d_literal ops 1000)) @
              '' ms'' @ lf @
            ''  Throughput     : '' @ d_fixed ops 2 (throughput_mib_s ops report) @ '' MiB/s'' @ lf @
            ''  Buffer leases  : current '' @ i64_text (fst inflight) @ '', peak '' @ i64_text (snd inflight) @ '' / '' @
              u64_text (max_inflight_buffers (rr_pipeline_config report)) @ lf @
            ''  Queue peaks    : read->process '' @ i64_text (snd read_process) @ '', process->write '' @
              i64_text (snd process_write) @ '' / '' @ u64_text (queue_depth (rr_pipeline_config report)) @ lf @
            ''  Average latency: read '' @ d_fixed ops 2 (average_us ops read_latency) @ '' us, process '' @
              d_fixed ops 2 (average_us ops process_latency) @ '' us, write '' @
              d_fixed ops 2 (average_us ops write_latency) @ '' us'' @ lf @
            ''  Output commit  : '' @ yes_no (rr_output_committed report) @ lf @
            ''  Verification   : '' @ yes_no (rr_verification_passed report) @ lf @ lf)))))))"

definition key_value :: "string \<Rightarrow> string \<Rightarrow> string" where
  "key_value key text = key @ ''='' @ text @ lf"

text \<open>What reaches the stream, and the exception that \<open>buffer_pool_bytes\<close> may throw in between.\<close>

definition write_key_value_configuration :: "'d pipeline_run_report \<Rightarrow> string \<times> unit res" where
  "write_key_value_configuration report =
     (let written =
        key_value ''requested_backend'' (rr_requested_backend report) @
        key_value ''selected_backend'' (rr_selected_backend report) @
        key_value ''stage'' (rr_stage_name report) @
        key_value ''input_bytes'' (u64_text (rr_input_bytes report)) in
      (case buffer_pool_bytes (rr_pipeline_config report) of
         Inl e \<Rightarrow> (written @ ''buffer_pool_bytes='', Inl e)
       | Inr bytes \<Rightarrow>
           (written @ key_value ''buffer_pool_bytes'' (u64_text bytes) @
            key_value ''max_inflight_buffers'' (u64_text (max_inflight_buffers (rr_pipeline_config report))) @
            key_value ''queue_depth'' (u64_text (queue_depth (rr_pipeline_config report))), Inr ())))"

definition write_key_value_result ::
  "'d double_ops \<Rightarrow> registry_snapshot \<Rightarrow> 'd pipeline_run_report \<Rightarrow> string" where
  "write_key_value_result ops snap report =
     key_value ''status'' ''complete'' @
     key_value ''blocks_written'' (u64_text (rr_blocks_written report)) @
     key_value ''bytes_written'' (u64_text (rr_bytes_written report)) @
     key_value ''output_committed'' (if rr_output_committed report then ''true'' else ''false'') @
     key_value ''verification'' (if rr_verification_passed report then ''passed'' else ''failed'') @
     concat (map (\<lambda>(name, v). key_value name (u64_text v)) (snap_counters snap)) @
     concat (map (\<lambda>(name, v, peak).
       key_value (name @ ''.current'') (i64_text v) @ key_value (name @ ''.peak'') (i64_text peak)) (snap_gauges snap)) @
     concat (map (\<lambda>(name, _, _, histogram).
       key_value (name @ ''.samples'') (u64_text (hs_sample_count histogram)) @
       key_value (name @ ''.average_us'') (d_fixed ops 3 (average_us ops histogram))) (snap_histograms snap)) @
     key_value ''elapsed_ms'' (d_fixed ops 3 (d_times ops (rr_elapsed_seconds report) (d_literal ops 1000))) @
     key_value ''throughput_mib_s'' (d_fixed ops 3 (throughput_mib_s ops report))"

section \<open>The JSON document\<close>

definition quoted :: "string \<Rightarrow> string" where
  "quoted s = CHR 0x22 # s @ [CHR 0x22]"

text \<open>The loops that put a separator before every element but the first.\<close>

fun separated :: "string \<Rightarrow> string list \<Rightarrow> string" where
  "separated sep [] = []"
| "separated sep [t] = t"
| "separated sep (t # u # us) = t @ sep @ separated sep (u # us)"

text \<open>A line of an object, an object whose lines are closed at an indentation, an array of lines.\<close>

definition json_field :: "string \<Rightarrow> string \<Rightarrow> string \<Rightarrow> string" where
  "json_field indentation name text = indentation @ quoted name @ '': '' @ text"

definition write_json_named_string :: "string \<Rightarrow> string \<Rightarrow> string \<Rightarrow> string" where
  "write_json_named_string indentation name text =
     indentation @ write_json_string name @ '': '' @ write_json_string text"

definition json_block :: "string \<Rightarrow> string list \<Rightarrow> string" where
  "json_block indentation ms = ''{'' @ lf @ separated ('','' @ lf) ms @ lf @ indentation @ ''}''"

definition json_lines :: "string \<Rightarrow> string list \<Rightarrow> string" where
  "json_lines indentation items =
     ''['' @ (if items = [] then [] else lf @ separated ('','' @ lf) items @ lf) @ indentation @ '']''"

text \<open>The elements of the three arrays.\<close>

definition json_row :: "string list \<Rightarrow> string" where
  "json_row ms = ''      '' @ ''{'' @ separated '', '' ms @ ''}''"

definition counter_json :: "string \<times> u64 \<Rightarrow> string" where
  "counter_json c = (case c of (name, v) \<Rightarrow>
     json_row [json_field [] ''name'' (write_json_string name), json_field [] ''value'' (u64_text v)])"

definition gauge_json :: "string \<times> gauge_value_t \<times> gauge_value_t \<Rightarrow> string" where
  "gauge_json g = (case g of (name, v, peak) \<Rightarrow>
     json_row [json_field [] ''name'' (write_json_string name), json_field [] ''current'' (i64_text v),
       json_field [] ''high_watermark'' (i64_text peak)])"

definition histogram_json :: "'d double_ops \<Rightarrow> string \<times> nat \<times> u64 list \<times> histogram_snapshot \<Rightarrow> string" where
  "histogram_json ops h = (case h of (name, bound_count, bounds, histogram) \<Rightarrow>
     json_row
      [json_field [] ''name'' (write_json_string name),
       json_field [] ''sample_count'' (u64_text (hs_sample_count histogram)),
       json_field [] ''sample_sum_ns'' (u64_text (hs_sample_sum histogram)),
       json_field [] ''average_us'' (d_fixed ops 3 (average_us ops histogram)),
       json_field [] ''upper_bounds_ns'' (''['' @ separated '', '' (map u64_text (take bound_count bounds)) @ '']''),
       json_field [] ''bucket_counts''
         (''['' @ separated '', '' (map u64_text (take (hs_bucket_count histogram) (hs_bucket_counts histogram))) @ '']'')])"

text \<open>The text that is streamed once nothing can throw any more.\<close>

definition metrics_json_text ::
  "'d double_ops \<Rightarrow> registry_snapshot \<Rightarrow> 'd pipeline_run_report \<Rightarrow> u64 \<Rightarrow> string" where
  "metrics_json_text ops snap report pool_bytes =
     json_block []
      [json_field ''  '' ''schema_version'' ''1'',
       json_field ''  '' ''status'' (quoted ''complete''),
       json_field ''  '' ''run'' (json_block ''  ''
        [write_json_named_string ''    '' ''input_path'' (rr_input_path report),
         write_json_named_string ''    '' ''output_path'' (rr_output_path report),
         write_json_named_string ''    '' ''requested_backend'' (rr_requested_backend report),
         write_json_named_string ''    '' ''selected_backend'' (rr_selected_backend report),
         write_json_named_string ''    '' ''stage'' (rr_stage_name report),
         json_field ''    '' ''input_bytes'' (u64_text (rr_input_bytes report))]),
       json_field ''  '' ''pipeline_config'' (json_block ''  ''
        [json_field ''    '' ''block_size'' (u64_text (block_size (rr_pipeline_config report))),
         json_field ''    '' ''max_inflight_buffers''
           (u64_text (max_inflight_buffers (rr_pipeline_config report))),
         json_field ''    '' ''queue_depth'' (u64_text (queue_depth (rr_pipeline_config report))),
         json_field ''    '' ''buffer_alignment''
           (u64_text (buffer_alignment (rr_pipeline_config report))),
         json_field ''    '' ''buffer_pool_bytes'' (u64_text pool_bytes)]),
       json_field ''  '' ''result'' (json_block ''  ''
        [json_field ''    '' ''blocks_written'' (u64_text (rr_blocks_written report)),
         json_field ''    '' ''bytes_written'' (u64_text (rr_bytes_written report)),
         json_field ''    '' ''elapsed_ms''
           (d_fixed ops 3 (d_times ops (rr_elapsed_seconds report) (d_literal ops 1000))),
         json_field ''    '' ''throughput_mib_s'' (d_fixed ops 3 (throughput_mib_s ops report)),
         json_field ''    '' ''output_committed''
           (if rr_output_committed report then ''true'' else ''false''),
         json_field ''    '' ''verification''
           (quoted (if rr_verification_passed report then ''passed'' else ''failed''))]),
       json_field ''  '' ''metrics'' (json_block ''  ''
        [json_field ''    '' ''counters'' (json_lines ''    '' (map counter_json (snap_counters snap))),
         json_field ''    '' ''gauges'' (json_lines ''    '' (map gauge_json (snap_gauges snap))),
         json_field ''    '' ''histograms''
           (json_lines ''    '' (map (histogram_json ops) (snap_histograms snap)))])] @ lf"

definition render_metrics_json ::
  "'d double_ops \<Rightarrow> registry_snapshot \<Rightarrow> 'd pipeline_run_report \<Rightarrow> string res" where
  "render_metrics_json ops snap report =
     (case require_finite ops (rr_elapsed_seconds report) ''elapsed_seconds'' of
        Inl e \<Rightarrow> Inl e
      | Inr _ \<Rightarrow>
          (case require_finite ops (throughput_mib_s ops report) ''throughput_mib_s'' of
             Inl e \<Rightarrow> Inl e
           | Inr _ \<Rightarrow>
               (case buffer_pool_bytes (rr_pipeline_config report) of
                  Inl e \<Rightarrow> Inl e
                | Inr pool_bytes \<Rightarrow> Inr (metrics_json_text ops snap report pool_bytes))))"

section \<open>What the document denotes\<close>

definition counter_value_json :: "string \<times> u64 \<Rightarrow> json" where
  "counter_value_json c = (case c of (name, v) \<Rightarrow>
     J_object [(''name'', J_string name), (''value'', J_number (u64_text v))])"

definition gauge_value_json :: "string \<times> gauge_value_t \<times> gauge_value_t \<Rightarrow> json" where
  "gauge_value_json g = (case g of (name, v, peak) \<Rightarrow>
     J_object [(''name'', J_string name), (''current'', J_number (i64_text v)), (''high_watermark'', J_number (i64_text peak))])"

definition histogram_value_json :: "'d double_ops \<Rightarrow> string \<times> nat \<times> u64 list \<times> histogram_snapshot \<Rightarrow> json" where
  "histogram_value_json ops h = (case h of (name, bound_count, bounds, histogram) \<Rightarrow>
     J_object
      [(''name'', J_string name),
       (''sample_count'', J_number (u64_text (hs_sample_count histogram))),
       (''sample_sum_ns'', J_number (u64_text (hs_sample_sum histogram))),
       (''average_us'', J_number (d_fixed ops 3 (average_us ops histogram))),
       (''upper_bounds_ns'', J_array (map (\<lambda>n. J_number (u64_text n)) (take bound_count bounds))),
       (''bucket_counts'',
          J_array (map (\<lambda>n. J_number (u64_text n)) (take (hs_bucket_count histogram) (hs_bucket_counts histogram))))])"

definition metrics_document ::
  "'d double_ops \<Rightarrow> registry_snapshot \<Rightarrow> 'd pipeline_run_report \<Rightarrow> u64 \<Rightarrow> json" where
  "metrics_document ops snap report pool_bytes =
     (let config = rr_pipeline_config report in
      J_object
       [(''schema_version'', J_number ''1''),
        (''status'', J_string ''complete''),
        (''run'', J_object
          [(''input_path'', J_string (rr_input_path report)),
           (''output_path'', J_string (rr_output_path report)),
           (''requested_backend'', J_string (rr_requested_backend report)),
           (''selected_backend'', J_string (rr_selected_backend report)),
           (''stage'', J_string (rr_stage_name report)),
           (''input_bytes'', J_number (u64_text (rr_input_bytes report)))]),
        (''pipeline_config'', J_object
          [(''block_size'', J_number (u64_text (block_size config))),
           (''max_inflight_buffers'', J_number (u64_text (max_inflight_buffers config))),
           (''queue_depth'', J_number (u64_text (queue_depth config))),
           (''buffer_alignment'', J_number (u64_text (buffer_alignment config))),
           (''buffer_pool_bytes'', J_number (u64_text pool_bytes))]),
        (''result'', J_object
          [(''blocks_written'', J_number (u64_text (rr_blocks_written report))),
           (''bytes_written'', J_number (u64_text (rr_bytes_written report))),
           (''elapsed_ms'', J_number (d_fixed ops 3 (d_times ops (rr_elapsed_seconds report) (d_literal ops 1000)))),
           (''throughput_mib_s'', J_number (d_fixed ops 3 (throughput_mib_s ops report))),
           (''output_committed'', J_bool (rr_output_committed report)),
           (''verification'', J_string (if rr_verification_passed report then ''passed'' else ''failed''))]),
        (''metrics'', J_object
          [(''counters'', J_array (map counter_value_json (snap_counters snap))),
           (''gauges'', J_array (map gauge_value_json (snap_gauges snap))),
           (''histograms'', J_array (map (histogram_value_json ops) (snap_histograms snap)))])])"

text \<open>What \<open>std::fixed\<close> output and the averages of the counters promise.\<close>

definition doubles_print :: "'d double_ops \<Rightarrow> bool" where
  "doubles_print ops \<longleftrightarrow>
     (\<forall>x. d_isfinite ops x \<longrightarrow> json_number (d_fixed ops 3 x)) \<and>
     (\<forall>h. d_isfinite ops (average_us ops h))"

definition plain :: "string \<Rightarrow> bool" where
  "plain s \<longleftrightarrow> list_all (\<lambda>c. (32 :: nat) \<le> of_char c \<and> c \<noteq> CHR 0x22 \<and> c \<noteq> CHR 0x5C) s"

lemma plain_quoted: "plain s \<Longrightarrow> write_json_string s = quoted s"
proof -
  have "plain s \<Longrightarrow> concat (map write_json_char s) = s"
  proof (induction s)
    case (Cons c s)
    then have "c \<noteq> CHR 0x08" "c \<noteq> CHR 0x0C" "c \<noteq> CHR 0x0A" "c \<noteq> CHR 0x0D" "c \<noteq> CHR 0x09" by (auto simp: plain_def)
    with Cons show ?case by (simp add: plain_def write_json_char_def)
  qed simp
  then show "plain s \<Longrightarrow> write_json_string s = quoted s" by (simp add: write_json_string_def quoted_def)
qed

lemma quoted_text: "plain s \<Longrightarrow> json_text (J_string s) (quoted s)"
  using json_string_text [of s] by (simp add: plain_quoted)

lemma u64_json: "json_text (J_number (u64_text n)) (u64_text n)"
  unfolding u64_text_def by (rule decimal_text)

lemma i64_json: "json_text (J_number (i64_text n)) (i64_text n)"
  unfolding i64_text_def using natural_number [OF decimal_natural] by (auto intro: text_number)

lemma bool_json: "json_text (J_bool b) (if b then ''true'' else ''false'')"
  by (auto intro: text_true text_false)

lemma lf_blank [simp]: "json_blank lf"
  by (simp add: lf_def)

lemma members_before: "json_members [m] t \<Longrightarrow> json_blank u \<Longrightarrow> json_members [m] (u @ t)"
proof (erule json_members.cases)
  fix k t' j u' assume m: "[m] = [(k, j)]" "t = t' @ '':'' @ u'" "json_text (J_string k) t'" "json_text j u'" and u: "json_blank u"
  have "json_members [(k, j)] ((u @ t') @ '':'' @ u')" by (rule members_one [OF text_before [OF m(3) u] m(4)])
  then show "json_members [m] (u @ t)" using m(1,2) by simp
qed simp_all

lemma members_behind: "json_members [m] t \<Longrightarrow> json_blank u \<Longrightarrow> json_members [m] (t @ u)"
proof (erule json_members.cases)
  fix k t' j u' assume m: "[m] = [(k, j)]" "t = t' @ '':'' @ u'" "json_text (J_string k) t'" "json_text j u'" and u: "json_blank u"
  have "json_members [(k, j)] (t' @ '':'' @ (u' @ u))" by (rule members_one [OF m(3) text_behind [OF m(4) u]])
  then show "json_members [m] (t @ u)" using m(1,2) by simp
qed simp_all

text \<open>Members and elements in the layouts of the renderer.\<close>

lemma separated_members:
  assumes "list_all2 (\<lambda>m t. json_members [m] t) ms ts" and "ms \<noteq> []" and "json_blank u" and sep: "json_blank sep" and v: "json_blank v"
  shows "json_members ms (u @ separated ('','' @ sep) ts @ v)"
  using assms(1-3)
proof (induction ms ts arbitrary: u rule: list_all2_induct)
  case (Cons m ms t ts)
  show ?case
  proof (cases ts)
    case Nil
    with Cons(2) have "ms = []" by simp
    then show ?thesis using members_before [OF members_behind [OF Cons(1) v] Cons.prems(2)] Nil by simp
  next
    case (Cons t' ts')
    then have "ms \<noteq> []" using Cons.hyps(2) by auto
    then have "json_members ms (sep @ separated ('','' @ sep) ts @ v)" by (intro Cons.IH sep)
    from members_more [OF members_before [OF Cons.hyps(1) Cons.prems(2)] this \<open>ms \<noteq> []\<close>]
    show ?thesis by (simp add: Cons)
  qed
qed simp

lemma separated_elements:
  assumes "list_all2 json_text js ts" and "js \<noteq> []" and "json_blank u" and sep: "json_blank sep" and v: "json_blank v"
  shows "json_elements js (u @ separated ('','' @ sep) ts @ v)"
  using assms(1-3)
proof (induction js ts arbitrary: u rule: list_all2_induct)
  case (Cons j js t ts)
  show ?case
  proof (cases ts)
    case Nil
    with Cons(2) have "js = []" by simp
    then show ?thesis using elements_one [OF text_blank [OF Cons(1) Cons.prems(2) v]] Nil by simp
  next
    case (Cons t' ts')
    then have "js \<noteq> []" using Cons.hyps(2) by auto
    then have "json_elements js (sep @ separated ('','' @ sep) ts @ v)" by (intro Cons.IH sep)
    from elements_more [OF text_before [OF Cons.hyps(1) Cons.prems(2)] this \<open>js \<noteq> []\<close>]
    show ?thesis by (simp add: Cons)
  qed
qed simp

lemma field_member:
  "json_text j t \<Longrightarrow> json_blank u \<Longrightarrow> plain name \<Longrightarrow> json_members [(name, j)] (json_field u name t)"
  using members_one [OF text_before [OF quoted_text] text_before [of j t "'' ''"], of name u] by (simp add: json_field_def)

lemma named_string_member:
  "json_blank u \<Longrightarrow> json_members [(name, J_string s)] (write_json_named_string u name s)"
  using members_one [OF text_before [OF json_string_text] text_before [OF json_string_text, of "'' ''"], of u name s]
  by (simp add: write_json_named_string_def)

lemma block_text:
  assumes "list_all2 (\<lambda>m t. json_members [m] t) ms ts" and "ms \<noteq> []" and "json_blank u"
  shows "json_text (J_object ms) (json_block u ts)"
proof -
  have "json_members ms (lf @ separated ('','' @ lf) ts @ (lf @ u))"
    by (rule separated_members [OF assms(1,2)]) (simp_all add: assms(3))
  from text_object [OF this] show ?thesis by (simp add: json_block_def)
qed

lemma lines_text:
  assumes "list_all2 json_text js ts" and "json_blank u"
  shows "json_text (J_array js) (json_lines u ts)"
proof (cases "js = []")
  case True
  then show ?thesis using text_array [OF elements_none [OF assms(2)]] assms(1) by (simp add: json_lines_def)
next
  case False
  have "json_elements js (lf @ separated ('','' @ lf) ts @ (lf @ u))"
    by (rule separated_elements [OF assms(1) False]) (simp_all add: assms(2))
  from text_array [OF this] show ?thesis using False assms(1) by (auto simp: json_lines_def)
qed

lemma numbers_text: "json_text (J_array (map (\<lambda>n. J_number (u64_text n)) ns)) (''['' @ separated '', '' (map u64_text ns) @ '']'')"
proof (cases "ns = []")
  case True
  then show ?thesis using text_array [OF elements_none, of "[]"] by simp
next
  case False
  have "list_all2 json_text (map (\<lambda>n. J_number (u64_text n)) ns) (map u64_text ns)"
    by (simp add: list_all2_conv_all_nth u64_json)
  from separated_elements [OF this, of "[]" "'' ''" "[]"] False
  have "json_elements (map (\<lambda>n. J_number (u64_text n)) ns) (separated '', '' (map u64_text ns))" by simp
  from text_array [OF this] show ?thesis by simp
qed

lemma row_text:
  assumes "list_all2 (\<lambda>m t. json_members [m] t) ms ts" and "ms \<noteq> []"
  shows "json_text (J_object ms) (json_row ts)"
proof -
  have "json_members ms ([] @ separated ('','' @ '' '') ts @ [])" by (rule separated_members [OF assms]) simp_all
  from text_before [OF text_object [OF this], of "''      ''"] show ?thesis by (simp add: json_row_def)
qed

lemma counter_text: "json_text (counter_value_json c) (counter_json c)"
  unfolding counter_value_json_def counter_json_def
  by (cases c) (auto intro!: row_text field_member json_string_text u64_json simp: plain_def)

lemma gauge_text: "json_text (gauge_value_json g) (gauge_json g)"
  unfolding gauge_value_json_def gauge_json_def
  by (cases g) (auto intro!: row_text field_member json_string_text i64_json simp: plain_def)

lemma histogram_text: "doubles_print ops \<Longrightarrow> json_text (histogram_value_json ops h) (histogram_json ops h)"
  unfolding histogram_value_json_def histogram_json_def
  by (cases h) (auto intro!: row_text field_member json_string_text u64_json numbers_text [simplified] text_number
      simp: plain_def doubles_print_def)

lemma list_text:
  "(\<And>x. json_text (f x) (g x)) \<Longrightarrow> json_text (J_array (map f xs)) (json_lines ''    '' (map g xs))"
  by (rule lines_text) (simp_all add: list_all2_conv_all_nth)

lemma plain_names:
  "plain ''schema_version''" "plain ''status''" "plain ''run''" "plain ''input_path''" "plain ''output_path''"
  "plain ''requested_backend''" "plain ''selected_backend''" "plain ''stage''" "plain ''input_bytes''"
  "plain ''pipeline_config''" "plain ''block_size''" "plain ''max_inflight_buffers''" "plain ''queue_depth''"
  "plain ''buffer_alignment''" "plain ''buffer_pool_bytes''" "plain ''result''" "plain ''blocks_written''"
  "plain ''bytes_written''" "plain ''elapsed_ms''" "plain ''throughput_mib_s''" "plain ''output_committed''"
  "plain ''verification''" "plain ''metrics''" "plain ''counters''" "plain ''gauges''" "plain ''histograms''"
  "plain ''complete''" "plain (if b then ''passed'' else ''failed'')"
  by (simp_all add: plain_def)

lemmas document_rules =
  block_text list_all2_Cons [THEN iffD2] conjI list_all2_Nil [THEN iffD2] named_string_member field_member
  u64_json plain_names quoted_text bool_json list_text counter_text gauge_text

lemma metrics_text:
  assumes "doubles_print ops" and "d_isfinite ops (d_times ops (rr_elapsed_seconds report) (d_literal ops 1000))"
    and "d_isfinite ops (throughput_mib_s ops report)"
  shows "json_text (metrics_document ops snap report pool_bytes) (metrics_json_text ops snap report pool_bytes)"
proof -
  have num: "json_text (J_number (d_fixed ops 3 x)) (d_fixed ops 3 x)" if "d_isfinite ops x" for x
    using assms(1) that by (auto intro: text_number simp: doubles_print_def)
  have one: "json_text (J_number ''1'') ''1''"
    by (rule text_number) (simp add: json_number_def json_natural_def is_digit_def)
  have two: "json_blank ''  ''" "json_blank ''    ''" "json_blank []" by simp_all
  show ?thesis
    unfolding metrics_document_def metrics_json_text_def Let_def append_assoc [symmetric]
    by (rule text_behind [OF _ lf_blank])
      (intro document_rules histogram_text assms(1) num assms(2,3) one two; simp)
qed

section \<open>A small report\<close>

text \<open>Doubles that hold natural numbers, printed with zeros behind the point.\<close>

definition whole_doubles :: "nat double_ops" where
  "whole_doubles =
     \<lparr>d_of_u64 = unat, d_literal = (\<lambda>n. n), d_times = (*), d_divide = (div), d_less = (<), d_le = (\<le>),
      d_isfinite = (\<lambda>_. True), d_to_size = of_nat,
      d_fixed = (\<lambda>p n. decimal n @ (if p = 0 then [] else CHR ''.'' # replicate p (CHR ''0'')))\<rparr>"

lemma whole_doubles_print: "doubles_print whole_doubles"
proof -
  have "json_number (decimal n @ ''.000'')" for n
  proof -
    have d: "json_natural (decimal n)" by (rule decimal_natural)
    then have all: "\<forall>c \<in> set (decimal n). is_digit c" by (simp add: json_natural_def list_all_iff)
    obtain c cs where c: "decimal n = c # cs" by (cases "decimal n") simp_all
    then have "c \<noteq> CHR ''-''" using all by (auto simp: is_digit_def)
    then have "json_number (decimal n @ ''.000'') =
        (let i = takeWhile is_digit (decimal n @ ''.000''); f = dropWhile is_digit (decimal n @ ''.000'') in
         json_natural i \<and> (case f of [] \<Rightarrow> True | c # ds \<Rightarrow> c = CHR ''.'' \<and> ds \<noteq> [] \<and> list_all is_digit ds))"
      by (simp add: c json_number_def Let_def)
    moreover have "takeWhile is_digit (decimal n @ ''.000'') = decimal n" "dropWhile is_digit (decimal n @ ''.000'') = ''.000''"
      using all by (simp_all add: takeWhile_append2 dropWhile_append2 is_digit_def)
    ultimately show ?thesis using d by (simp add: is_digit_def)
  qed
  then show ?thesis by (simp add: doubles_print_def whole_doubles_def numeral_3_eq_3)
qed

definition small_report :: "nat pipeline_run_report" where
  "small_report =
     \<lparr>rr_input_path = ''in'', rr_output_path = [CHR 0x22, CHR 0x0A], rr_requested_backend = ''auto'',
      rr_selected_backend = ''sync'', rr_stage_name = ''noop'',
      rr_pipeline_config = \<lparr>block_size = 8, max_inflight_buffers = 2, queue_depth = 1, buffer_alignment = 8\<rparr>,
      rr_input_bytes = 3, rr_blocks_written = 1, rr_bytes_written = 3, rr_elapsed_seconds = 2,
      rr_output_committed = True, rr_verification_passed = True\<rparr>"

definition small_snapshot :: registry_snapshot where
  "small_snapshot =
     \<lparr>snap_counters = [(''a'', 7)], snap_gauges = [],
      snap_histograms = [(''h'', 1, [5, 0], \<lparr>hs_sample_count = 1, hs_sample_sum = 3, hs_bucket_count = 2, hs_bucket_counts = [1, 0, 0]\<rparr>)]\<rparr>"

lemma small_render:
  "render_metrics_json whole_doubles small_snapshot small_report =
   Inr (metrics_json_text whole_doubles small_snapshot small_report 16)"
proof -
  have "buffer_pool_bytes (rr_pipeline_config small_report) = Inr 16" by code_simp
  then show ?thesis by (simp add: render_metrics_json_def require_finite_def whole_doubles_def)
qed

section \<open>Properties\<close>

text \<open>
  C34: The metrics document is valid JSON and says what it should. Whenever \<open>render_metrics_json\<close>
  returns a text, with doubles that print as decimal fractions and an elapsed time whose milliseconds
  are finite, the text is a JSON text that denotes exactly the report and the snapshot: every path,
  backend, stage and metric name, whatever characters it holds, and every counter, gauge and
  histogram, in order.
\<close>

theorem metrics_json_denotes:
  assumes "doubles_print ops" and "d_isfinite ops (d_times ops (rr_elapsed_seconds report) (d_literal ops 1000))"
    and "render_metrics_json ops snap report = Inr text"
  shows "\<exists>pool_bytes. buffer_pool_bytes (rr_pipeline_config report) = Inr pool_bytes \<and>
    json_text (metrics_document ops snap report pool_bytes) text"
  using assms metrics_text [OF assms(1,2)]
  by (auto simp: render_metrics_json_def require_finite_def split: sum.splits if_splits)

theorem metrics_json_denotes_witness:
  "\<exists>text. render_metrics_json whole_doubles small_snapshot small_report = Inr text \<and>
     json_text (metrics_document whole_doubles small_snapshot small_report 16) text"
proof -
  have fin: "d_isfinite whole_doubles (d_times whole_doubles (rr_elapsed_seconds small_report) (d_literal whole_doubles 1000))"
    by (simp add: whole_doubles_def)
  have "buffer_pool_bytes (rr_pipeline_config small_report) = Inr 16" by code_simp
  with metrics_json_denotes [OF whole_doubles_print fin small_render] small_render show ?thesis by auto
qed

end
