(* ===== verification/Atomic_Json.thy ===== *)
theory Atomic_Json
  imports Reporter Atomic_Output
begin

text \<open>
  Publishing the metrics document (\<open>AtomicJsonFile\<close> and \<open>write_metrics_json_atomic\<close> of
  \<open>src/reporting/pipeline_reporter.cpp\<close>). The class has the members and the destructor of
  \<open>AtomicOutputFile\<close>, so it shares its record; it writes with \<open>write\<close>, which continues where the last
  call on the descriptor stopped.
\<close>

section \<open>AtomicJsonFile\<close>

definition validate_json_path :: "string \<Rightarrow> unit res" where
  "validate_json_path path =
     (case validate_path path ''metrics JSON path must not be empty''
             ''metrics JSON path must not contain a null byte'' of
        Inl e \<Rightarrow> Inl e
      | Inr _ \<Rightarrow>
          (let filename = path_filename path in
           if filename = [] \<or> filename = ''.'' \<or> filename = ''..''
           then Inl (Invalid_argument ''metrics JSON path must name a file'') else Inr ()))"

definition atomic_json_new ::
  "'w file_system_calls \<Rightarrow> string \<Rightarrow> 'w \<Rightarrow> atomic_output_file res \<times> 'w" where
  "atomic_json_new fs final_path w =
     (case validate_json_path final_path of
        Inl e \<Rightarrow> (Inl e, w)
      | Inr _ \<Rightarrow>
          let parent = (if path_parent final_path = [] then ''.'' else path_parent final_path) in
          (case fs_open_directory fs parent w of
             (Sys_failed errno, w1) \<Rightarrow> (Inl (System_error errno ''open metrics JSON directory''), w1)
           | (Sys_ok parent_fd, w1) \<Rightarrow>
               (case fs_mkstemp fs (path_append parent (''.'' @ path_filename final_path @ ''.tmp.XXXXXX'')) w1 of
                  (Inl errno, w2) \<Rightarrow>
                    (Inl (System_error errno ''create metrics JSON temporary file''),
                     fs_close fs (int parent_fd) w2)
                | (Inr (fd, temporary_path), w2) \<Rightarrow>
                    (Inr \<lparr>ao_final_path = final_path, ao_temporary_path = temporary_path,
                          ao_fd = int fd, ao_parent_directory_fd = int parent_fd,
                          ao_committed = False\<rparr>, w2))))"

definition atomic_json_destroy :: "'w file_system_calls \<Rightarrow> atomic_output_file \<Rightarrow> 'w \<Rightarrow> 'w" where
  "atomic_json_destroy = atomic_output_destroy"

text \<open>\<open>write\<close> of POSIX, with the loop that retries when it is interrupted.\<close>

type_synonym 'w plain_write = "int \<Rightarrow> byte list \<Rightarrow> 'w \<Rightarrow> syscall_result \<times> 'w"

partial_function (option) retry_plain_write ::
  "'w plain_write \<Rightarrow> int \<Rightarrow> byte list \<Rightarrow> 'w \<Rightarrow> (syscall_result \<times> 'w) option" where
  "retry_plain_write wr fd bytes w =
     (case wr fd bytes w of (r, w') \<Rightarrow>
        if r = Sys_failed EINTR then retry_plain_write wr fd bytes w' else Some (r, w'))"

text \<open>A request is at most \<open>SSIZE_MAX\<close> bytes.\<close>

definition request_bytes :: "byte list \<Rightarrow> byte list" where
  "request_bytes rest = take (nat (min (int (length rest)) 9223372036854775807)) rest"

partial_function (option) write_all_checked ::
  "'w plain_write \<Rightarrow> int \<Rightarrow> byte list \<Rightarrow> 'w \<Rightarrow> (unit res \<times> 'w) option" where
  "write_all_checked wr fd rest w =
     (if rest = [] then Some (Inr (), w)
      else
        (case retry_plain_write wr fd (request_bytes rest) w of
           None \<Rightarrow> None
         | Some (r, w') \<Rightarrow>
             (case r of
                Sys_failed errno \<Rightarrow> Some (Inl (System_error errno ''write metrics JSON temporary file''), w')
              | Sys_ok n \<Rightarrow>
                  if n = 0 then Some (Inl (System_error EIO ''write metrics JSON temporary file''), w')
                  else write_all_checked wr fd (drop n rest) w')))"

declare retry_plain_write.simps [code] write_all_checked.simps [code]

definition fsync_checked ::
  "'w posix_calls \<Rightarrow> int \<Rightarrow> string \<Rightarrow> 'w \<Rightarrow> (unit res \<times> 'w) option" where
  "fsync_checked sys fd operation w =
     (case retry_fsync (system_file_io_operations sys) fd w of
        None \<Rightarrow> None
      | Some (Sys_failed errno, w') \<Rightarrow> Some (Inl (System_error errno operation), w')
      | Some (Sys_ok _, w') \<Rightarrow> Some (Inr (), w'))"

definition text_bytes :: "string \<Rightarrow> byte list" where
  "text_bytes text = map of_char text"

definition atomic_json_publish ::
  "'w posix_calls \<Rightarrow> 'w file_system_calls \<Rightarrow> 'w plain_write \<Rightarrow> string \<Rightarrow> atomic_output_file \<Rightarrow> 'w \<Rightarrow>
     ((unit res \<times> atomic_output_file) \<times> 'w) option" where
  "atomic_json_publish sys fs wr text ao w =
     (case write_all_checked wr (ao_fd ao) (text_bytes text) w of
        None \<Rightarrow> None
      | Some (Inl e, w1) \<Rightarrow> Some ((Inl e, ao), w1)
      | Some (Inr _, w1) \<Rightarrow>
          (case fsync_checked sys (ao_fd ao) ''fsync metrics JSON temporary file'' w1 of
             None \<Rightarrow> None
           | Some (Inl e, w2) \<Rightarrow> Some ((Inl e, ao), w2)
           | Some (Inr _, w2) \<Rightarrow>
               (case fs_rename fs (ao_temporary_path ao) (ao_final_path ao) w2 of
                  (Sys_failed errno, w3) \<Rightarrow>
                    Some ((Inl (System_error errno ''rename metrics JSON temporary file''), ao), w3)
                | (Sys_ok _, w3) \<Rightarrow>
                    let ao' = ao\<lparr>ao_committed := True\<rparr> in
                    (case fsync_checked sys (ao_parent_directory_fd ao) ''fsync metrics JSON directory'' w3 of
                       None \<Rightarrow> None
                     | Some (r, w4) \<Rightarrow> Some ((r, ao'), w4)))))"

text \<open>The document is rendered before any file is touched.\<close>

definition write_metrics_json_atomic ::
  "'d double_ops \<Rightarrow> 'w posix_calls \<Rightarrow> 'w file_system_calls \<Rightarrow> 'w plain_write \<Rightarrow> string \<Rightarrow>
   registry_snapshot \<Rightarrow> 'd pipeline_run_report \<Rightarrow> 'w \<Rightarrow> (unit res \<times> 'w) option" where
  "write_metrics_json_atomic ops sys fs wr path snap report w =
     (case render_metrics_json ops snap report of
        Inl e \<Rightarrow> Some (Inl e, w)
      | Inr text \<Rightarrow>
          (case atomic_json_new fs path w of
             (Inl e, w1) \<Rightarrow> Some (Inl e, w1)
           | (Inr ao, w1) \<Rightarrow>
               (case atomic_json_publish sys fs wr text ao w1 of
                  None \<Rightarrow> None
                | Some ((r, ao'), w2) \<Rightarrow> Some (r, atomic_json_destroy fs ao' w2))))"

section \<open>What \<open>write\<close> promises\<close>

text \<open>
  On a descriptor that is written from its start on and nowhere else, \<open>write\<close> appends a prefix of the
  bytes, or fails with a non-zero error number and stores nothing; it is interrupted finitely often.
\<close>

definition append_contract :: "'w plain_write \<Rightarrow> ('w, 'k) fs_view \<Rightarrow> ('w \<Rightarrow> nat) \<Rightarrow> bool" where
  "append_contract wr v m \<longleftrightarrow>
     (\<forall>fd bytes w r w'. wr fd bytes w = (r, w') \<longrightarrow>
        m w' \<le> m w \<and> (r = Sys_failed EINTR \<longrightarrow> m w' < m w) \<and>
        fv_entry v w' fd = fv_entry v w fd \<and>
        (case r of
           Sys_failed e \<Rightarrow> e \<noteq> 0 \<and> fv_entries v w' = fv_entries v w \<and> fv_file v w' fd = fv_file v w fd
         | Sys_ok n \<Rightarrow>
             n \<le> length bytes \<and>
             (\<exists>c. fv_file v w fd = Some c \<and> fv_file v w' fd = Some (c @ take n bytes) \<and>
                fv_entries v w' = (case fv_entry v w fd of None \<Rightarrow> fv_entries v w
                                   | Some k \<Rightarrow> (fv_entries v w)(k \<mapsto> c @ take n bytes)))))"

lemma retry_plain_write_returns:
  assumes "append_contract wr v m"
  shows "temporary_open v fd t E w \<Longrightarrow> fv_file v w fd = Some c \<Longrightarrow>
    \<exists>r w'. retry_plain_write wr fd bytes w = Some (r, w') \<and> temporary_open v fd t E w' \<and>
      (case r of Sys_failed e \<Rightarrow> fv_file v w' fd = Some c
       | Sys_ok n \<Rightarrow> n \<le> length bytes \<and> fv_file v w' fd = Some (c @ take n bytes))"
proof (induction "m w" arbitrary: w rule: less_induct)
  case less
  obtain r w' where op: "wr fd bytes w = (r, w')" by (meson surj_pair)
  note C = assms [unfolded append_contract_def, rule_format, OF op]
  have kept: "temporary_open v fd t E w'"
    using C less.prems(1) by (cases r) (auto simp: temporary_open_def)
  show ?case
  proof (cases "r = Sys_failed EINTR")
    case True
    then have "retry_plain_write wr fd bytes w = retry_plain_write wr fd bytes w'"
      using op by (simp add: retry_plain_write.simps [of wr fd bytes w])
    moreover have "m w' < m w" "fv_file v w' fd = Some c" using C True less.prems(2) by auto
    ultimately show ?thesis using less.hyps [of w'] kept by simp
  next
    case False
    then have "retry_plain_write wr fd bytes w = Some (r, w')"
      using op by (simp add: retry_plain_write.simps [of wr fd bytes w])
    then show ?thesis using C less.prems(2) kept by (cases r) auto
  qed
qed

lemma write_all_checked_returns:
  assumes "append_contract wr v m"
  shows "temporary_open v fd t E w \<Longrightarrow> fv_file v w fd = Some c \<Longrightarrow>
    \<exists>r w'. write_all_checked wr fd rest w = Some (r, w') \<and> temporary_open v fd t E w' \<and>
      ((\<exists>e. r = Inl (System_error e ''write metrics JSON temporary file'')) \<or>
       r = Inr () \<and> fv_file v w' fd = Some (c @ rest))"
proof (induction "length rest" arbitrary: rest c w rule: less_induct)
  case less
  show ?case
  proof (cases "rest = []")
    case True
    then show ?thesis using less.prems by (simp add: write_all_checked.simps [of wr fd "[]" w])
  next
    case False
    obtain r w' where r: "retry_plain_write wr fd (request_bytes rest) w = Some (r, w')" "temporary_open v fd t E w'"
      "case r of Sys_failed e \<Rightarrow> fv_file v w' fd = Some c
       | Sys_ok n \<Rightarrow> n \<le> length (request_bytes rest) \<and> fv_file v w' fd = Some (c @ take n (request_bytes rest))"
      using retry_plain_write_returns [OF assms less.prems] by blast
    show ?thesis
    proof (cases r)
      case (Sys_failed e)
      then show ?thesis using r False by (simp add: write_all_checked.simps [of wr fd rest w])
    next
      case (Sys_ok n)
      show ?thesis
      proof (cases "n = 0")
        case True
        then show ?thesis using r False Sys_ok by (simp add: write_all_checked.simps [of wr fd rest w])
      next
        case pos: False
        obtain k where k: "request_bytes rest = take k rest" by (simp add: request_bytes_def)
        have cut: "take n (request_bytes rest) = take n rest"
          using r(3) Sys_ok by (simp add: k min_def split: if_splits)
        have "length (drop n rest) < length rest" using pos False by (cases rest) simp_all
        moreover have "fv_file v w' fd = Some (c @ take n rest)" using r(3) Sys_ok cut by simp
        ultimately obtain r2 w2 where "write_all_checked wr fd (drop n rest) w' = Some (r2, w2)" "temporary_open v fd t E w2"
          "(\<exists>e. r2 = Inl (System_error e ''write metrics JSON temporary file'')) \<or>
           r2 = Inr () \<and> fv_file v w2 fd = Some ((c @ take n rest) @ drop n rest)"
          using less.hyps [of "drop n rest" w' "c @ take n rest"] r(2) by blast
        then show ?thesis using r(1) False Sys_ok pos by (simp add: write_all_checked.simps [of wr fd rest w])
      qed
    qed
  qed
qed

lemma fsync_checked_returns:
  assumes "data_contract sys v" and "interrupts_bounded (system_file_io_operations sys) m"
  obtains r w' where "fsync_checked sys fd operation w = Some (r, w')" and "fv_entries v w' = fv_entries v w"
    and "fv_file v w' = fv_file v w" and "fv_entry v w' = fv_entry v w"
    and "r = Inr () \<or> (\<exists>errno. r = Inl (System_error errno operation))"
proof -
  let ?ops = "system_file_io_operations sys"
  let ?J = "\<lambda>u. fv_entries v u = fv_entries v w \<and> fv_file v u = fv_file v w \<and> fv_entry v u = fv_entry v w"
  obtain r u where r: "retry_fsync ?ops fd w = Some (r, u)"
    using retry_fsync_returns [OF assms(2), of fd w] by (metis surj_pair)
  have "fsync_keeps ?ops fd ?J" using assms(1) unfolding fsync_keeps_def data_contract_def by metis
  from retry_fsync_keeps [OF r this] have "?J u" by simp
  with r that show thesis by (cases r) (auto simp: fsync_checked_def)
qed

section \<open>Publication\<close>

lemma atomic_json_new_Inr:
  "atomic_json_new fs path w = (Inr ao, w') \<Longrightarrow> atomic_output_new fs path w = (Inr ao, w')"
  by (auto simp: atomic_json_new_def atomic_output_new_def validate_json_path_def validate_path_def Let_def
      split: sum.splits if_splits prod.splits syscall_result.splits)

lemma atomic_json_new_Inl:
  assumes "quiet_calls sys fs v" and "mkstemp_contract fs v" and "atomic_json_new fs final w = (Inl e, w')"
  shows "fv_entries v w' = fv_entries v w"
proof -
  have od: "fs_open_directory fs p w = (r, u) \<Longrightarrow> fv_entries v u = fv_entries v w" for p r u
    using assms(1) unfolding quiet_calls_def by (metis snd_conv)
  have mk: "fs_mkstemp fs p u = (Inl x, u') \<Longrightarrow> fv_entries v u' = fv_entries v u" for p u x u'
    using assms(2) unfolding mkstemp_contract_def by blast
  show ?thesis
    using assms(3) assms(1) [unfolded quiet_calls_def]
    by (auto simp: atomic_json_new_def Let_def dest!: od mk
        split: sum.splits if_splits prod.splits syscall_result.splits)
qed

abbreviation (input) json_directory_error :: "int \<Rightarrow> exn" where
  "json_directory_error errno \<equiv> System_error errno ''fsync metrics JSON directory''"

lemma publish_outcome:
  assumes data: "data_contract sys v" and link: "link_contract fs v" and wr: "append_contract wr v m"
    and intr: "interrupts_bounded (system_file_io_operations sys) m'"
    and open_tmp: "temporary_open v (ao_fd ao) t E w" and empty: "fv_file v w (ao_fd ao) = Some []"
    and t: "t = fv_key v (ao_temporary_path ao)" and k: "k = fv_key v (ao_final_path ao)" "t \<noteq> k"
  shows "\<exists>r ao' w'. atomic_json_publish sys fs wr text ao w = Some ((r, ao'), w') \<and>
    (ao' = ao \<and> (\<exists>e. r = Inl e) \<and> (\<forall>q. q \<noteq> t \<longrightarrow> fv_entries v w' q = E q) \<or>
     ao_committed ao' \<and> ao_temporary_path ao' = ao_temporary_path ao \<and>
       published v k t E (Some (text_bytes text)) w' \<and> (r = Inr () \<or> (\<exists>errno. r = Inl (json_directory_error errno))))"
proof -
  have fs: "temporary_open v fd t E u \<Longrightarrow> fv_entries v u' = fv_entries v u \<Longrightarrow> fv_file v u' = fv_file v u \<Longrightarrow>
      fv_entry v u' = fv_entry v u \<Longrightarrow> temporary_open v fd t E u'" for fd u u'
    by (simp add: temporary_open_def)
  obtain r1 w1 where w1: "write_all_checked wr (ao_fd ao) (text_bytes text) w = Some (r1, w1)"
    "temporary_open v (ao_fd ao) t E w1"
    "(\<exists>e. r1 = Inl (System_error e ''write metrics JSON temporary file'')) \<or>
      r1 = Inr () \<and> fv_file v w1 (ao_fd ao) = Some (text_bytes text)"
    using write_all_checked_returns [OF wr open_tmp empty] by fastforce
  show ?thesis
  proof (cases "\<exists>e. r1 = Inl e")
    case True
    then show ?thesis using w1 by (auto simp: atomic_json_publish_def temporary_open_def)
  next
    case False
    then have ok: "r1 = Inr ()" "fv_file v w1 (ao_fd ao) = Some (text_bytes text)" using w1(3) by auto
    obtain r2 w2 where w2: "fsync_checked sys (ao_fd ao) ''fsync metrics JSON temporary file'' w1 = Some (r2, w2)"
      "fv_entries v w2 = fv_entries v w1" "fv_file v w2 = fv_file v w1" "fv_entry v w2 = fv_entry v w1"
      by (rule fsync_checked_returns [OF data intr])
    have open2: "temporary_open v (ao_fd ao) t E w2" by (rule fs [OF w1(2) w2(2-4)])
    show ?thesis
    proof (cases r2)
      case (Inl e)
      then show ?thesis using w1 ok w2 open2 by (auto simp: atomic_json_publish_def temporary_open_def)
    next
      case (Inr u)
      obtain rn w3 where ren: "fs_rename fs (ao_temporary_path ao) (ao_final_path ao) w2 = (rn, w3)"
        by (cases "fs_rename fs (ao_temporary_path ao) (ao_final_path ao) w2")
      have law: "fv_entries v w3 = (case rn of
              Sys_ok _ \<Rightarrow> (fv_entries v w2)(t := None, k := fv_entries v w2 t)
            | Sys_failed _ \<Rightarrow> fv_entries v w2)"
        using link ren unfolding link_contract_def t k(1) by blast
      show ?thesis
      proof (cases rn)
        case (Sys_failed e)
        have "\<forall>q. q \<noteq> t \<longrightarrow> fv_entries v w3 q = E q" using open2 law Sys_failed by (simp add: temporary_open_def)
        then show ?thesis using w1 ok w2 Inr ren Sys_failed by (auto simp: atomic_json_publish_def)
      next
        case (Sys_ok n)
        have pub: "published v k t E (Some (text_bytes text)) w3"
          using law Sys_ok open2 k(2) ok(2) w2 by (auto simp: published_def temporary_open_def)
        obtain r4 w4 where w4: "fsync_checked sys (ao_parent_directory_fd ao) ''fsync metrics JSON directory'' w3 = Some (r4, w4)"
          "fv_entries v w4 = fv_entries v w3"
          "r4 = Inr () \<or> (\<exists>errno. r4 = Inl (json_directory_error errno))"
          by (rule fsync_checked_returns [OF data intr])
        have "published v k t E (Some (text_bytes text)) w4" using pub w4(2) by (simp add: published_def)
        then show ?thesis using w1 ok w2 Inr ren Sys_ok w4 by (auto simp: atomic_json_publish_def)
      qed
    qed
  qed
qed

section \<open>A document on the small file system\<close>

definition disk_append :: "disk plain_write" where
  "disk_append fd bytes d =
     (case (dk_open d fd, disk_file d fd) of
        (Some name, Some c) \<Rightarrow> (Sys_ok (length bytes), d\<lparr>dk_entries := (dk_entries d)(name \<mapsto> c @ bytes)\<rparr>)
      | _ \<Rightarrow> (Sys_failed 9, d))"

lemma disk_append_contract: "append_contract disk_append disk_view (\<lambda>_. 0)"
  by (auto simp: append_contract_def disk_append_def disk_view_def disk_file_def split: option.splits)

lemma write_json_outcome:
  assumes "fs_contract sys fs v" and "append_contract wr v m"
    and "interrupts_bounded (system_file_io_operations sys) m'"
  shows "\<exists>r w'. write_metrics_json_atomic ops sys fs wr path snap report w = Some (r, w') \<and>
    (\<forall>q. q \<noteq> fv_key v path \<longrightarrow> fv_entries v w q \<noteq> None \<longrightarrow> fv_entries v w' q = fv_entries v w q) \<and>
    (case r of
       Inr _ \<Rightarrow>
         (\<exists>text. render_metrics_json ops snap report = Inr text \<and>
            fv_entries v w' (fv_key v path) = Some (text_bytes text)) \<and>
         (\<forall>q. q \<noteq> fv_key v path \<longrightarrow> fv_entries v w' q = fv_entries v w q)
     | Inl e \<Rightarrow>
         ((\<exists>e'. render_metrics_json ops snap report = Inl e') \<longrightarrow> w' = w) \<and>
         (fv_entries v w' (fv_key v path) = fv_entries v w (fv_key v path) \<or> (\<exists>errno. e = json_directory_error errno)) \<and>
         ((\<forall>p u. \<exists>n. fst (fs_unlink fs p u) = Sys_ok n) \<longrightarrow>
            (\<forall>q. q \<noteq> fv_key v path \<longrightarrow> fv_entries v w' q = fv_entries v w q)))"
proof -
  have q: "quiet_calls sys fs v" and l: "link_contract fs v" and mk: "mkstemp_contract fs v" and d: "data_contract sys v"
    using assms(1) by (simp_all add: fs_contract_def)
  show ?thesis
  proof (cases "render_metrics_json ops snap report")
    case (Inl e)
    then show ?thesis by (simp add: write_metrics_json_atomic_def)
  next
    case rendered: (Inr doc)
    obtain na w1 where na: "atomic_json_new fs path w = (na, w1)" by (meson surj_pair)
    show ?thesis
    proof (cases na)
      case (Inl e)
      with rendered na atomic_json_new_Inl [OF q mk] show ?thesis by (simp add: write_metrics_json_atomic_def)
    next
      case (Inr ao)
      note new = atomic_output_new_Inr [OF q mk l atomic_json_new_Inr [OF na [unfolded Inr]]]
      let ?t = "fv_key v (ao_temporary_path ao)" and ?k = "fv_key v path"
      have k: "?k = fv_key v (ao_final_path ao)" using new(4) by simp
      from publish_outcome [OF d l assms(2,3) new(3) new(7) refl k new(1), of doc] obtain r ao' w2 where
        pub: "atomic_json_publish sys fs wr doc ao w1 = Some ((r, ao'), w2)"
        and out: "ao' = ao \<and> (\<exists>e. r = Inl e) \<and> (\<forall>q. q \<noteq> ?t \<longrightarrow> fv_entries v w2 q = fv_entries v w q) \<or>
          ao_committed ao' \<and> ao_temporary_path ao' = ao_temporary_path ao \<and>
          published v ?k ?t (fv_entries v w) (Some (text_bytes doc)) w2 \<and>
          (r = Inr () \<or> (\<exists>errno. r = Inl (json_directory_error errno)))" by blast
      have run: "write_metrics_json_atomic ops sys fs wr path snap report w = Some (r, atomic_output_destroy fs ao' w2)"
        using rendered na Inr pub by (simp add: write_metrics_json_atomic_def atomic_json_destroy_def)
      from out show ?thesis
      proof
        assume failed: "ao' = ao \<and> (\<exists>e. r = Inl e) \<and> (\<forall>q. q \<noteq> ?t \<longrightarrow> fv_entries v w2 q = fv_entries v w q)"
        then have wd: "withdrawn fs v ?t (fv_entries v w) (atomic_output_destroy fs ao' w2)"
          using withdraw [OF q l new(5,6), of w2] by blast
        moreover have "fv_entries v (atomic_output_destroy fs ao' w2) ?k = fv_entries v w ?k"
          using wd new(1) by (simp add: withdrawn_def)
        ultimately show ?thesis using run failed rendered withdrawn_entries [OF wd new(2)] by auto
      next
        assume p: "ao_committed ao' \<and> ao_temporary_path ao' = ao_temporary_path ao \<and>
          published v ?k ?t (fv_entries v w) (Some (text_bytes doc)) w2 \<and>
          (r = Inr () \<or> (\<exists>errno. r = Inl (json_directory_error errno)))"
        then have same: "fv_entries v (atomic_output_destroy fs ao' w2) = fv_entries v w2"
          using destroy_committed [OF q] by blast
        have "fv_entries v w2 q = fv_entries v w q" if "q \<noteq> ?k" for q
          using p that new(2) by (cases "q = ?t") (simp_all add: published_def)
        moreover have "fv_entries v w2 ?k = Some (text_bytes doc)" using p by (simp add: published_def)
        ultimately show ?thesis using run p rendered same by auto
      qed
    qed
  qed
qed

section \<open>Properties\<close>

text \<open>
  C33: The metrics document is published atomically. \<open>write_metrics_json_atomic\<close> returns; a success
  means that the path holds exactly the rendered text and nothing else has changed; a document that
  cannot be rendered touches no file; and on every failure no entry that existed is damaged: the path
  keeps its old contents unless only the last fsync of the directory failed, and the temporary entry
  is gone if \<open>unlink\<close> works. Short writes and interruptions change nothing of this.
\<close>

theorem metrics_json_atomic:
  assumes "fs_contract sys fs v" and "append_contract wr v m"
    and "interrupts_bounded (system_file_io_operations sys) m'"
  shows "\<exists>r w'. write_metrics_json_atomic ops sys fs wr path snap report w = Some (r, w') \<and>
    (\<forall>q. q \<noteq> fv_key v path \<longrightarrow> fv_entries v w q \<noteq> None \<longrightarrow> fv_entries v w' q = fv_entries v w q) \<and>
    (case r of
       Inr _ \<Rightarrow>
         (\<exists>text. render_metrics_json ops snap report = Inr text \<and>
            fv_entries v w' (fv_key v path) = Some (text_bytes text)) \<and>
         (\<forall>q. q \<noteq> fv_key v path \<longrightarrow> fv_entries v w' q = fv_entries v w q)
     | Inl e \<Rightarrow>
         ((\<exists>e'. render_metrics_json ops snap report = Inl e') \<longrightarrow> w' = w) \<and>
         (fv_entries v w' (fv_key v path) = fv_entries v w (fv_key v path) \<or> (\<exists>errno. e = json_directory_error errno)) \<and>
         ((\<forall>p u. \<exists>n. fst (fs_unlink fs p u) = Sys_ok n) \<longrightarrow>
            (\<forall>q. q \<noteq> fv_key v path \<longrightarrow> fv_entries v w' q = fv_entries v w q)))"
  by (rule write_json_outcome [OF assms])

lemma disk_write_all:
  "dk_open d fd = Some name \<Longrightarrow> dk_entries d name \<noteq> None \<Longrightarrow> \<exists>d'. write_all_checked disk_append fd rest d = Some (Inr (), d')"
proof (induction "length rest" arbitrary: rest d rule: less_induct)
  case less
  obtain c where c: "dk_entries d name = Some c" using less.prems(2) by auto
  show ?case
  proof (cases "rest = []")
    case True
    then show ?thesis by (simp add: write_all_checked.simps [of disk_append fd "[]" d])
  next
    case False
    let ?n = "length (request_bytes rest)" and ?d = "d\<lparr>dk_entries := (dk_entries d)(name \<mapsto> c @ request_bytes rest)\<rparr>"
    have n: "?n \<noteq> 0" "length (drop ?n rest) < length rest"
      using False by (cases rest; simp add: request_bytes_def min_def)+
    have "retry_plain_write disk_append fd (request_bytes rest) d = Some (Sys_ok ?n, ?d)"
      using less.prems c by (simp add: retry_plain_write.simps [of disk_append fd _ d] disk_append_def disk_file_def)
    moreover obtain d' where "write_all_checked disk_append fd (drop ?n rest) ?d = Some (Inr (), d')"
      using less.hyps [OF n(2), of ?d] less.prems by auto
    ultimately show ?thesis using False n(1) by (simp add: write_all_checked.simps [of disk_append fd rest d])
  qed
qed

lemma disk_publish:
  "\<exists>w'. write_metrics_json_atomic whole_doubles disk_posix disk_calls disk_append ''out'' small_snapshot
     small_report example_disk = Some (Inr (), w')"
proof -
  have fsync: "fsync_checked disk_posix fd operation d = Some (Inr (), d)" for fd operation d
    by (simp add: fsync_checked_def retry_fsync.simps disk_ops)
  let ?d = "example_disk\<lparr>dk_entries := (dk_entries example_disk)(''.out.tmp.aaaaaa'' \<mapsto> []),
    dk_open := (dk_open example_disk)(4 \<mapsto> ''.out.tmp.aaaaaa'')\<rparr>"
  have new: "atomic_json_new disk_calls ''out'' example_disk =
      (Inr \<lparr>ao_final_path = ''out'', ao_temporary_path = ''./.out.tmp.aaaaaa'', ao_fd = 4,
         ao_parent_directory_fd = 5, ao_committed = False\<rparr>, ?d)"
    by (simp add: atomic_json_new_def validate_json_path_def validate_path_def disk_calls_def disk_mkstemp_def
        path_filename_def path_parent_def path_append_def example_disk_def Let_def)
  obtain d' where w: "write_all_checked disk_append 4 (text_bytes (metrics_json_text whole_doubles small_snapshot
      small_report 16)) ?d = Some (Inr (), d')"
    using disk_write_all [of ?d 4 "''.out.tmp.aaaaaa''"] by auto
  obtain d2 where ren: "fs_rename disk_calls ''./.out.tmp.aaaaaa'' ''out'' d' = (Sys_ok 0, d2)" by (simp add: disk_calls_def)
  have "\<exists>ao'. atomic_json_publish disk_posix disk_calls disk_append (metrics_json_text whole_doubles small_snapshot small_report 16)
      \<lparr>ao_final_path = ''out'', ao_temporary_path = ''./.out.tmp.aaaaaa'', ao_fd = 4,
         ao_parent_directory_fd = 5, ao_committed = False\<rparr> ?d = Some ((Inr (), ao'), d2)"
    by (simp add: atomic_json_publish_def w fsync ren Let_def)
  then show ?thesis by (auto simp: write_metrics_json_atomic_def small_render new)
qed

theorem metrics_json_atomic_witness:
  "\<exists>w'. write_metrics_json_atomic whole_doubles disk_posix disk_calls disk_append ''out'' small_snapshot small_report
       example_disk = Some (Inr (), w') \<and>
     dk_entries w' ''out'' = Some (text_bytes (metrics_json_text whole_doubles small_snapshot small_report 16)) \<and>
     dk_entries w' ''in'' = Some [1, 2, 255]"
proof -
  have key: "fv_key disk_view ''out'' = ''out''" by (simp add: disk_view_def path_filename_def)
  obtain w' where w': "write_metrics_json_atomic whole_doubles disk_posix disk_calls disk_append
      ''out'' small_snapshot small_report example_disk = Some (Inr (), w')" using disk_publish by blast
  from metrics_json_atomic [OF disk_contract disk_append_contract disk_interrupts, of whole_doubles "''out''"
      small_snapshot small_report example_disk] w' small_render
  show ?thesis unfolding key by (simp add: disk_view_def) (simp add: example_disk_def)
qed

end
