(* ===== verification/Command_Line.thy ===== *)
theory Command_Line
  imports Backends Pipeline_Config Json_Text
begin

text \<open>
  The options of the command-line programs: \<open>parse_positive_size\<close>
  (\<open>include/benchmark/benchmark_cli.h\<close>) and the option parser of
  \<open>examples/preprocess_pipeline_demo.cpp\<close>. Arguments are character lists without a null byte.
\<close>

section \<open>std::from_chars\<close>

text \<open>
  The overload for \<open>size_t\<close> in base ten: the longest sequence of digits from the start on, no sign
  and no space. The result is the rest of the text, the error code and the stored value, which
  only a success changes.
\<close>

datatype chars_error = Chars_ok | Chars_invalid | Chars_out_of_range

definition from_chars :: "string \<Rightarrow> size_t \<Rightarrow> string \<times> chars_error \<times> size_t" where
  "from_chars text value =
     (let digits = takeWhile is_digit text; rest = dropWhile is_digit text in
      if digits = [] then (text, Chars_invalid, value)
      else if 2 ^ 64 \<le> read_decimal digits then (rest, Chars_out_of_range, value)
      else (rest, Chars_ok, of_nat (read_decimal digits)))"

section \<open>parse_positive_size\<close>

definition kMaxBenchmarkIterations :: size_t where "kMaxBenchmarkIterations = 1000000"

definition kMaxBenchmarkBlockSize :: size_t where "kMaxBenchmarkBlockSize = 1 * 1024 * 1024 * 1024"

definition parse_positive_size :: "string \<Rightarrow> size_t \<Rightarrow> size_t \<Rightarrow> bool \<times> size_t" where
  "parse_positive_size text maximum value =
     (if text = [] \<or> maximum = 0 then (False, value)
      else
        (case from_chars text 0 of (rest, error, parsed) \<Rightarrow>
           if error \<noteq> Chars_ok \<or> rest \<noteq> [] \<or> parsed = 0 \<or> maximum < parsed then (False, value)
           else (True, parsed)))"

section \<open>preprocess_pipeline_demo\<close>

record demo_options =
  op_input_path :: string
  op_output_path :: string
  op_pipeline :: pipeline_config
  op_backend_kind :: backend_kind
  op_thread_workers :: size_t
  op_report_interval_ms :: size_t
  op_metrics_json_path :: "string option"
  op_disable_uring :: bool
  op_disable_thread_pool :: bool

definition default_options :: "string \<Rightarrow> string \<Rightarrow> demo_options" where
  "default_options input output =
     \<lparr>op_input_path = input, op_output_path = output, op_pipeline = default_config,
      op_backend_kind = Auto, op_thread_workers = 2, op_report_interval_ms = 250,
      op_metrics_json_path = None, op_disable_uring = False, op_disable_thread_pool = False\<rparr>"

definition parse_size :: "string \<Rightarrow> string \<Rightarrow> bool \<Rightarrow> size_t res" where
  "parse_size text option_text allow_zero =
     (case from_chars text 0 of (rest, error, value) \<Rightarrow>
        if error \<noteq> Chars_ok \<or> rest \<noteq> [] \<or> (\<not> allow_zero \<and> value = 0) then
          Inl (Invalid_argument (option_text @ '' requires '' @
            (if allow_zero then ''a non-negative'' else ''a positive'') @ '' integer''))
        else Inr value)"

definition parse_backend :: "string \<Rightarrow> backend_kind res" where
  "parse_backend value =
     (if value = ''auto'' then Inr Auto
      else if value = ''uring'' then Inr Uring
      else if value = ''threadpool'' then Inr ThreadPool
      else if value = ''sync'' then Inr Sync
      else Inl (Invalid_argument ''--backend must be auto, uring, threadpool, or sync''))"

fun backend_name :: "backend_kind \<Rightarrow> string" where
  "backend_name Auto = ''auto''"
| "backend_name Uring = ''uring''"
| "backend_name ThreadPool = ''threadpool''"
| "backend_name Sync = ''sync''"
| "backend_name (Unknown_kind _) = ''unknown''"

text \<open>\<open>starts_with\<close> and the \<open>substr\<close> behind the prefix.\<close>

definition starts_with :: "string \<Rightarrow> string \<Rightarrow> bool" where
  "starts_with argument prefix \<longleftrightarrow> take (length prefix) argument = prefix"

definition behind :: "string \<Rightarrow> string \<Rightarrow> string" where
  "behind prefix argument = drop (length prefix) argument"

definition set_size ::
  "string \<Rightarrow> string \<Rightarrow> string \<Rightarrow> bool \<Rightarrow> (size_t \<Rightarrow> demo_options) \<Rightarrow> demo_options res" where
  "set_size argument prefix option_text allow_zero store =
     (case parse_size (behind prefix argument) option_text allow_zero of
        Inl e \<Rightarrow> Inl e
      | Inr value \<Rightarrow> Inr (store value))"

text \<open>One iteration of the loop over the arguments.\<close>

definition parse_argument :: "string \<Rightarrow> demo_options \<Rightarrow> demo_options res" where
  "parse_argument argument options =
     (if starts_with argument ''--backend='' then
        (case parse_backend (behind ''--backend='' argument) of
           Inl e \<Rightarrow> Inl e
         | Inr kind \<Rightarrow> Inr (options\<lparr>op_backend_kind := kind\<rparr>))
      else if starts_with argument ''--block-size='' then
        set_size argument ''--block-size='' ''--block-size'' False
          (\<lambda>v. options\<lparr>op_pipeline := (op_pipeline options)\<lparr>block_size := v\<rparr>\<rparr>)
      else if starts_with argument ''--buffers='' then
        set_size argument ''--buffers='' ''--buffers'' False
          (\<lambda>v. options\<lparr>op_pipeline := (op_pipeline options)\<lparr>max_inflight_buffers := v\<rparr>\<rparr>)
      else if starts_with argument ''--queue-depth='' then
        set_size argument ''--queue-depth='' ''--queue-depth'' False
          (\<lambda>v. options\<lparr>op_pipeline := (op_pipeline options)\<lparr>queue_depth := v\<rparr>\<rparr>)
      else if starts_with argument ''--alignment='' then
        set_size argument ''--alignment='' ''--alignment'' False
          (\<lambda>v. options\<lparr>op_pipeline := (op_pipeline options)\<lparr>buffer_alignment := v\<rparr>\<rparr>)
      else if starts_with argument ''--thread-workers='' then
        set_size argument ''--thread-workers='' ''--thread-workers'' False
          (\<lambda>v. options\<lparr>op_thread_workers := v\<rparr>)
      else if starts_with argument ''--report-ms='' then
        set_size argument ''--report-ms='' ''--report-ms'' True
          (\<lambda>v. options\<lparr>op_report_interval_ms := v\<rparr>)
      else if starts_with argument ''--metrics-json='' then
        (let path = behind ''--metrics-json='' argument in
         if path = [] then Inl (Invalid_argument ''--metrics-json requires a non-empty path'')
         else Inr (options\<lparr>op_metrics_json_path := Some path\<rparr>))
      else if argument = ''--disable-uring'' then Inr (options\<lparr>op_disable_uring := True\<rparr>)
      else if argument = ''--disable-threadpool'' then Inr (options\<lparr>op_disable_thread_pool := True\<rparr>)
      else Inl (Invalid_argument (''unknown option: '' @ argument)))"

fun parse_arguments :: "string list \<Rightarrow> demo_options \<Rightarrow> demo_options res" where
  "parse_arguments [] options = Inr options"
| "parse_arguments (argument # rest) options =
     (case parse_argument argument options of
        Inl e \<Rightarrow> Inl e
      | Inr options' \<Rightarrow> parse_arguments rest options')"

text \<open>
  The checks behind the loop. \<open>unsigned\<close> has 32 bits; \<open>milliseconds\<close> counts in a signed 64-bit
  integer.
\<close>

definition check_options :: "demo_options \<Rightarrow> demo_options res" where
  "check_options options =
     (case validate (op_pipeline options) of
        Inl e \<Rightarrow> Inl e
      | Inr _ \<Rightarrow>
          if op_backend_kind options \<noteq> Auto \<and> (op_disable_uring options \<or> op_disable_thread_pool options) then
            Inl (Invalid_argument ''backend disable switches are only valid with --backend=auto'')
          else if 4294967295 < max_inflight_buffers (op_pipeline options) then
            Inl (Invalid_argument ''--buffers exceeds the io_uring queue-depth range'')
          else if 9223372036854775807 < op_report_interval_ms options then
            Inl (Invalid_argument ''--report-ms is too large'')
          else Inr options)"

definition parse_options :: "string list \<Rightarrow> demo_options res" where
  "parse_options argv =
     (case argv of
        program # input # output # rest \<Rightarrow>
          (case parse_arguments rest (default_options input output) of
             Inl e \<Rightarrow> Inl e
           | Inr options \<Rightarrow> check_options options)
      | _ \<Rightarrow> Inl (Invalid_argument ''INPUT and OUTPUT paths are required''))"

definition usage_lines :: "string list" where
  "usage_lines =
     ['' INPUT OUTPUT [options]'', ''Options:'',
      ''  --backend=auto|uring|threadpool|sync'',
      ''  --block-size=BYTES'',
      ''  --buffers=COUNT'',
      ''  --queue-depth=COUNT'',
      ''  --alignment=BYTES'',
      ''  --thread-workers=COUNT'',
      ''  --report-ms=MILLISECONDS  (0 disables live lines)'',
      ''  --metrics-json=PATH        (optional final snapshot)'',
      ''  --disable-uring            (Auto mode only)'',
      ''  --disable-threadpool       (Auto mode only)'']"

definition print_usage :: "string \<Rightarrow> string" where
  "print_usage program = ''Usage: '' @ program @ concat (map (\<lambda>l. l @ [CHR 0x0A]) usage_lines)"

section \<open>What the parser accepts\<close>

definition options_ok :: "demo_options \<Rightarrow> bool" where
  "options_ok options \<longleftrightarrow>
     validate (op_pipeline options) = Inr () \<and>
     op_backend_kind options \<in> {Auto, Uring, ThreadPool, Sync} \<and>
     (op_disable_uring options \<or> op_disable_thread_pool options \<longrightarrow> op_backend_kind options = Auto) \<and>
     op_thread_workers options \<noteq> 0 \<and> op_metrics_json_path options \<noteq> Some [] \<and>
     unat (max_inflight_buffers (op_pipeline options)) < 2 ^ 32 \<and>
     unat (op_report_interval_ms options) < 2 ^ 63"

text \<open>The arguments that set every option.\<close>

definition size_argument :: "string \<Rightarrow> size_t \<Rightarrow> string" where
  "size_argument prefix value = prefix @ decimal (unat value)"

definition text_argument :: "string \<Rightarrow> string \<Rightarrow> string" where
  "text_argument prefix value = prefix @ value"

definition flag_arguments :: "demo_options \<Rightarrow> string list" where
  "flag_arguments options =
     (case op_metrics_json_path options of None \<Rightarrow> [] | Some path \<Rightarrow> [text_argument ''--metrics-json='' path]) @
     (if op_disable_uring options then [''--disable-uring''] else []) @
     (if op_disable_thread_pool options then [''--disable-threadpool''] else [])"

definition command_line :: "demo_options \<Rightarrow> string list" where
  "command_line options =
     op_input_path options # op_output_path options #
     text_argument ''--backend='' (backend_name (op_backend_kind options)) #
     size_argument ''--block-size='' (block_size (op_pipeline options)) #
     size_argument ''--buffers='' (max_inflight_buffers (op_pipeline options)) #
     size_argument ''--queue-depth='' (queue_depth (op_pipeline options)) #
     size_argument ''--alignment='' (buffer_alignment (op_pipeline options)) #
     size_argument ''--thread-workers='' (op_thread_workers options) #
     size_argument ''--report-ms='' (op_report_interval_ms options) #
     flag_arguments options"

lemma is_digit_decimal: "list_all is_digit (decimal n)"
  using decimal_digits [of _ n] by (fastforce simp: list_all_iff is_digit_def of_char_digit)

lemma from_chars_decimal: "from_chars (decimal (unat v)) w = ([], Chars_ok, v)"
proof -
  have digits: "takeWhile is_digit (decimal (unat v)) = decimal (unat v)" "dropWhile is_digit (decimal (unat v)) = []"
    using is_digit_decimal by (auto simp: takeWhile_eq_all_conv dropWhile_eq_Nil_conv list_all_iff)
  have "unat v < 2 ^ 64" using unsigned_less [of v] by simp
  then show ?thesis unfolding from_chars_def Let_def digits by (simp add: read_decimal_decimal)
qed

lemma parse_size_decimal: "allow_zero \<or> v \<noteq> 0 \<Longrightarrow> parse_size (decimal (unat v)) name allow_zero = Inr v"
  by (auto simp: parse_size_def from_chars_decimal)

lemma parse_backend_name: "kind \<in> {Auto, Uring, ThreadPool, Sync} \<Longrightarrow> parse_backend (backend_name kind) = Inr kind"
  by (auto simp: parse_backend_def)

lemma parse_argument_simps:
  "parse_argument (text_argument ''--backend='' t) o' =
     (case parse_backend t of Inl e \<Rightarrow> Inl e | Inr kind \<Rightarrow> Inr (o'\<lparr>op_backend_kind := kind\<rparr>))"
  "parse_argument (text_argument ''--metrics-json='' t) o' =
     (if t = [] then Inl (Invalid_argument ''--metrics-json requires a non-empty path'')
      else Inr (o'\<lparr>op_metrics_json_path := Some t\<rparr>))"
  "parse_argument ''--disable-uring'' o' = Inr (o'\<lparr>op_disable_uring := True\<rparr>)"
  "parse_argument ''--disable-threadpool'' o' = Inr (o'\<lparr>op_disable_thread_pool := True\<rparr>)"
  by (simp_all add: text_argument_def parse_argument_def starts_with_def behind_def)

lemma parse_size_argument:
  "v \<noteq> 0 \<Longrightarrow> parse_argument (size_argument ''--block-size='' v) o' =
     Inr (o'\<lparr>op_pipeline := (op_pipeline o')\<lparr>block_size := v\<rparr>\<rparr>)"
  "v \<noteq> 0 \<Longrightarrow> parse_argument (size_argument ''--buffers='' v) o' =
     Inr (o'\<lparr>op_pipeline := (op_pipeline o')\<lparr>max_inflight_buffers := v\<rparr>\<rparr>)"
  "v \<noteq> 0 \<Longrightarrow> parse_argument (size_argument ''--queue-depth='' v) o' =
     Inr (o'\<lparr>op_pipeline := (op_pipeline o')\<lparr>queue_depth := v\<rparr>\<rparr>)"
  "v \<noteq> 0 \<Longrightarrow> parse_argument (size_argument ''--alignment='' v) o' =
     Inr (o'\<lparr>op_pipeline := (op_pipeline o')\<lparr>buffer_alignment := v\<rparr>\<rparr>)"
  "v \<noteq> 0 \<Longrightarrow> parse_argument (size_argument ''--thread-workers='' v) o' = Inr (o'\<lparr>op_thread_workers := v\<rparr>)"
  "parse_argument (size_argument ''--report-ms='' v) o' = Inr (o'\<lparr>op_report_interval_ms := v\<rparr>)"
  by (simp_all add: size_argument_def parse_argument_def set_size_def starts_with_def behind_def parse_size_decimal)

lemma set_size_Inr:
  assumes "set_size argument prefix name allow_zero store = Inr options"
  obtains v where "options = store v" and "allow_zero \<or> v \<noteq> 0"
  using assms by (auto simp: set_size_def parse_size_def split: if_splits sum.splits prod.splits)

lemma parse_backend_Inr: "parse_backend t = Inr kind \<Longrightarrow> kind \<in> {Auto, Uring, ThreadPool, Sync}"
  by (auto simp: parse_backend_def split: if_splits)

definition parsed_ok :: "demo_options \<Rightarrow> bool" where
  "parsed_ok options \<longleftrightarrow>
     op_backend_kind options \<in> {Auto, Uring, ThreadPool, Sync} \<and>
     op_thread_workers options \<noteq> 0 \<and> op_metrics_json_path options \<noteq> Some []"

lemma argument_cases: "(if b then x else y) = z \<Longrightarrow> (x = z \<Longrightarrow> P) \<Longrightarrow> (y = z \<Longrightarrow> P) \<Longrightarrow> P"
  by (simp split: if_splits)

lemma parse_argument_keeps:
  "parse_argument argument options = Inr options' \<Longrightarrow> parsed_ok options \<Longrightarrow> parsed_ok options'"
  unfolding parse_argument_def
  by (elim argument_cases set_size_Inr) (auto simp: parsed_ok_def Let_def dest: parse_backend_Inr split: if_splits sum.splits)

lemma parse_arguments_keeps:
  "parse_arguments arguments options = Inr options' \<Longrightarrow> parsed_ok options \<Longrightarrow> parsed_ok options'"
proof (induction arguments arbitrary: options)
  case (Cons argument arguments)
  then show ?case by (auto split: sum.splits dest: parse_argument_keeps)
qed simp

lemma check_options_exact:
  "check_options options = Inr options' \<longleftrightarrow>
     options' = options \<and> validate (op_pipeline options) = Inr () \<and>
     (op_disable_uring options \<or> op_disable_thread_pool options \<longrightarrow> op_backend_kind options = Auto) \<and>
     unat (max_inflight_buffers (op_pipeline options)) < 2 ^ 32 \<and> unat (op_report_interval_ms options) < 2 ^ 63"
  by (auto simp: check_options_def word_less_nat_alt split: sum.split)

lemma validate_positive:
  "validate c = Inr u \<Longrightarrow> block_size c \<noteq> 0 \<and> max_inflight_buffers c \<noteq> 0 \<and> queue_depth c \<noteq> 0 \<and> buffer_alignment c \<noteq> 0"
  by (auto simp: validate_def is_power_of_two_def split: if_splits)

lemma parse_flags:
  assumes "op_metrics_json_path options \<noteq> Some []"
  shows "parse_arguments (flag_arguments options)
      \<lparr>op_input_path = i, op_output_path = u, op_pipeline = c, op_backend_kind = kind, op_thread_workers = n,
        op_report_interval_ms = ms, op_metrics_json_path = None, op_disable_uring = False,
        op_disable_thread_pool = False\<rparr> =
    Inr \<lparr>op_input_path = i, op_output_path = u, op_pipeline = c, op_backend_kind = kind, op_thread_workers = n,
        op_report_interval_ms = ms, op_metrics_json_path = op_metrics_json_path options,
        op_disable_uring = op_disable_uring options, op_disable_thread_pool = op_disable_thread_pool options\<rparr>"
  using assms by (cases "op_metrics_json_path options") (simp_all add: flag_arguments_def parse_argument_simps)

lemma parse_command_line:
  assumes "options_ok options"
  shows "parse_options (program # command_line options) = Inr options"
proof -
  let ?c = "op_pipeline options"
  have ok: "block_size ?c \<noteq> 0" "max_inflight_buffers ?c \<noteq> 0" "queue_depth ?c \<noteq> 0" "buffer_alignment ?c \<noteq> 0"
    "op_thread_workers options \<noteq> 0" "op_metrics_json_path options \<noteq> Some []"
    using assms validate_positive by (auto simp: options_ok_def)
  have kind: "parse_backend (backend_name (op_backend_kind options)) = Inr (op_backend_kind options)"
    using assms by (intro parse_backend_name) (simp add: options_ok_def)
  have config: "default_config\<lparr>block_size := block_size ?c, max_inflight_buffers := max_inflight_buffers ?c,
      queue_depth := queue_depth ?c, buffer_alignment := buffer_alignment ?c\<rparr> = ?c"
    by (cases ?c) (simp add: default_config_def)
  show ?thesis
    using assms
    by (simp add: config parse_options_def command_line_def default_options_def parse_argument_simps parse_size_argument ok kind
        parse_flags [OF ok(6)] check_options_exact options_ok_def del: backend_name.simps)
qed

lemma parse_options_ok:
  assumes "parse_options argv = Inr options"
  shows "options_ok options"
proof -
  from assms obtain i out rest o' where a: "argv = hd argv # i # out # rest"
    "parse_arguments rest (default_options i out) = Inr o'" "check_options o' = Inr options"
    by (auto simp: parse_options_def split: list.splits sum.splits)
  from parse_arguments_keeps [OF a(2)] a(3) show ?thesis
    by (auto simp: check_options_exact options_ok_def parsed_ok_def default_options_def)
qed

text \<open>
  C32: The option parser of the demo accepts exactly the meaningful options, and loses none. Some
  argument list is parsed to given options if and only if their configuration is valid, the backend
  kind is one of the four, the disable switches come with \<open>auto\<close> only, worker count and JSON path are
  not empty, and the buffer count and the report interval fit the 32-bit queue depth of io_uring and
  the signed milliseconds they are converted to; and the arguments that print the options are parsed
  back to them.
\<close>

theorem parse_options_exact:
  "((\<exists>argv. parse_options argv = Inr options) \<longleftrightarrow> options_ok options) \<and>
   (parse_options (program # command_line options) = Inr options \<longleftrightarrow> options_ok options)"
  using parse_options_ok parse_command_line by blast

end
