(* ===== verification/File_Views.thy ===== *)
theory File_Views
  imports Serial_Reference Atomic_Output
begin

text \<open>
  What the programs that open and compare files rely on, over the view of a file system of
  \<open>Atomic_Output\<close>: opening and reading, and that the comparison of two files changes nothing.
\<close>

section \<open>Opening and reading\<close>

text \<open>
  Opening a path for reading yields a descriptor for the file behind its entry, which has fewer than
  \<open>2 ^ 64\<close> bytes, and leaves the other descriptors alone; \<open>pread\<close> reads the file behind its descriptor
  and changes nothing.
\<close>

definition opening_contract :: "'w posix_calls \<Rightarrow> ('w, 'k) fs_view \<Rightarrow> bool" where
  "opening_contract sys v \<longleftrightarrow>
     (\<forall>path w r w'. open_read_only sys path w = (r, w') \<longrightarrow> of_error_number r = 0 \<longrightarrow>
        (\<exists>c. fv_entries v w (fv_key v path) = Some c \<and> fv_file v w' (of_fd r) = Some c \<and> length c < 2 ^ 64) \<and>
        (\<forall>fd c. fv_file v w fd = Some c \<longrightarrow> fv_file v w' fd = Some c))"

definition reading_contract :: "'w posix_calls \<Rightarrow> ('w, 'k) fs_view \<Rightarrow> bool" where
  "reading_contract sys v \<longleftrightarrow>
     (\<forall>fd n off w r w'. op_read_at (system_file_io_operations sys) fd n off w = (r, w') \<longrightarrow>
        fv_entries v w' = fv_entries v w \<and> fv_file v w' = fv_file v w \<and>
        (case fv_file v w fd of None \<Rightarrow> (\<exists>e. r = Read_failed e \<and> e \<noteq> 0) | Some c \<Rightarrow> pread_effect c n off r))"

definition open_contents :: "('w, 'k) fs_view \<Rightarrow> int \<Rightarrow> 'w \<Rightarrow> byte list" where
  "open_contents v fd w = (case fv_file v w fd of None \<Rightarrow> [] | Some c \<Rightarrow> c)"

lemma reading_two_inputs:
  assumes "reading_contract sys v" and "interrupts_bounded (system_file_io_operations sys) m"
  shows "two_inputs sys ifd ofd (open_contents v ifd) (open_contents v ofd)"
proof -
  have "pread_contract (system_file_io_operations sys) fd (open_contents v fd)" for fd
    unfolding pread_contract_def
  proof (intro allI impI)
    fix n off w r w' assume "op_read_at (system_file_io_operations sys) fd n off w = (r, w')"
    from assms(1) [unfolded reading_contract_def, rule_format, OF this]
    show "open_contents v fd w' = open_contents v fd w \<and> pread_effect (open_contents v fd w) n off r"
      by (cases "fv_file v w fd") (auto simp: open_contents_def)
  qed
  moreover have "open_contents v fd w' = open_contents v fd w"
    if "op_read_at (system_file_io_operations sys) fd' n off w = (r, w')" for fd fd' n off w r w'
    using assms(1) [unfolded reading_contract_def, rule_format, OF that] by (simp add: open_contents_def)
  ultimately show ?thesis using assms(2) unfolding two_inputs_def by blast
qed

lemma read_at_keeps:
  assumes "reading_contract sys v" and "read_at sys fd n off w = Some (r, w')"
  shows "fv_entries v w' = fv_entries v w"
proof -
  let ?ops = "system_file_io_operations sys"
  have keep: "op_read_at ?ops fd n off w = (r, w') \<Longrightarrow> fv_entries v w' = fv_entries v w" for n off w r w'
    using assms(1) unfolding reading_contract_def by blast
  obtain r' where r': "retry_read ?ops fd n off w = Some (r', w')"
    using assms(2) by (auto simp: read_at_def read_at_with_def split: option.splits syscall_read.splits)
  obtain u where u: "interrupted_reads ?ops fd n off w u" "op_read_at ?ops fd n off u = (r', w')"
    using retry_read_sound [OF r'] by blast
  have "fv_entries v u = fv_entries v w" by (rule interrupted_reads_keep [OF keep u(1)])
  with keep [OF u(2)] show ?thesis by simp
qed

lemma verify_loop_keeps:
  assumes "verify_loop sys n lfd rfd off w = Some (r, w')" and "reading_contract sys v"
  shows "fv_entries v w' = fv_entries v w"
proof -
  let ?Q = "\<lambda>sys n lfd rfd off w rw. reading_contract sys v \<longrightarrow> fv_entries v (snd rw) = fv_entries v w"
  have "?Q sys n lfd rfd off w (r, w')"
    by (rule verify_loop.raw_induct [where P = ?Q, OF _ assms(1)])
      (auto simp: Let_def split: option.splits if_splits sum.splits dest!: read_at_keeps [rotated])
  with assms(2) show ?thesis by simp
qed

text \<open>Opening and closing leave the directory entries alone.\<close>

definition quiet_files :: "'w posix_calls \<Rightarrow> (int \<Rightarrow> 'w \<Rightarrow> 'w) \<Rightarrow> ('w, 'k) fs_view \<Rightarrow> bool" where
  "quiet_files sys close_fd v \<longleftrightarrow>
     (\<forall>path w. fv_entries v (snd (open_read_only sys path w)) = fv_entries v w) \<and>
     (\<forall>fd w. fv_entries v (close_fd fd w) = fv_entries v w)"

lemma quiet_calls_files: "quiet_calls sys fs v \<Longrightarrow> quiet_files sys (fs_close fs) v"
  unfolding quiet_files_def using quiet_open quiet_close by (metis prod.collapse)

text \<open>Two paths that open for reading, one after the other.\<close>

lemma open_two:
  assumes "opening_contract sys v" and "quiet_files sys close_fd v"
    and l: "open_read_only sys left_path w = (lo, w1)" "of_error_number lo = 0"
    and r: "open_read_only sys right_path w1 = (ro, w2)" "of_error_number ro = 0"
  obtains c d where "fv_entries v w (fv_key v left_path) = Some c" and "fv_entries v w (fv_key v right_path) = Some d"
    and "fv_file v w2 (of_fd lo) = Some c" and "fv_file v w2 (of_fd ro) = Some d" and "length c < 2 ^ 64"
    and "fv_entries v w2 = fv_entries v w"
proof -
  have q: "fv_entries v w1 = fv_entries v w" "fv_entries v w2 = fv_entries v w1"
    using assms(2) l(1) r(1) unfolding quiet_files_def by (metis snd_conv)+
  obtain c where c: "fv_entries v w (fv_key v left_path) = Some c" "fv_file v w1 (of_fd lo) = Some c" "length c < 2 ^ 64"
    using assms(1) [unfolded opening_contract_def, rule_format, OF l] by blast
  obtain d where d: "fv_entries v w1 (fv_key v right_path) = Some d" "fv_file v w2 (of_fd ro) = Some d"
    using assms(1) [unfolded opening_contract_def, rule_format, OF r] by blast
  have "fv_file v w2 (of_fd lo) = Some c"
    using assms(1) [unfolded opening_contract_def, rule_format, OF r] c(2) by blast
  with c d q show thesis by (intro that) simp_all
qed

text \<open>A comparison that succeeds.\<close>

lemma comparison_outcome:
  assumes "verify_files_equal_bounded al sys close_fd left_path right_path config m w = Some (Inr k, m', w')"
    and o: "opening_contract sys v" and q: "quiet_files sys close_fd v"
    and r: "reading_contract sys v" and i: "interrupts_bounded (system_file_io_operations sys) mi"
  shows "fv_entries v w' = fv_entries v w \<and>
    (\<exists>c. fv_entries v w (fv_key v left_path) = Some c \<and> fv_entries v w (fv_key v right_path) = Some c \<and>
       unat k = length c)"
proof -
  obtain lo w1 ro w2 block m1 m2 w3 where
    lo: "open_read_only sys left_path w = (lo, w1)" "of_error_number lo = 0"
    and ro: "open_read_only sys right_path w1 = (ro, w2)" "of_error_number ro = 0"
    and n: "aligned_buffer_new al (block_size config) (buffer_alignment config) m1 = (Inr block, m2)" "validate config = Inr ()"
    and loop: "verify_loop sys (ab_size block) (of_fd lo) (of_fd ro) 0 w2 = Some (Inr k, w3)"
    and w': "w' = close_fd (of_fd lo) (close_fd (of_fd ro) w3)"
    using assms(1)
    by (auto simp: verify_files_equal_bounded_def open_comparison_input_def split: prod.splits sum.splits option.splits if_splits)
  have size: "ab_size block \<noteq> 0"
    using n aligned_buffer_new_size validate_block_size by metis
  obtain c d where cd: "fv_entries v w (fv_key v left_path) = Some c" "fv_entries v w (fv_key v right_path) = Some d"
    "fv_file v w2 (of_fd lo) = Some c" "fv_file v w2 (of_fd ro) = Some d" "length c < 2 ^ 64"
    "fv_entries v w2 = fv_entries v w"
    by (rule open_two [OF o q lo ro])
  have "c = d \<and> unat k = length c"
    using verify_loop_correct [OF reading_two_inputs [OF r i] size, where off = 0 and w = w2 and lfd = "of_fd lo"
        and rfd = "of_fd ro"] loop cd(3-5)
    by (simp add: open_contents_def)
  moreover have "fv_entries v w' = fv_entries v w"
    using verify_loop_keeps [OF loop r] q cd(6) w' by (simp add: quiet_files_def)
  ultimately show ?thesis using cd(1,2) by simp
qed

end
