(* ===== verification/Pipeline_Demo.thy ===== *)
theory Pipeline_Demo
  imports Command_Line Atomic_Json File_Views
begin

text \<open>
  The command-line program \<open>examples/preprocess_pipeline_demo.cpp\<close>: checks of the paths, the
  comparison of the output with the incremented input, and \<open>main\<close>, which composes the option parser,
  the backend factory, the executor, the live reporter and the reports. The text written to
  \<open>std::cout\<close> and \<open>std::cerr\<close> is part of the result; writing to them does not fail.
\<close>

section \<open>Paths\<close>

text \<open>
  Functions of \<open>std::filesystem\<close>: the value and the error code, zero for none. The results of
  \<open>weakly_canonical\<close> are in normal form, where equal paths are equal texts. \<open>file_size\<close> throws.
\<close>

record 'w path_calls =
  pc_weakly_canonical :: "string \<Rightarrow> 'w \<Rightarrow> (string \<times> int) \<times> 'w"
  pc_equivalent :: "string \<Rightarrow> string \<Rightarrow> 'w \<Rightarrow> (bool \<times> int) \<times> 'w"
  pc_is_directory :: "string \<Rightarrow> 'w \<Rightarrow> (bool \<times> int) \<times> 'w"
  pc_file_size :: "string \<Rightarrow> 'w \<Rightarrow> u64 res \<times> 'w"

definition normalized_path :: "'w path_calls \<Rightarrow> string \<Rightarrow> string \<Rightarrow> 'w \<Rightarrow> string res \<times> 'w" where
  "normalized_path pc operation path w =
     (case pc_weakly_canonical pc path w of ((normalized, error), w') \<Rightarrow>
        (if error \<noteq> 0 then Inl (System_error error operation) else Inr normalized, w'))"

text \<open>C++ leaves the order of the two operands of \<open>==\<close> open; here the left one is first.\<close>

definition reject_same_file ::
  "'w path_calls \<Rightarrow> string \<Rightarrow> string \<Rightarrow> string \<Rightarrow> string \<Rightarrow> string \<Rightarrow> 'w \<Rightarrow> unit res \<times> 'w" where
  "reject_same_file pc normalizing comparing left right message w =
     (case normalized_path pc normalizing left w of
        (Inl e, w1) \<Rightarrow> (Inl e, w1)
      | (Inr l, w1) \<Rightarrow>
     (case normalized_path pc normalizing right w1 of
        (Inl e, w2) \<Rightarrow> (Inl e, w2)
      | (Inr r, w2) \<Rightarrow>
          if l = r then (Inl (Invalid_argument message), w2)
          else
            (case pc_equivalent pc left right w2 of ((equivalent, error), w3) \<Rightarrow>
               if error = 0 \<and> equivalent then (Inl (Invalid_argument message), w3)
               else if error \<noteq> 0 \<and> error \<noteq> ENOENT then (Inl (System_error error comparing), w3)
               else (Inr (), w3))))"

definition reject_json_file ::
  "'w path_calls \<Rightarrow> string \<Rightarrow> string \<Rightarrow> string \<Rightarrow> 'w \<Rightarrow> unit res \<times> 'w" where
  "reject_json_file pc =
     reject_same_file pc ''normalize metrics JSON path'' ''compare metrics JSON paths''"

definition validate_metrics_json_path :: "'w path_calls \<Rightarrow> demo_options \<Rightarrow> 'w \<Rightarrow> unit res \<times> 'w" where
  "validate_metrics_json_path pc options w =
     (case op_metrics_json_path options of
        None \<Rightarrow> (Inr (), w)
      | Some path \<Rightarrow>
          (let filename = path_filename path in
           if filename = [] \<or> filename = ''.'' \<or> filename = ''..'' then
             (Inl (Invalid_argument ''--metrics-json must name a file''), w)
           else
             let parent = (if path_parent path = [] then ''.'' else path_parent path) in
             (case pc_is_directory pc parent w of ((parent_is_directory, error), w1) \<Rightarrow>
                if error \<noteq> 0 then (Inl (System_error error ''inspect metrics JSON directory''), w1)
                else if \<not> parent_is_directory then
                  (Inl (Invalid_argument ''--metrics-json parent directory must already exist''), w1)
                else
                  (case pc_is_directory pc path w1 of ((target_is_directory, error), w2) \<Rightarrow>
                     if error \<noteq> 0 \<and> error \<noteq> ENOENT then
                       (Inl (System_error error ''inspect metrics JSON target''), w2)
                     else if target_is_directory then
                       (Inl (Invalid_argument ''--metrics-json must not be a directory''), w2)
                     else
                       (case reject_json_file pc (op_input_path options) path
                               ''metrics JSON path must differ from input'' w2 of
                          (Inl e, w3) \<Rightarrow> (Inl e, w3)
                        | (Inr _, w3) \<Rightarrow>
                            reject_json_file pc (op_output_path options) path
                              ''metrics JSON path must differ from pipeline output'' w3)))))"

text \<open>\<open>uintmax_t\<close> has 64 bits, so the size always fits.\<close>

definition checked_file_size :: "'w path_calls \<Rightarrow> string \<Rightarrow> 'w \<Rightarrow> u64 res \<times> 'w" where
  "checked_file_size pc path w = pc_file_size pc path w"

section \<open>verify_incremented_output\<close>

partial_function (option) verify_incremented_loop ::
  "'w posix_calls \<Rightarrow> size_t \<Rightarrow> int \<Rightarrow> int \<Rightarrow> u64 \<Rightarrow> 'w \<Rightarrow> (unit res \<times> 'w) option" where
  "verify_incremented_loop sys n input_fd output_fd offset w =
     (case read_at sys input_fd (unat n) offset w of
        None \<Rightarrow> None
      | Some ((input_read, input_block), w1) \<Rightarrow>
          if ra_error_number input_read \<noteq> 0 then
            Some (Inl (System_error (ra_error_number input_read) ''read input during verification''), w1)
          else if bytes_read input_read = 0 then
            (case read_at sys output_fd 1 offset w1 of
               None \<Rightarrow> None
             | Some ((trailing_read, trailing), w2) \<Rightarrow>
                 if ra_error_number trailing_read \<noteq> 0 then
                   Some (Inl (System_error (ra_error_number trailing_read)
                     ''check output EOF during verification''), w2)
                 else if bytes_read trailing_read \<noteq> 0 then
                   Some (Inl (Runtime_error ''output verification found trailing bytes''), w2)
                 else Some (Inr (), w2))
          else
            (case read_at sys output_fd (bytes_read input_read) offset w1 of
               None \<Rightarrow> None
             | Some ((output_read, output_block), w2) \<Rightarrow>
                 if ra_error_number output_read \<noteq> 0 then
                   Some (Inl (System_error (ra_error_number output_read)
                     ''read output during verification''), w2)
                 else if bytes_read output_read \<noteq> bytes_read input_read then
                   Some (Inl (Runtime_error ''output verification found a size mismatch''), w2)
                 else if \<not> list_all2 (\<lambda>x y. y = x + 1) input_block output_block then
                   Some (Inl (Runtime_error ''output verification found transformed-byte mismatch''), w2)
                 else if u64_max - offset < of_nat (bytes_read input_read) then
                   Some (Inl (Overflow_error ''verification file offset overflow''), w2)
                 else
                   verify_incremented_loop sys n input_fd output_fd
                     (offset + of_nat (bytes_read input_read)) w2))"

declare verify_incremented_loop.simps [code]

text \<open>The guards close the files on every way out; the allocation of the two vectors is no branch.\<close>

definition verify_incremented_output ::
  "'w posix_calls \<Rightarrow> (int \<Rightarrow> 'w \<Rightarrow> 'w) \<Rightarrow> string \<Rightarrow> string \<Rightarrow> size_t \<Rightarrow> 'w \<Rightarrow> (unit res \<times> 'w) option" where
  "verify_incremented_output sys close_fd input_path output_path n w =
     (case open_comparison_input sys input_path ''open input for verification'' w of
        (Inl e, w1) \<Rightarrow> Some (Inl e, w1)
      | (Inr input_fd, w1) \<Rightarrow>
     (case open_comparison_input sys output_path ''open output for verification'' w1 of
        (Inl e, w2) \<Rightarrow> Some (Inl e, close_fd input_fd w2)
      | (Inr output_fd, w2) \<Rightarrow>
          (case verify_incremented_loop sys n input_fd output_fd 0 w2 of
             None \<Rightarrow> None
           | Some (result, w3) \<Rightarrow> Some (result, close_fd input_fd (close_fd output_fd w3)))))"

section \<open>The verification is sound\<close>

abbreviation (input) increment :: "byte list \<Rightarrow> byte list" where
  "increment bs \<equiv> map (\<lambda>b. b + 1) bs"

lemma list_all2_increment: "list_all2 (\<lambda>x y. y = x + 1) xs ys \<longleftrightarrow> ys = increment xs" for xs ys :: "byte list"
proof (induction xs arbitrary: ys)
  case (Cons x xs)
  then show ?case by (cases ys) auto
qed simp

definition reads_succeed :: "'w posix_calls \<Rightarrow> int \<Rightarrow> bool" where
  "reads_succeed sys fd \<longleftrightarrow>
     (\<forall>n off w result stored w'. read_at sys fd n off w = Some ((result, stored), w') \<longrightarrow> ra_error_number result = 0)"

lemma verify_incremented_loop_correct:
  assumes two: "two_inputs sys ifd ofd L R" and n: "n \<noteq> 0"
  shows "unat off \<le> length (L w) \<Longrightarrow> unat off \<le> length (R w) \<Longrightarrow> length (L w) < 2 ^ 64 \<Longrightarrow>
    take (unat off) (R w) = increment (take (unat off) (L w)) \<Longrightarrow>
    \<exists>r w'. verify_incremented_loop sys n ifd ofd off w = Some (r, w') \<and>
      (r = Inr () \<longrightarrow> R w = increment (L w)) \<and>
      (reads_succeed sys ifd \<longrightarrow> full_reads sys ofd R \<longrightarrow> R w = increment (L w) \<longrightarrow> r = Inr ())"
proof (induction "length (L w) - unat off" arbitrary: off w rule: less_induct)
  case less
  note unfold = verify_incremented_loop.simps [of sys n ifd ofd off w]
  obtain ir bs w1 where i: "read_at sys ifd (unat n) off w = Some ((ir, bs), w1)" "L w1 = L w" "R w1 = R w"
    and iok: "ra_error_number ir \<noteq> 0 \<or>
      ra_error_number ir = 0 \<and> bytes_read ir = length bs \<and> file_chunk (L w) (unat n) (unat off) bs"
    by (rule two_inputs_read [OF two, of ifd L]) simp_all
  show ?case
  proof (cases "ra_error_number ir = 0")
    case False
    then have "\<not> reads_succeed sys ifd" using i(1) unfolding reads_succeed_def by blast
    with False show ?thesis using i by (simp add: unfold)
  next
    case noerr: True
    have ic: "file_chunk (L w) (unat n) (unat off) bs" and len: "bytes_read ir = length bs" using iok noerr by auto
    let ?k = "if bs = [] then 1 else length bs"
    obtain pr ps w2 where p: "read_at sys ofd ?k off w1 = Some ((pr, ps), w2)" "L w2 = L w1" "R w2 = R w1"
      and pok: "ra_error_number pr \<noteq> 0 \<or>
        ra_error_number pr = 0 \<and> bytes_read pr = length ps \<and> file_chunk (R w1) ?k (unat off) ps"
      by (rule two_inputs_read [OF two, of ofd R]) simp_all
    have full: "ra_error_number pr = 0 \<and> length ps = min ?k (length (R w) - unat off)" if "full_reads sys ofd R"
      using that p(1) i(3) unfolding full_reads_def by metis
    show ?thesis
    proof (cases "ra_error_number pr = 0")
      case False
      then show ?thesis using i p len noerr full by (cases "bs = []") (auto simp: unfold)
    next
      case noerr': True
      have pc: "file_chunk (R w) ?k (unat off) ps" and plen: "bytes_read pr = length ps" using pok noerr' i(3) by auto
      show ?thesis
      proof (cases "bs = []")
        case True
        with ic n have L: "length (L w) = unat off" using less.prems(1) by (auto simp: file_chunk_def unat_eq_zero)
        show ?thesis
        proof (cases "ps = []")
          case True
          with pc \<open>bs = []\<close> have "length (R w) = unat off" using less.prems(2) by (auto simp: file_chunk_def)
          then have "R w = increment (L w)" using less.prems(4) L by simp
          then show ?thesis using i p len noerr noerr' plen \<open>bs = []\<close> True by (simp add: unfold)
        next
          case False
          then have "unat off + length ps \<le> length (R w)" by (rule chunk_within [OF pc])
          then have "R w \<noteq> increment (L w)" using L False by (metis add_le_same_cancel1 le_zero_eq length_0_conv length_map)
          then show ?thesis using i p len noerr noerr' plen \<open>bs = []\<close> False by (simp add: unfold)
        qed
      next
        case ne: False
        have le: "unat off + length bs \<le> length (L w)" by (rule chunk_within [OF ic ne])
        have icut: "bs = take (length bs) (drop (unat off) (L w))" using ic by (simp add: file_chunk_def)
        have pcut: "ps = take (length ps) (drop (unat off) (R w))" using pc by (simp add: file_chunk_def)
        show ?thesis
        proof (cases "ps = increment bs")
          case False
          have "\<not> (full_reads sys ofd R \<and> R w = increment (L w))"
          proof
            assume a: "full_reads sys ofd R \<and> R w = increment (L w)"
            then have "length ps = length bs" using full le ne by simp
            then have "ps = increment bs" using a icut pcut by (metis take_map drop_map)
            with False show False by simp
          qed
          then show ?thesis using i p len noerr noerr' plen ne False by (auto simp: unfold list_all2_increment)
        next
          case True
          have le': "unat off + length bs \<le> length (R w)" using chunk_within [OF pc] True ne by simp
          have k: "unat (of_nat (length bs) :: u64) = length bs" using le less.prems(3) by (simp add: unat_of_nat)
          then have off': "unat (off + of_nat (length bs)) = unat off + length bs"
            using le less.prems(3) by (simp add: unat_add_fits)
          have "\<not> u64_max - off < of_nat (length bs)"
            using u64_add_fits [of off "of_nat (length bs)"] le less.prems(3) k by simp
          then have step: "verify_incremented_loop sys n ifd ofd off w =
              verify_incremented_loop sys n ifd ofd (off + of_nat (length bs)) w2"
            using i p len noerr noerr' plen True ne by (simp add: unfold list_all2_increment)
          have "take (unat off + length bs) (R w) = increment (take (unat off + length bs) (L w))"
            using less.prems(4) icut pcut True by (simp add: take_add take_map [symmetric])
          moreover have "length (L w) - (unat off + length bs) < length (L w) - unat off"
            using le ne by (cases "bs") auto
          ultimately have "\<exists>r w'. verify_incremented_loop sys n ifd ofd (off + of_nat (length bs)) w2 = Some (r, w') \<and>
              (r = Inr () \<longrightarrow> R w2 = increment (L w2)) \<and>
              (reads_succeed sys ifd \<longrightarrow> full_reads sys ofd R \<longrightarrow> R w2 = increment (L w2) \<longrightarrow> r = Inr ())"
            using less.prems(3) i p le le' by (intro less.hyps) (simp_all add: off')
          then show ?thesis unfolding step using i p by simp
        qed
      qed
    qed
  qed
qed

lemma verify_incremented_outcome:
  assumes "open_read_only sys input_path w = (io, w1)" and "of_error_number io = 0"
    and "open_read_only sys output_path w1 = (oo, w2)" and "of_error_number oo = 0"
    and "two_inputs sys (of_fd io) (of_fd oo) L R" and "length (L w2) < 2 ^ 64" and "n \<noteq> 0"
  shows "\<exists>r w'. verify_incremented_output sys close_fd input_path output_path n w = Some (r, w') \<and>
    (r = Inr () \<longrightarrow> R w2 = increment (L w2)) \<and>
    (reads_succeed sys (of_fd io) \<longrightarrow> full_reads sys (of_fd oo) R \<longrightarrow> R w2 = increment (L w2) \<longrightarrow> r = Inr ())"
proof -
  obtain r w3 where "verify_incremented_loop sys n (of_fd io) (of_fd oo) 0 w2 = Some (r, w3)"
    "r = Inr () \<longrightarrow> R w2 = increment (L w2)"
    "reads_succeed sys (of_fd io) \<longrightarrow> full_reads sys (of_fd oo) R \<longrightarrow> R w2 = increment (L w2) \<longrightarrow> r = Inr ()"
    using verify_incremented_loop_correct [OF assms(5,7), of 0 w2] assms(6) by auto
  then show ?thesis using assms(1-4) by (simp add: verify_incremented_output_def open_comparison_input_def)
qed

text \<open>
  The demo's check of its output is sound and does not depend on how the input is delivered. On an
  input and an output that open it returns; it passes only if the output is as long as the input and
  every byte is the input's plus one modulo 256; and it passes whenever that is so, the reads of the
  input succeed (short reads included) and those of the output deliver what the file holds.
\<close>

theorem verify_incremented_output_sound:
  assumes "open_read_only sys input_path w = (io, w1)" and "of_error_number io = 0"
    and "open_read_only sys output_path w1 = (oo, w2)" and "of_error_number oo = 0"
    and "two_inputs sys (of_fd io) (of_fd oo) L R" and "length (L w2) < 2 ^ 64" and "n \<noteq> 0"
  shows "\<exists>r w'. verify_incremented_output sys close_fd input_path output_path n w = Some (r, w') \<and>
    (r = Inr () \<longrightarrow> R w2 = map (\<lambda>b. b + 1) (L w2)) \<and>
    (reads_succeed sys (of_fd io) \<longrightarrow> full_reads sys (of_fd oo) R \<longrightarrow>
       R w2 = map (\<lambda>b. b + 1) (L w2) \<longrightarrow> r = Inr ())"
  by (rule verify_incremented_outcome [OF assms])

theorem verify_incremented_output_sound_witness:
  "\<exists>w'. verify_incremented_output stingy_posix (\<lambda>_ w. w) ''left'' ''right'' 8 ([1, 2, 255], [2, 3, 0]) = Some (Inr (), w')"
proof -
  have opens: "open_read_only stingy_posix ''left'' w = (\<lparr>of_fd = 3, of_error_number = 0\<rparr>, w)"
    "open_read_only stingy_posix ''right'' w = (\<lparr>of_fd = 4, of_error_number = 0\<rparr>, w)" for w
    using pair_open [of w]
    by (simp_all add: open_read_only_def open_read_only_with_def system_file_io_operations_def
        system_open_read_only_def stingy_posix_def)
  have full: "full_reads stingy_posix 4 snd" "reads_succeed stingy_posix 3"
    by (auto simp: full_reads_def reads_succeed_def read_at_def read_at_with_def retry_read.simps stingy_ops pair_ops
        read_slice_def split: if_splits)
  from verify_incremented_output_sound [OF opens(1) _ opens(2), of fst snd "([1, 2, 255], [2, 3, 0])" 8 "\<lambda>_ w. w"]
    stingy_contract full
  show ?thesis by auto
qed

end
