(* ===== verification/Demo_Main.thy ===== *)
theory Demo_Main
  imports Pipeline_Demo
begin

text \<open>
  \<open>main\<close> of \<open>examples/preprocess_pipeline_demo.cpp\<close>: the composition of the option parser, the
  backend factory, the pipeline, the executor's \<open>run_file\<close>, the verification and the reports, with the
  exit code and what the program writes to its two streams.
\<close>

section \<open>What the program runs on\<close>

text \<open>
  The operating system, the allocator, the constructors of the backends (a backend comes with the
  world it reads from), the doubles and \<open>what()\<close> of an exception; and what the environment chooses:
  the schedule of the run, the rounds of the live reporter (the registry and the elapsed seconds it
  sees), the measured seconds and the registry after the run.
\<close>

record ('m, 'r, 't, 'w, 'u, 'd) demo_machine =
  dm_sys :: "'w posix_calls"
  dm_files :: "'w file_system_calls"
  dm_paths :: "'w path_calls"
  dm_write :: "'w plain_write"
  dm_allocator :: "'m allocator"
  dm_memory :: 'm
  dm_has_liburing :: bool
  dm_constructors :: "(('r, 't) io_backend \<times> 'r, 'w) backend_constructors"
  dm_users :: "'u user_stages"
  dm_doubles :: "'d double_ops"
  dm_what :: "exn \<Rightarrow> string"
  dm_isatty :: bool
  dm_schedule :: "(exec_thread \<times> exec_choice) list"
  dm_rounds :: "(metrics_registry \<times> 'd) list"
  dm_elapsed :: 'd
  dm_final_metrics :: metrics_registry

definition demo_context ::
  "('m, 'r, 't, 'w, 'u, 'd) demo_machine \<Rightarrow> ('r, 't) io_backend \<times> 'r \<Rightarrow> 'u pipeline \<Rightarrow> metrics_registry \<Rightarrow>
     ('m, 'r, 't, 'w, 'u) run_context" where
  "demo_context dm backend processing metrics =
     \<lparr>rc_allocator = dm_allocator dm, rc_memory = dm_memory dm, rc_backend = fst backend,
      rc_input = snd backend, rc_sys = dm_sys dm, rc_users = dm_users dm, rc_pipeline = processing,
      rc_registry = metrics, rc_schedule = dm_schedule dm\<rparr>"

definition demo_backend_config :: "demo_options \<Rightarrow> backend_config" where
  "demo_backend_config options =
     default_backend_config
       \<lparr>bc_kind := op_backend_kind options,
        bc_uring_queue_depth := ucast (max_inflight_buffers (op_pipeline options)),
        bc_thread_pool_worker_count := op_thread_workers options,
        bc_max_inflight := max_inflight_buffers (op_pipeline options),
        bc_auto_try_uring := \<not> op_disable_uring options,
        bc_auto_try_thread_pool := \<not> op_disable_thread_pool options\<rparr>"

definition started_report ::
  "'d double_ops \<Rightarrow> demo_options \<Rightarrow> string \<Rightarrow> u64 \<Rightarrow> 'd pipeline_run_report" where
  "started_report ops options selected input_bytes =
     \<lparr>rr_input_path = op_input_path options, rr_output_path = op_output_path options,
      rr_requested_backend = backend_name (op_backend_kind options), rr_selected_backend = selected,
      rr_stage_name = ''byte_increment'', rr_pipeline_config = op_pipeline options,
      rr_input_bytes = input_bytes, rr_blocks_written = 0, rr_bytes_written = 0,
      rr_elapsed_seconds = d_literal ops 0, rr_output_committed = False, rr_verification_passed = False\<rparr>"

definition completed_report ::
  "pipeline_run_result \<Rightarrow> 'd \<Rightarrow> 'd pipeline_run_report \<Rightarrow> 'd pipeline_run_report" where
  "completed_report result seconds report =
     report\<lparr>rr_blocks_written := prr_blocks_written result, rr_bytes_written := prr_bytes_written result,
            rr_elapsed_seconds := seconds, rr_output_committed := True\<rparr>"

section \<open>The try block\<close>

text \<open>An outcome of the block: an exception or its end, what it wrote to \<open>std::cout\<close>, the world.\<close>

type_synonym 'w demo_outcome = "(unit res \<times> string \<times> 'w) option"

definition attempt :: "string \<Rightarrow> ('a res \<times> 'w) option \<Rightarrow> ('a \<Rightarrow> 'w \<Rightarrow> 'w demo_outcome) \<Rightarrow> 'w demo_outcome" where
  "attempt out r rest =
     (case r of
        None \<Rightarrow> None
      | Some (Inl e, w) \<Rightarrow> Some (Inl e, out, w)
      | Some (Inr x, w) \<Rightarrow> rest x w)"

text \<open>The final reports, after the verification.\<close>

definition print_reports ::
  "'d double_ops \<Rightarrow> demo_options \<Rightarrow> registry_snapshot \<Rightarrow> 'd pipeline_run_report \<Rightarrow> string \<Rightarrow> 'w \<Rightarrow>
     'w demo_outcome" where
  "print_reports ops options snap report out w =
     attempt out (Some (write_terminal_summary ops snap report, w)) (\<lambda>summary w.
       let out1 = out @ summary @
             (case op_metrics_json_path options of
                None \<Rightarrow> []
              | Some path \<Rightarrow> ''Metrics JSON     : '' @ path @ lf @ lf) @
             ''Machine-readable metrics'' @ lf in
       (case write_key_value_configuration report of
          (text, Inl e) \<Rightarrow> Some (Inl e, out1 @ text, w)
        | (text, Inr _) \<Rightarrow>
            Some (Inr (), out1 @ text @ write_key_value_result ops snap report, w)))"

definition publish_metrics ::
  "('m, 'r, 't, 'w, 'u, 'd) demo_machine \<Rightarrow> demo_options \<Rightarrow> registry_snapshot \<Rightarrow> 'd pipeline_run_report \<Rightarrow>
     'w \<Rightarrow> (unit res \<times> 'w) option" where
  "publish_metrics dm options snap report w =
     (case op_metrics_json_path options of
        None \<Rightarrow> Some (Inr (), w)
      | Some path \<Rightarrow>
          write_metrics_json_atomic (dm_doubles dm) (dm_sys dm) (dm_files dm) (dm_write dm) path snap report w)"

text \<open>
  From the live reporter on. Its destructor stops it when \<open>run_file\<close> throws, as the code's \<open>stop\<close>
  does otherwise, so its output is the same on both ways.
\<close>

definition run_and_report ::
  "('m, 'r, 't, 'w, 'u, 'd) demo_machine \<Rightarrow> demo_options \<Rightarrow> ('m, 'r, 't, 'w, 'u) run_context \<Rightarrow>
   pipeline_executor \<Rightarrow> metrics_registry \<Rightarrow> 'd pipeline_run_report \<Rightarrow> string \<Rightarrow> 'w \<Rightarrow> 'w demo_outcome" where
  "run_and_report dm options rc px metrics report out w =
     (let ops = dm_doubles dm; c = op_pipeline options in
      attempt out
        (Some (live_reporter_new metrics (rr_input_bytes report) (max_inflight_buffers c) (queue_depth c)
           (int (unat (op_report_interval_ms options))) (dm_isatty dm), w))
        (\<lambda>reporter w.
          let stopped = live_stop
                (fold (\<lambda>(seen, elapsed). live_round ops seen elapsed False) (dm_rounds dm) reporter);
              out1 = out @ lr_output stopped in
          (case run_file rc (dm_files dm) (op_input_path options) (op_output_path options) px w of
             None \<Rightarrow> None
           | Some (Inl e, px', w1) \<Rightarrow> Some (Inl e, out1, w1)
           | Some (Inr result, px', w1) \<Rightarrow>
               attempt out1
                 (verify_incremented_output (dm_sys dm) (fs_close (dm_files dm)) (op_input_path options)
                    (op_output_path options) (block_size c) w1)
                 (\<lambda>_ w2.
                   let report2 = (completed_report result (dm_elapsed dm) report)
                         \<lparr>rr_verification_passed := True\<rparr>;
                       snap = snapshot (dm_final_metrics dm) in
                   attempt out1 (publish_metrics dm options snap report2 w2)
                     (\<lambda>_ w3. print_reports ops options snap report2 out1 w3)))))"

definition run_with_options ::
  "('m, 'r, 't, 'w, 'u, 'd) demo_machine \<Rightarrow> demo_options \<Rightarrow> 'w \<Rightarrow> 'w demo_outcome" where
  "run_with_options dm options w =
     attempt [] (Some (validate_metrics_json_path (dm_paths dm) options w)) (\<lambda>_ w.
     attempt [] (Some (checked_file_size (dm_paths dm) (op_input_path options) w)) (\<lambda>input_bytes w.
     attempt [] (Some (backend_create (dm_has_liburing dm) (dm_constructors dm) (demo_backend_config options) w))
       (\<lambda>backend w.
        case add_stage (dm_users dm) (Some ByteIncrementStage) pipeline_new_observed registry_new of
          (Inl e, _, _) \<Rightarrow> Some (Inl e, [], w)
        | (Inr _, processing, metrics) \<Rightarrow>
            (case executor_new_observed (op_pipeline options) metrics of
               (Inl e, _) \<Rightarrow> Some (Inl e, [], w)
             | (Inr px, metrics') \<Rightarrow>
                 (let report = started_report (dm_doubles dm) options (be_name (fst backend)) input_bytes in
                  run_and_report dm options (demo_context dm backend processing metrics') px metrics' report
                    (write_terminal_header (dm_doubles dm) report) w)))))"

definition run_demo ::
  "('m, 'r, 't, 'w, 'u, 'd) demo_machine \<Rightarrow> string list \<Rightarrow> 'w \<Rightarrow> 'w demo_outcome" where
  "run_demo dm argv w = attempt [] (Some (parse_options argv, w)) (run_with_options dm)"

section \<open>main\<close>

fun is_invalid_argument :: "exn \<Rightarrow> bool" where
  "is_invalid_argument (Invalid_argument _) = True"
| "is_invalid_argument _ = False"

text \<open>The exit code, \<open>std::cout\<close>, \<open>std::cerr\<close> and the world.\<close>

definition demo_main ::
  "('m, 'r, 't, 'w, 'u, 'd) demo_machine \<Rightarrow> string list \<Rightarrow> 'w \<Rightarrow> ((int \<times> string \<times> string) \<times> 'w) option" where
  "demo_main dm argv w =
     (if length argv = 2 \<and> argv ! 1 = ''--help'' then Some ((0, print_usage (argv ! 0), []), w)
      else
        (case run_demo dm argv w of
           None \<Rightarrow> None
         | Some (Inr _, out, w') \<Rightarrow> Some ((0, out, []), w')
         | Some (Inl e, out, w') \<Rightarrow>
             if is_invalid_argument e then
               Some ((2, out, ''argument error: '' @ dm_what dm e @ lf @
                 print_usage (if argv = [] then ''preprocess_pipeline_demo'' else hd argv)), w')
             else Some ((1, out, ''preprocess pipeline failed: '' @ dm_what dm e @ lf), w')))"

section \<open>What an exit code of zero means\<close>

text \<open>\<open>weakly_canonical\<close> gives one text for each entry.\<close>

definition canonical_contract :: "'w path_calls \<Rightarrow> ('w, 'k) fs_view \<Rightarrow> bool" where
  "canonical_contract pc v \<longleftrightarrow>
     (\<exists>canonical. \<forall>path w n w'. pc_weakly_canonical pc path w = ((n, 0), w') \<longrightarrow> n = canonical (fv_key v path))"

lemma verify_incremented_loop_keeps:
  assumes "verify_incremented_loop sys n ifd ofd off w = Some (r, w')" and "reading_contract sys v"
  shows "fv_entries v w' = fv_entries v w"
proof -
  let ?Q = "\<lambda>sys n ifd ofd off w rw. reading_contract sys v \<longrightarrow> fv_entries v (snd rw) = fv_entries v w"
  have "?Q sys n ifd ofd off w (r, w')"
    by (rule verify_incremented_loop.raw_induct [where P = ?Q, OF _ assms(1)])
      (auto split: option.splits if_splits dest!: read_at_keeps [rotated])
  with assms(2) show ?thesis by simp
qed

lemma verification_outcome:
  assumes "verify_incremented_output sys close_fd input_path output_path n w = Some (Inr (), w')"
    and q: "quiet_files sys close_fd v" and o: "opening_contract sys v" and r: "reading_contract sys v"
    and i: "interrupts_bounded (system_file_io_operations sys) m" and n: "n \<noteq> 0"
  shows "fv_entries v w' = fv_entries v w \<and>
    (\<exists>c. fv_entries v w (fv_key v input_path) = Some c \<and>
      fv_entries v w (fv_key v output_path) = Some (increment c))"
proof -
  obtain io w1 oo w2 w3 where io: "open_read_only sys input_path w = (io, w1)" "of_error_number io = 0"
    and oo: "open_read_only sys output_path w1 = (oo, w2)" "of_error_number oo = 0"
    and loop: "verify_incremented_loop sys n (of_fd io) (of_fd oo) 0 w2 = Some (Inr (), w3)"
    and w': "w' = close_fd (of_fd io) (close_fd (of_fd oo) w3)"
    using assms(1)
    by (auto simp: verify_incremented_output_def open_comparison_input_def split: prod.splits sum.splits option.splits if_splits)
  obtain c d where cd: "fv_entries v w (fv_key v input_path) = Some c" "fv_entries v w (fv_key v output_path) = Some d"
    "fv_file v w2 (of_fd io) = Some c" "fv_file v w2 (of_fd oo) = Some d" "length c < 2 ^ 64"
    "fv_entries v w2 = fv_entries v w"
    by (rule open_two [OF o q io oo])
  have "d = increment c"
    using verify_incremented_loop_correct [OF reading_two_inputs [OF r i] n, where off = 0 and w = w2 and ifd = "of_fd io"
        and ofd = "of_fd oo"] loop cd(3-5)
    by (simp add: open_contents_def)
  then show ?thesis
    using cd(1,2,6) verify_incremented_loop_keeps [OF loop r] q w' by (simp add: quiet_files_def)
qed

lemma attempt_Inr:
  "attempt out r rest = Some (Inr u, o', w') \<longleftrightarrow>
     (\<exists>x w. r = Some (Inr x, w) \<and> rest x w = Some (Inr u, o', w'))"
  by (auto simp: attempt_def split: option.split sum.split)

lemma print_reports_Inr:
  "print_reports ops options snap report out w = Some (Inr u, o', w') \<Longrightarrow>
     w' = w \<and> (\<exists>front. o' = front @ write_key_value_result ops snap report)"
  by (cases "write_key_value_configuration report"; cases "snd (write_key_value_configuration report)")
    (auto simp: print_reports_def attempt_Inr Let_def)

lemma run_and_report_Inr:
  assumes "run_and_report dm options rc px metrics report out w = Some (Inr u, o', w')"
  obtains result px' w1 w2 report2 snap
  where "run_file rc (dm_files dm) (op_input_path options) (op_output_path options) px w = Some (Inr result, px', w1)"
    and "verify_incremented_output (dm_sys dm) (fs_close (dm_files dm)) (op_input_path options)
           (op_output_path options) (block_size (op_pipeline options)) w1 = Some (Inr (), w2)"
    and "publish_metrics dm options snap report2 w2 = Some (Inr (), w')"
    and "rr_output_committed report2" and "rr_verification_passed report2"
    and "rr_bytes_written report2 = prr_bytes_written result"
    and "\<exists>front. o' = front @ write_key_value_result (dm_doubles dm) snap report2"
proof -
  let ?run = "run_file rc (dm_files dm) (op_input_path options) (op_output_path options) px w"
  obtain result px' w1 where run: "?run = Some (Inr result, px', w1)"
  proof (cases ?run)
    case None
    with assms show thesis by (auto simp: run_and_report_def attempt_Inr Let_def)
  next
    case (Some x)
    obtain r px' w1 where "x = (r, px', w1)" by (cases x)
    with Some assms that show thesis by (cases r) (auto simp: run_and_report_def attempt_Inr Let_def)
  qed
  with assms obtain w2 w3 where
    verify: "verify_incremented_output (dm_sys dm) (fs_close (dm_files dm)) (op_input_path options)
           (op_output_path options) (block_size (op_pipeline options)) w1 = Some (Inr (), w2)"
    and publish: "publish_metrics dm options (snapshot (dm_final_metrics dm))
           ((completed_report result (dm_elapsed dm) report)\<lparr>rr_verification_passed := True\<rparr>) w2 = Some (Inr (), w3)"
    and "w' = w3" and "\<exists>front. o' = front @ write_key_value_result (dm_doubles dm) (snapshot (dm_final_metrics dm))
           ((completed_report result (dm_elapsed dm) report)\<lparr>rr_verification_passed := True\<rparr>)"
    by (auto simp: run_and_report_def attempt_Inr Let_def dest!: print_reports_Inr)
  then show thesis by (intro that [OF run verify]) (auto simp: completed_report_def)
qed

lemma reject_same_file_Inr:
  assumes "reject_same_file pc normalizing comparing l r message w = (Inr u, w')" and "canonical_contract pc v"
  shows "fv_key v l \<noteq> fv_key v r"
proof
  assume same: "fv_key v l = fv_key v r"
  obtain canonical where c: "\<And>path w n w'. pc_weakly_canonical pc path w = ((n, 0), w') \<Longrightarrow> n = canonical (fv_key v path)"
    using assms(2) unfolding canonical_contract_def by blast
  from assms(1) same show False
    by (auto simp: reject_same_file_def normalized_path_def dest!: c split: prod.splits sum.splits if_splits)
qed

lemma validate_metrics_json_path_Inr:
  assumes "validate_metrics_json_path pc options w = (Inr u, w')" and "op_metrics_json_path options = Some path"
    and "canonical_contract pc v"
  shows "fv_key v (op_input_path options) \<noteq> fv_key v path" and "fv_key v (op_output_path options) \<noteq> fv_key v path"
  using assms(1,2)
  by (auto simp: validate_metrics_json_path_def reject_json_file_def Let_def dest!: reject_same_file_Inr [OF _ assms(3)]
      split: if_splits prod.splits sum.splits)

text \<open>The context of a run is made from the machine and a backend of the factory.\<close>

definition context_of ::
  "('m, 'r, 't, 'w, 'u, 'd) demo_machine \<Rightarrow> ('m, 'r, 't, 'w, 'u) run_context \<Rightarrow> bool" where
  "context_of dm rc \<longleftrightarrow>
     rc_sys rc = dm_sys dm \<and> rc_allocator rc = dm_allocator dm \<and>
     (\<exists>config w w'. backend_create (dm_has_liburing dm) (dm_constructors dm) config w =
        (Inr (rc_backend rc, rc_input rc), w'))"

lemma run_with_options_Inr:
  assumes "run_with_options dm options w = Some (Inr u, out, w')"
  obtains w1 rc px metrics report w2 out2
  where "validate_metrics_json_path (dm_paths dm) options w = (Inr (), w1)" and "context_of dm rc"
    and "run_and_report dm options rc px metrics report out2 w2 = Some (Inr u, out, w')"
proof -
  obtain w1 w3 backend report out2 w2 where
    json: "validate_metrics_json_path (dm_paths dm) options w = (Inr (), w1)"
    and made: "backend_create (dm_has_liburing dm) (dm_constructors dm) (demo_backend_config options) w3 = (Inr backend, w2)"
    and rest: "(case add_stage (dm_users dm) (Some ByteIncrementStage) pipeline_new_observed registry_new of
          (Inl e, _, _) \<Rightarrow> Some (Inl e, [], w2)
        | (Inr _, processing, metrics) \<Rightarrow>
            (case executor_new_observed (op_pipeline options) metrics of
               (Inl e, _) \<Rightarrow> Some (Inl e, [], w2)
             | (Inr px, metrics') \<Rightarrow>
                 run_and_report dm options (demo_context dm backend processing metrics') px metrics' report out2 w2)) =
        Some (Inr u, out, w')"
    using assms unfolding run_with_options_def attempt_Inr Let_def
    by (elim exE conjE) (rule that, simp, simp, assumption)
  obtain sr processing metrics where
    st: "add_stage (dm_users dm) (Some ByteIncrementStage) pipeline_new_observed registry_new = (sr, processing, metrics)"
    by (metis surj_pair)
  obtain er metrics' where ex: "executor_new_observed (op_pipeline options) metrics = (er, metrics')" by (metis surj_pair)
  from rest obtain px where "sr = Inr ()" "er = Inr px" by (cases sr; cases er) (simp_all add: st ex)
  with rest have "run_and_report dm options (demo_context dm backend processing metrics') px metrics' report out2 w2 =
      Some (Inr u, out, w')" by (simp add: st ex)
  moreover have "context_of dm (demo_context dm backend processing metrics')"
    using made by (auto simp: context_of_def demo_context_def)
  ultimately show thesis using json by (intro that)
qed

lemma demo_main_zero:
  assumes "demo_main dm argv w = Some ((0, out, err), w')" and "parse_options argv = Inr options"
  obtains w0 w1 u rc px metrics report w2 out2
  where "err = []" and "validate_metrics_json_path (dm_paths dm) options w0 = (Inr u, w1)" and "context_of dm rc"
    and "run_and_report dm options rc px metrics report out2 w2 = Some (Inr (), out, w')"
proof -
  have "\<not> (length argv = 2 \<and> argv ! 1 = ''--help'')"
    using assms(2) by (auto simp: parse_options_def split: list.splits)
  with assms have "err = []" and "run_with_options dm options w = Some (Inr (), out, w')"
    by (auto simp: demo_main_def run_demo_def attempt_def split: option.splits sum.splits if_splits)
  then show thesis by (auto elim!: run_with_options_Inr intro: that)
qed

text \<open>
  An allocator that keeps its contract, and backends that report as many bytes as they have stored.
\<close>

definition honest_machine :: "('m, 'r, 't, 'w, 'u, 'd) demo_machine \<Rightarrow> bool" where
  "honest_machine dm \<longleftrightarrow>
     memalign_contract (dm_allocator dm) \<and>
     (\<forall>config w backend input w'.
        backend_create (dm_has_liburing dm) (dm_constructors dm) config w = (Inr (backend, input), w') \<longrightarrow>
        (\<forall>fd n off u k bytes u'. complete_read backend fd n off u = Some (Inr (k, bytes), u') \<longrightarrow>
           unat k = length bytes \<and> length bytes \<le> unat n))"

lemma demo_run_counts:
  assumes "honest_machine dm" and "context_of dm rc" and "fs_contract (dm_sys dm) fs v"
    and "interrupts_bounded (system_file_io_operations (dm_sys dm)) m"
    and "run_file rc fs input_path output_path px w = Some (Inr result, px', w')"
  shows "\<exists>c. fv_entries v w' (fv_key v output_path) = Some c \<and> unat (prr_bytes_written result) = length c"
proof (rule run_file_counts [OF _ _ _ _ assms(5)])
  show "fs_contract (rc_sys rc) fs v" "interrupts_bounded (system_file_io_operations (rc_sys rc)) m"
    "memalign_contract (rc_allocator rc)"
    using assms(1-4) by (simp_all add: context_of_def honest_machine_def)
  obtain config w1 w2 where made: "backend_create (dm_has_liburing dm) (dm_constructors dm) config w1 =
      (Inr (rc_backend rc, rc_input rc), w2)"
    using assms(2) by (auto simp: context_of_def)
  show "honest_reads (run_env rc px ifd ofd) (block_size (px_config px))" for ifd ofd
    unfolding honest_reads_def run_env_def exec_env.select_convs
    using assms(1) [unfolded honest_machine_def, THEN conjunct2, rule_format, OF made] by blast
qed

lemma write_json_Inr:
  assumes "fs_contract sys fs v" and "append_contract wr v m" and "interrupts_bounded (system_file_io_operations sys) m'"
    and "write_metrics_json_atomic ops sys fs wr path snap report w = Some (Inr u, w')"
  obtains doc where "render_metrics_json ops snap report = Inr doc"
    and "fv_entries v w' (fv_key v path) = Some (text_bytes doc)"
    and "\<And>q. q \<noteq> fv_key v path \<Longrightarrow> fv_entries v w' q = fv_entries v w q"
proof -
  from write_json_outcome [OF assms(1-3), of ops path snap report w] assms(4)
  have "(\<exists>text. render_metrics_json ops snap report = Inr text \<and> fv_entries v w' (fv_key v path) = Some (text_bytes text)) \<and>
      (\<forall>q. q \<noteq> fv_key v path \<longrightarrow> fv_entries v w' q = fv_entries v w q)" by simp
  then show thesis by (auto intro: that)
qed

section \<open>A run of the program\<close>

text \<open>
  The small disk with two descriptors for reading, 3 and 6; a file of \<open>2 ^ 63\<close> bytes or more fails to
  open with \<open>EOVERFLOW\<close>. Only \<open>SyncBackend\<close> can be built; doubles have one value.
\<close>

definition demo_posix :: "disk posix_calls" where
  "demo_posix = disk_posix\<lparr>posix_open := (\<lambda>path flags d.
     case dk_entries d (path_filename path) of
       None \<Rightarrow> (Sys_failed ENOENT, d)
     | Some c \<Rightarrow>
         let fd = (if dk_open d 3 = None then 3 else 6) in
         if dk_open d (int fd) \<noteq> None then (Sys_failed 24, d)
         else if 9223372036854775808 \<le> int (length c) then (Sys_failed 75, d)
         else (Sys_ok fd, d\<lparr>dk_open := (dk_open d)(int fd \<mapsto> path_filename path)\<rparr>))\<rparr>"

definition unit_doubles :: "unit double_ops" where
  "unit_doubles =
     \<lparr>d_of_u64 = \<lambda>_. (), d_literal = \<lambda>_. (), d_times = \<lambda>_ _. (), d_divide = \<lambda>_ _. (), d_less = \<lambda>_ _. False,
      d_le = \<lambda>_ _. False, d_isfinite = \<lambda>_. True, d_to_size = \<lambda>_. 0, d_fixed = \<lambda>_ _. ''0''\<rparr>"

definition demo_path_calls :: "disk path_calls" where
  "demo_path_calls =
     \<lparr>pc_weakly_canonical = \<lambda>path w. ((path_filename path, 0), w),
      pc_equivalent = \<lambda>l r w. ((path_filename l = path_filename r, 0), w),
      pc_is_directory = \<lambda>path w. ((path = ''.'', 0), w),
      pc_file_size = \<lambda>path w. (case dk_entries w (path_filename path) of
           None \<Rightarrow> Inl (System_error ENOENT ''file_size'') | Some c \<Rightarrow> Inr (of_nat (length c)), w)\<rparr>"

definition demo_constructors ::
  "((byte list, (sync_frame, read_value) task) io_backend \<times> byte list, disk) backend_constructors" where
  "demo_constructors =
     \<lparr>new_uring_backend = \<lambda>_ w. (Inl (System_error ENOSYS ''io_uring''), w),
      new_thread_pool_backend = \<lambda>_ _ w. (Inl (System_error EAGAIN ''thread''), w),
      new_sync_backend = \<lambda>w. (Inr (sync_backend plain_posix, [1, 2, 255]), w)\<rparr>"

definition demo_registry :: metrics_registry where
  "demo_registry =
     snd (executor_new_observed small_config
       (snd (snd (add_stage throwing_stages (Some ByteIncrementStage) pipeline_new_observed registry_new))))"

definition example_machine ::
  "(nat, byte list, (sync_frame, read_value) task, disk, nat, unit) demo_machine" where
  "example_machine =
     \<lparr>dm_sys = demo_posix, dm_files = disk_calls, dm_paths = demo_path_calls, dm_write = disk_append,
      dm_allocator = bump_allocator, dm_memory = 0, dm_has_liburing = False,
      dm_constructors = demo_constructors, dm_users = throwing_stages, dm_doubles = unit_doubles,
      dm_what = \<lambda>e. [], dm_isatty = False, dm_schedule = example_schedule, dm_rounds = [],
      dm_elapsed = (), dm_final_metrics = demo_registry\<rparr>"

definition example_options :: demo_options where
  "example_options =
     \<lparr>op_input_path = ''in'', op_output_path = ''out'', op_pipeline = small_config, op_backend_kind = Sync,
      op_thread_workers = 1, op_report_interval_ms = 0, op_metrics_json_path = None,
      op_disable_uring = False, op_disable_thread_pool = False\<rparr>"

text \<open>The size check of \<open>std::vector\<close> on integers, for evaluation.\<close>

lemma spsc_new_int [code]:
  "spsc_new sizeof_slot capacity =
     (if 9223372036854775807 div int sizeof_slot < uint capacity then
        Inl (Length_error ''cannot create std::vector larger than max_size()'')
      else if capacity = 0 then
        Inl (Invalid_argument ''SPSCQueue capacity must be greater than zero'')
      else Inr \<lparr>q_slots = replicate (unat capacity) None, q_head = 0, q_tail = 0, q_size = 0,
                q_state = Queue_open, q_failure = None, q_depth_metric = None\<rparr>)"
proof -
  have "(9223372036854775807 div int sizeof_slot < uint capacity) = ((2 ^ 63 - 1) div sizeof_slot < unat capacity)"
    using of_nat_less_iff [where 'a = int, of "(2 ^ 63 - 1) div sizeof_slot" "unat capacity"] by (simp add: zdiv_int)
  then show ?thesis by (simp add: spsc_new_def)
qed

lemma example_demo_value:
  "map_option fst (run_with_options example_machine example_options example_disk) = Some (Inr ())"
  by code_simp

lemma example_demo:
  "\<exists>out w'. demo_main example_machine (''demo'' # command_line example_options) example_disk = Some ((0, out, []), w')"
proof -
  have ok: "options_ok example_options" by (simp add: options_ok_def example_options_def small_config_def validate_def is_power_of_two_def)
  obtain out w' where run: "run_with_options example_machine example_options example_disk = Some (Inr (), out, w')"
    using example_demo_value by auto
  have "\<not> (length (''demo'' # command_line example_options) = 2)" by (simp add: command_line_def)
  then show ?thesis
    unfolding demo_main_def run_demo_def parse_command_line [OF ok] by (simp add: attempt_def run)
qed

lemma demo_ops:
  "system_file_io_operations demo_posix =
     (system_file_io_operations disk_posix)\<lparr>op_open_read_only := system_open_read_only demo_posix\<rparr>"
  by (simp add: system_file_io_operations_def system_read_at_def system_write_at_def system_fsync_def demo_posix_def
      fun_eq_iff)

lemma demo_open:
  "open_read_only demo_posix path w =
     (case posix_open demo_posix path O_RDONLY w of
        (Sys_failed e, w') \<Rightarrow> (\<lparr>of_fd = - 1, of_error_number = e\<rparr>, w')
      | (Sys_ok fd, w') \<Rightarrow> (\<lparr>of_fd = int fd, of_error_number = 0\<rparr>, w'))"
  by (simp add: open_read_only_def open_read_only_with_def system_file_io_operations_def system_open_read_only_def)

lemma demo_read:
  "op_read_at (system_file_io_operations demo_posix) fd n off w =
     (case disk_file w fd of
        None \<Rightarrow> (Read_failed 9, w)
      | Some c \<Rightarrow> if sint off < 0 then (Read_failed 22, w) else (Read_bytes (read_slice c (nat (sint off)) n), w))"
  by (simp add: demo_ops disk_ops) (simp add: disk_posix_def)

lemma demo_contracts:
  "fs_contract demo_posix disk_calls disk_view" "opening_contract demo_posix disk_view"
  "reading_contract demo_posix disk_view" "interrupts_bounded (system_file_io_operations demo_posix) (\<lambda>_. 0)"
  "canonical_contract demo_path_calls disk_view"
proof -
  have "quiet_calls demo_posix disk_calls disk_view"
    by (simp add: quiet_calls_def demo_posix_def disk_calls_def disk_view_def Let_def split: option.split)
  then show "fs_contract demo_posix disk_calls disk_view"
    using disk_contract by (simp add: fs_contract_def data_contract_def demo_ops)
  show "opening_contract demo_posix disk_view"
    unfolding opening_contract_def demo_open
    by (auto simp: demo_posix_def disk_view_def disk_file_def Let_def split: option.splits if_splits)
  show "reading_contract demo_posix disk_view"
    unfolding reading_contract_def demo_read
    by (auto simp: disk_view_def read_slice_def nat_sint min_def split: option.splits if_splits)
  show "interrupts_bounded (system_file_io_operations demo_posix) (\<lambda>_. 0)"
    using disk_interrupts by (simp add: interrupts_bounded_def demo_ops)
  show "canonical_contract demo_path_calls disk_view"
    by (auto simp: canonical_contract_def demo_path_calls_def disk_view_def)
qed

section \<open>Property\<close>

lemma demo_constructors_honest: "honest_machine example_machine"
proof -
  have made: "backend = sync_backend plain_posix"
    if "backend_create (dm_has_liburing example_machine) (dm_constructors example_machine) config w =
      (Inr (backend, input), w')" for config w backend input w'
    using that
    by (auto simp: example_machine_def backend_create_def create_backend_with_def system_backend_factory_operations_def
        create_uring_def create_thread_pool_def create_sync_def demo_constructors_def Let_def
        split: backend_kind.splits if_splits)
  have "unat k = length bytes \<and> length bytes \<le> unat n"
    if "complete_read (sync_backend plain_posix) fd n off u = Some (Inr (k, bytes), u')" for fd n off u k bytes u'
  proof -
    let ?bs = "read_slice u (unat off) (unat n)"
    have "k = of_nat (length bytes)" and bytes: "bytes = ?bs"
      using that plain_posix_read [of fd n off u] by (auto simp: sync_complete_read_def Let_def)
    moreover have len: "length ?bs \<le> unat n" by (simp add: read_slice_def)
    moreover have "unat n < 2 ^ LENGTH(64)" by (rule unsigned_less)
    then have "unat (of_nat (length ?bs) :: size_t) = length ?bs" using len by (simp add: unat_of_nat)
    ultimately show ?thesis by simp
  qed
  then show ?thesis
    unfolding honest_machine_def using made bump_allocator_contract by (auto simp: example_machine_def)
qed

text \<open>
  C25: Exit code zero of the demo is a promise about the disk. Over an operating system whose calls
  keep their contracts, if \<open>main\<close> returns 0 for a command line with options, then at its end the input path holds some bytes and the output path holds these bytes
  plus one modulo 256; there is a report that says committed and verified, with as many bytes written
  as the output has (over an allocator that keeps its contract and backends that report as many bytes
  as they stored), such that \<open>std::cout\<close> ends with the key-value lines of this report and a requested
  metrics file holds exactly its rendered document; nothing was written to \<open>std::cerr\<close>. This holds for
  every backend, schedule and measured time, and rests on the code's own verification, on its atomic
  publication and on its check that the three paths differ.
\<close>

theorem demo_exit_zero:
  assumes "demo_main dm argv w = Some ((0, out, err), w')" and "parse_options argv = Inr options"
    and "fs_contract (dm_sys dm) (dm_files dm) v" and "opening_contract (dm_sys dm) v"
    and "reading_contract (dm_sys dm) v" and "interrupts_bounded (system_file_io_operations (dm_sys dm)) m"
    and "append_contract (dm_write dm) v m'" and "canonical_contract (dm_paths dm) v"
  shows "err = [] \<and>
    (\<exists>c snap report.
      fv_entries v w' (fv_key v (op_input_path options)) = Some c \<and>
      fv_entries v w' (fv_key v (op_output_path options)) = Some (map (\<lambda>b. b + 1) c) \<and>
      rr_output_committed report \<and> rr_verification_passed report \<and>
      (honest_machine dm \<longrightarrow> unat (rr_bytes_written report) = length c) \<and>
      (\<exists>front. out = front @ write_key_value_result (dm_doubles dm) snap report) \<and>
      (case op_metrics_json_path options of
         None \<Rightarrow> True
       | Some path \<Rightarrow>
           (\<exists>doc. render_metrics_json (dm_doubles dm) snap report = Inr doc \<and>
              fv_entries v w' (fv_key v path) = Some (text_bytes doc))))"
proof -
  obtain w0 w1 u rc px metrics report w2 out2 where e: "err = []"
    and json: "validate_metrics_json_path (dm_paths dm) options w0 = (Inr u, w1)" and ctx: "context_of dm rc"
    and run: "run_and_report dm options rc px metrics report out2 w2 = Some (Inr (), out, w')"
    by (rule demo_main_zero [OF assms(1,2)])
  have q: "quiet_files (dm_sys dm) (fs_close (dm_files dm)) v"
    using assms(3) by (intro quiet_calls_files) (simp add: fs_contract_def)
  have n: "block_size (op_pipeline options) \<noteq> 0"
    using parse_options_ok [OF assms(2)] validate_positive by (auto simp: options_ok_def)
  from run show ?thesis
  proof (rule run_and_report_Inr)
    fix result px' w3 w4 report2 snap
    assume ran: "run_file rc (dm_files dm) (op_input_path options) (op_output_path options) px w2 = Some (Inr result, px', w3)"
      and verify: "verify_incremented_output (dm_sys dm) (fs_close (dm_files dm)) (op_input_path options)
           (op_output_path options) (block_size (op_pipeline options)) w3 = Some (Inr (), w4)"
      and pub: "publish_metrics dm options snap report2 w4 = Some (Inr (), w')"
      and rep: "rr_output_committed report2" "rr_verification_passed report2"
        "rr_bytes_written report2 = prr_bytes_written result"
      and out: "\<exists>front. out = front @ write_key_value_result (dm_doubles dm) snap report2"
    from verification_outcome [OF verify q assms(4-6) n] obtain c where
      c: "fv_entries v w4 (fv_key v (op_input_path options)) = Some c"
        "fv_entries v w4 (fv_key v (op_output_path options)) = Some (increment c)"
        "fv_entries v w4 = fv_entries v w3" by auto
    have bytes: "honest_machine dm \<longrightarrow> unat (rr_bytes_written report2) = length c"
      using demo_run_counts [OF _ ctx assms(3,6) ran] c(2,3) rep(3) by auto
    show ?thesis
    proof (cases "op_metrics_json_path options")
      case None
      with pub have "w' = w4" by (simp add: publish_metrics_def)
      with e c rep(1,2) bytes out None show ?thesis by (intro conjI exI [of _ c] exI [of _ snap] exI [of _ report2]) simp_all
    next
      case (Some path)
      note differ = validate_metrics_json_path_Inr [OF json Some assms(8)]
      have "write_metrics_json_atomic (dm_doubles dm) (dm_sys dm) (dm_files dm) (dm_write dm) path snap report2 w4 =
          Some (Inr (), w')"
        using pub Some by (simp add: publish_metrics_def)
      from write_json_Inr [OF assms(3,7,6) this] obtain doc where
        doc: "render_metrics_json (dm_doubles dm) snap report2 = Inr doc"
          "fv_entries v w' (fv_key v path) = Some (text_bytes doc)"
          "\<And>q. q \<noteq> fv_key v path \<Longrightarrow> fv_entries v w' q = fv_entries v w4 q" by blast
      have c': "fv_entries v w' (fv_key v (op_input_path options)) = Some c"
        "fv_entries v w' (fv_key v (op_output_path options)) = Some (increment c)"
        using c doc(3) differ by simp_all
      show ?thesis using e c' doc(1,2) rep(1,2) bytes out
        by (intro conjI exI [of _ c] exI [of _ snap] exI [of _ report2]) (simp_all add: Some)
    qed
  qed
qed

theorem demo_exit_zero_witness:
  "\<exists>front out w' c snap report.
     demo_main example_machine (''demo'' # command_line example_options) example_disk = Some ((0, out, []), w') \<and>
     dk_entries w' ''in'' = Some c \<and> dk_entries w' ''out'' = Some (map (\<lambda>b. b + 1) c) \<and>
     unat (rr_bytes_written report) = length c \<and> out = front @ write_key_value_result unit_doubles snap report"
proof -
  obtain out w' where run: "demo_main example_machine (''demo'' # command_line example_options) example_disk =
      Some ((0, out, []), w')" using example_demo by blast
  have parsed: "parse_options (''demo'' # command_line example_options) = Inr example_options"
    by (rule parse_command_line)
      (simp add: options_ok_def example_options_def small_config_def validate_def is_power_of_two_def)
  have dm: "dm_sys example_machine = demo_posix" "dm_files example_machine = disk_calls"
    "dm_paths example_machine = demo_path_calls" "dm_write example_machine = disk_append"
    "dm_doubles example_machine = unit_doubles"
    by (simp_all add: example_machine_def)
  have paths: "op_input_path example_options = ''in''" "op_output_path example_options = ''out''"
    "fv_key disk_view ''in'' = ''in''" "fv_key disk_view ''out'' = ''out''"
    by (simp_all add: example_options_def disk_view_def path_filename_def)
  from demo_exit_zero [OF run parsed, unfolded dm, OF demo_contracts(1-4) disk_append_contract demo_contracts(5)]
  obtain c snap report where "fv_entries disk_view w' ''in'' = Some c"
    "fv_entries disk_view w' ''out'' = Some (map (\<lambda>b. b + 1) c)"
    "unat (rr_bytes_written report) = length c" "\<exists>front. out = front @ write_key_value_result unit_doubles snap report"
    using demo_constructors_honest unfolding paths by blast
  with run show ?thesis by (auto simp: disk_view_def)
qed

end
