(* ===== verification/Benchmark_Report.thy ===== *)
theory Benchmark_Report
  imports Reporter
begin

text \<open>
  Statistics and CSV lines of the benchmarks: \<open>src/benchmark/benchmark_stats.cpp\<close> and
  \<open>src/benchmark/benchmark_report.cpp\<close>, over the operations on \<open>double\<close> of \<open>Reporter\<close> with addition,
  \<open>std::ceil\<close>, the literals \<open>0.50\<close>, \<open>0.95\<close>, \<open>0.99\<close> (in hundredths) and output in the default format.
\<close>

section \<open>summarize_latencies\<close>

record 'd statistic_ops = "'d double_ops" +
  d_plus :: "'d \<Rightarrow> 'd \<Rightarrow> 'd"
  d_ceil :: "'d \<Rightarrow> 'd"
  d_hundredths :: "nat \<Rightarrow> 'd"
  d_general :: "nat \<Rightarrow> 'd \<Rightarrow> string"

record 'd benchmark_summary =
  bs_sample_count :: size_t
  bs_average_ms :: 'd
  bs_p50_ms :: 'd
  bs_p95_ms :: 'd
  bs_p99_ms :: 'd

definition summary_new :: "'d statistic_ops \<Rightarrow> 'd benchmark_summary" where
  "summary_new ops =
     \<lparr>bs_sample_count = 0, bs_average_ms = d_literal ops 0, bs_p50_ms = d_literal ops 0,
      bs_p95_ms = d_literal ops 0, bs_p99_ms = d_literal ops 0\<rparr>"

text \<open>
  \<open>std::sort\<close> leaves some sorted permutation; here equal values keep their order. \<open>std::accumulate\<close>
  adds from the left.
\<close>

fun sorted_insert :: "('d \<Rightarrow> 'd \<Rightarrow> bool) \<Rightarrow> 'd \<Rightarrow> 'd list \<Rightarrow> 'd list" where
  "sorted_insert lt x [] = [x]"
| "sorted_insert lt x (y # ys) = (if lt y x then y # sorted_insert lt x ys else x # y # ys)"

definition std_sort :: "('d \<Rightarrow> 'd \<Rightarrow> bool) \<Rightarrow> 'd list \<Rightarrow> 'd list" where
  "std_sort lt xs = foldr (sorted_insert lt) xs []"

definition accumulate :: "'d statistic_ops \<Rightarrow> 'd list \<Rightarrow> 'd" where
  "accumulate ops xs = foldl (d_plus ops) (d_literal ops 0) xs"

definition rank_of :: "'d statistic_ops \<Rightarrow> nat \<Rightarrow> size_t \<Rightarrow> size_t" where
  "rank_of ops hundredths n =
     d_to_size ops (d_ceil ops (d_times ops (d_hundredths ops hundredths) (d_of_u64 ops n)))"

definition nearest_rank :: "'d statistic_ops \<Rightarrow> 'd list \<Rightarrow> nat \<Rightarrow> 'd" where
  "nearest_rank ops samples hundredths =
     samples ! unat (rank_of ops hundredths (of_nat (length samples)) - 1)"

definition summarize_latencies :: "'d statistic_ops \<Rightarrow> 'd list \<Rightarrow> 'd benchmark_summary res" where
  "summarize_latencies ops samples =
     (if samples = [] then Inr (summary_new ops)
      else if list_ex (\<lambda>s. d_less ops s (d_literal ops 0) \<or> \<not> d_isfinite ops s) samples then
        Inl (Invalid_argument ''latency samples must be finite and non-negative'')
      else
        let n = of_nat (length samples); sorted = std_sort (d_less ops) samples in
        Inr \<lparr>bs_sample_count = n,
             bs_average_ms = d_divide ops (accumulate ops samples) (d_of_u64 ops n),
             bs_p50_ms = nearest_rank ops sorted 50, bs_p95_ms = nearest_rank ops sorted 95,
             bs_p99_ms = nearest_rank ops sorted 99\<rparr>)"

section \<open>Reports\<close>

record 'd benchmark_report =
  br_name :: string
  br_bytes_read_per_iteration :: u64
  br_bytes_written_per_iteration :: u64
  br_latency :: "'d benchmark_summary"
  br_total_elapsed_ms :: 'd
  br_throughput_mib_s :: 'd

definition csv_safe :: "string \<Rightarrow> bool" where
  "csv_safe name \<longleftrightarrow> name \<noteq> [] \<and> list_all (\<lambda>c. c \<noteq> CHR '','' \<and> c \<noteq> CHR 0x0D \<and> c \<noteq> CHR 0x0A) name"

definition make_benchmark_report ::
  "'d statistic_ops \<Rightarrow> string \<Rightarrow> u64 \<Rightarrow> u64 \<Rightarrow> 'd list \<Rightarrow> 'd benchmark_report res" where
  "make_benchmark_report ops name read_bytes written_bytes samples =
     (if \<not> csv_safe name then Inl (Invalid_argument ''benchmark name is not CSV-safe'')
      else
        (case summarize_latencies ops samples of
           Inl e \<Rightarrow> Inl e
         | Inr latency \<Rightarrow>
             let total = accumulate ops samples;
                 mebibyte = d_times ops (d_literal ops 1024) (d_literal ops 1024) in
             Inr \<lparr>br_name = name, br_bytes_read_per_iteration = read_bytes,
                  br_bytes_written_per_iteration = written_bytes, br_latency = latency,
                  br_total_elapsed_ms = total,
                  br_throughput_mib_s =
                    (if d_less ops (d_literal ops 0) total then
                       d_divide ops
                         (d_divide ops
                            (d_times ops (d_of_u64 ops read_bytes) (d_of_u64 ops (bs_sample_count latency)))
                            mebibyte)
                         (d_divide ops total (d_literal ops 1000))
                     else d_literal ops 0)\<rparr>))"

definition csv_columns :: "string list" where
  "csv_columns =
     [''name'', ''bytes_per_iteration'', ''bytes_written_per_iteration'', ''sample_count'',
      ''total_elapsed_ms'', ''average_ms'', ''p50_ms'', ''p95_ms'', ''p99_ms'', ''throughput_mib_s'']"

definition write_benchmark_csv_header :: string where
  "write_benchmark_csv_header = separated '','' csv_columns @ lf"

definition csv_values :: "'d statistic_ops \<Rightarrow> 'd benchmark_report \<Rightarrow> string list" where
  "csv_values ops report =
     [br_name report, u64_text (br_bytes_read_per_iteration report),
      u64_text (br_bytes_written_per_iteration report), u64_text (bs_sample_count (br_latency report)),
      d_general ops 10 (br_total_elapsed_ms report), d_general ops 10 (bs_average_ms (br_latency report)),
      d_general ops 10 (bs_p50_ms (br_latency report)), d_general ops 10 (bs_p95_ms (br_latency report)),
      d_general ops 10 (bs_p99_ms (br_latency report)), d_general ops 10 (br_throughput_mib_s report)]"

definition write_benchmark_csv_row :: "'d statistic_ops \<Rightarrow> 'd benchmark_report \<Rightarrow> string" where
  "write_benchmark_csv_row ops report = separated '','' (csv_values ops report) @ lf"

section \<open>Sorting\<close>

text \<open>\<open>operator<\<close> on finite doubles is a strict weak order.\<close>

definition orders_finite :: "'d statistic_ops \<Rightarrow> bool" where
  "orders_finite ops \<longleftrightarrow>
     (\<forall>a b c. d_isfinite ops a \<longrightarrow> d_isfinite ops b \<longrightarrow> d_isfinite ops c \<longrightarrow>
        (d_less ops a b \<longrightarrow> \<not> d_less ops b a) \<and>
        (d_less ops a c \<longrightarrow> d_less ops a b \<or> d_less ops b c))"

lemma mset_sorted_insert: "mset (sorted_insert lt x ys) = add_mset x (mset ys)"
  by (induction ys) auto

lemma mset_std_sort: "mset (std_sort lt xs) = mset xs"
  by (induction xs) (simp_all add: std_sort_def mset_sorted_insert)

lemma sorted_insert_sorted:
  assumes "orders_finite ops" and "d_isfinite ops x" and "\<forall>y \<in> set ys. d_isfinite ops y"
    and "sorted_wrt (\<lambda>a b. \<not> d_less ops b a) ys"
  shows "sorted_wrt (\<lambda>a b. \<not> d_less ops b a) (sorted_insert (d_less ops) x ys)"
  using assms(3,4)
proof (induction ys)
  case (Cons y ys)
  have set: "set (sorted_insert (d_less ops) x ys) = insert x (set ys)"
    by (metis mset_sorted_insert set_mset_add_mset_insert set_mset_mset)
  show ?case
  proof (cases "d_less ops y x")
    case True
    then have "\<not> d_less ops x y" using assms(1,2) Cons.prems(1) unfolding orders_finite_def by auto
    with True Cons set show ?thesis by auto
  next
    case False
    then have "\<not> d_less ops z x" if "z \<in> set (y # ys)" for z
      using that assms(1,2) Cons.prems unfolding orders_finite_def by (metis list.set_intros(1) set_ConsD sorted_wrt.simps(2))
    with False Cons.prems show ?thesis by simp
  qed
qed simp

lemma std_sort_sorted:
  "orders_finite ops \<Longrightarrow> \<forall>y \<in> set xs. d_isfinite ops y \<Longrightarrow>
   sorted_wrt (\<lambda>a b. \<not> d_less ops b a) (std_sort (d_less ops) xs)"
proof (induction xs)
  case (Cons x xs)
  have "set (std_sort (d_less ops) xs) = set xs" using mset_std_sort by (metis set_mset_mset)
  with Cons show ?case by (auto simp: std_sort_def intro!: sorted_insert_sorted)
qed (simp add: std_sort_def)

section \<open>A calculator\<close>

text \<open>Doubles that hold hundredths, printed as natural numbers of hundredths.\<close>

definition hundredth_doubles :: "nat statistic_ops" where
  "hundredth_doubles =
     \<lparr>d_of_u64 = \<lambda>n. 100 * unat n, d_literal = \<lambda>n. 100 * n, d_times = \<lambda>a b. a * b div 100,
      d_divide = \<lambda>a b. a * 100 div b, d_less = (<), d_le = (\<le>), d_isfinite = \<lambda>_. True,
      d_to_size = \<lambda>a. of_nat (a div 100), d_fixed = \<lambda>_ a. decimal a,
      d_plus = (+), d_ceil = \<lambda>a. (a + 99) div 100 * 100, d_hundredths = \<lambda>p. p, d_general = \<lambda>_ a. decimal a\<rparr>"

end
