(* ===== verification/Benchmark_Runs.thy ===== *)
theory Benchmark_Runs
  imports Demo_Main Benchmark_Report
begin

text \<open>
  The timed runs of \<open>src/benchmark/end_to_end_baseline.cpp\<close> and the benchmark program
  \<open>benchmark/stage11_bench_end_to_end.cpp\<close>, which compares the serial loop with the pipeline without
  and with overlap. The state is the memory of the allocator with the world of the files.
\<close>

section \<open>Timed runs\<close>

text \<open>
  What a sample runs on; the number of the sample selects its schedule, the latencies of its stages
  and its measured milliseconds.
\<close>

record ('m, 'r, 't, 'w, 'u, 'd) bench_machine =
  bm_allocator :: "'m allocator"
  bm_sys :: "'w posix_calls"
  bm_paths :: "'w path_calls"
  bm_open_truncated :: "string \<Rightarrow> 'w \<Rightarrow> syscall_result \<times> 'w"
  bm_close :: "int \<Rightarrow> 'w \<Rightarrow> 'w"
  bm_users :: "'u user_stages"
  bm_sync_backend :: "('r, 't) io_backend"
  bm_sync_world :: 'r
  bm_schedule :: "nat \<Rightarrow> (exec_thread \<times> exec_choice) list"
  bm_stage_latency :: "nat \<Rightarrow> u64 \<Rightarrow> nat \<Rightarrow> int"
  bm_elapsed_ms :: "nat \<Rightarrow> 'd"
  bm_doubles :: "'d statistic_ops"

record 'd timed_result =
  tr_blocks_written :: u64
  tr_bytes_written :: u64
  tr_elapsed_ms :: 'd

type_synonym ('m, 'w, 'a) bench_outcome = "('a res \<times> 'm \<times> 'w) option"

definition and_then ::
  "('m, 'w, 'a) bench_outcome \<Rightarrow> ('a \<Rightarrow> 'm \<Rightarrow> 'w \<Rightarrow> ('m, 'w, 'b) bench_outcome) \<Rightarrow> ('m, 'w, 'b) bench_outcome" where
  "and_then r rest =
     (case r of
        None \<Rightarrow> None
      | Some (Inl e, m, w) \<Rightarrow> Some (Inl e, m, w)
      | Some (Inr x, m, w) \<Rightarrow> rest x m w)"

definition bench_reject_same_file ::
  "'w path_calls \<Rightarrow> string \<Rightarrow> string \<Rightarrow> string \<Rightarrow> 'w \<Rightarrow> unit res \<times> 'w" where
  "bench_reject_same_file pc =
     reject_same_file pc ''normalize benchmark path'' ''compare benchmark paths''"

definition bench_reject_same_input_and_output ::
  "'w path_calls \<Rightarrow> string \<Rightarrow> string \<Rightarrow> 'w \<Rightarrow> unit res \<times> 'w" where
  "bench_reject_same_input_and_output pc input_path output_path =
     bench_reject_same_file pc input_path output_path ''benchmark input and output must differ''"

definition fsync_output :: "'w posix_calls \<Rightarrow> int \<Rightarrow> 'w \<Rightarrow> (unit res \<times> 'w) option" where
  "fsync_output sys fd w =
     (case fsync_fd sys fd w of
        None \<Rightarrow> None
      | Some (result, w') \<Rightarrow>
          Some (if fs_error_number result \<noteq> 0
                then Inl (System_error (fs_error_number result) ''fsync benchmark output'') else Inr (), w'))"

text \<open>
  The part that the two timed functions share: the configuration, the paths, opening and closing.
\<close>

definition with_benchmark_files ::
  "('m, 'r, 't, 'w, 'u, 'd) bench_machine \<Rightarrow> string \<Rightarrow> string \<Rightarrow> pipeline_config \<Rightarrow>
   (int \<Rightarrow> int \<Rightarrow> 'm \<Rightarrow> 'w \<Rightarrow> ('m, 'w, 'a) bench_outcome) \<Rightarrow> 'm \<Rightarrow> 'w \<Rightarrow> ('m, 'w, 'a) bench_outcome" where
  "with_benchmark_files bm input_path output_path config run m w =
     (case validate config of
        Inl e \<Rightarrow> Some (Inl e, m, w)
      | Inr _ \<Rightarrow>
     (case bench_reject_same_input_and_output (bm_paths bm) input_path output_path w of
        (Inl e, w1) \<Rightarrow> Some (Inl e, m, w1)
      | (Inr _, w1) \<Rightarrow>
     (case open_comparison_input (bm_sys bm) input_path ''open benchmark input'' w1 of
        (Inl e, w2) \<Rightarrow> Some (Inl e, m, w2)
      | (Inr input_fd, w2) \<Rightarrow>
     (case bm_open_truncated bm output_path w2 of
        (Sys_failed errno, w3) \<Rightarrow>
          Some (Inl (System_error errno ''open benchmark output''), m, bm_close bm input_fd w3)
      | (Sys_ok output_fd, w3) \<Rightarrow>
          (case run input_fd (int output_fd) m w3 of
             None \<Rightarrow> None
           | Some (r, m', w4) \<Rightarrow>
               Some (r, m', bm_close bm input_fd (bm_close bm (int output_fd) w4)))))))"

definition finish_timed ::
  "('m, 'r, 't, 'w, 'u, 'd) bench_machine \<Rightarrow> nat \<Rightarrow> u64 \<Rightarrow> u64 \<Rightarrow> int \<Rightarrow> 'm \<Rightarrow> 'w \<Rightarrow>
     ('m, 'w, 'd timed_result) bench_outcome" where
  "finish_timed bm k blocks bytes output_fd m w =
     (case fsync_output (bm_sys bm) output_fd w of
        None \<Rightarrow> None
      | Some (Inl e, w') \<Rightarrow> Some (Inl e, m, w')
      | Some (Inr _, w') \<Rightarrow>
          Some (Inr \<lparr>tr_blocks_written = blocks, tr_bytes_written = bytes,
                     tr_elapsed_ms = bm_elapsed_ms bm k\<rparr>, m, w'))"

definition run_timed_serial_byte_increment ::
  "('m, 'r, 't, 'w, 'u, 'd) bench_machine \<Rightarrow> nat \<Rightarrow> string \<Rightarrow> string \<Rightarrow> pipeline_config \<Rightarrow> 'm \<Rightarrow> 'w \<Rightarrow>
     ('m, 'w, 'd timed_result) bench_outcome" where
  "run_timed_serial_byte_increment bm k input_path output_path config =
     with_benchmark_files bm input_path output_path config (\<lambda>input_fd output_fd m w.
       case add_stage (bm_users bm) (Some ByteIncrementStage) pipeline_new_observed registry_new of
         (Inl e, _, _) \<Rightarrow> Some (Inl e, m, w)
       | (Inr _, processing, metrics) \<Rightarrow>
           (case run_serial_pipeline_reference (bm_allocator bm) (bm_sys bm) (bm_users bm) (bm_stage_latency bm k)
                   input_fd output_fd config processing metrics m w of
              None \<Rightarrow> None
            | Some (Inl e, _, _, m', w') \<Rightarrow> Some (Inl e, m', w')
            | Some (Inr result, _, _, m', w') \<Rightarrow>
                finish_timed bm k (spr_blocks_written result) (spr_bytes_written result) output_fd m' w'))"

definition bench_context ::
  "('m, 'r, 't, 'w, 'u, 'd) bench_machine \<Rightarrow> ('r, 't) io_backend \<times> 'r \<Rightarrow> nat \<Rightarrow> 'u pipeline \<Rightarrow>
   metrics_registry \<Rightarrow> 'm \<Rightarrow> ('m, 'r, 't, 'w, 'u) run_context" where
  "bench_context bm read_backend k processing metrics m =
     \<lparr>rc_allocator = bm_allocator bm, rc_memory = m, rc_backend = fst read_backend,
      rc_input = snd read_backend, rc_sys = bm_sys bm, rc_users = bm_users bm,
      rc_pipeline = processing, rc_registry = metrics, rc_schedule = bm_schedule bm k\<rparr>"

text \<open>The buffers of the pool are freed at the end of the run, so the memory is the one before.\<close>

definition run_timed_pipeline_byte_increment ::
  "('m, 'r, 't, 'w, 'u, 'd) bench_machine \<Rightarrow> ('r, 't) io_backend \<times> 'r \<Rightarrow> nat \<Rightarrow> string \<Rightarrow> string \<Rightarrow>
   pipeline_config \<Rightarrow> 'm \<Rightarrow> 'w \<Rightarrow> ('m, 'w, 'd timed_result) bench_outcome" where
  "run_timed_pipeline_byte_increment bm read_backend k input_path output_path config =
     with_benchmark_files bm input_path output_path config (\<lambda>input_fd output_fd m w.
       case add_stage (bm_users bm) (Some ByteIncrementStage) pipeline_new_observed registry_new of
         (Inl e, _, _) \<Rightarrow> Some (Inl e, m, w)
       | (Inr _, processing, metrics) \<Rightarrow>
           (case executor_new_observed config metrics of
              (Inl e, _) \<Rightarrow> Some (Inl e, m, w)
            | (Inr px, metrics') \<Rightarrow>
                (case executor_run (bench_context bm read_backend k processing metrics' m) input_fd output_fd px w of
                   None \<Rightarrow> None
                 | Some (Inl e, _, w') \<Rightarrow> Some (Inl e, m, w')
                 | Some (Inr result, _, w') \<Rightarrow>
                     finish_timed bm k (prr_blocks_written result) (prr_bytes_written result) output_fd m w')))"

section \<open>stage11_bench_end_to_end: options\<close>

definition kMaxBenchmarkCapacity :: size_t where "kMaxBenchmarkCapacity = 65536"

definition kBenchmarkAlignment :: size_t where "kBenchmarkAlignment = 4096"

definition kMinimumThreeStageOverlapBuffers :: size_t where "kMinimumThreeStageOverlapBuffers = 3"

record bench_options =
  bo_input_path :: string
  bo_serial_output_path :: string
  bo_no_overlap_output_path :: string
  bo_overlap_output_path :: string
  bo_overlap_config :: pipeline_config
  bo_iterations :: size_t

definition bench_usage :: string where
  "bench_usage =
     ''usage: stage11_bench_end_to_end <input> <serial_output> <no_overlap_output> <overlap_output> '' @
     ''<block_size> <overlap_max_inflight_buffers> <queue_depth> [iterations]'' @ lf"

text \<open>The parsed value, or the text written to \<open>std::cerr\<close>.\<close>

definition parse_bounded_size :: "string \<Rightarrow> size_t \<Rightarrow> string \<Rightarrow> size_t \<Rightarrow> string + size_t" where
  "parse_bounded_size text maximum label value =
     (case parse_positive_size text maximum value of
        (True, parsed) \<Rightarrow> Inr parsed
      | (False, _) \<Rightarrow> Inl (''invalid '' @ label @ '': '' @ text @ lf))"

definition parse_bench_arguments ::
  "string \<Rightarrow> string \<Rightarrow> string \<Rightarrow> string \<Rightarrow> string \<Rightarrow> string \<Rightarrow> string \<Rightarrow> string option \<Rightarrow> string + bench_options" where
  "parse_bench_arguments input serial no_overlap overlap a5 a6 a7 a8 =
     (if input = [] \<or> serial = [] \<or> no_overlap = [] \<or> overlap = [] then
        Inl (''input and output paths must not be empty'' @ lf)
      else
     (case parse_bounded_size a5 kMaxBenchmarkBlockSize ''block_size'' (block_size default_config) of
        Inl message \<Rightarrow> Inl message
      | Inr block \<Rightarrow>
     (case parse_bounded_size a6 kMaxBenchmarkCapacity ''overlap_max_inflight_buffers''
             (max_inflight_buffers default_config) of
        Inl message \<Rightarrow> Inl message
      | Inr buffer_limit \<Rightarrow>
     (case parse_bounded_size a7 kMaxBenchmarkCapacity ''queue_depth'' (queue_depth default_config) of
        Inl message \<Rightarrow> Inl message
      | Inr depth \<Rightarrow>
     (case (case a8 of None \<Rightarrow> Inr 1 | Some t \<Rightarrow> parse_bounded_size t kMaxBenchmarkIterations ''iterations'' 1) of
        Inl message \<Rightarrow> Inl message
      | Inr iterations \<Rightarrow>
          Inr \<lparr>bo_input_path = input, bo_serial_output_path = serial, bo_no_overlap_output_path = no_overlap,
               bo_overlap_output_path = overlap,
               bo_overlap_config = \<lparr>block_size = block, max_inflight_buffers = buffer_limit, queue_depth = depth,
                                    buffer_alignment = kBenchmarkAlignment\<rparr>,
               bo_iterations = iterations\<rparr>)))))"

definition parse_bench_options :: "string list \<Rightarrow> string + bench_options" where
  "parse_bench_options argv =
     (case argv of
        [program, input, serial, no_overlap, overlap, a5, a6, a7] \<Rightarrow>
          parse_bench_arguments input serial no_overlap overlap a5 a6 a7 None
      | [program, input, serial, no_overlap, overlap, a5, a6, a7, a8] \<Rightarrow>
          parse_bench_arguments input serial no_overlap overlap a5 a6 a7 (Some a8)
      | _ \<Rightarrow> Inl bench_usage)"

section \<open>stage11_bench_end_to_end: the comparison\<close>

definition validate_distinct_paths :: "'w path_calls \<Rightarrow> bench_options \<Rightarrow> 'w \<Rightarrow> unit res \<times> 'w" where
  "validate_distinct_paths pc options w =
     fold (\<lambda>(left, right, message) (r, w).
         case r of Inl e \<Rightarrow> (Inl e, w) | Inr _ \<Rightarrow> bench_reject_same_file pc left right message w)
       [(bo_input_path options, bo_serial_output_path options,
         ''benchmark input and serial output must differ''),
        (bo_input_path options, bo_no_overlap_output_path options,
         ''benchmark input and no-overlap output must differ''),
        (bo_input_path options, bo_overlap_output_path options,
         ''benchmark input and overlap output must differ''),
        (bo_serial_output_path options, bo_no_overlap_output_path options,
         ''serial and no-overlap outputs must differ''),
        (bo_serial_output_path options, bo_overlap_output_path options,
         ''serial and overlap outputs must differ''),
        (bo_no_overlap_output_path options, bo_overlap_output_path options,
         ''no-overlap and overlap outputs must differ'')] (Inr (), w)"

datatype bench_method = Serial_method | No_overlap | Overlap

text \<open>The switch on the iteration modulo three.\<close>

definition method_order :: "nat \<Rightarrow> bench_method list" where
  "method_order iteration =
     (if iteration mod 3 = 0 then [Serial_method, No_overlap, Overlap]
      else if iteration mod 3 = 1 then [No_overlap, Overlap, Serial_method]
      else [Overlap, Serial_method, No_overlap])"

fun run_sample ::
  "('m, 'r, 't, 'w, 'u, 'd) bench_machine \<Rightarrow> bench_options \<Rightarrow> pipeline_config \<Rightarrow> bench_method \<Rightarrow> nat \<Rightarrow>
   'm \<Rightarrow> 'w \<Rightarrow> ('m, 'w, 'd timed_result) bench_outcome" where
  "run_sample bm options no_overlap_config Serial_method k =
     run_timed_serial_byte_increment bm k (bo_input_path options) (bo_serial_output_path options)
       (bo_overlap_config options)"
| "run_sample bm options no_overlap_config No_overlap k =
     run_timed_pipeline_byte_increment bm (bm_sync_backend bm, bm_sync_world bm) k (bo_input_path options)
       (bo_no_overlap_output_path options) no_overlap_config"
| "run_sample bm options no_overlap_config Overlap k =
     run_timed_pipeline_byte_increment bm (bm_sync_backend bm, bm_sync_world bm) k (bo_input_path options)
       (bo_overlap_output_path options) (bo_overlap_config options)"

fun run_samples ::
  "('m, 'r, 't, 'w, 'u, 'd) bench_machine \<Rightarrow> bench_options \<Rightarrow> pipeline_config \<Rightarrow> bench_method list \<Rightarrow> nat \<Rightarrow>
   (bench_method \<Rightarrow> 'd timed_result) \<Rightarrow> 'm \<Rightarrow> 'w \<Rightarrow> ('m, 'w, bench_method \<Rightarrow> 'd timed_result) bench_outcome" where
  "run_samples bm options no_overlap_config [] k results m w = Some (Inr results, m, w)"
| "run_samples bm options no_overlap_config (x # xs) k results m w =
     and_then (run_sample bm options no_overlap_config x k m w)
       (\<lambda>r m w. run_samples bm options no_overlap_config xs (Suc k) (results(x := r)) m w)"

definition validate_against_serial ::
  "'d timed_result \<Rightarrow> 'd timed_result \<Rightarrow> u64 \<Rightarrow> string \<Rightarrow> unit res" where
  "validate_against_serial serial candidate verified_bytes candidate_name =
     (if tr_blocks_written serial \<noteq> tr_blocks_written candidate \<or>
         tr_bytes_written serial \<noteq> tr_bytes_written candidate then
        Inl (Runtime_error (candidate_name @ '' byte/block counts differ from serial''))
      else if verified_bytes \<noteq> tr_bytes_written serial then
        Inl (Runtime_error (candidate_name @ '' verified length differs from processed bytes''))
      else Inr ())"

record 'd bench_progress =
  bp_expected_blocks :: u64
  bp_expected_bytes :: u64
  bp_serial_samples_ms :: "'d list"
  bp_no_overlap_samples_ms :: "'d list"
  bp_overlap_samples_ms :: "'d list"

definition compare_outputs ::
  "('m, 'r, 't, 'w, 'u, 'd) bench_machine \<Rightarrow> bench_options \<Rightarrow> string \<Rightarrow> 'm \<Rightarrow> 'w \<Rightarrow>
     ('m, 'w, u64) bench_outcome" where
  "compare_outputs bm options path =
     verify_files_equal_bounded (bm_allocator bm) (bm_sys bm) (bm_close bm) (bo_serial_output_path options)
       path (bo_overlap_config options)"

text \<open>The end of an iteration: the two checks against the serial run and the new samples.\<close>

definition finish_iteration ::
  "nat \<Rightarrow> 'd bench_progress \<Rightarrow> (bench_method \<Rightarrow> 'd timed_result) \<Rightarrow> u64 \<Rightarrow> u64 \<Rightarrow> 'd bench_progress res" where
  "finish_iteration iteration progress results no_overlap_verified overlap_verified =
     (let serial = results Serial_method in
      (case validate_against_serial serial (results No_overlap) no_overlap_verified ''no-overlap pipeline'' of
         Inl e \<Rightarrow> Inl e
       | Inr _ \<Rightarrow>
      (case validate_against_serial serial (results Overlap) overlap_verified ''overlap pipeline'' of
         Inl e \<Rightarrow> Inl e
       | Inr _ \<Rightarrow>
           if iteration \<noteq> 0 \<and> (tr_blocks_written serial \<noteq> bp_expected_blocks progress \<or>
                               tr_bytes_written serial \<noteq> bp_expected_bytes progress) then
             Inl (Runtime_error ''benchmark input size changed between iterations'')
           else
             Inr \<lparr>bp_expected_blocks = tr_blocks_written serial, bp_expected_bytes = tr_bytes_written serial,
                  bp_serial_samples_ms = bp_serial_samples_ms progress @ [tr_elapsed_ms serial],
                  bp_no_overlap_samples_ms =
                    bp_no_overlap_samples_ms progress @ [tr_elapsed_ms (results No_overlap)],
                  bp_overlap_samples_ms =
                    bp_overlap_samples_ms progress @ [tr_elapsed_ms (results Overlap)]\<rparr>)))"

definition bench_iteration ::
  "('m, 'r, 't, 'w, 'u, 'd) bench_machine \<Rightarrow> bench_options \<Rightarrow> pipeline_config \<Rightarrow> nat \<Rightarrow> 'd bench_progress \<Rightarrow>
   'm \<Rightarrow> 'w \<Rightarrow> ('m, 'w, 'd bench_progress) bench_outcome" where
  "bench_iteration bm options no_overlap_config iteration progress m w =
     (let none = \<lparr>tr_blocks_written = 0, tr_bytes_written = 0, tr_elapsed_ms = d_literal (bm_doubles bm) 0\<rparr> in
      and_then (run_samples bm options no_overlap_config (method_order iteration) (3 * iteration) (\<lambda>_. none) m w)
        (\<lambda>results m w.
      and_then (compare_outputs bm options (bo_no_overlap_output_path options) m w) (\<lambda>no_overlap_verified m w.
      and_then (compare_outputs bm options (bo_overlap_output_path options) m w) (\<lambda>overlap_verified m w.
        Some (finish_iteration iteration progress results no_overlap_verified overlap_verified, m, w)))))"

fun bench_loop ::
  "('m, 'r, 't, 'w, 'u, 'd) bench_machine \<Rightarrow> bench_options \<Rightarrow> pipeline_config \<Rightarrow> nat \<Rightarrow> nat \<Rightarrow>
   'd bench_progress \<Rightarrow> 'm \<Rightarrow> 'w \<Rightarrow> ('m, 'w, 'd bench_progress) bench_outcome" where
  "bench_loop bm options no_overlap_config 0 iteration progress m w = Some (Inr progress, m, w)"
| "bench_loop bm options no_overlap_config (Suc remaining) iteration progress m w =
     and_then (bench_iteration bm options no_overlap_config iteration progress m w)
       (\<lambda>progress m w. bench_loop bm options no_overlap_config remaining (Suc iteration) progress m w)"

text \<open>The CSV text for \<open>std::cout\<close>, which is written when all three reports exist.\<close>

definition bench_reports :: "'d statistic_ops \<Rightarrow> 'd bench_progress \<Rightarrow> string res" where
  "bench_reports ops progress =
     (let bytes = bp_expected_bytes progress in
      (case make_benchmark_report ops ''serial_sync_byte_increment'' bytes bytes (bp_serial_samples_ms progress) of
         Inl e \<Rightarrow> Inl e
       | Inr serial \<Rightarrow>
      (case make_benchmark_report ops ''pipeline_sync_no_overlap_byte_increment'' bytes bytes
              (bp_no_overlap_samples_ms progress) of
         Inl e \<Rightarrow> Inl e
       | Inr no_overlap \<Rightarrow>
      (case make_benchmark_report ops ''pipeline_sync_overlap_byte_increment'' bytes bytes
              (bp_overlap_samples_ms progress) of
         Inl e \<Rightarrow> Inl e
       | Inr overlap \<Rightarrow>
           Inr (write_benchmark_csv_header @ write_benchmark_csv_row ops serial @
                write_benchmark_csv_row ops no_overlap @ write_benchmark_csv_row ops overlap)))))"

definition bench_notes :: "bench_options \<Rightarrow> u64 \<Rightarrow> string" where
  "bench_notes options verified_bytes =
     key_value ''comparison_design'' ''serial_oracle_plus_overlap_ablation'' @
     key_value ''processing_stage'' ''byte_increment'' @
     key_value ''serial_execution'' ''one_thread_blocking_pread_process_pwrite'' @
     key_value ''pipeline_execution'' ''reader_processor_writer_jthreads'' @
     key_value ''read_backend'' ''sync'' @
     key_value ''coroutine_behavior'' ''sync_task_completes_in_reader_thread'' @
     key_value ''writer_io'' ''blocking_pwrite'' @
     key_value ''no_overlap_max_inflight_buffers'' ''1'' @
     key_value ''overlap_max_inflight_buffers''
       (u64_text (max_inflight_buffers (bo_overlap_config options))) @
     key_value ''queue_depth'' (u64_text (queue_depth (bo_overlap_config options))) @
     key_value ''timing_boundary'' ''execution_plus_output_fsync'' @
     key_value ''excluded_from_timing'' ''open_close_and_output_verification'' @
     key_value ''cache_policy'' ''not_modified_by_harness'' @
     key_value ''execution_order'' ''rotating_three_methods'' @
     key_value ''pipeline_metrics'' ''enabled'' @
     key_value ''output_verified'' ''true'' @
     key_value ''verified_bytes'' (u64_text verified_bytes)"

text \<open>The texts for \<open>std::cout\<close> and \<open>std::cerr\<close>.\<close>

definition run_benchmark ::
  "('m, 'r, 't, 'w, 'u, 'd) bench_machine \<Rightarrow> bench_options \<Rightarrow> 'm \<Rightarrow> 'w \<Rightarrow> ('m, 'w, string \<times> string) bench_outcome" where
  "run_benchmark bm options m w =
     and_then (Some (validate (bo_overlap_config options), m, w)) (\<lambda>_ m w.
       if max_inflight_buffers (bo_overlap_config options) < kMinimumThreeStageOverlapBuffers then
         Some (Inl (Invalid_argument ''overlap_max_inflight_buffers must be at least 3''), m, w)
       else
         (case validate_distinct_paths (bm_paths bm) options w of
            (Inl e, w1) \<Rightarrow> Some (Inl e, m, w1)
          | (Inr _, w1) \<Rightarrow>
              let no_overlap_config = (bo_overlap_config options)\<lparr>max_inflight_buffers := 1\<rparr> in
              and_then (Some (validate no_overlap_config, m, w1)) (\<lambda>_ m w.
              and_then (bench_loop bm options no_overlap_config (unat (bo_iterations options)) 0
                          \<lparr>bp_expected_blocks = 0, bp_expected_bytes = 0, bp_serial_samples_ms = [],
                           bp_no_overlap_samples_ms = [], bp_overlap_samples_ms = []\<rparr> m w)
                (\<lambda>progress m w.
              and_then (Some (bench_reports (bm_doubles bm) progress, m, w)) (\<lambda>csv m w.
                Some (Inr (csv, bench_notes options (bp_expected_bytes progress)), m, w))))))"

text \<open>\<open>main\<close>: the exit code and the two streams.\<close>

definition bench_main ::
  "('m, 'r, 't, 'w, 'u, 'd) bench_machine \<Rightarrow> (exn \<Rightarrow> string) \<Rightarrow> string list \<Rightarrow> 'm \<Rightarrow> 'w \<Rightarrow>
     ((int \<times> string \<times> string) \<times> 'm \<times> 'w) option" where
  "bench_main bm what argv m w =
     (case parse_bench_options argv of
        Inl message \<Rightarrow> Some ((1, [], message), m, w)
      | Inr options \<Rightarrow>
          (case run_benchmark bm options m w of
             None \<Rightarrow> None
           | Some (Inl e, m', w') \<Rightarrow>
               Some ((2, [], ''stage11 end-to-end benchmark failed: '' @ what e @ lf), m', w')
           | Some (Inr (csv, notes), m', w') \<Rightarrow> Some ((0, csv, notes), m', w')))"

section \<open>What a finished benchmark means\<close>

lemma and_then_Inr:
  "and_then r rest = Some (Inr x, m', w') \<longleftrightarrow>
     (\<exists>y m w. r = Some (Inr y, m, w) \<and> rest y m w = Some (Inr x, m', w'))"
  by (auto simp: and_then_def split: option.split sum.split)

text \<open>The three outputs hold the same bytes, as many as were counted.\<close>

definition outputs_agree :: "('w, 'k) fs_view \<Rightarrow> bench_options \<Rightarrow> u64 \<Rightarrow> 'w \<Rightarrow> bool" where
  "outputs_agree v options bytes w \<longleftrightarrow>
     (\<exists>c. fv_entries v w (fv_key v (bo_serial_output_path options)) = Some c \<and>
          fv_entries v w (fv_key v (bo_no_overlap_output_path options)) = Some c \<and>
          fv_entries v w (fv_key v (bo_overlap_output_path options)) = Some c \<and> unat bytes = length c)"

definition comparable :: "('m, 'r, 't, 'w, 'u, 'd) bench_machine \<Rightarrow> ('w, 'k) fs_view \<Rightarrow> bool" where
  "comparable bm v \<longleftrightarrow>
     opening_contract (bm_sys bm) v \<and> reading_contract (bm_sys bm) v \<and>
     quiet_files (bm_sys bm) (bm_close bm) v \<and>
     (\<exists>mi. interrupts_bounded (system_file_io_operations (bm_sys bm)) mi)"

lemma compare_outputs_Inr:
  assumes "compare_outputs bm options path m w = Some (Inr k, m', w')" and "comparable bm v"
  shows "fv_entries v w' = fv_entries v w \<and>
    (\<exists>c. fv_entries v w (fv_key v (bo_serial_output_path options)) = Some c \<and>
      fv_entries v w (fv_key v path) = Some c \<and> unat k = length c)"
proof -
  from assms(2) obtain mi where "opening_contract (bm_sys bm) v" "quiet_files (bm_sys bm) (bm_close bm) v"
    "reading_contract (bm_sys bm) v" "interrupts_bounded (system_file_io_operations (bm_sys bm)) mi"
    unfolding comparable_def by blast
  from comparison_outcome [OF assms(1) [unfolded compare_outputs_def] this] show ?thesis .
qed

lemma validate_against_serial_Inr:
  "validate_against_serial serial candidate verified name = Inr u \<longleftrightarrow>
     tr_blocks_written candidate = tr_blocks_written serial \<and> tr_bytes_written candidate = tr_bytes_written serial \<and>
     verified = tr_bytes_written serial"
  by (auto simp: validate_against_serial_def)

lemma finish_iteration_Inr:
  assumes "finish_iteration i progress results k1 k2 = Inr progress'"
  shows "k1 = bp_expected_bytes progress' \<and> k2 = bp_expected_bytes progress' \<and>
    length (bp_serial_samples_ms progress') = Suc (length (bp_serial_samples_ms progress)) \<and>
    length (bp_no_overlap_samples_ms progress') = Suc (length (bp_no_overlap_samples_ms progress)) \<and>
    length (bp_overlap_samples_ms progress') = Suc (length (bp_overlap_samples_ms progress)) \<and>
    (i \<noteq> 0 \<longrightarrow> bp_expected_bytes progress' = bp_expected_bytes progress)"
  using assms
  by (auto simp: finish_iteration_def validate_against_serial_Inr Let_def split: sum.splits if_splits)

lemma bench_iteration_outcome:
  assumes "bench_iteration bm options noc i progress m w = Some (Inr progress', m', w')" and "comparable bm v"
  shows "outputs_agree v options (bp_expected_bytes progress') w' \<and>
    length (bp_serial_samples_ms progress') = Suc (length (bp_serial_samples_ms progress)) \<and>
    length (bp_no_overlap_samples_ms progress') = Suc (length (bp_no_overlap_samples_ms progress)) \<and>
    length (bp_overlap_samples_ms progress') = Suc (length (bp_overlap_samples_ms progress)) \<and>
    (i \<noteq> 0 \<longrightarrow> bp_expected_bytes progress' = bp_expected_bytes progress)"
proof -
  from assms(1) obtain results m1 w1 k1 m2 w2 k2 where
    c1: "compare_outputs bm options (bo_no_overlap_output_path options) m1 w1 = Some (Inr k1, m2, w2)"
    and c2: "compare_outputs bm options (bo_overlap_output_path options) m2 w2 = Some (Inr k2, m', w')"
    and f: "finish_iteration i progress results k1 k2 = Inr progress'"
    by (auto simp: bench_iteration_def and_then_Inr Let_def)
  obtain c where c: "fv_entries v w1 (fv_key v (bo_serial_output_path options)) = Some c"
    "fv_entries v w1 (fv_key v (bo_no_overlap_output_path options)) = Some c" "unat k1 = length c"
    "fv_entries v w2 = fv_entries v w1"
    using compare_outputs_Inr [OF c1 assms(2)] by blast
  obtain d where d: "fv_entries v w2 (fv_key v (bo_serial_output_path options)) = Some d"
    "fv_entries v w2 (fv_key v (bo_overlap_output_path options)) = Some d" "fv_entries v w' = fv_entries v w2"
    using compare_outputs_Inr [OF c2 assms(2)] by blast
  have "outputs_agree v options k1 w'" using c d by (simp add: outputs_agree_def)
  with finish_iteration_Inr [OF f] show ?thesis by simp
qed

lemma bench_loop_outcome:
  assumes "comparable bm v"
  shows "bench_loop bm options noc n i progress m w = Some (Inr progress', m', w') \<Longrightarrow>
    (n \<noteq> 0 \<longrightarrow> outputs_agree v options (bp_expected_bytes progress') w') \<and>
    length (bp_serial_samples_ms progress') = n + length (bp_serial_samples_ms progress) \<and>
    length (bp_no_overlap_samples_ms progress') = n + length (bp_no_overlap_samples_ms progress) \<and>
    length (bp_overlap_samples_ms progress') = n + length (bp_overlap_samples_ms progress) \<and>
    (i \<noteq> 0 \<longrightarrow> bp_expected_bytes progress' = bp_expected_bytes progress)"
proof (induction n arbitrary: i progress m w)
  case (Suc n)
  from Suc.prems obtain p1 m1 w1 where
    it: "bench_iteration bm options noc i progress m w = Some (Inr p1, m1, w1)"
    and rest: "bench_loop bm options noc n (Suc i) p1 m1 w1 = Some (Inr progress', m', w')"
    by (auto simp: and_then_Inr)
  note one = bench_iteration_outcome [OF it assms] and more = Suc.IH [OF rest]
  have "outputs_agree v options (bp_expected_bytes progress') w'"
  proof (cases n)
    case 0
    with rest have "progress' = p1" "w' = w1" by simp_all
    with one show ?thesis by blast
  next
    case (Suc k)
    with more show ?thesis by blast
  qed
  with one more show ?case by simp
qed simp

lemma run_benchmark_outcome:
  fixes bm :: "('m, 'r, 't, 'w, 'u, 'd) bench_machine"
  assumes "run_benchmark bm options m w = Some (Inr (csv, notes), m', w')" and "comparable bm v"
    and "bo_iterations options \<noteq> 0"
  shows "\<exists>progress. outputs_agree v options (bp_expected_bytes progress) w' \<and>
    length (bp_serial_samples_ms progress) = unat (bo_iterations options) \<and>
    length (bp_no_overlap_samples_ms progress) = unat (bo_iterations options) \<and>
    length (bp_overlap_samples_ms progress) = unat (bo_iterations options) \<and>
    bench_reports (bm_doubles bm) progress = Inr csv \<and> notes = bench_notes options (bp_expected_bytes progress)"
proof -
  define start where
    "start = \<lparr>bp_expected_blocks = 0, bp_expected_bytes = 0, bp_serial_samples_ms = [],
       bp_no_overlap_samples_ms = [], bp_overlap_samples_ms = ([] :: 'd list)\<rparr>"
  from assms(1) obtain w1 where v: "validate_distinct_paths (bm_paths bm) options w = (Inr (), w1)"
    unfolding run_benchmark_def and_then_Inr by (cases "validate_distinct_paths (bm_paths bm) options w")
      (auto split: if_splits sum.splits)
  from assms(1) obtain progress m1 w2 where
    loop: "bench_loop bm options ((bo_overlap_config options)\<lparr>max_inflight_buffers := 1\<rparr>)
        (unat (bo_iterations options)) 0 start m1 w2 = Some (Inr progress, m', w')"
    and out: "bench_reports (bm_doubles bm) progress = Inr csv"
      "notes = bench_notes options (bp_expected_bytes progress)"
    unfolding run_benchmark_def Let_def start_def [symmetric]
    by (simp add: v and_then_Inr split: if_split_asm) blast
  have "unat (bo_iterations options) \<noteq> 0" using assms(3) by (simp add: unat_eq_zero)
  with bench_loop_outcome [OF assms(2) loop] out show ?thesis
    by (intro exI [of _ progress]) (simp add: start_def)
qed

lemma parse_bounded_size_positive:
  "parse_bounded_size t maximum label 1 = Inr n \<Longrightarrow> n \<noteq> 0"
  by (auto simp: parse_bounded_size_def parse_positive_size_def split: prod.splits bool.splits if_splits)

lemma parse_bench_arguments_iterations:
  "parse_bench_arguments input serial no_overlap overlap a5 a6 a7 a8 = Inr options \<Longrightarrow> bo_iterations options \<noteq> 0"
  by (auto simp: parse_bench_arguments_def split: if_splits sum.splits option.splits
      dest!: parse_bounded_size_positive [where label = "''iterations''"])

lemma parse_bench_options_iterations: "parse_bench_options argv = Inr options \<Longrightarrow> bo_iterations options \<noteq> 0"
  by (auto simp: parse_bench_options_def split: list.splits dest: parse_bench_arguments_iterations)

lemma bench_main_zero:
  assumes "bench_main bm what argv m w = Some ((0, csv, log), m', w')" and "parse_bench_options argv = Inr options"
  shows "run_benchmark bm options m w = Some (Inr (csv, log), m', w')"
  using assms by (auto simp: bench_main_def split: option.splits sum.splits)

section \<open>A run of the benchmark\<close>

text \<open>The disk of the demo, an \<open>O_TRUNC\<close> open, doubles of one value, one block with three buffers.\<close>

definition disk_truncate :: "string \<Rightarrow> disk \<Rightarrow> syscall_result \<times> disk" where
  "disk_truncate path d =
     (let name = path_filename path in
      (Sys_ok 4, d\<lparr>dk_entries := (dk_entries d)(name \<mapsto> []), dk_open := (dk_open d)(4 \<mapsto> name)\<rparr>))"

definition unit_statistics :: "unit statistic_ops" where
  "unit_statistics =
     \<lparr>d_of_u64 = \<lambda>_. (), d_literal = \<lambda>_. (), d_times = \<lambda>_ _. (), d_divide = \<lambda>_ _. (), d_less = \<lambda>_ _. False,
      d_le = \<lambda>_ _. False, d_isfinite = \<lambda>_. True, d_to_size = \<lambda>_. 1, d_fixed = \<lambda>_ _. ''0'',
      d_plus = \<lambda>_ _. (), d_ceil = \<lambda>_. (), d_hundredths = \<lambda>_. (), d_general = \<lambda>_ _. ''0''\<rparr>"

definition bench_schedule :: "(exec_thread \<times> exec_choice) list" where
  "bench_schedule = map (\<lambda>t. (t, quiet))
     ([T_main, T_main, T_main] @ [T_reader, T_reader, T_reader] @ [T_processor, T_processor, T_processor] @
      [T_writer, T_writer, T_writer] @ [T_reader, T_reader, T_reader] @ [T_processor, T_processor] @
      [T_writer, T_reader, T_main])"

definition bench_example ::
  "(nat, byte list, (sync_frame, read_value) task, disk, nat, unit) bench_machine" where
  "bench_example =
     \<lparr>bm_allocator = bump_allocator, bm_sys = demo_posix, bm_paths = demo_path_calls,
      bm_open_truncated = disk_truncate, bm_close = fs_close disk_calls, bm_users = throwing_stages,
      bm_sync_backend = sync_backend plain_posix, bm_sync_world = [1, 2, 255],
      bm_schedule = \<lambda>_. bench_schedule, bm_stage_latency = \<lambda>_ _ _. 0, bm_elapsed_ms = \<lambda>_. (),
      bm_doubles = unit_statistics\<rparr>"

definition bench_example_options :: bench_options where
  "bench_example_options =
     \<lparr>bo_input_path = ''in'', bo_serial_output_path = ''a'', bo_no_overlap_output_path = ''b'',
      bo_overlap_output_path = ''c'',
      bo_overlap_config = \<lparr>block_size = 8, max_inflight_buffers = 3, queue_depth = 1, buffer_alignment = 8\<rparr>,
      bo_iterations = 1\<rparr>"

lemma bench_example_value:
  "map_option (\<lambda>(r, _). map_sum (\<lambda>_. ()) (\<lambda>_. ()) r)
     (run_benchmark bench_example bench_example_options 0 example_disk) = Some (Inr ())"
  by code_simp

lemma bench_example_comparable: "comparable bench_example disk_view"
proof -
  have "quiet_files demo_posix (fs_close disk_calls) disk_view"
    using demo_contracts(1) by (intro quiet_calls_files) (simp add: fs_contract_def)
  then show ?thesis using demo_contracts(2-4) by (auto simp: comparable_def bench_example_def)
qed

text \<open>Exit code zero of \<open>main\<close> is a finished \<open>run_benchmark\<close> with at least one iteration.\<close>

lemma bench_main_equal_outputs:
  assumes "bench_main bm what argv m w = Some ((0, csv, log), m', w')" and "parse_bench_options argv = Inr options"
    and "comparable bm v"
  shows "\<exists>c. fv_entries v w' (fv_key v (bo_serial_output_path options)) = Some c \<and>
    fv_entries v w' (fv_key v (bo_no_overlap_output_path options)) = Some c \<and>
    fv_entries v w' (fv_key v (bo_overlap_output_path options)) = Some c"
  using run_benchmark_outcome [OF bench_main_zero [OF assms(1,2)] assms(3) parse_bench_options_iterations [OF assms(2)]]
  by (auto simp: outputs_agree_def)

section \<open>Property\<close>

text \<open>
  C26: A benchmark that reports success has measured equal work. If the end-to-end benchmark finishes
  without an exception, then the three output files (serial loop, pipeline without and with overlap)
  hold the same bytes, the count of verified bytes in the log is their length, each method has
  exactly one sample for every requested iteration, and the CSV is the three reports of these
  samples, for every schedule, allocator and measured time.
\<close>

theorem benchmark_outputs_equal:
  assumes "run_benchmark bm options m w = Some (Inr (csv, log), m', w')" and "comparable bm v"
    and "bo_iterations options \<noteq> 0"
  shows "\<exists>progress c. map (\<lambda>path. fv_entries v w' (fv_key v path))
        [bo_serial_output_path options, bo_no_overlap_output_path options, bo_overlap_output_path options] =
        [Some c, Some c, Some c] \<and>
    unat (bp_expected_bytes progress) = length c \<and> log = bench_notes options (bp_expected_bytes progress) \<and>
    map length [bp_serial_samples_ms progress, bp_no_overlap_samples_ms progress, bp_overlap_samples_ms progress] =
      replicate 3 (unat (bo_iterations options)) \<and>
    bench_reports (bm_doubles bm) progress = Inr csv"
  using run_benchmark_outcome [OF assms] by (elim exE conjE) (auto simp: outputs_agree_def numeral_3_eq_3)

theorem benchmark_outputs_equal_witness:
  "\<exists>csv log m' w' c. run_benchmark bench_example bench_example_options 0 example_disk = Some (Inr (csv, log), m', w') \<and>
     dk_entries w' ''a'' = Some c \<and> dk_entries w' ''b'' = Some c \<and> dk_entries w' ''c'' = Some c"
proof -
  obtain r m' w' where r: "run_benchmark bench_example bench_example_options 0 example_disk = Some (r, m', w')"
    using bench_example_value by auto
  then obtain csv log where "r = Inr (csv, log)" using bench_example_value by (cases r) auto
  note run = r [unfolded this]
  have "bo_iterations bench_example_options \<noteq> 0" by (simp add: bench_example_options_def)
  from benchmark_outputs_equal [OF run bench_example_comparable this] run show ?thesis
    by (fastforce simp: bench_example_options_def disk_view_def path_filename_def)
qed

end
