(* ===== verification/Benchmark_Matrix.thy ===== *)
theory Benchmark_Matrix
  imports Benchmark_Runs "HOL-Library.Sublist"
begin

text \<open>
  \<open>benchmark/stage11_bench_backends.cpp\<close>: the same pipeline over every backend that can be built,
  each output compared with the one of a serial oracle.
\<close>

section \<open>Options\<close>

record matrix_options =
  mo_input_path :: string
  mo_output_directory :: string
  mo_pipeline_config :: pipeline_config
  mo_thread_workers :: size_t
  mo_iterations :: size_t
  mo_disable_auto_uring :: bool
  mo_disable_auto_thread_pool :: bool

definition matrix_usage :: string where
  "matrix_usage =
     ''usage: stage11_bench_backends <input> <output_directory> '' @
     ''<block_size> <max_inflight_buffers> <queue_depth> '' @
     ''<thread_workers> [iterations] [--disable-uring] '' @
     ''[--disable-threadpool]'' @ lf @
     ''note: disable switches affect Auto selection only'' @ lf"

fun parse_matrix_flags :: "string list \<Rightarrow> matrix_options \<Rightarrow> string + matrix_options" where
  "parse_matrix_flags [] options = Inr options"
| "parse_matrix_flags (argument # arguments) options =
     (if argument = ''--disable-uring'' then
        parse_matrix_flags arguments (options\<lparr>mo_disable_auto_uring := True\<rparr>)
      else if argument = ''--disable-threadpool'' then
        parse_matrix_flags arguments (options\<lparr>mo_disable_auto_thread_pool := True\<rparr>)
      else Inl (''unknown option: '' @ argument @ lf))"

text \<open>The arguments from the seventh on: the iterations, unless the first of them is a switch.\<close>

definition parse_matrix_rest :: "string list \<Rightarrow> matrix_options \<Rightarrow> string + matrix_options" where
  "parse_matrix_rest arguments options =
     (case arguments of
        [] \<Rightarrow> Inr options
      | argument # flags \<Rightarrow>
          if starts_with argument ''--'' then parse_matrix_flags arguments options
          else
            (case parse_bounded_size argument kMaxBenchmarkIterations ''iterations'' (mo_iterations options) of
               Inl message \<Rightarrow> Inl message
             | Inr iterations \<Rightarrow> parse_matrix_flags flags (options\<lparr>mo_iterations := iterations\<rparr>)))"

definition parse_matrix_sizes ::
  "string \<Rightarrow> string \<Rightarrow> string \<Rightarrow> string \<Rightarrow> matrix_options \<Rightarrow> string + matrix_options" where
  "parse_matrix_sizes a3 a4 a5 a6 options =
     (case parse_bounded_size a3 kMaxBenchmarkBlockSize ''block_size'' (block_size (mo_pipeline_config options)) of
        Inl message \<Rightarrow> Inl message
      | Inr block \<Rightarrow>
     (case parse_bounded_size a4 kMaxBenchmarkCapacity ''max_inflight_buffers''
             (max_inflight_buffers (mo_pipeline_config options)) of
        Inl message \<Rightarrow> Inl message
      | Inr buffer_limit \<Rightarrow>
     (case parse_bounded_size a5 kMaxBenchmarkCapacity ''queue_depth'' (queue_depth (mo_pipeline_config options)) of
        Inl message \<Rightarrow> Inl message
      | Inr depth \<Rightarrow>
     (case parse_bounded_size a6 kMaxBenchmarkCapacity ''thread_workers'' (mo_thread_workers options) of
        Inl message \<Rightarrow> Inl message
      | Inr workers \<Rightarrow>
          Inr (options\<lparr>mo_pipeline_config :=
                 \<lparr>block_size = block, max_inflight_buffers = buffer_limit, queue_depth = depth,
                  buffer_alignment = kBenchmarkAlignment\<rparr>, mo_thread_workers := workers\<rparr>)))))"

definition parse_matrix_options :: "string list \<Rightarrow> string + matrix_options" where
  "parse_matrix_options argv =
     (case argv of
        program # input # directory # a3 # a4 # a5 # a6 # rest \<Rightarrow>
          if 3 < length rest then Inl matrix_usage
          else if input = [] \<or> directory = [] then Inl (''input and output directory must not be empty'' @ lf)
          else
            (case parse_matrix_sizes a3 a4 a5 a6
                    \<lparr>mo_input_path = input, mo_output_directory = directory, mo_pipeline_config = default_config,
                     mo_thread_workers = 2, mo_iterations = 1, mo_disable_auto_uring = False,
                     mo_disable_auto_thread_pool = False\<rparr> of
               Inl message \<Rightarrow> Inl message
             | Inr options \<Rightarrow> parse_matrix_rest rest options)
      | _ \<Rightarrow> Inl matrix_usage)"

section \<open>Paths\<close>

record output_paths =
  out_serial_oracle :: string
  out_sync :: string
  out_thread_pool :: string
  out_io_uring :: string
  out_automatic :: string

definition make_output_paths :: "string \<Rightarrow> output_paths" where
  "make_output_paths output_directory =
     \<lparr>out_serial_oracle = path_append output_directory ''serial-oracle.bin'',
      out_sync = path_append output_directory ''sync.bin'',
      out_thread_pool = path_append output_directory ''thread-pool.bin'',
      out_io_uring = path_append output_directory ''io-uring.bin'',
      out_automatic = path_append output_directory ''auto.bin''\<rparr>"

definition require_existing_output_directory :: "'w path_calls \<Rightarrow> string \<Rightarrow> 'w \<Rightarrow> unit res \<times> 'w" where
  "require_existing_output_directory pc path w =
     (case pc_is_directory pc path w of ((is_directory, error), w') \<Rightarrow>
        if error \<noteq> 0 then (Inl (System_error error ''inspect benchmark output directory''), w')
        else if \<not> is_directory then
          (Inl (Invalid_argument ''benchmark output_directory must already exist''), w')
        else (Inr (), w'))"

definition matrix_reject_same_file :: "'w path_calls \<Rightarrow> string \<Rightarrow> string \<Rightarrow> 'w \<Rightarrow> unit res \<times> 'w" where
  "matrix_reject_same_file pc left right =
     bench_reject_same_file pc left right ''benchmark input and output files must all differ''"

text \<open>The inner and the outer loop over the paths.\<close>

fun reject_against :: "'w path_calls \<Rightarrow> string \<Rightarrow> string list \<Rightarrow> 'w \<Rightarrow> unit res \<times> 'w" where
  "reject_against pc left [] w = (Inr (), w)"
| "reject_against pc left (right # rest) w =
     (case matrix_reject_same_file pc left right w of
        (Inl e, w') \<Rightarrow> (Inl e, w')
      | (Inr _, w') \<Rightarrow> reject_against pc left rest w')"

fun reject_pairs :: "'w path_calls \<Rightarrow> string list \<Rightarrow> 'w \<Rightarrow> unit res \<times> 'w" where
  "reject_pairs pc [] w = (Inr (), w)"
| "reject_pairs pc (left # rest) w =
     (case reject_against pc left rest w of
        (Inl e, w') \<Rightarrow> (Inl e, w')
      | (Inr _, w') \<Rightarrow> reject_pairs pc rest w')"

definition matrix_distinct_paths :: "'w path_calls \<Rightarrow> string \<Rightarrow> output_paths \<Rightarrow> 'w \<Rightarrow> unit res \<times> 'w" where
  "matrix_distinct_paths pc input_path outputs =
     reject_pairs pc [input_path, out_serial_oracle outputs, out_sync outputs, out_thread_pool outputs,
       out_io_uring outputs, out_automatic outputs]"

section \<open>Methods\<close>

record 'd backend_method =
  me_requested_backend :: string
  me_selected_backend :: string
  me_report_name :: string
  me_output_path :: string
  me_backend_config :: backend_config
  me_samples_ms :: "'d list"

definition make_backend_config :: "matrix_options \<Rightarrow> backend_kind \<Rightarrow> backend_config" where
  "make_backend_config options kind =
     \<lparr>bc_kind = kind,
      bc_uring_queue_depth = ucast (max_inflight_buffers (mo_pipeline_config options)),
      bc_thread_pool_worker_count = mo_thread_workers options,
      bc_max_inflight = max_inflight_buffers (mo_pipeline_config options),
      bc_auto_try_uring = (\<not> mo_disable_auto_uring options),
      bc_auto_try_thread_pool = (\<not> mo_disable_auto_thread_pool options)\<rparr>"

text \<open>
  The machine of the benchmark with the constructors of the backends; a backend comes with the world
  it reads from.
\<close>

record ('m, 'r, 't, 'w, 'u, 'd) matrix_machine = "('m, 'r, 't, 'w, 'u, 'd) bench_machine" +
  mm_has_liburing :: bool
  mm_constructors :: "(('r, 't) io_backend \<times> 'r, 'w) backend_constructors"

definition matrix_backend ::
  "('m, 'r, 't, 'w, 'u, 'd) matrix_machine \<Rightarrow> backend_config \<Rightarrow> 'w \<Rightarrow> (('r, 't) io_backend \<times> 'r) res \<times> 'w" where
  "matrix_backend mm = backend_create (mm_has_liburing mm) (mm_constructors mm)"

definition make_backend_method ::
  "('m, 'r, 't, 'w, 'u, 'd) matrix_machine \<Rightarrow> string \<Rightarrow> string \<Rightarrow> string \<Rightarrow> backend_config \<Rightarrow> 'w \<Rightarrow>
     'd backend_method res \<times> 'w" where
  "make_backend_method mm requested report_prefix output_path config w =
     (case matrix_backend mm config w of
        (Inl e, w') \<Rightarrow> (Inl e, w')
      | (Inr backend, w') \<Rightarrow>
          (Inr \<lparr>me_requested_backend = requested, me_selected_backend = be_name (fst backend),
                me_report_name = report_prefix @ be_name (fst backend) @ ''_byte_increment'',
                me_output_path = output_path, me_backend_config = config, me_samples_ms = []\<rparr>, w'))"

definition error_code_text :: "int \<Rightarrow> string" where
  "error_code_text n = (if n < 0 then CHR ''-'' # decimal (nat (- n)) else decimal (nat n))"

text \<open>The method or \<open>nullopt\<close>, and the text written to \<open>std::cerr\<close>; every system error here is generic.\<close>

definition try_make_explicit_method ::
  "('m, 'r, 't, 'w, 'u, 'd) matrix_machine \<Rightarrow> string \<Rightarrow> string \<Rightarrow> backend_config \<Rightarrow> 'w \<Rightarrow>
     ('d backend_method option \<times> string) res \<times> 'w" where
  "try_make_explicit_method mm requested output_path config w =
     (case make_backend_method mm requested ''pipeline_'' output_path config w of
        (Inr x, w') \<Rightarrow> (Inr (Some x, []), w')
      | (Inl (System_error error_number operation), w') \<Rightarrow>
          (Inr (None, ''skipped_backend='' @ requested @ '',error_code='' @ error_code_text error_number @
                      '',error_category=generic'' @ lf), w')
      | (Inl e, w') \<Rightarrow> (Inl e, w'))"

text \<open>The vector of methods, and the text written to \<open>std::cerr\<close> also when an exception ends it.\<close>

definition prepare_methods ::
  "('m, 'r, 't, 'w, 'u, 'd) matrix_machine \<Rightarrow> matrix_options \<Rightarrow> output_paths \<Rightarrow> 'w \<Rightarrow>
     ('d backend_method list res \<times> string) \<times> 'w" where
  "prepare_methods mm options outputs w =
     (let config = make_backend_config options in
      (case make_backend_method mm ''sync'' ''pipeline_'' (out_sync outputs) (config Sync) w of
         (Inl e, w1) \<Rightarrow> ((Inl e, []), w1)
       | (Inr sync, w1) \<Rightarrow>
      (case try_make_explicit_method mm ''thread_pool'' (out_thread_pool outputs) (config ThreadPool) w1 of
         (Inl e, w2) \<Rightarrow> ((Inl e, []), w2)
       | (Inr (thread_pool, skipped1), w2) \<Rightarrow>
      (case try_make_explicit_method mm ''io_uring'' (out_io_uring outputs) (config Uring) w2 of
         (Inl e, w3) \<Rightarrow> ((Inl e, skipped1), w3)
       | (Inr (io_uring, skipped2), w3) \<Rightarrow>
      (case make_backend_method mm ''auto'' ''pipeline_auto_selected_'' (out_automatic outputs) (config Auto) w3 of
         (Inl e, w4) \<Rightarrow> ((Inl e, skipped1 @ skipped2), w4)
       | (Inr automatic, w4) \<Rightarrow>
           ((Inr ([sync] @ (case thread_pool of None \<Rightarrow> [] | Some x \<Rightarrow> [x]) @
                  (case io_uring of None \<Rightarrow> [] | Some x \<Rightarrow> [x]) @ [automatic]), skipped1 @ skipped2), w4))))))"

section \<open>Samples\<close>

definition validate_against_oracle ::
  "'d timed_result \<Rightarrow> 'd timed_result \<Rightarrow> u64 \<Rightarrow> string \<Rightarrow> unit res" where
  "validate_against_oracle oracle candidate verified_bytes requested =
     (if tr_blocks_written oracle \<noteq> tr_blocks_written candidate \<or>
         tr_bytes_written oracle \<noteq> tr_bytes_written candidate then
        Inl (Runtime_error (requested @ '' byte/block counts differ from the serial oracle''))
      else if verified_bytes \<noteq> tr_bytes_written oracle then
        Inl (Runtime_error (requested @ '' verified length differs from the serial oracle''))
      else Inr ())"

definition matrix_sample ::
  "('m, 'r, 't, 'w, 'u, 'd) matrix_machine \<Rightarrow> matrix_options \<Rightarrow> string \<Rightarrow> 'd timed_result \<Rightarrow> nat \<Rightarrow>
   'd backend_method \<Rightarrow> 'm \<Rightarrow> 'w \<Rightarrow> ('m, 'w, 'd backend_method) bench_outcome" where
  "matrix_sample mm options oracle_path oracle k x m w =
     (let bm = bench_machine.truncate mm; config = mo_pipeline_config options in
      (case matrix_backend mm (me_backend_config x) w of
         (Inl e, w1) \<Rightarrow> Some (Inl e, m, w1)
       | (Inr backend, w1) \<Rightarrow>
           if be_name (fst backend) \<noteq> me_selected_backend x then
             Some (Inl (Runtime_error (me_requested_backend x @ '' selected a different backend between iterations'')),
               m, w1)
           else
             and_then (run_timed_pipeline_byte_increment bm backend k (mo_input_path options) (me_output_path x)
                 config m w1) (\<lambda>sample m w.
             and_then (verify_files_equal_bounded (bm_allocator bm) (bm_sys bm) (bm_close bm) oracle_path
                 (me_output_path x) config m w) (\<lambda>verified_bytes m w.
               Some (case validate_against_oracle oracle sample verified_bytes (me_requested_backend x) of
                       Inl e \<Rightarrow> Inl e
                     | Inr _ \<Rightarrow> Inr (x\<lparr>me_samples_ms := me_samples_ms x @ [tr_elapsed_ms sample]\<rparr>), m, w)))))"

text \<open>One iteration: \<open>remaining\<close> positions from \<open>position\<close> on.\<close>

fun matrix_positions ::
  "('m, 'r, 't, 'w, 'u, 'd) matrix_machine \<Rightarrow> matrix_options \<Rightarrow> string \<Rightarrow> 'd timed_result \<Rightarrow> nat \<Rightarrow> nat \<Rightarrow> nat \<Rightarrow>
   'd backend_method list \<Rightarrow> 'm \<Rightarrow> 'w \<Rightarrow> ('m, 'w, 'd backend_method list) bench_outcome" where
  "matrix_positions mm options oracle_path oracle iteration 0 position methods m w = Some (Inr methods, m, w)"
| "matrix_positions mm options oracle_path oracle iteration (Suc remaining) position methods m w =
     (let index = (iteration + position) mod length methods in
      and_then (matrix_sample mm options oracle_path oracle (Suc (iteration * length methods + position))
          (methods ! index) m w) (\<lambda>x m w.
        matrix_positions mm options oracle_path oracle iteration remaining (Suc position) (methods[index := x]) m w))"

fun matrix_iterations ::
  "('m, 'r, 't, 'w, 'u, 'd) matrix_machine \<Rightarrow> matrix_options \<Rightarrow> string \<Rightarrow> 'd timed_result \<Rightarrow> nat \<Rightarrow> nat \<Rightarrow>
   'd backend_method list \<Rightarrow> 'm \<Rightarrow> 'w \<Rightarrow> ('m, 'w, 'd backend_method list) bench_outcome" where
  "matrix_iterations mm options oracle_path oracle 0 iteration methods m w = Some (Inr methods, m, w)"
| "matrix_iterations mm options oracle_path oracle (Suc remaining) iteration methods m w =
     and_then (matrix_positions mm options oracle_path oracle iteration (length methods) 0 methods m w)
       (\<lambda>methods m w. matrix_iterations mm options oracle_path oracle remaining (Suc iteration) methods m w)"

text \<open>The oracle, which is the sample of number 0, and all iterations.\<close>

definition measure_matrix ::
  "('m, 'r, 't, 'w, 'u, 'd) matrix_machine \<Rightarrow> matrix_options \<Rightarrow> output_paths \<Rightarrow> 'd backend_method list \<Rightarrow>
   'm \<Rightarrow> 'w \<Rightarrow> ('m, 'w, 'd timed_result \<times> 'd backend_method list) bench_outcome" where
  "measure_matrix mm options outputs methods m w =
     and_then (run_timed_serial_byte_increment (bench_machine.truncate mm) 0 (mo_input_path options)
         (out_serial_oracle outputs) (mo_pipeline_config options) m w) (\<lambda>oracle m w.
     and_then (matrix_iterations mm options (out_serial_oracle outputs) oracle (unat (mo_iterations options)) 0
         methods m w) (\<lambda>methods m w.
       Some (Inr (oracle, methods), m, w)))"

section \<open>Reports\<close>

text \<open>What reaches \<open>std::cout\<close>, and the exception of a report that cannot be made.\<close>

fun matrix_rows :: "'d statistic_ops \<Rightarrow> u64 \<Rightarrow> 'd backend_method list \<Rightarrow> string \<times> unit res" where
  "matrix_rows ops bytes [] = ([], Inr ())"
| "matrix_rows ops bytes (x # xs) =
     (case make_benchmark_report ops (me_report_name x) bytes bytes (me_samples_ms x) of
        Inl e \<Rightarrow> ([], Inl e)
      | Inr report \<Rightarrow>
          (case matrix_rows ops bytes xs of (text, r) \<Rightarrow> (write_benchmark_csv_row ops report @ text, r)))"

definition matrix_notes :: "matrix_options \<Rightarrow> string \<Rightarrow> u64 \<Rightarrow> string" where
  "matrix_notes options auto_selected_backend verified_bytes =
     key_value ''comparison_design'' ''same_pipeline_read_backend_matrix'' @
     key_value ''oracle'' ''serial_sync_byte_increment_not_timed_in_matrix'' @
     key_value ''processing_stage'' ''byte_increment'' @
     key_value ''pipeline_execution'' ''reader_processor_writer_jthreads'' @
     key_value ''sync_read_model'' ''blocking_pread_in_reader_thread'' @
     key_value ''thread_pool_read_model'' ''coroutine_suspend_worker_pread_resume'' @
     key_value ''io_uring_read_model'' ''coroutine_suspend_sqe_cqe_resume'' @
     key_value ''read_inflight_model'' ''one_read_task_at_a_time'' @
     key_value ''writer_io'' ''blocking_pwrite_for_all_methods'' @
     key_value ''auto_is_selection_policy'' ''true'' @
     key_value ''auto_selected_backend'' auto_selected_backend @
     key_value ''thread_workers'' (u64_text (mo_thread_workers options)) @
     key_value ''max_inflight_buffers'' (u64_text (max_inflight_buffers (mo_pipeline_config options))) @
     key_value ''queue_depth'' (u64_text (queue_depth (mo_pipeline_config options))) @
     key_value ''backend_construction'' ''outside_timing_fresh_per_sample'' @
     key_value ''timing_boundary'' ''execution_plus_output_fsync'' @
     key_value ''excluded_from_timing'' ''open_close_oracle_and_output_verification'' @
     key_value ''cache_policy'' ''not_modified_by_harness'' @
     key_value ''execution_order'' ''rotating_available_backends'' @
     key_value ''pipeline_metrics'' ''enabled'' @
     key_value ''output_verified'' ''true'' @
     key_value ''verified_bytes'' (u64_text verified_bytes)"

text \<open>
  An end with the texts of \<open>std::cout\<close> and \<open>std::cerr\<close>, the memory and the world.
\<close>

type_synonym ('m, 'w) matrix_outcome = "(unit res \<times> (string \<times> string) \<times> 'm \<times> 'w) option"

text \<open>The checks before anything is built.\<close>

definition check_matrix :: "'w path_calls \<Rightarrow> matrix_options \<Rightarrow> 'w \<Rightarrow> output_paths res \<times> 'w" where
  "check_matrix pc options w =
     (case validate (mo_pipeline_config options) of
        Inl e \<Rightarrow> (Inl e, w)
      | Inr _ \<Rightarrow>
          if max_inflight_buffers (mo_pipeline_config options) < kMinimumThreeStageOverlapBuffers then
            (Inl (Invalid_argument ''max_inflight_buffers must be at least 3 for backend comparison''), w)
          else if 4294967295 < max_inflight_buffers (mo_pipeline_config options) then
            (Inl (Invalid_argument ''max_inflight_buffers exceeds the io_uring queue-depth range''), w)
          else
            (case require_existing_output_directory pc (mo_output_directory options) w of
               (Inl e, w1) \<Rightarrow> (Inl e, w1)
             | (Inr _, w1) \<Rightarrow>
                 (let outputs = make_output_paths (mo_output_directory options) in
                  case matrix_distinct_paths pc (mo_input_path options) outputs w1 of
                    (Inl e, w2) \<Rightarrow> (Inl e, w2)
                  | (Inr _, w2) \<Rightarrow> (Inr outputs, w2))))"

definition run_matrix ::
  "('m, 'r, 't, 'w, 'u, 'd) matrix_machine \<Rightarrow> matrix_options \<Rightarrow> 'm \<Rightarrow> 'w \<Rightarrow> ('m, 'w) matrix_outcome" where
  "run_matrix mm options m w =
     (case check_matrix (bm_paths mm) options w of
        (Inl e, w1) \<Rightarrow> Some (Inl e, ([], []), m, w1)
      | (Inr outputs, w1) \<Rightarrow>
     (case prepare_methods mm options outputs w1 of
        ((Inl e, skipped), w2) \<Rightarrow> Some (Inl e, ([], skipped), m, w2)
      | ((Inr methods, skipped), w2) \<Rightarrow>
     (case measure_matrix mm options outputs methods m w2 of
        None \<Rightarrow> None
      | Some (Inl e, m', w3) \<Rightarrow> Some (Inl e, ([], skipped), m', w3)
      | Some (Inr (oracle, methods'), m', w3) \<Rightarrow>
          (case matrix_rows (bm_doubles mm) (tr_bytes_written oracle) methods' of
             (rows, Inl e) \<Rightarrow> Some (Inl e, (write_benchmark_csv_header @ rows, skipped), m', w3)
           | (rows, Inr _) \<Rightarrow>
               Some (Inr (), (write_benchmark_csv_header @ rows,
                 skipped @ matrix_notes options (me_selected_backend (last methods)) (tr_bytes_written oracle)),
                 m', w3)))))"

definition matrix_main ::
  "('m, 'r, 't, 'w, 'u, 'd) matrix_machine \<Rightarrow> (exn \<Rightarrow> string) \<Rightarrow> string list \<Rightarrow> 'm \<Rightarrow> 'w \<Rightarrow>
     ((int \<times> string \<times> string) \<times> 'm \<times> 'w) option" where
  "matrix_main mm what argv m w =
     (case parse_matrix_options argv of
        Inl message \<Rightarrow> Some ((1, [], message), m, w)
      | Inr options \<Rightarrow>
          (case run_matrix mm options m w of
             None \<Rightarrow> None
           | Some (Inr _, (out, err), m', w') \<Rightarrow> Some ((0, out, err), m', w')
           | Some (Inl e, (out, err), m', w') \<Rightarrow>
               Some ((2, out, err @ ''stage11 backend benchmark failed: '' @ what e @ lf), m', w')))"

section \<open>What a finished comparison means\<close>

text \<open>
  What the files promise beside the comparison: writes go to the entry behind their descriptor, the
  truncating open empties the entry of its path, and the other calls leave the entries alone.
\<close>

definition truncating_contract :: "(string \<Rightarrow> 'w \<Rightarrow> syscall_result \<times> 'w) \<Rightarrow> ('w, 'k) fs_view \<Rightarrow> bool" where
  "truncating_contract open_truncated v \<longleftrightarrow>
     (\<forall>path w r w'. open_truncated path w = (r, w') \<longrightarrow>
        (case r of
           Sys_ok fd \<Rightarrow> fv_entries v w' = (fv_entries v w)(fv_key v path \<mapsto> []) \<and>
             fv_file v w' (int fd) = Some [] \<and> fv_entry v w' (int fd) = Some (fv_key v path)
         | Sys_failed e \<Rightarrow> fv_entries v w' = fv_entries v w))"

definition quiet_paths :: "'w path_calls \<Rightarrow> ('w, 'k) fs_view \<Rightarrow> bool" where
  "quiet_paths pc v \<longleftrightarrow>
     (\<forall>path w. fv_entries v (snd (pc_weakly_canonical pc path w)) = fv_entries v w) \<and>
     (\<forall>l r w. fv_entries v (snd (pc_equivalent pc l r w)) = fv_entries v w)"

definition matrix_files :: "('m, 'r, 't, 'w, 'u, 'd) matrix_machine \<Rightarrow> ('w, 'k) fs_view \<Rightarrow> bool" where
  "matrix_files mm v \<longleftrightarrow>
     comparable (bench_machine.truncate mm) v \<and> data_contract (bm_sys mm) v \<and>
     canonical_contract (bm_paths mm) v \<and> quiet_paths (bm_paths mm) v \<and>
     truncating_contract (bm_open_truncated mm) v \<and>
     (\<forall>config w. fv_entries v (snd (matrix_backend mm config w)) = fv_entries v w)"

lemma normalized_path_quiet:
  "quiet_paths pc v \<Longrightarrow> normalized_path pc operation path w = (r, w') \<Longrightarrow> fv_entries v w' = fv_entries v w"
  by (auto simp: normalized_path_def quiet_paths_def split: prod.splits if_splits) (metis snd_conv)+

lemma reject_same_file_quiet:
  assumes "quiet_paths pc v" and "reject_same_file pc normalizing comparing l r message w = (x, w')"
  shows "fv_entries v w' = fv_entries v w"
proof -
  have e: "fv_entries v w' = fv_entries v w" if "pc_equivalent pc l r w = (q, w')" for w q w'
    using assms(1) that unfolding quiet_paths_def by (metis snd_conv)
  from assms(2) show ?thesis
    by (auto simp: reject_same_file_def split: prod.splits sum.splits if_splits
        dest!: e normalized_path_quiet [OF assms(1)])
qed

subsection \<open>A timed run writes one entry\<close>

lemma finish_timed_keeps:
  assumes "finish_timed bm k blocks bytes fd m w = Some (r, m', w')" and "data_contract (bm_sys bm) v"
    and "temporary_open v fd t E w"
  shows "temporary_open v fd t E w'"
  using assms fsync_unchanged [OF assms(2)]
  by (auto simp: finish_timed_def fsync_output_def temporary_open_def split: option.splits sum.splits if_splits)

lemma with_benchmark_files_frame:
  assumes run: "with_benchmark_files bm ip path config body m w = Some (r, m', w')"
    and files: "quiet_paths (bm_paths bm) v" "quiet_files (bm_sys bm) (bm_close bm) v"
      "truncating_contract (bm_open_truncated bm) v"
    and body: "\<And>ifd fd m w r m' w'. body ifd fd m w = Some (r, m', w') \<Longrightarrow>
      temporary_open v fd (fv_key v path) E w \<Longrightarrow> temporary_open v fd (fv_key v path) E w'"
    and "\<And>q. q \<noteq> fv_key v path \<Longrightarrow> fv_entries v w q = E q" and "q \<noteq> fv_key v path"
  shows "fv_entries v w' q = E q"
proof -
  obtain r1 w1 where v1: "bench_reject_same_input_and_output (bm_paths bm) ip path w = (r1, w1)" by (metis surj_pair)
  then have q1: "fv_entries v w1 = fv_entries v w"
    using reject_same_file_quiet [OF files(1)]
    by (simp add: bench_reject_same_input_and_output_def bench_reject_same_file_def)
  obtain r2 w2 where v2: "open_comparison_input (bm_sys bm) ip ''open benchmark input'' w1 = (r2, w2)" by (metis surj_pair)
  have "fv_entries v (snd (open_read_only (bm_sys bm) ip w1)) = fv_entries v w1"
    using files(2) by (simp add: quiet_files_def)
  with v2 have q2: "fv_entries v w2 = fv_entries v w1"
    by (auto simp: open_comparison_input_def split: prod.splits if_splits)
  obtain r3 w3 where v3: "bm_open_truncated bm path w2 = (r3, w3)" by (metis surj_pair)
  note t = files(3) [unfolded truncating_contract_def, rule_format, OF v3]
  have c: "fv_entries v (bm_close bm fd u) = fv_entries v u" for fd u using files(2) by (simp add: quiet_files_def)
  show ?thesis
  proof (cases "validate config = Inr () \<and> (\<exists>ifd. r1 = Inr () \<and> r2 = Inr ifd)")
    case False
    with run q1 q2 assms(6,7) show ?thesis
      by (auto simp: with_benchmark_files_def v1 v2 split: sum.splits)
  next
    case True
    then obtain ifd where ok: "validate config = Inr ()" "r1 = Inr ()" "r2 = Inr ifd" by blast
    show ?thesis
    proof (cases r3)
      case (Sys_failed e)
      with run ok t q1 q2 assms(6,7) show ?thesis by (auto simp: with_benchmark_files_def v1 v2 v3 c)
    next
      case (Sys_ok fd)
      then obtain r4 w4 where b: "body ifd (int fd) m w3 = Some (r4, m', w4)"
        "w' = bm_close bm ifd (bm_close bm (int fd) w4)"
        using run ok by (auto simp: with_benchmark_files_def v1 v2 v3 split: option.splits)
      have "temporary_open v (int fd) (fv_key v path) E w3"
        using t Sys_ok q1 q2 assms(6) by (simp add: temporary_open_def)
      from body [OF b(1) this] assms(7) b(2) c show ?thesis by (simp add: temporary_open_def)
    qed
  qed
qed

lemma timed_body_keeps:
  assumes "(case add_stage us (Some stage) pl reg of
         (Inl e, _, _) \<Rightarrow> Some (Inl e, m, w)
       | (Inr _, processing, metrics) \<Rightarrow>
           (case executor_new_observed config metrics of
              (Inl e, _) \<Rightarrow> Some (Inl e, m, w)
            | (Inr px, metrics') \<Rightarrow>
                (case executor_run (bench_context bm backend k processing metrics' m) ifd fd px w of
                   None \<Rightarrow> None
                 | Some (Inl e, _, w') \<Rightarrow> Some (Inl e, m, w')
                 | Some (Inr result, _, w') \<Rightarrow>
                     finish_timed bm k (prr_blocks_written result) (prr_bytes_written result) fd m w'))) =
      Some (r, m', w')"
    and "data_contract (bm_sys bm) v" and "temporary_open v fd t E w"
  shows "temporary_open v fd t E w'"
proof -
  obtain sr processing metrics where st: "add_stage us (Some stage) pl reg = (sr, processing, metrics)"
    by (metis surj_pair)
  obtain er metrics' where ex: "executor_new_observed config metrics = (er, metrics')" by (metis surj_pair)
  show ?thesis
  proof (cases "sr = Inr () \<and> (\<exists>px. er = Inr px)")
    case False
    with assms(1,3) show ?thesis by (auto simp: st ex split: sum.splits)
  next
    case True
    then obtain px where ok: "sr = Inr ()" "er = Inr px" by blast
    with assms(1) obtain r1 px1 w1 where
      run: "executor_run (bench_context bm backend k processing metrics' m) ifd fd px w = Some (r1, px1, w1)"
      by (cases "executor_run (bench_context bm backend k processing metrics' m) ifd fd px w") (auto simp: st ex)
    have "temporary_open v fd t E w1"
      using executor_run_keeps [OF run, of "temporary_open v fd t E"] temporary_writes [OF assms(2)] assms(3)
      by (simp add: bench_context_def)
    with assms(1) ok run show ?thesis
      by (cases r1) (auto simp: st ex dest: finish_timed_keeps [OF _ assms(2)])
  qed
qed

lemma timed_pipeline_frame:
  assumes "run_timed_pipeline_byte_increment bm backend k ip path config m w = Some (r, m', w')"
    and "quiet_paths (bm_paths bm) v" "quiet_files (bm_sys bm) (bm_close bm) v"
      "truncating_contract (bm_open_truncated bm) v" "data_contract (bm_sys bm) v"
    and "q \<noteq> fv_key v path"
  shows "fv_entries v w' q = fv_entries v w q"
  by (rule with_benchmark_files_frame [OF assms(1) [unfolded run_timed_pipeline_byte_increment_def] assms(2-4) _ refl assms(6)])
    (rule timed_body_keeps [OF _ assms(5)])

subsection \<open>Samples\<close>

text \<open>A path whose contents are those of the oracle file, as many bytes as the oracle counted.\<close>

definition agrees :: "('w, 'k) fs_view \<Rightarrow> string \<Rightarrow> u64 \<Rightarrow> 'w \<Rightarrow> string \<Rightarrow> bool" where
  "agrees v oracle_path bytes w path \<longleftrightarrow>
     (\<exists>c. fv_entries v w (fv_key v oracle_path) = Some c \<and> fv_entries v w (fv_key v path) = Some c \<and>
          length c = unat bytes)"

definition forget_samples :: "'d backend_method \<Rightarrow> 'd backend_method" where
  "forget_samples x = x\<lparr>me_samples_ms := []\<rparr>"

lemma forget_samples_sel [simp]:
  "me_output_path (forget_samples x) = me_output_path x" "me_requested_backend (forget_samples x) = me_requested_backend x"
  "me_selected_backend (forget_samples x) = me_selected_backend x"
  "forget_samples (x\<lparr>me_samples_ms := l\<rparr>) = forget_samples x"
  by (simp_all add: forget_samples_def)

lemma validate_against_oracle_Inr:
  "validate_against_oracle oracle candidate verified requested = Inr u \<longleftrightarrow>
     tr_blocks_written candidate = tr_blocks_written oracle \<and> tr_bytes_written candidate = tr_bytes_written oracle \<and>
     verified = tr_bytes_written oracle"
  by (auto simp: validate_against_oracle_def)

lemma checked_Inr: "(case r of Inl e \<Rightarrow> Inl e | Inr (u :: unit) \<Rightarrow> Inr y) = Inr z \<longleftrightarrow> r = Inr () \<and> z = y"
  by (cases r) auto

lemma matrix_sample_outcome:
  assumes run: "matrix_sample mm options oracle_path oracle k x m w = Some (Inr x', m', w')"
    and files: "matrix_files mm v" and differ: "fv_key v (me_output_path x) \<noteq> fv_key v oracle_path"
  shows "(\<exists>t. x' = x\<lparr>me_samples_ms := me_samples_ms x @ [t]\<rparr>) \<and>
    agrees v oracle_path (tr_bytes_written oracle) w' (me_output_path x) \<and>
    (\<forall>q. q \<noteq> fv_key v (me_output_path x) \<longrightarrow> fv_entries v w' q = fv_entries v w q)"
proof -
  let ?bm = "bench_machine.truncate mm" and ?config = "mo_pipeline_config options"
  obtain br w1 where b: "matrix_backend mm (me_backend_config x) w = (br, w1)" by (metis surj_pair)
  have q1: "fv_entries v w1 = fv_entries v w" using files b unfolding matrix_files_def by (metis snd_conv)
  from run obtain backend where ok: "br = Inr backend" by (cases br) (auto simp: matrix_sample_def b)
  with run have "and_then (run_timed_pipeline_byte_increment ?bm backend k (mo_input_path options) (me_output_path x)
      ?config m w1) (\<lambda>sample m w. and_then (verify_files_equal_bounded (bm_allocator ?bm) (bm_sys ?bm) (bm_close ?bm)
        oracle_path (me_output_path x) ?config m w) (\<lambda>verified_bytes m w.
          Some (case validate_against_oracle oracle sample verified_bytes (me_requested_backend x) of
                  Inl e \<Rightarrow> Inl e
                | Inr _ \<Rightarrow> Inr (x\<lparr>me_samples_ms := me_samples_ms x @ [tr_elapsed_ms sample]\<rparr>), m, w))) =
      Some (Inr x', m', w')"
    by (simp add: matrix_sample_def b Let_def split: if_split_asm)
  then obtain sample m2 w2 verified where
    timed: "run_timed_pipeline_byte_increment ?bm backend k (mo_input_path options) (me_output_path x) ?config m w1 =
      Some (Inr sample, m2, w2)"
    and verify: "verify_files_equal_bounded (bm_allocator ?bm) (bm_sys ?bm) (bm_close ?bm) oracle_path
      (me_output_path x) ?config m2 w2 = Some (Inr verified, m', w')"
    and valid: "validate_against_oracle oracle sample verified (me_requested_backend x) = Inr ()"
    and x': "x' = x\<lparr>me_samples_ms := me_samples_ms x @ [tr_elapsed_ms sample]\<rparr>"
    by (auto simp: and_then_Inr checked_Inr)
  have sel: "bm_paths ?bm = bm_paths mm" "bm_sys ?bm = bm_sys mm" "bm_open_truncated ?bm = bm_open_truncated mm"
    by (simp_all add: bench_machine.truncate_def)
  obtain mi where cmp: "opening_contract (bm_sys ?bm) v" "reading_contract (bm_sys ?bm) v"
    "quiet_files (bm_sys ?bm) (bm_close ?bm) v" "interrupts_bounded (system_file_io_operations (bm_sys ?bm)) mi"
    using files unfolding matrix_files_def comparable_def by blast
  have frame: "fv_entries v w2 q = fv_entries v w1 q" if "q \<noteq> fv_key v (me_output_path x)" for q
    using timed_pipeline_frame [OF timed _ cmp(3) _ _ that] files unfolding matrix_files_def sel by blast
  have "fv_entries v w' = fv_entries v w2 \<and> (\<exists>c. fv_entries v w2 (fv_key v oracle_path) = Some c \<and>
      fv_entries v w2 (fv_key v (me_output_path x)) = Some c \<and> unat verified = length c)"
    by (rule comparison_outcome [OF verify cmp(1,3,2,4)])
  with x' valid frame q1 show ?thesis by (auto simp: agrees_def validate_against_oracle_Inr)
qed

subsection \<open>The rotation\<close>

lemma rotation_step:
  assumes "b < n" and "q < n"
  shows "(b + q) mod n = (if b + q < n then b + q else b + q - (n::nat))"
  using assms by (simp add: mod_if)

lemma rotation_once:
  assumes "i < (n::nat)"
  shows "{q. q < n \<and> (a + q) mod n = i} = {if a mod n \<le> i then i - a mod n else i + n - a mod n}"
proof -
  define b where "b = a mod n"
  have b: "b < n" using assms by (simp add: b_def)
  have "(a + q) mod n = (b + q) mod n" for q by (simp add: b_def mod_simps)
  then show ?thesis
    using assms b unfolding b_def [symmetric] by (auto simp: rotation_step [OF b] split: if_splits)
qed

lemma rotation_count: "i < n \<Longrightarrow> length (filter (\<lambda>q. (a + q) mod n = i) [0..<n]) = 1"
proof -
  assume "i < n"
  have "length (filter (\<lambda>q. (a + q) mod n = i) [0..<n]) = card {q. q < n \<and> (a + q) mod n = i}"
    by (subst distinct_card [symmetric]) (auto intro!: arg_cong [of _ _ card])
  then show ?thesis by (simp add: rotation_once [OF \<open>i < n\<close>])
qed

lemma rotation_hits: "i < (n::nat) \<Longrightarrow> \<exists>q<n. (a + q) mod n = i"
  using rotation_once [of i n a] by blast

subsection \<open>All iterations\<close>

definition distinct_outputs :: "('w, 'k) fs_view \<Rightarrow> string \<Rightarrow> 'd backend_method list \<Rightarrow> bool" where
  "distinct_outputs v oracle_path methods \<longleftrightarrow>
     distinct (map (fv_key v) (oracle_path # map me_output_path methods))"

lemma distinct_outputs_forget:
  "map forget_samples methods' = map forget_samples methods \<Longrightarrow>
   distinct_outputs v oracle_path methods' = distinct_outputs v oracle_path methods"
proof -
  assume "map forget_samples methods' = map forget_samples methods"
  then have "map me_output_path (map forget_samples methods') = map me_output_path (map forget_samples methods)" by simp
  then have "map me_output_path methods' = map me_output_path methods" by (simp add: comp_def)
  then show ?thesis by (simp add: distinct_outputs_def)
qed

lemma forget_nth:
  assumes "map forget_samples methods' = map forget_samples methods" and "i < length methods"
  shows "me_output_path (methods' ! i) = me_output_path (methods ! i)"
proof -
  have "forget_samples (methods' ! i) = forget_samples (methods ! i)"
    using assms by (metis length_map nth_map)
  then show ?thesis by (metis forget_samples_sel(1))
qed

text \<open>The positions \<open>q\<close> of a part of an iteration that sample the method \<open>i\<close>.\<close>

definition visits :: "nat \<Rightarrow> nat \<Rightarrow> nat \<Rightarrow> nat \<Rightarrow> nat \<Rightarrow> nat list" where
  "visits iteration n position remaining i =
     filter (\<lambda>q. (iteration + q) mod n = i) [position..<position + remaining]"

lemma visits_Suc:
  "visits iteration n position (Suc remaining) i =
     (if (iteration + position) mod n = i then [position] else []) @ visits iteration n (Suc position) remaining i"
proof -
  have "[position..<position + Suc remaining] = position # [Suc position..<Suc position + remaining]"
    by (simp add: upt_conv_Cons)
  then show ?thesis by (simp add: visits_def)
qed

lemma matrix_positions_outcome:
  assumes files: "matrix_files mm v"
  shows "matrix_positions mm options oracle_path oracle iteration remaining position methods m w =
      Some (Inr methods', m', w') \<Longrightarrow> methods \<noteq> [] \<Longrightarrow> distinct_outputs v oracle_path methods \<Longrightarrow>
    map forget_samples methods' = map forget_samples methods \<and>
    (\<forall>i < length methods.
       length (me_samples_ms (methods' ! i)) =
         length (me_samples_ms (methods ! i)) + length (visits iteration (length methods) position remaining i) \<and>
       (agrees v oracle_path (tr_bytes_written oracle) w (me_output_path (methods ! i)) \<or>
          visits iteration (length methods) position remaining i \<noteq> [] \<longrightarrow>
        agrees v oracle_path (tr_bytes_written oracle) w' (me_output_path (methods ! i))))"
proof (induction remaining arbitrary: position methods m w)
  case 0
  then show ?case by (simp add: visits_def)
next
  case (Suc remaining)
  let ?n = "length methods"
  define index where "index = (iteration + position) mod ?n"
  have index: "index < ?n" using Suc.prems(2) by (simp add: index_def)
  from Suc.prems(1) obtain x m1 w1 where
    sample: "matrix_sample mm options oracle_path oracle (Suc (iteration * ?n + position)) (methods ! index) m w =
      Some (Inr x, m1, w1)"
    and rest: "matrix_positions mm options oracle_path oracle iteration remaining (Suc position) (methods[index := x])
      m1 w1 = Some (Inr methods', m', w')"
    by (auto simp: and_then_Inr Let_def index_def)
  have differ: "fv_key v (me_output_path (methods ! i)) \<noteq> fv_key v oracle_path" if "i < ?n" for i
    using Suc.prems(3) nth_mem [OF that] by (simp add: distinct_outputs_def) (metis image_eqI)
  have others: "fv_key v (me_output_path (methods ! i)) \<noteq> fv_key v (me_output_path (methods ! index))"
    if "i < ?n" "i \<noteq> index" for i
  proof -
    have "distinct (map (fv_key v \<circ> me_output_path) methods)" using Suc.prems(3) by (simp add: distinct_outputs_def)
    then show ?thesis using that index nth_eq_iff_index_eq by fastforce
  qed
  from matrix_sample_outcome [OF sample files differ [OF index]] obtain t where
    x: "x = (methods ! index)\<lparr>me_samples_ms := me_samples_ms (methods ! index) @ [t]\<rparr>"
    and now: "agrees v oracle_path (tr_bytes_written oracle) w1 (me_output_path (methods ! index))"
    and frame: "\<And>q. q \<noteq> fv_key v (me_output_path (methods ! index)) \<Longrightarrow> fv_entries v w1 q = fv_entries v w q"
    by blast
  have same: "map forget_samples (methods[index := x]) = map forget_samples methods"
    using index by (simp add: x map_update) (metis list_update_id map_update nth_map)
  have step: "agrees v oracle_path b w1 (me_output_path (methods ! i))"
    if "agrees v oracle_path b w (me_output_path (methods ! i))" "i < ?n" "i \<noteq> index" for i b
    using that(1) frame [OF others [OF that(2,3)]] frame [OF differ [OF index, symmetric]]
    by (simp add: agrees_def)
  have "methods[index := x] \<noteq> []" using Suc.prems(2) by simp
  note IH = Suc.IH [OF rest this, unfolded distinct_outputs_forget [OF same], OF Suc.prems(3)]
  show ?case
  proof (intro conjI allI impI)
    show "map forget_samples methods' = map forget_samples methods" using IH same by simp
  next
    fix i assume i: "i < ?n"
    show "length (me_samples_ms (methods' ! i)) =
        length (me_samples_ms (methods ! i)) + length (visits iteration ?n position (Suc remaining) i)"
      using IH i index by (cases "i = index") (auto simp: visits_Suc index_def [symmetric] x)
  next
    fix i assume i: "i < ?n"
      and a: "agrees v oracle_path (tr_bytes_written oracle) w (me_output_path (methods ! i)) \<or>
        visits iteration ?n position (Suc remaining) i \<noteq> []"
    have "agrees v oracle_path (tr_bytes_written oracle) w1 (me_output_path (methods[index := x] ! i)) \<or>
        visits iteration ?n (Suc position) remaining i \<noteq> []"
      using a now step i unfolding forget_nth [OF same i]
      by (cases "i = index") (auto simp: visits_Suc index_def [symmetric])
    moreover have "i < length (methods[index := x])" using i by simp
    ultimately have "agrees v oracle_path (tr_bytes_written oracle) w' (me_output_path (methods[index := x] ! i))"
      using IH by (metis length_list_update)
    then show "agrees v oracle_path (tr_bytes_written oracle) w' (me_output_path (methods ! i))"
      unfolding forget_nth [OF same i] .
  qed
qed

lemma matrix_iterations_outcome:
  assumes files: "matrix_files mm v"
  shows "matrix_iterations mm options oracle_path oracle remaining iteration methods m w =
      Some (Inr methods', m', w') \<Longrightarrow> methods \<noteq> [] \<Longrightarrow> distinct_outputs v oracle_path methods \<Longrightarrow>
    map forget_samples methods' = map forget_samples methods \<and>
    (\<forall>i < length methods.
       length (me_samples_ms (methods' ! i)) = length (me_samples_ms (methods ! i)) + remaining \<and>
       (agrees v oracle_path (tr_bytes_written oracle) w (me_output_path (methods ! i)) \<or> remaining \<noteq> 0 \<longrightarrow>
        agrees v oracle_path (tr_bytes_written oracle) w' (me_output_path (methods ! i))))"
proof (induction remaining arbitrary: iteration methods m w)
  case (Suc remaining)
  let ?n = "length methods"
  from Suc.prems(1) obtain methods1 m1 w1 where
    one: "matrix_positions mm options oracle_path oracle iteration ?n 0 methods m w = Some (Inr methods1, m1, w1)"
    and rest: "matrix_iterations mm options oracle_path oracle remaining (Suc iteration) methods1 m1 w1 =
      Some (Inr methods', m', w')"
    by (auto simp: and_then_Inr)
  note first = matrix_positions_outcome [OF files one Suc.prems(2,3)]
  have same: "map forget_samples methods1 = map forget_samples methods" using first by simp
  then have n: "length methods1 = ?n" by (metis length_map)
  have "methods1 \<noteq> []" using n Suc.prems(2) by auto
  note IH = Suc.IH [OF rest this, unfolded distinct_outputs_forget [OF same] n, OF Suc.prems(3)]
  have count: "length (visits iteration ?n 0 ?n i) = 1" if "i < ?n" for i
    using rotation_count [OF that] by (simp add: visits_def)
  show ?case
  proof (intro conjI allI impI)
    show "map forget_samples methods' = map forget_samples methods" using IH same by simp
  next
    fix i assume i: "i < ?n"
    then show "length (me_samples_ms (methods' ! i)) = length (me_samples_ms (methods ! i)) + Suc remaining"
      using IH first count [OF i] by simp
  next
    fix i assume i: "i < ?n"
    from count [OF i] have "visits iteration ?n 0 ?n i \<noteq> []" by auto
    with first i have "agrees v oracle_path (tr_bytes_written oracle) w1 (me_output_path (methods1 ! i))"
      unfolding forget_nth [OF same i] by blast
    with IH i have "agrees v oracle_path (tr_bytes_written oracle) w' (me_output_path (methods1 ! i))" by blast
    then show "agrees v oracle_path (tr_bytes_written oracle) w' (me_output_path (methods ! i))"
      unfolding forget_nth [OF same i] .
  qed
qed simp

subsection \<open>The whole program\<close>

lemma reject_against_distinct:
  assumes "canonical_contract pc v"
  shows "reject_against pc left paths w = (Inr u, w') \<Longrightarrow> fv_key v left \<notin> fv_key v ` set paths"
proof (induction paths arbitrary: w)
  case (Cons right paths)
  then obtain w1 where one: "matrix_reject_same_file pc left right w = (Inr (), w1)"
    and rest: "reject_against pc left paths w1 = (Inr u, w')"
    by (auto split: prod.splits sum.splits)
  have "fv_key v left \<noteq> fv_key v right"
    by (rule reject_same_file_Inr [OF one [unfolded matrix_reject_same_file_def bench_reject_same_file_def] assms])
  with Cons.IH [OF rest] show ?case by simp
qed simp

lemma reject_pairs_distinct:
  assumes "canonical_contract pc v"
  shows "reject_pairs pc paths w = (Inr u, w') \<Longrightarrow> distinct (map (fv_key v) paths)"
proof (induction paths arbitrary: w)
  case (Cons left paths)
  then obtain w1 where one: "reject_against pc left paths w = (Inr (), w1)" and rest: "reject_pairs pc paths w1 = (Inr u, w')"
    by (auto split: prod.splits sum.splits)
  with Cons.IH [OF rest] reject_against_distinct [OF assms one] show ?case by simp
qed simp

lemma check_matrix_distinct:
  assumes "check_matrix pc options w = (Inr outputs, w')" and "canonical_contract pc v"
  shows "outputs = make_output_paths (mo_output_directory options) \<and>
    distinct (map (fv_key v) [out_serial_oracle outputs, out_sync outputs, out_thread_pool outputs,
      out_io_uring outputs, out_automatic outputs])"
proof -
  from assms(1) obtain w1 where "outputs = make_output_paths (mo_output_directory options)"
    and d: "matrix_distinct_paths pc (mo_input_path options) outputs w1 = (Inr (), w')"
    by (auto simp: check_matrix_def Let_def split: if_splits sum.splits prod.splits)
  with reject_pairs_distinct [OF assms(2) d [unfolded matrix_distinct_paths_def]] show ?thesis by simp
qed

lemma make_backend_method_Inr:
  "make_backend_method mm requested report_prefix path config w = (Inr x, w') \<Longrightarrow>
     me_requested_backend x = requested \<and> me_output_path x = path \<and> me_samples_ms x = []"
  by (auto simp: make_backend_method_def split: prod.splits sum.splits)

definition skip_line :: "string \<Rightarrow> int \<Rightarrow> string" where
  "skip_line requested error_number =
     ''skipped_backend='' @ requested @ '',error_code='' @ error_code_text error_number @
     '',error_category=generic'' @ lf"

lemma try_make_explicit_method_Inr:
  assumes "try_make_explicit_method mm requested path config w = (Inr (x, text), w')"
  obtains (made) y where "x = Some y" and "text = []" and "me_requested_backend y = requested"
      and "me_output_path y = path" and "me_samples_ms y = []"
  | (skipped) error_number where "x = None" and "text = skip_line requested error_number"
  using assms
  by (auto simp: try_make_explicit_method_def skip_line_def dest!: make_backend_method_Inr
      split: prod.splits sum.splits exn.splits)

text \<open>
  The requests in order, each with its path: the first and the last are always there, the other two
  may be skipped, which leaves a line.
\<close>

definition measured_methods :: "output_paths \<Rightarrow> bool \<Rightarrow> bool \<Rightarrow> (string \<times> string) list" where
  "measured_methods outputs pool uring =
     [(''sync'', out_sync outputs)] @ (if pool then [(''thread_pool'', out_thread_pool outputs)] else []) @
     (if uring then [(''io_uring'', out_io_uring outputs)] else []) @ [(''auto'', out_automatic outputs)]"

lemma measured_methods_subseq:
  "subseq (measured_methods outputs pool uring)
     [(''sync'', out_sync outputs), (''thread_pool'', out_thread_pool outputs),
      (''io_uring'', out_io_uring outputs), (''auto'', out_automatic outputs)]"
  by (cases pool; cases uring) (auto simp: measured_methods_def)

lemma prepare_methods_Inr:
  assumes "prepare_methods mm options outputs w = ((Inr methods, skipped), w')"
  obtains pool uring error1 error2
  where "map (\<lambda>x. (me_requested_backend x, me_output_path x)) methods = measured_methods outputs pool uring"
    and "skipped = (if pool then [] else skip_line ''thread_pool'' error1) @
      (if uring then [] else skip_line ''io_uring'' error2)"
    and "list_all (\<lambda>x. me_samples_ms x = []) methods"
proof -
  from assms obtain sync w1 tp skipped1 w2 ur skipped2 w3 automatic where
    s: "make_backend_method mm ''sync'' ''pipeline_'' (out_sync outputs) (make_backend_config options Sync) w = (Inr sync, w1)"
    and t: "try_make_explicit_method mm ''thread_pool'' (out_thread_pool outputs) (make_backend_config options ThreadPool) w1 =
      (Inr (tp, skipped1), w2)"
    and u: "try_make_explicit_method mm ''io_uring'' (out_io_uring outputs) (make_backend_config options Uring) w2 =
      (Inr (ur, skipped2), w3)"
    and a: "make_backend_method mm ''auto'' ''pipeline_auto_selected_'' (out_automatic outputs)
      (make_backend_config options Auto) w3 = (Inr automatic, w')"
    and methods: "methods = [sync] @ (case tp of None \<Rightarrow> [] | Some x \<Rightarrow> [x]) @ (case ur of None \<Rightarrow> [] | Some x \<Rightarrow> [x]) @ [automatic]"
    and skipped: "skipped = skipped1 @ skipped2"
    by (auto simp: prepare_methods_def Let_def split: prod.splits sum.splits)
  note ends = make_backend_method_Inr [OF s] make_backend_method_Inr [OF a]
  from t show thesis
  proof (cases rule: try_make_explicit_method_Inr)
    case tp: (made x)
    from u show thesis
    proof (cases rule: try_make_explicit_method_Inr)
      case (made y)
      with tp ends show thesis by (intro that [of True True]) (simp_all add: methods skipped measured_methods_def)
    next
      case (skipped e)
      with tp ends \<open>skipped = skipped1 @ skipped2\<close> show thesis
        by (intro that [of True False _ e]) (simp_all add: methods measured_methods_def)
    qed
  next
    case tp: (skipped e1)
    from u show thesis
    proof (cases rule: try_make_explicit_method_Inr)
      case (made y)
      with tp ends show thesis
        by (intro that [of False True e1]) (simp_all add: methods skipped measured_methods_def)
    next
      case (skipped e2)
      with tp ends \<open>skipped = skipped1 @ skipped2\<close> show thesis
        by (intro that [of False False e1 e2]) (simp_all add: methods measured_methods_def)
    qed
  qed
qed

lemma measure_matrix_Inr:
  "measure_matrix mm options outputs methods m w = Some (Inr (oracle, methods'), m', w') \<Longrightarrow>
     \<exists>m1 w1. matrix_iterations mm options (out_serial_oracle outputs) oracle (unat (mo_iterations options)) 0 methods m1 w1 =
       Some (Inr methods', m', w')"
  by (auto simp: measure_matrix_def and_then_Inr)

lemma run_matrix_Inr:
  assumes "run_matrix mm options m w = Some (Inr u, (csv, log), m', w')"
  obtains outputs w1 methods skipped w2 serial methods'
  where
    "check_matrix (bm_paths mm) options w = (Inr outputs, w1)"
    and "prepare_methods mm options outputs w1 = ((Inr methods, skipped), w2)"
    and "measure_matrix mm options outputs methods m w2 = Some (Inr (serial, methods'), m', w')"
    and "\<exists>rows. matrix_rows (bm_doubles mm) (tr_bytes_written serial) methods' = (rows, Inr ()) \<and>
      csv = write_benchmark_csv_header @ rows"
    and "log = skipped @ matrix_notes options (me_selected_backend (last methods)) (tr_bytes_written serial)"
proof -
  obtain r1 w1 where c: "check_matrix (bm_paths mm) options w = (r1, w1)" by (metis surj_pair)
  with assms obtain outputs where o: "r1 = Inr outputs" by (cases r1) (auto simp: run_matrix_def)
  obtain r2 skipped w2 where p: "prepare_methods mm options outputs w1 = ((r2, skipped), w2)" by (metis surj_pair)
  with assms c o obtain methods where ms: "r2 = Inr methods" by (cases r2) (auto simp: run_matrix_def)
  from assms c o p ms obtain r3 m3 w3 where x: "measure_matrix mm options outputs methods m w2 = Some (r3, m3, w3)"
    by (cases "measure_matrix mm options outputs methods m w2") (auto simp: run_matrix_def)
  with assms c o p ms obtain serial methods' where r3: "r3 = Inr (serial, methods')"
    by (cases r3) (auto simp: run_matrix_def)
  obtain rows r4 where rows: "matrix_rows (bm_doubles mm) (tr_bytes_written serial) methods' = (rows, r4)" by (metis surj_pair)
  with assms c o p ms x r3 have "r4 = Inr ()" "m3 = m'" "w3 = w'" "csv = write_benchmark_csv_header @ rows"
    "log = skipped @ matrix_notes options (me_selected_backend (last methods)) (tr_bytes_written serial)"
    by (auto simp: run_matrix_def split: sum.splits)
  with c o p ms x r3 rows show thesis by (intro that) auto
qed

text \<open>The end of a comparison: the outputs, the number of samples and the two streams.\<close>

definition matrix_result ::
  "('m, 'r, 't, 'w, 'u, 'd) matrix_machine \<Rightarrow> matrix_options \<Rightarrow> ('w, 'k) fs_view \<Rightarrow> string \<Rightarrow> string \<Rightarrow> 'w \<Rightarrow>
   'd timed_result \<Rightarrow> 'd backend_method list \<Rightarrow> byte list \<Rightarrow> bool" where
  "matrix_result mm options v csv log w serial methods c \<longleftrightarrow>
     (let outputs = make_output_paths (mo_output_directory options) in
      fv_entries v w (fv_key v (out_serial_oracle outputs)) = Some c \<and> length c = unat (tr_bytes_written serial) \<and>
      list_all (\<lambda>x. fv_entries v w (fv_key v (me_output_path x)) = Some c \<and>
                    length (me_samples_ms x) = unat (mo_iterations options)) methods \<and>
      (\<exists>rows. matrix_rows (bm_doubles mm) (tr_bytes_written serial) methods = (rows, Inr ()) \<and>
        csv = write_benchmark_csv_header @ rows) \<and>
      (\<exists>pool uring error1 error2.
        map (\<lambda>x. (me_requested_backend x, me_output_path x)) methods = measured_methods outputs pool uring \<and>
        log = (if pool then [] else skip_line ''thread_pool'' error1) @
          (if uring then [] else skip_line ''io_uring'' error2) @
          matrix_notes options (me_selected_backend (last methods)) (tr_bytes_written serial)))"

lemma forget_pairs:
  assumes "map forget_samples methods' = map forget_samples methods"
  shows "map (\<lambda>x. (me_requested_backend x, me_output_path x)) methods' =
      map (\<lambda>x. (me_requested_backend x, me_output_path x)) methods"
    and "methods \<noteq> [] \<Longrightarrow> me_selected_backend (last methods') = me_selected_backend (last methods)"
proof -
  let ?f = "\<lambda>x. (me_requested_backend x, me_output_path x)"
  have "map ?f (map forget_samples methods') = map ?f (map forget_samples methods)" by (simp only: assms)
  then show "map ?f methods' = map ?f methods" by (simp add: comp_def)
  assume "methods \<noteq> []"
  moreover from this assms have "methods' \<noteq> []" by auto
  ultimately have "forget_samples (last methods') = forget_samples (last methods)"
    using assms by (metis last_map)
  then show "me_selected_backend (last methods') = me_selected_backend (last methods)"
    by (metis forget_samples_sel(3))
qed

lemma subseq_distinct_outputs:
  assumes "subseq (map (\<lambda>x. (me_requested_backend x, me_output_path x)) methods)
      [(''sync'', a), (''thread_pool'', b), (''io_uring'', c), (''auto'', d)]"
    and "distinct (map (fv_key v) [oracle_path, a, b, c, d])"
  shows "distinct_outputs v oracle_path methods"
proof -
  have "subseq (map snd (map (\<lambda>x. (me_requested_backend x, me_output_path x)) methods)) [a, b, c, d]"
    using subseq_map [OF assms(1), of snd] by simp
  then have "subseq (map me_output_path methods) [a, b, c, d]" by (simp add: comp_def)
  then have "subseq (map (fv_key v) (oracle_path # map me_output_path methods)) (map (fv_key v) (oracle_path # [a, b, c, d]))"
    by (intro subseq_map) simp
  then obtain N where "map (fv_key v) (oracle_path # map me_output_path methods) =
      nths (map (fv_key v) (oracle_path # [a, b, c, d])) N"
    unfolding subseq_conv_nths by blast
  then show ?thesis using distinct_nthsI [OF assms(2)] unfolding distinct_outputs_def by simp
qed

lemma run_matrix_result:
  assumes run: "run_matrix mm options m w = Some (Inr u, (csv, log), m', w')" and files: "matrix_files mm v"
    and n: "mo_iterations options \<noteq> 0"
  obtains serial methods c where "matrix_result mm options v csv log w' serial methods c" and "methods \<noteq> []"
proof -
  from run obtain outputs w1 methods0 skipped w2 serial methods where
    check: "check_matrix (bm_paths mm) options w = (Inr outputs, w1)"
    and prepare: "prepare_methods mm options outputs w1 = ((Inr methods0, skipped), w2)"
    and measure: "measure_matrix mm options outputs methods0 m w2 = Some (Inr (serial, methods), m', w')"
    and csv: "\<exists>rows. matrix_rows (bm_doubles mm) (tr_bytes_written serial) methods = (rows, Inr ()) \<and>
      csv = write_benchmark_csv_header @ rows"
    and log: "log = skipped @ matrix_notes options (me_selected_backend (last methods0)) (tr_bytes_written serial)"
    by (rule run_matrix_Inr)
  have "canonical_contract (bm_paths mm) v" using files by (simp add: matrix_files_def)
  note outputs = check_matrix_distinct [OF check this]
  obtain pool uring error1 error2 where
    pre: "map (\<lambda>x. (me_requested_backend x, me_output_path x)) methods0 = measured_methods outputs pool uring"
    "list_all (\<lambda>x. me_samples_ms x = []) methods0"
    and skips: "skipped = (if pool then [] else skip_line ''thread_pool'' error1) @
      (if uring then [] else skip_line ''io_uring'' error2)"
    by (rule prepare_methods_Inr [OF prepare])
  have d: "distinct_outputs v (out_serial_oracle outputs) methods0"
    using measured_methods_subseq [of outputs pool uring] outputs
    by (intro subseq_distinct_outputs) (auto simp only: pre)
  obtain m1 w3 where "matrix_iterations mm options (out_serial_oracle outputs) serial (unat (mo_iterations options)) 0
      methods0 m1 w3 = Some (Inr methods, m', w')"
    using measure_matrix_Inr [OF measure] by blast
  note done_ = matrix_iterations_outcome [OF files this _ d]
  have ne: "methods0 \<noteq> []" using pre(1) by (auto simp: measured_methods_def)
  then have same: "map forget_samples methods = map forget_samples methods0" using done_ by blast
  have len: "length methods = length methods0" using same by (metis length_map)
  have pos: "unat (mo_iterations options) \<noteq> 0" using n by (simp add: unat_eq_zero)
  have each: "agrees v (out_serial_oracle outputs) (tr_bytes_written serial) w' (me_output_path (methods ! i)) \<and>
      length (me_samples_ms (methods ! i)) = unat (mo_iterations options)" if i: "i < length methods" for i
  proof -
    have "me_samples_ms (methods0 ! i) = []" using pre i by (simp add: len list_all_length)
    with done_ ne i pos show ?thesis unfolding forget_nth [OF same i [unfolded len]] by (simp add: len)
  qed
  have "methods \<noteq> []" using ne len by auto
  with each [of 0] obtain c where c: "fv_entries v w' (fv_key v (out_serial_oracle outputs)) = Some c"
    "length c = unat (tr_bytes_written serial)"
    by (auto simp: agrees_def)
  have "list_all (\<lambda>x. fv_entries v w' (fv_key v (me_output_path x)) = Some c \<and>
      length (me_samples_ms x) = unat (mo_iterations options)) methods"
    using each c(1) by (simp add: list_all_length agrees_def)
  then have "matrix_result mm options v csv log w' serial methods c"
    using outputs csv c forget_pairs(1) [OF same, unfolded pre(1)] log [unfolded skips forget_pairs(2) [OF same ne, symmetric]]
    unfolding matrix_result_def Let_def
    by (intro conjI exI [of _ pool] exI [of _ uring] exI [of _ error1] exI [of _ error2]) simp_all
  then show thesis using \<open>methods \<noteq> []\<close> by (rule that)
qed

section \<open>A run of the comparison\<close>

text \<open>The machine of the example benchmark with constructors of which only \<open>SyncBackend\<close> succeeds.\<close>

definition matrix_example ::
  "(nat, byte list, (sync_frame, read_value) task, disk, nat, unit) matrix_machine" where
  "matrix_example =
     bench_machine.extend bench_example \<lparr>mm_has_liburing = False, mm_constructors = demo_constructors\<rparr>"

definition matrix_example_options :: matrix_options where
  "matrix_example_options =
     \<lparr>mo_input_path = ''in'', mo_output_directory = ''.'',
      mo_pipeline_config = \<lparr>block_size = 8, max_inflight_buffers = 3, queue_depth = 1, buffer_alignment = 8\<rparr>,
      mo_thread_workers = 2, mo_iterations = 1, mo_disable_auto_uring = False,
      mo_disable_auto_thread_pool = False\<rparr>"

lemma matrix_example_value:
  "map_option (\<lambda>(r, _). map_sum (\<lambda>_. ()) (\<lambda>_. ()) r)
     (run_matrix matrix_example matrix_example_options 0 example_disk) = Some (Inr ())"
  by code_simp

lemma matrix_example_sel:
  "bench_machine.truncate matrix_example = bench_example" "bm_sys matrix_example = demo_posix"
  "bm_paths matrix_example = demo_path_calls" "bm_open_truncated matrix_example = disk_truncate"
  "bm_doubles matrix_example = unit_statistics"
  "mm_has_liburing matrix_example = False" "mm_constructors matrix_example = demo_constructors"
  by (simp_all add: matrix_example_def bench_machine.defs bench_example_def)

lemma demo_constructors_quiet:
  "snd (backend_create False demo_constructors config w) = w"
  by (simp add: backend_create_def create_backend_with_def system_backend_factory_operations_def create_uring_def
      create_thread_pool_def create_sync_def demo_constructors_def Let_def split: backend_kind.split)

lemma matrix_example_files: "matrix_files matrix_example disk_view"
proof -
  have "data_contract demo_posix disk_view" using demo_contracts(1) by (simp add: fs_contract_def)
  moreover have "quiet_paths demo_path_calls disk_view" by (simp add: quiet_paths_def demo_path_calls_def)
  moreover have "truncating_contract disk_truncate disk_view"
    by (auto simp: truncating_contract_def disk_truncate_def disk_view_def disk_file_def Let_def)
  ultimately show ?thesis
    using bench_example_comparable demo_contracts(5) demo_constructors_quiet
    by (simp add: matrix_files_def matrix_example_sel matrix_backend_def)
qed

section \<open>Property\<close>

text \<open>
  C27: The backend comparison compares equal work over the same bytes. When it ends without an
  exception, with at least one iteration and over a file system whose calls keep their contracts and
  constructors of backends that leave the files alone, the measured methods are \<open>SyncBackend\<close>, the thread pool, io_uring and Auto in this order,
  each with its own path; only the thread pool and io_uring may be missing, and then the log has the
  line that says so, while \<open>SyncBackend\<close> is always the first and Auto the last. The output file of each
  holds at the end the bytes of the serial oracle's file, as many as the oracle counted; each has
  exactly one sample for every iteration although the order rotates; and the CSV and the log are
  those of these methods.
\<close>

theorem matrix_outputs_equal:
  assumes "run_matrix mm options m w = Some (Inr u, (csv, log), m', w')" and "matrix_files mm v"
    and "mo_iterations options \<noteq> 0"
  shows "\<exists>serial methods c. methods \<noteq> [] \<and> matrix_result mm options v csv log w' serial methods c"
  by (rule run_matrix_result [OF assms]) blast

theorem matrix_outputs_equal_witness:
  "\<exists>csv log m' w' c. run_matrix matrix_example matrix_example_options 0 example_disk =
       Some (Inr (), (csv, log), m', w') \<and> dk_entries w' ''serial-oracle.bin'' = Some c"
proof -
  obtain r out m' w' where r: "run_matrix matrix_example matrix_example_options 0 example_disk = Some (r, out, m', w')"
    using matrix_example_value by (cases "run_matrix matrix_example matrix_example_options 0 example_disk") auto
  obtain csv log where out: "out = (csv, log)" by (cases out)
  have "r = Inr ()" using matrix_example_value r by (cases r) auto
  note run = r [unfolded this out]
  have "mo_iterations matrix_example_options \<noteq> 0" by (simp add: matrix_example_options_def)
  from matrix_outputs_equal [OF run matrix_example_files this] obtain serial methods c where
    "matrix_result matrix_example matrix_example_options disk_view csv log w' serial methods c" by blast
  with run show ?thesis
    by (auto simp: matrix_result_def Let_def matrix_example_options_def make_output_paths_def disk_view_def
        path_append_def path_filename_def)
qed

end
