(* ===== verification/Percentiles.thy ===== *)
theory Percentiles
  imports Benchmark_Report Complex_Main
begin

text \<open>
  The percentiles of \<open>src/benchmark/benchmark_stats.cpp\<close>: over IEEE 754 doubles, whose operations round
  as documented, the rank that \<open>summarize_latencies\<close> computes with \<open>std::ceil\<close> is the nearest rank.
\<close>

section \<open>Doubles\<close>

text \<open>
  What the code relies on of \<open>double\<close> (IEEE 754 binary64, rounding to nearest), over the value \<open>val\<close> of
  a finite double: the order, the exact conversion of a count up to \<open>2 ^ 53\<close>, the values of the
  literals \<open>0.50\<close>, \<open>0.95\<close> and \<open>0.99\<close>, a product that is finite, nearest to the exact one among all finite
  doubles and within a relative error of \<open>2 ^ -53\<close>, the exact \<open>std::ceil\<close>, and truncation to \<open>size_t\<close>.
\<close>

definition rounds_to_nearest :: "'d statistic_ops \<Rightarrow> ('d \<Rightarrow> rat) \<Rightarrow> rat \<Rightarrow> 'd \<Rightarrow> bool" where
  "rounds_to_nearest ops val x r \<longleftrightarrow>
     d_isfinite ops r \<and> (\<forall>d. d_isfinite ops d \<longrightarrow> \<bar>val r - x\<bar> \<le> \<bar>val d - x\<bar>) \<and> \<bar>val r - x\<bar> \<le> \<bar>x\<bar> / 2 ^ 53"

definition literal_value :: "nat \<Rightarrow> rat" where
  "literal_value p = (if p = 50 then 1 / 2 else if p = 95 then 8556839292003942 / 2 ^ 53 else 8917127262193582 / 2 ^ 53)"

definition binary64_contract :: "'d statistic_ops \<Rightarrow> ('d \<Rightarrow> rat) \<Rightarrow> bool" where
  "binary64_contract ops val \<longleftrightarrow>
     (\<forall>a b. d_isfinite ops a \<longrightarrow> d_isfinite ops b \<longrightarrow> (d_less ops a b \<longleftrightarrow> val a < val b)) \<and>
     (\<forall>n. unat n \<le> 2 ^ 53 \<longrightarrow> d_isfinite ops (d_of_u64 ops n) \<and> val (d_of_u64 ops n) = of_nat (unat n)) \<and>
     (\<forall>p \<in> {50, 95, 99}. d_isfinite ops (d_hundredths ops p) \<and> val (d_hundredths ops p) = literal_value p) \<and>
     (\<forall>a b. d_isfinite ops a \<longrightarrow> d_isfinite ops b \<longrightarrow> 1 / 4 \<le> \<bar>val a * val b\<bar> \<longrightarrow> \<bar>val a * val b\<bar> \<le> 2 ^ 53 \<longrightarrow>
        rounds_to_nearest ops val (val a * val b) (d_times ops a b)) \<and>
     (\<forall>a. d_isfinite ops a \<longrightarrow> \<bar>val a\<bar> \<le> 2 ^ 53 \<longrightarrow>
        d_isfinite ops (d_ceil ops a) \<and> val (d_ceil ops a) = of_int \<lceil>val a\<rceil>) \<and>
     (\<forall>a. d_isfinite ops a \<longrightarrow> 0 \<le> val a \<longrightarrow> val a \<le> 2 ^ 53 \<longrightarrow> unat (d_to_size ops a) = nat \<lfloor>val a\<rfloor>)"

lemma binary64_orders: "binary64_contract ops val \<Longrightarrow> orders_finite ops"
  unfolding binary64_contract_def orders_finite_def by (metis less_trans not_less_iff_gr_or_eq)

lemma binary64D:
  assumes "binary64_contract ops val"
  shows "unat n \<le> 2 ^ 53 \<Longrightarrow> d_isfinite ops (d_of_u64 ops n)"
    and "unat n \<le> 2 ^ 53 \<Longrightarrow> val (d_of_u64 ops n) = of_nat (unat n)"
    and "p \<in> {50, 95, 99} \<Longrightarrow> d_isfinite ops (d_hundredths ops p)"
    and "p \<in> {50, 95, 99} \<Longrightarrow> val (d_hundredths ops p) = literal_value p"
    and "d_isfinite ops a \<Longrightarrow> d_isfinite ops b \<Longrightarrow> 1 / 4 \<le> \<bar>val a * val b\<bar> \<Longrightarrow> \<bar>val a * val b\<bar> \<le> 2 ^ 53 \<Longrightarrow>
      rounds_to_nearest ops val (val a * val b) (d_times ops a b)"
    and "d_isfinite ops a \<Longrightarrow> \<bar>val a\<bar> \<le> 2 ^ 53 \<Longrightarrow> d_isfinite ops (d_ceil ops a)"
    and "d_isfinite ops a \<Longrightarrow> \<bar>val a\<bar> \<le> 2 ^ 53 \<Longrightarrow> val (d_ceil ops a) = of_int \<lceil>val a\<rceil>"
    and "d_isfinite ops a \<Longrightarrow> 0 \<le> val a \<Longrightarrow> val a \<le> 2 ^ 53 \<Longrightarrow> unat (d_to_size ops a) = nat \<lfloor>val a\<rfloor>"
proof -
  note C = assms [unfolded binary64_contract_def]
  note count = C [THEN conjunct2, THEN conjunct1, rule_format] and literal = C [THEN conjunct2, THEN conjunct2, THEN conjunct1, rule_format]
  note product = C [THEN conjunct2, THEN conjunct2, THEN conjunct2, THEN conjunct1, rule_format]
    and ceiling = C [THEN conjunct2, THEN conjunct2, THEN conjunct2, THEN conjunct2, THEN conjunct1, rule_format]
    and to_size = C [THEN conjunct2, THEN conjunct2, THEN conjunct2, THEN conjunct2, THEN conjunct2, rule_format]
  show "d_isfinite ops (d_of_u64 ops n)" "val (d_of_u64 ops n) = of_nat (unat n)" if "unat n \<le> 2 ^ 53"
    by (rule conjunct1 [OF count [OF that]]) (rule conjunct2 [OF count [OF that]])
  show "d_isfinite ops (d_hundredths ops p)" "val (d_hundredths ops p) = literal_value p" if "p \<in> {50, 95, 99}"
    by (rule conjunct1 [OF literal [OF that]]) (rule conjunct2 [OF literal [OF that]])
  show "d_isfinite ops a \<Longrightarrow> d_isfinite ops b \<Longrightarrow> 1 / 4 \<le> \<bar>val a * val b\<bar> \<Longrightarrow> \<bar>val a * val b\<bar> \<le> 2 ^ 53 \<Longrightarrow>
      rounds_to_nearest ops val (val a * val b) (d_times ops a b)"
    by (rule product)
  show "d_isfinite ops (d_ceil ops a)" "val (d_ceil ops a) = of_int \<lceil>val a\<rceil>"
    if "d_isfinite ops a" "\<bar>val a\<bar> \<le> 2 ^ 53"
    by (rule conjunct1 [OF ceiling [OF that]]) (rule conjunct2 [OF ceiling [OF that]])
  show "d_isfinite ops a \<Longrightarrow> 0 \<le> val a \<Longrightarrow> val a \<le> 2 ^ 53 \<Longrightarrow> unat (d_to_size ops a) = nat \<lfloor>val a\<rfloor>"
    by (rule to_size)
qed

section \<open>The rank\<close>

lemma literal_bounds:
  assumes "p \<in> {50, 95, 99}"
  shows "literal_value p \<le> of_nat p / 100" and "of_nat p / 100 - 1 / 10 ^ 16 \<le> literal_value p"
  using assms by (auto simp: literal_value_def)

lemma rank_bounds:
  fixes n p :: nat
  assumes "0 < n" and "p \<in> {50, 95, 99}"
  shows "1 \<le> (p * n + 99) div 100 \<and> (p * n + 99) div 100 \<le> n \<and> p * n \<le> 100 * ((p * n + 99) div 100) \<and>
    100 * ((p * n + 99) div 100 - 1) < p * n"
proof -
  define q where "q = (p * n + 99) div 100"
  have "100 * q + (p * n + 99) mod 100 = p * n + 99" unfolding q_def by simp
  moreover have "(p * n + 99) mod 100 < 100" by simp
  moreover have "0 < p * n" "p * n \<le> 99 * n" using assms by auto
  ultimately show ?thesis unfolding q_def [symmetric] by linarith
qed

text \<open>
  The literals are at most the hundredths they stand for, so a product never rounds past the integer
  \<open>k\<close> above it; it stays above \<open>k - 1\<close> because a hundredth is more than both errors together.
\<close>

lemma errors_below_hundredth:
  fixes P M K x r :: rat
  assumes "P / 100 - M / 10 ^ 16 \<le> x" and "100 * K + 1 \<le> P" and "x \<le> M" and "\<bar>r - x\<bar> \<le> x / 2 ^ 53" and "M < 2 ^ 45"
  shows "K < r"
proof -
  have "x - x / 2 ^ 53 \<le> r" using assms(4) by linarith
  moreover have "x / 2 ^ 53 < 1 / 256" "M / 10 ^ 16 < 1 / 256" using assms(3,5) by simp_all
  ultimately show ?thesis using assms(1,2) by linarith
qed

lemma rank_of_exact:
  assumes ops: "binary64_contract ops val" and p: "p \<in> {50, 95, 99}" and n: "0 < unat n" "unat n < 2 ^ 45"
  shows "unat (rank_of ops p n) = (p * unat n + 99) div 100"
proof -
  note C = binary64D [OF ops]
  let ?a = "d_hundredths ops p" and ?b = "d_of_u64 ops n" and ?c = "d_times ops (d_hundredths ops p) (d_of_u64 ops n)"
  define m where "m = unat n"
  define k where "k = (p * m + 99) div 100"
  define x where "x = literal_value p * of_nat m"
  have m: "1 \<le> (of_nat m :: rat)" "(of_nat m :: rat) < 2 ^ 45"
    using of_nat_le_iff [of 1 m, where 'a = rat] of_nat_less_iff [of m "2 ^ 45", where 'a = rat] n by (simp_all add: m_def)
  have k: "1 \<le> k" "k \<le> m" "p * m \<le> 100 * k" "100 * (k - 1) < p * m"
    using rank_bounds [OF _ p, of m] n unfolding k_def m_def by auto
  have a: "d_isfinite ops ?a" "val ?a = literal_value p" by (rule C(3,4) [OF p])+
  have b: "d_isfinite ops ?b" "val ?b = of_nat m" using C(1,2) [of n] n by (simp_all add: m_def)
  have lit: "1 / 4 \<le> literal_value p" "literal_value p \<le> 1" using p by (auto simp: literal_value_def)
  have x: "1 / 4 \<le> x" "x \<le> of_nat m"
    using mult_mono [OF lit(1) m(1)] mult_right_mono [OF lit(2), of "of_nat m"] lit(1) by (simp_all add: x_def)
  have c: "rounds_to_nearest ops val x ?c"
  proof (rule C(5) [OF a(1) b(1), unfolded a(2) b(2), folded x_def])
    show "1 / 4 \<le> \<bar>x\<bar>" "\<bar>x\<bar> \<le> 2 ^ 53" using x m by simp_all
  qed
  define r where "r = val ?c"
  have fin: "d_isfinite ops ?c" and err: "\<bar>r - x\<bar> \<le> x / 2 ^ 53"
    using c x(1) by (simp_all add: rounds_to_nearest_def r_def)
  have "x \<le> of_nat p / 100 * of_nat m" unfolding x_def by (rule mult_right_mono [OF literal_bounds(1) [OF p]]) simp
  also have "\<dots> = of_nat (p * m) / 100" by simp
  also have "\<dots> \<le> of_nat k" using of_nat_le_iff [of "p * m" "100 * k", where 'a = rat] k(3) by simp
  finally have xk: "x \<le> of_nat k" .
  have small: "k < 2 ^ 45" using k(2) n unfolding m_def by simp
  then have wk: "unat (of_nat k :: size_t) = k" by (simp add: unat_of_nat)
  then have d: "d_isfinite ops (d_of_u64 ops (of_nat k))" "val (d_of_u64 ops (of_nat k)) = of_nat k"
    using C(1,2) [of "of_nat k"] small by (simp_all add: wk)
  have "\<bar>r - x\<bar> \<le> \<bar>of_nat k - x\<bar>" using c d unfolding rounds_to_nearest_def r_def by metis
  then have upper: "r \<le> of_nat k" using xk by linarith
  have "(of_nat p / 100 - 1 / 10 ^ 16) * of_nat m \<le> x"
    unfolding x_def by (rule mult_right_mono [OF literal_bounds(2) [OF p]]) simp
  then have "of_nat (p * m) / 100 - of_nat m / 10 ^ 16 \<le> x" by (simp add: field_simps)
  moreover have "100 * of_nat (k - 1) + 1 \<le> (of_nat (p * m) :: rat)"
    using k(4) of_nat_le_iff [of "100 * (k - 1) + 1" "p * m", where 'a = rat] by simp
  ultimately have lower: "of_nat (k - 1) < r" by (rule errors_below_hundredth [OF _ _ x(2) err m(2)])
  have up: "\<lceil>r\<rceil> = int k" using upper lower k(1) by (simp add: ceiling_eq_iff of_nat_diff)
  have small': "(of_nat k :: rat) < 2 ^ 45" using of_nat_less_iff [of k "2 ^ 45", where 'a = rat] small by simp
  have "0 \<le> r" using lower of_nat_0_le_iff [of "k - 1", where 'a = rat] by linarith
  then have "\<bar>r\<bar> \<le> 2 ^ 53" using upper small' by simp
  then have ceil: "d_isfinite ops (d_ceil ops ?c)" "val (d_ceil ops ?c) = of_nat k"
    using C(6,7) [OF fin] up unfolding r_def by simp_all
  have "unat (d_to_size ops (d_ceil ops ?c)) = k" using C(8) [OF ceil(1)] ceil(2) small' by simp
  then show ?thesis by (simp add: rank_of_def k_def m_def)
qed

section \<open>Percentiles\<close>

text \<open>
  A value of the sample with at least \<open>p\<close> hundredths of the samples at or below it, and fewer than
  \<open>p\<close> hundredths below it.
\<close>

definition percentile :: "'d statistic_ops \<Rightarrow> 'd list \<Rightarrow> nat \<Rightarrow> 'd \<Rightarrow> bool" where
  "percentile ops samples p x \<longleftrightarrow>
     x \<in> set samples \<and>
     p * length samples \<le> 100 * length (filter (\<lambda>y. \<not> d_less ops x y) samples) \<and>
     100 * length (filter (\<lambda>y. d_less ops y x) samples) < p * length samples"

lemma finite_irrefl: "orders_finite ops \<Longrightarrow> d_isfinite ops a \<Longrightarrow> \<not> d_less ops a a"
  unfolding orders_finite_def by blast

lemma nearest_rank_percentile:
  assumes "orders_finite ops" and "binary64_contract ops val" and "\<forall>y \<in> set samples. d_isfinite ops y"
    and "samples \<noteq> []" and "length samples < 2 ^ 45" and p: "p \<in> {50, 95, 99}"
  shows "percentile ops samples p (nearest_rank ops (std_sort (d_less ops) samples) p)"
proof -
  let ?s = "std_sort (d_less ops) samples" and ?n = "length samples"
  have m: "mset ?s = mset samples" by (rule mset_std_sort)
  then have len: "length ?s = ?n" by (metis size_mset)
  have sorted: "sorted_wrt (\<lambda>a b. \<not> d_less ops b a) ?s" by (rule std_sort_sorted [OF assms(1,3)])
  define r where "r = (p * ?n + 99) div 100"
  have pos: "0 < ?n" using assms(4) by simp
  have r: "1 \<le> r" "r \<le> ?n" "p * ?n \<le> 100 * r" "100 * (r - 1) < p * ?n"
    using rank_bounds [OF pos p] unfolding r_def by auto
  have n: "unat (of_nat ?n :: size_t) = ?n" using assms(5) by (simp add: unat_of_nat)
  have rank: "unat (rank_of ops p (of_nat ?n)) = r"
    using rank_of_exact [OF assms(2) p, of "of_nat ?n"] pos assms(5) by (simp add: n r_def)
  then have "unat (rank_of ops p (of_nat ?n) - 1) = r - 1"
    using r(1) by (metis One_nat_def gr0_conv_Suc less_eq_Suc_le not_less_zero unat_1 unat_eq_zero unat_minus_one diff_Suc_1 zero_neq_one)
  then have x: "nearest_rank ops ?s p = ?s ! (r - 1)" (is "?x = _") by (simp add: nearest_rank_def len)
  have k: "r - 1 < length ?s" using r len by simp
  have counts: "length (filter P samples) = length (filter P ?s)" for P
    by (metis m mset_filter size_mset)
  have le: "\<not> d_less ops ?x y" if y: "y \<in> set (take r ?s)" for y
  proof -
    obtain i where i: "i < r" "i < length ?s" "y = ?s ! i" using y by (auto simp: in_set_conv_nth)
    show ?thesis
    proof (cases "i = r - 1")
      case True
      have "d_isfinite ops y" using assms(3) i m by (metis nth_mem set_mset_mset)
      then show ?thesis using True i(3) x finite_irrefl [OF assms(1)] by simp
    next
      case False
      then show ?thesis using sorted_wrt_nth_less [OF sorted, of i "r - 1"] i x k by simp
    qed
  qed
  have "r = length (filter (\<lambda>y. \<not> d_less ops ?x y) (take r ?s))"
    using le r len by (simp add: filter_True)
  also have "\<dots> \<le> length (filter (\<lambda>y. \<not> d_less ops ?x y) (take r ?s @ drop r ?s))" unfolding filter_append length_append by simp
  finally have atmost: "r \<le> length (filter (\<lambda>y. \<not> d_less ops ?x y) samples)" by (simp add: counts)
  have "\<not> d_less ops y ?x" if y: "y \<in> set (drop (r - 1) ?s)" for y
  proof -
    obtain j where "j < length ?s - (r - 1)" "y = ?s ! (r - 1 + j)" using y k by (auto simp: in_set_conv_nth)
    then have "r - 1 \<le> r - 1 + j \<and> r - 1 + j < length ?s \<and> y = ?s ! (r - 1 + j)" using k by simp
    then obtain i where i: "r - 1 \<le> i" "i < length ?s" "y = ?s ! i" by blast
    show ?thesis
    proof (cases "i = r - 1")
      case True
      have "d_isfinite ops y" using assms(3) i m by (metis nth_mem set_mset_mset)
      then show ?thesis using True i(3) x finite_irrefl [OF assms(1)] by simp
    next
      case False
      then show ?thesis using sorted_wrt_nth_less [OF sorted, of "r - 1" i] i x by simp
    qed
  qed
  then have "filter (\<lambda>y. d_less ops y ?x) (drop (r - 1) ?s) = []" by (simp add: filter_empty_conv)
  then have "length (filter (\<lambda>y. d_less ops y ?x) (take (r - 1) ?s @ drop (r - 1) ?s)) \<le> length (take (r - 1) ?s)"
    unfolding filter_append length_append by (simp only: length_filter_le list.size(3) add_0_right)
  then have below: "length (filter (\<lambda>y. d_less ops y ?x) samples) \<le> r - 1" by (simp add: counts)
  have "?x \<in> set samples" using k x m by (metis nth_mem set_mset_mset)
  moreover have "p * ?n \<le> 100 * length (filter (\<lambda>y. \<not> d_less ops ?x y) samples)" using atmost r(3) by simp
  moreover have "100 * length (filter (\<lambda>y. d_less ops y ?x) samples) < p * ?n" using below r(4) by simp
  ultimately show ?thesis by (simp add: percentile_def)
qed

section \<open>Exact doubles\<close>

text \<open>Rational numbers in place of doubles: every operation is exact, the literals have their binary values.\<close>

definition exact_doubles :: "rat statistic_ops" where
  "exact_doubles =
     \<lparr>d_of_u64 = \<lambda>n. of_nat (unat n), d_literal = of_nat, d_times = (*), d_divide = (/), d_less = (<), d_le = (\<le>),
      d_isfinite = \<lambda>_. True, d_to_size = \<lambda>a. of_nat (nat \<lfloor>a\<rfloor>), d_fixed = \<lambda>_ _. ''0'', d_plus = (+),
      d_ceil = \<lambda>a. of_int \<lceil>a\<rceil>, d_hundredths = literal_value, d_general = \<lambda>_ _. ''0''\<rparr>"

lemma exact_contract: "binary64_contract exact_doubles (\<lambda>a. a)"
proof -
  have "unat (of_nat (nat \<lfloor>a\<rfloor>) :: size_t) = nat \<lfloor>a\<rfloor>" if "0 \<le> a" "a \<le> 2 ^ 53" for a :: rat
  proof -
    have "\<lfloor>a\<rfloor> < 2 ^ 64" using that(2) by (simp add: floor_less_iff)
    then have "nat \<lfloor>a\<rfloor> < 2 ^ 64" using that(1) by (simp add: nat_less_iff)
    then show ?thesis by (simp add: unat_of_nat)
  qed
  then show ?thesis by (auto simp: binary64_contract_def rounds_to_nearest_def exact_doubles_def)
qed

section \<open>Properties\<close>

text \<open>
  C31: The benchmark statistics are nearest-rank percentiles. For \<open>double\<close>s that behave as IEEE 754
  documents (order, conversion of counts up to \<open>2 ^ 53\<close>, the values of the three literals, products
  rounded to nearest, \<open>std::ceil\<close>, truncation) and fewer than \<open>2 ^ 45\<close> samples, \<open>summarize_latencies\<close>
  rejects exactly the sample lists with a negative or non-finite value; on an empty list every field
  is zero; otherwise the sample count is the number of samples and each of the three percentiles \<open>p\<close> is
  a sample with at least \<open>p\<close> hundredths of the samples at or below it and fewer than \<open>p\<close> hundredths
  below it: the rounding of the product never moves the rank, and no access is out of range.
\<close>

theorem summary_percentiles:
  assumes "binary64_contract ops val" and "length samples < 2 ^ 45"
  shows "case summarize_latencies ops samples of
      Inl e \<Rightarrow> e = Invalid_argument ''latency samples must be finite and non-negative'' \<and>
        (\<exists>s \<in> set samples. d_less ops s (d_literal ops 0) \<or> \<not> d_isfinite ops s)
    | Inr s \<Rightarrow> (\<forall>x \<in> set samples. \<not> d_less ops x (d_literal ops 0) \<and> d_isfinite ops x) \<and>
        unat (bs_sample_count s) = length samples \<and>
        (if samples = [] then s = summary_new ops
         else percentile ops samples 50 (bs_p50_ms s) \<and> percentile ops samples 95 (bs_p95_ms s) \<and>
           percentile ops samples 99 (bs_p99_ms s))"
proof (cases "list_ex (\<lambda>s. d_less ops s (d_literal ops 0) \<or> \<not> d_isfinite ops s) samples")
  case True
  then show ?thesis by (auto simp: summarize_latencies_def list_ex_iff)
next
  case False
  then have fin: "\<forall>y \<in> set samples. d_isfinite ops y" by (auto simp: list_ex_iff)
  have "unat (of_nat (length samples) :: size_t) = length samples" using assms(2) by (simp add: unat_of_nat)
  then show ?thesis
    using False nearest_rank_percentile [OF binary64_orders [OF assms(1)] assms(1) fin _ assms(2)]
    by (auto simp: summarize_latencies_def summary_new_def Let_def list_ex_iff)
qed

theorem summary_percentiles_witness:
  "\<exists>s. summarize_latencies exact_doubles [3, 1, 2] = Inr s \<and> bs_sample_count s = 3 \<and>
     bs_p50_ms s = 2 \<and> bs_p95_ms s = 3 \<and> bs_p99_ms s = 3"
proof -
  have "\<exists>s. summarize_latencies exact_doubles [3, 1, 2] = Inr s \<and> bs_sample_count s = 3"
    by (simp add: summarize_latencies_def exact_doubles_def Let_def)
  then obtain s where s: "summarize_latencies exact_doubles [3, 1, 2] = Inr s" "bs_sample_count s = 3" by blast
  from summary_percentiles [OF exact_contract, of "[3, 1, 2]"] s
  have p: "percentile exact_doubles [3, 1, 2] 50 (bs_p50_ms s)" "percentile exact_doubles [3, 1, 2] 95 (bs_p95_ms s)"
    "percentile exact_doubles [3, 1, 2] 99 (bs_p99_ms s)" by simp_all
  from p(1) have "bs_p50_ms s = 2" by (auto simp: percentile_def exact_doubles_def)
  moreover from p(2) have "bs_p95_ms s = 3" by (auto simp: percentile_def exact_doubles_def)
  moreover from p(3) have "bs_p99_ms s = 3" by (auto simp: percentile_def exact_doubles_def)
  ultimately show ?thesis using s by blast
qed

end
