(* ===== verification/Uring_Demos.thy ===== *)
theory Uring_Demos
  imports Uring Reporter
begin

text \<open>
  The programs of \<open>examples/io_uring/\<close> that use liburing directly: \<open>uring_batch_read.cpp\<close>,
  \<open>uring_read_once.cpp\<close> and \<open>uring_write_demo.cpp\<close>. The address of a request is its number, \<open>strerror\<close>
  a function; a run gives the exit code and what reaches \<open>std::cout\<close> and \<open>std::cerr\<close>, or \<open>None\<close> when
  waiting blocks for ever.
\<close>

definition int_text :: "int \<Rightarrow> string" where
  "int_text n = (if n < 0 then CHR ''-'' # decimal (nat (- n)) else decimal (nat n))"

section \<open>uring_batch_read\<close>

definition kBatchQueueDepth :: "32 word" where "kBatchQueueDepth = 4"

definition kRequestCount :: nat where "kRequestCount = 4"

definition kBlockSize :: "32 word" where "kBlockSize = 4096"

record batch_request =
  br_id :: u64
  br_offset :: u64
  br_buffer :: "byte list"
  br_result :: int
  br_completed :: bool

text \<open>\<open>RequestBatch requests{}\<close>.\<close>

definition blank_request :: batch_request where
  "blank_request = \<lparr>br_id = 0, br_offset = 0, br_buffer = replicate (unat kBlockSize) 0, br_result = 0, br_completed = False\<rparr>"

definition initialize_requests :: "batch_request list \<Rightarrow> batch_request list" where
  "initialize_requests requests =
     map (\<lambda>(index, x). x\<lparr>br_id := of_nat index + 1, br_offset := of_nat index * ucast kBlockSize\<rparr>)
       (zip [0..<length requests] requests)"

text \<open>The first loop: the text for \<open>std::cerr\<close> when there is no entry.\<close>

fun prepare_requests ::
  "'r uring_calls \<Rightarrow> int \<Rightarrow> nat \<Rightarrow> batch_request list \<Rightarrow> 'r \<Rightarrow> (string + unit) \<times> 'r" where
  "prepare_requests uc input_fd i [] ring = (Inr (), ring)"
| "prepare_requests uc input_fd i (x # xs) ring =
     (case io_uring_get_sqe uc ring of
        (None, ring') \<Rightarrow> (Inl (''no available SQE for request '' @ decimal i @ lf), ring')
      | (Some sqe, ring') \<Rightarrow>
          prepare_requests uc input_fd (Suc i) xs
            (io_uring_sqe_set_data uc sqe i (io_uring_prep_read uc sqe input_fd kBlockSize (br_offset x) ring')))"

record 'r batch_state =
  bs_requests :: "batch_request list"
  bs_errors :: string
  bs_internal_error :: bool
  bs_request_error :: bool
  bs_ring :: 'r

text \<open>The search for the request that the user data points to.\<close>

definition find_request :: "nat option \<Rightarrow> batch_request list \<Rightarrow> nat option" where
  "find_request completion_data requests =
     (case completion_data of None \<Rightarrow> None | Some i \<Rightarrow> if i < length requests then Some i else None)"

definition record_completion :: "uring_completion \<Rightarrow> 'r batch_state \<Rightarrow> 'r batch_state" where
  "record_completion cqe s =
     (case find_request (cqe_data cqe) (bs_requests s) of
        None \<Rightarrow> s\<lparr>bs_errors := bs_errors s @ ''request pointer out of range'' @ lf, bs_internal_error := True\<rparr>
      | Some i \<Rightarrow>
          let x = bs_requests s ! i in
          if br_completed x then
            s\<lparr>bs_errors := bs_errors s @ ''request '' @ u64_text (br_id x) @ '' already completed'' @ lf,
              bs_internal_error := True\<rparr>
          else
            s\<lparr>bs_requests := (bs_requests s)[i := x\<lparr>br_buffer := store_prefix (cqe_stored cqe) (br_buffer x),
                 br_result := cqe_res cqe, br_completed := True\<rparr>],
              bs_request_error := bs_request_error s \<or> cqe_res cqe < 0\<rparr>)"

text \<open>The second loop: false when waiting fails.\<close>

fun collect_completions ::
  "'r uring_calls \<Rightarrow> (int \<Rightarrow> string) \<Rightarrow> nat \<Rightarrow> 'r batch_state \<Rightarrow> (bool \<times> 'r batch_state) option" where
  "collect_completions uc strerror 0 s = Some (True, s)"
| "collect_completions uc strerror (Suc remaining) s =
     (case wait_cqe_retry uc (bs_ring s) of
        None \<Rightarrow> None
      | Some (wait_result, cqe, ring) \<Rightarrow>
          if wait_result < 0 then
            Some (False, s\<lparr>bs_errors := bs_errors s @ ''io_uring_wait_cqe failed: '' @ strerror (- wait_result) @ lf,
                           bs_ring := ring\<rparr>)
          else
            collect_completions uc strerror remaining
              (record_completion cqe (s\<lparr>bs_ring := io_uring_cqe_seen uc ring\<rparr>)))"

text \<open>The third loop: the lines, the total, and whether a request is not completed.\<close>

fun request_lines :: "(int \<Rightarrow> string) \<Rightarrow> batch_request list \<Rightarrow> size_t \<Rightarrow> bool \<Rightarrow> string \<times> size_t \<times> bool" where
  "request_lines strerror [] bytes internal_error = ([], bytes, internal_error)"
| "request_lines strerror (x # xs) bytes internal_error =
     (let front = ''request_id='' @ u64_text (br_id x) @ '' offset='' @ u64_text (br_offset x) @ '' bytes_read='';
          (middle, bytes', internal_error') =
            (if \<not> br_completed x then (''not_completed'', bytes, True)
             else if br_result x < 0 then
               (int_text (br_result x) @ '' error='' @ strerror (- br_result x), bytes, internal_error)
             else (int_text (br_result x), bytes + of_int (br_result x), internal_error));
          (rest, bytes'', internal_error'') = request_lines strerror xs bytes' internal_error' in
      (front @ middle @ lf @ rest, bytes'', internal_error''))"

text \<open>The exit code, the two texts, the requests and the ring.\<close>

definition run_batch_read ::
  "'r uring_calls \<Rightarrow> (int \<Rightarrow> string) \<Rightarrow> int \<Rightarrow> batch_request list \<Rightarrow> 'r \<Rightarrow>
     ((int \<times> string \<times> string) \<times> batch_request list \<times> 'r) option" where
  "run_batch_read uc strerror input_fd requests ring =
     (case prepare_requests uc input_fd 0 requests ring of
        (Inl message, ring1) \<Rightarrow> Some ((1, [], message), requests, ring1)
      | (Inr _, ring1) \<Rightarrow>
     (case io_uring_submit uc ring1 of (submit_result, ring2) \<Rightarrow>
        if submit_result < 0 then
          Some ((1, [], ''io_uring_submit failed: '' @ strerror (- submit_result) @ lf), requests, ring2)
        else if submit_result \<noteq> int (length requests) then
          Some ((1, [], ''expected 4 submissions, got '' @ int_text submit_result @ lf), requests, ring2)
        else
          (case collect_completions uc strerror (length requests)
                  \<lparr>bs_requests = requests, bs_errors = [], bs_internal_error = False, bs_request_error = False,
                   bs_ring = ring2\<rparr> of
             None \<Rightarrow> None
           | Some (False, s) \<Rightarrow> Some ((1, [], bs_errors s), bs_requests s, bs_ring s)
           | Some (True, s) \<Rightarrow>
               (case request_lines strerror (bs_requests s) 0 (bs_internal_error s) of (text, bytes, internal_error) \<Rightarrow>
                  Some ((if internal_error \<or> bs_request_error s then 1 else 0,
                         text @ ''total_bytes_read='' @ u64_text bytes @ lf, bs_errors s),
                    bs_requests s, bs_ring s)))))"

text \<open>
  What the three \<open>main\<close> functions share: opening the file, the ring, its exit and the closing of the
  descriptor. The file system and the ring are separate worlds.
\<close>

definition with_ring ::
  "'r uring_calls \<Rightarrow> (int \<Rightarrow> string) \<Rightarrow> 32 word \<Rightarrow> ('r \<Rightarrow> ((int \<times> string \<times> string) \<times> 'r) option) \<Rightarrow> 'r \<Rightarrow>
     ((int \<times> string \<times> string) \<times> 'r) option" where
  "with_ring uc strerror depth run ring =
     (case io_uring_queue_init uc depth ring of (init_result, ring1) \<Rightarrow>
        if init_result < 0 then
          Some ((1, [], ''io_uring_queue_init failed: '' @ strerror (- init_result) @ lf), ring1)
        else
          (case run ring1 of
             None \<Rightarrow> None
           | Some (result, ring2) \<Rightarrow> Some (result, io_uring_queue_exit uc ring2)))"

definition with_input ::
  "'w posix_calls \<Rightarrow> (int \<Rightarrow> 'w \<Rightarrow> 'w) \<Rightarrow> (int \<Rightarrow> string) \<Rightarrow> string list \<Rightarrow>
   (int \<Rightarrow> 'r \<Rightarrow> ((int \<times> string \<times> string) \<times> 'r) option) \<Rightarrow> 'r \<Rightarrow> 'w \<Rightarrow> ((int \<times> string \<times> string) \<times> 'r \<times> 'w) option" where
  "with_input sys close_fd strerror argv run ring w =
     (case argv of
        [program, input] \<Rightarrow>
          (case open_read_only sys input w of (opened, w1) \<Rightarrow>
             if of_error_number opened \<noteq> 0 then
               Some ((1, [], ''open input failed: '' @ strerror (of_error_number opened) @ lf), ring, w1)
             else
               (case run (of_fd opened) ring of
                  None \<Rightarrow> None
                | Some (result, ring1) \<Rightarrow> Some (result, ring1, close_fd (of_fd opened) w1)))
      | _ \<Rightarrow> Some ((1, [], ''usage: '' @ hd argv @ '' <input>'' @ lf), ring, w))"

definition batch_read_main ::
  "'r uring_calls \<Rightarrow> 'w posix_calls \<Rightarrow> (int \<Rightarrow> 'w \<Rightarrow> 'w) \<Rightarrow> (int \<Rightarrow> string) \<Rightarrow> string list \<Rightarrow> 'r \<Rightarrow> 'w \<Rightarrow>
     ((int \<times> string \<times> string) \<times> 'r \<times> 'w) option" where
  "batch_read_main uc sys close_fd strerror argv =
     with_input sys close_fd strerror argv (\<lambda>input_fd.
       with_ring uc strerror kBatchQueueDepth (\<lambda>ring.
         map_option (\<lambda>(result, requests, ring'). (result, ring'))
           (run_batch_read uc strerror input_fd (initialize_requests (replicate kRequestCount blank_request)) ring)))"

section \<open>uring_read_once\<close>

definition kReadQueueDepth :: "32 word" where "kReadQueueDepth = 8"

definition kReadSize :: "32 word" where "kReadSize = 4096"

text \<open>The submission of one entry and the wait for its completion, which is seen in the end.\<close>

definition submit_and_wait ::
  "'r uring_calls \<Rightarrow> (int \<Rightarrow> string) \<Rightarrow> (nat \<Rightarrow> 'r \<Rightarrow> 'r) \<Rightarrow> 'r \<Rightarrow> ((string + uring_completion) \<times> 'r) option" where
  "submit_and_wait uc strerror prepare ring =
     (case io_uring_get_sqe uc ring of
        (None, ring1) \<Rightarrow> Some (Inl (''no available SQE'' @ lf), ring1)
      | (Some sqe, ring1) \<Rightarrow>
     (case io_uring_submit uc (io_uring_sqe_set_data uc sqe 0 (prepare sqe ring1)) of (submit_result, ring2) \<Rightarrow>
        if submit_result < 0 then
          Some (Inl (''io_uring_submit failed: '' @ strerror (- submit_result) @ lf), ring2)
        else if submit_result \<noteq> 1 then
          Some (Inl (''expected 1 submission, got '' @ int_text submit_result @ lf), ring2)
        else
          (case wait_cqe_retry uc ring2 of
             None \<Rightarrow> None
           | Some (wait_result, cqe, ring3) \<Rightarrow>
               if wait_result < 0 then
                 Some (Inl (''io_uring_wait_cqe failed: '' @ strerror (- wait_result) @ lf), ring3)
               else if cqe_data cqe \<noteq> Some 0 then
                 Some (Inl (''request mismatch'' @ lf), io_uring_cqe_seen uc ring3)
               else Some (Inr cqe, io_uring_cqe_seen uc ring3))))"

definition run_single_read ::
  "'r uring_calls \<Rightarrow> (int \<Rightarrow> string) \<Rightarrow> int \<Rightarrow> 'r \<Rightarrow> ((int \<times> string \<times> string) \<times> 'r) option" where
  "run_single_read uc strerror input_fd ring =
     (case submit_and_wait uc strerror (\<lambda>sqe. io_uring_prep_read uc sqe input_fd kReadSize 0) ring of
        None \<Rightarrow> None
      | Some (Inl message, ring') \<Rightarrow> Some ((1, [], message), ring')
      | Some (Inr cqe, ring') \<Rightarrow>
          if cqe_res cqe < 0 then Some ((1, [], ''read failed: '' @ strerror (- cqe_res cqe) @ lf), ring')
          else Some ((0, ''bytes_read='' @ int_text (cqe_res cqe) @ '' request_id=1'' @ lf, []), ring'))"

definition read_once_main ::
  "'r uring_calls \<Rightarrow> 'w posix_calls \<Rightarrow> (int \<Rightarrow> 'w \<Rightarrow> 'w) \<Rightarrow> (int \<Rightarrow> string) \<Rightarrow> string list \<Rightarrow> 'r \<Rightarrow> 'w \<Rightarrow>
     ((int \<times> string \<times> string) \<times> 'r \<times> 'w) option" where
  "read_once_main uc sys close_fd strerror argv =
     with_input sys close_fd strerror argv (\<lambda>input_fd.
       with_ring uc strerror kReadQueueDepth (run_single_read uc strerror input_fd))"

section \<open>uring_write_demo\<close>

record 'r uring_write_calls = "'r uring_calls" +
  io_uring_prep_write :: "nat \<Rightarrow> int \<Rightarrow> byte list \<Rightarrow> u64 \<Rightarrow> 'r \<Rightarrow> 'r"

definition kPayloadText :: string where
  "kPayloadText = ''AsyncDataLoader io_uring write demo'' @ lf"

record write_request =
  wq_id :: u64
  wq_offset :: u64
  wq_expected_bytes :: size_t

definition run_single_write ::
  "'r uring_write_calls \<Rightarrow> (int \<Rightarrow> string) \<Rightarrow> int \<Rightarrow> byte list \<Rightarrow> write_request \<Rightarrow> 'r \<Rightarrow>
     ((int \<times> string \<times> string) \<times> 'r) option" where
  "run_single_write uc strerror output_fd payload request ring =
     (case submit_and_wait (uring_calls.truncate uc) strerror
             (\<lambda>sqe. io_uring_prep_write uc sqe output_fd payload (wq_offset request)) ring of
        None \<Rightarrow> None
      | Some (Inl message, ring') \<Rightarrow> Some ((1, [], message), ring')
      | Some (Inr cqe, ring') \<Rightarrow>
          if cqe_res cqe < 0 then Some ((1, [], ''write failed: '' @ strerror (- cqe_res cqe) @ lf), ring')
          else if of_int (cqe_res cqe) \<noteq> wq_expected_bytes request then
            Some ((1, [], ''short write: expected '' @ u64_text (wq_expected_bytes request) @ '', wrote '' @
                          int_text (cqe_res cqe) @ lf), ring')
          else
            Some ((0, ''bytes_written='' @ int_text (cqe_res cqe) @ '' request_id='' @ u64_text (wq_id request) @
                      '' offset='' @ u64_text (wq_offset request) @ lf, []), ring'))"

definition write_demo_main ::
  "'r uring_write_calls \<Rightarrow> (string \<Rightarrow> 'w \<Rightarrow> syscall_result \<times> 'w) \<Rightarrow> (int \<Rightarrow> 'w \<Rightarrow> 'w) \<Rightarrow> (int \<Rightarrow> string) \<Rightarrow>
   string list \<Rightarrow> 'r \<Rightarrow> 'w \<Rightarrow> ((int \<times> string \<times> string) \<times> 'r \<times> 'w) option" where
  "write_demo_main uc open_truncated close_fd strerror argv ring w =
     (case argv of
        [program, output] \<Rightarrow>
          (case open_truncated output w of
             (Sys_failed error_number, w1) \<Rightarrow>
               Some ((1, [], ''open output failed: '' @ strerror error_number @ lf), ring, w1)
           | (Sys_ok output_fd, w1) \<Rightarrow>
               (let payload = map of_char kPayloadText;
                    request = \<lparr>wq_id = 1, wq_offset = 0, wq_expected_bytes = of_nat (length payload)\<rparr> in
                case with_ring (uring_calls.truncate uc) strerror kBatchQueueDepth
                       (run_single_write uc strerror (int output_fd) payload request) ring of
                  None \<Rightarrow> None
                | Some (result, ring1) \<Rightarrow> Some (result, ring1, close_fd (int output_fd) w1)))
      | _ \<Rightarrow> Some ((1, [], ''usage: '' @ hd argv @ '' <output>'' @ lf), ring, w))"

section \<open>The batch over a ring that keeps its promises\<close>

definition batch_entry :: "int \<Rightarrow> nat \<Rightarrow> batch_request \<Rightarrow> uring_submission" where
  "batch_entry fd i x = \<lparr>sm_fd = fd, sm_byte_count = kBlockSize, sm_offset = br_offset x, sm_data = Some i\<rparr>"

lemma prepare_requests_outcome:
  assumes sq: "submission_contract uc v"
  shows "prepare_requests uc fd i xs ring = (r, ring') \<Longrightarrow> rv_ok v ring \<Longrightarrow>
    rv_ok v ring' \<and> rv_pending v ring' = rv_pending v ring \<and>
    (r = Inr () \<longrightarrow>
      rv_prepared v ring' = rv_prepared v ring @ map (\<lambda>(j, x). batch_entry fd j x) (zip [i..<i + length xs] xs))"
proof (induction xs arbitrary: i ring)
  case (Cons x xs)
  note C = sq [unfolded submission_contract_def, rule_format]
  show ?case
  proof (cases "io_uring_get_sqe uc ring")
    case (Pair sqe ring1)
    note get = C [OF Cons.prems(2), THEN conjunct1, rule_format, OF Pair]
    show ?thesis
    proof (cases sqe)
      case None
      with Cons.prems(1) get show ?thesis by (auto simp: Pair)
    next
      case (Some k)
      then obtain y where r1: "rv_ok v ring1" "rv_pending v ring1 = rv_pending v ring"
        "k = length (rv_prepared v ring)" "rv_prepared v ring1 = rv_prepared v ring @ [y]"
        using get by auto
      let ?r2 = "io_uring_prep_read uc k fd kBlockSize (br_offset x) ring1" and ?r3 = "\<lambda>r. io_uring_sqe_set_data uc k i r"
      have r2: "rv_ok v ?r2" "rv_pending v ?r2 = rv_pending v ring"
        "rv_prepared v ?r2 = rv_prepared v ring @
          [\<lparr>sm_fd = fd, sm_byte_count = kBlockSize, sm_offset = br_offset x, sm_data = None\<rparr>]"
        using C [OF r1(1), THEN conjunct2, THEN conjunct1, rule_format, of k fd kBlockSize "br_offset x"] r1 by simp_all
      have r3: "rv_ok v (?r3 ?r2)" "rv_pending v (?r3 ?r2) = rv_pending v ring"
        "rv_prepared v (?r3 ?r2) = rv_prepared v ring @ [batch_entry fd i x]"
        using C [OF r2(1), THEN conjunct2, THEN conjunct2, THEN conjunct1, rule_format, of k i] r1(3) r2
        by (simp_all add: batch_entry_def)
      have rest: "prepare_requests uc fd (Suc i) xs (?r3 ?r2) = (r, ring')" using Cons.prems(1) Some by (simp add: Pair)
      have "[i..<i + length (x # xs)] = i # [Suc i..<Suc i + length xs]"
        by (subst upt_conv_Cons) simp_all
      with Cons.IH [OF rest r3(1)] r3 show ?thesis by auto
    qed
  qed
qed simp

text \<open>A ring with room for all requests, whose calls succeed and whose reads are answered without errors.\<close>

definition never_fails ::
  "'r uring_calls \<Rightarrow> 'r ring_view \<Rightarrow> (uring_submission \<Rightarrow> int \<Rightarrow> byte list \<Rightarrow> bool) \<Rightarrow> nat \<Rightarrow> bool" where
  "never_fails uc v answers n \<longleftrightarrow>
     submits_all uc v \<and> waits_succeed uc v \<and> (\<forall>s k stored. answers s k stored \<longrightarrow> 0 \<le> k) \<and>
     (\<forall>r. rv_ok v r \<longrightarrow> length (rv_prepared v r) < n \<longrightarrow> fst (io_uring_get_sqe uc r) \<noteq> None)"

lemma prepare_requests_room:
  assumes sq: "submission_contract uc v" and good: "never_fails uc v answers n"
  shows "prepare_requests uc fd i xs ring = (r, ring') \<Longrightarrow> rv_ok v ring \<Longrightarrow>
    length (rv_prepared v ring) + length xs \<le> n \<Longrightarrow> r = Inr ()"
proof (induction xs arbitrary: i ring)
  case (Cons x xs)
  then have "fst (io_uring_get_sqe uc ring) \<noteq> None" using good by (simp add: never_fails_def)
  then obtain k ring1 where get: "io_uring_get_sqe uc ring = (Some k, ring1)"
    by (cases "io_uring_get_sqe uc ring") auto
  let ?ring2 = "io_uring_sqe_set_data uc k i (io_uring_prep_read uc k fd kBlockSize (br_offset x) ring1)"
  have one: "prepare_requests uc fd i [x] ring = (Inr (), ?ring2)" by (simp add: get)
  have rest: "prepare_requests uc fd (Suc i) xs ?ring2 = (r, ring')" using Cons.prems(1) by (simp add: get)
  from prepare_requests_outcome [OF sq one Cons.prems(2)] Cons.prems(3) show ?case by (intro Cons.IH [OF rest]) auto
qed simp

text \<open>While completions come in: what is pending, and what the completed requests hold.\<close>

definition open_requests :: "int \<Rightarrow> batch_request list \<Rightarrow> batch_request list \<Rightarrow> uring_submission set" where
  "open_requests fd start requests =
     {batch_entry fd i (start ! i) | i. i < length start \<and> \<not> br_completed (requests ! i)}"

definition request_answered ::
  "(uring_submission \<Rightarrow> int \<Rightarrow> byte list \<Rightarrow> bool) \<Rightarrow> int \<Rightarrow> nat \<Rightarrow> batch_request \<Rightarrow> batch_request \<Rightarrow> bool" where
  "request_answered answers fd i x y \<longleftrightarrow>
     (\<exists>stored. answers (batch_entry fd i x) (br_result y) stored \<and>
        y = x\<lparr>br_buffer := store_prefix stored (br_buffer x), br_result := br_result y, br_completed := True\<rparr>)"

definition batch_ok ::
  "'r ring_view \<Rightarrow> (uring_submission \<Rightarrow> int \<Rightarrow> byte list \<Rightarrow> bool) \<Rightarrow> int \<Rightarrow> batch_request list \<Rightarrow>
   'r batch_state \<Rightarrow> bool" where
  "batch_ok v answers fd start s \<longleftrightarrow>
     rv_ok v (bs_ring s) \<and> rv_prepared v (bs_ring s) = [] \<and> distinct (rv_pending v (bs_ring s)) \<and>
     set (rv_pending v (bs_ring s)) = open_requests fd start (bs_requests s) \<and>
     length (bs_requests s) = length start \<and> \<not> bs_internal_error s \<and>
     (\<forall>i < length start. if br_completed (bs_requests s ! i)
        then request_answered answers fd i (start ! i) (bs_requests s ! i) \<and> (br_result (bs_requests s ! i) < 0 \<longrightarrow> bs_request_error s)
        else bs_requests s ! i = start ! i) \<and>
     (bs_request_error s \<longrightarrow> (\<exists>e k stored. answers e k stored \<and> k < 0))"

lemma batch_entry_inject: "batch_entry fd i x = batch_entry fd j y \<Longrightarrow> i = j"
  by (simp add: batch_entry_def)

lemma record_completion_ok:
  assumes ok: "batch_ok v answers fd start s" and e: "e \<in> set (rv_pending v (bs_ring s))"
    and cqe: "cqe_data cqe = sm_data e" "answers e (cqe_res cqe) (cqe_stored cqe)"
    and ring: "rv_ok v ring" "rv_prepared v ring = []" "rv_pending v ring = remove1 e (rv_pending v (bs_ring s))"
  shows "batch_ok v answers fd start (record_completion cqe (s\<lparr>bs_ring := ring\<rparr>)) \<and>
    bs_ring (record_completion cqe (s\<lparr>bs_ring := ring\<rparr>)) = ring \<and>
    bs_errors (record_completion cqe (s\<lparr>bs_ring := ring\<rparr>)) = bs_errors s"
proof -
  note D = ok [unfolded batch_ok_def]
  obtain i where i: "e = batch_entry fd i (start ! i)" "i < length start" "\<not> br_completed (bs_requests s ! i)"
    using e D by (auto simp: open_requests_def)
  have x: "bs_requests s ! i = start ! i" using D i by auto
  have find: "find_request (cqe_data cqe) (bs_requests s) = Some i"
    using D i by (simp add: cqe find_request_def batch_entry_def)
  let ?y = "(start ! i)\<lparr>br_buffer := store_prefix (cqe_stored cqe) (br_buffer (start ! i)), br_result := cqe_res cqe,
      br_completed := True\<rparr>"
  have new: "record_completion cqe (s\<lparr>bs_ring := ring\<rparr>) =
      s\<lparr>bs_ring := ring, bs_requests := (bs_requests s)[i := ?y],
        bs_request_error := bs_request_error s \<or> cqe_res cqe < 0\<rparr>"
    using i(3) x by (simp add: record_completion_def find Let_def)
  have len: "length (bs_requests s) = length start" using D by simp
  have pend: "set (rv_pending v ring) = open_requests fd start ((bs_requests s)[i := ?y])"
  proof -
    have "set (rv_pending v ring) = open_requests fd start (bs_requests s) - {e}"
      using D by (simp add: ring)
    also have "\<dots> = open_requests fd start ((bs_requests s)[i := ?y])"
      using i len by (auto simp: open_requests_def nth_list_update dest: batch_entry_inject)
    finally show ?thesis .
  qed
  have "request_answered answers fd i (start ! i) ?y"
    unfolding request_answered_def using cqe(2) i(1) by (intro exI [of _ "cqe_stored cqe"]) simp
  then have each: "if br_completed ((bs_requests s)[i := ?y] ! j)
      then request_answered answers fd j (start ! j) ((bs_requests s)[i := ?y] ! j) \<and>
        (br_result ((bs_requests s)[i := ?y] ! j) < 0 \<longrightarrow> bs_request_error s \<or> cqe_res cqe < 0)
      else (bs_requests s)[i := ?y] ! j = start ! j" if "j < length start" for j
    using D that len i(2) by (cases "j = i") auto
  have "batch_ok v answers fd start (s\<lparr>bs_ring := ring, bs_requests := (bs_requests s)[i := ?y],
        bs_request_error := bs_request_error s \<or> cqe_res cqe < 0\<rparr>)"
    unfolding batch_ok_def using D pend ring each cqe(2) by auto
  then show ?thesis unfolding new by simp
qed

lemma collect_completions_outcome:
  assumes cq: "completion_contract uc v answers m"
  shows "batch_ok v answers fd start s \<Longrightarrow> length (rv_pending v (bs_ring s)) = remaining \<Longrightarrow>
    \<exists>complete s'. collect_completions uc strerror remaining s = Some (complete, s') \<and>
      (complete \<longrightarrow> batch_ok v answers fd start s' \<and> rv_pending v (bs_ring s') = [] \<and> bs_errors s' = bs_errors s) \<and>
      (waits_succeed uc v \<longrightarrow> complete)"
proof (induction remaining arbitrary: s)
  case (Suc remaining)
  note D = Suc.prems(1) [unfolded batch_ok_def]
  from D have "wait_cqe_retry uc (bs_ring s) = None \<and> rv_pending v (bs_ring s) = [] \<or>
      (\<exists>out. wait_cqe_retry uc (bs_ring s) = Some out \<and> cqe_taken uc v answers (rv_pending v (bs_ring s)) out)"
    by (intro wait_cqe_retry_taken [OF cq]) simp_all
  with Suc.prems(2) obtain k c ring where w: "wait_cqe_retry uc (bs_ring s) = Some (k, c, ring)"
    "cqe_taken uc v answers (rv_pending v (bs_ring s)) (k, c, ring)" by auto
  show ?case
  proof (cases "k < 0")
    case True
    then have "\<not> waits_succeed uc v" using retry_succeeds [OF cq _ _ w(1)] D by auto
    then show ?thesis using True by (auto simp: w(1))
  next
    case False
    then obtain e where e: "e \<in> set (rv_pending v (bs_ring s))" "cqe_data c = sm_data e"
      "answers e (cqe_res c) (cqe_stored c)" "rv_ok v (io_uring_cqe_seen uc ring)"
      "rv_prepared v (io_uring_cqe_seen uc ring) = []"
      "rv_pending v (io_uring_cqe_seen uc ring) = remove1 e (rv_pending v (bs_ring s))"
      using w(2) by (auto simp: cqe_taken_def)
    note next_ = record_completion_ok [OF Suc.prems(1) e]
    have "length (rv_pending v (io_uring_cqe_seen uc ring)) = remaining"
      using e(1,6) Suc.prems(2) by (simp add: length_remove1)
    then show ?thesis
      using Suc.IH [of "record_completion c (s\<lparr>bs_ring := io_uring_cqe_seen uc ring\<rparr>)"] next_ False by (simp add: w(1))
  qed
next
  case 0
  then show ?case by auto
qed

lemma zip_entries:
  "map (\<lambda>(j, x). batch_entry fd j x) (zip [0..<length xs] xs) = map (\<lambda>j. batch_entry fd j (xs ! j)) [0..<length xs]"
  by (rule nth_equalityI) simp_all

lemma batch_start_ok:
  assumes "rv_ok v ring" "rv_prepared v ring = []" and fresh: "\<forall>x \<in> set requests. \<not> br_completed x"
    and "rv_pending v ring = map (\<lambda>j. batch_entry fd j (requests ! j)) [0..<length requests]"
  shows "batch_ok v answers fd requests \<lparr>bs_requests = requests, bs_errors = [], bs_internal_error = False,
    bs_request_error = False, bs_ring = ring\<rparr>"
proof -
  have "distinct (map (\<lambda>j. batch_entry fd j (requests ! j)) [0..<length requests])"
    by (auto simp: distinct_map inj_on_def dest: batch_entry_inject)
  moreover have "set (map (\<lambda>j. batch_entry fd j (requests ! j)) [0..<length requests]) = open_requests fd requests requests"
    using fresh by (auto simp: open_requests_def)
  ultimately show ?thesis using assms by (auto simp: batch_ok_def)
qed

lemma request_lines_complete:
  "\<forall>x \<in> set xs. br_completed x \<Longrightarrow> snd (snd (request_lines strerror xs n internal)) = internal"
proof (induction xs arbitrary: n)
  case (Cons x xs)
  have "snd (snd (request_lines strerror xs n' internal)) = internal" for n' using Cons by simp
  with Cons.prems show ?case by (simp add: Let_def split_beta)
qed simp

lemma run_batch_read_outcome:
  assumes sq: "submission_contract uc v" and cq: "completion_contract uc v answers m"
    and ring: "rv_ok v ring" "rv_prepared v ring = []" "rv_pending v ring = []"
    and fresh: "\<forall>x \<in> set requests. \<not> br_completed x"
  shows "\<exists>code out err requests' ring'. run_batch_read uc strerror fd requests ring = Some ((code, out, err), requests', ring') \<and>
    (code = 0 \<or> code = 1) \<and>
    (code = 0 \<longrightarrow> err = [] \<and> length requests' = length requests \<and>
      (\<forall>i < length requests. request_answered answers fd i (requests ! i) (requests' ! i) \<and> 0 \<le> br_result (requests' ! i))) \<and>
    (never_fails uc v answers (length requests) \<longrightarrow> code = 0)"
proof -
  obtain r ring1 where p: "prepare_requests uc fd 0 requests ring = (r, ring1)" by (metis surj_pair)
  note prep = prepare_requests_outcome [OF sq p ring(1), unfolded ring, simplified]
  obtain k ring2 where k: "io_uring_submit uc ring1 = (k, ring2)" by (metis surj_pair)
  show ?thesis
  proof (cases "r = Inr () \<and> k = int (length requests)")
    case False
    have "\<not> never_fails uc v answers (length requests)"
    proof
      assume good: "never_fails uc v answers (length requests)"
      have "r = Inr ()" by (rule prepare_requests_room [OF sq good p ring(1)]) (simp add: ring(2))
      moreover from this prep good k have "k = int (length requests)"
        unfolding never_fails_def submits_all_def by (auto simp: zip_entries)
      ultimately show False using False by simp
    qed
    with False show ?thesis by (cases r) (auto simp: run_batch_read_def p k)
  next
    case True
    with prep have ring1: "rv_ok v ring1" "rv_pending v ring1 = []"
      "rv_prepared v ring1 = map (\<lambda>j. batch_entry fd j (requests ! j)) [0..<length requests]"
      by (simp_all add: zip_entries)
    from sq [unfolded submission_contract_def, rule_format, OF ring1(1), THEN conjunct2, THEN conjunct2, THEN conjunct2,
        rule_format, OF k] True ring1
    have ring2: "rv_ok v ring2" "rv_prepared v ring2 = []"
      "rv_pending v ring2 = map (\<lambda>j. batch_entry fd j (requests ! j)) [0..<length requests]"
      by simp_all
    let ?s = "\<lparr>bs_requests = requests, bs_errors = [], bs_internal_error = False, bs_request_error = False, bs_ring = ring2\<rparr>"
    have "length (rv_pending v (bs_ring ?s)) = length requests" using ring2 by simp
    from collect_completions_outcome [OF cq batch_start_ok [OF ring2(1,2) fresh ring2(3)] this, of strerror]
    obtain complete s' where c: "collect_completions uc strerror (length requests) ?s = Some (complete, s')"
      and ok: "complete \<Longrightarrow> batch_ok v answers fd requests s' \<and> rv_pending v (bs_ring s') = [] \<and> bs_errors s' = []"
      and waits: "waits_succeed uc v \<longrightarrow> complete"
      by auto
    show ?thesis
    proof (cases complete)
      case False
      with c waits show ?thesis using True by (simp add: run_batch_read_def p k never_fails_def)
    next
      case complete: True
      note D = ok [OF complete, unfolded batch_ok_def]
      have all: "br_completed (bs_requests s' ! i)" if "i < length requests" for i
        using D that by (fastforce simp: open_requests_def)
      have internal: "snd (snd (request_lines strerror (bs_requests s') 0 (bs_internal_error s'))) = False"
      proof -
        have "\<forall>x \<in> set (bs_requests s'). br_completed x" using all D by (auto simp: in_set_conv_nth)
        from request_lines_complete [OF this] D show ?thesis by simp
      qed
      obtain shown bytes b where lines: "request_lines strerror (bs_requests s') 0 (bs_internal_error s') = (shown, bytes, b)"
        by (metis surj_pair)
      with internal have b: "b = False" by simp
      have each: "request_answered answers fd i (requests ! i) (bs_requests s' ! i) \<and>
          (br_result (bs_requests s' ! i) < 0 \<longrightarrow> bs_request_error s')" if "i < length requests" for i
        using D that all [OF that] by auto
      have "run_batch_read uc strerror fd requests ring =
          Some ((if bs_request_error s' then 1 else 0, shown @ ''total_bytes_read='' @ u64_text bytes @ lf, []),
            bs_requests s', bs_ring s')"
        using True c complete ok [OF complete] lines b by (simp add: run_batch_read_def p k)
      moreover have "never_fails uc v answers (length requests) \<longrightarrow> \<not> bs_request_error s'"
        using D by (auto simp: never_fails_def) (meson not_less)
      ultimately show ?thesis using each D by (auto simp: not_less [symmetric])
    qed
  qed
qed

text \<open>The four requests of the program over a file.\<close>

definition delivered :: "byte list \<Rightarrow> batch_request \<Rightarrow> bool" where
  "delivered file_bytes x \<longleftrightarrow>
     br_completed x \<and> 0 \<le> br_result x \<and>
     file_chunk file_bytes 4096 (unat (br_offset x)) (take (nat (br_result x)) (br_buffer x))"

definition program_requests :: "batch_request list" where
  "program_requests = initialize_requests (replicate kRequestCount blank_request)"

lemma upt_four: "[0..<4] = [0, 1, 2, 3 :: nat]" by (simp add: upt_rec)

lemma less_four: "i < (4 :: nat) \<Longrightarrow> i = 0 \<or> i = 1 \<or> i = 2 \<or> i = 3" by linarith

lemma program_requests_sel:
  "length program_requests = 4" "map br_offset program_requests = [0, 4096, 8192, 12288]"
  "map br_id program_requests = [1, 2, 3, 4]"
  "i < 4 \<Longrightarrow> length (br_buffer (program_requests ! i)) = 4096 \<and> \<not> br_completed (program_requests ! i)"
proof -
  have "replicate kRequestCount blank_request = [blank_request, blank_request, blank_request, blank_request]"
    by (simp add: kRequestCount_def numeral_eq_Suc)
  then have r: "program_requests = map (\<lambda>i. blank_request\<lparr>br_id := of_nat i + 1, br_offset := of_nat i * 4096\<rparr>) [0, 1, 2, 3]"
    by (simp add: program_requests_def initialize_requests_def kBlockSize_def upt_four)
  show "length program_requests = 4" "map br_offset program_requests = [0, 4096, 8192, 12288]"
    "map br_id program_requests = [1, 2, 3, 4]" by (simp_all add: r)
  show "i < 4 \<Longrightarrow> length (br_buffer (program_requests ! i)) = 4096 \<and> \<not> br_completed (program_requests ! i)"
    using less_four [of i] by (auto simp: r blank_request_def kBlockSize_def)
qed

lemma answered_delivered:
  assumes "request_answered (file_answers file_bytes) fd i x y" and "0 \<le> br_result y" and "length (br_buffer x) = 4096"
  shows "delivered file_bytes y"
proof -
  obtain stored where stored: "file_answers file_bytes (batch_entry fd i x) (br_result y) stored"
    "y = x\<lparr>br_buffer := store_prefix stored (br_buffer x), br_result := br_result y, br_completed := True\<rparr>"
    using assms(1) unfolding request_answered_def by blast
  have y: "br_completed y" "br_offset y = br_offset x" "br_buffer y = store_prefix stored (br_buffer x)"
    by (subst stored(2), simp)+
  have chunk: "br_result y = int (length stored)" "file_chunk file_bytes 4096 (unat (br_offset x)) stored"
    using stored(1) assms(2) by (auto simp: file_answers_def batch_entry_def kBlockSize_def)
  then have "length stored \<le> 4096" by (simp add: file_chunk_def)
  then show ?thesis using chunk assms(2,3) y by (simp add: delivered_def take_store_prefix)
qed

lemma answered_offset: "request_answered answers fd i x y \<Longrightarrow> br_offset y = br_offset x"
  unfolding request_answered_def by (elim exE conjE) (drule arg_cong [of _ _ br_offset], simp)

lemma requests_delivered:
  assumes answer: "\<And>s k stored. answers s k stored \<Longrightarrow> file_answers file_bytes s k stored" and n: "length requests = 4"
    and all: "\<forall>i < 4. request_answered answers fd i (program_requests ! i) (requests ! i) \<and> 0 \<le> br_result (requests ! i)"
  shows "map br_offset requests = [0, 4096, 8192, 12288] \<and> list_all (delivered file_bytes) requests"
proof
  have "map br_offset requests = map br_offset program_requests"
  proof (rule nth_equalityI)
    fix i assume "i < length (map br_offset requests)"
    then have i: "i < 4" by (simp add: n)
    with all have "br_offset (requests ! i) = br_offset (program_requests ! i)" by (blast intro: answered_offset)
    with i show "map br_offset requests ! i = map br_offset program_requests ! i" by (simp add: n program_requests_sel(1))
  qed (simp add: n program_requests_sel(1))
  then show "map br_offset requests = [0, 4096, 8192, 12288]" by (simp only: program_requests_sel(2))
  have "delivered file_bytes (requests ! i)" if i: "i < 4" for i
    using all i program_requests_sel(4) [OF i] by (intro answered_delivered [of file_bytes fd i "program_requests ! i"])
      (auto simp: request_answered_def dest: answer)
  then show "list_all (delivered file_bytes) requests" by (simp add: list_all_length n)
qed

section \<open>Property\<close>

lemma small_never_fails:
  "never_fails small_uring (small_view file_bytes True) (\<lambda>s k stored. file_answers file_bytes s k stored \<and> 0 \<le> k) 4"
  using small_reliable by (auto simp: never_fails_def reliable_uring_def) (auto simp: small_uring_def small_view_def)

lemma small_delivers:
  "completion_contract small_uring (small_view file_bytes calm) (\<lambda>s k stored. file_answers file_bytes s k stored \<and> 0 \<le> k)
     (\<lambda>r. length (sr_waits r))"
proof -
  have "0 \<le> cqe_res c" if "io_uring_wait_cqe small_uring r = Some (0, c, r')" for r c r'
    using that by (auto simp: small_wait small_answer_def Let_def split: list.splits)
  then show ?thesis using small_completion [of file_bytes calm] unfolding completion_contract_def by fastforce
qed

text \<open>
  C28: The batch read delivers every block to its own request, in whatever order the completions
  arrive. Over a ring that keeps liburing's promises and a kernel that answers for a file, the run
  always returns; with exit code 0 nothing was written to \<open>std::cerr\<close> and each of the four requests,
  at the offsets 0, 4096, 8192 and 12288, is completed once and holds in its own buffer a chunk of the
  file at its offset, as long as its result says. The exit code is 0 when no call and no read fails.
\<close>

theorem batch_read_exact:
  assumes "submission_contract uc v" and "completion_contract uc v answers m"
    and "rv_ok v ring" and "rv_prepared v ring = []" and "rv_pending v ring = []"
    and answer: "\<And>s k stored. answers s k stored \<Longrightarrow> file_answers file_bytes s k stored"
  shows "\<exists>code out err requests ring'.
    run_batch_read uc strerror fd (initialize_requests (replicate kRequestCount blank_request)) ring =
      Some ((code, out, err), requests, ring') \<and> (code = 0 \<or> code = 1) \<and>
    (code = 0 \<longrightarrow> err = [] \<and> map br_offset requests = [0, 4096, 8192, 12288] \<and> list_all (delivered file_bytes) requests) \<and>
    (never_fails uc v answers 4 \<longrightarrow> code = 0)"
proof -
  have "\<forall>x \<in> set program_requests. \<not> br_completed x"
    using program_requests_sel by (auto simp: in_set_conv_nth)
  from run_batch_read_outcome [OF assms(1-5) this, of strerror fd, unfolded program_requests_sel(1)]
  obtain code out err requests ring' where
    run: "run_batch_read uc strerror fd program_requests ring = Some ((code, out, err), requests, ring')"
      "code = 0 \<or> code = 1"
    and ok: "code = 0 \<Longrightarrow> err = [] \<and> length requests = 4 \<and>
      (\<forall>i < 4. request_answered answers fd i (program_requests ! i) (requests ! i) \<and> 0 \<le> br_result (requests ! i))"
    and good: "never_fails uc v answers 4 \<longrightarrow> code = 0" by blast
  have "err = [] \<and> map br_offset requests = [0, 4096, 8192, 12288] \<and> list_all (delivered file_bytes) requests"
    if z: "code = 0"
  proof -
    have "length requests = 4" "\<forall>i < 4. request_answered answers fd i (program_requests ! i) (requests ! i) \<and>
        0 \<le> br_result (requests ! i)" "err = []" using ok [OF z] by blast+
    with requests_delivered [of answers file_bytes requests fd, OF answer] show ?thesis by blast
  qed
  with run good show ?thesis unfolding program_requests_def by (intro exI conjI) blast+
qed

text \<open>Over the small ring of Uring, whose file has five bytes.\<close>

theorem batch_read_exact_witness:
  "\<exists>out requests ring'.
    run_batch_read small_uring (\<lambda>_. []) 3 (initialize_requests (replicate kRequestCount blank_request)) (small_ring0 [] []) =
      Some ((0, out, []), requests, ring') \<and> list_all (delivered [1, 2, 3, 4, 5]) requests"
proof -
  have "rv_ok (small_view [1, 2, 3, 4, 5] True) (small_ring0 [] [])"
    "rv_prepared (small_view [1, 2, 3, 4, 5] True) (small_ring0 [] []) = []"
    "rv_pending (small_view [1, 2, 3, 4, 5] True) (small_ring0 [] []) = []"
    by (simp_all add: small_view_def small_ring0_def)
  from batch_read_exact [OF small_submission small_delivers this, where file_bytes = "[1, 2, 3, 4, 5]"
      and strerror = "\<lambda>_. []" and fd = 3] obtain code out err requests ring' where
    run: "run_batch_read small_uring (\<lambda>_. []) 3 (initialize_requests (replicate kRequestCount blank_request))
      (small_ring0 [] []) = Some ((code, out, err), requests, ring')"
    and ok: "code = 0 \<longrightarrow> err = [] \<and> map br_offset requests = [0, 4096, 8192, 12288] \<and>
      list_all (delivered [1, 2, 3, 4, 5]) requests"
    and zero: "never_fails small_uring (small_view [1, 2, 3, 4, 5] True)
      (\<lambda>s k stored. file_answers [1, 2, 3, 4, 5] s k stored \<and> 0 \<le> k) 4 \<longrightarrow> code = 0" by auto
  from zero small_never_fails have "code = 0" by blast
  with run ok show ?thesis by auto
qed

end
