(* ===== verification/Read_Demos.thy ===== *)
theory Read_Demos
  imports Command_Line Uring Reporter
begin

text \<open>
  Two programs that read the first block of a file through a coroutine: \<open>backend_fallback_demo.cpp\<close>
  over the backend of the factory, and \<open>io_uring/async_read_demo.cpp\<close> over an io_uring context. A run
  gives the exit code and what reaches \<open>std::cout\<close> and \<open>std::cerr\<close>; \<open>None\<close> is a wait without end.
\<close>

section \<open>Options of the fallback demo\<close>

definition kFallbackReadSize :: size_t where "kFallbackReadSize = 4096"

definition kBackendPrefix :: string where "kBackendPrefix = ''--backend=''"

definition fallback_usage :: "string \<Rightarrow> string" where
  "fallback_usage program_name =
     ''usage: '' @ program_name @ '' <input> [--backend=auto|uring|thread_pool|sync]'' @
     '' [--disable-uring] [--disable-thread-pool]'' @ lf"

definition parse_backend_kind :: "string \<Rightarrow> backend_kind res" where
  "parse_backend_kind value =
     (if value = ''auto'' then Inr Auto
      else if value = ''uring'' then Inr Uring
      else if value = ''thread_pool'' then Inr ThreadPool
      else if value = ''sync'' then Inr Sync
      else Inl (Invalid_argument (''unknown backend: '' @ value)))"

fun backend_kind_name :: "backend_kind \<Rightarrow> string" where
  "backend_kind_name Auto = ''auto''"
| "backend_kind_name Uring = ''uring''"
| "backend_kind_name ThreadPool = ''thread_pool''"
| "backend_kind_name Sync = ''sync''"
| "backend_kind_name (Unknown_kind k) = ''unknown''"

text \<open>The loop; the state is \<open>backend_was_set\<close> and the configuration.\<close>

fun parse_fallback_arguments :: "string list \<Rightarrow> bool \<Rightarrow> backend_config \<Rightarrow> backend_config res" where
  "parse_fallback_arguments [] backend_was_set config = Inr config"
| "parse_fallback_arguments (argument # arguments) backend_was_set config =
     (if starts_with argument kBackendPrefix then
        if backend_was_set then Inl (Invalid_argument ''--backend may only be specified once'')
        else
          (case parse_backend_kind (behind kBackendPrefix argument) of
             Inl e \<Rightarrow> Inl e
           | Inr kind \<Rightarrow> parse_fallback_arguments arguments True (config\<lparr>bc_kind := kind\<rparr>))
      else if argument = ''--disable-uring'' then
        parse_fallback_arguments arguments backend_was_set (config\<lparr>bc_auto_try_uring := False\<rparr>)
      else if argument = ''--disable-thread-pool'' then
        parse_fallback_arguments arguments backend_was_set (config\<lparr>bc_auto_try_thread_pool := False\<rparr>)
      else Inl (Invalid_argument (''unknown option: '' @ argument)))"

definition parse_backend_config :: "string list \<Rightarrow> backend_config res" where
  "parse_backend_config argv =
     (case parse_fallback_arguments (drop 2 argv) False default_backend_config of
        Inl e \<Rightarrow> Inl e
      | Inr config \<Rightarrow>
          if bc_kind config \<noteq> Auto \<and> (\<not> bc_auto_try_uring config \<or> \<not> bc_auto_try_thread_pool config) then
            Inl (Invalid_argument ''--disable-* options are only valid with --backend=auto'')
          else Inr config)"

section \<open>One read, with at most one wait\<close>

definition read_with_one_wait ::
  "('r, 't) io_backend \<Rightarrow> int \<Rightarrow> size_t \<Rightarrow> u64 \<Rightarrow> 'r \<Rightarrow> (read_value res \<times> 'r) option" where
  "read_with_one_wait be input_fd n file_offset r =
     (case be_read_at be input_fd n file_offset r of (t, r1) \<Rightarrow>
        (case be_start be t r1 of
           None \<Rightarrow> None
         | Some (Inl e, t', r2) \<Rightarrow> Some (Inl e, be_destroy be t' r2)
         | Some (Inr _, t', r2) \<Rightarrow>
             (case (if be_done be t' r2 then Some (Inr (), r2) else be_wait_one be r2) of
                None \<Rightarrow> None
              | Some (Inl e, r3) \<Rightarrow> Some (Inl e, be_destroy be t' r3)
              | Some (Inr _, r3) \<Rightarrow>
                  (case be_result be t' r3 of (result, t'', r4) \<Rightarrow> Some (result, be_destroy be t'' r4)))))"

text \<open>The two lines that both programs print for a value.\<close>

definition payload_lines :: "read_value \<Rightarrow> string" where
  "payload_lines value =
     (case value of (n, stored) \<Rightarrow>
        key_value ''bytes_read'' (u64_text n) @ ''payload='' @ map (\<lambda>b. char_of (unat b)) (take (unat n) stored) @ lf)"

section \<open>backend_fallback_demo\<close>

definition read_through_factory ::
  "bool \<Rightarrow> (('r, 't) io_backend \<times> 'r, 'w) backend_constructors \<Rightarrow> backend_config \<Rightarrow> int \<Rightarrow> 'w \<Rightarrow>
     (string res \<times> 'w) option" where
  "read_through_factory has_liburing k config input_fd w =
     (case backend_create has_liburing k config w of
        (Inl e, w') \<Rightarrow> Some (Inl e, w')
      | (Inr (be, r), w') \<Rightarrow>
          (case read_with_one_wait be input_fd kFallbackReadSize 0 r of
             None \<Rightarrow> None
           | Some (Inl e, _) \<Rightarrow> Some (Inl e, w')
           | Some (Inr value, _) \<Rightarrow>
               Some (Inr (key_value ''requested_backend'' (backend_kind_name (bc_kind config)) @
                          key_value ''selected_backend'' (be_name be) @ payload_lines value), w')))"

definition fallback_main ::
  "bool \<Rightarrow> (('r, 't) io_backend \<times> 'r, 'w) backend_constructors \<Rightarrow> 'w posix_calls \<Rightarrow> (int \<Rightarrow> 'w \<Rightarrow> 'w) \<Rightarrow>
   (exn \<Rightarrow> string) \<Rightarrow> (int \<Rightarrow> string) \<Rightarrow> string list \<Rightarrow> 'w \<Rightarrow> ((int \<times> string \<times> string) \<times> 'w) option" where
  "fallback_main has_liburing k sys close_fd what message argv w =
     (if length argv < 2 then Some ((2, [], fallback_usage (hd argv)), w)
      else
        (case parse_backend_config argv of
           Inl e \<Rightarrow> Some ((2, [], ''invalid arguments: '' @ what e @ lf @ fallback_usage (hd argv)), w)
         | Inr config \<Rightarrow>
             (case open_read_only sys (argv ! 1) w of (input, w1) \<Rightarrow>
                if of_error_number input \<noteq> 0 then
                  Some ((1, [], ''open input failed: '' @ message (of_error_number input) @ lf), w1)
                else
                  (case read_through_factory has_liburing k config (of_fd input) w1 of
                     None \<Rightarrow> None
                   | Some (Inl e, w2) \<Rightarrow>
                       Some ((1, [], ''backend read failed: '' @ what e @ lf), close_fd (of_fd input) w2)
                   | Some (Inr out, w2) \<Rightarrow> Some ((0, out, []), close_fd (of_fd input) w2)))))"

section \<open>async_read_demo\<close>

definition kAsyncQueueDepth :: "32 word" where "kAsyncQueueDepth = 8"

text \<open>
  \<open>async_read\<close> awaits the context's awaiter exactly as \<open>UringBackend::read_at\<close> does, so its frame is the
  one of that coroutine. The ring is gone after the destructor.
\<close>

definition async_read :: "'r uring_calls \<Rightarrow> int \<Rightarrow> 'r uring_context \<Rightarrow> (read_value res \<times> 'r uring_context) option" where
  "async_read uc input_fd = read_with_one_wait (uring_backend uc) input_fd kFallbackReadSize 0"

definition async_read_main ::
  "'r uring_calls \<Rightarrow> 'w posix_calls \<Rightarrow> (int \<Rightarrow> 'w \<Rightarrow> 'w) \<Rightarrow> (exn \<Rightarrow> string) \<Rightarrow> (int \<Rightarrow> string) \<Rightarrow> string list \<Rightarrow>
   'r \<Rightarrow> 'w \<Rightarrow> ((int \<times> string \<times> string) \<times> 'w) option" where
  "async_read_main uc sys close_fd what message argv ring w =
     (case argv of
        [program, path] \<Rightarrow>
          (case open_read_only sys path w of (input, w1) \<Rightarrow>
             if of_error_number input \<noteq> 0 then
               Some ((1, [], ''open input failed: '' @ message (of_error_number input) @ lf), w1)
             else
               (let w2 = close_fd (of_fd input) w1 in
                case uring_context_new uc kAsyncQueueDepth ring of
                  Inl e \<Rightarrow> Some ((1, [], ''async read failed: '' @ what e @ lf), w2)
                | Inr cx \<Rightarrow>
                    (case async_read uc (of_fd input) cx of
                       None \<Rightarrow> None
                     | Some (Inl e, _) \<Rightarrow> Some ((1, [], ''async read failed: '' @ what e @ lf), w2)
                     | Some (Inr value, _) \<Rightarrow> Some ((0, payload_lines value, []), w2))))
      | _ \<Rightarrow> Some ((1, [], ''usage: '' @ hd argv @ '' <input>'' @ lf), w))"

section \<open>One wait is enough\<close>

text \<open>
  The programs wait at most once. For a backend whose completion of the only read leaves it done, this
  is the complete read of the executor.
\<close>

lemma read_with_one_wait_complete:
  assumes "\<And>t r1 t' r2 r3. be_read_at be fd n off r = (t, r1) \<Longrightarrow> be_start be t r1 = Some (Inr (), t', r2) \<Longrightarrow>
    \<not> be_done be t' r2 \<Longrightarrow> be_wait_one be r2 = Some (Inr (), r3) \<Longrightarrow> be_done be t' r3"
  shows "read_with_one_wait be fd n off r = complete_read be fd n off r"
proof -
  obtain t r1 where read: "be_read_at be fd n off r = (t, r1)" by (metis surj_pair)
  show ?thesis
  proof (cases "be_start be t r1")
    case None
    then show ?thesis by (simp add: read_with_one_wait_def complete_read_def read)
  next
    case (Some x)
    obtain res t' r2 where x: "x = (res, t', r2)" by (metis prod_cases3)
    show ?thesis
    proof (cases res)
      case (Inl e)
      then show ?thesis by (simp add: read_with_one_wait_def complete_read_def read Some x)
    next
      case (Inr u)
      then have start: "be_start be t r1 = Some (Inr (), t', r2)" using Some x by simp
      have "wait_until_done be t' r2 = (if be_done be t' r2 then Some (Inr (), r2) else be_wait_one be r2)"
      proof (cases "be_done be t' r2")
        case True
        then show ?thesis by (simp add: wait_until_done.simps [of be t' r2])
      next
        case False
        show ?thesis
        proof (cases "be_wait_one be r2")
          case None
          with False show ?thesis by (simp add: wait_until_done.simps [of be t' r2])
        next
          case (Some y)
          obtain wr r3 where y: "y = (wr, r3)" by (cases y)
          show ?thesis
          proof (cases wr)
            case (Inl e)
            with False Some y show ?thesis by (simp add: wait_until_done.simps [of be t' r2])
          next
            case (Inr v)
            with assms [OF read start False] Some y have "be_done be t' r3" by simp
            with False Some y Inr show ?thesis
              by (simp add: wait_until_done.simps [of be t' r2] wait_until_done.simps [of be t' r3])
          qed
        qed
      qed
      then show ?thesis by (simp add: read_with_one_wait_def complete_read_def read start)
    qed
  qed
qed

text \<open>An io_uring context with nothing else in flight: the completion is the one of the read.\<close>

lemma async_read_complete:
  assumes idle: "uring_idle v answers cx" and rel: "reliable_uring uc v answers m"
  shows "async_read uc fd cx = complete_read (uring_backend uc) fd kFallbackReadSize 0 cx"
  unfolding async_read_def
proof (rule read_with_one_wait_complete)
  let ?be = "uring_backend uc" and ?self = "ux_next_frame cx"
  let ?p = "\<lparr>rp_null = False, rp_fd = fd, rp_size = kFallbackReadSize, rp_offset = 0\<rparr>"
  let ?cx1 = "snd (uring_read_at ?p cx)"
  have sq: "submission_contract uc v" and cq: "completion_contract uc v answers m" and all: "submits_all uc v"
    using rel by (simp_all add: reliable_uring_def)
  fix t r1 t' r2 r3
  assume read: "be_read_at ?be fd kFallbackReadSize 0 cx = (t, r1)"
    and begun: "be_start ?be t r1 = Some (Inr (), t', r2)" and open_: "\<not> be_done ?be t' r2"
    and wait: "be_wait_one ?be r2 = Some (Inr (), r3)"
  have r1: "t = ?self" "r1 = ?cx1" using read by (auto simp: uring_backend_def uring_read_at_def Let_def)
  have start: "uring_start uc ?self ?cx1 = Some (Inr (), r2)" and t': "t' = ?self"
    using begun by (auto simp: uring_backend_def r1 split: option.splits)
  have ok1: "uring_ok v answers ?cx1" using idle by (intro uring_read_at_ok) (simp add: uring_idle_def)
  have none1: "in_flight v ?cx1 = []" using idle by (simp add: uring_idle_def in_flight_def uring_read_at_def Let_def)
  have ok2: "uring_ok v answers r2" by (rule uring_start_ok [OF start ok1 sq disjI1 [OF all]])
  from start ok1 sq disjI1 [OF all] show "be_done ?be t' r3"
  proof (cases rule: uring_start_cases)
    case (refused task e)
    then show ?thesis by simp
  next
    case (finished out ring)
    then have "be_done ?be t' r2"
      by (simp add: t' uring_backend_def uring_frame_done_def task_done_def uring_finished_def)
    with open_ show ?thesis by simp
  next
    case (accepted aw ring)
    have flight: "in_flight v r2 = [?self]"
      using none1 accepted(7) by (simp add: accepted(4) in_flight_def submission_of_def)
    have one: "uring_wait_one uc r2 = Some (Inr (), r3)" using wait by (simp add: uring_backend_def)
    from ok2 cq show ?thesis
    proof (cases rule: uring_wait_one_cases)
      case blocked
      with one show ?thesis by simp
    next
      case (failed k c ring')
      with one show ?thesis by simp
    next
      case (completed self ring' res stored)
      then have "self = ?self" using flight by simp
      with completed(3) one have "ux_tasks r3 ?self = Some (uring_finished (uring_outcome res stored))" by auto
      then show ?thesis by (simp add: t' uring_backend_def uring_frame_done_def task_done_def uring_finished_def)
    qed
  qed
qed

text \<open>So the demo prints a prefix of the file, or reports the error of the read.\<close>

lemma async_read_delivers:
  assumes "uring_idle v (file_answers file_bytes) cx" and "reliable_uring uc v (file_answers file_bytes) m"
    and "waits_succeed uc v" and "0 \<le> fd"
  shows "\<exists>out cx'. async_read uc fd cx = Some (out, cx') \<and>
    (case out of Inl e \<Rightarrow> True | Inr (n, bytes) \<Rightarrow> unat n = length bytes \<and> file_chunk file_bytes 4096 0 bytes)"
proof -
  have n: "kFallbackReadSize \<le> 4294967295" by (simp add: kFallbackReadSize_def)
  obtain out cx' where
    c: "complete_read (uring_backend uc) fd kFallbackReadSize 0 cx = Some (out, cx')"
    and "uring_idle v (file_answers file_bytes) cx'" and out: "out = uring_outcome (- EAGAIN) [] \<or> (\<exists>r stored self. file_answers file_bytes
      (submission_of \<lparr>rp_null = False, rp_fd = fd, rp_size = kFallbackReadSize, rp_offset = 0\<rparr> self) r stored \<and>
      out = uring_outcome r stored)"
    by (rule uring_read_once [OF assms n, of 0])
  from out have "case out of Inl e \<Rightarrow> True | Inr (n, bytes) \<Rightarrow> unat n = length bytes \<and> file_chunk file_bytes 4096 0 bytes"
  proof (elim disjE exE conjE)
    fix r stored self
    assume answer: "file_answers file_bytes
        (submission_of \<lparr>rp_null = False, rp_fd = fd, rp_size = kFallbackReadSize, rp_offset = 0\<rparr> self) r stored"
      and o: "out = uring_outcome r stored"
    show ?thesis
    proof (cases "r < 0")
      case False
      with answer have r: "r = int (length stored)" "length stored < 2 ^ 31" "file_chunk file_bytes 4096 0 stored"
        by (simp_all add: file_answers_def submission_of_def kFallbackReadSize_def)
      from r(2) have "unat (of_nat (length stored) :: size_t) = length stored" by (simp add: unat_of_nat)
      with r(3) show ?thesis by (simp add: o uring_outcome_def r(1))
    qed (simp add: o uring_outcome_def)
  qed (simp add: uring_outcome_def)
  then show ?thesis unfolding async_read_complete [OF assms(1,2)] using c by blast
qed

section \<open>Options\<close>

lemma parse_backend_kind_name: "kind \<in> {Auto, Uring, ThreadPool, Sync} \<Longrightarrow> parse_backend_kind (backend_kind_name kind) = Inr kind"
  by (auto simp: parse_backend_kind_def)

text \<open>An explicit kind comes with both flags set, so the factory creates that kind or fails.\<close>

lemma parse_backend_config_explicit:
  "parse_backend_config argv = Inr config \<Longrightarrow> bc_kind config \<noteq> Auto \<Longrightarrow>
     bc_auto_try_uring config \<and> bc_auto_try_thread_pool config"
  by (auto simp: parse_backend_config_def split: sum.splits if_splits)

end
