(* ===== verification/Scan_Benchmarks.thy ===== *)
theory Scan_Benchmarks
  imports Benchmark_Report Command_Line Serial_Reference
begin

text \<open>
  The three baselines of the third stage: \<open>benchmark/stage3_bench_pread.cpp\<close>,
  \<open>stage3_bench_sync.cpp\<close> and \<open>stage3_bench_mmap.cpp\<close>. The end of \<open>main\<close> is an exception that leaves it
  or the exit code with what reaches \<open>std::cout\<close> and \<open>std::cerr\<close>. Allocation of the vectors succeeds;
  the measured milliseconds are a function of the iteration.
\<close>

type_synonym bench_end = "exn + (int \<times> string \<times> string)"

definition bench_failure :: "string \<Rightarrow> bench_end" where
  "bench_failure message = Inr (1, [], message @ lf)"

definition bench_success :: "'d statistic_ops \<Rightarrow> string \<Rightarrow> u64 \<Rightarrow> u64 \<Rightarrow> 'd list \<Rightarrow> bench_end" where
  "bench_success ops name bytes_in bytes_out samples =
     (case make_benchmark_report ops name bytes_in bytes_out samples of
        Inl e \<Rightarrow> Inl e
      | Inr report \<Rightarrow> Inr (0, write_benchmark_csv_header @ write_benchmark_csv_row ops report, []))"

text \<open>The last, optional argument.\<close>

definition parse_iterations :: "string option \<Rightarrow> string + size_t" where
  "parse_iterations argument =
     (case argument of
        None \<Rightarrow> Inr 1
      | Some t \<Rightarrow>
          (case parse_positive_size t kMaxBenchmarkIterations 1 of
             (True, n) \<Rightarrow> Inr n
           | (False, _) \<Rightarrow> Inl (''invalid iterations: '' @ t)))"

definition parse_block_size :: "string \<Rightarrow> string + size_t" where
  "parse_block_size t =
     (case parse_positive_size t kMaxBenchmarkBlockSize 0 of
        (True, n) \<Rightarrow> Inr n
      | (False, _) \<Rightarrow> Inl (''invalid block_size: '' @ t))"

section \<open>stage3_bench_pread\<close>

definition add_bytes :: "u64 \<Rightarrow> byte list \<Rightarrow> u64" where
  "add_bytes checksum block = foldl (\<lambda>c b. c + ucast b) checksum block"

text \<open>The inner loop: an error number, or the bytes read and the checksum.\<close>

partial_function (option) scan_loop ::
  "'w posix_calls \<Rightarrow> int \<Rightarrow> size_t \<Rightarrow> u64 \<Rightarrow> u64 \<Rightarrow> u64 \<Rightarrow> 'w \<Rightarrow> ((int + u64 \<times> u64) \<times> 'w) option" where
  "scan_loop sys fd n offset total_read checksum w =
     (case read_at sys fd (unat n) offset w of
        None \<Rightarrow> None
      | Some ((result, stored), w') \<Rightarrow>
          if ra_error_number result \<noteq> 0 then Some (Inl (ra_error_number result), w')
          else if bytes_read result = 0 then Some (Inr (total_read, checksum), w')
          else
            scan_loop sys fd n (offset + of_nat (bytes_read result)) (total_read + of_nat (bytes_read result))
              (add_bytes checksum (take (bytes_read result) stored)) w')"

declare scan_loop.simps [code]

text \<open>The bytes of an iteration, the checksum of all of them and the samples.\<close>

fun scan_iterations ::
  "'w posix_calls \<Rightarrow> (int \<Rightarrow> string) \<Rightarrow> (nat \<Rightarrow> 'd) \<Rightarrow> int \<Rightarrow> size_t \<Rightarrow> nat \<Rightarrow> nat \<Rightarrow> u64 \<Rightarrow> u64 \<Rightarrow> 'd list \<Rightarrow>
   'w \<Rightarrow> ((string + u64 \<times> u64 \<times> 'd list) \<times> 'w) option" where
  "scan_iterations sys strerror elapsed fd n 0 iteration expected checksum samples w =
     Some (Inr (expected, checksum, samples), w)"
| "scan_iterations sys strerror elapsed fd n (Suc remaining) iteration expected checksum samples w =
     (case scan_loop sys fd n 0 0 checksum w of
        None \<Rightarrow> None
      | Some (Inl error_number, w') \<Rightarrow> Some (Inl (''pread failed: '' @ strerror error_number), w')
      | Some (Inr (total_read, checksum'), w') \<Rightarrow>
          if iteration \<noteq> 0 \<and> total_read \<noteq> expected then
            Some (Inl ''pread byte count changed between iterations'', w')
          else
            scan_iterations sys strerror elapsed fd n remaining (Suc iteration) total_read checksum'
              (samples @ [elapsed iteration]) w')"

definition run_pread_benchmark ::
  "'w posix_calls \<Rightarrow> (int \<Rightarrow> 'w \<Rightarrow> 'w) \<Rightarrow> (int \<Rightarrow> string) \<Rightarrow> 'd statistic_ops \<Rightarrow> (nat \<Rightarrow> 'd) \<Rightarrow> string \<Rightarrow> size_t \<Rightarrow>
   size_t \<Rightarrow> 'w \<Rightarrow> (bench_end \<times> 'w) option" where
  "run_pread_benchmark sys close_fd strerror ops elapsed input_path n iterations w =
     (case open_read_only sys input_path w of (input, w1) \<Rightarrow>
        if of_error_number input \<noteq> 0 then
          Some (bench_failure (''open failed: '' @ strerror (of_error_number input)), w1)
        else
          (case scan_iterations sys strerror elapsed (of_fd input) n (unat iterations) 0 0 0 [] w1 of
             None \<Rightarrow> None
           | Some (Inl message, w2) \<Rightarrow> Some (bench_failure message, close_fd (of_fd input) w2)
           | Some (Inr (bytes, checksum, samples), w2) \<Rightarrow>
               Some (bench_success ops ''pread_scan'' bytes 0 samples, close_fd (of_fd input) w2)))"

definition pread_benchmark_main ::
  "'w posix_calls \<Rightarrow> (int \<Rightarrow> 'w \<Rightarrow> 'w) \<Rightarrow> (int \<Rightarrow> string) \<Rightarrow> 'd statistic_ops \<Rightarrow> (nat \<Rightarrow> 'd) \<Rightarrow> string list \<Rightarrow> 'w \<Rightarrow>
     (bench_end \<times> 'w) option" where
  "pread_benchmark_main sys close_fd strerror ops elapsed argv w =
     (if length argv \<noteq> 3 \<and> length argv \<noteq> 4 then
        Some (bench_failure ''usage: stage3_bench_pread <input> <block_size> [iterations]'', w)
      else
        (case parse_block_size (argv ! 2) of
           Inl message \<Rightarrow> Some (bench_failure message, w)
         | Inr n \<Rightarrow>
             (case parse_iterations (if length argv = 4 then Some (argv ! 3) else None) of
                Inl message \<Rightarrow> Some (bench_failure message, w)
              | Inr iterations \<Rightarrow>
                  run_pread_benchmark sys close_fd strerror ops elapsed (argv ! 1) n iterations w)))"

section \<open>stage3_bench_sync\<close>

fun sync_iterations ::
  "('w \<Rightarrow> (sync_preprocess_result \<times> 'w) option) \<Rightarrow> (int \<Rightarrow> string) \<Rightarrow> (nat \<Rightarrow> 'd) \<Rightarrow> nat \<Rightarrow> nat \<Rightarrow> u64 \<Rightarrow> u64 \<Rightarrow>
   'd list \<Rightarrow> 'w \<Rightarrow> ((string + u64 \<times> u64 \<times> 'd list) \<times> 'w) option" where
  "sync_iterations run strerror elapsed 0 iteration bytes_in bytes_out samples w =
     Some (Inr (bytes_in, bytes_out, samples), w)"
| "sync_iterations run strerror elapsed (Suc remaining) iteration bytes_in bytes_out samples w =
     (case run w of
        None \<Rightarrow> None
      | Some (result, w') \<Rightarrow>
          if spp_error_number result \<noteq> 0 then
            Some (Inl (''run_sync_preprocess_baseline failed: '' @ strerror (spp_error_number result)), w')
          else if iteration \<noteq> 0 \<and> (spp_bytes_read result \<noteq> bytes_in \<or> spp_bytes_written result \<noteq> bytes_out) then
            Some (Inl ''sync benchmark byte counts changed between iterations'', w')
          else
            sync_iterations run strerror elapsed remaining (Suc iteration) (spp_bytes_read result)
              (spp_bytes_written result) (samples @ [elapsed iteration]) w')"

definition sync_benchmark_main ::
  "'w posix_calls \<Rightarrow> (string \<Rightarrow> 'w \<Rightarrow> syscall_result \<times> 'w) \<Rightarrow> (int \<Rightarrow> 'w \<Rightarrow> 'w) \<Rightarrow> (int \<Rightarrow> string) \<Rightarrow>
   'd statistic_ops \<Rightarrow> (nat \<Rightarrow> 'd) \<Rightarrow> string list \<Rightarrow> 'w \<Rightarrow> (bench_end \<times> 'w) option" where
  "sync_benchmark_main sys open_truncated close_fd strerror ops elapsed argv w =
     (if length argv \<noteq> 4 \<and> length argv \<noteq> 5 then
        Some (bench_failure ''usage: stage3_bench_sync <input> <output> <block_size> [iterations]'', w)
      else
        (case parse_block_size (argv ! 3) of
           Inl message \<Rightarrow> Some (bench_failure message, w)
         | Inr n \<Rightarrow>
             (case parse_iterations (if length argv = 5 then Some (argv ! 4) else None) of
                Inl message \<Rightarrow> Some (bench_failure message, w)
              | Inr iterations \<Rightarrow>
                  (case sync_iterations
                          (run_sync_preprocess_baseline sys open_truncated close_fd
                             \<lparr>spc_input_path = Some (argv ! 1), spc_output_path = Some (argv ! 2), spc_block_size = n\<rparr>)
                          strerror elapsed (unat iterations) 0 0 0 [] w of
                     None \<Rightarrow> None
                   | Some (Inl message, w') \<Rightarrow> Some (bench_failure message, w')
                   | Some (Inr (bytes_in, bytes_out, samples), w') \<Rightarrow>
                       Some (bench_success ops ''sync_baseline'' bytes_in bytes_out samples, w')))))"

section \<open>stage3_bench_mmap\<close>

text \<open>The system calls; a mapping is the bytes that the program sees through it.\<close>

record 'w mmap_calls =
  mc_open :: "string \<Rightarrow> 'w \<Rightarrow> syscall_result \<times> 'w"
  mc_fstat_size :: "int \<Rightarrow> 'w \<Rightarrow> (int + int) \<times> 'w"
  mc_mmap :: "size_t \<Rightarrow> int \<Rightarrow> 'w \<Rightarrow> (int + byte list) \<times> 'w"
  mc_munmap :: "size_t \<Rightarrow> 'w \<Rightarrow> syscall_result \<times> 'w"
  mc_close :: "int \<Rightarrow> 'w \<Rightarrow> syscall_result \<times> 'w"

text \<open>The loop: the checksum and the samples; the descriptor is closed on a failure.\<close>

fun mmap_iterations ::
  "'w mmap_calls \<Rightarrow> (int \<Rightarrow> string) \<Rightarrow> (nat \<Rightarrow> 'd) \<Rightarrow> int \<Rightarrow> size_t \<Rightarrow> nat \<Rightarrow> nat \<Rightarrow> u64 \<Rightarrow> 'd list \<Rightarrow> 'w \<Rightarrow>
     (string + u64 \<times> 'd list) \<times> 'w" where
  "mmap_iterations mc strerror elapsed fd mapping_size 0 iteration checksum samples w = (Inr (checksum, samples), w)"
| "mmap_iterations mc strerror elapsed fd mapping_size (Suc remaining) iteration checksum samples w =
     (case mc_mmap mc mapping_size fd w of
        (Inl error_number, w1) \<Rightarrow> (Inl (''mmap failed: '' @ strerror error_number), snd (mc_close mc fd w1))
      | (Inr mapped, w1) \<Rightarrow>
          (case mc_munmap mc mapping_size w1 of
             (Sys_failed error_number, w2) \<Rightarrow>
               (Inl (''munmap failed: '' @ strerror error_number), snd (mc_close mc fd w2))
           | (Sys_ok _, w2) \<Rightarrow>
               mmap_iterations mc strerror elapsed fd mapping_size remaining (Suc iteration)
                 (add_bytes checksum (take (unat mapping_size) mapped)) (samples @ [elapsed iteration]) w2))"

definition run_mmap_benchmark ::
  "'w mmap_calls \<Rightarrow> (int \<Rightarrow> string) \<Rightarrow> 'd statistic_ops \<Rightarrow> (nat \<Rightarrow> 'd) \<Rightarrow> string \<Rightarrow> size_t \<Rightarrow> 'w \<Rightarrow> bench_end \<times> 'w" where
  "run_mmap_benchmark mc strerror ops elapsed input_path iterations w =
     (case mc_open mc input_path w of
        (Sys_failed error_number, w1) \<Rightarrow> (bench_failure (''open failed: '' @ strerror error_number), w1)
      | (Sys_ok k, w1) \<Rightarrow>
     (let fd = int k in
      case mc_fstat_size mc fd w1 of
        (Inl error_number, w2) \<Rightarrow>
          (bench_failure (''fstat failed: '' @ strerror error_number), snd (mc_close mc fd w2))
      | (Inr st_size, w2) \<Rightarrow>
          if st_size < 0 then
            (bench_failure ''fstat returned a negative file size'', snd (mc_close mc fd w2))
          else
            (let file_size = of_int st_size :: u64 in
             if (- 1 :: size_t) < file_size then
               (bench_failure ''input is too large for this address space'', snd (mc_close mc fd w2))
             else
               (case (if file_size = 0 then (Inr (0, replicate (unat iterations) (d_literal ops 0)), w2)
                      else mmap_iterations mc strerror elapsed fd file_size (unat iterations) 0 0 [] w2) of
                  (Inl message, w3) \<Rightarrow> (bench_failure message, w3)
                | (Inr (checksum, samples), w3) \<Rightarrow>
                    (case mc_close mc fd w3 of
                       (Sys_failed error_number, w4) \<Rightarrow>
                         (bench_failure (''close failed: '' @ strerror error_number), w4)
                     | (Sys_ok _, w4) \<Rightarrow> (bench_success ops ''mmap_scan'' file_size 0 samples, w4))))))"

definition mmap_benchmark_main ::
  "'w mmap_calls \<Rightarrow> (int \<Rightarrow> string) \<Rightarrow> 'd statistic_ops \<Rightarrow> (nat \<Rightarrow> 'd) \<Rightarrow> string list \<Rightarrow> 'w \<Rightarrow> bench_end \<times> 'w" where
  "mmap_benchmark_main mc strerror ops elapsed argv w =
     (if length argv \<noteq> 2 \<and> length argv \<noteq> 3 then
        (bench_failure ''usage: stage3_bench_mmap <input> [iterations]'', w)
      else
        (case parse_iterations (if length argv = 3 then Some (argv ! 2) else None) of
           Inl message \<Rightarrow> (bench_failure message, w)
         | Inr iterations \<Rightarrow> run_mmap_benchmark mc strerror ops elapsed (argv ! 1) iterations w))"

section \<open>What the scans compute\<close>

definition byte_sum :: "byte list \<Rightarrow> nat" where
  "byte_sum bytes = sum_list (map unat bytes)"

lemma add_bytes_sum: "add_bytes checksum block = checksum + of_nat (byte_sum block)"
proof (induction block rule: rev_induct)
  case (snoc b block)
  have "ucast b = (of_nat (unat b) :: u64)" by simp
  with snoc show ?case by (simp add: add_bytes_def byte_sum_def)
qed (simp add: add_bytes_def byte_sum_def)

lemma byte_sum_append: "byte_sum (xs @ ys) = byte_sum xs + byte_sum ys"
  by (simp add: byte_sum_def)

lemma single_input:
  assumes "pread_contract (system_file_io_operations sys) fd C" and "interrupts_bounded (system_file_io_operations sys) m"
  shows "two_inputs sys fd fd C C"
  using assms unfolding two_inputs_def pread_contract_def by blast

lemma scan_loop_exact:
  assumes "pread_contract (system_file_io_operations sys) fd C" and "interrupts_bounded (system_file_io_operations sys) m"
    and n: "n \<noteq> 0"
  shows "unat offset \<le> length (C w) \<Longrightarrow> length (C w) < 2 ^ 64 \<Longrightarrow>
    \<exists>r w'. scan_loop sys fd n offset offset checksum w = Some (r, w') \<and> C w' = C w \<and>
      (case r of
         Inl e \<Rightarrow> e \<noteq> 0
       | Inr (bytes, checksum') \<Rightarrow> unat bytes = length (C w) \<and>
           checksum' = checksum + of_nat (byte_sum (drop (unat offset) (C w))))"
proof (induction "length (C w) - unat offset" arbitrary: offset checksum w rule: less_induct)
  case less
  note unfold = scan_loop.simps [of sys fd n offset offset checksum w]
  obtain result stored w1 where r: "read_at sys fd (unat n) offset w = Some ((result, stored), w1)" "C w1 = C w"
    and ok: "ra_error_number result \<noteq> 0 \<or>
      ra_error_number result = 0 \<and> bytes_read result = length stored \<and> file_chunk (C w) (unat n) (unat offset) stored"
    by (rule two_inputs_read [OF single_input [OF assms(1,2)], of fd C]) simp_all
  show ?case
  proof (cases "ra_error_number result = 0")
    case False
    then show ?thesis using r by (simp add: unfold)
  next
    case True
    with ok have len: "bytes_read result = length stored" and chunk: "file_chunk (C w) (unat n) (unat offset) stored" by auto
    show ?thesis
    proof (cases "stored = []")
      case nil: True
      with chunk n have "length (C w) \<le> unat offset" by (auto simp: file_chunk_def unat_eq_zero)
      with less.prems r True len nil show ?thesis by (simp add: unfold byte_sum_def)
    next
      case False
      have le: "unat offset + length stored \<le> length (C w)" by (rule chunk_within [OF chunk False])
      have cut: "stored = take (length stored) (drop (unat offset) (C w))" using chunk by (simp add: file_chunk_def)
      have "unat (of_nat (length stored) :: u64) = length stored" using le less.prems(2) by (simp add: unat_of_nat)
      then have off: "unat (offset + of_nat (length stored)) = unat offset + length stored"
        using le less.prems(2) by (simp add: unat_add_fits)
      let ?o = "offset + of_nat (length stored)" and ?c = "checksum + of_nat (byte_sum stored)"
      have step: "scan_loop sys fd n offset offset checksum w = scan_loop sys fd n ?o ?o ?c w1"
        using r True len False by (simp add: unfold add_bytes_sum)
      have IH: "\<exists>r w'. scan_loop sys fd n ?o ?o ?c w1 = Some (r, w') \<and> C w' = C w1 \<and>
          (case r of Inl e \<Rightarrow> e \<noteq> 0 | Inr (bytes, checksum') \<Rightarrow> unat bytes = length (C w1) \<and>
             checksum' = ?c + of_nat (byte_sum (drop (unat ?o) (C w1))))"
      proof (intro less.hyps)
        have "0 < length stored" using False by simp
        with le show "length (C w1) - unat ?o < length (C w) - unat offset" unfolding r(2) off by linarith
      qed (use le less.prems in \<open>simp_all add: r(2) off\<close>)
      have "byte_sum stored + byte_sum (drop (unat ?o) (C w)) = byte_sum (drop (unat offset) (C w))"
      proof -
        have "drop (unat offset) (C w) = stored @ drop (unat ?o) (C w)"
          using cut append_take_drop_id [of "length stored" "drop (unat offset) (C w)"] by (simp add: off add.commute)
        then show ?thesis by (metis byte_sum_append)
      qed
      then have eq: "?c + of_nat (byte_sum (drop (unat ?o) (C w))) = checksum + of_nat (byte_sum (drop (unat offset) (C w)))"
        by (metis (no_types) add.assoc of_nat_add)
      show ?thesis unfolding step using IH unfolding r(2) eq .
    qed
  qed
qed

lemma scan_iterations_exact:
  assumes "pread_contract (system_file_io_operations sys) fd C" and "interrupts_bounded (system_file_io_operations sys) m"
    and n: "n \<noteq> 0"
  shows "length (C w) < 2 ^ 64 \<Longrightarrow> (iteration \<noteq> 0 \<longrightarrow> unat expected = length (C w)) \<Longrightarrow>
    \<exists>r w'. scan_iterations sys strerror elapsed fd n remaining iteration expected checksum samples w = Some (r, w') \<and>
      (case r of
         Inl message \<Rightarrow> \<exists>e. e \<noteq> 0 \<and> message = ''pread failed: '' @ strerror e
       | Inr (bytes, checksum', samples') \<Rightarrow>
           (remaining \<noteq> 0 \<longrightarrow> unat bytes = length (C w)) \<and>
           checksum' = checksum + of_nat (remaining * byte_sum (C w)) \<and>
           samples' = samples @ map elapsed [iteration..<iteration + remaining])"
proof (induction remaining arbitrary: iteration expected checksum samples w)
  case (Suc remaining)
  obtain r w1 where loop: "scan_loop sys fd n 0 0 checksum w = Some (r, w1)" "C w1 = C w"
    and r: "case r of Inl e \<Rightarrow> e \<noteq> 0 | Inr (bytes, checksum') \<Rightarrow>
      unat bytes = length (C w) \<and> checksum' = checksum + of_nat (byte_sum (C w))"
    using scan_loop_exact [OF assms, where offset = 0, unfolded unat_0 drop_0] Suc.prems(1) by blast
  show ?case
  proof (cases r)
    case (Inl e)
    with loop r show ?thesis by auto
  next
    case (Inr x)
    then obtain bytes where x: "r = Inr (bytes, checksum + of_nat (byte_sum (C w)))" "unat bytes = length (C w)"
      using r by (cases x) auto
    have "\<not> (iteration \<noteq> 0 \<and> bytes \<noteq> expected)" using x(2) Suc.prems(2) by (metis word_eq_iff_unsigned)
    then have step: "scan_iterations sys strerror elapsed fd n (Suc remaining) iteration expected checksum samples w =
        scan_iterations sys strerror elapsed fd n remaining (Suc iteration) bytes (checksum + of_nat (byte_sum (C w)))
          (samples @ [elapsed iteration]) w1"
      using loop x(1) by auto
    have "[iteration..<iteration + Suc remaining] = iteration # [Suc iteration..<Suc iteration + remaining]"
      by (subst upt_conv_Cons) simp_all
    with Suc.IH [of w1 "Suc iteration" bytes "checksum + of_nat (byte_sum (C w))" "samples @ [elapsed iteration]"]
    show ?thesis
      unfolding step using Suc.prems(1) x(2) loop(2)
      by (cases remaining) (auto simp: algebra_simps split: sum.splits)
  qed
qed simp

section \<open>Property\<close>

text \<open>
  C29: The pread benchmark reads the whole file in every iteration. On a file that opens and whose reads
  are interrupted finitely often, the loops end; unless a read fails, every iteration reads exactly
  the bytes of the file whatever the lengths of the single reads are, the checksum is the sum of all
  bytes of all iterations modulo \<open>2 ^ 64\<close>, there is one sample per iteration, and the program reports
  these samples with the size of the file.
\<close>

theorem pread_scan_exact:
  assumes "open_read_only sys path w = (input, w1)" and "of_error_number input = 0"
    and "pread_contract (system_file_io_operations sys) (of_fd input) C"
    and "interrupts_bounded (system_file_io_operations sys) m"
    and "n \<noteq> 0" and "iterations \<noteq> 0" and "length (C w1) < 2 ^ 64"
  shows "\<exists>r w2. scan_iterations sys strerror elapsed (of_fd input) n (unat iterations) 0 0 0 [] w1 = Some (r, w2) \<and>
    (case r of
       Inl message \<Rightarrow> (\<exists>e. e \<noteq> 0 \<and> message = ''pread failed: '' @ strerror e) \<and>
         run_pread_benchmark sys close_fd strerror ops elapsed path n iterations w =
           Some (bench_failure message, close_fd (of_fd input) w2)
     | Inr (bytes, checksum, samples) \<Rightarrow>
         unat bytes = length (C w1) \<and> checksum = of_nat (unat iterations * byte_sum (C w1)) \<and>
         samples = map elapsed [0..<unat iterations] \<and>
         run_pread_benchmark sys close_fd strerror ops elapsed path n iterations w =
           Some (bench_success ops ''pread_scan'' bytes 0 samples, close_fd (of_fd input) w2))"
proof -
  have k: "unat iterations \<noteq> 0" using assms(6) by (simp add: unat_eq_zero)
  obtain r w2 where s: "scan_iterations sys strerror elapsed (of_fd input) n (unat iterations) 0 0 0 [] w1 = Some (r, w2)"
    and r: "case r of Inl message \<Rightarrow> \<exists>e. e \<noteq> 0 \<and> message = ''pread failed: '' @ strerror e
      | Inr (bytes, checksum', samples') \<Rightarrow> (unat iterations \<noteq> 0 \<longrightarrow> unat bytes = length (C w1)) \<and>
           checksum' = 0 + of_nat (unat iterations * byte_sum (C w1)) \<and>
           samples' = [] @ map elapsed [0..<0 + unat iterations]"
    using scan_iterations_exact [OF assms(3-5,7), where iteration = 0] by blast
  show ?thesis
  proof (cases r)
    case (Inl message)
    with s r assms(1,2) show ?thesis by (auto simp: run_pread_benchmark_def)
  next
    case (Inr x)
    with s r k assms(1,2) show ?thesis by (cases x) (auto simp: run_pread_benchmark_def)
  qed
qed

theorem pread_scan_exact_witness:
  "run_pread_benchmark plain_posix (\<lambda>_ w. w) (\<lambda>_. []) hundredth_doubles (\<lambda>_. 100) ''in'' 2 3 [1, 2, 255] =
     Some (bench_success hundredth_doubles ''pread_scan'' 3 0 [100, 100, 100], [1, 2, 255])"
proof -
  have opened: "open_read_only plain_posix ''in'' [1, 2, 255] = (\<lparr>of_fd = 3, of_error_number = 0\<rparr>, [1, 2, 255])" by code_simp
  obtain m where c: "pread_contract (system_file_io_operations plain_posix) 3 (\<lambda>w. w)"
    "interrupts_bounded (system_file_io_operations plain_posix) m"
    using plain_posix_serves [of 3] unfolding sync_serves_def by blast
  have scan: "scan_iterations plain_posix (\<lambda>_. []) (\<lambda>_. 100 :: nat) 3 2 3 0 0 0 [] [1, 2, 255] =
      Some (Inr (3, 774, [100, 100, 100]), [1, 2, 255])" by code_simp
  from pread_scan_exact [OF opened, of "\<lambda>w. w" m 2 3 "\<lambda>_. []" "\<lambda>_. 100" "\<lambda>_ w. w" hundredth_doubles] c scan
  show ?thesis by simp
qed

end
