(* ===== verification/Coroutine_Demos.thy ===== *)
theory Coroutine_Demos
  imports Reporter "HOL-Library.Monad_Syntax"
begin

text \<open>
  The coroutine programs of the first stage, \<open>simple_task_demo.cpp\<close>, \<open>manual_resume_demo.cpp\<close> and
  \<open>delay_awaiter_demo.cpp\<close> of \<open>examples/coroutines\<close>, which share the class \<open>SimpleTask\<close>. Frames live in
  a memory of their own; a handle is the address of a frame. A use of a handle that C++ leaves
  undefined (a destroyed frame, or one that is not suspended) gives \<open>None\<close>.
\<close>

section \<open>Frames and handles\<close>

datatype 's activation = Suspended 's | Running | Finished

record ('s, 'x) coroutines =
  cm_frames :: "nat \<rightharpoonup> 's activation"
  cm_fresh :: nat
  cm_env :: 'x

text \<open>A body runs from one suspension to the next or to the final one.\<close>

type_synonym ('s, 'x) demo_body = "nat \<Rightarrow> 's \<Rightarrow> 'x \<Rightarrow> 's option \<times> 'x"

definition frame_after :: "'s option \<Rightarrow> 's activation" where
  "frame_after point = (case point of None \<Rightarrow> Finished | Some s \<Rightarrow> Suspended s)"

definition handle_done :: "nat \<Rightarrow> ('s, 'x) coroutines \<Rightarrow> bool option" where
  "handle_done h m =
     (case cm_frames m h of
        Some (Suspended _) \<Rightarrow> Some False
      | Some Finished \<Rightarrow> Some True
      | _ \<Rightarrow> None)"

definition frame_destroy :: "nat \<Rightarrow> ('s, 'x) coroutines \<Rightarrow> ('s, 'x) coroutines option" where
  "frame_destroy h m =
     (case cm_frames m h of
        None \<Rightarrow> None
      | Some Running \<Rightarrow> None
      | Some _ \<Rightarrow> Some (m\<lparr>cm_frames := (cm_frames m)(h := None)\<rparr>))"

text \<open>\<open>handle.resume()\<close> in two halves: the frame runs in between.\<close>

definition frame_enter :: "nat \<Rightarrow> ('s, 'x) coroutines \<Rightarrow> ('s \<times> ('s, 'x) coroutines) option" where
  "frame_enter h m =
     (case cm_frames m h of
        Some (Suspended s) \<Rightarrow> Some (s, m\<lparr>cm_frames := (cm_frames m)(h \<mapsto> Running)\<rparr>)
      | _ \<Rightarrow> None)"

definition frame_leave :: "('s, 'x) demo_body \<Rightarrow> nat \<Rightarrow> 's \<Rightarrow> ('s, 'x) coroutines \<Rightarrow> ('s, 'x) coroutines" where
  "frame_leave body h s m =
     (case body h s (cm_env m) of (point, x) \<Rightarrow>
        m\<lparr>cm_frames := (cm_frames m)(h \<mapsto> frame_after point), cm_env := x\<rparr>)"

definition frame_resume :: "('s, 'x) demo_body \<Rightarrow> nat \<Rightarrow> ('s, 'x) coroutines \<Rightarrow> ('s, 'x) coroutines option" where
  "frame_resume body h m = do { (s, m1) \<leftarrow> frame_enter h m; Some (frame_leave body h s m1) }"

section \<open>SimpleTask\<close>

record simple_task =
  st_handle :: "nat option"

text \<open>A call of a coroutine: the frame, \<open>get_return_object\<close> and \<open>initial_suspend\<close>.\<close>

definition simple_task_call :: "'s \<Rightarrow> ('s, 'x) coroutines \<Rightarrow> simple_task \<times> ('s, 'x) coroutines" where
  "simple_task_call s m =
     (\<lparr>st_handle = Some (cm_fresh m)\<rparr>,
      m\<lparr>cm_frames := (cm_frames m)(cm_fresh m \<mapsto> Suspended s), cm_fresh := cm_fresh m + 1\<rparr>)"

definition simple_task_move_construct :: "simple_task \<Rightarrow> simple_task \<times> simple_task" where
  "simple_task_move_construct other = (other, other\<lparr>st_handle := None\<rparr>)"

definition simple_task_destroy :: "simple_task \<Rightarrow> ('s, 'x) coroutines \<Rightarrow> ('s, 'x) coroutines option" where
  "simple_task_destroy t m = (case st_handle t of None \<Rightarrow> Some m | Some h \<Rightarrow> frame_destroy h m)"

definition simple_task_move_assign ::
  "bool \<Rightarrow> simple_task \<Rightarrow> simple_task \<Rightarrow> ('s, 'x) coroutines \<Rightarrow>
     ((simple_task \<times> simple_task) \<times> ('s, 'x) coroutines) option" where
  "simple_task_move_assign same t other m =
     (if same then Some ((t, other), m)
      else do {
        m1 \<leftarrow> simple_task_destroy t m;
        Some ((\<lparr>st_handle = st_handle other\<rparr>, other\<lparr>st_handle := None\<rparr>), m1)
      })"

text \<open>\<open>if (handle && !handle.done()) handle.resume()\<close>, which the awaiters do as well.\<close>

definition resume_unless_done ::
  "('s, 'x) demo_body \<Rightarrow> nat option \<Rightarrow> ('s, 'x) coroutines \<Rightarrow> ('s, 'x) coroutines option" where
  "resume_unless_done body handle m =
     (case handle of
        None \<Rightarrow> Some m
      | Some h \<Rightarrow> do {
          finished \<leftarrow> handle_done h m;
          if finished then Some m else frame_resume body h m
        })"

definition simple_task_resume ::
  "('s, 'x) demo_body \<Rightarrow> simple_task \<Rightarrow> ('s, 'x) coroutines \<Rightarrow> ('s, 'x) coroutines option" where
  "simple_task_resume body t m = resume_unless_done body (st_handle t) m"

definition simple_task_done :: "simple_task \<Rightarrow> ('s, 'x) coroutines \<Rightarrow> bool option" where
  "simple_task_done t m = (case st_handle t of None \<Rightarrow> Some True | Some h \<Rightarrow> handle_done h m)"

definition bool_text :: "bool \<Rightarrow> string" where
  "bool_text b = (if b then ''true'' else ''false'')"

section \<open>simple_task_demo\<close>

text \<open>The environment is what was printed.\<close>

definition say :: "string \<Rightarrow> ('s, string) coroutines \<Rightarrow> ('s, string) coroutines" where
  "say line m = m\<lparr>cm_env := cm_env m @ line @ lf\<rparr>"

definition hello_coroutine :: "(unit, string) demo_body" where
  "hello_coroutine h s out = (None, out @ ''Hello from coroutine!'' @ lf)"

definition no_coroutines :: "'x \<Rightarrow> ('s, 'x) coroutines" where
  "no_coroutines x = \<lparr>cm_frames = Map.empty, cm_fresh = 0, cm_env = x\<rparr>"

definition simple_task_main :: "(unit, string) coroutines option" where
  "simple_task_main =
     (let m0 = say ''AsyncDataLoader - Stage 1 simple task demo'' (no_coroutines []);
          (t, m1) = simple_task_call () m0;
          m2 = say ''before resume'' m1 in
      do {
        m3 \<leftarrow> simple_task_resume hello_coroutine t m2;
        let m4 = say ''after resume'' m3;
        finished \<leftarrow> simple_task_done t m4;
        simple_task_destroy t (say (''done='' @ bool_text finished) m4)
      })"

section \<open>manual_resume_demo\<close>

record manual_env =
  me_out :: string
  me_saved_handle :: "nat option"

definition manual_say :: "string \<Rightarrow> manual_env \<Rightarrow> manual_env" where
  "manual_say line x = x\<lparr>me_out := me_out x @ line @ lf\<rparr>"

definition manual_await_suspend :: "nat \<Rightarrow> manual_env \<Rightarrow> manual_env" where
  "manual_await_suspend handle x = x\<lparr>me_saved_handle := Some handle\<rparr>"

definition has_handle :: "manual_env \<Rightarrow> bool" where
  "has_handle x \<longleftrightarrow> me_saved_handle x \<noteq> None"

text \<open>Points: 0 is before the body, 1 is the \<open>co_await\<close>; \<open>await_ready\<close> is false.\<close>

definition wait_for_manual_resume :: "(nat, manual_env) demo_body" where
  "wait_for_manual_resume h s x =
     (if s = 0 then (Some 1, manual_await_suspend h (manual_say ''before co_await'' x))
      else (None, manual_say ''after co_await'' x))"

definition resume_saved :: "(nat, manual_env) coroutines \<Rightarrow> (nat, manual_env) coroutines option" where
  "resume_saved m =
     (let handle = me_saved_handle (cm_env m) in
      resume_unless_done wait_for_manual_resume handle (m\<lparr>cm_env := (cm_env m)\<lparr>me_saved_handle := None\<rparr>\<rparr>))"

definition on_env :: "('x \<Rightarrow> 'x) \<Rightarrow> ('s, 'x) coroutines \<Rightarrow> ('s, 'x) coroutines" where
  "on_env f m = m\<lparr>cm_env := f (cm_env m)\<rparr>"

definition manual_resume_main :: "(nat, manual_env) coroutines option" where
  "manual_resume_main =
     (let m0 = on_env (manual_say ''AsyncDataLoader - Stage 1 manual resume demo'')
                 (no_coroutines \<lparr>me_out = [], me_saved_handle = None\<rparr>);
          (t, m1) = simple_task_call 0 m0;
          m2 = on_env (manual_say ''before first resume'') m1 in
      do {
        m3 \<leftarrow> simple_task_resume wait_for_manual_resume t m2;
        let m4 = on_env (manual_say ''after first resume'') m3;
        m5 \<leftarrow> (if has_handle (cm_env m4) then do {
                 let shown = on_env (manual_say (''awaiter has handle='' @ bool_text (has_handle (cm_env m4)))) m4;
                 resumed \<leftarrow> resume_saved (on_env (manual_say ''before manual resume'') shown);
                 Some (on_env (manual_say ''after manual resume'') resumed)
               } else Some m4);
        finished \<leftarrow> simple_task_done t m5;
        simple_task_destroy t (on_env (manual_say (''done='' @ bool_text finished)) m5)
      })"

section \<open>delay_awaiter_demo\<close>

text \<open>
  Two threads: \<open>main\<close> and the detached thread of \<open>DelayAwaiter::await_suspend\<close>, which holds the handle.
  A printed line is one step; the coroutine runs between the entry of the thread and its end.
\<close>

datatype delay_main = Main_start | Main_resume | Main_resumed | Main_waiting | Main_poll | Main_report | Main_end

datatype delay_thread = No_thread | Sleeping nat | Resuming nat nat | Thread_end

record delay_env =
  de_out :: string
  de_thread :: delay_thread

record delay_state =
  ds_main :: delay_main
  ds_task :: simple_task
  ds_memory :: "(nat, delay_env) coroutines"

definition delay_say :: "string \<Rightarrow> delay_env \<Rightarrow> delay_env" where
  "delay_say line x = x\<lparr>de_out := de_out x @ line @ lf\<rparr>"

definition delay_await_suspend :: "nat \<Rightarrow> delay_env \<Rightarrow> delay_env" where
  "delay_await_suspend handle x = x\<lparr>de_thread := Sleeping handle\<rparr>"

definition wait_for_delay :: "(nat, delay_env) demo_body" where
  "wait_for_delay h s x =
     (if s = 0 then (Some 1, delay_await_suspend h (delay_say ''before delay co_await'' x))
      else (None, delay_say ''after delay co_await'' x))"

definition delay_start :: delay_state where
  "delay_start =
     \<lparr>ds_main = Main_start, ds_task = \<lparr>st_handle = None\<rparr>,
      ds_memory = no_coroutines \<lparr>de_out = [], de_thread = No_thread\<rparr>\<rparr>"

text \<open>A step of a thread that cannot move (it has ended) is no step; an undefined one has no outcome.\<close>

datatype delay_outcome = No_step | Undefined | Moved delay_state

definition moved :: "delay_state option \<Rightarrow> delay_outcome" where
  "moved next_state = (case next_state of None \<Rightarrow> Undefined | Some s \<Rightarrow> Moved s)"

definition main_says :: "string \<Rightarrow> delay_main \<Rightarrow> delay_state \<Rightarrow> delay_state" where
  "main_says line pc s = s\<lparr>ds_main := pc, ds_memory := on_env (delay_say line) (ds_memory s)\<rparr>"

fun delay_main_step :: "delay_main \<Rightarrow> delay_state \<Rightarrow> delay_outcome" where
  "delay_main_step Main_start s =
     (case simple_task_call 0 (on_env (delay_say ''AsyncDataLoader - Stage 1 delay awaiter demo'') (ds_memory s)) of
        (t, m) \<Rightarrow> Moved (main_says ''before first resume'' Main_resume (s\<lparr>ds_task := t, ds_memory := m\<rparr>)))"
| "delay_main_step Main_resume s =
     moved (do {
       m \<leftarrow> simple_task_resume wait_for_delay (ds_task s) (ds_memory s);
       Some (s\<lparr>ds_main := Main_resumed, ds_memory := m\<rparr>)
     })"
| "delay_main_step Main_resumed s = Moved (main_says ''after first resume'' Main_waiting s)"
| "delay_main_step Main_waiting s = Moved (main_says ''waiting in main'' Main_poll s)"
| "delay_main_step Main_poll s =
     moved (do {
       finished \<leftarrow> simple_task_done (ds_task s) (ds_memory s);
       Some (if finished then s\<lparr>ds_main := Main_report\<rparr> else s)
     })"
| "delay_main_step Main_report s =
     moved (do {
       finished \<leftarrow> simple_task_done (ds_task s) (ds_memory s);
       let s1 = main_says (''done='' @ bool_text finished) Main_end s;
       m \<leftarrow> simple_task_destroy (ds_task s1) (ds_memory s1);
       Some (s1\<lparr>ds_memory := m\<rparr>)
     })"
| "delay_main_step Main_end s = No_step"

definition set_thread :: "delay_thread \<Rightarrow> delay_state \<Rightarrow> delay_state" where
  "set_thread th s = s\<lparr>ds_memory := on_env (de_thread_update (\<lambda>_. th)) (ds_memory s)\<rparr>"

fun delay_thread_step :: "delay_thread \<Rightarrow> delay_state \<Rightarrow> delay_outcome" where
  "delay_thread_step No_thread s = No_step"
| "delay_thread_step (Sleeping h) s =
     moved (do {
       finished \<leftarrow> handle_done h (ds_memory s);
       if finished then Some (set_thread Thread_end s)
       else do {
         (point, m) \<leftarrow> frame_enter h (ds_memory s);
         Some (set_thread (Resuming h point) (s\<lparr>ds_memory := m\<rparr>))
       }
     })"
| "delay_thread_step (Resuming h point) s =
     Moved (set_thread Thread_end (s\<lparr>ds_memory := frame_leave wait_for_delay h point (ds_memory s)\<rparr>))"
| "delay_thread_step Thread_end s = No_step"

text \<open>A schedule: true for a step of \<open>main\<close>, false for one of the detached thread.\<close>

definition delay_step :: "bool \<Rightarrow> delay_state \<Rightarrow> delay_outcome" where
  "delay_step by_main s =
     (if by_main then delay_main_step (ds_main s) s else delay_thread_step (de_thread (cm_env (ds_memory s))) s)"

fun delay_run :: "bool list \<Rightarrow> delay_state \<Rightarrow> delay_state option" where
  "delay_run [] s = Some s"
| "delay_run (t # ts) s =
     (case delay_step t s of No_step \<Rightarrow> delay_run ts s | Undefined \<Rightarrow> None | Moved s' \<Rightarrow> delay_run ts s')"

section \<open>Programs over tasks\<close>

text \<open>Variables hold tasks. An operation on a variable outside its scope does nothing.\<close>

datatype 's task_op =
  Op_call nat 's | Op_move_construct nat nat | Op_move_assign nat nat | Op_resume nat | Op_destroy nat

record ('s, 'x) task_world =
  tw_tasks :: "nat \<rightharpoonup> simple_task"
  tw_memory :: "('s, 'x) coroutines"

fun task_op_step :: "('s, 'x) demo_body \<Rightarrow> 's task_op \<Rightarrow> ('s, 'x) task_world \<Rightarrow> ('s, 'x) task_world option" where
  "task_op_step body (Op_call v s) w =
     (case tw_tasks w v of
        Some _ \<Rightarrow> Some w
      | None \<Rightarrow>
          (case simple_task_call s (tw_memory w) of (t, m) \<Rightarrow>
             Some (w\<lparr>tw_tasks := (tw_tasks w)(v \<mapsto> t), tw_memory := m\<rparr>)))"
| "task_op_step body (Op_move_construct v u) w =
     (case (tw_tasks w v, tw_tasks w u) of
        (None, Some other) \<Rightarrow>
          (case simple_task_move_construct other of (t, other') \<Rightarrow>
             Some (w\<lparr>tw_tasks := (tw_tasks w)(v \<mapsto> t, u \<mapsto> other')\<rparr>))
      | _ \<Rightarrow> Some w)"
| "task_op_step body (Op_move_assign v u) w =
     (case (tw_tasks w v, tw_tasks w u) of
        (Some t, Some other) \<Rightarrow> do {
          ((t', other'), m) \<leftarrow> simple_task_move_assign (v = u) t other (tw_memory w);
          Some (w\<lparr>tw_tasks := (tw_tasks w)(u \<mapsto> other', v \<mapsto> t'), tw_memory := m\<rparr>)
        }
      | _ \<Rightarrow> Some w)"
| "task_op_step body (Op_resume v) w =
     (case tw_tasks w v of
        None \<Rightarrow> Some w
      | Some t \<Rightarrow> do { m \<leftarrow> simple_task_resume body t (tw_memory w); Some (w\<lparr>tw_memory := m\<rparr>) })"
| "task_op_step body (Op_destroy v) w =
     (case tw_tasks w v of
        None \<Rightarrow> Some w
      | Some t \<Rightarrow> do {
          m \<leftarrow> simple_task_destroy t (tw_memory w);
          Some (w\<lparr>tw_tasks := (tw_tasks w)(v := None), tw_memory := m\<rparr>)
        })"

fun task_op_run :: "('s, 'x) demo_body \<Rightarrow> 's task_op list \<Rightarrow> ('s, 'x) task_world \<Rightarrow> ('s, 'x) task_world option" where
  "task_op_run body [] w = Some w"
| "task_op_run body (op # ops) w = do { w' \<leftarrow> task_op_step body op w; task_op_run body ops w' }"

definition holds_frame :: "('s, 'x) task_world \<Rightarrow> nat \<Rightarrow> nat \<Rightarrow> bool" where
  "holds_frame w v h \<longleftrightarrow> map_option st_handle (tw_tasks w v) = Some (Some h)"

definition tasks_inv :: "('s, 'x) task_world \<Rightarrow> bool" where
  "tasks_inv w \<longleftrightarrow>
     (\<forall>h. cm_frames (tw_memory w) h \<noteq> None \<longleftrightarrow> (\<exists>v. holds_frame w v h)) \<and>
     (\<forall>u v h. holds_frame w u h \<longrightarrow> holds_frame w v h \<longrightarrow> u = v) \<and>
     (\<forall>h. cm_frames (tw_memory w) h \<noteq> Some Running) \<and>
     (\<forall>h. cm_frames (tw_memory w) h \<noteq> None \<longrightarrow> h < cm_fresh (tw_memory w))"

lemma tasks_invD:
  assumes "tasks_inv w"
  shows "cm_frames (tw_memory w) h \<noteq> None \<longleftrightarrow> (\<exists>v. holds_frame w v h)"
    and "holds_frame w u h \<Longrightarrow> holds_frame w v h \<Longrightarrow> u = v"
    and "cm_frames (tw_memory w) h \<noteq> Some Running"
    and "cm_frames (tw_memory w) h \<noteq> None \<Longrightarrow> h < cm_fresh (tw_memory w)"
  using assms unfolding tasks_inv_def by blast+

lemma tasks_invI:
  assumes "\<And>h. cm_frames (tw_memory w) h \<noteq> None \<longleftrightarrow> (\<exists>v. holds_frame w v h)"
    and "\<And>u v h. holds_frame w u h \<Longrightarrow> holds_frame w v h \<Longrightarrow> u = v"
    and "\<And>h. cm_frames (tw_memory w) h \<noteq> Some Running"
    and "\<And>h. cm_frames (tw_memory w) h \<noteq> None \<Longrightarrow> h < cm_fresh (tw_memory w)"
  shows "tasks_inv w"
  using assms unfolding tasks_inv_def by blast

lemma held_frame_live:
  assumes "tasks_inv w" and "tw_tasks w v = Some t" and "st_handle t = Some h"
  obtains "cm_frames (tw_memory w) h = Some Finished" | s where "cm_frames (tw_memory w) h = Some (Suspended s)"
proof -
  have "cm_frames (tw_memory w) h \<noteq> None"
    using tasks_invD(1) [OF assms(1)] assms(2,3) by (auto simp: holds_frame_def)
  then obtain a where a: "cm_frames (tw_memory w) h = Some a" by blast
  with tasks_invD(3) [OF assms(1), of h] that show thesis by (cases a) auto
qed

lemma task_resume_defined:
  assumes inv: "tasks_inv w" and t: "tw_tasks w v = Some t"
  shows "\<exists>m. simple_task_resume body t (tw_memory w) = Some m \<and> tasks_inv (w\<lparr>tw_memory := m\<rparr>)"
proof (cases "st_handle t")
  case None
  then show ?thesis using inv by (simp add: simple_task_resume_def resume_unless_done_def)
next
  case (Some h)
  from inv t Some show ?thesis
  proof (rule held_frame_live)
    assume "cm_frames (tw_memory w) h = Some Finished"
    then show ?thesis using inv Some
      by (simp add: simple_task_resume_def resume_unless_done_def handle_done_def)
  next
    fix s assume s: "cm_frames (tw_memory w) h = Some (Suspended s)"
    obtain point x where step: "body h s (cm_env (tw_memory w)) = (point, x)" by (cases "body h s (cm_env (tw_memory w))")
    let ?m = "(tw_memory w)\<lparr>cm_frames := (cm_frames (tw_memory w))(h \<mapsto> frame_after point), cm_env := x\<rparr>"
    have "simple_task_resume body t (tw_memory w) = Some ?m"
      using Some s step
      by (simp add: simple_task_resume_def resume_unless_done_def handle_done_def frame_resume_def
          frame_enter_def frame_leave_def)
    moreover have "tasks_inv (w\<lparr>tw_memory := ?m\<rparr>)"
    proof (rule tasks_invI)
      note inv' = tasks_invD [OF inv]
      have live: "cm_frames (tw_memory (w\<lparr>tw_memory := ?m\<rparr>)) k \<noteq> None \<longleftrightarrow> cm_frames (tw_memory w) k \<noteq> None" for k
        using s by simp
      have held: "holds_frame (w\<lparr>tw_memory := ?m\<rparr>) = holds_frame w" by (simp add: holds_frame_def fun_eq_iff)
      show "cm_frames (tw_memory (w\<lparr>tw_memory := ?m\<rparr>)) k \<noteq> None \<longleftrightarrow> (\<exists>v. holds_frame (w\<lparr>tw_memory := ?m\<rparr>) v k)" for k
        unfolding live held by (rule inv')
      show "holds_frame (w\<lparr>tw_memory := ?m\<rparr>) u k \<Longrightarrow> holds_frame (w\<lparr>tw_memory := ?m\<rparr>) v k \<Longrightarrow> u = v" for u v k
        unfolding held by (rule inv'(2))
      show "cm_frames (tw_memory (w\<lparr>tw_memory := ?m\<rparr>)) k \<noteq> Some Running" for k
        using inv'(3) [of k] by (simp add: frame_after_def split: option.splits)
      show "cm_frames (tw_memory (w\<lparr>tw_memory := ?m\<rparr>)) k \<noteq> None \<Longrightarrow> k < cm_fresh (tw_memory (w\<lparr>tw_memory := ?m\<rparr>))" for k
        unfolding live using inv'(4) by simp
    qed
    ultimately show ?thesis by blast
  qed
qed

text \<open>Giving up the frame of a variable; what the variable holds afterwards is not the frame.\<close>

lemma task_destroy_defined:
  assumes inv: "tasks_inv w" and t: "tw_tasks w v = Some t"
  shows "\<exists>m. simple_task_destroy t (tw_memory w) = Some m \<and>
    tasks_inv (w\<lparr>tw_tasks := (tw_tasks w)(v := None), tw_memory := m\<rparr>)"
proof -
  have rest: "cm_frames m = (cm_frames (tw_memory w))(h := None) \<Longrightarrow> cm_fresh m = cm_fresh (tw_memory w) \<Longrightarrow>
      st_handle t = Some h \<Longrightarrow> tasks_inv (w\<lparr>tw_tasks := (tw_tasks w)(v := None), tw_memory := m\<rparr>)" for m h
    using inv t unfolding tasks_inv_def holds_frame_def
    by (auto split: if_splits) (metis option.inject)+
  show ?thesis
  proof (cases "st_handle t")
    case None
    then have "tasks_inv (w\<lparr>tw_tasks := (tw_tasks w)(v := None)\<rparr>)"
      using inv t unfolding tasks_inv_def holds_frame_def
      by (auto split: if_splits) (metis option.distinct(1) option.inject)
    then show ?thesis using None by (simp add: simple_task_destroy_def)
  next
    case (Some h)
    let ?m = "(tw_memory w)\<lparr>cm_frames := (cm_frames (tw_memory w))(h := None)\<rparr>"
    have "simple_task_destroy t (tw_memory w) = Some ?m"
      using held_frame_live [OF inv t Some] by (cases rule: held_frame_live [OF inv t Some])
        (simp_all add: simple_task_destroy_def frame_destroy_def Some)
    moreover have "tasks_inv (w\<lparr>tw_tasks := (tw_tasks w)(v := None), tw_memory := ?m\<rparr>)"
      by (rule rest [OF _ _ Some]) simp_all
    ultimately show ?thesis by blast
  qed
qed

text \<open>A handle that moves from one variable to an empty one.\<close>

lemma tasks_inv_moved:
  assumes inv: "tasks_inv w" and memory: "tw_memory w' = tw_memory w" and "u \<noteq> v"
    and empty: "\<And>h. \<not> holds_frame w v h" "\<And>h. \<not> holds_frame w' u h"
    and moved: "\<And>h. holds_frame w' v h \<longleftrightarrow> holds_frame w u h"
    and others: "\<And>x h. x \<noteq> u \<Longrightarrow> x \<noteq> v \<Longrightarrow> holds_frame w' x h \<longleftrightarrow> holds_frame w x h"
  shows "tasks_inv w'"
proof -
  define f where "f x = (if x = u then v else if x = v then u else x)" for x
  have f: "f (f x) = x" for x using assms(3) by (simp add: f_def)
  have held: "holds_frame w' x h \<longleftrightarrow> holds_frame w (f x) h" for x h
    using empty moved others by (simp add: f_def)
  have ex: "(\<exists>x. holds_frame w' x h) \<longleftrightarrow> (\<exists>x. holds_frame w x h)" for h
    unfolding held using f by metis
  have same: "x = y" if "holds_frame w' x h" "holds_frame w' y h" for x y h
    using tasks_invD(2) [OF inv] that f unfolding held by metis
  show ?thesis
    by (rule tasks_invI) (use tasks_invD [OF inv] ex same in \<open>simp_all add: memory\<close>)
qed

lemma task_move_assign_defined:
  assumes inv: "tasks_inv w" and t: "tw_tasks w v = Some t" "tw_tasks w u = Some other" and "v \<noteq> u"
  shows "\<exists>w'. task_op_step body (Op_move_assign v u) w = Some w' \<and> tasks_inv w'"
proof -
  from task_destroy_defined [OF inv t(1)] obtain m where m: "simple_task_destroy t (tw_memory w) = Some m"
    and inv': "tasks_inv (w\<lparr>tw_tasks := (tw_tasks w)(v := None), tw_memory := m\<rparr>)" by blast
  let ?w = "w\<lparr>tw_tasks := (tw_tasks w)(u \<mapsto> other\<lparr>st_handle := None\<rparr>, v \<mapsto> \<lparr>st_handle = st_handle other\<rparr>), tw_memory := m\<rparr>"
  have "tasks_inv ?w"
    by (rule tasks_inv_moved [OF inv', where u = u and v = v]) (use t assms(4) in \<open>auto simp: holds_frame_def\<close>)
  then show ?thesis using t m assms(4) by (simp add: simple_task_move_assign_def)
qed

lemma task_call_defined:
  assumes inv: "tasks_inv w" and "tw_tasks w v = None"
  shows "\<exists>w'. task_op_step body (Op_call v s) w = Some w' \<and> tasks_inv w'"
proof -
  let ?k = "cm_fresh (tw_memory w)"
  let ?w = "w\<lparr>tw_tasks := (tw_tasks w)(v \<mapsto> \<lparr>st_handle = Some ?k\<rparr>), tw_memory := snd (simple_task_call s (tw_memory w))\<rparr>"
  have fresh: "cm_frames (tw_memory w) ?k = None" using tasks_invD(4) [OF inv] by (metis less_irrefl)
  then have unheld: "\<not> holds_frame w u ?k" for u using tasks_invD(1) [OF inv] by blast
  have held: "holds_frame ?w u h \<longleftrightarrow> (if u = v then h = ?k else holds_frame w u h)" for u h
    using assms(2) by (auto simp: holds_frame_def)
  have frames: "cm_frames (tw_memory ?w) h = (if h = ?k then Some (Suspended s) else cm_frames (tw_memory w) h)" for h
    by (simp add: simple_task_call_def)
  have v: "\<not> holds_frame w v h" for h using assms(2) by (simp add: holds_frame_def)
  have "tasks_inv ?w"
  proof (rule tasks_invI)
    show "cm_frames (tw_memory ?w) h \<noteq> None \<longleftrightarrow> (\<exists>u. holds_frame ?w u h)" for h
      unfolding frames held using tasks_invD(1) [OF inv, of h] v [of h] by (auto; metis)
    show "holds_frame ?w x h \<Longrightarrow> holds_frame ?w y h \<Longrightarrow> x = y" for x y h
      unfolding held using tasks_invD(2) [OF inv, of x h y] unheld by (auto split: if_splits)
    show "cm_frames (tw_memory ?w) h \<noteq> Some Running" for h
      unfolding frames using tasks_invD(3) [OF inv] by simp
    show "cm_frames (tw_memory ?w) h \<noteq> None \<Longrightarrow> h < cm_fresh (tw_memory ?w)" for h
      unfolding frames using tasks_invD(4) [OF inv, of h] by (auto simp: simple_task_call_def split: if_splits)
  qed
  then show ?thesis using assms(2) by (simp add: simple_task_call_def)
qed

lemma task_op_defined:
  assumes inv: "tasks_inv w"
  shows "\<exists>w'. task_op_step body op w = Some w' \<and> tasks_inv w'"
proof (cases op)
  case (Op_call v s)
  with task_call_defined [OF inv, of v body s] inv show ?thesis by (cases "tw_tasks w v") auto
next
  case (Op_move_construct v u)
  show ?thesis
  proof (cases "tw_tasks w v = None \<and> tw_tasks w u \<noteq> None")
    case True
    then obtain other where other: "tw_tasks w v = None" "tw_tasks w u = Some other" by blast
    then have "u \<noteq> v" by auto
    have "tasks_inv (w\<lparr>tw_tasks := (tw_tasks w)(v \<mapsto> other, u \<mapsto> other\<lparr>st_handle := None\<rparr>)\<rparr>)"
      by (rule tasks_inv_moved [OF inv _ \<open>u \<noteq> v\<close>]) (use other \<open>u \<noteq> v\<close> in \<open>auto simp: holds_frame_def\<close>)
    then show ?thesis using Op_move_construct other by (simp add: simple_task_move_construct_def)
  next
    case False
    then show ?thesis using Op_move_construct inv by (auto split: option.splits)
  qed
next
  case (Op_move_assign v u)
  show ?thesis
  proof (cases "tw_tasks w v \<noteq> None \<and> tw_tasks w u \<noteq> None")
    case True
    then obtain t other where t: "tw_tasks w v = Some t" "tw_tasks w u = Some other" by blast
    show ?thesis
    proof (cases "v = u")
      case True
      have "(tw_tasks w)(u \<mapsto> other, v \<mapsto> t) = tw_tasks w" using t True by (auto simp: fun_eq_iff)
      then show ?thesis using Op_move_assign t inv True by (simp add: simple_task_move_assign_def)
    qed (use task_move_assign_defined [OF inv t] Op_move_assign in blast)
  next
    case False
    then show ?thesis using Op_move_assign inv by (auto split: option.splits)
  qed
next
  case (Op_resume v)
  show ?thesis
  proof (cases "tw_tasks w v")
    case (Some t)
    from task_resume_defined [OF inv Some, of body] Op_resume Some show ?thesis by auto
  qed (use Op_resume inv in simp)
next
  case (Op_destroy v)
  show ?thesis
  proof (cases "tw_tasks w v")
    case (Some t)
    from task_destroy_defined [OF inv Some] Op_destroy Some show ?thesis by auto
  qed (use Op_destroy inv in simp)
qed

lemma task_ops_defined:
  "tasks_inv w \<Longrightarrow> \<exists>w'. task_op_run body ops w = Some w' \<and> tasks_inv w'"
proof (induction ops arbitrary: w)
  case (Cons op ops)
  from task_op_defined [OF Cons.prems] obtain w1 where "task_op_step body op w = Some w1" "tasks_inv w1" by blast
  with Cons.IH show ?case by simp
qed simp

definition no_tasks :: "'x \<Rightarrow> ('s, 'x) task_world" where
  "no_tasks x = \<lparr>tw_tasks = Map.empty, tw_memory = no_coroutines x\<rparr>"

lemma no_tasks_inv: "tasks_inv (no_tasks x)"
  by (simp add: tasks_inv_def no_tasks_def holds_frame_def no_coroutines_def)

text \<open>
  Whatever a program does with its tasks, nothing is undefined, a frame is held by exactly one task,
  and without tasks there are no frames.
\<close>

lemma simple_task_ownership:
  "\<exists>w. task_op_run body ops (no_tasks x) = Some w \<and>
     (\<forall>h. cm_frames (tw_memory w) h \<noteq> None \<longleftrightarrow> (\<exists>!v. holds_frame w v h)) \<and>
     (tw_tasks w = Map.empty \<longrightarrow> cm_frames (tw_memory w) = Map.empty)"
proof -
  obtain w where w: "task_op_run body ops (no_tasks x) = Some w" "tasks_inv w"
    using task_ops_defined [OF no_tasks_inv [of x], of body ops] by blast
  have unique: "cm_frames (tw_memory w) h \<noteq> None \<longleftrightarrow> (\<exists>!v. holds_frame w v h)" for h
    using tasks_invD(1,2) [OF w(2)] by blast
  have "cm_frames (tw_memory w) = Map.empty" if "tw_tasks w = Map.empty"
  proof
    fix h show "cm_frames (tw_memory w) h = None" using unique [of h] that by (auto simp: holds_frame_def)
  qed
  with w(1) unique show ?thesis by blast
qed

section \<open>What the programs print\<close>

definition text_lines :: "string list \<Rightarrow> string" where
  "text_lines xs = concat (map (\<lambda>line. line @ lf) xs)"

lemma text_lines_simps [simp]:
  "text_lines [] = []" "text_lines (x # xs) = x @ lf @ text_lines xs" "text_lines (xs @ ys) = text_lines xs @ text_lines ys"
  by (simp_all add: text_lines_def)

lemmas coroutine_steps = simple_task_call_def simple_task_resume_def resume_unless_done_def handle_done_def
  frame_resume_def frame_enter_def frame_leave_def frame_after_def simple_task_done_def simple_task_destroy_def
  frame_destroy_def bool_text_def no_coroutines_def on_env_def

lemma simple_task_main_prints:
  "simple_task_main = Some \<lparr>cm_frames = Map.empty, cm_fresh = 1,
     cm_env = text_lines [''AsyncDataLoader - Stage 1 simple task demo'', ''before resume'', ''Hello from coroutine!'',
       ''after resume'', ''done=true'']\<rparr>"
  by (simp add: simple_task_main_def coroutine_steps say_def hello_coroutine_def fun_upd_twist)

lemma manual_resume_main_prints:
  "manual_resume_main = Some \<lparr>cm_frames = Map.empty, cm_fresh = 1, cm_env = \<lparr>me_out =
     text_lines [''AsyncDataLoader - Stage 1 manual resume demo'', ''before first resume'', ''before co_await'',
       ''after first resume'', ''awaiter has handle=true'', ''before manual resume'', ''after co_await'',
       ''after manual resume'', ''done=true''], me_saved_handle = None\<rparr>\<rparr>"
  by (simp add: manual_resume_main_def coroutine_steps manual_say_def wait_for_manual_resume_def
      manual_await_suspend_def has_handle_def resume_saved_def)

section \<open>The delay program\<close>

text \<open>
  At the \<open>co_await\<close> the three parts, thread, frame and output, move together; \<open>shown\<close> are the lines of
  \<open>main\<close> so far and \<open>before\<close> those of them that came before the coroutine's last line.
\<close>

definition delay_opening :: "string list" where
  "delay_opening = [''AsyncDataLoader - Stage 1 delay awaiter demo'', ''before first resume'', ''before delay co_await'']"

definition coroutine_over :: "string list \<Rightarrow> string \<Rightarrow> bool" where
  "coroutine_over shown out \<longleftrightarrow>
     (\<exists>before behind. shown = before @ behind \<and>
        out = text_lines (delay_opening @ before @ [''after delay co_await''] @ behind))"

definition awaiting :: "string list \<Rightarrow> delay_state \<Rightarrow> bool" where
  "awaiting shown s \<longleftrightarrow>
     st_handle (ds_task s) = Some 0 \<and>
     (case de_thread (cm_env (ds_memory s)) of
        No_thread \<Rightarrow> False
      | Sleeping h \<Rightarrow> h = 0 \<and> cm_frames (ds_memory s) = [0 \<mapsto> Suspended 1] \<and>
          de_out (cm_env (ds_memory s)) = text_lines (delay_opening @ shown)
      | Resuming h point \<Rightarrow> h = 0 \<and> point = 1 \<and> cm_frames (ds_memory s) = [0 \<mapsto> Running] \<and>
          de_out (cm_env (ds_memory s)) = text_lines (delay_opening @ shown)
      | Thread_end \<Rightarrow> cm_frames (ds_memory s) = [0 \<mapsto> Finished] \<and> coroutine_over shown (de_out (cm_env (ds_memory s))))"

definition delay_inv :: "delay_state \<Rightarrow> bool" where
  "delay_inv s \<longleftrightarrow>
     (case ds_main s of
        Main_start \<Rightarrow> s = delay_start
      | Main_resume \<Rightarrow> st_handle (ds_task s) = Some 0 \<and> cm_frames (ds_memory s) = [0 \<mapsto> Suspended 0] \<and>
          de_thread (cm_env (ds_memory s)) = No_thread \<and>
          de_out (cm_env (ds_memory s)) = text_lines (take 2 delay_opening)
      | Main_resumed \<Rightarrow> awaiting [] s
      | Main_waiting \<Rightarrow> awaiting [''after first resume''] s
      | Main_poll \<Rightarrow> awaiting [''after first resume'', ''waiting in main''] s
      | Main_report \<Rightarrow> awaiting [''after first resume'', ''waiting in main''] s \<and>
          de_thread (cm_env (ds_memory s)) = Thread_end
      | Main_end \<Rightarrow> de_thread (cm_env (ds_memory s)) = Thread_end \<and> cm_frames (ds_memory s) = Map.empty \<and>
          (\<exists>out. coroutine_over [''after first resume'', ''waiting in main''] out \<and>
             de_out (cm_env (ds_memory s)) = out @ text_lines [''done=true'']))"

lemma coroutine_over_snoc: "coroutine_over shown out \<Longrightarrow> coroutine_over (shown @ [line]) (out @ line @ lf)"
  unfolding coroutine_over_def
proof (elim exE conjE)
  fix before behind
  assume "shown = before @ behind" "out = text_lines (delay_opening @ before @ [''after delay co_await''] @ behind)"
  then show "\<exists>before behind. shown @ [line] = before @ behind \<and>
      out @ line @ lf = text_lines (delay_opening @ before @ [''after delay co_await''] @ behind)"
    by (intro exI [where x = before] exI [where x = "behind @ [line]"]) simp
qed

lemma coroutine_over_now: "coroutine_over shown (text_lines (delay_opening @ shown) @ ''after delay co_await'' @ lf)"
  unfolding coroutine_over_def by (rule exI [where x = shown], rule exI [where x = "[]"]) simp

lemma awaiting_says:
  "awaiting shown s \<Longrightarrow> awaiting (shown @ [line]) (main_says line pc s)"
  by (cases "de_thread (cm_env (ds_memory s))")
    (auto simp: awaiting_def main_says_def on_env_def delay_say_def coroutine_over_snoc)

lemma awaiting_main [simp]: "awaiting shown (s\<lparr>ds_main := pc\<rparr>) = awaiting shown s"
  by (cases "de_thread (cm_env (ds_memory s))") (simp_all add: awaiting_def)

lemma awaiting_thread:
  assumes "awaiting shown s" and "delay_thread_step (de_thread (cm_env (ds_memory s))) s = Moved s'"
  shows "awaiting shown s' \<and> ds_main s' = ds_main s"
  using assms coroutine_over_now [of shown]
  by (cases "de_thread (cm_env (ds_memory s))")
    (auto simp: awaiting_def moved_def handle_done_def frame_enter_def set_thread_def on_env_def frame_leave_def
      wait_for_delay_def delay_say_def frame_after_def)

lemma delay_main_inv:
  assumes "delay_inv s" and "delay_main_step (ds_main s) s = Moved s'"
  shows "delay_inv s'"
proof (cases "ds_main s")
  case Main_start
  then show ?thesis using assms
    by (auto simp: delay_inv_def delay_start_def coroutine_steps main_says_def delay_say_def delay_opening_def)
next
  case Main_resume
  then show ?thesis using assms
    by (auto simp: delay_inv_def awaiting_def moved_def coroutine_steps wait_for_delay_def delay_await_suspend_def
        delay_say_def delay_opening_def)
next
  case Main_resumed
  then show ?thesis using assms awaiting_says [of "[]" s "''after first resume''" Main_waiting]
    by (auto simp: delay_inv_def main_says_def)
next
  case Main_waiting
  then show ?thesis using assms awaiting_says [of "[''after first resume'']" s "''waiting in main''" Main_poll]
    by (auto simp: delay_inv_def main_says_def)
next
  case Main_poll
  then show ?thesis using assms
    by (cases "de_thread (cm_env (ds_memory s))")
      (auto simp: delay_inv_def moved_def simple_task_done_def handle_done_def awaiting_def)
next
  case Main_report
  then show ?thesis using assms
    by (auto simp: delay_inv_def moved_def simple_task_done_def handle_done_def awaiting_def main_says_def
        simple_task_destroy_def frame_destroy_def on_env_def delay_say_def bool_text_def)
qed (use assms in simp)

lemma delay_thread_inv:
  assumes "delay_inv s" and "delay_thread_step (de_thread (cm_env (ds_memory s))) s = Moved s'"
  shows "delay_inv s'"
proof -
  from assms have "\<exists>shown. awaiting shown s \<and> ds_main s \<in> {Main_resumed, Main_waiting, Main_poll} \<and>
      (\<forall>s'. ds_main s' = ds_main s \<longrightarrow> awaiting shown s' \<longrightarrow> delay_inv s')"
    by (cases "ds_main s") (auto simp: delay_inv_def delay_start_def no_coroutines_def)
  with awaiting_thread assms(2) show ?thesis by blast
qed

lemma delay_run_inv: "delay_run ts s = Some s' \<Longrightarrow> delay_inv s \<Longrightarrow> delay_inv s'"
proof (induction ts arbitrary: s)
  case (Cons t ts)
  show ?case
  proof (cases "delay_step t s")
    case (Moved s1)
    then have "delay_inv s1"
      using delay_main_inv [OF Cons.prems(2)] delay_thread_inv [OF Cons.prems(2)]
      by (simp add: delay_step_def split: if_splits)
    with Moved Cons show ?thesis by simp
  qed (use Cons in simp_all)
qed simp

text \<open>
  However the threads interleave, when \<open>main\<close> ends the coroutine has ended, its frame is destroyed and
  the only freedom in the output is where the coroutine's last line stands.
\<close>

lemma delay_demo_prints:
  assumes "delay_run ts delay_start = Some s" and "ds_main s = Main_end"
  shows "\<exists>before behind. before @ behind = [''after first resume'', ''waiting in main''] \<and>
    de_out (cm_env (ds_memory s)) =
      text_lines (delay_opening @ before @ [''after delay co_await''] @ behind @ [''done=true'']) \<and>
    cm_frames (ds_memory s) = Map.empty \<and> de_thread (cm_env (ds_memory s)) = Thread_end"
proof -
  have "delay_inv s" using delay_run_inv [OF assms(1)] by (simp add: delay_inv_def delay_start_def)
  with assms(2) obtain before behind where "before @ behind = [''after first resume'', ''waiting in main'']"
    and "de_out (cm_env (ds_memory s)) =
      text_lines (delay_opening @ before @ [''after delay co_await''] @ behind) @ text_lines [''done=true'']"
    and "cm_frames (ds_memory s) = Map.empty" "de_thread (cm_env (ds_memory s)) = Thread_end"
    by (auto simp: delay_inv_def coroutine_over_def simp del: text_lines_simps)
  then show ?thesis by (intro exI [where x = before] exI [where x = behind]) simp
qed

text \<open>
  The poll of \<open>main\<close> asks \<open>done()\<close> of a coroutine that the other thread may be running, which C++
  leaves undefined: waking the thread just before the poll is such a schedule.
\<close>

lemma delay_demo_races: "delay_run [True, True, True, True, False, True] delay_start = None"
  by (simp add: delay_step_def delay_start_def coroutine_steps moved_def main_says_def wait_for_delay_def
      delay_await_suspend_def delay_say_def set_thread_def)

lemma delay_demo_ends:
  "\<exists>s. delay_run [True, True, True, True, True, False, False, True, True] delay_start = Some s \<and> ds_main s = Main_end"
  by (simp add: delay_step_def delay_start_def coroutine_steps moved_def main_says_def wait_for_delay_def
      delay_await_suspend_def delay_say_def set_thread_def)

end
