(* ===== verification/Stage_Demos.thy ===== *)
theory Stage_Demos
  imports Pipelines Buffer_Pool Spsc_Queue Serial_Reference Benchmark_Report Command_Line
begin

text \<open>
  The small programs of \<open>examples/\<close> and what they use: \<open>util::Timer\<close> (\<open>src/util/timer.cpp\<close>), the
  synchronous baseline's program (\<open>stage2_sync_preprocess_demo.cpp\<close>), a pipeline with a user-defined
  stage (\<open>stage7_custom_stage_demo.cpp\<close>) and backpressure between two threads
  (\<open>stage8_backpressure_demo.cpp\<close>).
\<close>

section \<open>Timer\<close>

text \<open>The steady clock is an argument, in nanoseconds; the milliseconds are a function to \<open>double\<close>.\<close>

record timer =
  timer_start :: int

definition timer_new :: "int \<Rightarrow> timer" where
  "timer_new now = \<lparr>timer_start = now\<rparr>"

definition timer_reset :: "int \<Rightarrow> timer \<Rightarrow> timer" where
  "timer_reset now t = t\<lparr>timer_start := now\<rparr>"

definition elapsed_ns :: "int \<Rightarrow> timer \<Rightarrow> u64" where
  "elapsed_ns now t = word_of_int (now - timer_start t)"

definition elapsed_ms :: "(int \<Rightarrow> 'd) \<Rightarrow> int \<Rightarrow> timer \<Rightarrow> 'd" where
  "elapsed_ms to_milliseconds now t = to_milliseconds (now - timer_start t)"

lemma elapsed_ns_exact:
  assumes "start \<le> now" and "now - start < 2 ^ 64"
  shows "uint (elapsed_ns now (timer_new start)) = now - start"
    and "elapsed_ns now (timer_reset start t) = elapsed_ns now (timer_new start)"
  using assms by (simp_all add: elapsed_ns_def timer_new_def timer_reset_def uint_word_of_int del: of_int_diff)

section \<open>stage2_sync_preprocess_demo\<close>

text \<open>\<open>std::stoull\<close> in base ten: blanks, a sign, digits, and whatever follows is ignored.\<close>

datatype conversion_error = Conversion_invalid | Conversion_out_of_range

definition is_blank :: "char \<Rightarrow> bool" where
  "is_blank c \<longleftrightarrow> (of_char c :: nat) \<in> {9, 10, 11, 12, 13, 32}"

definition split_sign :: "string \<Rightarrow> bool \<times> string" where
  "split_sign t =
     (case t of
        [] \<Rightarrow> (False, [])
      | c # rest \<Rightarrow> if c = CHR ''-'' then (True, rest) else if c = CHR ''+'' then (False, rest) else (False, t))"

definition stoull :: "string \<Rightarrow> conversion_error + u64" where
  "stoull t =
     (case split_sign (dropWhile is_blank t) of (negative, body) \<Rightarrow>
        let digits = takeWhile is_digit body in
        if digits = [] then Inl Conversion_invalid
        else if 2 ^ 64 \<le> read_decimal digits then Inl Conversion_out_of_range
        else Inr (if negative then - of_nat (read_decimal digits) else of_nat (read_decimal digits)))"

text \<open>The exit code and the two texts; \<open>Inl\<close> is the exception of \<open>stoull\<close>, which nothing catches.\<close>

definition stage2_main ::
  "'w posix_calls \<Rightarrow> (string \<Rightarrow> 'w \<Rightarrow> syscall_result \<times> 'w) \<Rightarrow> (int \<Rightarrow> 'w \<Rightarrow> 'w) \<Rightarrow> (int \<Rightarrow> string) \<Rightarrow>
   'd statistic_ops \<Rightarrow> 'd \<Rightarrow> string list \<Rightarrow> 'w \<Rightarrow> ((conversion_error + (int \<times> string \<times> string)) \<times> 'w) option" where
  "stage2_main sys open_truncated close_fd strerror ops elapsed argv w =
     (if length argv \<noteq> 4 then
        Some (Inr (1, [], ''usage: stage2_sync_preprocess_demo <input> <output> <block_size>'' @ lf), w)
      else
        (case stoull (argv ! 3) of
           Inl e \<Rightarrow> Some (Inl e, w)
         | Inr n \<Rightarrow>
             (case run_sync_preprocess_baseline sys open_truncated close_fd
                     \<lparr>spc_input_path = Some (argv ! 1), spc_output_path = Some (argv ! 2), spc_block_size = n\<rparr> w of
                None \<Rightarrow> None
              | Some (result, w') \<Rightarrow>
                  if spp_error_number result \<noteq> 0 then
                    Some (Inr (1, [], ''error: '' @ strerror (spp_error_number result) @ lf), w')
                  else
                    Some (Inr (0, ''bytes_read='' @ u64_text (spp_bytes_read result) @
                                  '' bytes_written='' @ u64_text (spp_bytes_written result) @
                                  '' elapsed_ms='' @ d_general ops 6 elapsed @ lf, []), w'))))"

lemma stoull_decimal: "stoull (decimal (unat n)) = Inr n"
proof -
  have digits: "list_all is_digit (decimal (unat n))" by (rule is_digit_decimal)
  moreover have "decimal (unat n) \<noteq> []" by (subst decimal.simps) simp
  ultimately obtain c rest where c: "decimal (unat n) = c # rest" "is_digit c" by (cases "decimal (unat n)") auto
  from c(2) have "\<not> is_blank c" "c \<noteq> CHR ''-''" "c \<noteq> CHR ''+''" by (auto simp: is_digit_def is_blank_def)
  with c(1) have sign: "split_sign (dropWhile is_blank (decimal (unat n))) = (False, decimal (unat n))"
    by (simp add: split_sign_def)
  have digits': "takeWhile is_digit (decimal (unat n)) = decimal (unat n)"
    using digits by (simp add: takeWhile_eq_all_conv list_all_iff)
  have "decimal (unat n) \<noteq> []" using c(1) by simp
  moreover have "unat n < 2 ^ 64" by (rule order_less_le_trans [OF unsigned_less]) simp
  ultimately show ?thesis unfolding stoull_def by (simp add: sign Let_def digits' read_decimal_decimal)
qed

section \<open>stage7_custom_stage_demo\<close>

record affine_stage =
  as_multiplier :: uint
  as_offset :: uint

definition affine_process :: "affine_stage \<Rightarrow> byte list \<Rightarrow> byte list" where
  "affine_process stage block =
     map (\<lambda>value. let input = ucast value :: uint;
                      output = (input * as_multiplier stage + as_offset stage) AND 0xFF in ucast output) block"

definition affine_stages :: "affine_stage user_stages" where
  "affine_stages =
     \<lparr>user_name = \<lambda>_. ''custom_affine'', user_process = \<lambda>stage block. (None, stage, affine_process stage block)\<rparr>"

definition print_block :: "string \<Rightarrow> byte list \<Rightarrow> string" where
  "print_block label block =
     label @ ''='' @
     concat (map (\<lambda>index. (if index \<noteq> 0 then '','' else []) @ decimal (unat (block ! index))) [0..<length block]) @ lf"

text \<open>What \<open>main\<close> prints, or the exception that leaves it.\<close>

definition custom_stage_main :: "string res" where
  "custom_stage_main =
     (let block = [1, 2, 3] :: byte list; custom_stage = UserStage \<lparr>as_multiplier = 2, as_offset = 1\<rparr> in
      case add_stage affine_stages (Some custom_stage) pipeline_new registry_new of
        (Inl e, _) \<Rightarrow> Inl e
      | (Inr _, pipeline, r) \<Rightarrow>
          (case pipeline_process affine_stages (\<lambda>_. 0) pipeline r block of
             (Some e, _) \<Rightarrow> Inl e
           | (None, pipeline', r', out) \<Rightarrow>
               Inr (print_block ''input'' block @
                    key_value ''registered_stage'' (stage_name affine_stages custom_stage) @
                    key_value ''stage_count'' (decimal (stage_count pipeline)) @ print_block ''output'' out)))"

lemma affine_process_bytes:
  "affine_process stage block = map (\<lambda>v. v * ucast (as_multiplier stage) + ucast (as_offset stage)) block"
proof -
  have mask: "(0xFF :: uint) = mask 8" by (simp add: mask_eq_exp_minus_1)
  have byte: "ucast (x AND 0xFF) = (ucast x :: byte)" for x :: uint
    unfolding mask take_bit_eq_mask [symmetric] by (rule bit_word_eqI) (simp add: bit_simps)
  have "ucast (ucast v * m + b) = v * ucast m + (ucast b :: byte)" for v :: byte and m b :: uint
  proof -
    have "unat (ucast (ucast v * m + b) :: byte) = unat (v * ucast m + (ucast b :: byte))"
      by (simp add: unat_byte_uint unat_word_ariths mod_simps mod_mod_cancel)
    then show ?thesis by (simp add: word_unat_eq_iff)
  qed
  then show ?thesis by (simp add: affine_process_def Let_def byte)
qed

lemma decimal_digit_one:
  "decimal 1 = ''1''" "decimal (Suc 0) = ''1''" "decimal 2 = ''2''" "decimal 3 = ''3''" "decimal 5 = ''5''" "decimal 7 = ''7''"
  by code_simp+

lemma custom_stage_main_prints:
  "custom_stage_main = Inr (''input=1,2,3'' @ lf @ ''registered_stage=custom_affine'' @ lf @ ''stage_count=1'' @ lf @
     ''output=3,5,7'' @ lf)"
  by (simp add: custom_stage_main_def add_stage_def pipeline_new_def pipeline_process_def affine_stages_def
      affine_process_bytes print_block_def key_value_def stage_count_def store_prefix_def decimal_digit_one upt_rec)

end
