(* ===== verification/Backpressure.thy ===== *)
theory Backpressure
  imports Buffer_Pool Spsc_Queue Reporter
begin

text \<open>
  \<open>examples/stage8_backpressure_demo.cpp\<close>: a producer thread leases both buffers of a pool and pushes
  their handles into a queue with one slot, which \<open>main\<close> empties. The threads interleave at the calls
  of the pool, the queue, the promises and the future; a call that waits is a step that the thread
  cannot take yet.
\<close>

section \<open>Threads\<close>

definition demo_config :: pipeline_config where
  "demo_config = \<lparr>block_size = 4096, max_inflight_buffers = 2, queue_depth = 1, buffer_alignment = 4096\<rparr>"

datatype producer_pc =
    Acquire_first | Push_first buffer_handle | Signal_first
  | Acquire_second | Signal_second buffer_handle | Push_second buffer_handle
  | Producer_done | Producer_threw exn

datatype consumer_pc =
    Wait_first_queued | Wait_second_started | Observe
  | Pop_first | Read_first buffer_handle | Join
  | Pop_second | Read_second buffer_handle | Check
  | Leave int string string | Exited int string string | Main_threw exn

record bp_state =
  bp_pool :: buffer_pool
  bp_queue :: "buffer_handle spsc_queue"
  bp_first_queued :: bool
  bp_second_push_started :: bool
  bp_producer :: producer_pc
  bp_main :: consumer_pc
  bp_observed :: bool
  bp_first_marker :: "32 word"
  bp_second_marker :: "32 word"

definition bp_start :: "buffer_pool \<Rightarrow> buffer_handle spsc_queue \<Rightarrow> bp_state" where
  "bp_start p q =
     \<lparr>bp_pool = p, bp_queue = q, bp_first_queued = False, bp_second_push_started = False,
      bp_producer = Acquire_first, bp_main = Wait_first_queued, bp_observed = False,
      bp_first_marker = 0, bp_second_marker = 0\<rparr>"

definition producer_finished :: "bp_state \<Rightarrow> bool" where
  "producer_finished s \<longleftrightarrow> (case bp_producer s of Producer_done \<Rightarrow> True | Producer_threw _ \<Rightarrow> True | _ \<Rightarrow> False)"

text \<open>A lease with its first byte written.\<close>

definition producer_acquire :: "byte \<Rightarrow> (buffer_handle \<Rightarrow> producer_pc) \<Rightarrow> bp_state \<Rightarrow> bp_state option" where
  "producer_acquire marker then_at s =
     (case pool_acquire (bp_pool s) of
        None \<Rightarrow> None
      | Some (h, p) \<Rightarrow> Some (s\<lparr>bp_pool := handle_store h [marker] p, bp_producer := then_at h\<rparr>))"

text \<open>A push takes the handle by value: it releases the lease unless the queue took it.\<close>

definition producer_push :: "string \<Rightarrow> producer_pc \<Rightarrow> buffer_handle \<Rightarrow> bp_state \<Rightarrow> bp_state option" where
  "producer_push rejected then_at h s =
     (case spsc_push h (bp_queue s) of
        (Push_waits, _) \<Rightarrow> None
      | (Push_ok, q) \<Rightarrow> Some (s\<lparr>bp_queue := q, bp_producer := then_at\<rparr>)
      | (Push_rejected, q) \<Rightarrow>
          Some (s\<lparr>bp_queue := q, bp_pool := handle_destroy h (bp_pool s),
                  bp_producer := Producer_threw (Runtime_error rejected)\<rparr>)
      | (Push_throws e, q) \<Rightarrow>
          Some (s\<lparr>bp_queue := q, bp_pool := handle_destroy h (bp_pool s), bp_producer := Producer_threw e\<rparr>))"

definition producer_step :: "bp_state \<Rightarrow> bp_state option" where
  "producer_step s =
     (case bp_producer s of
        Acquire_first \<Rightarrow> producer_acquire 1 Push_first s
      | Push_first h \<Rightarrow> producer_push ''queue closed during first push'' Signal_first h s
      | Signal_first \<Rightarrow> Some (s\<lparr>bp_first_queued := True, bp_producer := Acquire_second\<rparr>)
      | Acquire_second \<Rightarrow> producer_acquire 2 Signal_second s
      | Signal_second h \<Rightarrow> Some (s\<lparr>bp_second_push_started := True, bp_producer := Push_second h\<rparr>)
      | Push_second h \<Rightarrow> producer_push ''queue closed during second push'' Producer_done h s
      | Producer_done \<Rightarrow> None
      | Producer_threw e \<Rightarrow> None)"

definition pop_marker :: "string \<Rightarrow> (buffer_handle \<Rightarrow> consumer_pc) \<Rightarrow> bp_state \<Rightarrow> bp_state option" where
  "pop_marker ended then_at s =
     (case spsc_pop (bp_queue s) of
        (Pop_waits, _) \<Rightarrow> None
      | (Pop_throws e, q) \<Rightarrow> Some (s\<lparr>bp_queue := q, bp_main := Main_threw e\<rparr>)
      | (Pop_end, q) \<Rightarrow> Some (s\<lparr>bp_queue := q, bp_main := Leave 1 [] (ended @ lf)\<rparr>)
      | (Pop_value h, q) \<Rightarrow> Some (s\<lparr>bp_queue := q, bp_main := then_at h\<rparr>))"

definition front_marker :: "buffer_handle \<Rightarrow> bp_state \<Rightarrow> 32 word" where
  "front_marker h s = ucast (hd (handle_bytes h (bp_pool s)))"

definition bp_output :: "bp_state \<Rightarrow> string" where
  "bp_output s =
     key_value ''pool_capacity'' (decimal (pool_capacity (bp_pool s))) @
     key_value ''queue_capacity'' (decimal (spsc_capacity (bp_queue s))) @
     key_value ''producer_blocked_while_queue_full'' (if bp_observed s then ''true'' else ''false'') @
     key_value ''consumed_markers'' (decimal (unat (bp_first_marker s)) @ '','' @ decimal (unat (bp_second_marker s))) @
     key_value ''buffers_returned'' (decimal (pool_available (bp_pool s)))"

text \<open>
  \<open>wait_for\<close> times out exactly when the producer has not finished at its end. Leaving \<open>main\<close> destroys
  the future, which waits for the thread.
\<close>

definition consumer_step :: "bp_state \<Rightarrow> bp_state option" where
  "consumer_step s =
     (case bp_main s of
        Wait_first_queued \<Rightarrow> if bp_first_queued s then Some (s\<lparr>bp_main := Wait_second_started\<rparr>) else None
      | Wait_second_started \<Rightarrow> if bp_second_push_started s then Some (s\<lparr>bp_main := Observe\<rparr>) else None
      | Observe \<Rightarrow> Some (s\<lparr>bp_observed := \<not> producer_finished s, bp_main := Pop_first\<rparr>)
      | Pop_first \<Rightarrow> pop_marker ''queue closed before first marker'' Read_first s
      | Read_first h \<Rightarrow>
          Some (s\<lparr>bp_first_marker := front_marker h s, bp_pool := handle_destroy h (bp_pool s), bp_main := Join\<rparr>)
      | Join \<Rightarrow>
          (case bp_producer s of
             Producer_done \<Rightarrow> Some (s\<lparr>bp_main := Pop_second\<rparr>)
           | Producer_threw e \<Rightarrow> Some (s\<lparr>bp_main := Main_threw e\<rparr>)
           | _ \<Rightarrow> None)
      | Pop_second \<Rightarrow> pop_marker ''queue closed before second marker'' Read_second s
      | Read_second h \<Rightarrow>
          Some (s\<lparr>bp_second_marker := front_marker h s, bp_pool := handle_destroy h (bp_pool s), bp_main := Check\<rparr>)
      | Check \<Rightarrow>
          Some (s\<lparr>bp_main :=
            (if \<not> bp_observed s \<or> bp_first_marker s \<noteq> 1 \<or> bp_second_marker s \<noteq> 2 \<or>
                pool_available (bp_pool s) \<noteq> pool_capacity (bp_pool s)
             then Leave 1 (bp_output s) (''backpressure demo invariant failed'' @ lf)
             else Leave 0 (bp_output s) [])\<rparr>)
      | Leave code out err \<Rightarrow> if producer_finished s then Some (s\<lparr>bp_main := Exited code out err\<rparr>) else None
      | Exited code out err \<Rightarrow> None
      | Main_threw e \<Rightarrow> None)"

text \<open>A schedule names the thread that moves, true for the producer; a thread that waits does not move.\<close>

definition bp_step :: "bool \<Rightarrow> bp_state \<Rightarrow> bp_state option" where
  "bp_step by_producer s = (if by_producer then producer_step s else consumer_step s)"

fun bp_run :: "bool list \<Rightarrow> bp_state \<Rightarrow> bp_state" where
  "bp_run [] s = s"
| "bp_run (t # ts) s = bp_run ts (case bp_step t s of None \<Rightarrow> s | Some s' \<Rightarrow> s')"

section \<open>All interleavings\<close>

text \<open>The four states of the pool and the three of the queue.\<close>

definition lease :: "nat \<Rightarrow> buffer_handle" where
  "lease i = \<lparr>bh_pool = True, bh_index = i\<rparr>"

definition marked :: "nat \<Rightarrow> byte \<Rightarrow> buffer_pool \<Rightarrow> buffer_pool" where
  "marked i marker p = handle_store (lease i) [marker] (snd (take_available_locked p))"

definition one_slot :: "buffer_handle option \<Rightarrow> buffer_handle spsc_queue" where
  "one_slot h = \<lparr>q_slots = [h], q_head = 0, q_tail = 0, q_size = (if h = None then 0 else 1), q_state = Queue_open,
     q_failure = None, q_depth_metric = None\<rparr>"

lemma one_slot_push: "spsc_push v (one_slot h) = (if h = None then (Push_ok, one_slot (Some v)) else (Push_waits, one_slot h))"
  by (simp add: spsc_push_def one_slot_def next_index_def)

lemma one_slot_pop:
  "spsc_pop (one_slot h) = (case h of None \<Rightarrow> (Pop_waits, one_slot None) | Some v \<Rightarrow> (Pop_value v, one_slot None))"
  by (simp add: spsc_pop_def one_slot_def next_index_def split: option.splits)

lemma one_slot_capacity: "spsc_capacity (one_slot h) = 1"
  by (simp add: spsc_capacity_def one_slot_def)

lemma one_slot_inject [simp]: "one_slot h = one_slot k \<longleftrightarrow> h = k"
  by (auto simp: one_slot_def)

lemma spsc_new_one: "spsc_new z 1 = Inr q \<Longrightarrow> q = one_slot None"
  by (simp add: spsc_new_def one_slot_def split: if_splits)

definition two_buffers :: "buffer_pool \<Rightarrow> bool" where
  "two_buffers p \<longleftrightarrow>
     available_indices p = [1, 0] \<and> pool_capacity p = 2 \<and> (\<forall>b \<in> set (buffers p). ab_bytes b \<noteq> [])"

lemma pool_new_two:
  assumes "memalign_contract al" and "pool_new al demo_config m = (Inr p, m')"
  shows "two_buffers p"
proof -
  note facts = pool_new_Inr [OF assms]
  have "pool_capacity p = 2" using facts(3) by (simp add: demo_config_def)
  moreover have "available_indices p = [1, 0]" using facts(7) \<open>pool_capacity p = 2\<close> by (simp add: upt_rec)
  moreover have "ab_bytes b \<noteq> []" if "b \<in> set (buffers p)" for b
    using facts(6) that by (auto simp: buffer_wf_def)
  ultimately show ?thesis by (simp add: two_buffers_def)
qed

lemma store_prefix_front: "bs \<noteq> [] \<Longrightarrow> store_prefix [x] bs = x # tl bs"
  by (cases bs) (simp_all add: store_prefix_def)

text \<open>What the stages of the run do to the pool: both leases, the two markers, both returned.\<close>

lemma pool_stages:
  assumes "two_buffers p"
  defines "p1 \<equiv> marked 0 1 p"
  defines "p2 \<equiv> marked 1 2 p1"
  defines "p3 \<equiv> handle_destroy (lease 0) p2"
  defines "p4 \<equiv> handle_destroy (lease 1) p3"
  shows "pool_acquire p = Some (lease 0, snd (take_available_locked p))"
    and "pool_acquire p1 = Some (lease 1, snd (take_available_locked p1))"
    and "hd (handle_bytes (lease 0) p2) = 1" and "hd (handle_bytes (lease 1) p3) = 2"
    and "pool_available p4 = 2" and "pool_capacity p4 = 2"
proof -
  from assms(1) obtain b0 b1 where b: "buffers p = [b0, b1]" "ab_bytes b0 \<noteq> []" "ab_bytes b1 \<noteq> []"
    and av: "available_indices p = [1, 0]"
    by (auto simp: two_buffers_def pool_capacity_def numeral_2_eq_2 length_Suc_conv)
  note defs = p1_def p2_def p3_def p4_def marked_def lease_def take_available_locked_def handle_store_def
    handle_valid_def buffer_at_def handle_destroy_def handle_release_def pool_release_def Let_def
  show "pool_acquire p = Some (lease 0, snd (take_available_locked p))"
    by (simp add: pool_acquire_def av lease_def take_available_locked_def)
  show "pool_acquire p1 = Some (lease 1, snd (take_available_locked p1))"
    by (simp add: defs pool_acquire_def av)
  show "hd (handle_bytes (lease 0) p2) = 1"
    by (simp add: defs handle_bytes_def av b store_prefix_front)
  show "hd (handle_bytes (lease 1) p3) = 2"
    by (simp add: defs handle_bytes_def av b store_prefix_front)
  show "pool_available p4 = 2" "pool_capacity p4 = 2"
    by (simp_all add: defs pool_available_def pool_capacity_def av b)
qed

definition bp_expected :: string where
  "bp_expected =
     key_value ''pool_capacity'' ''2'' @ key_value ''queue_capacity'' ''1'' @
     key_value ''producer_blocked_while_queue_full'' ''true'' @ key_value ''consumed_markers'' ''1,2'' @
     key_value ''buffers_returned'' ''2''"

definition producing :: "buffer_pool \<Rightarrow> bp_state \<Rightarrow> bool" where
  "producing p s \<longleftrightarrow>
     (case bp_producer s of
        Acquire_first \<Rightarrow> bp_pool s = p \<and> bp_queue s = one_slot None \<and> \<not> bp_first_queued s \<and> \<not> bp_second_push_started s
      | Push_first h \<Rightarrow> h = lease 0 \<and> bp_pool s = marked 0 1 p \<and> bp_queue s = one_slot None \<and>
          \<not> bp_first_queued s \<and> \<not> bp_second_push_started s
      | Signal_first \<Rightarrow> bp_pool s = marked 0 1 p \<and> bp_queue s = one_slot (Some (lease 0)) \<and>
          \<not> bp_first_queued s \<and> \<not> bp_second_push_started s
      | Acquire_second \<Rightarrow> bp_pool s = marked 0 1 p \<and> bp_queue s = one_slot (Some (lease 0)) \<and>
          bp_first_queued s \<and> \<not> bp_second_push_started s
      | Signal_second h \<Rightarrow> h = lease 1 \<and> bp_pool s = marked 1 2 (marked 0 1 p) \<and>
          bp_queue s = one_slot (Some (lease 0)) \<and> bp_first_queued s \<and> \<not> bp_second_push_started s
      | Push_second h \<Rightarrow> h = lease 1 \<and> bp_pool s = marked 1 2 (marked 0 1 p) \<and>
          bp_queue s = one_slot (Some (lease 0)) \<and> bp_first_queued s \<and> bp_second_push_started s
      | Producer_done \<Rightarrow> False
      | Producer_threw e \<Rightarrow> False)"

definition pushing_second :: "bp_state \<Rightarrow> bool" where
  "pushing_second s \<longleftrightarrow>
     bp_producer s = Push_second (lease 1) \<and> bp_queue s = one_slot None \<or>
     bp_producer s = Producer_done \<and> bp_queue s = one_slot (Some (lease 1))"

definition bp_inv :: "buffer_pool \<Rightarrow> bp_state \<Rightarrow> bool" where
  "bp_inv p s \<longleftrightarrow>
     (let p2 = marked 1 2 (marked 0 1 p); p3 = handle_destroy (lease 0) p2 in
      case bp_main s of
        Wait_first_queued \<Rightarrow> producing p s
      | Wait_second_started \<Rightarrow> producing p s \<and> bp_first_queued s
      | Observe \<Rightarrow> producing p s \<and> bp_second_push_started s
      | Pop_first \<Rightarrow> producing p s \<and> bp_second_push_started s \<and> bp_observed s
      | Read_first h \<Rightarrow> h = lease 0 \<and> bp_pool s = p2 \<and> pushing_second s \<and> bp_observed s
      | Join \<Rightarrow> bp_pool s = p3 \<and> pushing_second s \<and> bp_observed s \<and> bp_first_marker s = 1
      | Pop_second \<Rightarrow> bp_pool s = p3 \<and> bp_producer s = Producer_done \<and> bp_queue s = one_slot (Some (lease 1)) \<and>
          bp_observed s \<and> bp_first_marker s = 1
      | Read_second h \<Rightarrow> h = lease 1 \<and> bp_pool s = p3 \<and> bp_producer s = Producer_done \<and> bp_queue s = one_slot None \<and>
          bp_observed s \<and> bp_first_marker s = 1
      | Check \<Rightarrow> bp_pool s = handle_destroy (lease 1) p3 \<and> bp_producer s = Producer_done \<and> bp_queue s = one_slot None \<and>
          bp_observed s \<and> bp_first_marker s = 1 \<and> bp_second_marker s = 2
      | Leave code out err \<Rightarrow> code = 0 \<and> out = bp_expected \<and> err = [] \<and> bp_producer s = Producer_done
      | Exited code out err \<Rightarrow> code = 0 \<and> out = bp_expected \<and> err = [] \<and> bp_producer s = Producer_done
      | Main_threw e \<Rightarrow> False)"

lemma producing_main [simp]:
  "producing p (s\<lparr>bp_main := c\<rparr>) = producing p s" "producing p (s\<lparr>bp_observed := b\<rparr>) = producing p s"
  by (cases "bp_producer s"; simp add: producing_def)+

lemma handle_store_marked: "handle_store (lease i) [x] (snd (take_available_locked p)) = marked i x p"
  by (simp add: marked_def)

lemma producer_step_producing:
  assumes two: "two_buffers p" and "producing p s" and "producer_step s = Some s'"
  shows "producing p s' \<and> bp_main s' = bp_main s \<and> bp_observed s' = bp_observed s \<and>
    (bp_first_queued s \<longrightarrow> bp_first_queued s') \<and> (bp_second_push_started s \<longrightarrow> bp_second_push_started s')"
  using assms(2,3) pool_stages(1,2) [OF two]
  by (cases "bp_producer s")
    (auto simp: producing_def producer_step_def producer_acquire_def producer_push_def one_slot_push handle_store_marked)

lemma bp_inv_producing:
  assumes "bp_inv p s" and "producing p s"
  shows "bp_main s \<in> {Wait_first_queued, Wait_second_started, Observe, Pop_first}"
  using assms
  by (cases "bp_main s"; cases "bp_producer s") (simp_all add: bp_inv_def Let_def producing_def pushing_second_def)

lemma producer_step_inv:
  assumes two: "two_buffers p" and inv: "bp_inv p s" and step: "producer_step s = Some s'"
  shows "bp_inv p s'"
proof (cases "producing p s")
  case True
  have "bp_main s' = bp_main s" using producer_step_producing [OF two True step] by blast
  with producer_step_producing [OF two True step] inv True bp_inv_producing [OF inv True] show ?thesis
    by (auto simp: bp_inv_def Let_def)
next
  case False
  then show ?thesis using inv step
    by (cases "bp_main s")
      (auto simp: bp_inv_def Let_def pushing_second_def producer_step_def producer_push_def one_slot_push)
qed

lemma bp_check_output:
  assumes "two_buffers p" and "bp_inv p s" and "bp_main s = Check"
  shows "consumer_step s = Some (s\<lparr>bp_main := Leave 0 bp_expected []\<rparr>)"
proof -
  have pool: "pool_available (bp_pool s) = 2" "pool_capacity (bp_pool s) = 2"
    using assms(2,3) pool_stages(5,6) [OF assms(1)] by (simp_all add: bp_inv_def Let_def)
  have rest: "bp_observed s" "bp_first_marker s = 1" "bp_second_marker s = 2" "bp_queue s = one_slot None"
    using assms(2,3) by (simp_all add: bp_inv_def Let_def)
  have "decimal 1 = ''1''" "decimal 2 = ''2''" by code_simp+
  then show ?thesis
    by (simp add: consumer_step_def assms(3) pool rest bp_output_def bp_expected_def one_slot_capacity)
qed

lemma consumer_step_inv:
  assumes two: "two_buffers p" and inv: "bp_inv p s" and step: "consumer_step s = Some s'"
  shows "bp_inv p s'"
proof (cases "bp_main s")
  case Pop_first
  then show ?thesis using inv step
    by (cases "bp_producer s")
      (auto simp: consumer_step_def pop_marker_def bp_inv_def Let_def producing_def pushing_second_def one_slot_pop)
next
  case Observe
  then show ?thesis using inv step
    by (cases "bp_producer s") (auto simp: consumer_step_def bp_inv_def Let_def producing_def producer_finished_def)
next
  case Check
  with bp_check_output [OF two inv] step inv show ?thesis by (auto simp: bp_inv_def Let_def)
next
  case (Read_first h)
  then show ?thesis using inv step pool_stages(3) [OF two]
    by (auto simp: consumer_step_def bp_inv_def Let_def front_marker_def pushing_second_def)
next
  case (Read_second h)
  then show ?thesis using inv step pool_stages(4) [OF two]
    by (auto simp: consumer_step_def bp_inv_def Let_def front_marker_def)
qed (use inv step in \<open>auto simp: consumer_step_def bp_inv_def Let_def pushing_second_def pop_marker_def
  one_slot_pop split: if_splits\<close>)

lemma bp_run_inv: "two_buffers p \<Longrightarrow> bp_inv p s \<Longrightarrow> bp_inv p (bp_run ts s)"
proof (induction ts arbitrary: s)
  case (Cons t ts)
  have "bp_inv p s'" if "bp_step t s = Some s'" for s'
    using that producer_step_inv [OF Cons.prems] consumer_step_inv [OF Cons.prems]
    by (simp add: bp_step_def split: if_splits)
  with Cons show ?case by (simp split: option.splits)
qed simp

section \<open>Progress\<close>

fun producer_rank :: "producer_pc \<Rightarrow> nat" where
  "producer_rank Acquire_first = 6"
| "producer_rank (Push_first h) = 5"
| "producer_rank Signal_first = 4"
| "producer_rank Acquire_second = 3"
| "producer_rank (Signal_second h) = 2"
| "producer_rank (Push_second h) = 1"
| "producer_rank Producer_done = 0"
| "producer_rank (Producer_threw e) = 0"

fun consumer_rank :: "consumer_pc \<Rightarrow> nat" where
  "consumer_rank Wait_first_queued = 10"
| "consumer_rank Wait_second_started = 9"
| "consumer_rank Observe = 8"
| "consumer_rank Pop_first = 7"
| "consumer_rank (Read_first h) = 6"
| "consumer_rank Join = 5"
| "consumer_rank Pop_second = 4"
| "consumer_rank (Read_second h) = 3"
| "consumer_rank Check = 2"
| "consumer_rank (Leave code out err) = 1"
| "consumer_rank (Exited code out err) = 0"
| "consumer_rank (Main_threw e) = 0"

definition bp_rank :: "bp_state \<Rightarrow> nat" where
  "bp_rank s = producer_rank (bp_producer s) + consumer_rank (bp_main s)"

lemma bp_step_rank: "bp_step t s = Some s' \<Longrightarrow> bp_rank s' < bp_rank s"
  by (cases t; cases "bp_producer s"; cases "bp_main s")
    (auto simp: bp_step_def producer_step_def consumer_step_def bp_rank_def producer_acquire_def producer_push_def
      pop_marker_def split: option.splits prod.splits push_result.splits pop_result.splits if_splits)

lemma producer_moves:
  assumes "two_buffers p" and "producing p s" and "bp_producer s \<noteq> Push_second (lease 1)"
  shows "\<exists>s'. producer_step s = Some s'"
  using assms(2,3) pool_stages(1,2) [OF assms(1)]
  by (cases "bp_producer s") (auto simp: producing_def producer_step_def producer_acquire_def producer_push_def one_slot_push)

lemma producing_second: "producing p s \<Longrightarrow> bp_producer s = Push_second (lease 1) \<Longrightarrow>
    bp_first_queued s \<and> bp_second_push_started s \<and> bp_queue s = one_slot (Some (lease 0))"
  by (simp add: producing_def)

lemma bp_progress:
  assumes two: "two_buffers p" and inv: "bp_inv p s" and "bp_main s \<noteq> Exited 0 bp_expected []"
  shows "\<exists>t s'. bp_step t s = Some s'"
proof (cases "producing p s \<and> bp_producer s \<noteq> Push_second (lease 1)")
  case True
  then obtain s' where "producer_step s = Some s'" using producer_moves [OF two] by blast
  then show ?thesis by (intro exI [where x = True] exI [where x = s']) (simp add: bp_step_def)
next
  case False
  have "\<exists>s'. producer_step s = Some s' \<or> consumer_step s = Some s'"
    using False inv assms(3) producing_second [of p s]
    by (cases "bp_main s")
      (auto simp: bp_inv_def Let_def consumer_step_def producer_step_def pop_marker_def producer_push_def
        one_slot_pop one_slot_push pushing_second_def producer_finished_def)
  then obtain s' t where "bp_step t s = Some s'"
    unfolding bp_step_def by (metis (full_types))
  then show ?thesis by blast
qed

section \<open>Property\<close>

text \<open>
  C30: Backpressure holds and the program ends well under every interleaving. Whatever schedule the two
  threads follow, \<open>main\<close> never dies of an exception; if it has exited, then with code 0 and the one
  expected output (the producer was seen blocked on the full queue, the two markers were consumed in
  order, both buffers are back in the pool); until then one of the threads can move, and every move
  brings the end nearer, so there is no deadlock and no endless run.
\<close>

theorem backpressure_outcome:
  assumes "memalign_contract al" and "pool_new al demo_config m = (Inr p, m')"
    and "spsc_new z (queue_depth demo_config) = Inr q" and "s = bp_run ts (bp_start p q)"
  shows "(\<forall>e. bp_main s \<noteq> Main_threw e) \<and>
    (\<forall>code out err. bp_main s = Exited code out err \<longrightarrow> code = 0 \<and> out = bp_expected \<and> err = []) \<and>
    (bp_main s = Exited 0 bp_expected [] \<or> (\<exists>t s'. bp_step t s = Some s')) \<and>
    (\<forall>t s'. bp_step t s = Some s' \<longrightarrow> bp_rank s' < bp_rank s)"
proof -
  have two: "two_buffers p" by (rule pool_new_two [OF assms(1,2)])
  have q: "q = one_slot None" using assms(3) by (simp add: demo_config_def spsc_new_one)
  have "bp_inv p (bp_start p q)" by (simp add: bp_inv_def bp_start_def producing_def q)
  then have inv: "bp_inv p s" unfolding assms(4) by (rule bp_run_inv [OF two])
  then have "bp_main s \<noteq> Main_threw e" for e by (auto simp: bp_inv_def)
  moreover have "bp_main s = Exited code out err \<Longrightarrow> code = 0 \<and> out = bp_expected \<and> err = []" for code out err
    using inv by (auto simp: bp_inv_def)
  ultimately show ?thesis using bp_progress [OF two inv] bp_step_rank by blast
qed

lemma bump_builds:
  "validate_allocation n a = Inr () \<Longrightarrow> a \<noteq> 0 \<Longrightarrow> \<exists>bs m'. build_buffers bump_allocator k n a m = (Inr bs, m')"
proof (induction k arbitrary: m)
  case (Suc k)
  obtain b m1 where "aligned_buffer_new bump_allocator n a m = (Inr b, m1)"
    using Suc.prems by (simp add: aligned_buffer_new_def bump_allocator_def)
  moreover obtain bs m2 where "build_buffers bump_allocator k n a m1 = (Inr bs, m2)" using Suc by blast
  ultimately show ?case by simp
qed simp

lemma demo_pool: "\<exists>p m'. pool_new bump_allocator demo_config 0 = (Inr p, m')"
proof -
  have valid: "validate demo_config = Inr ()" by code_simp
  have "buffer_alignment demo_config \<noteq> 0" by (simp add: demo_config_def)
  from bump_builds [OF validate_allocation_config [OF valid] this, of "unat (max_inflight_buffers demo_config)" 0]
  show ?thesis by (auto simp: pool_new_def valid Let_def)
qed

definition bp_schedule :: "bool list" where
  "bp_schedule = [True, False, True, True, False, True, True, False, False, False, True, False, False, False, False, False, False]"

lemma bp_run_whole:
  assumes "two_buffers p"
  shows "\<exists>code out err. bp_main (bp_run bp_schedule (bp_start p (one_slot None))) = Exited code out err"
  using pool_stages(1,2) [OF assms]
  by (simp add: bp_schedule_def bp_step_def bp_start_def producer_step_def consumer_step_def producer_acquire_def
      producer_push_def pop_marker_def one_slot_push one_slot_pop handle_store_marked producer_finished_def)

theorem backpressure_outcome_witness:
  "\<exists>p q. bp_main (bp_run bp_schedule (bp_start p q)) = Exited 0 bp_expected []"
proof -
  obtain p m' where p: "pool_new bump_allocator demo_config 0 = (Inr p, m')" using demo_pool by blast
  have q: "spsc_new 24 (queue_depth demo_config) = Inr (one_slot None)"
    by (simp add: demo_config_def spsc_new_def one_slot_def)
  from bp_run_whole [OF pool_new_two [OF bump_allocator_contract p]]
    backpressure_outcome [OF bump_allocator_contract p q refl, of bp_schedule]
  show ?thesis by blast
qed

end
