(* ===== verification/Spec2Isabelle.thy ===== *)
theory Spec2Isabelle
  imports Pipeline_Config Metrics Metrics_Registry Fd_Guard File_IO Aligned_Buffer Buffer_Pool
    Work_Item Spsc_Queue Stages Pipelines Coroutines Backends Executor_Properties Atomic_Output Thread_Pool_Runs
    Serial_Reference Uring_Runs Atomic_Json Demo_Main
    Benchmark_Runs Benchmark_Matrix Percentiles Uring_Demos Read_Demos Scan_Benchmarks
    Coroutine_Demos Stage_Demos Backpressure
begin

text \<open>
  An asynchronous data loader in C++: a file is read block by block through an I/O backend,
  processed by a pipeline of stages and written to another file, by three threads that hand
  blocks over through bounded queues. This library models the program's core and proves it
  correct; each theory models the files it names, one definition per operation, with the source's
  names.

  \<^bold>\<open>Foundations.\<close>
  \<open>Prelude\<close>: machine types, exceptions (\<open>exn\<close>) and results (\<open>'a res\<close>, \<open>Inl\<close> an exception),
  file images, checked addition.
  \<open>Pipeline_Config\<close> (\<open>config/pipeline_config\<close>): the validation is exactly the stated contract.
  \<open>Metrics\<close>, \<open>Metrics_Registry\<close> (\<open>metrics/\<close>): counters, gauges with their lock-free watermark,
  histograms, and the registry of named metrics.

  \<^bold>\<open>Resources.\<close>
  \<open>Fd_Guard\<close> (\<open>util/fd_guard\<close>): unique ownership of descriptors over a kernel table.
  \<open>File_IO\<close> (\<open>util/file_io\<close>): the retry loops over an injected operating system; a loop that need
  not end is \<open>None\<close>, and returning is proved where it holds.
  \<open>Aligned_Buffer\<close>, \<open>Buffer_Pool\<close> (\<open>buffer/\<close>): allocation through a parameter, leases, the pool's
  partition into leased and available buffers.
  \<open>Work_Item\<close> (\<open>pipeline/block_work_item\<close>): a lease with a block's position and length.
  \<open>Spsc_Queue\<close> (\<open>pipeline/spsc_queue.h\<close>): the ring buffer refines a bounded list queue that can be
  closed and failed.

  \<^bold>\<open>Computation and I/O.\<close>
  \<open>Stages\<close>, \<open>Pipelines\<close> (\<open>pipeline/builtin_stages\<close>, \<open>pipeline/pipeline\<close>): what each stage computes,
  the order of stages and exceptions, one latency sample per stage that ran.
  \<open>Coroutines\<close> (\<open>coroutine/\<close>): tasks and completion requests as single-use state machines.
  \<open>Backends\<close> (\<open>backend/\<close>): the backend interface as a record of operations, \<open>SyncBackend\<close>, the
  factory's fallback policy.
  \<open>Thread_Pool\<close> (\<open>backend/thread_pool_backend\<close>): workers, queues and awaiting coroutines as steps; every
  request gets its own result, waiting makes progress, the destructor drains the queue.
  \<open>Uring\<close> (\<open>coroutine/uring_read_awaiter\<close>, \<open>backend/uring_backend\<close>): the ring's entries are exactly
  the awaiting requests. liburing is the record \<open>uring_calls\<close> with a contract over a view of the ring.

  \<^bold>\<open>The executor\<close> (\<open>pipeline/pipeline_executor\<close>). \<open>Executor\<close> gives each of its four threads a
  program counter and a step function; \<open>run_step\<close> lets any thread step, \<open>exec_reachable\<close> ranges
  over all interleavings. \<open>Executor_Resources\<close>: every lease has one holder.
  \<open>Executor_Control\<close>: who closed or failed what; no deadlock. \<open>Executor_Data\<close>,
  \<open>Executor_Output\<close>: every item in flight holds its block, so a run is three prefixes of the
  sequential program. \<open>Executor_Termination\<close>: a weight that every step lowers.
  \<open>Executor_Runs\<close>, \<open>Executor_Files\<close>, \<open>Executor_Properties\<close>: started and finished runs, runs over
  regular files, and the properties.
  \<open>Atomic_Output\<close>: \<open>run_file\<close>, which opens the input, runs into a temporary file and publishes it
  with fsync and rename; the file system is a record of calls with a contract over a view of it.

  \<open>World_Invariants\<close>: what the retry loops keep of the operating system. \<open>Thread_Pool_Runs\<close>,
  \<open>Uring_Runs\<close>: the executor over the other two backends, by showing that their complete reads are
  those of a backend that answers at once.

  \<^bold>\<open>Reports and references.\<close>
  \<open>Serial_Reference\<close> (\<open>benchmark/end_to_end_baseline\<close>, \<open>baseline/\<close>): the serial programs, whose result
  the executor's equals, and the comparison of two files.
  \<open>Json_Text\<close>, \<open>Reporter\<close>, \<open>Atomic_Json\<close> (\<open>reporting/pipeline_reporter\<close>): the JSON grammar, the rendered
  documents and that they denote the report, and their publication by rename.
  \<open>Benchmark_Report\<close> (\<open>benchmark/benchmark_stats\<close>, \<open>benchmark_report\<close>): statistics and CSV lines.
  \<open>Percentiles\<close>: over doubles that round as IEEE 754 documents, the computed ranks are the nearest ranks.
  \<open>File_Views\<close>: what opening, reading and comparing files keeps of the file system.

  \<^bold>\<open>Programs\<close>, from the argument vector to the exit code and the two output streams.
  \<open>Command_Line\<close>, \<open>Pipeline_Demo\<close>, \<open>Demo_Main\<close>: \<open>examples/preprocess_pipeline_demo.cpp\<close>.
  \<open>Benchmark_Runs\<close>, \<open>Benchmark_Matrix\<close>: \<open>benchmark/stage11_bench_end_to_end.cpp\<close> and
  \<open>stage11_bench_backends.cpp\<close>; exit code 0 means that all measured outputs were equal.
  \<open>Scan_Benchmarks\<close>: the three \<open>benchmark/stage3_bench_*.cpp\<close>.
  \<open>Uring_Demos\<close>, \<open>Read_Demos\<close>: \<open>examples/io_uring/\<close> and \<open>examples/backend_fallback_demo.cpp\<close>.
  \<open>Coroutine_Demos\<close>: \<open>examples/coroutines/\<close> over a memory of frames in which misuse of a handle is
  undefined. \<open>Stage_Demos\<close>: \<open>util/timer\<close> and the programs of stages 2 and 7. \<open>Backpressure\<close>: the
  two-thread program of stage 8, under every interleaving.

  \<^bold>\<open>Interfaces.\<close> Locales state what one part promises another: \<open>metric_kind\<close> (registry),
  \<open>lease_pool\<close> (pool), \<open>bounded_channel\<close> (queue), \<open>read_source\<close> (backend), \<open>block_independent\<close>
  (stages whose result does not depend on block boundaries). Each is interpreted on the model.

  \<^bold>\<open>Granularity and bounds.\<close> A critical section, an atomic operation and a system call are one
  step; waiting on a condition variable is a step that is not enabled, so notifications need no
  model. \<open>size_t\<close> and \<open>std::uint64_t\<close> are 64-bit words, positions inside containers natural
  numbers. Measured durations, thread-creation failures and the operating system are arguments.
  \<open>sequential_run\<close> takes fuel, one unit per block read and one for the end of the file;
  \<open>sequential_completed\<close> shows that this is enough.

  \<^bold>\<open>The environment.\<close> The operating system, the allocator, liburing, the path queries of
  \<open>std::filesystem\<close>, \<open>strerror\<close> and the arithmetic and printing of \<open>double\<close> are records of operations
  or functions; their documented behaviour is a hypothesis of the property that needs it, and each
  such property has a witness on a concrete instance. Schedules, latencies, rounds of waiting and
  measured times are arguments. The world that a run's input is read from (\<open>rc_input\<close>) and the world
  that its output is written to are separate, so a run never reads what it wrote; the code refuses
  equal input and output files.

  \<^bold>\<open>Not modelled\<close>: allocation failures of the standard containers and strings outside the buffer pool
  (and so the clean-up of \<open>AtomicOutputFile\<close>'s constructor after one), failures
  of the output streams, destruction of a backend after the last read of a program, \<open>src/main.cpp\<close> (one
  printed line), the Python scripts under \<open>benchmark/\<close> (not part of the C++ program), the tests and the
  build files.
\<close>

end
